(* ===== verification/Magio_Prelude.thy ===== *)
theory Magio_Prelude
  imports Main "HOL-Library.Word" "HOL-Library.While_Combinator"
begin

section \<open>Shared vocabulary\<close>

text \<open>
  What every component uses: the machine types of the sources, the outcome of code that
  may end the process (\<^verbatim>\<open>M_FATAL\<close>, \<^verbatim>\<open>std::terminate\<close>), the contract of a step
  relation with an invariant, the contract of the \<^verbatim>\<open>Executor\<close> interface, and the
  collections of simplification rules that the component proofs share.
\<close>

named_theorems handle_simps \<open>definitions of the handle-owning classes\<close>
named_theorems step_simps \<open>definitions of the operations that a step relation performs\<close>

subsection \<open>Machine types\<close>

text \<open>
  \<^verbatim>\<open>size_t\<close> has 64 bits. A descriptor is the \<^verbatim>\<open>int\<close> that
  \<^verbatim>\<open>SocketHandle\<close> is on Linux; points in time are the nanosecond counts of
  \<^verbatim>\<open>std::chrono::steady_clock\<close>, as integers.
\<close>

type_synonym size_t = "64 word"
type_synonym sock_handle = int
type_synonym nanos = int
type_synonym thread_id = nat

lemma unat_size_t_bound: "unat (n :: size_t) < 2 ^ 64"
  using unsigned_less [of n] by simp

lemma unat_add_one:
  assumes "Suc (unat (x :: size_t)) < 2 ^ 64"
  shows "unat (x + 1) = Suc (unat x)"
  using assms by (simp add: unat_word_ariths)

lemma unat_sub_one:
  assumes "0 < unat (x :: size_t)"
  shows "unat (x - 1) = unat x - 1"
  using assms by (simp add: unat_sub word_le_nat_alt)

lemma unat_of_nat_size_t: "n < 2 ^ 64 \<Longrightarrow> unat (of_nat n :: size_t) = n"
  by (simp add: unat_of_nat)

subsection \<open>Lists\<close>

lemma distinct_singleton_list:
  assumes "distinct xs" and "set xs = {x}"
  shows "xs = [x]"
proof -
  have "length xs = 1" using assms distinct_card [of xs] by simp
  with assms(2) show ?thesis by (cases xs) auto
qed

text \<open>How replacing one element changes the number of elements with a property.\<close>

lemma length_filter_update:
  assumes "i < length xs"
  shows "length (filter P (xs[i := x])) + of_bool (P (xs ! i)) = length (filter P xs) + of_bool (P x)"
proof -
  define as where "as = take i xs"
  define bs where "bs = drop (Suc i) xs"
  have e: "xs = as @ xs ! i # bs" using assms unfolding as_def bs_def by (rule id_take_nth_drop)
  have u: "xs[i := x] = as @ x # bs" using assms by (simp add: upd_conv_take_nth_drop as_def bs_def)
  have "length (filter P xs) = length (filter P (as @ xs ! i # bs))" using e by simp
  then show ?thesis by (simp add: u)
qed

lemma map_filter_append [simp]: "List.map_filter f (xs @ ys) = List.map_filter f xs @ List.map_filter f ys"
  by (induction xs) (simp_all add: List.map_filter_simps split: option.split)

lemma map_filter_cong:
  "(\<And>x. x \<in> set xs \<Longrightarrow> f x = g x) \<Longrightarrow> List.map_filter f xs = List.map_filter g xs"
  by (induction xs) (simp_all add: List.map_filter_simps split: option.split)

subsection \<open>Code that may end the process\<close>

text \<open>
  \<^verbatim>\<open>M_FATAL\<close> prints a message and calls \<^verbatim>\<open>std::terminate\<close>. An operation that may do
  so returns a value of this sum; the left side is the end of the process.
\<close>

datatype fatal = Fatal string

type_synonym 'a checked = "fatal + 'a"

definition bind_checked :: "'a checked \<Rightarrow> ('a \<Rightarrow> 'b checked) \<Rightarrow> 'b checked" where
  "bind_checked m f = (case m of Inl e \<Rightarrow> Inl e | Inr x \<Rightarrow> f x)"

lemma bind_checked_simps [simp]:
  "bind_checked (Inl e) f = Inl e"
  "bind_checked (Inr x) f = f x"
  by (simp_all add: bind_checked_def)

subsection \<open>Step relations with an invariant\<close>

text \<open>
  The concurrent components are step relations: one rule per critical section. The
  contract below is what each of them discharges once; reachability is
  reflexive-transitive closure.
\<close>

locale transition_system =
  fixes initial :: "'s \<Rightarrow> bool"
    and step :: "'s \<Rightarrow> 's \<Rightarrow> bool"
    and inv :: "'s \<Rightarrow> bool"
  assumes inv_initial: "initial s \<Longrightarrow> inv s"
    and inv_step: "inv s \<Longrightarrow> step s t \<Longrightarrow> inv t"
begin

lemma steps_inv: "step\<^sup>*\<^sup>* s t \<Longrightarrow> inv s \<Longrightarrow> inv t"
  by (induction rule: rtranclp_induct) (auto intro: inv_step)

lemma reachable_inv: "initial s \<Longrightarrow> step\<^sup>*\<^sup>* s t \<Longrightarrow> inv t"
  using inv_initial steps_inv by blast

end

text \<open>A run given by commands; \<open>None\<close> is a command that is not enabled.\<close>

fun run_schedule :: "('c \<Rightarrow> 's \<Rightarrow> 's option) \<Rightarrow> 'c list \<Rightarrow> 's \<Rightarrow> 's option" where
  "run_schedule exec [] s = Some s"
| "run_schedule exec (c # cs) s = (case exec c s of None \<Rightarrow> None | Some t \<Rightarrow> run_schedule exec cs t)"

lemma run_schedule_steps:
  assumes "\<And>c s t. exec c s = Some t \<Longrightarrow> step s t" and "run_schedule exec cs s = Some t"
  shows "step\<^sup>*\<^sup>* s t"
  using assms(2)
proof (induction cs arbitrary: s)
  case (Cons c cs)
  then obtain r where "exec c s = Some r" "run_schedule exec cs r = Some t" by (auto split: option.splits)
  with Cons.IH show ?case by (blast intro: converse_rtranclp_into_rtranclp assms(1))
qed simp

subsection \<open>Two loops in lockstep\<close>

text \<open>
  A loop whose steps simulate those of another, with the same decision to go on, ends exactly
  when the other does, in a related state. Refinement proofs of loops that may not end use it.
\<close>

lemma while_option_simulation:
  assumes init: "R s t"
    and guard: "\<And>s t. R s t \<Longrightarrow> b s = b' t"
    and step: "\<And>s t. R s t \<Longrightarrow> b s \<Longrightarrow> R (c s) (c' t)"
  shows "rel_option R (while_option b c s) (while_option b' c' t)"
proof -
  have rel: "R ((c ^^ k) s) ((c' ^^ k) t)" if "\<And>j. j < k \<Longrightarrow> b ((c ^^ j) s)" for k
    using that by (induction k) (auto intro: init step)
  have same: "b ((c ^^ k) s) = b' ((c' ^^ k) t)" if "\<And>j. j < k \<Longrightarrow> b ((c ^^ j) s)" for k
    using rel [OF that] guard by blast
  show ?thesis
  proof (cases "\<exists>k. \<not> b ((c ^^ k) s)")
    case True
    define k where "k = (LEAST k. \<not> b ((c ^^ k) s))"
    have stop: "\<not> b ((c ^^ k) s)" unfolding k_def using True by (rule LeastI_ex)
    have before: "b ((c ^^ j) s)" if "j < k" for j using that not_less_Least unfolding k_def by blast
    have "\<not> b' ((c' ^^ k) t)" using same [of k] before stop by blast
    moreover have "b' ((c' ^^ j) t)" if "j < k" for j
      using same [of j] before that by auto
    ultimately have "(LEAST k. \<not> b' ((c' ^^ k) t)) = k"
      by (intro Least_equality) (auto simp: not_less [symmetric])
    with True \<open>\<not> b' ((c' ^^ k) t)\<close> rel [of k] before show ?thesis
      unfolding while_option_def k_def by auto
  next
    case False
    then have "b' ((c' ^^ k) t)" for k using same [of k] by blast
    with False show ?thesis unfolding while_option_def by simp
  qed
qed

subsection \<open>The Executor interface\<close>

text \<open>
  \<^verbatim>\<open>core/execution.h\<close>: \<^verbatim>\<open>Executor::execute\<close> takes a task over. Both executors of the
  library append it to a queue that they drain from the front.
\<close>

locale executor =
  fixes submit :: "'t \<Rightarrow> 's \<Rightarrow> 's"
    and queued :: "'s \<Rightarrow> 't list"
  assumes queued_submit: "queued (submit t s) = queued s @ [t]"
begin

lemma queued_submits: "queued (fold submit ts s) = queued s @ ts"
  by (induction ts arbitrary: s) (simp_all add: queued_submit)

end

end
