(* ===== verification/Result_Error.thy ===== *)
theory Result_Error
  imports Magio_Prelude
begin

section \<open>Error codes and results (core/error.h, core/error.cpp)\<close>

text \<open>
  \<^verbatim>\<open>Result<T>\<close> carries a value and an error code side by side; a caller unwraps it with
  one of four handlers written after \<^verbatim>\<open>|\<close>. \<^verbatim>\<open>Result<void>\<close> is the instance at
  \<^typ>\<open>unit\<close>. An error code is an error when its value is not zero, as
  \<^verbatim>\<open>std::error_code::operator bool\<close> says. The text of an error is an argument of the handler
  that prints it; that of \<^verbatim>\<open>SystemError::message\<close> asks the system.
\<close>

datatype error_category = DefaultCategory | SystemErrorCategory

record error_code =
  ec_value :: int
  ec_category :: error_category

definition no_error :: error_code where
  "no_error = \<lparr>ec_value = 0, ec_category = DefaultCategory\<rparr>"

definition is_error :: "error_code \<Rightarrow> bool" where
  "is_error ec \<longleftrightarrow> ec_value ec \<noteq> 0"

definition make_system_error_code :: "int \<Rightarrow> error_code" where
  "make_system_error_code code = \<lparr>ec_value = code, ec_category = SystemErrorCategory\<rparr>"

lemma is_error_simps [simp]:
  "\<not> is_error no_error"
  "is_error (make_system_error_code c) \<longleftrightarrow> c \<noteq> 0"
  "ec_value (make_system_error_code c) = c"
  by (simp_all add: is_error_def no_error_def make_system_error_code_def)

text \<open>
  \<^verbatim>\<open>SystemError::message\<close>: the C library's \<^verbatim>\<open>strerror\<close>, or the buffer that \<^verbatim>\<open>FormatMessage\<close> allocates
  with its size, which is 0 when there is no such message.
\<close>

datatype message_source = StrError "int \<Rightarrow> string" | FormatMessage "int \<Rightarrow> string \<times> nat"

definition system_message :: "message_source \<Rightarrow> int \<Rightarrow> string" where
  "system_message src code =
     (case src of
        FormatMessage format \<Rightarrow>
          (let (pbuf, size) = format code in if size = 0 then ''Unknown error'' else take size pbuf)
      | StrError strerror \<Rightarrow> strerror code)"

subsection \<open>Result\<close>

text \<open>
  A result built from an error code alone holds a default-constructed value, which is the
  argument \<open>dflt\<close> here.
\<close>

record 'a result =
  res_value :: 'a
  res_ec :: error_code

definition result_of :: "'a \<Rightarrow> error_code \<Rightarrow> 'a result" where
  "result_of v ec = \<lparr>res_value = v, res_ec = ec\<rparr>"

definition result_error :: "'a \<Rightarrow> error_code \<Rightarrow> 'a result" where
  "result_error dflt ec = \<lparr>res_value = dflt, res_ec = ec\<rparr>"

lemma result_sel [simp]:
  "res_value (result_of v ec) = v" "res_ec (result_of v ec) = ec"
  "res_value (result_error v ec) = v" "res_ec (result_error v ec) = ec"
  by (simp_all add: result_of_def result_error_def)

subsection \<open>The handlers\<close>

text \<open>
  \<^verbatim>\<open>redirect_err(ec)\<close> holds a reference; \<^verbatim>\<open>set_code\<close> writes through it. The model takes the
  referenced variable's old contents and returns its new contents beside the value.
\<close>

definition set_code :: "error_code \<Rightarrow> error_code \<Rightarrow> error_code" where
  "set_code old ec = ec"

definition pipe_redirect :: "'a result \<Rightarrow> error_code \<Rightarrow> 'a \<times> error_code" where
  "pipe_redirect r old = (res_value r, set_code old (res_ec r))"

definition pipe_as_tuple :: "'a result \<Rightarrow> 'a \<times> error_code" where
  "pipe_as_tuple r = (res_value r, res_ec r)"

definition pipe_throw :: "'a result \<Rightarrow> error_code + 'a" where
  "pipe_throw r = (if is_error (res_ec r) then Inl (res_ec r) else Inr (res_value r))"

definition pipe_panic :: "(error_code \<Rightarrow> string) \<Rightarrow> string option \<Rightarrow> 'a result \<Rightarrow> 'a checked" where
  "pipe_panic message prefix r =
     (if is_error (res_ec r)
      then (case prefix of
              Some p \<Rightarrow> Inl (Fatal (p @ ''\<newline>panic: '' @ message (res_ec r) @ ''\<newline>''))
            | None \<Rightarrow> Inl (Fatal (''panic: '' @ message (res_ec r) @ ''\<newline>'')))
      else Inr (res_value r))"

text \<open>The two objects that panic: without and with a prefix.\<close>

definition panic_on_err :: "string option" where
  "panic_on_err = None"

definition expect :: "string \<Rightarrow> string option" where
  "expect msg = Some msg"

definition try_rethrow :: "'e option \<Rightarrow> 'e + unit" where
  "try_rethrow eptr = (case eptr of Some e \<Rightarrow> Inl e | None \<Rightarrow> Inr ())"

lemma pipe_throw_iff:
  "pipe_throw r = Inr v \<longleftrightarrow> \<not> is_error (res_ec r) \<and> res_value r = v"
  by (auto simp: pipe_throw_def)

lemma pipe_redirect_eq [simp]: "pipe_redirect r old = (res_value r, res_ec r)"
  by (simp add: pipe_redirect_def set_code_def)

text \<open>A panic says what the program expected and why it did not get it.\<close>

lemma panic_says_why:
  assumes "is_error (res_ec r)"
  shows "\<exists>head. pipe_panic (\<lambda>ec. system_message src (ec_value ec)) (expect msg) r
      = Inl (Fatal (msg @ head @ system_message src (ec_value (res_ec r)) @ ''\<newline>''))
    \<and> pipe_panic (\<lambda>ec. system_message src (ec_value ec)) panic_on_err r
      = Inl (Fatal (tl head @ system_message src (ec_value (res_ec r)) @ ''\<newline>''))"
  using assms by (intro exI [of _ "''\<newline>panic: ''"]) (simp add: pipe_panic_def expect_def panic_on_err_def)

text \<open>
  The four ways to consume a result see the same outcome: the throwing and the panicking
  handler return exactly when the tuple's code is no error, with the tuple's value, and
  what redirecting leaves in the caller's variable is the tuple's code, whatever an earlier
  operation had left there.
\<close>

lemma handlers_agree:
  "pipe_redirect r old = pipe_as_tuple r
   \<and> (\<forall>v. pipe_throw r = Inr v \<longleftrightarrow> pipe_panic message p r = Inr v)
   \<and> (pipe_throw r = Inl (snd (pipe_as_tuple r)) \<longleftrightarrow> is_error (snd (pipe_as_tuple r)))"
  by (auto simp: pipe_as_tuple_def pipe_throw_def pipe_panic_def split: option.splits)

end
