(* ===== verification/Static_Buffer.thy ===== *)
theory Static_Buffer
  imports Magio_Prelude
begin

section \<open>Fixed-size buffers (utils/buffer.h)\<close>

text \<open>
  \<^verbatim>\<open>StaticBuffer<Size>\<close> is an array of \<^verbatim>\<open>Size\<close> characters and the number of them in use. The
  template parameter is the argument \<open>cap\<close>. \<^verbatim>\<open>std::memcpy\<close> beyond the array is undefined
  behaviour: \<open>memcpy_at\<close> is \<^term>\<open>None\<close> there, so a call that returns \<^term>\<open>Some\<close> is one that
  stays inside the array.
\<close>

definition kFormatBufferSize :: nat where "kFormatBufferSize = 4000"
definition kSmallBufferSize :: nat where "kSmallBufferSize = 4000 * 100"
definition kLargeBufferSize :: nat where "kLargeBufferSize = 4000 * 1000"

record static_buffer =
  sb_buf :: "char list"
  sb_size :: size_t

definition memcpy_at :: "'a list \<Rightarrow> nat \<Rightarrow> 'a list \<Rightarrow> 'a list option" where
  "memcpy_at dst pos src =
     (if pos + length src \<le> length dst
      then Some (take pos dst @ src @ drop (pos + length src) dst) else None)"

definition sb_rest :: "nat \<Rightarrow> static_buffer \<Rightarrow> size_t" where
  "sb_rest cap b = of_nat cap - sb_size b"

definition sb_append :: "nat \<Rightarrow> char list \<Rightarrow> static_buffer \<Rightarrow> (size_t \<times> static_buffer) option" where
  "sb_append cap msg b =
     (let cplen = min (sb_rest cap b) (of_nat (length msg))
      in case memcpy_at (sb_buf b) (unat (sb_size b)) (take (unat cplen) msg) of
           None \<Rightarrow> None
         | Some buf \<Rightarrow> Some (cplen, b\<lparr>sb_buf := buf, sb_size := sb_size b + cplen\<rparr>))"

text \<open>
  \<^verbatim>\<open>fmt::vformat_to_n\<close> is library code outside the repository and an argument here: given the
  room \<open>n\<close>, the format and the arguments it gives the characters it stores and the size it
  reports.
\<close>

type_synonym 'args formatter = "nat \<Rightarrow> string \<Rightarrow> 'args \<Rightarrow> char list \<times> size_t"

definition sb_append_format ::
  "'args formatter \<Rightarrow> nat \<Rightarrow> string \<Rightarrow> 'args \<Rightarrow> static_buffer \<Rightarrow> (size_t \<times> static_buffer) option" where
  "sb_append_format vformat_to_n cap fmt args b =
     (let sv = vformat_to_n (unat (sb_rest cap b)) fmt args
      in case memcpy_at (sb_buf b) (unat (sb_size b)) (fst sv) of
           None \<Rightarrow> None
         | Some buf \<Rightarrow> Some (snd sv, b\<lparr>sb_buf := buf, sb_size := sb_size b + snd sv\<rparr>))"

definition sb_clear :: "static_buffer \<Rightarrow> static_buffer" where
  "sb_clear b = b\<lparr>sb_size := 0\<rparr>"

definition sb_slice :: "static_buffer \<Rightarrow> char list" where
  "sb_slice b = take (unat (sb_size b)) (sb_buf b)"

definition sb_slice_at :: "size_t \<Rightarrow> size_t \<Rightarrow> static_buffer \<Rightarrow> char list" where
  "sb_slice_at pos count b =
     (if pos \<ge> sb_size b then []
      else take (unat (min count (sb_size b - pos))) (drop (unat pos) (sb_buf b)))"

subsection \<open>The invariant\<close>

definition sb_wf :: "nat \<Rightarrow> static_buffer \<Rightarrow> bool" where
  "sb_wf cap b \<longleftrightarrow> cap < 2 ^ 64 \<and> length (sb_buf b) = cap \<and> unat (sb_size b) \<le> cap"

lemma memcpy_at_Some:
  "pos + length src \<le> length dst \<Longrightarrow>
     memcpy_at dst pos src = Some (take pos dst @ src @ drop (pos + length src) dst)"
  by (simp add: memcpy_at_def)

lemma length_memcpy_at: "memcpy_at dst pos src = Some d \<Longrightarrow> length d = length dst"
  by (auto simp: memcpy_at_def split: if_splits)

lemma take_memcpy_at:
  "memcpy_at dst pos src = Some d \<Longrightarrow> take (pos + length src) d = take pos dst @ src"
  by (auto simp: memcpy_at_def split: if_splits)

lemma unat_sb_rest: "sb_wf cap b \<Longrightarrow> unat (sb_rest cap b) = cap - unat (sb_size b)"
  by (simp add: sb_wf_def sb_rest_def unat_sub word_le_nat_alt unat_of_nat_size_t)

lemma sb_wf_new: "length cs < 2 ^ 64 \<Longrightarrow> sb_wf (length cs) \<lparr>sb_buf = cs, sb_size = 0\<rparr>"
  by (simp add: sb_wf_def)

lemma sb_wf_clear: "sb_wf cap b \<Longrightarrow> sb_wf cap (sb_clear b)"
  by (simp add: sb_wf_def sb_clear_def)

lemma sb_slice_clear [simp]: "sb_slice (sb_clear b) = []"
  by (simp add: sb_slice_def sb_clear_def)

lemma length_sb_slice: "sb_wf cap b \<Longrightarrow> length (sb_slice b) = unat (sb_size b)"
  by (simp add: sb_wf_def sb_slice_def)

lemma unat_min_size_t: "unat (min (a :: size_t) b) = min (unat a) (unat b)"
  by (simp add: min_def word_le_nat_alt)

lemma sb_store:
  assumes wf: "sb_wf cap b" and room: "length src \<le> cap - unat (sb_size b)"
  obtains buf where "memcpy_at (sb_buf b) (unat (sb_size b)) src = Some buf"
    and "sb_wf cap (b\<lparr>sb_buf := buf, sb_size := sb_size b + of_nat (length src)\<rparr>)"
    and "sb_slice (b\<lparr>sb_buf := buf, sb_size := sb_size b + of_nat (length src)\<rparr>) = sb_slice b @ src"
proof -
  let ?n = "unat (sb_size b)"
  have le: "?n + length src \<le> cap" using wf room by (auto simp: sb_wf_def)
  then obtain buf where buf: "memcpy_at (sb_buf b) ?n src = Some buf"
    using wf by (simp add: sb_wf_def memcpy_at_Some)
  have n: "unat (sb_size b + of_nat (length src)) = ?n + length src"
    using wf le by (simp add: sb_wf_def unat_word_ariths unat_of_nat)
  show thesis
  proof
    show "memcpy_at (sb_buf b) ?n src = Some buf" by (fact buf)
    show "sb_wf cap (b\<lparr>sb_buf := buf, sb_size := sb_size b + of_nat (length src)\<rparr>)"
      using wf le n length_memcpy_at [OF buf] by (simp add: sb_wf_def)
    show "sb_slice (b\<lparr>sb_buf := buf, sb_size := sb_size b + of_nat (length src)\<rparr>) = sb_slice b @ src"
      using n take_memcpy_at [OF buf] by (simp add: sb_slice_def)
  qed
qed

subsection \<open>Appending\<close>

lemma sb_append_spec:
  assumes wf: "sb_wf cap b" and len: "length msg < 2 ^ 64"
  defines "k \<equiv> min (cap - unat (sb_size b)) (length msg)"
  shows "\<exists>b'. sb_append cap msg b = Some (of_nat k, b') \<and> sb_wf cap b'
              \<and> sb_slice b' = sb_slice b @ take k msg"
proof -
  let ?c = "min (sb_rest cap b) (of_nat (length msg))"
  have k: "unat ?c = k"
    using wf len by (simp add: unat_min_size_t unat_sb_rest unat_of_nat_size_t k_def)
  then have c: "?c = of_nat k" by (metis of_nat_unat ucast_id)
  have room: "length (take k msg) \<le> cap - unat (sb_size b)" by (simp add: k_def)
  obtain buf where "memcpy_at (sb_buf b) (unat (sb_size b)) (take k msg) = Some buf"
    and "sb_wf cap (b\<lparr>sb_buf := buf, sb_size := sb_size b + of_nat (length (take k msg))\<rparr>)"
    and "sb_slice (b\<lparr>sb_buf := buf, sb_size := sb_size b + of_nat (length (take k msg))\<rparr>)
         = sb_slice b @ take k msg"
    using sb_store [OF wf room] by metis
  moreover have "length (take k msg) = k" by (simp add: k_def)
  ultimately show ?thesis using k c by (auto simp: sb_append_def Let_def)
qed

lemma sb_append_fits:
  assumes "sb_wf cap b" and "unat (sb_size b) + length msg \<le> cap"
  shows "\<exists>b'. sb_append cap msg b = Some (of_nat (length msg), b') \<and> sb_wf cap b'
              \<and> sb_slice b' = sb_slice b @ msg"
proof -
  have len: "length msg < 2 ^ 64" using assms by (simp add: sb_wf_def)
  have "min (cap - unat (sb_size b)) (length msg) = length msg" using assms(2) by simp
  then show ?thesis using sb_append_spec [OF assms(1) len] by simp
qed

lemma sb_slice_at_eq:
  assumes wf: "sb_wf cap b"
  shows "sb_slice_at pos count b = take (unat count) (drop (unat pos) (sb_slice b))"
proof (cases "pos \<ge> sb_size b")
  case True
  then show ?thesis
    using length_sb_slice [OF wf] by (simp add: sb_slice_at_def word_le_nat_alt)
next
  case False
  then have le: "pos \<le> sb_size b" by simp
  have "unat (min count (sb_size b - pos)) = min (unat count) (unat (sb_size b) - unat pos)"
    using le by (simp add: unat_min_size_t unat_sub)
  with False show ?thesis
    by (simp add: sb_slice_at_def sb_slice_def drop_take min.commute)
qed

subsection \<open>Formatting\<close>

text \<open>
  What \<^verbatim>\<open>fmt\<close> documents: at most \<open>n\<close> characters of the output are stored, and the size
  reported is that of the whole output, stored or not.
\<close>

definition format_to_n_spec :: "'args formatter \<Rightarrow> (string \<Rightarrow> 'args \<Rightarrow> char list) \<Rightarrow> bool" where
  "format_to_n_spec vformat_to_n full \<longleftrightarrow>
     (\<forall>n fmt args. vformat_to_n n fmt args = (take n (full fmt args), of_nat (length (full fmt args))))"

lemma sb_append_format_fits:
  assumes wf: "sb_wf cap b" and spec: "format_to_n_spec vformat_to_n full"
    and fits: "unat (sb_size b) + length (full fmt args) \<le> cap"
  shows "sb_append_format vformat_to_n cap fmt args b = sb_append cap (full fmt args) b"
proof -
  have len: "length (full fmt args) < 2 ^ 64" using wf fits by (simp add: sb_wf_def)
  have r: "length (full fmt args) \<le> unat (sb_rest cap b)"
    using unat_sb_rest [OF wf] fits by simp
  then have "min (sb_rest cap b) (of_nat (length (full fmt args))) = of_nat (length (full fmt args))"
    using len by (intro min_absorb2) (simp add: word_le_nat_alt unat_of_nat_size_t)
  with r len spec show ?thesis
    by (simp add: sb_append_format_def sb_append_def format_to_n_spec_def unat_of_nat_size_t Let_def
        split: option.split)
qed

lemma sb_append_format_overflow:
  assumes wf: "sb_wf cap b" and spec: "format_to_n_spec vformat_to_n full"
    and long: "cap < unat (sb_size b) + length (full fmt args)"
    and len: "unat (sb_size b) + length (full fmt args) < 2 ^ 64"
  shows "\<exists>b'. sb_append_format vformat_to_n cap fmt args b = Some (of_nat (length (full fmt args)), b')
              \<and> unat (sb_size b') = unat (sb_size b) + length (full fmt args)
              \<and> length (sb_buf b') = cap"
proof -
  let ?w = "take (unat (sb_rest cap b)) (full fmt args)"
  have "length ?w \<le> cap - unat (sb_size b)" using unat_sb_rest [OF wf] by simp
  then have "unat (sb_size b) + length ?w \<le> length (sb_buf b)"
    using wf unfolding sb_wf_def by linarith
  then obtain buf where buf: "memcpy_at (sb_buf b) (unat (sb_size b)) ?w = Some buf"
    using memcpy_at_Some by blast
  have "unat (sb_size b + of_nat (length (full fmt args))) = unat (sb_size b) + length (full fmt args)"
    using len by (simp add: unat_word_ariths unat_of_nat)
  with buf spec wf length_memcpy_at [OF buf] show ?thesis
    by (simp add: sb_append_format_def format_to_n_spec_def sb_wf_def)
qed

lemma sb_append_overrun:
  assumes size: "length (sb_buf b) < unat (sb_size b)"
  shows "sb_append cap msg b = None"
  using size by (simp add: sb_append_def memcpy_at_def Let_def)

subsection \<open>Properties\<close>

text \<open>
  Property C36: appending to a well-formed buffer never writes outside the array; it stores
  the longest prefix of the message that fits behind what is there, reports that prefix's
  length, and leaves the buffer well-formed.
\<close>

theorem append_stays_in_bounds:
  assumes "sb_wf cap b" and "length msg < 2 ^ 64"
  shows "\<exists>n b'. sb_append cap msg b = Some (n, b')
    \<and> unat n = min (cap - unat (sb_size b)) (length msg)
    \<and> sb_slice b' = sb_slice b @ take (unat n) msg
    \<and> sb_wf cap b'"
proof -
  let ?k = "min (cap - unat (sb_size b)) (length msg)"
  have "unat (of_nat ?k :: size_t) = ?k"
    using assms(2) by (intro unat_of_nat_size_t) simp
  with sb_append_spec [OF assms] show ?thesis by auto
qed

theorem append_stays_in_bounds_witness:
  "\<exists>n b'. sb_append 4 ''hello'' \<lparr>sb_buf = ''abcd'', sb_size = 1\<rparr> = Some (n, b')
    \<and> unat n = min (4 - 1) 5
    \<and> sb_slice b' = ''a'' @ take (unat n) ''hello'' \<and> sb_wf 4 b'"
proof -
  let ?b = "\<lparr>sb_buf = ''abcd'', sb_size = 1\<rparr>"
  have "sb_wf 4 ?b" and "length ''hello'' < 2 ^ 64" by (simp_all add: sb_wf_def)
  from append_stays_in_bounds [OF this]
  have "\<exists>n b'. sb_append 4 ''hello'' ?b = Some (n, b') \<and> unat n = min (4 - unat (sb_size ?b)) (length ''hello'')
      \<and> sb_slice b' = sb_slice ?b @ take (unat n) ''hello'' \<and> sb_wf 4 b'" .
  moreover have "sb_slice ?b = ''a''" by (simp add: sb_slice_def)
  ultimately show ?thesis by (simp add: numeral_3_eq_3)
qed

text \<open>
  Formatting output that is longer than the room left makes the buffer claim
  more characters than its array has, and every later append then addresses memory outside
  the array: \<^verbatim>\<open>append_format\<close> adds the size of the whole output, not of what was
  stored.
\<close>

theorem append_format_overflow_unsafe:
  assumes "sb_wf cap b" and "format_to_n_spec vformat_to_n full"
    and "cap < unat (sb_size b) + length (full fmt args)"
    and "unat (sb_size b) + length (full fmt args) < 2 ^ 64"
  shows "\<exists>n b'. sb_append_format vformat_to_n cap fmt args b = Some (n, b')
    \<and> \<not> sb_wf cap b' \<and> (\<forall>msg. sb_append cap msg b' = None)"
proof -
  obtain b' where b': "sb_append_format vformat_to_n cap fmt args b = Some (of_nat (length (full fmt args)), b')"
    and n: "unat (sb_size b') = unat (sb_size b) + length (full fmt args)"
    and cap: "length (sb_buf b') = cap"
    using sb_append_format_overflow [OF assms] by blast
  have size: "cap < unat (sb_size b')" unfolding n by (fact assms(3))
  have "\<not> sb_wf cap b'" using size by (simp add: sb_wf_def)
  moreover have "\<forall>msg. sb_append cap msg b' = None"
    using size cap by (simp add: sb_append_overrun)
  ultimately show ?thesis using b' by blast
qed

theorem append_format_overflow_unsafe_witness:
  "\<exists>n b'. sb_append_format (\<lambda>n fmt args. (take n (fmt @ args), of_nat (length (fmt @ args)))) 4 ''hel'' ''lo''
              \<lparr>sb_buf = ''abcd'', sb_size = 1\<rparr> = Some (n, b')
    \<and> \<not> sb_wf 4 b' \<and> (\<forall>msg. sb_append 4 msg b' = None)"
  using append_format_overflow_unsafe
    [of 4 "\<lparr>sb_buf = ''abcd'', sb_size = 1\<rparr>" "\<lambda>n fmt args. (take n (fmt @ args), of_nat (length (fmt @ args)))"
       "\<lambda>fmt args. fmt @ args" "''hel''" "''lo''"]
  by (simp add: sb_wf_def format_to_n_spec_def)

end
