(* ===== verification/Type_Traits.thy ===== *)
theory Type_Traits
  imports Magio_Prelude
begin

section \<open>Type-level places (utils/traits.h)\<close>

text \<open>
  \<^verbatim>\<open>join\<close> and \<^verbatim>\<open>series\<close> collect the results of coroutines of several types, some of them
  \<^verbatim>\<open>void\<close>. Two template computations say where a result goes: \<^verbatim>\<open>RemoveVoid\<close> drops the void
  types, and \<^verbatim>\<open>FindNonVoidPlace\<close> gives each position of the original list its position in
  the shortened one, or \<^verbatim>\<open>(size_t)-1\<close> for a void. Templates compute by pattern matching,
  one specialisation per equation.
\<close>

datatype 'k cpp_type = Void | Ty 'k

fun find_non_void_place :: "size_t list \<Rightarrow> size_t \<Rightarrow> 'k cpp_type list \<Rightarrow> size_t list" where
  "find_non_void_place idx n [] = idx"
| "find_non_void_place idx n (Void # ts) = find_non_void_place (idx @ [- 1]) n ts"
| "find_non_void_place idx n (Ty k # ts) = find_non_void_place (idx @ [n]) (n + 1) ts"

fun remove_void :: "'k list \<Rightarrow> 'k cpp_type list \<Rightarrow> 'k list" where
  "remove_void ts [] = ts"
| "remove_void ts (Void # us) = remove_void ts us"
| "remove_void ts (Ty k # us) = remove_void (ts @ [k]) us"

definition non_void_place_sequence :: "'k cpp_type list \<Rightarrow> size_t list" where
  "non_void_place_sequence ts = find_non_void_place [] 0 ts"

definition remove_void_tuple :: "'k cpp_type list \<Rightarrow> 'k list" where
  "remove_void_tuple ts = remove_void [] ts"

text \<open>\<^verbatim>\<open>VoidToUnit\<close> (\<^verbatim>\<open>core/unit.h\<close>): a type that can be stored in place of any other.\<close>

definition void_to_unit :: "'k \<Rightarrow> 'k cpp_type \<Rightarrow> 'k" where
  "void_to_unit unit_type t = (case t of Void \<Rightarrow> unit_type | Ty k \<Rightarrow> k)"

subsection \<open>Callables and ranges\<close>

text \<open>
  \<^verbatim>\<open>Function<F>\<close>: the result and the parameters of anything that can be called, by reduction to a plain
  function type: functions and pointers to them, members (const, \<^verbatim>\<open>noexcept\<close>, both), and objects by the type
  of their \<^verbatim>\<open>operator()\<close>. A class without one does not compile, which is \<open>None\<close>.
\<close>

datatype 'k callable =
  FunctionType 'k "'k list" bool | FunctionPointer 'k "'k list" bool | MemberPointer 'k "'k list" bool bool
| CallObject "'k callable" | OtherClass

fun reductions :: "'k callable \<Rightarrow> nat" where
  "reductions (FunctionType r ps noexc) = (if noexc then 1 else 0)"
| "reductions (CallObject c) = Suc (reductions c)"
| "reductions _ = 2"

function function_traits :: "'k callable \<Rightarrow> ('k \<times> 'k list) option" where
  "function_traits (FunctionType r ps False) = Some (r, ps)"
| "function_traits (FunctionType r ps True) = function_traits (FunctionType r ps False)"
| "function_traits (FunctionPointer r ps noexc) = function_traits (FunctionType r ps False)"
| "function_traits (MemberPointer r ps const noexc) = function_traits (FunctionType r ps False)"
| "function_traits (CallObject c) = function_traits c"
| "function_traits OtherClass = None"
  by pat_completeness auto
termination
  by (relation "measure reductions") auto

text \<open>However an object's call operator is declared, and through however many objects, the answer is there.\<close>

fun callable_core :: "'k callable \<Rightarrow> 'k callable" where
  "callable_core (CallObject c) = callable_core c"
| "callable_core c = c"

lemma function_traits_total: "function_traits c = None \<longleftrightarrow> callable_core c = OtherClass"
  by (induction c rule: function_traits.induct) auto

text \<open>\<^verbatim>\<open>IsRange\<close>: both \<^verbatim>\<open>begin()\<close> and \<^verbatim>\<open>end()\<close>; \<^verbatim>\<open>RangeTraits\<close>: the iterator and what it refers to, without the reference.\<close>

datatype 'k value_type = Plain 'k | Reference 'k

record 'k range_class =
  rc_begin :: "('k \<times> 'k value_type) option"
  rc_end :: "'k option"

definition is_range :: "'k range_class \<Rightarrow> bool" where
  "is_range r \<longleftrightarrow> rc_begin r \<noteq> None \<and> rc_end r \<noteq> None"

definition remove_reference :: "'k value_type \<Rightarrow> 'k" where
  "remove_reference v = (case v of Plain k \<Rightarrow> k | Reference k \<Rightarrow> k)"

definition range_traits :: "'k range_class \<Rightarrow> ('k \<times> 'k) option" where
  "range_traits r = map_option (\<lambda>(it, v). (it, remove_reference v)) (rc_begin r)"

lemma range_has_traits: "is_range r \<Longrightarrow> range_traits r \<noteq> None"
  by (auto simp: is_range_def range_traits_def)

subsection \<open>Closed forms\<close>

definition is_ty :: "'k cpp_type \<Rightarrow> bool" where
  "is_ty t \<longleftrightarrow> t \<noteq> Void"

lemma is_ty_simps [simp]: "\<not> is_ty Void" "is_ty (Ty k)"
  by (simp_all add: is_ty_def)

fun place_from :: "nat \<Rightarrow> 'k cpp_type list \<Rightarrow> size_t list" where
  "place_from n [] = []"
| "place_from n (Void # ts) = (- 1) # place_from n ts"
| "place_from n (Ty k # ts) = of_nat n # place_from (Suc n) ts"

lemma find_non_void_place_acc:
  "find_non_void_place idx (of_nat n) ts = idx @ place_from n ts"
proof (induction ts arbitrary: idx n)
  case Nil
  then show ?case by simp
next
  case (Cons t ts)
  have suc: "of_nat n + 1 = (of_nat (Suc n) :: size_t)" by (simp add: add.commute)
  show ?case
    using Cons.IH [of "idx @ [- 1]" n] Cons.IH [of "idx @ [of_nat n]" "Suc n"]
    by (cases t) (simp_all only: find_non_void_place.simps place_from.simps suc append_assoc
        append.simps)
qed

lemma non_void_place_sequence_eq: "non_void_place_sequence ts = place_from 0 ts"
  using find_non_void_place_acc [of "[]" 0 ts] by (simp add: non_void_place_sequence_def)

lemma remove_void_acc: "remove_void acc ts = acc @ remove_void_tuple ts"
  unfolding remove_void_tuple_def
proof (induction ts arbitrary: acc)
  case Nil
  then show ?case by simp
next
  case (Cons t ts)
  have ih: "remove_void (acc @ [k]) ts = acc @ remove_void [k] ts" for k
    using Cons.IH [of "acc @ [k]"] Cons.IH [of "[k]"] by simp
  show ?case using ih Cons.IH [of acc] by (cases t) simp_all
qed

lemma remove_void_tuple_simps [simp]:
  "remove_void_tuple [] = []"
  "remove_void_tuple (Void # ts) = remove_void_tuple ts"
  "remove_void_tuple (Ty k # ts) = k # remove_void_tuple ts"
  using remove_void_acc [of "[k]" ts] by (simp_all add: remove_void_tuple_def)

text \<open>What is stored of the results that are not void is what \<^verbatim>\<open>RemoveVoid\<close> keeps.\<close>

lemma remove_void_stores: "remove_void_tuple ts = map (void_to_unit unit_type) (filter is_ty ts)"
  by (induction ts) (auto simp: void_to_unit_def is_ty_def split: cpp_type.splits)

lemma length_place_from [simp]: "length (place_from n ts) = length ts"
  by (induction n ts rule: place_from.induct) simp_all

lemma length_remove_void_tuple: "length (remove_void_tuple ts) = length (filter is_ty ts)"
proof (induction ts)
  case (Cons t ts)
  then show ?case by (cases t) simp_all
qed simp

lemma place_from_nth:
  "i < length ts \<Longrightarrow> place_from n ts ! i =
     (if ts ! i = Void then - 1 else of_nat (n + length (filter is_ty (take i ts))))"
proof (induction n ts arbitrary: i rule: place_from.induct)
  case (2 n ts)
  then show ?case by (cases i) simp_all
next
  case (3 n k ts)
  then show ?case by (cases i) simp_all
qed simp

lemma remove_void_tuple_nth:
  "i < length ts \<Longrightarrow> ts ! i = Ty k \<Longrightarrow>
     length (filter is_ty (take i ts)) < length (remove_void_tuple ts)
     \<and> remove_void_tuple ts ! length (filter is_ty (take i ts)) = k"
proof (induction ts arbitrary: i)
  case Nil
  then show ?case by simp
next
  case (Cons t ts)
  then show ?case
    by (cases i; cases t) auto
qed

lemma filter_take_less:
  "i < j \<Longrightarrow> j \<le> length ts \<Longrightarrow> P (ts ! i) \<Longrightarrow>
     length (filter P (take i ts)) < length (filter P (take j ts))"
proof -
  assume less: "i < j" and j: "j \<le> length ts" and P: "P (ts ! i)"
  have "take j ts = take (Suc i) ts @ take (j - Suc i) (drop (Suc i) ts)"
    using less take_add [of "Suc i" "j - Suc i" ts] by simp
  moreover have "take (Suc i) ts = take i ts @ [ts ! i]"
    using less j by (simp add: take_Suc_conv_app_nth)
  ultimately show ?thesis using P by simp
qed

lemma place_nth:
  assumes len: "length ts < 2 ^ 64 - 1" and i: "i < length ts"
  shows "ts ! i = Void \<Longrightarrow> non_void_place_sequence ts ! i = - 1"
    and "ts ! i = Ty k \<Longrightarrow> unat (non_void_place_sequence ts ! i) = length (filter is_ty (take i ts))"
proof -
  show "ts ! i = Void \<Longrightarrow> non_void_place_sequence ts ! i = - 1"
    using i by (simp add: non_void_place_sequence_eq place_from_nth)
  have "length (filter is_ty (take i ts)) \<le> i"
    by (metis length_filter_le length_take min.bounded_iff)
  with len i show "ts ! i = Ty k \<Longrightarrow>
      unat (non_void_place_sequence ts ! i) = length (filter is_ty (take i ts))"
    by (simp add: non_void_place_sequence_eq place_from_nth unat_of_nat_size_t)
qed

lemma place_not_sentinel:
  assumes len: "length ts < 2 ^ 64 - 1" and i: "i < length ts" and "ts ! i \<noteq> Void"
  shows "non_void_place_sequence ts ! i \<noteq> - 1"
proof
  assume eq: "non_void_place_sequence ts ! i = - 1"
  have bound: "length (filter is_ty (take i ts)) < 2 ^ 64 - 1"
    by (rule le_less_trans [OF _ len]) (metis length_filter_le length_take min.bounded_iff)
  obtain k where "ts ! i = Ty k" using assms(3) by (cases "ts ! i") auto
  moreover have "unat (- 1 :: size_t) = 2 ^ 64 - 1"
    by (simp add: unsigned_minus_1_eq_mask mask_eq_exp_minus_1)
  ultimately show False using place_nth(2) [OF len i] eq bound by simp
qed

subsection \<open>Properties\<close>

text \<open>
  Property C37: the index a coroutine's result is stored at is right: a void coroutine gets
  the sentinel and no other does, a value goes to the component of the shortened tuple that
  has its type, and different coroutines have different components.
\<close>

theorem result_places_correct:
  assumes len: "length ts < 2 ^ 64 - 1" and i: "i < length ts"
  shows "(ts ! i = Void \<longleftrightarrow> non_void_place_sequence ts ! i = - 1)
    \<and> (\<forall>k. ts ! i = Ty k \<longrightarrow>
         unat (non_void_place_sequence ts ! i) < length (remove_void_tuple ts)
         \<and> remove_void_tuple ts ! unat (non_void_place_sequence ts ! i) = k)
    \<and> (\<forall>j < length ts. i < j \<longrightarrow> ts ! i \<noteq> Void \<longrightarrow> ts ! j \<noteq> Void \<longrightarrow>
         non_void_place_sequence ts ! i < non_void_place_sequence ts ! j)"
proof (intro conjI allI impI)
  have "ts ! i \<noteq> Void \<Longrightarrow> non_void_place_sequence ts ! i \<noteq> - 1" by (rule place_not_sentinel [OF len i])
  then show "ts ! i = Void \<longleftrightarrow> non_void_place_sequence ts ! i = - 1"
    using place_nth(1) [OF len i] by blast
next
  fix k assume k: "ts ! i = Ty k"
  show "unat (non_void_place_sequence ts ! i) < length (remove_void_tuple ts)"
    and "remove_void_tuple ts ! unat (non_void_place_sequence ts ! i) = k"
    using remove_void_tuple_nth [OF i k] place_nth(2) [OF len i k] by simp_all
next
  fix j assume j: "j < length ts" "i < j" and "ts ! i \<noteq> Void" "ts ! j \<noteq> Void"
  then obtain k l where k: "ts ! i = Ty k" and l: "ts ! j = Ty l"
    by (cases "ts ! i"; cases "ts ! j") auto
  show "non_void_place_sequence ts ! i < non_void_place_sequence ts ! j"
    using filter_take_less [of i j ts is_ty] j k
    by (simp add: word_less_nat_alt place_nth(2) [OF len i k] place_nth(2) [OF len j(1) l] is_ty_def)
qed

theorem result_places_correct_witness:
  "let ts = [Ty ''int'', Void, Ty ''string'']
   in non_void_place_sequence ts ! 2 \<noteq> - 1
      \<and> remove_void_tuple ts ! unat (non_void_place_sequence ts ! 2) = ''string''
      \<and> non_void_place_sequence ts ! 0 < non_void_place_sequence ts ! 2"
  using result_places_correct [of "[Ty ''int'', Void, Ty ''string'']" 2]
    result_places_correct [of "[Ty ''int'', Void, Ty ''string'']" 0]
  by (simp add: Let_def)

end
