(* ===== verification/Functor_Ownership.thy ===== *)
theory Functor_Ownership
  imports Magio_Prelude
begin

section \<open>Move-only function objects (utils/functor.h)\<close>

text \<open>
  \<^verbatim>\<open>Functor<Ret(Args...)>\<close> is the library's type of tasks and callbacks. It holds a tag and a
  union of a C function pointer and an owning pointer to a heap object; the destructor deletes
  the object. The model keeps the heap of those objects explicit, so that deleting twice or
  calling through a dead pointer is visible: such an operation is \<^term>\<open>None\<close>. The default
  constructor leaves the tag uninitialised, which is the \<^term>\<open>None\<close> of \<open>f_strategy\<close>.
\<close>

datatype strategy = CFunction | ClassFunction

datatype 'c fun_ptr = NullPtr | CFunc 'c | ObjPtr nat

record 'c functor_t =
  f_strategy :: "strategy option"
  f_impl :: "'c fun_ptr"

record 'o obj_heap =
  oh_objs :: "nat \<rightharpoonup> 'o"
  oh_next :: nat

definition functor_default :: "'c functor_t" where
  "functor_default = \<lparr>f_strategy = None, f_impl = NullPtr\<rparr>"

definition functor_cfunc :: "'c \<Rightarrow> 'c functor_t" where
  "functor_cfunc f = \<lparr>f_strategy = Some CFunction, f_impl = CFunc f\<rparr>"

definition functor_class :: "'o \<Rightarrow> 'o obj_heap \<Rightarrow> 'c functor_t \<times> 'o obj_heap" where
  "functor_class obj h =
     (\<lparr>f_strategy = Some ClassFunction, f_impl = ObjPtr (oh_next h)\<rparr>,
      h\<lparr>oh_objs := (oh_objs h)(oh_next h \<mapsto> obj), oh_next := Suc (oh_next h)\<rparr>)"

definition functor_dtor :: "'c functor_t \<Rightarrow> 'o obj_heap \<Rightarrow> 'o obj_heap option" where
  "functor_dtor F h =
     (if f_impl F \<noteq> NullPtr \<and> f_strategy F = Some ClassFunction
      then (case f_impl F of
              ObjPtr a \<Rightarrow> (case oh_objs h a of
                            None \<Rightarrow> None
                          | Some _ \<Rightarrow> Some (h\<lparr>oh_objs := (oh_objs h)(a := None)\<rparr>))
            | _ \<Rightarrow> None)
      else Some h)"

definition functor_move_ctor :: "'c functor_t \<Rightarrow> 'c functor_t \<times> 'c functor_t" where
  "functor_move_ctor other =
     (\<lparr>f_strategy = f_strategy other, f_impl = f_impl other\<rparr>,
      if f_impl other \<noteq> NullPtr then other\<lparr>f_impl := NullPtr\<rparr> else other)"

definition functor_move_assign :: "'c functor_t \<Rightarrow> 'c functor_t \<Rightarrow> 'c functor_t \<times> 'c functor_t" where
  "functor_move_assign this other =
     (if f_impl this = f_impl other then (this, other)
      else (this\<lparr>f_strategy := f_strategy other, f_impl := f_impl other\<rparr>,
            if f_impl other \<noteq> NullPtr then other\<lparr>f_impl := NullPtr\<rparr> else other))"

definition functor_swap :: "'c functor_t \<Rightarrow> 'c functor_t \<Rightarrow> 'c functor_t \<times> 'c functor_t" where
  "functor_swap this other =
     (this\<lparr>f_strategy := f_strategy other, f_impl := f_impl other\<rparr>,
      other\<lparr>f_strategy := f_strategy this, f_impl := f_impl this\<rparr>)"

text \<open>What a call invokes: the C function, or the stored object; \<^term>\<open>None\<close> is undefined.\<close>

definition functor_call :: "'c functor_t \<Rightarrow> 'o obj_heap \<Rightarrow> ('c + 'o) option" where
  "functor_call F h =
     (case (f_strategy F, f_impl F) of
        (Some CFunction, CFunc f) \<Rightarrow> Some (Inl f)
      | (Some ClassFunction, ObjPtr a) \<Rightarrow> map_option Inr (oh_objs h a)
      | _ \<Rightarrow> None)"

definition functor_bool :: "'c functor_t \<Rightarrow> bool" where
  "functor_bool F \<longleftrightarrow> f_impl F \<noteq> NullPtr"

subsection \<open>Programs over several functors\<close>

text \<open>
  A scope of functor variables beside the heap, and one command per constructor, assignment,
  swap and destructor. A command that names a variable out of scope, declares one twice or
  moves a variable into its own constructor is not a C++ program; it leaves the world as it is.
\<close>

record ('c, 'o) fun_world =
  fw_vars :: "nat \<rightharpoonup> 'c functor_t"
  fw_heap :: "'o obj_heap"

datatype ('c, 'o) fun_cmd =
  NewDefault nat | NewC nat 'c | NewClass nat 'o
| MoveCtor nat nat | MoveAssign nat nat | SwapF nat nat | DtorF nat

fun in_scope :: "('c, 'o) fun_world \<Rightarrow> ('c, 'o) fun_cmd \<Rightarrow> bool" where
  "in_scope w (NewDefault v) \<longleftrightarrow> fw_vars w v = None"
| "in_scope w (NewC v f) \<longleftrightarrow> fw_vars w v = None"
| "in_scope w (NewClass v obj) \<longleftrightarrow> fw_vars w v = None"
| "in_scope w (MoveCtor v u) \<longleftrightarrow> fw_vars w v = None \<and> fw_vars w u \<noteq> None"
| "in_scope w (MoveAssign v u) \<longleftrightarrow> fw_vars w v \<noteq> None \<and> fw_vars w u \<noteq> None"
| "in_scope w (SwapF v u) \<longleftrightarrow> fw_vars w v \<noteq> None \<and> fw_vars w u \<noteq> None"
| "in_scope w (DtorF v) \<longleftrightarrow> fw_vars w v \<noteq> None"

fun fw_exec :: "('c, 'o) fun_world \<Rightarrow> ('c, 'o) fun_cmd \<Rightarrow> ('c, 'o) fun_world option" where
  "fw_exec w (NewDefault v) = Some (w\<lparr>fw_vars := (fw_vars w)(v \<mapsto> functor_default)\<rparr>)"
| "fw_exec w (NewC v f) = Some (w\<lparr>fw_vars := (fw_vars w)(v \<mapsto> functor_cfunc f)\<rparr>)"
| "fw_exec w (NewClass v obj) =
     (let (F, h) = functor_class obj (fw_heap w)
      in Some (w\<lparr>fw_vars := (fw_vars w)(v \<mapsto> F), fw_heap := h\<rparr>))"
| "fw_exec w (MoveCtor v u) =
     (let (F, G) = functor_move_ctor (the (fw_vars w u))
      in Some (w\<lparr>fw_vars := (fw_vars w)(u \<mapsto> G, v \<mapsto> F)\<rparr>))"
| "fw_exec w (MoveAssign v u) =
     (let (F, G) = functor_move_assign (the (fw_vars w v)) (the (fw_vars w u))
      in Some (w\<lparr>fw_vars := (fw_vars w)(u \<mapsto> G, v \<mapsto> F)\<rparr>))"
| "fw_exec w (SwapF v u) =
     (let (F, G) = functor_swap (the (fw_vars w v)) (the (fw_vars w u))
      in Some (w\<lparr>fw_vars := (fw_vars w)(u \<mapsto> G, v \<mapsto> F)\<rparr>))"
| "fw_exec w (DtorF v) =
     (case functor_dtor (the (fw_vars w v)) (fw_heap w) of
        None \<Rightarrow> None
      | Some h \<Rightarrow> Some (w\<lparr>fw_vars := (fw_vars w)(v := None), fw_heap := h\<rparr>))"

definition fw_step :: "('c, 'o) fun_world \<Rightarrow> ('c, 'o) fun_cmd \<Rightarrow> ('c, 'o) fun_world option" where
  "fw_step w c = (if in_scope w c then fw_exec w c else Some w)"

fun fw_run :: "('c, 'o) fun_world \<Rightarrow> ('c, 'o) fun_cmd list \<Rightarrow> ('c, 'o) fun_world option" where
  "fw_run w [] = Some w"
| "fw_run w (c # cs) = (case fw_step w c of None \<Rightarrow> None | Some w' \<Rightarrow> fw_run w' cs)"

definition fw_empty :: "('c, 'o) fun_world" where
  "fw_empty = \<lparr>fw_vars = Map.empty, fw_heap = \<lparr>oh_objs = Map.empty, oh_next = 0\<rparr>\<rparr>"

subsection \<open>Ownership\<close>

definition owns :: "('c, 'o) fun_world \<Rightarrow> nat \<Rightarrow> nat \<Rightarrow> bool" where
  "owns w v a \<longleftrightarrow> (\<exists>F. fw_vars w v = Some F \<and> f_impl F = ObjPtr a)"

text \<open>
  The tag says what the pointer is, an owned object is alive, no two variables own the same
  object, and \<^verbatim>\<open>new\<close> gives fresh addresses.
\<close>

definition tag_ok :: "'c functor_t \<Rightarrow> bool" where
  "tag_ok F \<longleftrightarrow> (case f_impl F of
     NullPtr \<Rightarrow> True
   | CFunc _ \<Rightarrow> f_strategy F = Some CFunction
   | ObjPtr _ \<Rightarrow> f_strategy F = Some ClassFunction)"

definition fw_inv :: "('c, 'o) fun_world \<Rightarrow> bool" where
  "fw_inv w \<longleftrightarrow>
     (\<forall>v F. fw_vars w v = Some F \<longrightarrow> tag_ok F)
   \<and> (\<forall>v a. owns w v a \<longrightarrow> oh_objs (fw_heap w) a \<noteq> None)
   \<and> (\<forall>u v a. owns w u a \<longrightarrow> owns w v a \<longrightarrow> u = v)
   \<and> (\<forall>a. oh_objs (fw_heap w) a \<noteq> None \<longrightarrow> a < oh_next (fw_heap w))"

definition leaked :: "('c, 'o) fun_world \<Rightarrow> nat \<Rightarrow> bool" where
  "leaked w a \<longleftrightarrow> oh_objs (fw_heap w) a \<noteq> None \<and> (\<forall>v. \<not> owns w v a)"

lemma tag_ok_new [simp]:
  "tag_ok functor_default" "tag_ok (functor_cfunc f)" "tag_ok (fst (functor_class obj h))"
  "tag_ok (F\<lparr>f_impl := NullPtr\<rparr>)"
  "tag_ok \<lparr>f_strategy = f_strategy G, f_impl = f_impl G\<rparr> \<longleftrightarrow> tag_ok G"
  "tag_ok (F\<lparr>f_strategy := f_strategy G, f_impl := f_impl G\<rparr>) \<longleftrightarrow> tag_ok G"
  "tag_ok \<lparr>f_strategy = st, f_impl = NullPtr\<rparr>"
  by (simp_all add: tag_ok_def functor_default_def functor_cfunc_def functor_class_def
      split: fun_ptr.split)

lemma fw_inv_empty: "fw_inv fw_empty"
  by (simp add: fw_inv_def fw_empty_def owns_def)

lemma fw_inv_tag: "fw_inv w \<Longrightarrow> fw_vars w v = Some F \<Longrightarrow> tag_ok F"
  by (auto simp: fw_inv_def)

lemma fw_inv_alive: "fw_inv w \<Longrightarrow> owns w v a \<Longrightarrow> oh_objs (fw_heap w) a \<noteq> None"
  unfolding fw_inv_def by blast

lemma fw_inv_unique: "fw_inv w \<Longrightarrow> owns w u a \<Longrightarrow> owns w v a \<Longrightarrow> u = v"
  unfolding fw_inv_def by blast

lemma fw_inv_owned_fresh: "fw_inv w \<Longrightarrow> owns w v a \<Longrightarrow> a < oh_next (fw_heap w)"
  unfolding fw_inv_def by blast

lemma fw_inv_fresh: "fw_inv w \<Longrightarrow> oh_objs (fw_heap w) a \<noteq> None \<Longrightarrow> a < oh_next (fw_heap w)"
  unfolding fw_inv_def by blast

text \<open>
  Every command but construction of an object and destruction only moves ownership: who owns
  what after it is a renaming of who owned what before, less what an assignment overwrites.
\<close>

lemma owns_upd:
  "owns (w\<lparr>fw_vars := (fw_vars w)(v \<mapsto> F)\<rparr>) u a \<longleftrightarrow> (if u = v then f_impl F = ObjPtr a else owns w u a)"
  by (auto simp: owns_def)

lemma owns_upd2:
  "owns (w\<lparr>fw_vars := (fw_vars w)(u \<mapsto> G, v \<mapsto> F)\<rparr>) x a \<longleftrightarrow>
     (if x = v then f_impl F = ObjPtr a else if x = u then f_impl G = ObjPtr a else owns w x a)"
  by (auto simp: owns_def)

lemma owns_move_ctor:
  assumes "fw_vars w v = None" and "fw_vars w u = Some F" and "fw_exec w (MoveCtor v u) = Some w'"
  shows "owns w' x a \<longleftrightarrow> (if x = v then owns w u a else x \<noteq> u \<and> owns w x a)"
  using assms by (auto simp: functor_move_ctor_def owns_def split: if_splits)

lemma owns_move_assign:
  assumes inv: "fw_inv w" and v: "fw_vars w v = Some F" and u: "fw_vars w u = Some G"
    and ex: "fw_exec w (MoveAssign v u) = Some w'"
  shows "owns w' x a \<longleftrightarrow> (if u = v then owns w x a else if x = v then owns w u a else x \<noteq> u \<and> owns w x a)"
proof -
  have "f_impl F = ObjPtr b \<Longrightarrow> f_impl G = ObjPtr b \<Longrightarrow> u = v" for b
    using fw_inv_unique [OF inv, of v b u] v u by (auto simp: owns_def)
  with v u ex show ?thesis
    by (auto simp: functor_move_assign_def owns_def split: if_splits)
qed

lemma owns_swap:
  assumes "fw_vars w v = Some F" and "fw_vars w u = Some G" and "fw_exec w (SwapF v u) = Some w'"
  shows "owns w' x a \<longleftrightarrow> (if x = v then owns w u a else if x = u then owns w v a else owns w x a)"
  using assms by (auto simp: functor_swap_def owns_def split: if_splits)

lemma owns_new_class:
  assumes "fw_exec w (NewClass v obj) = Some w'" and "fw_vars w v = None"
  shows "owns w' x a \<longleftrightarrow> (if x = v then a = oh_next (fw_heap w) else owns w x a)"
    and "oh_objs (fw_heap w') a = (if a = oh_next (fw_heap w) then Some obj else oh_objs (fw_heap w) a)"
  using assms by (auto simp: functor_class_def owns_def)

lemma owns_dtor:
  assumes "fw_exec w (DtorF v) = Some w'"
  shows "owns w' x a \<longleftrightarrow> x \<noteq> v \<and> owns w x a"
  using assms by (auto simp: owns_def split: option.splits if_splits)

subsection \<open>One command\<close>

lemma fw_exec_dtor:
  assumes inv: "fw_inv w" and v: "fw_vars w v = Some F"
  obtains w' where "fw_exec w (DtorF v) = Some w'"
    and "\<And>a. oh_objs (fw_heap w') a = (if owns w v a then None else oh_objs (fw_heap w) a)"
    and "oh_next (fw_heap w') = oh_next (fw_heap w)"
    and "fw_vars w' = (fw_vars w)(v := None)"
proof (cases "f_impl F")
  case (ObjPtr a)
  then have "f_strategy F = Some ClassFunction" and "owns w v a"
    using fw_inv_tag [OF inv v] v by (auto simp: tag_ok_def owns_def)
  moreover obtain x where "oh_objs (fw_heap w) a = Some x"
    using fw_inv_alive [OF inv \<open>owns w v a\<close>] by blast
  ultimately show thesis
    using v ObjPtr that by (auto simp: functor_dtor_def owns_def)
next
  case NullPtr
  with v that show thesis by (auto simp: functor_dtor_def owns_def)
next
  case (CFunc f)
  with v that fw_inv_tag [OF inv v] show thesis
    by (auto simp: functor_dtor_def owns_def tag_ok_def)
qed

lemma fw_exec_ok:
  assumes inv: "fw_inv w" and scope: "in_scope w c"
  shows "\<exists>w'. fw_exec w c = Some w'"
  using scope
proof (cases c)
  case (DtorF v)
  with scope inv show ?thesis by (auto elim: fw_exec_dtor)
qed (auto split: prod.splits)

lemma fw_exec_tags:
  assumes inv: "fw_inv w" and scope: "in_scope w c" and ex: "fw_exec w c = Some w'"
    and x: "fw_vars w' x = Some F"
  shows "tag_ok F"
proof (cases c)
  case (NewClass v obj)
  with ex x fw_inv_tag [OF inv] show ?thesis
    by (auto simp: functor_class_def tag_ok_def split: if_splits)
next
  case (DtorF v)
  with ex x fw_inv_tag [OF inv] show ?thesis by (auto split: if_splits option.splits)
qed (use scope ex x fw_inv_tag [OF inv] in
      \<open>auto simp: functor_move_ctor_def functor_move_assign_def functor_swap_def
         split: if_splits\<close>)

lemma fw_invI:
  assumes "\<And>v F. fw_vars w v = Some F \<Longrightarrow> tag_ok F"
    and "\<And>v a. owns w v a \<Longrightarrow> oh_objs (fw_heap w) a \<noteq> None"
    and "\<And>u v a. owns w u a \<Longrightarrow> owns w v a \<Longrightarrow> u = v"
    and "\<And>a. oh_objs (fw_heap w) a \<noteq> None \<Longrightarrow> a < oh_next (fw_heap w)"
  shows "fw_inv w"
  using assms unfolding fw_inv_def by blast

text \<open>Everything but a new object and a destruction leaves the heap alone.\<close>

lemma fw_exec_heap:
  "fw_exec w c = Some w' \<Longrightarrow> (\<forall>v obj. c \<noteq> NewClass v obj) \<Longrightarrow> (\<forall>v. c \<noteq> DtorF v) \<Longrightarrow>
     fw_heap w' = fw_heap w"
  by (cases c) (auto split: prod.splits)

lemma owns_new_empty:
  assumes "fw_vars w v = None" and "f_impl F \<noteq> ObjPtr a"
  shows "owns (w\<lparr>fw_vars := (fw_vars w)(v \<mapsto> F)\<rparr>) x a \<longleftrightarrow> owns w x a"
  using assms by (auto simp: owns_def)

text \<open>
  The effect of one command on ownership and on the heap, for all commands at once: the
  renaming of owners and what becomes of the objects.
\<close>

lemma fw_exec_owns:
  assumes inv: "fw_inv w" and scope: "in_scope w c" and ex: "fw_exec w c = Some w'"
  shows "owns w' x a \<longleftrightarrow> (case c of
      NewClass v obj \<Rightarrow> if x = v then a = oh_next (fw_heap w) else owns w x a
    | MoveCtor v u \<Rightarrow> if x = v then owns w u a else x \<noteq> u \<and> owns w x a
    | MoveAssign v u \<Rightarrow>
        if u = v then owns w x a else if x = v then owns w u a else x \<noteq> u \<and> owns w x a
    | SwapF v u \<Rightarrow> if x = v then owns w u a else if x = u then owns w v a else owns w x a
    | DtorF v \<Rightarrow> x \<noteq> v \<and> owns w x a
    | _ \<Rightarrow> owns w x a)"
proof (cases c)
  case (NewDefault v)
  with scope ex show ?thesis by (auto simp: functor_default_def owns_new_empty)
next
  case (NewC v f)
  with scope ex show ?thesis by (auto simp: functor_cfunc_def owns_new_empty)
next
  case (NewClass v obj)
  with scope ex owns_new_class(1) [of w v obj w'] show ?thesis by simp
next
  case (MoveCtor v u)
  with scope ex owns_move_ctor [of w v u _ w'] show ?thesis by fastforce
next
  case (MoveAssign v u)
  with scope ex owns_move_assign [OF inv, of v _ u _ w'] show ?thesis by fastforce
next
  case (SwapF v u)
  with scope obtain F G where "fw_vars w v = Some F" and "fw_vars w u = Some G" by auto
  from owns_swap [OF this] ex SwapF show ?thesis by simp
next
  case (DtorF v)
  with ex owns_dtor [of w v w'] show ?thesis by simp
qed

lemma fw_exec_objs:
  assumes inv: "fw_inv w" and scope: "in_scope w c" and ex: "fw_exec w c = Some w'"
  shows "oh_objs (fw_heap w') a = (case c of
      NewClass v obj \<Rightarrow> if a = oh_next (fw_heap w) then Some obj else oh_objs (fw_heap w) a
    | DtorF v \<Rightarrow> if owns w v a then None else oh_objs (fw_heap w) a
    | _ \<Rightarrow> oh_objs (fw_heap w) a)"
  and "oh_next (fw_heap w') = (case c of NewClass v obj \<Rightarrow> Suc (oh_next (fw_heap w))
        | _ \<Rightarrow> oh_next (fw_heap w))"
proof -
  have dtor: "\<And>v. c = DtorF v \<Longrightarrow>
      oh_objs (fw_heap w') a = (if owns w v a then None else oh_objs (fw_heap w) a)
      \<and> oh_next (fw_heap w') = oh_next (fw_heap w)"
  proof -
    fix v assume c: "c = DtorF v"
    with scope obtain F where F: "fw_vars w v = Some F" by auto
    obtain w'' where w'': "fw_exec w (DtorF v) = Some w''"
      and objs: "\<And>a. oh_objs (fw_heap w'') a = (if owns w v a then None else oh_objs (fw_heap w) a)"
      and nxt: "oh_next (fw_heap w'') = oh_next (fw_heap w)"
      using fw_exec_dtor [OF inv F] by blast
    have "w'' = w'" using ex c w'' by simp
    then show "?thesis v" using objs nxt by simp
  qed
  have heap: "(\<forall>v obj. c \<noteq> NewClass v obj) \<Longrightarrow> (\<forall>v. c \<noteq> DtorF v) \<Longrightarrow> fw_heap w' = fw_heap w"
    by (rule fw_exec_heap [OF ex])
  have new: "\<And>v obj. c = NewClass v obj \<Longrightarrow>
      oh_objs (fw_heap w') a = (if a = oh_next (fw_heap w) then Some obj else oh_objs (fw_heap w) a)
      \<and> oh_next (fw_heap w') = Suc (oh_next (fw_heap w))"
    using ex by (auto simp: functor_class_def)
  show "oh_objs (fw_heap w') a = (case c of
      NewClass v obj \<Rightarrow> if a = oh_next (fw_heap w) then Some obj else oh_objs (fw_heap w) a
    | DtorF v \<Rightarrow> if owns w v a then None else oh_objs (fw_heap w) a
    | _ \<Rightarrow> oh_objs (fw_heap w) a)"
    using dtor new heap by (cases c) simp_all
  show "oh_next (fw_heap w') = (case c of NewClass v obj \<Rightarrow> Suc (oh_next (fw_heap w))
        | _ \<Rightarrow> oh_next (fw_heap w))"
    using dtor new heap by (cases c) simp_all
qed

lemma fw_exec_inv:
  assumes inv: "fw_inv w" and scope: "in_scope w c" and ex: "fw_exec w c = Some w'"
  shows "fw_inv w'"
proof (rule fw_invI)
  fix v F assume "fw_vars w' v = Some F"
  then show "tag_ok F" by (rule fw_exec_tags [OF inv scope ex])
next
  fix v a assume "owns w' v a"
  with fw_inv_alive [OF inv] fw_inv_unique [OF inv] show "oh_objs (fw_heap w') a \<noteq> None"
    unfolding fw_exec_owns [OF inv scope ex] fw_exec_objs [OF inv scope ex]
    by (cases c) (auto split: if_splits)
next
  fix u v a assume "owns w' u a" and "owns w' v a"
  with fw_inv_owned_fresh [OF inv] fw_inv_unique [OF inv] show "u = v"
    unfolding fw_exec_owns [OF inv scope ex]
    by (cases c) (auto split: if_splits)
next
  fix a assume "oh_objs (fw_heap w') a \<noteq> None"
  with fw_inv_fresh [OF inv] show "a < oh_next (fw_heap w')"
    unfolding fw_exec_objs [OF inv scope ex]
    by (cases c) (auto split: if_splits intro: less_SucI)
qed

lemma fw_step_inv:
  assumes "fw_inv w"
  shows "\<exists>w'. fw_step w c = Some w' \<and> fw_inv w'"
  proof (cases "in_scope w c")
  case True
  then obtain w' where ex: "fw_exec w c = Some w'" using fw_exec_ok [OF assms] by blast
  with True fw_exec_inv [OF assms True ex] show ?thesis by (simp add: fw_step_def)
next
  case False
  with assms show ?thesis by (simp add: fw_step_def)
qed

lemma fw_run_inv: "fw_inv w \<Longrightarrow> \<exists>w'. fw_run w cs = Some w' \<and> fw_inv w'"
proof (induction cs arbitrary: w)
  case Nil
  then show ?case by simp
next
  case (Cons c cs)
  obtain w' where "fw_step w c = Some w'" and "fw_inv w'" using fw_step_inv [OF Cons.prems] by blast
  with Cons.IH show ?case by simp
qed

lemma functor_call_defined:
  assumes inv: "fw_inv w" and v: "fw_vars w v = Some F" and b: "functor_bool F"
  shows "functor_call F (fw_heap w) \<noteq> None"
proof (cases "f_impl F")
  case (ObjPtr a)
  then have "oh_objs (fw_heap w) a \<noteq> None"
    using fw_inv_alive [OF inv, of v a] v by (simp add: owns_def)
  with ObjPtr fw_inv_tag [OF inv v] show ?thesis by (auto simp: functor_call_def tag_ok_def)
qed (use b fw_inv_tag [OF inv v] in \<open>auto simp: functor_call_def tag_ok_def functor_bool_def\<close>)

lemma fw_exec_leaked:
  assumes inv: "fw_inv w" and scope: "in_scope w c" and ex: "fw_exec w c = Some w'"
  shows "leaked w' a \<longleftrightarrow> leaked w a \<or> (\<exists>v u. c = MoveAssign v u \<and> u \<noteq> v \<and> owns w v a)"
proof -
  have alive: "\<And>v. owns w v a \<Longrightarrow> oh_objs (fw_heap w) a \<noteq> None"
    by (rule fw_inv_alive [OF inv])
  have uniq: "\<And>u v. owns w u a \<Longrightarrow> owns w v a \<Longrightarrow> u = v"
    by (rule fw_inv_unique [OF inv])
  have fresh: "\<And>v. owns w v a \<Longrightarrow> a \<noteq> oh_next (fw_heap w)"
    "oh_objs (fw_heap w) a \<noteq> None \<Longrightarrow> a \<noteq> oh_next (fw_heap w)"
    using fw_inv_owned_fresh [OF inv] fw_inv_fresh [OF inv] by blast+
  have none: "\<And>v. fw_vars w v = None \<Longrightarrow> \<not> owns w v a" by (simp add: owns_def)
  note facts = fw_exec_owns [OF inv scope ex] fw_exec_objs(1) [OF inv scope ex]
  show ?thesis
  proof (cases c)
    case (NewClass v obj)
    with scope have "\<not> owns w v a" using none by simp
    with NewClass fresh show ?thesis by (auto simp: leaked_def facts)
  next
    case (MoveCtor v u)
    with scope have "\<not> owns w v a" "v \<noteq> u" using none by auto
    with MoveCtor show ?thesis by (simp add: leaked_def facts) metis
  next
    case (MoveAssign v u)
    show ?thesis
      using alive uniq unfolding leaked_def facts MoveAssign by simp metis
  next
    case (SwapF v u)
    then show ?thesis by (auto simp: leaked_def facts)
  next
    case (DtorF v)
    then show ?thesis by (auto simp: leaked_def facts)
  qed (auto simp: leaked_def facts)
qed

subsection \<open>Properties\<close>

text \<open>
  Property C22: whatever a program does with its functors (constructing, moving, assigning,
  swapping, destroying), no object is deleted twice and calling a functor that tests true
  always reaches a live function.
\<close>

theorem functors_memory_safe:
  "\<exists>w. fw_run fw_empty cs = Some w
     \<and> (\<forall>v F. fw_vars w v = Some F \<longrightarrow> functor_bool F \<longrightarrow> functor_call F (fw_heap w) \<noteq> None)"
proof -
  obtain w where "fw_run fw_empty cs = Some w" and "fw_inv w"
    using fw_run_inv [OF fw_inv_empty] by blast
  then show ?thesis using functor_call_defined by blast
qed

theorem functors_memory_safe_witness:
  "\<exists>w. fw_run fw_empty [NewClass 0 ''f'', MoveCtor 1 0, SwapF 0 1, DtorF 1, DtorF 0] = Some w
     \<and> (\<forall>v F. fw_vars w v = Some F \<longrightarrow> functor_bool F
          \<longrightarrow> functor_call F (fw_heap w) \<noteq> (None :: (unit + string) option))"
  by (rule functors_memory_safe)

text \<open>
  An object is lost, alive and owned by nobody, exactly when a functor that owned
  it was the target of a move assignment from another functor: \<^verbatim>\<open>operator=\<close> overwrites its
  pointer without deleting the old object. No other operation leaks.
\<close>

theorem functor_leaks_only_by_assignment:
  assumes "fw_run fw_empty cs = Some w" and "fw_step w c = Some w'"
  shows "leaked w' a \<longleftrightarrow> leaked w a
    \<or> (\<exists>v u. c = MoveAssign v u \<and> u \<noteq> v \<and> fw_vars w u \<noteq> None \<and> owns w v a)"
proof -
  have inv: "fw_inv w" using fw_run_inv [OF fw_inv_empty, of cs] assms(1) by auto
  show ?thesis
  proof (cases "in_scope w c")
    case True
    with assms(2) have ex: "fw_exec w c = Some w'" by (simp add: fw_step_def)
    from fw_exec_leaked [OF inv True ex] True show ?thesis by auto
  next
    case False
    with assms(2) have "w' = w" by (simp add: fw_step_def)
    with False show ?thesis by (auto simp: owns_def)
  qed
qed

theorem functor_leaks_only_by_assignment_witness:
  "\<exists>w w'. fw_run fw_empty [NewClass 0 ''old'', NewClass 1 ''new''] = Some (w :: (unit, string) fun_world)
     \<and> fw_step w (MoveAssign 0 1) = Some w' \<and> leaked w' 0"
proof -
  obtain w where w: "fw_run fw_empty [NewClass 0 ''old'', NewClass 1 ''new''] = Some (w :: (unit, string) fun_world)"
    and own: "owns w 0 0" and u: "fw_vars w 1 \<noteq> None"
    by (simp add: fw_step_def fw_empty_def functor_class_def owns_def)
  obtain w' where w': "fw_step w (MoveAssign 0 1) = Some w'"
    using fw_step_inv fw_run_inv [OF fw_inv_empty] w by (metis option.inject)
  have "leaked w' 0"
    using functor_leaks_only_by_assignment [OF w w', of 0] own u by auto
  with w w' show ?thesis by blast
qed

end
