(* ===== verification/Timer_Queue.thy ===== *)
theory Timer_Queue
  imports Magio_Prelude "HOL-Library.Multiset"
begin

section \<open>Timers (core/timer_queue.h)\<close>

text \<open>
  A timer is a shared \<^verbatim>\<open>TimerData\<close>; the queue holds the only strong references, ordered by
  deadline in a \<^verbatim>\<open>std::priority_queue\<close>, and the user's \<^verbatim>\<open>TimerHandle\<close> holds a weak one. The model
  keeps the objects in a store: a strong reference is an address in the queue, an object lives
  as long as its address is there, and locking a weak reference is a lookup in the store.
\<close>

subsection \<open>The priority queue contract\<close>

text \<open>
  What the C++ standard promises of \<^verbatim>\<open>std::priority_queue\<close> with \<^verbatim>\<open>TimerCompare\<close>: \<^verbatim>\<open>top\<close> has a least
  key, \<^verbatim>\<open>pop\<close> removes it, \<^verbatim>\<open>emplace\<close> adds. The order of equal keys is not specified, and no law
  says anything about it.
\<close>

locale deadline_queue =
  fixes key :: "'a \<Rightarrow> int"
    and emplace :: "'a \<Rightarrow> 'q \<Rightarrow> 'q"
    and top :: "'q \<Rightarrow> 'a"
    and pop :: "'q \<Rightarrow> 'q"
    and elems :: "'q \<Rightarrow> 'a multiset"
    and wf :: "'q \<Rightarrow> bool"
  assumes elems_emplace: "wf q \<Longrightarrow> elems (emplace x q) = add_mset x (elems q)"
    and wf_emplace: "wf q \<Longrightarrow> wf (emplace x q)"
    and top_in: "wf q \<Longrightarrow> elems q \<noteq> {#} \<Longrightarrow> top q \<in># elems q"
    and top_least: "wf q \<Longrightarrow> x \<in># elems q \<Longrightarrow> key (top q) \<le> key x"
    and elems_pop: "wf q \<Longrightarrow> elems q \<noteq> {#} \<Longrightarrow> elems (pop q) = elems q - {#top q#}"
    and wf_pop: "wf q \<Longrightarrow> elems q \<noteq> {#} \<Longrightarrow> wf (pop q)"
begin

lemma none_due:
  assumes "wf q" and "elems q = {#} \<or> now < key (top q)"
  shows "{#x \<in># elems q. key x \<le> now#} = {#}" and "x \<in># elems q \<Longrightarrow> now < key x"
  using assms top_least by fastforce+

lemma one_due:
  assumes "wf q" and "elems q \<noteq> {#}" and "key (top q) \<le> now"
  shows "{#x \<in># elems q. key x \<le> now#} = add_mset (top q) {#x \<in># elems (pop q). key x \<le> now#}"
    and "{#x \<in># elems q. now < key x#} = {#x \<in># elems (pop q). now < key x#}"
proof -
  have "elems q = add_mset (top q) (elems (pop q))"
    using assms top_in elems_pop by simp
  with assms(3) show "{#x \<in># elems q. key x \<le> now#} = add_mset (top q) {#x \<in># elems (pop q). key x \<le> now#}"
    and "{#x \<in># elems q. now < key x#} = {#x \<in># elems (pop q). now < key x#}"
    by (metis filter_mset_add_mset) (metis \<open>elems q = add_mset (top q) (elems (pop q))\<close> assms(3)
        filter_mset_add_mset linorder_not_le)
qed

end

text \<open>The provider: a list kept sorted by key.\<close>

definition pq_emplace :: "('a \<Rightarrow> int) \<Rightarrow> 'a \<Rightarrow> 'a list \<Rightarrow> 'a list" where
  "pq_emplace key x q = insort_key key x q"

definition pq_top :: "'a list \<Rightarrow> 'a" where
  "pq_top q = hd q"

definition pq_pop :: "'a list \<Rightarrow> 'a list" where
  "pq_pop q = tl q"

definition pq_wf :: "('a \<Rightarrow> int) \<Rightarrow> 'a list \<Rightarrow> bool" where
  "pq_wf key q \<longleftrightarrow> sorted (map key q)"

interpretation pq: deadline_queue key "pq_emplace key" pq_top pq_pop mset "pq_wf key" for key
proof unfold_locales
  fix q :: "'a list" and x
  show "mset (pq_emplace key x q) = add_mset x (mset q)" by (simp add: pq_emplace_def)
  assume wf: "pq_wf key q"
  show "pq_wf key (pq_emplace key x q)"
    using wf by (simp add: pq_wf_def pq_emplace_def sorted_insort_key)
  show "x \<in># mset q \<Longrightarrow> key (pq_top q) \<le> key x"
    using wf by (cases q) (auto simp: pq_wf_def pq_top_def)
  assume ne: "mset q \<noteq> {#}"
  then show "pq_top q \<in># mset q" and "mset (pq_pop q) = mset q - {#pq_top q#}"
    by (cases q; simp add: pq_top_def pq_pop_def)+
  show "pq_wf key (pq_pop q)" using wf by (cases q) (simp_all add: pq_wf_def pq_pop_def)
qed

subsection \<open>Data and operations\<close>

record 't timer_data =
  td_flag :: bool
  td_deadline :: nanos
  td_task :: 't

record 't timer_queue =
  tq_timers :: "nat list"
  tq_store :: "nat \<rightharpoonup> 't timer_data"
  tq_next :: nat

definition tq_empty :: "'t timer_queue" where
  "tq_empty = \<lparr>tq_timers = [], tq_store = Map.empty, tq_next = 0\<rparr>"

definition timer_at :: "'t timer_queue \<Rightarrow> nat \<Rightarrow> 't timer_data" where
  "timer_at q p = the (tq_store q p)"

definition deadline_of :: "'t timer_queue \<Rightarrow> nat \<Rightarrow> nanos" where
  "deadline_of q p = td_deadline (timer_at q p)"

text \<open>\<^verbatim>\<open>TimerCompare\<close>: the comparison of the priority queue puts the greater deadline lower.\<close>

definition timer_compare :: "'t timer_data \<Rightarrow> 't timer_data \<Rightarrow> bool" where
  "timer_compare left right \<longleftrightarrow> td_deadline left > td_deadline right"

definition timer_push :: "nanos \<Rightarrow> 't \<Rightarrow> 't timer_queue \<Rightarrow> nat \<times> 't timer_queue" where
  "timer_push tp task q =
     (let ptimer = tq_next q;
          q' = q\<lparr>tq_store := (tq_store q)(ptimer \<mapsto> \<lparr>td_flag = True, td_deadline = tp, td_task = task\<rparr>),
                 tq_next := Suc ptimer\<rparr>
      in (ptimer, q'\<lparr>tq_timers := pq_emplace (deadline_of q') ptimer (tq_timers q)\<rparr>))"

text \<open>Popping releases the only strong reference, so the object goes too.\<close>

definition timer_pop :: "'t timer_queue \<Rightarrow> 't timer_queue" where
  "timer_pop q = q\<lparr>tq_timers := pq_pop (tq_timers q),
                   tq_store := (tq_store q)(pq_top (tq_timers q) := None)\<rparr>"

definition timer_top :: "'t timer_queue \<Rightarrow> 't timer_data" where
  "timer_top q = timer_at q (pq_top (tq_timers q))"

lemma length_timer_pop: "tq_timers q \<noteq> [] \<Longrightarrow> length (tq_timers (timer_pop q)) < length (tq_timers q)"
  by (simp add: timer_pop_def pq_pop_def)

function get_expired_loop :: "nanos \<Rightarrow> 't list \<Rightarrow> 't timer_queue \<Rightarrow> 't list \<times> 't timer_queue" where
  "get_expired_loop current_tp result q =
     (if tq_timers q \<noteq> [] \<and> current_tp \<ge> td_deadline (timer_top q)
      then get_expired_loop current_tp
             (if td_flag (timer_top q) then result @ [td_task (timer_top q)] else result)
             (timer_pop q)
      else (result, q))"
  by pat_completeness auto
termination
  by (relation "measure (\<lambda>(_, _, q). length (tq_timers q))") (simp_all add: length_timer_pop)

declare get_expired_loop.simps [simp del]

definition get_expired :: "nanos \<Rightarrow> 't list \<Rightarrow> 't timer_queue \<Rightarrow> 't list \<times> 't timer_queue" where
  "get_expired now result q = get_expired_loop now result q"

text \<open>
  \<^verbatim>\<open>TimerHandle::cancel\<close>: the result, the calls \<^verbatim>\<open>task(false)\<close> made, and the queue.
\<close>

definition timer_cancel :: "nat \<Rightarrow> 't timer_queue \<Rightarrow> bool \<times> ('t \<times> bool) list \<times> 't timer_queue" where
  "timer_cancel handle q =
     (case tq_store q handle of
        Some p \<Rightarrow> (True, [(td_task p, False)],
                   q\<lparr>tq_store := (tq_store q)(handle \<mapsto> p\<lparr>td_flag := False\<rparr>)\<rparr>)
      | None \<Rightarrow> (False, [], q))"

function timer_queue_dtor :: "('t \<times> bool) list \<Rightarrow> 't timer_queue \<Rightarrow> ('t \<times> bool) list \<times> 't timer_queue" where
  "timer_queue_dtor calls q =
     (if tq_timers q \<noteq> []
      then timer_queue_dtor (calls @ [(td_task (timer_top q), False)]) (timer_pop q)
      else (calls, q))"
  by pat_completeness auto
termination
  by (relation "measure (\<lambda>(_, q). length (tq_timers q))") (simp_all add: length_timer_pop)

declare timer_queue_dtor.simps [simp del]

definition tq_is_empty :: "'t timer_queue \<Rightarrow> bool" where
  "tq_is_empty q \<longleftrightarrow> tq_timers q = []"

definition one_day :: nanos where
  "one_day = 86400000000000"

definition next_duration :: "nanos \<Rightarrow> 't timer_queue \<Rightarrow> nanos" where
  "next_duration now q =
     (if tq_timers q = [] then one_day
      else (let duration = td_deadline (timer_top q) - now
            in if duration < 0 then 0 else duration))"

subsection \<open>The invariant\<close>

definition tq_inv :: "'t timer_queue \<Rightarrow> bool" where
  "tq_inv q \<longleftrightarrow> pq_wf (deadline_of q) (tq_timers q) \<and> distinct (tq_timers q)
     \<and> set (tq_timers q) = dom (tq_store q) \<and> (\<forall>p \<in> dom (tq_store q). p < tq_next q)"

lemma tq_inv_empty: "tq_inv tq_empty"
  by (simp add: tq_inv_def tq_empty_def pq_wf_def)

lemma deadline_of_timers [simp]: "deadline_of (q\<lparr>tq_timers := ts\<rparr>) = deadline_of q"
  by (simp add: deadline_of_def timer_at_def fun_eq_iff)

lemma pq_wf_cong: "(\<And>p. p \<in> set q \<Longrightarrow> f p = g p) \<Longrightarrow> pq_wf f q \<longleftrightarrow> pq_wf g q"
  unfolding pq_wf_def by (metis map_cong)

lemma tq_inv_push:
  assumes inv: "tq_inv q" and push: "timer_push tp task q = (h, q')"
  shows "tq_inv q'"
proof -
  let ?q = "q\<lparr>tq_store := (tq_store q)(tq_next q \<mapsto> \<lparr>td_flag = True, td_deadline = tp, td_task = task\<rparr>),
              tq_next := Suc (tq_next q)\<rparr>"
  have new: "tq_next q \<notin> set (tq_timers q)" using inv by (auto simp: tq_inv_def)
  have "pq_wf (deadline_of ?q) (tq_timers q) \<longleftrightarrow> pq_wf (deadline_of q) (tq_timers q)"
    using new by (intro pq_wf_cong) (auto simp: deadline_of_def timer_at_def)
  then have "pq_wf (deadline_of ?q) (pq_emplace (deadline_of ?q) (tq_next q) (tq_timers q))"
    using inv pq.wf_emplace by (simp add: tq_inv_def)
  moreover have "q' = ?q\<lparr>tq_timers := pq_emplace (deadline_of ?q) (tq_next q) (tq_timers q)\<rparr>"
    using push by (auto simp: timer_push_def Let_def)
  ultimately show ?thesis
    using inv new
    by (auto simp: tq_inv_def pq_emplace_def distinct_insort set_insort_key less_Suc_eq)
qed

lemma tq_inv_pop:
  assumes inv: "tq_inv q" and ne: "tq_timers q \<noteq> []"
  shows "tq_inv (timer_pop q)"
proof -
  obtain p ps where ps: "tq_timers q = p # ps" using ne by (cases "tq_timers q") auto
  have "pq_wf (deadline_of (timer_pop q)) ps \<longleftrightarrow> pq_wf (deadline_of q) ps"
    using inv ps by (intro pq_wf_cong)
      (auto simp: tq_inv_def deadline_of_def timer_at_def timer_pop_def pq_top_def)
  with inv ps show ?thesis
    by (auto simp: tq_inv_def timer_pop_def pq_pop_def pq_top_def pq_wf_def)
qed

lemma tq_inv_cancel:
  assumes inv: "tq_inv q" and c: "timer_cancel h q = (r, calls, q')"
  shows "tq_inv q'"
proof (cases "tq_store q h")
  case None
  with inv c show ?thesis by (simp add: timer_cancel_def)
next
  case (Some d)
  then have q': "q' = q\<lparr>tq_store := (tq_store q)(h \<mapsto> d\<lparr>td_flag := False\<rparr>)\<rparr>"
    using c by (simp add: timer_cancel_def)
  have "deadline_of q' = deadline_of q"
    using Some by (auto simp: deadline_of_def timer_at_def q')
  with inv Some show ?thesis by (auto simp: tq_inv_def q' dom_def)
qed

lemma tq_top_in: "tq_inv q \<Longrightarrow> tq_timers q \<noteq> [] \<Longrightarrow> pq_top (tq_timers q) \<in> set (tq_timers q)"
  by (simp add: pq_top_def)


subsection \<open>What expires\<close>

text \<open>
  The timers that are due, in queue order, and those of them that fire. These two are the
  specification that the loop is compared with.
\<close>

definition due_timers :: "nanos \<Rightarrow> 't timer_queue \<Rightarrow> nat list" where
  "due_timers now q = takeWhile (\<lambda>p. deadline_of q p \<le> now) (tq_timers q)"

definition firing :: "nanos \<Rightarrow> 't timer_queue \<Rightarrow> nat list" where
  "firing now q = filter (\<lambda>p. td_flag (timer_at q p)) (due_timers now q)"

lemma timer_pop_simps:
  "tq_timers q = p # ps \<Longrightarrow> tq_timers (timer_pop q) = ps"
  "tq_timers q = p # ps \<Longrightarrow> r \<noteq> p \<Longrightarrow> timer_at (timer_pop q) r = timer_at q r"
  "tq_timers q = p # ps \<Longrightarrow> tq_store (timer_pop q) = (tq_store q)(p := None)"
  "tq_next (timer_pop q) = tq_next q"
  by (simp_all add: timer_pop_def pq_pop_def pq_top_def timer_at_def)

lemma due_timers_pop:
  assumes "tq_inv q" and ps: "tq_timers q = p # ps"
  shows "due_timers now (timer_pop q) = takeWhile (\<lambda>p. deadline_of q p \<le> now) ps"
proof -
  have p: "p \<notin> set ps" using assms by (simp add: tq_inv_def)
  have "takeWhile (\<lambda>p. deadline_of (timer_pop q) p \<le> now) ps = takeWhile (\<lambda>p. deadline_of q p \<le> now) ps"
  proof (rule takeWhile_cong)
    fix r assume "r \<in> set ps"
    with p have "r \<noteq> p" by auto
    then show "(deadline_of (timer_pop q) r \<le> now) = (deadline_of q r \<le> now)"
      by (simp add: deadline_of_def timer_pop_simps(2) [OF ps])
  qed simp
  then show ?thesis by (simp add: due_timers_def timer_pop_simps(1) [OF ps])
qed

lemma firing_pop:
  assumes inv: "tq_inv q" and ps: "tq_timers q = p # ps" and due: "deadline_of q p \<le> now"
  shows "firing now q = (if td_flag (timer_at q p) then [p] else []) @ firing now (timer_pop q)"
    and "\<And>r. r \<in> set (firing now (timer_pop q)) \<Longrightarrow> timer_at (timer_pop q) r = timer_at q r"
proof -
  have p: "p \<notin> set ps" using assms by (simp add: tq_inv_def)
  have sub: "set (takeWhile (\<lambda>p. deadline_of q p \<le> now) ps) \<subseteq> set ps" by (auto dest: set_takeWhileD)
  have eq: "r \<in> set ps \<Longrightarrow> timer_at (timer_pop q) r = timer_at q r" for r
    using p timer_pop_simps(2) [OF ps] by metis
  then have "firing now (timer_pop q)
      = filter (\<lambda>p. td_flag (timer_at q p)) (takeWhile (\<lambda>p. deadline_of q p \<le> now) ps)"
    unfolding firing_def due_timers_pop [OF inv ps] using sub by (intro filter_cong) auto
  then show "firing now q = (if td_flag (timer_at q p) then [p] else []) @ firing now (timer_pop q)"
    using due by (simp add: firing_def due_timers_def ps)
  show "\<And>r. r \<in> set (firing now (timer_pop q)) \<Longrightarrow> timer_at (timer_pop q) r = timer_at q r"
    unfolding firing_def due_timers_pop [OF inv ps] using sub eq by auto
qed

lemma firing_stop:
  assumes inv: "tq_inv q" and "tq_timers q = [] \<or> now < deadline_of q (pq_top (tq_timers q))"
  shows "firing now q = []"
  using assms(2) by (cases "tq_timers q") (auto simp: firing_def due_timers_def pq_top_def)

text \<open>
  The loop: it appends the tasks of the firing timers, keeps the invariant and removes exactly
  the timers that are due. The multiset equations are the queue contract's.
\<close>

definition expiry :: "nanos \<Rightarrow> 't timer_queue \<Rightarrow> 't list \<Rightarrow> 't timer_queue \<Rightarrow> bool" where
  "expiry now q fired q' \<longleftrightarrow>
     fired = map (\<lambda>p. td_task (timer_at q p)) (firing now q)
   \<and> tq_inv q'
   \<and> mset (tq_timers q') = {#p \<in># mset (tq_timers q). now < deadline_of q p#}
   \<and> (\<forall>p \<in> set (tq_timers q'). tq_store q' p = tq_store q p)
   \<and> tq_next q' = tq_next q"

lemma expiry_stop:
  assumes inv: "tq_inv q" and "tq_timers q = [] \<or> now < deadline_of q (pq_top (tq_timers q))"
  shows "expiry now q [] q"
proof -
  have wf: "pq_wf (deadline_of q) (tq_timers q)" using inv by (simp add: tq_inv_def)
  have "\<forall>p \<in># mset (tq_timers q). now < deadline_of q p"
    using pq.none_due(2) [OF wf] assms(2) by auto
  then have "{#p \<in># mset (tq_timers q). now < deadline_of q p#} = mset (tq_timers q)"
    by (simp add: filter_mset_eq_conv)
  then show ?thesis using inv firing_stop [OF assms] by (simp add: expiry_def)
qed

lemma expiry_step:
  assumes inv: "tq_inv q" and ps: "tq_timers q = p # ps" and due: "deadline_of q p \<le> now"
    and rest: "expiry now (timer_pop q) fired q'"
  shows "expiry now q ((if td_flag (timer_at q p) then [td_task (timer_at q p)] else []) @ fired) q'"
proof -
  have wf: "pq_wf (deadline_of q) (tq_timers q)" and p: "p \<notin> set ps"
    using inv ps by (simp_all add: tq_inv_def)
  have same: "r \<in> set ps \<Longrightarrow> timer_at (timer_pop q) r = timer_at q r" for r
    using p timer_pop_simps(2) [OF ps] by metis
  have "{#r \<in># mset (tq_timers q). now < deadline_of q r#} = {#r \<in># mset ps. now < deadline_of q r#}"
    using pq.one_due(2) [OF wf, of now] ps due by (simp add: pq_top_def pq_pop_def)
  also have "\<dots> = {#r \<in># mset ps. now < deadline_of (timer_pop q) r#}"
    using same by (intro filter_mset_cong) (simp_all add: deadline_of_def)
  finally have left: "{#r \<in># mset (tq_timers q). now < deadline_of q r#}
      = {#r \<in># mset (tq_timers (timer_pop q)). now < deadline_of (timer_pop q) r#}"
    by (simp add: timer_pop_simps(1) [OF ps])
  have "set (tq_timers q') \<subseteq> set ps"
    using rest by (auto simp: expiry_def timer_pop_simps(1) [OF ps] dest!: arg_cong [where f = set_mset])
  then have "\<forall>r \<in> set (tq_timers q'). tq_store q' r = tq_store q r"
    using rest p by (auto simp: expiry_def timer_pop_simps(3) [OF ps])
  with left rest firing_pop [OF inv ps due] show ?thesis
    by (auto simp: expiry_def timer_pop_simps(4) intro: map_cong)
qed

lemma get_expired_loop_spec:
  assumes "tq_inv q"
  shows "\<exists>fired q'. get_expired_loop now result q = (result @ fired, q') \<and> expiry now q fired q'"
  using assms
proof (induction now result q rule: get_expired_loop.induct)
  case (1 now result q)
  show ?case
  proof (cases "tq_timers q \<noteq> [] \<and> now \<ge> td_deadline (timer_top q)")
    case True
    then obtain p ps where ps: "tq_timers q = p # ps" by (cases "tq_timers q") auto
    then have top: "timer_top q = timer_at q p" by (simp add: timer_top_def pq_top_def)
    have "tq_inv (timer_pop q)" using "1.prems" True by (intro tq_inv_pop) simp_all
    from "1.IH" [OF True this] obtain fired q' where
      ih: "get_expired_loop now (if td_flag (timer_top q) then result @ [td_task (timer_top q)] else result)
             (timer_pop q) = ((if td_flag (timer_top q) then result @ [td_task (timer_top q)] else result) @ fired, q')"
      and rest: "expiry now (timer_pop q) fired q'" by blast
    have "deadline_of q p \<le> now" using True top by (simp add: deadline_of_def)
    from expiry_step [OF "1.prems" ps this rest] ih True top show ?thesis
      by (auto simp: get_expired_loop.simps [of now result q])
  next
    case False
    then have "tq_timers q = [] \<or> now < deadline_of q (pq_top (tq_timers q))"
      by (auto simp: deadline_of_def timer_top_def)
    from expiry_stop [OF "1.prems" this] False show ?thesis
      by (auto simp: get_expired_loop.simps [of now result q])
  qed
qed

lemma set_due_timers:
  assumes inv: "tq_inv q"
  shows "set (due_timers now q) = {p \<in> set (tq_timers q). deadline_of q p \<le> now}"
proof
  show "set (due_timers now q) \<subseteq> {p \<in> set (tq_timers q). deadline_of q p \<le> now}"
    by (auto simp: due_timers_def dest: set_takeWhileD)
  have "sorted (map (deadline_of q) ts) \<Longrightarrow> p \<in> set ts \<Longrightarrow> deadline_of q p \<le> now \<Longrightarrow>
      p \<in> set (takeWhile (\<lambda>p. deadline_of q p \<le> now) ts)" for ts p
    by (induction ts) auto
  then show "{p \<in> set (tq_timers q). deadline_of q p \<le> now} \<subseteq> set (due_timers now q)"
    using inv by (auto simp: tq_inv_def pq_wf_def due_timers_def)
qed

lemma set_firing:
  "tq_inv q \<Longrightarrow> set (firing now q) =
     {p \<in> set (tq_timers q). deadline_of q p \<le> now \<and> td_flag (timer_at q p)}"
  by (auto simp: firing_def set_due_timers)

lemma sorted_map_takeWhile: "sorted (map f xs) \<Longrightarrow> sorted (map f (takeWhile P xs))"
proof (induction xs)
  case (Cons x xs)
  then show ?case by (auto dest: set_takeWhileD)
qed simp

lemma firing_order:
  assumes "tq_inv q"
  shows "distinct (firing now q)" and "sorted (map (deadline_of q) (firing now q))"
  using assms
  by (auto simp: firing_def due_timers_def tq_inv_def pq_wf_def distinct_takeWhile sorted_map_takeWhile
      intro!: sorted_filter)

lemma get_expired_spec:
  assumes inv: "tq_inv q" and get: "get_expired now result q = (result', q')"
  shows "result' = result @ map (\<lambda>p. td_task (timer_at q p)) (firing now q)"
    and "tq_inv q'" and "tq_next q' = tq_next q"
    and "set (tq_timers q') = {p \<in> set (tq_timers q). now < deadline_of q p}"
    and "\<And>p. p \<in> set (tq_timers q') \<Longrightarrow> tq_store q' p = tq_store q p"
proof -
  obtain fired where "result' = result @ fired" and ex: "expiry now q fired q'"
    using get_expired_loop_spec [OF inv, of now result] get by (auto simp: get_expired_def)
  then show "result' = result @ map (\<lambda>p. td_task (timer_at q p)) (firing now q)"
    and "tq_inv q'" and "tq_next q' = tq_next q"
    and "\<And>p. p \<in> set (tq_timers q') \<Longrightarrow> tq_store q' p = tq_store q p"
    by (simp_all add: expiry_def)
  from ex have "set_mset (mset (tq_timers q')) = set_mset {#p \<in># mset (tq_timers q). now < deadline_of q p#}"
    by (simp only: expiry_def)
  then show "set (tq_timers q') = {p \<in> set (tq_timers q). now < deadline_of q p}" by simp
qed

lemma dtor_calls:
  "tq_inv q \<Longrightarrow> fst (timer_queue_dtor calls q) =
     calls @ map (\<lambda>p. (td_task (timer_at q p), False)) (tq_timers q)"
proof (induction calls q rule: timer_queue_dtor.induct)
  case (1 calls q)
  show ?case
  proof (cases "tq_timers q")
    case Nil
    then show ?thesis by (simp add: timer_queue_dtor.simps [of calls q])
  next
    case (Cons p ps)
    have "p \<notin> set ps" using "1.prems" Cons by (simp add: tq_inv_def)
    then have "map (\<lambda>r. (td_task (timer_at (timer_pop q) r), False)) ps
        = map (\<lambda>r. (td_task (timer_at q r), False)) ps"
      using timer_pop_simps(2) [OF Cons] by (metis (no_types, lifting) map_eq_conv)
    moreover have "timer_top q = timer_at q p" using Cons by (simp add: timer_top_def pq_top_def)
    ultimately show ?thesis
      using "1.IH" tq_inv_pop [OF "1.prems"] Cons
      by (simp add: timer_queue_dtor.simps [of calls q] timer_pop_simps(1) [OF Cons])
  qed
qed

subsection \<open>Runs\<close>

text \<open>
  A program uses its timer queue by pushing timers, cancelling handles and asking for what
  has expired at some time. A run records every firing as the timer, its deadline and the
  time of the call that returned it.
\<close>

datatype 't tq_op = PushOp nanos 't | CancelOp nat | ExpireOp nanos

type_synonym firing_log = "(nat \<times> nanos \<times> nanos) list"

fun tq_exec :: "'t tq_op \<Rightarrow> 't timer_queue \<times> firing_log \<Rightarrow> 't timer_queue \<times> firing_log" where
  "tq_exec (PushOp tp task) (q, log) = (snd (timer_push tp task q), log)"
| "tq_exec (CancelOp h) (q, log) = (snd (snd (timer_cancel h q)), log)"
| "tq_exec (ExpireOp now) (q, log) =
     (snd (get_expired now [] q), log @ map (\<lambda>p. (p, deadline_of q p, now)) (firing now q))"

definition tq_run :: "'t tq_op list \<Rightarrow> 't timer_queue \<times> firing_log" where
  "tq_run ops = fold tq_exec ops (tq_empty, [])"

text \<open>
  The invariant of runs: no timer that has fired is still in the queue, no timer fires twice,
  none fires early.
\<close>

definition log_ok :: "'t timer_queue \<Rightarrow> firing_log \<Rightarrow> bool" where
  "log_ok q log \<longleftrightarrow> distinct (map fst log)
     \<and> (\<forall>(p, tp, now) \<in> set log. tp \<le> now)
     \<and> fst ` set log \<subseteq> {..< tq_next q} - set (tq_timers q)"

definition run_inv :: "'t timer_queue \<times> firing_log \<Rightarrow> bool" where
  "run_inv ql \<longleftrightarrow> tq_inv (fst ql) \<and> log_ok (fst ql) (snd ql)"

lemma run_inv_empty: "run_inv (tq_empty, [])"
  by (simp add: run_inv_def tq_inv_empty log_ok_def)

lemma timer_push_simps:
  "tq_next (snd (timer_push tp task q)) = Suc (tq_next q)"
  "set (tq_timers (snd (timer_push tp task q))) = insert (tq_next q) (set (tq_timers q))"
  "fst (timer_push tp task q) = tq_next q"
  by (simp_all add: timer_push_def Let_def pq_emplace_def set_insort_key)

lemma timer_cancel_simps:
  "tq_next (snd (snd (timer_cancel h q))) = tq_next q"
  "tq_timers (snd (snd (timer_cancel h q))) = tq_timers q"
  by (simp_all add: timer_cancel_def split: option.split)

lemma log_ok_frame:
  assumes "log_ok q log" and "tq_next q \<le> tq_next q'"
    and "set (tq_timers q') \<inter> {..< tq_next q} \<subseteq> set (tq_timers q)"
  shows "log_ok q' log"
proof -
  have "fst ` set log \<subseteq> {..< tq_next q'} - set (tq_timers q')"
    using assms unfolding log_ok_def by (auto simp: subset_iff)
  with assms(1) show ?thesis by (simp add: log_ok_def)
qed

lemma log_ok_append:
  assumes log: "log_ok q log" and ps: "distinct ps" "set ps \<subseteq> set (tq_timers q)"
    and due: "\<And>p. p \<in> set ps \<Longrightarrow> f p \<le> now" and bound: "set (tq_timers q) \<subseteq> {..< tq_next q}"
    and q': "tq_next q' = tq_next q" "set (tq_timers q') \<subseteq> set (tq_timers q) - set ps"
  shows "log_ok q' (log @ map (\<lambda>p. (p, f p, now)) ps)"
proof -
  have fsts: "map fst (map (\<lambda>p. (p, f p, now)) ps) = ps" by (simp add: o_def)
  have old: "fst ` set log \<subseteq> {..< tq_next q} - set (tq_timers q)" "distinct (map fst log)"
    using log by (simp_all add: log_ok_def)
  then have "set (map fst log) \<inter> set ps = {}" using ps(2) by auto
  then have "distinct (map fst (log @ map (\<lambda>p. (p, f p, now)) ps))"
    using old ps(1) by (simp only: map_append distinct_append fsts set_map)
  moreover have "fst ` set (log @ map (\<lambda>p. (p, f p, now)) ps) \<subseteq> {..< tq_next q'} - set (tq_timers q')"
    using old(1) ps(2) bound q' by auto
  moreover have "\<forall>(p, tp, n) \<in> set (log @ map (\<lambda>p. (p, f p, now)) ps). tp \<le> n"
    using log due by (auto simp: log_ok_def)
  ultimately show ?thesis by (simp only: log_ok_def)
qed

lemma run_inv_exec:
  assumes inv: "tq_inv q" and log: "log_ok q log"
  shows "run_inv (tq_exec op (q, log))"
proof (cases op)
  case (PushOp tp task)
  have "tq_inv (snd (timer_push tp task q))"
    by (rule tq_inv_push [OF inv prod.collapse [symmetric]])
  moreover have "log_ok (snd (timer_push tp task q)) log"
    by (rule log_ok_frame [OF log]) (auto simp: timer_push_simps)
  ultimately show ?thesis by (simp add: PushOp run_inv_def)
next
  case (CancelOp h)
  obtain r calls q' where c: "timer_cancel h q = (r, calls, q')" by (cases "timer_cancel h q")
  have "log_ok q' log"
    by (rule log_ok_frame [OF log]) (use timer_cancel_simps [of h q] c in auto)
  with tq_inv_cancel [OF inv c] show ?thesis by (simp add: CancelOp run_inv_def c)
next
  case (ExpireOp now)
  obtain r q' where get: "get_expired now [] q = (r, q')" by fastforce
  note spec = get_expired_spec [OF inv get]
  have "log_ok q' (log @ map (\<lambda>p. (p, deadline_of q p, now)) (firing now q))"
  proof (rule log_ok_append [OF log firing_order(1) [OF inv]])
    show "set (tq_timers q) \<subseteq> {..< tq_next q}" using inv by (auto simp: tq_inv_def)
    show "set (tq_timers q') \<subseteq> set (tq_timers q) - set (firing now q)"
      using spec(4) by (auto simp: set_firing [OF inv])
  qed (use spec(3) in \<open>auto simp: set_firing [OF inv]\<close>)
  with spec(2) show ?thesis by (simp add: ExpireOp run_inv_def get)
qed

lemma run_inv_fold: "run_inv ql \<Longrightarrow> run_inv (fold tq_exec ops ql)"
proof (induction ops arbitrary: ql)
  case (Cons op ops)
  have "run_inv (tq_exec op ql)"
    using run_inv_exec [of "fst ql" "snd ql" op] Cons.prems by (simp add: run_inv_def)
  from Cons.IH [OF this] show ?case by simp
qed simp

lemma tq_run_inv: "run_inv (tq_run ops)"
  unfolding tq_run_def by (rule run_inv_fold [OF run_inv_empty])

lemma tq_run_queue_inv: "tq_inv (fst (tq_run ops))"
  using tq_run_inv [of ops] by (simp add: run_inv_def)

text \<open>Cancelling keeps the timer in the queue with its flag down; nothing raises the flag again.\<close>

definition dead_in :: "nat \<Rightarrow> 't timer_queue \<Rightarrow> bool" where
  "dead_in h q \<longleftrightarrow> h < tq_next q \<and> (h \<in> set (tq_timers q) \<longrightarrow> \<not> td_flag (timer_at q h))"

lemma dead_in_exec:
  assumes inv: "tq_inv q" and dead: "dead_in h q" and ex: "tq_exec op (q, log) = (q', log')"
  shows "dead_in h q'" and "h \<notin> fst ` set log \<Longrightarrow> h \<notin> fst ` set log'"
proof -
  show "dead_in h q'"
  proof (cases op)
    case (PushOp tp task)
    with ex dead show ?thesis
      by (auto simp: dead_in_def timer_push_def Let_def timer_at_def pq_emplace_def set_insort_key)
  next
    case (CancelOp c)
    with ex dead show ?thesis
      by (auto simp: dead_in_def timer_cancel_def timer_at_def split: option.splits if_splits)
  next
    case (ExpireOp now)
    obtain r q1 where get: "get_expired now [] q = (r, q1)" by fastforce
    with ex ExpireOp have "q1 = q'" by simp
    with get_expired_spec [OF inv get] dead show ?thesis by (auto simp: dead_in_def timer_at_def)
  qed
  show "h \<notin> fst ` set log \<Longrightarrow> h \<notin> fst ` set log'"
    using ex dead by (cases op) (auto simp: set_firing [OF inv] dead_in_def)
qed

lemma dead_in_fold:
  assumes "run_inv ql" and "dead_in h (fst ql)" and "h \<notin> fst ` set (snd ql)"
  shows "h \<notin> fst ` set (snd (fold tq_exec ops ql))"
  using assms
proof (induction ops arbitrary: ql)
  case Nil
  then show ?case by simp
next
  case (Cons op ops)
  obtain q log where ql: "ql = (q, log)" by (cases ql)
  obtain q' log' where ex: "tq_exec op (q, log) = (q', log')" by fastforce
  have inv: "tq_inv q" and log: "log_ok q log" using Cons.prems(1) by (simp_all add: run_inv_def ql)
  have "run_inv (q', log')" using run_inv_exec [OF inv log, of op] by (simp add: ex)
  then have "h \<notin> fst ` set (snd (fold tq_exec ops (q', log')))"
    using dead_in_exec [OF inv _ ex, of h] Cons.prems(2,3) ql by (intro Cons.IH) simp_all
  then show ?case by (simp add: ql ex)
qed

lemma next_duration_spec:
  assumes inv: "tq_inv q"
  shows "0 \<le> next_duration now q
    \<and> (\<forall>p \<in> set (tq_timers q). next_duration now q \<le> max 0 (deadline_of q p - now))
    \<and> (tq_timers q \<noteq> [] \<longrightarrow> (\<exists>p \<in> set (tq_timers q). deadline_of q p \<le> now + next_duration now q))"
proof (cases "tq_timers q")
  case Nil
  then show ?thesis by (simp add: next_duration_def one_day_def)
next
  case (Cons p ps)
  have wf: "pq_wf (deadline_of q) (tq_timers q)" using inv by (simp add: tq_inv_def)
  have least: "deadline_of q p \<le> deadline_of q r" if "r \<in> set (tq_timers q)" for r
    using pq.top_least [OF wf, of r] that Cons by (simp add: pq_top_def)
  have "next_duration now q = max 0 (deadline_of q p - now)"
    using Cons by (simp add: next_duration_def timer_top_def pq_top_def deadline_of_def Let_def)
  then show ?thesis using least Cons by fastforce
qed

lemma timer_cancel_True:
  assumes inv: "tq_inv q" and c: "timer_cancel h q = (True, calls, q')"
  shows "h \<in> set (tq_timers q)" and "dead_in h q'" and "tq_timers q' = tq_timers q"
    and "calls = [(td_task (timer_at q h), False)]" and "td_task (timer_at q' h) = td_task (timer_at q h)"
    and "tq_store q' h \<noteq> None"
  using assms by (auto simp: timer_cancel_def tq_inv_def dead_in_def timer_at_def split: option.splits)

subsection \<open>Properties\<close>

text \<open>
  Property C24: whatever was pushed and cancelled before, \<^verbatim>\<open>get_expired\<close> appends the tasks of
  exactly those pending timers that are due and not cancelled, earliest deadline first, and
  leaves exactly the timers that are not yet due in the queue.
\<close>

theorem get_expired_exact:
  assumes "fst (tq_run ops) = q" and "get_expired now result q = (result', q')"
  shows "\<exists>ps. result' = result @ map (\<lambda>p. td_task (timer_at q p)) ps
    \<and> distinct ps \<and> sorted (map (deadline_of q) ps)
    \<and> set ps = {p \<in> set (tq_timers q). deadline_of q p \<le> now \<and> td_flag (timer_at q p)}
    \<and> set (tq_timers q') = {p \<in> set (tq_timers q). now < deadline_of q p}"
proof -
  have inv: "tq_inv q" using tq_run_queue_inv [of ops] assms(1) by simp
  show ?thesis
    using get_expired_spec(1,4) [OF inv assms(2)] firing_order [OF inv] set_firing [OF inv] by blast
qed

definition demo_queue :: "string timer_queue" where
  "demo_queue = fst (tq_run [PushOp 5 ''due'', PushOp 20 ''late''])"

lemma timer_push_eq:
  "timer_push tp t \<lparr>tq_timers = ts, tq_store = st, tq_next = n\<rparr> =
     (n, \<lparr>tq_timers = insort_key (\<lambda>p. td_deadline (the ((st(n \<mapsto> \<lparr>td_flag = True, td_deadline = tp, td_task = t\<rparr>)) p))) n ts,
          tq_store = st(n \<mapsto> \<lparr>td_flag = True, td_deadline = tp, td_task = t\<rparr>), tq_next = Suc n\<rparr>)"
  by (simp add: timer_push_def pq_emplace_def deadline_of_def [abs_def] timer_at_def Let_def)

lemma demo_queue_eq:
  "demo_queue = \<lparr>tq_timers = [0, Suc 0],
     tq_store = [0 \<mapsto> \<lparr>td_flag = True, td_deadline = 5, td_task = ''due''\<rparr>,
                 Suc 0 \<mapsto> \<lparr>td_flag = True, td_deadline = 20, td_task = ''late''\<rparr>], tq_next = Suc (Suc 0)\<rparr>"
  by (simp add: demo_queue_def tq_run_def tq_empty_def timer_push_eq)

lemma demo_queue_sel:
  "tq_timers demo_queue = [0, Suc 0]" "deadline_of demo_queue 0 = 5" "deadline_of demo_queue (Suc 0) = 20"
  "td_task (timer_at demo_queue 0) = ''due''" "td_flag (timer_at demo_queue 0)"
  by (simp_all add: demo_queue_eq deadline_of_def timer_at_def)

theorem get_expired_exact_witness:
  "\<exists>result' q'. get_expired 10 [] demo_queue = (result', q')
     \<and> result' = [''due''] \<and> set (tq_timers q') = {1}"
proof -
  obtain result' q' where get: "get_expired 10 [] demo_queue = (result', q')" by fastforce
  from get_expired_exact [OF demo_queue_def [symmetric] get] show ?thesis
  proof (elim exE conjE)
    fix ps
    assume ps: "result' = [] @ map (\<lambda>p. td_task (timer_at demo_queue p)) ps" "distinct ps"
      and set: "set ps = {p \<in> set (tq_timers demo_queue). deadline_of demo_queue p \<le> 10 \<and> td_flag (timer_at demo_queue p)}"
      and left: "set (tq_timers q') = {p \<in> set (tq_timers demo_queue). 10 < deadline_of demo_queue p}"
    have "x \<in> set ps \<longleftrightarrow> x \<in> {0}" for x
      unfolding set by (cases "x = 0"; cases "x = Suc 0") (simp_all add: demo_queue_sel)
    then have "set ps = {0}" by blast
    with ps(2) have "ps = [0]" by (rule distinct_singleton_list)
    with ps(1) have "result' = [''due'']" by (simp add: demo_queue_sel)
    moreover have "x \<in> set (tq_timers q') \<longleftrightarrow> x \<in> {1}" for x
      unfolding left by (cases "x = 0"; cases "x = Suc 0") (simp_all add: demo_queue_sel)
    ultimately show ?thesis using get by blast
  qed
qed

lemma demo_log: "snd (tq_run [PushOp 5 ''a'', ExpireOp 4, ExpireOp 6, ExpireOp 7]) = [(0, 5, 6)]"
  by (simp add: tq_run_def tq_empty_def timer_push_eq firing_def due_timers_def deadline_of_def timer_at_def
      get_expired_def get_expired_loop.simps timer_top_def pq_top_def timer_pop_def pq_pop_def)

text \<open>
  A timer fires at most once, never before its deadline, and not any more once it
  has left the queue.
\<close>

theorem timers_fire_once_and_not_early:
  "distinct (map fst (snd (tq_run ops)))
   \<and> (\<forall>p tp now. (p, tp, now) \<in> set (snd (tq_run ops)) \<longrightarrow> tp \<le> now \<and> p \<notin> set (tq_timers (fst (tq_run ops))))"
proof -
  have log: "log_ok (fst (tq_run ops)) (snd (tq_run ops))" using tq_run_inv [of ops] by (simp add: run_inv_def)
  have "tp \<le> now \<and> p \<notin> set (tq_timers (fst (tq_run ops)))" if "(p, tp, now) \<in> set (snd (tq_run ops))" for p tp now
    using log that unfolding log_ok_def by force
  with log show ?thesis by (simp add: log_ok_def)
qed

theorem timers_fire_once_and_not_early_witness:
  "snd (tq_run [PushOp 5 ''a'', ExpireOp 4, ExpireOp 6, ExpireOp 7]) = [(0, 5, 6)]
   \<and> 0 \<notin> set (tq_timers (fst (tq_run [PushOp 5 ''a'', ExpireOp 4, ExpireOp 6, ExpireOp 7])))"
  using timers_fire_once_and_not_early [of "[PushOp 5 ''a'', ExpireOp 4, ExpireOp 6, ExpireOp 7]"]
  by (simp add: demo_log)

text \<open>
  Once \<^verbatim>\<open>cancel\<close> has returned true, the timer has not fired and never will, however
  the program goes on.
\<close>

theorem cancelled_timer_never_fires:
  assumes "tq_run ops = (q, log)" and "timer_cancel h q = (True, calls, q')"
  shows "h \<notin> fst ` set (snd (fold tq_exec later (q', log)))"
proof -
  have inv: "tq_inv q" and log: "log_ok q log"
    using tq_run_inv [of ops] assms(1) by (simp_all add: run_inv_def)
  note c = timer_cancel_True [OF inv assms(2)]
  have "run_inv (tq_exec (CancelOp h) (q, log))" by (rule run_inv_exec [OF inv log])
  then have "run_inv (q', log)" using assms(2) by simp
  moreover have "h \<notin> fst ` set log" using log c(1) unfolding log_ok_def by auto
  ultimately show ?thesis using c(2) by (intro dead_in_fold) simp_all
qed

theorem cancelled_timer_never_fires_witness:
  "\<exists>calls q'. timer_cancel 0 demo_queue = (True, calls, q')
     \<and> 0 \<notin> fst ` set (snd (fold tq_exec [ExpireOp 100] (q', [])))"
proof -
  have run: "tq_run [PushOp 5 ''due'', PushOp 20 ''late''] = (demo_queue, [])"
    by (simp add: demo_queue_def tq_run_def prod_eq_iff)
  obtain calls q' where c: "timer_cancel 0 demo_queue = (True, calls, q')"
    by (simp add: timer_cancel_def demo_queue_eq)
  from cancelled_timer_never_fires [OF run c, of "[ExpireOp 100]"] c show ?thesis by blast
qed

text \<open>
  The time the event loop may sleep is never negative and never runs past a
  deadline; when a timer is pending and none is overdue it is exactly the distance to the
  earliest deadline, so the loop does not wake up early either.
\<close>

theorem next_duration_exact:
  assumes "fst (tq_run ops) = q"
  shows "0 \<le> next_duration now q
    \<and> (\<forall>p \<in> set (tq_timers q). next_duration now q \<le> max 0 (deadline_of q p - now))
    \<and> (tq_timers q \<noteq> [] \<longrightarrow> (\<exists>p \<in> set (tq_timers q). deadline_of q p \<le> now + next_duration now q))"
  using next_duration_spec [OF tq_run_queue_inv [of ops]] assms by simp

theorem next_duration_exact_witness: "next_duration 2 demo_queue = 3"
  using next_duration_exact [OF demo_queue_def [symmetric], of 2]
  by (simp add: demo_queue_sel) arith

text \<open>
  \<^verbatim>\<open>cancel\<close> does not look at the flag. A second cancel of a timer that is still in
  the queue succeeds again and calls \<^verbatim>\<open>task(false)\<close> again, and so does the destructor of the
  queue for the cancelled timer.
\<close>

theorem cancel_calls_task_again:
  assumes "tq_run ops = (q, log)" and "timer_cancel h q = (True, calls, q1)"
  shows "calls = [(td_task (timer_at q h), False)]
    \<and> (\<exists>q2. timer_cancel h q1 = (True, calls, q2))
    \<and> (td_task (timer_at q h), False) \<in> set (fst (timer_queue_dtor [] q1))"
proof -
  have inv: "tq_inv q" using tq_run_queue_inv [of ops] assms(1) by simp
  note c = timer_cancel_True [OF inv assms(2)]
  have "\<exists>q2. timer_cancel h q1 = (True, calls, q2)"
    using c(4-6) by (auto simp: timer_cancel_def timer_at_def)
  moreover have "(td_task (timer_at q h), False) \<in> set (fst (timer_queue_dtor [] q1))"
    using dtor_calls [OF tq_inv_cancel [OF inv assms(2)], of "[]"] c(1,3,5) by force
  ultimately show ?thesis using c(4) by blast
qed

theorem cancel_calls_task_again_witness:
  "\<exists>calls q1 q2. timer_cancel 0 demo_queue = (True, calls, q1) \<and> timer_cancel 0 q1 = (True, calls, q2)
     \<and> calls = [(''due'', False)]"
proof -
  have run: "tq_run [PushOp 5 ''due'', PushOp 20 ''late''] = (demo_queue, [])"
    by (simp add: demo_queue_def tq_run_def prod_eq_iff)
  obtain calls q1 where c: "timer_cancel 0 demo_queue = (True, calls, q1)"
    by (simp add: timer_cancel_def demo_queue_eq)
  from cancel_calls_task_again [OF run c] c show ?thesis by (auto simp: demo_queue_sel)
qed

end
