(* ===== verification/Co_Mutex.thy ===== *)
theory Co_Mutex
  imports Magio_Prelude
begin

section \<open>The coroutine mutex and condition (core/mutex.h, core/mutex.cpp)\<close>

text \<open>
  \<^verbatim>\<open>Mutex\<close> suspends coroutines instead of threads. Its fields are guarded by a
  \<^verbatim>\<open>std::mutex\<close>, so each of its operations is one atomic step; waking a coroutine happens
  after that section, by posting its resumption to the context it was suspended on. Coroutine
  handles and contexts are numbered.
\<close>

record co_entry =
  en_ctx :: nat
  en_h :: nat

record co_mutex =
  mx_flag :: bool
  mx_queue :: "co_entry list"

definition mutex_new :: co_mutex where
  "mutex_new = \<lparr>mx_flag = True, mx_queue = []\<rparr>"

text \<open>
  \<^verbatim>\<open>LockAwaitable::await_suspend\<close> and \<^verbatim>\<open>GuardAwaitable::await_suspend\<close>: take the flag or queue up.
  The boolean is \<^verbatim>\<open>wake\<close>: whether the coroutine goes on at once.
\<close>

definition lock_await_suspend :: "nat \<Rightarrow> nat \<Rightarrow> co_mutex \<Rightarrow> bool \<times> co_mutex" where
  "lock_await_suspend local_context prev_h m =
     (if mx_flag m then (True, m\<lparr>mx_flag := False\<rparr>)
      else (False, m\<lparr>mx_queue := mx_queue m @ [\<lparr>en_ctx = local_context, en_h = prev_h\<rparr>]\<rparr>))"

definition guard_await_suspend :: "nat \<Rightarrow> nat \<Rightarrow> co_mutex \<Rightarrow> bool \<times> co_mutex" where
  "guard_await_suspend local_context prev_h m =
     (if mx_flag m then (True, m\<lparr>mx_flag := False\<rparr>)
      else (False, m\<lparr>mx_queue := mx_queue m @ [\<lparr>en_ctx = local_context, en_h = prev_h\<rparr>]\<rparr>))"

text \<open>
  \<^verbatim>\<open>Mutex::unlock\<close>, which is also the destructor of \<^verbatim>\<open>LockGuard\<close>: hand the lock to the first
  waiter, or raise the flag. The result is the entry whose resumption is posted next.
\<close>

definition mutex_unlock :: "co_mutex \<Rightarrow> co_entry option \<times> co_mutex" where
  "mutex_unlock m =
     (case mx_queue m of
        e # es \<Rightarrow> (Some e, m\<lparr>mx_queue := es\<rparr>)
      | [] \<Rightarrow> (None, m\<lparr>mx_flag := True\<rparr>))"

text \<open>\<^verbatim>\<open>Condition\<close>: the queue of waiters, and what a notification takes out of it.\<close>

definition cond_enqueue :: "nat \<Rightarrow> nat \<Rightarrow> co_entry list \<Rightarrow> co_entry list" where
  "cond_enqueue local_context h queue = queue @ [\<lparr>en_ctx = local_context, en_h = h\<rparr>]"

definition notify_one :: "co_entry list \<Rightarrow> co_entry option \<times> co_entry list" where
  "notify_one queue = (case queue of e # es \<Rightarrow> (Some e, es) | [] \<Rightarrow> (None, []))"

definition notify_all :: "co_entry list \<Rightarrow> co_entry list \<times> co_entry list" where
  "notify_all queue = (queue, [])"

lemma guard_is_lock: "guard_await_suspend = lock_await_suspend"
  by (simp add: guard_await_suspend_def lock_await_suspend_def fun_eq_iff)

subsection \<open>First come, first served\<close>

text \<open>
  The mutex alone, under any sequence of lock requests and unlocks by the holder. The record
  counts who asked and who was let in, in order.
\<close>

datatype mutex_op = LockOp nat nat | UnlockOp

record lock_history =
  lh_mutex :: co_mutex
  lh_asked :: "nat list"
  lh_granted :: "nat list"

fun mutex_exec :: "mutex_op \<Rightarrow> lock_history \<Rightarrow> lock_history" where
  "mutex_exec (LockOp c h) s =
     (let (wake, m) = guard_await_suspend c h (lh_mutex s)
      in s\<lparr>lh_mutex := m, lh_asked := lh_asked s @ [h],
           lh_granted := (if wake then lh_granted s @ [h] else lh_granted s)\<rparr>)"
| "mutex_exec UnlockOp s =
     (let (e, m) = mutex_unlock (lh_mutex s)
      in s\<lparr>lh_mutex := m,
           lh_granted := (case e of Some e \<Rightarrow> lh_granted s @ [en_h e] | None \<Rightarrow> lh_granted s)\<rparr>)"

definition mutex_run :: "mutex_op list \<Rightarrow> lock_history" where
  "mutex_run ops = fold mutex_exec ops \<lparr>lh_mutex = mutex_new, lh_asked = [], lh_granted = []\<rparr>"

definition fifo_ok :: "lock_history \<Rightarrow> bool" where
  "fifo_ok s \<longleftrightarrow> lh_asked s = lh_granted s @ map en_h (mx_queue (lh_mutex s))
     \<and> (mx_flag (lh_mutex s) \<longrightarrow> mx_queue (lh_mutex s) = [])"

lemma fifo_ok_exec: "fifo_ok s \<Longrightarrow> fifo_ok (mutex_exec op s)"
  by (cases op) (auto simp: fifo_ok_def guard_await_suspend_def mutex_unlock_def split: list.splits)

lemma fifo_ok_run: "fifo_ok (mutex_run ops)"
proof -
  have "fifo_ok s \<Longrightarrow> fifo_ok (fold mutex_exec ops s)" for s
    by (induction ops arbitrary: s) (simp_all add: fifo_ok_exec)
  then show ?thesis by (simp add: mutex_run_def fifo_ok_def mutex_new_def)
qed

subsection \<open>The system of coroutines\<close>

text \<open>
  Where a coroutine is with respect to one mutex and one condition:
  \<^item> \<open>Outside\<close>: running without the lock;
  \<^item> \<open>Won\<close>: its \<^verbatim>\<open>await_suspend\<close> took the flag and is about to resume it;
  \<^item> \<open>Parked\<close>: suspended in the mutex's queue;
  \<^item> \<open>Granted\<close>: taken out of that queue by an unlock, its resumption not yet run;
  \<^item> \<open>Holding\<close>: it owns a \<^verbatim>\<open>LockGuard\<close>;
  \<^item> \<open>CvPushed n\<close>: in \<^verbatim>\<open>Condition::wait\<close>, in the condition's queue, before the unlock (\<open>n\<close>: a
    notifier has taken it out again);
  \<^item> \<open>CvWaiting\<close>: suspended in the condition's queue, the lock released;
  \<^item> \<open>CvNotified\<close>: taken out by a notifier, its resumption not yet run;
  \<^item> \<open>CvRelock\<close>: resumed inside \<^verbatim>\<open>wait\<close>, about to lock again.
  Entries that an unlock or a notification has taken out but not yet posted are \<open>ms_hand\<close>;
  \<open>ms_ctx c\<close> are the resumptions posted to context \<open>c\<close>, which its one thread runs in order. A
  coroutine is always queued with the context it runs on, its \<open>home\<close>; that thread runs the
  resumption, so never before the coroutine is fully suspended.
\<close>

datatype co_pc =
  Outside | Won | Parked | Granted | Holding | CvPushed bool | CvWaiting | CvNotified | CvRelock

record mutex_sys =
  ms_mutex :: co_mutex
  ms_cv :: "co_entry list"
  ms_hand :: "co_entry list"
  ms_ctx :: "nat \<Rightarrow> nat list"
  ms_pc :: "nat \<Rightarrow> co_pc"

definition mutex_sys_init :: mutex_sys where
  "mutex_sys_init = \<lparr>ms_mutex = mutex_new, ms_cv = [], ms_hand = [], ms_ctx = (\<lambda>_. []),
                     ms_pc = (\<lambda>_. Outside)\<rparr>"

definition pc_notify :: "co_pc \<Rightarrow> co_pc" where
  "pc_notify p = (case p of CvPushed _ \<Rightarrow> CvPushed True | _ \<Rightarrow> CvNotified)"

text \<open>
  The atomic parts of the operations on the system state: the critical section and the ghost
  positions it changes.
\<close>

definition do_lock :: "(nat \<Rightarrow> nat) \<Rightarrow> nat \<Rightarrow> mutex_sys \<Rightarrow> mutex_sys" where
  "do_lock home h s =
     (let (wake, m) = lock_await_suspend (home h) h (ms_mutex s)
      in s\<lparr>ms_mutex := m, ms_pc := (ms_pc s)(h := (if wake then Won else Parked))\<rparr>)"

definition do_unlock :: "nat \<Rightarrow> co_pc \<Rightarrow> mutex_sys \<Rightarrow> mutex_sys" where
  "do_unlock h next s =
     (let (e, m) = mutex_unlock (ms_mutex s)
      in case e of
           None \<Rightarrow> s\<lparr>ms_mutex := m, ms_pc := (ms_pc s)(h := next)\<rparr>
         | Some e \<Rightarrow> s\<lparr>ms_mutex := m, ms_hand := ms_hand s @ [e],
                       ms_pc := (ms_pc s)(h := next, en_h e := Granted)\<rparr>)"

definition do_cv_push :: "(nat \<Rightarrow> nat) \<Rightarrow> nat \<Rightarrow> mutex_sys \<Rightarrow> mutex_sys" where
  "do_cv_push home h s =
     s\<lparr>ms_cv := cond_enqueue (home h) h (ms_cv s), ms_pc := (ms_pc s)(h := CvPushed False)\<rparr>"

definition do_notify_one :: "mutex_sys \<Rightarrow> mutex_sys" where
  "do_notify_one s =
     (case notify_one (ms_cv s) of
        (None, cv) \<Rightarrow> s\<lparr>ms_cv := cv\<rparr>
      | (Some e, cv) \<Rightarrow> s\<lparr>ms_cv := cv, ms_hand := ms_hand s @ [e],
                         ms_pc := (ms_pc s)(en_h e := pc_notify (ms_pc s (en_h e)))\<rparr>)"

definition do_notify_all :: "mutex_sys \<Rightarrow> mutex_sys" where
  "do_notify_all s =
     (let (tmp, cv) = notify_all (ms_cv s)
      in s\<lparr>ms_cv := cv, ms_hand := ms_hand s @ tmp,
           ms_pc := (\<lambda>h. if h \<in> en_h ` set tmp then pc_notify (ms_pc s h) else ms_pc s h)\<rparr>)"

text \<open>\<^verbatim>\<open>entry.ctx->queue_in_context(entry.h)\<close>.\<close>

definition do_post :: "co_entry \<Rightarrow> mutex_sys \<Rightarrow> mutex_sys" where
  "do_post e s = s\<lparr>ms_hand := remove1 e (ms_hand s),
                   ms_ctx := (ms_ctx s)(en_ctx e := ms_ctx s (en_ctx e) @ [en_h e])\<rparr>"

definition pc_resume :: "co_pc \<Rightarrow> co_pc" where
  "pc_resume p = (case p of Granted \<Rightarrow> Holding | CvNotified \<Rightarrow> CvRelock | _ \<Rightarrow> p)"

definition do_run :: "nat \<Rightarrow> nat \<Rightarrow> nat list \<Rightarrow> mutex_sys \<Rightarrow> mutex_sys" where
  "do_run c h rest s = s\<lparr>ms_ctx := (ms_ctx s)(c := rest), ms_pc := (ms_pc s)(h := pc_resume (ms_pc s h))\<rparr>"

lemmas mutex_step_defs [step_simps] = do_lock_def do_unlock_def do_cv_push_def do_notify_one_def
  do_notify_all_def do_post_def do_run_def lock_await_suspend_def mutex_unlock_def cond_enqueue_def
  notify_one_def notify_all_def

inductive mutex_step :: "(nat \<Rightarrow> nat) \<Rightarrow> mutex_sys \<Rightarrow> mutex_sys \<Rightarrow> bool" for home where
  lock: "ms_pc s h = Outside \<or> ms_pc s h = CvRelock \<Longrightarrow> mutex_step home s (do_lock home h s)"
| resume_won: "ms_pc s h = Won \<Longrightarrow> mutex_step home s (s\<lparr>ms_pc := (ms_pc s)(h := Holding)\<rparr>)"
| unlock: "ms_pc s h = Holding \<Longrightarrow> mutex_step home s (do_unlock h Outside s)"
| cv_push: "ms_pc s h = Holding \<Longrightarrow> mutex_step home s (do_cv_push home h s)"
| cv_unlock: "ms_pc s h = CvPushed n \<Longrightarrow>
    mutex_step home s (do_unlock h (if n then CvNotified else CvWaiting) s)"
| cv_notify_one: "mutex_step home s (do_notify_one s)"
| cv_notify_all: "mutex_step home s (do_notify_all s)"
| post: "e \<in> set (ms_hand s) \<Longrightarrow> mutex_step home s (do_post e s)"
| run: "ms_ctx s c = h # rest \<Longrightarrow> ms_pc s h = Granted \<or> ms_pc s h = CvNotified \<Longrightarrow>
    mutex_step home s (do_run c h rest s)"

subsection \<open>The invariant\<close>

text \<open>
  An owner is a coroutine that may touch what the mutex guards, or that will before anybody
  else; a coroutine in flight is one whose resumption is on its way. A queue holds exactly the
  coroutines of a kind when its handles are distinct, are those coroutines, and each is queued
  with its home.
\<close>

fun pc_owner :: "co_pc \<Rightarrow> bool" where
  "pc_owner Won = True" | "pc_owner Granted = True" | "pc_owner Holding = True"
| "pc_owner (CvPushed n) = True" | "pc_owner _ = False"

fun pc_in_flight :: "co_pc \<Rightarrow> bool" where
  "pc_in_flight Granted = True" | "pc_in_flight CvNotified = True"
| "pc_in_flight (CvPushed n) = n" | "pc_in_flight _ = False"

fun pc_in_cv :: "co_pc \<Rightarrow> bool" where
  "pc_in_cv CvWaiting = True" | "pc_in_cv (CvPushed n) = (\<not> n)" | "pc_in_cv _ = False"

definition handles :: "co_entry list \<Rightarrow> nat list" where
  "handles es = map en_h es"

lemma handles_simps [simp]:
  "handles [] = []" "handles (e # es) = en_h e # handles es" "handles (es @ fs) = handles es @ handles fs"
  by (simp_all add: handles_def)

lemma handles_mem: "e \<in> set es \<Longrightarrow> en_h e \<in> set (handles es)"
  by (simp add: handles_def)

lemma handles_remove1:
  "distinct (handles es) \<Longrightarrow> e \<in> set es \<Longrightarrow> handles (remove1 e es) = remove1 (en_h e) (handles es)"
  by (induction es) (auto dest: handles_mem)

definition at_home :: "(nat \<Rightarrow> nat) \<Rightarrow> co_entry list \<Rightarrow> bool" where
  "at_home home es \<longleftrightarrow> (\<forall>e \<in> set es. en_ctx e = home (en_h e))"

lemma at_home_simps [simp]:
  "at_home home []" "at_home home (e # es) \<longleftrightarrow> en_ctx e = home (en_h e) \<and> at_home home es"
  "at_home home (es @ fs) \<longleftrightarrow> at_home home es \<and> at_home home fs"
  by (auto simp: at_home_def)

lemma at_home_mem: "at_home home es \<Longrightarrow> e \<in> set es \<Longrightarrow> en_ctx e = home (en_h e)"
  by (simp add: at_home_def)

lemma at_home_remove1: "at_home home es \<Longrightarrow> at_home home (remove1 e es)"
  using set_remove1_subset [of e es] by (auto simp: at_home_def)

definition queue_holds :: "(nat \<Rightarrow> nat) \<Rightarrow> co_entry list \<Rightarrow> (nat \<Rightarrow> bool) \<Rightarrow> bool" where
  "queue_holds home es P \<longleftrightarrow> distinct (handles es) \<and> at_home home es
     \<and> (\<forall>h. h \<in> set (handles es) \<longleftrightarrow> P h)"

definition flight_ok :: "(nat \<Rightarrow> nat) \<Rightarrow> co_entry list \<Rightarrow> (nat \<Rightarrow> nat list) \<Rightarrow> (nat \<Rightarrow> bool) \<Rightarrow> bool" where
  "flight_ok home hand ctx P \<longleftrightarrow> distinct (handles hand) \<and> at_home home hand
     \<and> (\<forall>c. distinct (ctx c))
     \<and> (\<forall>c. \<forall>h \<in> set (ctx c). home h = c \<and> h \<notin> set (handles hand))
     \<and> (\<forall>h. P h \<longleftrightarrow> h \<in> set (handles hand) \<or> h \<in> set (ctx (home h)))"

definition lock_ok :: "co_mutex \<Rightarrow> (nat \<Rightarrow> bool) \<Rightarrow> bool" where
  "lock_ok m P \<longleftrightarrow> (mx_flag m \<longleftrightarrow> (\<forall>h. \<not> P h)) \<and> (mx_flag m \<longrightarrow> mx_queue m = [])
     \<and> (\<forall>h h'. P h \<and> P h' \<longrightarrow> h = h')"

definition mutex_inv :: "(nat \<Rightarrow> nat) \<Rightarrow> mutex_sys \<Rightarrow> bool" where
  "mutex_inv home s \<longleftrightarrow> lock_ok (ms_mutex s) (\<lambda>h. pc_owner (ms_pc s h))
     \<and> queue_holds home (mx_queue (ms_mutex s)) (\<lambda>h. ms_pc s h = Parked)
     \<and> queue_holds home (ms_cv s) (\<lambda>h. pc_in_cv (ms_pc s h))
     \<and> flight_ok home (ms_hand s) (ms_ctx s) (\<lambda>h. pc_in_flight (ms_pc s h))"

lemma queue_holds_cong: "queue_holds home es P \<Longrightarrow> (\<And>h. P h = Q h) \<Longrightarrow> queue_holds home es Q"
  by (simp add: queue_holds_def)

lemma queue_holds_snoc:
  "queue_holds home es P \<Longrightarrow> \<not> P h \<Longrightarrow> (\<And>k. Q k \<longleftrightarrow> P k \<or> k = h) \<Longrightarrow>
   queue_holds home (es @ [\<lparr>en_ctx = home h, en_h = h\<rparr>]) Q"
  by (auto simp: queue_holds_def)

lemma queue_holds_tl:
  "queue_holds home (e # es) P \<Longrightarrow> (\<And>k. Q k \<longleftrightarrow> P k \<and> k \<noteq> en_h e) \<Longrightarrow> queue_holds home es Q"
  by (auto simp: queue_holds_def)

lemma queue_holds_head: "queue_holds home (e # es) P \<Longrightarrow> P (en_h e) \<and> en_ctx e = home (en_h e)"
  by (auto simp: queue_holds_def)

lemma flight_ok_cong:
  "flight_ok home hand ctx P \<Longrightarrow> (\<And>h. P h = Q h) \<Longrightarrow> flight_ok home hand ctx Q"
  by (simp add: flight_ok_def)

lemma flight_ok_append:
  assumes fl: "flight_ok home hand ctx P" and qu: "queue_holds home es R"
    and new: "\<And>h. R h \<Longrightarrow> \<not> P h" and Q: "\<And>h. Q h \<longleftrightarrow> P h \<or> R h"
  shows "flight_ok home (hand @ es) ctx Q"
proof -
  have R: "R h \<longleftrightarrow> h \<in> set (handles es)" for h using qu by (simp add: queue_holds_def)
  have P: "P h \<longleftrightarrow> h \<in> set (handles hand) \<or> h \<in> set (ctx (home h))" for h
    using fl unfolding flight_ok_def by simp
  have "set (handles hand) \<inter> set (handles es) = {}" using new R P by blast
  moreover have "home h = c \<and> h \<notin> set (handles hand) \<and> h \<notin> set (handles es)"
    if "h \<in> set (ctx c)" for c h
  proof -
    have "home h = c \<and> h \<notin> set (handles hand)" using fl that unfolding flight_ok_def by blast
    moreover then have "P h" using P [of h] that by simp
    ultimately show ?thesis using new [of h] R [of h] by auto
  qed
  moreover have "Q h \<longleftrightarrow> h \<in> set (handles (hand @ es)) \<or> h \<in> set (ctx (home h))" for h
    using Q [of h] P [of h] R [of h] by auto
  moreover have "distinct (handles es)" "at_home home es" using qu by (simp_all add: queue_holds_def)
  moreover have "distinct (handles hand)" "at_home home hand" "distinct (ctx c)" for c
    using fl by (simp_all add: flight_ok_def)
  ultimately show ?thesis
    unfolding flight_ok_def by (simp add: ball_Un)
qed

lemma flight_ok_post:
  assumes fl: "flight_ok home hand ctx P" and e: "e \<in> set hand"
  shows "flight_ok home (remove1 e hand) (ctx(en_ctx e := ctx (en_ctx e) @ [en_h e])) P"
proof -
  have d: "distinct (handles hand)" and hm: "at_home home hand"
    and cd: "distinct (ctx c)" and ch: "h \<in> set (ctx c) \<Longrightarrow> home h = c \<and> h \<notin> set (handles hand)"
    and P: "P h \<longleftrightarrow> h \<in> set (handles hand) \<or> h \<in> set (ctx (home h))" for c h
    using fl unfolding flight_ok_def by simp_all
  have eh: "en_ctx e = home (en_h e)" by (rule at_home_mem [OF hm e])
  have m: "en_h e \<in> set (handles hand)" by (rule handles_mem [OF e])
  have rm: "set (handles (remove1 e hand)) = set (handles hand) - {en_h e}"
    by (simp add: handles_remove1 [OF d e] d)
  have out: "en_h e \<notin> set (ctx c)" for c using ch [of "en_h e" c] m by blast
  show ?thesis
    unfolding flight_ok_def
  proof (intro conjI allI ballI)
    show "distinct (handles (remove1 e hand))" by (simp add: handles_remove1 [OF d e] d)
    show "at_home home (remove1 e hand)" by (rule at_home_remove1 [OF hm])
  next
    fix c show "distinct ((ctx(en_ctx e := ctx (en_ctx e) @ [en_h e])) c)" by (simp add: cd out)
  next
    fix c h assume "h \<in> set ((ctx(en_ctx e := ctx (en_ctx e) @ [en_h e])) c)"
    then have "h \<in> set (ctx c) \<or> c = en_ctx e \<and> h = en_h e" by (simp split: if_splits) blast
    then show "home h = c" and "h \<notin> set (handles (remove1 e hand))"
      using ch [of h c] by (auto simp: rm eh)
  next
    fix h show "P h \<longleftrightarrow> h \<in> set (handles (remove1 e hand))
        \<or> h \<in> set ((ctx(en_ctx e := ctx (en_ctx e) @ [en_h e])) (home h))"
      using P [of h] m by (cases "h = en_h e") (auto simp: rm eh)
  qed
qed

lemma flight_ok_run:
  assumes fl: "flight_ok home hand ctx P" and c: "ctx c = h # rest"
    and Q: "\<And>k. Q k \<longleftrightarrow> P k \<and> k \<noteq> h"
  shows "flight_ok home hand (ctx(c := rest)) Q"
proof -
  have d: "distinct (handles hand)" and hm: "at_home home hand"
    and cd: "distinct (ctx d)" and ch: "k \<in> set (ctx d) \<Longrightarrow> home k = d \<and> k \<notin> set (handles hand)"
    and P: "P k \<longleftrightarrow> k \<in> set (handles hand) \<or> k \<in> set (ctx (home k))" for d k
    using fl unfolding flight_ok_def by simp_all
  have hh: "home h = c" "h \<notin> set (handles hand)" using ch [of h c] c by simp_all
  have hr: "h \<notin> set rest" "distinct rest" using cd [of c] c by simp_all
  show ?thesis
    unfolding flight_ok_def
  proof (intro conjI allI ballI)
    fix e show "distinct ((ctx(c := rest)) e)" using cd [of e] hr by simp
  next
    fix e k assume "k \<in> set ((ctx(c := rest)) e)"
    then have "k \<in> set (ctx e)" using c by (simp split: if_splits)
    then show "home k = e" and "k \<notin> set (handles hand)" using ch [of k e] by blast+
  next
    fix k show "Q k \<longleftrightarrow> k \<in> set (handles hand) \<or> k \<in> set ((ctx(c := rest)) (home k))"
      using P [of k] Q [of k] hh hr c by (cases "k = h"; cases "home k = c") auto
  qed (rule d, rule hm)
qed

text \<open>Each operation keeps the invariant, by cases on what it finds in the queue it works on.\<close>

lemma mutex_invD:
  assumes "mutex_inv home s"
  shows "lock_ok (ms_mutex s) (\<lambda>h. pc_owner (ms_pc s h))"
    and "queue_holds home (mx_queue (ms_mutex s)) (\<lambda>h. ms_pc s h = Parked)"
    and "queue_holds home (ms_cv s) (\<lambda>h. pc_in_cv (ms_pc s h))"
    and "flight_ok home (ms_hand s) (ms_ctx s) (\<lambda>h. pc_in_flight (ms_pc s h))"
  using assms by (simp_all add: mutex_inv_def)

text \<open>A change of position that no queue sees.\<close>

lemma inv_move:
  assumes "mutex_inv home s" and "ms_pc s h \<noteq> Parked" and "p \<noteq> Parked"
    and "pc_owner p = pc_owner (ms_pc s h)" and "pc_in_cv p = pc_in_cv (ms_pc s h)"
    and "pc_in_flight p = pc_in_flight (ms_pc s h)"
  shows "mutex_inv home (s\<lparr>ms_pc := (ms_pc s)(h := p)\<rparr>)"
proof -
  have "pc_owner (((ms_pc s)(h := p)) k) = pc_owner (ms_pc s k)"
    and "pc_in_cv (((ms_pc s)(h := p)) k) = pc_in_cv (ms_pc s k)"
    and "pc_in_flight (((ms_pc s)(h := p)) k) = pc_in_flight (ms_pc s k)"
    and "(((ms_pc s)(h := p)) k = Parked) = (ms_pc s k = Parked)" for k
    using assms(2-6) by simp_all
  with assms(1) show ?thesis unfolding mutex_inv_def by simp
qed

lemma inv_lock:
  assumes inv: "mutex_inv home s" and pc: "ms_pc s h = Outside \<or> ms_pc s h = CvRelock"
  shows "mutex_inv home (do_lock home h s)"
proof (cases "mx_flag (ms_mutex s)")
  case True
  have "lock_ok ((ms_mutex s)\<lparr>mx_flag := False\<rparr>) (\<lambda>k. pc_owner (((ms_pc s)(h := Won)) k))"
    using mutex_invD(1) [OF inv] True by (simp add: lock_ok_def)
  moreover have "queue_holds home (mx_queue (ms_mutex s)) (\<lambda>k. ((ms_pc s)(h := Won)) k = Parked)"
    by (rule queue_holds_cong [OF mutex_invD(2) [OF inv]]) (use pc in auto)
  moreover have "queue_holds home (ms_cv s) (\<lambda>k. pc_in_cv (((ms_pc s)(h := Won)) k))"
    by (rule queue_holds_cong [OF mutex_invD(3) [OF inv]]) (use pc in auto)
  moreover have "flight_ok home (ms_hand s) (ms_ctx s) (\<lambda>k. pc_in_flight (((ms_pc s)(h := Won)) k))"
    by (rule flight_ok_cong [OF mutex_invD(4) [OF inv]]) (use pc in auto)
  ultimately show ?thesis using True by (simp add: step_simps mutex_inv_def)
next
  case False
  let ?e = "\<lparr>en_ctx = home h, en_h = h\<rparr>"
  have own: "pc_owner (((ms_pc s)(h := Parked)) k) = pc_owner (ms_pc s k)" for k using pc by auto
  have "lock_ok ((ms_mutex s)\<lparr>mx_queue := mx_queue (ms_mutex s) @ [?e]\<rparr>)
          (\<lambda>k. pc_owner (((ms_pc s)(h := Parked)) k))"
    unfolding own using mutex_invD(1) [OF inv] False by (simp add: lock_ok_def)
  moreover have "queue_holds home (mx_queue (ms_mutex s) @ [?e]) (\<lambda>k. ((ms_pc s)(h := Parked)) k = Parked)"
    by (rule queue_holds_snoc [OF mutex_invD(2) [OF inv]]) (use pc in auto)
  moreover have "queue_holds home (ms_cv s) (\<lambda>k. pc_in_cv (((ms_pc s)(h := Parked)) k))"
    by (rule queue_holds_cong [OF mutex_invD(3) [OF inv]]) (use pc in auto)
  moreover have "flight_ok home (ms_hand s) (ms_ctx s) (\<lambda>k. pc_in_flight (((ms_pc s)(h := Parked)) k))"
    by (rule flight_ok_cong [OF mutex_invD(4) [OF inv]]) (use pc in auto)
  ultimately show ?thesis using False by (simp add: step_simps mutex_inv_def)
qed

lemma inv_unlock:
  assumes inv: "mutex_inv home s" and own: "pc_owner (ms_pc s h)"
    and next_pc: "\<not> pc_owner p" "p \<noteq> Parked" "pc_in_cv p = pc_in_cv (ms_pc s h)"
      "pc_in_flight p = pc_in_flight (ms_pc s h)"
  shows "mutex_inv home (do_unlock h p s)"
proof (cases "mx_queue (ms_mutex s)")
  case Nil
  have only: "pc_owner (ms_pc s k) \<Longrightarrow> k = h" for k
    using mutex_invD(1) [OF inv] own by (simp add: lock_ok_def)
  have "lock_ok ((ms_mutex s)\<lparr>mx_flag := True\<rparr>) (\<lambda>k. pc_owner (((ms_pc s)(h := p)) k))"
    using Nil only next_pc(1) by (auto simp: lock_ok_def)
  moreover have "queue_holds home (mx_queue (ms_mutex s)) (\<lambda>k. ((ms_pc s)(h := p)) k = Parked)"
    by (rule queue_holds_cong [OF mutex_invD(2) [OF inv]]) (use own next_pc in auto)
  moreover have "queue_holds home (ms_cv s) (\<lambda>k. pc_in_cv (((ms_pc s)(h := p)) k))"
    by (rule queue_holds_cong [OF mutex_invD(3) [OF inv]]) (use next_pc in auto)
  moreover have "flight_ok home (ms_hand s) (ms_ctx s) (\<lambda>k. pc_in_flight (((ms_pc s)(h := p)) k))"
    by (rule flight_ok_cong [OF mutex_invD(4) [OF inv]]) (use next_pc in auto)
  ultimately show ?thesis using Nil by (simp add: step_simps mutex_inv_def)
next
  case (Cons e es)
  let ?pc = "(ms_pc s)(h := p, en_h e := Granted)"
  have e: "ms_pc s (en_h e) = Parked" "en_ctx e = home (en_h e)"
    using queue_holds_head [OF mutex_invD(2) [OF inv, unfolded Cons]] by simp_all
  then have ne: "en_h e \<noteq> h" using own by auto
  have only: "pc_owner (ms_pc s k) \<Longrightarrow> k = h" for k
    using mutex_invD(1) [OF inv] own by (simp add: lock_ok_def)
  have "\<not> mx_flag (ms_mutex s)" using mutex_invD(1) [OF inv] own by (auto simp: lock_ok_def)
  moreover have ow: "pc_owner (?pc k) \<longleftrightarrow> k = en_h e" for k
    using only [of k] next_pc(1) ne by auto
  ultimately have "lock_ok ((ms_mutex s)\<lparr>mx_queue := es\<rparr>) (\<lambda>k. pc_owner (?pc k))"
    unfolding ow by (simp add: lock_ok_def)
  moreover have "queue_holds home es (\<lambda>k. ?pc k = Parked)"
    by (rule queue_holds_tl [where e = e and P = "\<lambda>k. ms_pc s k = Parked"])
      (use mutex_invD(2) [OF inv] Cons own next_pc in auto)
  moreover have "queue_holds home (ms_cv s) (\<lambda>k. pc_in_cv (?pc k))"
    by (rule queue_holds_cong [OF mutex_invD(3) [OF inv]]) (use next_pc e in auto)
  moreover have "flight_ok home (ms_hand s @ [e]) (ms_ctx s) (\<lambda>k. pc_in_flight (?pc k))"
  proof (rule flight_ok_append [OF mutex_invD(4) [OF inv], where R = "\<lambda>k. k = en_h e"])
    show "queue_holds home [e] (\<lambda>k. k = en_h e)" by (simp add: queue_holds_def e(2))
    show "pc_in_flight (?pc k) = (pc_in_flight (ms_pc s k) \<or> k = en_h e)" for k
      using next_pc(4) by simp
    show "\<not> pc_in_flight (ms_pc s k)" if "k = en_h e" for k using that e(1) by simp
  qed
  ultimately show ?thesis using Cons by (simp add: step_simps mutex_inv_def)
qed

lemma inv_cv_push:
  assumes inv: "mutex_inv home s" and pc: "ms_pc s h = Holding"
  shows "mutex_inv home (do_cv_push home h s)"
proof -
  let ?pc = "(ms_pc s)(h := CvPushed False)"
  have ow: "pc_owner (?pc k) = pc_owner (ms_pc s k)" for k using pc by simp
  have "lock_ok (ms_mutex s) (\<lambda>k. pc_owner (?pc k))" unfolding ow by (rule mutex_invD(1) [OF inv])
  moreover have "queue_holds home (mx_queue (ms_mutex s)) (\<lambda>k. ?pc k = Parked)"
    by (rule queue_holds_cong [OF mutex_invD(2) [OF inv]]) (use pc in auto)
  moreover have "queue_holds home (ms_cv s @ [\<lparr>en_ctx = home h, en_h = h\<rparr>]) (\<lambda>k. pc_in_cv (?pc k))"
    by (rule queue_holds_snoc [OF mutex_invD(3) [OF inv]]) (use pc in auto)
  moreover have "flight_ok home (ms_hand s) (ms_ctx s) (\<lambda>k. pc_in_flight (?pc k))"
    by (rule flight_ok_cong [OF mutex_invD(4) [OF inv]]) (use pc in auto)
  ultimately show ?thesis by (simp add: step_simps mutex_inv_def)
qed

lemma inv_notified:
  assumes inv: "mutex_inv home s" and cv: "ms_cv s = es @ rest"
    and pc: "\<And>k. pc' k = (if k \<in> set (handles es) then pc_notify (ms_pc s k) else ms_pc s k)"
  shows "mutex_inv home (s\<lparr>ms_cv := rest, ms_hand := ms_hand s @ es, ms_pc := pc'\<rparr>)"
proof -
  have q: "distinct (handles es @ handles rest)" "at_home home (es @ rest)"
    and all: "pc_in_cv (ms_pc s k) \<longleftrightarrow> k \<in> set (handles es) \<or> k \<in> set (handles rest)" for k
    using mutex_invD(3) [OF inv, unfolded cv] by (simp_all add: queue_holds_def)
  have split: "(pc_owner (pc' k) = pc_owner (ms_pc s k)) \<and> (pc' k = Parked \<longleftrightarrow> ms_pc s k = Parked)
      \<and> (pc_in_cv (pc' k) \<longleftrightarrow> k \<in> set (handles rest))
      \<and> (pc_in_flight (pc' k) \<longleftrightarrow> pc_in_flight (ms_pc s k) \<or> k \<in> set (handles es))
      \<and> (k \<in> set (handles es) \<longrightarrow> \<not> pc_in_flight (ms_pc s k))" for k
  proof (cases "k \<in> set (handles es)")
    case True
    then have "pc_in_cv (ms_pc s k)" "k \<notin> set (handles rest)" using all [of k] q(1) by auto
    with True show ?thesis by (cases "ms_pc s k") (simp_all add: pc pc_notify_def)
  next
    case False
    then show ?thesis using all [of k] by (simp add: pc)
  qed
  have "lock_ok (ms_mutex s) (\<lambda>k. pc_owner (pc' k))"
    using mutex_invD(1) [OF inv] split by simp
  moreover have "queue_holds home (mx_queue (ms_mutex s)) (\<lambda>k. pc' k = Parked)"
    by (rule queue_holds_cong [OF mutex_invD(2) [OF inv]]) (use split in simp)
  moreover have "queue_holds home rest (\<lambda>k. pc_in_cv (pc' k))"
    unfolding queue_holds_def using q split by simp
  moreover have "flight_ok home (ms_hand s @ es) (ms_ctx s) (\<lambda>k. pc_in_flight (pc' k))"
  proof (rule flight_ok_append [OF mutex_invD(4) [OF inv], where R = "\<lambda>k. k \<in> set (handles es)"])
    show "queue_holds home es (\<lambda>k. k \<in> set (handles es))" using q by (simp add: queue_holds_def)
  qed (use split in simp)+
  ultimately show ?thesis by (simp add: mutex_inv_def)
qed

lemma inv_notify_one: "mutex_inv home s \<Longrightarrow> mutex_inv home (do_notify_one s)"
proof (cases "ms_cv s")
  case (Cons e es)
  assume "mutex_inv home s"
  from inv_notified [OF this, of "[e]" es "(ms_pc s)(en_h e := pc_notify (ms_pc s (en_h e)))"] Cons
  show ?thesis by (simp add: step_simps)
qed (simp add: step_simps mutex_inv_def)

lemma inv_notify_all: "mutex_inv home s \<Longrightarrow> mutex_inv home (do_notify_all s)"
  using inv_notified [of home s "ms_cv s" "[]"
      "\<lambda>h. if h \<in> set (handles (ms_cv s)) then pc_notify (ms_pc s h) else ms_pc s h"]
  by (simp add: step_simps handles_def)

lemma inv_post: "mutex_inv home s \<Longrightarrow> e \<in> set (ms_hand s) \<Longrightarrow> mutex_inv home (do_post e s)"
  using flight_ok_post [of home "ms_hand s" "ms_ctx s" _ e]
  by (simp add: step_simps mutex_inv_def)

lemma inv_run:
  assumes inv: "mutex_inv home s" and c: "ms_ctx s c = h # rest"
    and pc: "ms_pc s h = Granted \<or> ms_pc s h = CvNotified"
  shows "mutex_inv home (do_run c h rest s)"
proof -
  let ?pc = "(ms_pc s)(h := pc_resume (ms_pc s h))"
  have split: "(pc_owner (?pc k) = pc_owner (ms_pc s k)) \<and> (?pc k = Parked \<longleftrightarrow> ms_pc s k = Parked)
      \<and> (pc_in_cv (?pc k) = pc_in_cv (ms_pc s k))
      \<and> (pc_in_flight (?pc k) \<longleftrightarrow> pc_in_flight (ms_pc s k) \<and> k \<noteq> h)" for k
    using pc by (auto simp: pc_resume_def)
  have "lock_ok (ms_mutex s) (\<lambda>k. pc_owner (?pc k))"
    using mutex_invD(1) [OF inv] split unfolding lock_ok_def by metis
  moreover have "queue_holds home (mx_queue (ms_mutex s)) (\<lambda>k. ?pc k = Parked)"
    by (rule queue_holds_cong [OF mutex_invD(2) [OF inv]]) (use split in metis)
  moreover have "queue_holds home (ms_cv s) (\<lambda>k. pc_in_cv (?pc k))"
    by (rule queue_holds_cong [OF mutex_invD(3) [OF inv]]) (use split in metis)
  moreover have "flight_ok home (ms_hand s) ((ms_ctx s)(c := rest)) (\<lambda>k. pc_in_flight (?pc k))"
    by (rule flight_ok_run [OF mutex_invD(4) [OF inv] c]) (use split in metis)
  ultimately show ?thesis by (simp add: do_run_def mutex_inv_def)
qed

lemma inv_mutex_step: "mutex_step home s t \<Longrightarrow> mutex_inv home s \<Longrightarrow> mutex_inv home t"
proof (induction rule: mutex_step.induct)
  case (resume_won s h)
  then show ?case by (intro inv_move) simp_all
qed (auto intro: inv_lock inv_unlock inv_cv_push inv_notify_one inv_notify_all inv_post inv_run)

lemma inv_mutex_init: "mutex_inv home mutex_sys_init"
  by (simp add: mutex_inv_def mutex_sys_init_def mutex_new_def lock_ok_def queue_holds_def flight_ok_def)

interpretation mx: transition_system "\<lambda>s. s = mutex_sys_init" "mutex_step home" "mutex_inv home"
  by unfold_locales (simp_all add: inv_mutex_init inv_mutex_step)

subsection \<open>Nobody waits in vain\<close>

text \<open>
  From a state of the invariant, the steps that bring a coroutine on: what stands before it in
  its context's queue is run, whoever owns the lock gives it back, and every unlock brings the
  waiter one place nearer.
\<close>

abbreviation mutex_steps :: "(nat \<Rightarrow> nat) \<Rightarrow> mutex_sys \<Rightarrow> mutex_sys \<Rightarrow> bool" where
  "mutex_steps home \<equiv> (mutex_step home)\<^sup>*\<^sup>*"

lemma owner_unique:
  "mutex_inv home s \<Longrightarrow> pc_owner (ms_pc s h) \<Longrightarrow> pc_owner (ms_pc s k) \<Longrightarrow> h = k"
  by (simp add: mutex_inv_def lock_ok_def)

lemma unlock_frame:
  assumes inv: "mutex_inv home s" and "h \<noteq> k" and "ms_pc s h \<noteq> Parked"
  shows "ms_pc (do_unlock k p s) h = ms_pc s h"
proof (cases "mx_queue (ms_mutex s)")
  case (Cons e es)
  then have "ms_pc s (en_h e) = Parked"
    using queue_holds_head [OF mutex_invD(2) [OF inv, unfolded Cons]] by simp
  with assms Cons show ?thesis by (auto simp: step_simps)
qed (use assms in \<open>simp add: step_simps\<close>)

lemma unlock_other_fields:
  "ms_ctx (do_unlock k p s) = ms_ctx s" "ms_cv (do_unlock k p s) = ms_cv s"
  by (simp_all add: step_simps split: list.splits)

lemma unlock_self: "mutex_inv home s \<Longrightarrow> ms_pc s k \<noteq> Parked \<Longrightarrow> ms_pc (do_unlock k p s) k = p"
  using queue_holds_head [of home _ _ "\<lambda>h. ms_pc s h = Parked"] mutex_invD(2) [of home s]
  by (auto simp: step_simps split: list.splits)

lemma ctx_head_in_flight:
  assumes "mutex_inv home s" and "ms_ctx s c = k # rest"
  shows "pc_in_flight (ms_pc s k)"
  using mutex_invD(4) [OF assms(1)] assms(2) unfolding flight_ok_def
  by (metis list.set_intros(1))

text \<open>
  The moves that are left to the system whatever the coroutines want: resumptions are posted and run,
  and a coroutine inside \<^verbatim>\<open>wait\<close> unlocks and locks again.
\<close>

inductive mutex_move :: "(nat \<Rightarrow> nat) \<Rightarrow> mutex_sys \<Rightarrow> mutex_sys \<Rightarrow> bool" for home where
  relock: "ms_pc s h = CvRelock \<Longrightarrow> mutex_move home s (do_lock home h s)"
| resume_won: "ms_pc s h = Won \<Longrightarrow> mutex_move home s (s\<lparr>ms_pc := (ms_pc s)(h := Holding)\<rparr>)"
| cv_unlock: "ms_pc s h = CvPushed n \<Longrightarrow>
    mutex_move home s (do_unlock h (if n then CvNotified else CvWaiting) s)"
| post: "e \<in> set (ms_hand s) \<Longrightarrow> mutex_move home s (do_post e s)"
| run: "ms_ctx s c = h # rest \<Longrightarrow> ms_pc s h = Granted \<or> ms_pc s h = CvNotified \<Longrightarrow>
    mutex_move home s (do_run c h rest s)"

abbreviation mutex_moves :: "(nat \<Rightarrow> nat) \<Rightarrow> mutex_sys \<Rightarrow> mutex_sys \<Rightarrow> bool" where
  "mutex_moves home \<equiv> (mutex_move home)\<^sup>*\<^sup>*"

lemma mutex_move_step: "mutex_move home s t \<Longrightarrow> mutex_step home s t"
  by (induction rule: mutex_move.induct) (blast intro: mutex_step.intros)+

text \<open>Run whatever stands at the front of a context's queue.\<close>

lemma run_front:
  assumes inv: "mutex_inv home s" and c: "ms_ctx s c = k # rest"
  obtains t where "mutex_moves home s t" "mutex_inv home t" "ms_ctx t c = rest"
    "ms_pc t k = (if ms_pc s k = Granted then Holding else CvRelock)"
    "ms_pc s k = Granted \<longrightarrow> ms_mutex t = ms_mutex s"
    "\<And>h. h \<noteq> k \<Longrightarrow> pc_in_flight (ms_pc s h) \<Longrightarrow> ms_pc t h = ms_pc s h"
    "\<And>h. pc_owner (ms_pc s h) \<Longrightarrow> h \<noteq> k \<Longrightarrow> ms_mutex t = ms_mutex s"
proof -
  have fl: "pc_in_flight (ms_pc s k)" by (rule ctx_head_in_flight [OF inv c])
  show ?thesis
  proof (cases "ms_pc s k = Granted \<or> ms_pc s k = CvNotified")
    case True
    let ?t = "do_run c k rest s"
    have "mutex_moves home s ?t" using mutex_move.run [OF c True] by (rule r_into_rtranclp)
    moreover have "ms_pc ?t k = (if ms_pc s k = Granted then Holding else CvRelock)"
      using True by (auto simp: do_run_def pc_resume_def)
    ultimately show ?thesis
      using inv_run [OF inv c True] by (intro that [of ?t]) (simp_all add: do_run_def)
  next
    case False
    then have k: "ms_pc s k = CvPushed True" using fl by (cases "ms_pc s k") simp_all
    let ?u = "do_unlock k CvNotified s" and ?t = "do_run c k rest (do_unlock k CvNotified s)"
    have "mutex_move home s ?u" using mutex_move.cv_unlock [of s k True home] k by simp
    moreover have iu: "mutex_inv home ?u" by (rule inv_unlock [OF inv]) (simp_all add: k)
    have pk: "ms_pc ?u k = CvNotified" by (rule unlock_self [OF inv]) (simp add: k)
    have cu: "ms_ctx ?u c = k # rest" by (simp add: unlock_other_fields c)
    have "mutex_move home ?u ?t" by (rule mutex_move.run [OF cu]) (simp add: pk)
    ultimately have "mutex_moves home s ?t" by (blast intro: rtranclp.intros)
    moreover have "mutex_inv home ?t" by (rule inv_run [OF iu cu]) (simp add: pk)
    moreover have "ms_pc ?t h = ms_pc s h" if "h \<noteq> k" "pc_in_flight (ms_pc s h)" for h
    proof -
      have "ms_pc s h \<noteq> Parked" using that(2) by auto
      then show ?thesis using unlock_frame [OF inv that(1)] that(1) by (simp add: do_run_def)
    qed
    moreover have False if "pc_owner (ms_pc s h)" "h \<noteq> k" for h
      using owner_unique [OF inv that(1), of k] that k by simp
    ultimately show ?thesis
      using that [of ?t] k pk by (auto simp: do_run_def pc_resume_def)
  qed
qed

lemma drain_context:
  "mutex_inv home s \<Longrightarrow> ms_ctx s c = xs @ h # ys \<Longrightarrow> h \<notin> set xs \<Longrightarrow>
   \<exists>t. mutex_moves home s t \<and> mutex_inv home t
     \<and> ms_pc t h = (if ms_pc s h = Granted then Holding else CvRelock)
     \<and> (ms_pc s h = Granted \<longrightarrow> ms_mutex t = ms_mutex s)"
proof (induction xs arbitrary: s)
  case Nil
  then have c: "ms_ctx s c = h # ys" by simp
  show ?case by (rule run_front [OF Nil(1) c]) blast
next
  case (Cons k xs)
  then have c: "ms_ctx s c = k # (xs @ h # ys)" and ne: "h \<noteq> k" by auto
  have hf: "pc_in_flight (ms_pc s h)"
    using mutex_invD(4) [OF Cons.prems(1)] c unfolding flight_ok_def
    by (metis in_set_conv_decomp list.set_intros(2))
  obtain t where t: "mutex_moves home s t" "mutex_inv home t" "ms_ctx t c = xs @ h # ys"
    "ms_pc t h = ms_pc s h" "pc_owner (ms_pc s h) \<Longrightarrow> ms_mutex t = ms_mutex s"
    by (rule run_front [OF Cons.prems(1) c]) (use ne hf in metis)
  obtain u where u: "mutex_moves home t u" "mutex_inv home u"
    "ms_pc u h = (if ms_pc t h = Granted then Holding else CvRelock)"
    "ms_pc t h = Granted \<longrightarrow> ms_mutex u = ms_mutex t"
    using Cons.IH [OF t(2,3)] Cons.prems(3) by auto
  show ?case
    using u t rtranclp_trans [OF t(1) u(1)] by (intro exI [of _ u]) auto
qed

lemma deliver:
  assumes inv: "mutex_inv home s" and fl: "pc_in_flight (ms_pc s h)"
  shows "\<exists>t. mutex_moves home s t \<and> mutex_inv home t
     \<and> ms_pc t h = (if ms_pc s h = Granted then Holding else CvRelock)
     \<and> (ms_pc s h = Granted \<longrightarrow> ms_mutex t = ms_mutex s)"
proof -
  have "h \<in> set (handles (ms_hand s)) \<or> h \<in> set (ms_ctx s (home h))"
    using mutex_invD(4) [OF inv] fl unfolding flight_ok_def by blast
  then show ?thesis
  proof
    assume "h \<in> set (ms_ctx s (home h))"
    then obtain xs ys where "ms_ctx s (home h) = xs @ h # ys" "h \<notin> set xs" by (meson split_list_first)
    then show ?thesis by (rule drain_context [OF inv])
  next
    assume "h \<in> set (handles (ms_hand s))"
    then obtain e where e: "e \<in> set (ms_hand s)" "en_h e = h" by (auto simp: handles_def)
    let ?u = "do_post e s"
    have step: "mutex_move home s ?u" by (rule mutex_move.post [OF e(1)])
    have iu: "mutex_inv home ?u" by (rule inv_post [OF inv e(1)])
    have pu: "ms_pc ?u = ms_pc s" "ms_mutex ?u = ms_mutex s" by (simp_all add: do_post_def)
    have "h \<in> set (ms_ctx ?u (en_ctx e))" by (simp add: do_post_def e(2))
    then obtain xs ys where "ms_ctx ?u (en_ctx e) = xs @ h # ys" "h \<notin> set xs" by (meson split_list_first)
    from drain_context [OF iu this] obtain t where "mutex_moves home ?u t" "mutex_inv home t"
      "ms_pc t h = (if ms_pc s h = Granted then Holding else CvRelock)"
      "ms_pc s h = Granted \<longrightarrow> ms_mutex t = ms_mutex s"
      unfolding pu by blast
    with step show ?thesis by (meson converse_rtranclp_into_rtranclp)
  qed
qed

text \<open>
  The contract of a system of coroutines around the mutex in which \<open>h\<close> wants the lock: the moves above
  are steps of it, and everybody else who holds the lock with somebody queued can give it back. The
  steps keep an invariant of the system.
\<close>

locale lock_waiter =
  fixes home :: "nat \<Rightarrow> nat" and sys :: "'s \<Rightarrow> mutex_sys" and step :: "'s \<Rightarrow> 's \<Rightarrow> bool"
    and inv :: "'s \<Rightarrow> bool" and h :: nat
  assumes inv_mutex: "inv s \<Longrightarrow> mutex_inv home (sys s)"
    and move: "inv s \<Longrightarrow> mutex_move home (sys s) b \<Longrightarrow> \<exists>t. step s t \<and> inv t \<and> sys t = b"
    and release: "inv s \<Longrightarrow> mx_queue (ms_mutex (sys s)) = e # es \<Longrightarrow> ms_pc (sys s) k = Holding \<Longrightarrow> k \<noteq> h \<Longrightarrow>
      \<exists>t. step\<^sup>*\<^sup>* s t \<and> inv t \<and> mx_queue (ms_mutex (sys t)) = es \<and> ms_pc (sys t) (en_h e) = Granted"
begin

lemma moves:
  assumes "mutex_moves home (sys s) b" and "inv s"
  shows "\<exists>t. step\<^sup>*\<^sup>* s t \<and> inv t \<and> sys t = b"
  using assms
proof (induction rule: rtranclp_induct)
  case (step b c)
  then obtain t where t: "step\<^sup>*\<^sup>* s t" "inv t" "sys t = b" by blast
  then obtain u where "step t u" "inv u" "sys u = c" using move step.hyps(2) by blast
  with t(1) show ?case by (intro exI [of _ u]) (auto intro: rtranclp.rtrancl_into_rtrancl)
qed blast

lemma delivered:
  assumes inv: "inv s" and fl: "pc_in_flight (ms_pc (sys s) k)"
  shows "\<exists>t. step\<^sup>*\<^sup>* s t \<and> inv t \<and> ms_pc (sys t) k = (if ms_pc (sys s) k = Granted then Holding else CvRelock)
     \<and> (ms_pc (sys s) k = Granted \<longrightarrow> ms_mutex (sys t) = ms_mutex (sys s))"
  using deliver [OF inv_mutex [OF inv] fl] moves [OF _ inv] by metis

lemma moved:
  assumes "inv s" and "mutex_move home (sys s) b"
  shows "\<exists>t. step\<^sup>*\<^sup>* s t \<and> inv t \<and> sys t = b"
  using move [OF assms] by blast

text \<open>An owner can give the lock to the next in the queue.\<close>

lemma release_to_next:
  assumes inv: "inv s" and q: "mx_queue (ms_mutex (sys s)) = e # es" and own: "pc_owner (ms_pc (sys s) k)" and ne: "k \<noteq> h"
  shows "\<exists>t. step\<^sup>*\<^sup>* s t \<and> inv t \<and> mx_queue (ms_mutex (sys t)) = es \<and> ms_pc (sys t) (en_h e) = Granted"
proof (cases "ms_pc (sys s) k")
  case Won
  from moved [OF inv mutex_move.resume_won [OF Won]] obtain u where
    "step\<^sup>*\<^sup>* s u" "inv u" "sys u = (sys s)\<lparr>ms_pc := (ms_pc (sys s))(k := Holding)\<rparr>" by blast
  then show ?thesis using release [of u e es k] q ne rtranclp_trans [of step s u] by auto
next
  case Granted
  from delivered [OF inv, of k] Granted obtain u where
    "step\<^sup>*\<^sup>* s u" "inv u" "ms_pc (sys u) k = Holding" "ms_mutex (sys u) = ms_mutex (sys s)" by auto
  then show ?thesis using release [of u e es k] q ne rtranclp_trans [of step s u] by auto
next
  case Holding
  then show ?thesis using release [OF inv q] ne by blast
next
  case (CvPushed n)
  from moved [OF inv mutex_move.cv_unlock [OF CvPushed]] obtain u where
    "step\<^sup>*\<^sup>* s u" "inv u" "sys u = do_unlock k (if n then CvNotified else CvWaiting) (sys s)" by blast
  then show ?thesis by (intro exI [of _ u]) (simp add: step_simps q)
qed (use own in simp_all)

lemma parked_reaches_holding:
  "inv s \<Longrightarrow> mx_queue (ms_mutex (sys s)) = q \<Longrightarrow> h \<in> set (handles q) \<Longrightarrow>
   \<exists>t. step\<^sup>*\<^sup>* s t \<and> inv t \<and> ms_pc (sys t) h = Holding"
proof (induction q arbitrary: s)
  case (Cons e es)
  note mi = inv_mutex [OF Cons.prems(1)]
  from mutex_invD(1) [OF mi] Cons.prems(2) obtain k where k: "pc_owner (ms_pc (sys s) k)"
    by (auto simp: lock_ok_def)
  have "ms_pc (sys s) h = Parked" using mutex_invD(2) [OF mi] Cons.prems(2,3) by (simp add: queue_holds_def)
  with k have "k \<noteq> h" by auto
  from release_to_next [OF Cons.prems(1,2) k this] obtain t where t: "step\<^sup>*\<^sup>* s t"
    "inv t" "mx_queue (ms_mutex (sys t)) = es" "ms_pc (sys t) (en_h e) = Granted" by blast
  have "\<exists>u. step\<^sup>*\<^sup>* t u \<and> inv u \<and> ms_pc (sys u) h = Holding"
  proof (cases "h = en_h e")
    case True
    then show ?thesis using delivered [OF t(2), of h] t(4) by auto
  next
    case False
    then show ?thesis using Cons.IH [OF t(2,3)] Cons.prems(3) by simp
  qed
  with t(1) show ?case by (meson rtranclp_trans)
qed simp

lemma awaiting_reaches_holding:
  assumes inv: "inv s" and pc: "ms_pc (sys s) h \<notin> {Outside, CvWaiting, CvPushed False}"
  shows "\<exists>t. step\<^sup>*\<^sup>* s t \<and> inv t \<and> ms_pc (sys t) h = Holding"
proof -
  have won: "\<exists>t. step\<^sup>*\<^sup>* u t \<and> inv t \<and> ms_pc (sys t) h = Holding" if u: "inv u" "ms_pc (sys u) h = Won" for u
    using moved [OF u(1) mutex_move.resume_won [OF u(2)]] by auto
  have parked: "\<exists>t. step\<^sup>*\<^sup>* u t \<and> inv t \<and> ms_pc (sys t) h = Holding" if u: "inv u" "ms_pc (sys u) h = Parked" for u
    using parked_reaches_holding [OF u(1) refl] mutex_invD(2) [OF inv_mutex [OF u(1)]] u(2)
    by (auto simp: queue_holds_def)
  have relock: "\<exists>t. step\<^sup>*\<^sup>* u t \<and> inv t \<and> ms_pc (sys t) h = Holding" if u: "inv u" "ms_pc (sys u) h = CvRelock" for u
  proof -
    from moved [OF u(1) mutex_move.relock [OF u(2)]] obtain v where
      v: "step\<^sup>*\<^sup>* u v" "inv v" "sys v = do_lock home h (sys u)" by blast
    then have "ms_pc (sys v) h = Won \<or> ms_pc (sys v) h = Parked" by (simp add: step_simps)
    then show ?thesis using won [OF v(2)] parked [OF v(2)] rtranclp_trans [OF v(1)] by blast
  qed
  have flight: "\<exists>t. step\<^sup>*\<^sup>* s t \<and> inv t \<and> ms_pc (sys t) h = Holding" if fl: "pc_in_flight (ms_pc (sys s) h)"
  proof -
    from delivered [OF inv fl] obtain t where t: "step\<^sup>*\<^sup>* s t" "inv t"
      "ms_pc (sys t) h = Holding \<or> ms_pc (sys t) h = CvRelock" by (auto split: if_splits)
    then show ?thesis using relock [OF t(2)] rtranclp_trans [OF t(1)] by blast
  qed
  from pc show ?thesis
    using flight parked [OF inv] won [OF inv] relock [OF inv] inv by (cases "ms_pc (sys s) h") auto
qed

end

interpretation lw: lock_waiter home "\<lambda>s. s" "mutex_step home" "mutex_inv home" h
proof unfold_locales
  fix s b assume "mutex_inv home s" "mutex_move home s b"
  then show "\<exists>t. mutex_step home s t \<and> mutex_inv home t \<and> t = b"
    using mutex_move_step inv_mutex_step by blast
next
  fix s e es k assume inv: "mutex_inv home s" and q: "mx_queue (ms_mutex s) = e # es" and k: "ms_pc s k = Holding"
  have "mutex_steps home s (do_unlock k Outside s)"
    using mutex_step.unlock [where home = home, OF k] by (rule r_into_rtranclp)
  moreover have "mutex_inv home (do_unlock k Outside s)" by (rule inv_unlock [OF inv]) (simp_all add: k)
  moreover have "mx_queue (ms_mutex (do_unlock k Outside s)) = es" "ms_pc (do_unlock k Outside s) (en_h e) = Granted"
    by (simp_all add: step_simps q)
  ultimately show "\<exists>t. mutex_steps home s t \<and> mutex_inv home t \<and> mx_queue (ms_mutex t) = es \<and> ms_pc t (en_h e) = Granted"
    by blast
qed

lemma flight_count:
  assumes fl: "flight_ok home hand ctx P" and "P h"
  shows "count_list (handles hand) h + count_list (ctx (home h)) h = 1"
proof -
  have one: "distinct xs \<Longrightarrow> count_list xs h = (if h \<in> set xs then 1 else 0)" for xs
    by (induction xs) auto
  have "h \<in> set (handles hand) \<longleftrightarrow> h \<notin> set (ctx (home h))"
    using assms unfolding flight_ok_def by blast
  moreover have "distinct (handles hand)" "distinct (ctx (home h))" using fl by (simp_all add: flight_ok_def)
  ultimately show ?thesis by (auto simp: one)
qed

subsection \<open>Properties\<close>

text \<open>
  Property C3: in every state the coroutines can reach, at most one of them owns the mutex (it
  won the flag, was handed the lock, holds a guard, or waits on the condition without having
  released yet), and the flag is up exactly when none does; with the flag up nobody is queued.
\<close>

theorem mutex_mutual_exclusion:
  assumes "mutex_steps home mutex_sys_init s"
  shows "(pc_owner (ms_pc s h) \<longrightarrow> pc_owner (ms_pc s k) \<longrightarrow> h = k)
     \<and> (mx_flag (ms_mutex s) \<longleftrightarrow> (\<forall>h. \<not> pc_owner (ms_pc s h)))
     \<and> (mx_flag (ms_mutex s) \<longrightarrow> mx_queue (ms_mutex s) = [])"
  using mutex_invD(1) [OF mx.reachable_inv [OF refl assms]] by (simp add: lock_ok_def)

text \<open>A run used by the witnesses: coroutine 0 locks and holds, coroutine 1 queues up.\<close>

definition contended_mutex :: mutex_sys where
  "contended_mutex = do_lock (\<lambda>_. 0) (Suc 0)
     ((do_lock (\<lambda>_. 0) 0 mutex_sys_init)\<lparr>ms_pc := (ms_pc (do_lock (\<lambda>_. 0) 0 mutex_sys_init))(0 := Holding)\<rparr>)"

lemma contended_mutex_eq:
  "contended_mutex = \<lparr>ms_mutex = \<lparr>mx_flag = False, mx_queue = [\<lparr>en_ctx = 0, en_h = Suc 0\<rparr>]\<rparr>,
     ms_cv = [], ms_hand = [], ms_ctx = (\<lambda>_. []),
     ms_pc = ((\<lambda>_. Outside)(0 := Holding, Suc 0 := Parked))\<rparr>"
  by (simp add: contended_mutex_def step_simps mutex_sys_init_def mutex_new_def fun_upd_twist)

lemma contended_mutex_reachable: "mutex_steps (\<lambda>_. 0) mutex_sys_init contended_mutex"
proof -
  let ?a = "do_lock (\<lambda>_. 0) 0 mutex_sys_init"
  let ?b = "?a\<lparr>ms_pc := (ms_pc ?a)(0 := Holding)\<rparr>"
  have "mutex_step (\<lambda>_. 0) mutex_sys_init ?a" by (rule mutex_step.lock) (simp add: mutex_sys_init_def)
  moreover have "mutex_step (\<lambda>_. 0) ?a ?b"
    by (rule mutex_step.resume_won) (simp add: step_simps mutex_sys_init_def mutex_new_def)
  moreover have "mutex_step (\<lambda>_. 0) ?b contended_mutex"
    unfolding contended_mutex_def by (rule mutex_step.lock) (simp add: step_simps mutex_sys_init_def)
  ultimately show ?thesis
    by (intro converse_rtranclp_into_rtranclp [where a = mutex_sys_init and b = ?a]
        converse_rtranclp_into_rtranclp [where a = ?a and b = ?b] r_into_rtranclp)
qed

theorem mutex_mutual_exclusion_witness:
  "ms_pc contended_mutex 0 = Holding \<and> \<not> mx_flag (ms_mutex contended_mutex)
   \<and> \<not> pc_owner (ms_pc contended_mutex (Suc 0))"
proof -
  have "ms_pc contended_mutex 0 = Holding" by (simp add: contended_mutex_eq)
  moreover have "\<not> pc_owner (ms_pc contended_mutex (Suc 0))"
    using mutex_mutual_exclusion [OF contended_mutex_reachable, of "Suc 0" 0] calculation by auto
  moreover have "\<not> mx_flag (ms_mutex contended_mutex)" by (simp add: contended_mutex_eq)
  ultimately show ?thesis by simp
qed

text \<open>
  The mutex lets coroutines in first come, first served. After any sequence of lock
  requests and unlocks, those let in followed by those queued are those who asked, in order.
\<close>

theorem mutex_first_come_first_served:
  "lh_asked (mutex_run ops)
     = lh_granted (mutex_run ops) @ map en_h (mx_queue (lh_mutex (mutex_run ops)))"
  using fifo_ok_run [of ops] by (simp add: fifo_ok_def)

text \<open>
  No resumption is lost or doubled. In every reachable state a coroutine that was
  handed the lock or was notified has exactly one resumption on its way, in somebody's hand or
  in the queue of the context it was suspended on; a suspended one is in exactly one queue, once.
\<close>

theorem mutex_resumes_exactly_once:
  assumes "mutex_steps home mutex_sys_init s"
  shows "(pc_in_flight (ms_pc s h) \<longrightarrow>
            count_list (handles (ms_hand s)) h + count_list (ms_ctx s (home h)) h = 1)
     \<and> (ms_pc s h = Parked \<longleftrightarrow> count_list (handles (mx_queue (ms_mutex s))) h = 1)
     \<and> (pc_in_cv (ms_pc s h) \<longleftrightarrow> count_list (handles (ms_cv s)) h = 1)"
proof -
  note inv = mx.reachable_inv [OF refl assms]
  have one: "distinct xs \<Longrightarrow> (count_list xs h = Suc 0) = (h \<in> set xs)" for xs
    by (induction xs) (auto simp: count_list_0_iff)
  show ?thesis
    using mutex_invD(2,3) [OF inv] flight_count [OF mutex_invD(4) [OF inv], of h]
    by (simp add: queue_holds_def one)
qed

theorem mutex_resumes_exactly_once_witness:
  "ms_pc contended_mutex (Suc 0) = Parked
   \<and> count_list (handles (mx_queue (ms_mutex contended_mutex))) (Suc 0) = 1"
  using mutex_resumes_exactly_once [OF contended_mutex_reachable, of "Suc 0"]
  by (simp add: contended_mutex_eq)

text \<open>
  Property C15: nobody who asked for the lock waits in vain. From every reachable state, a
  coroutine that is queued for the mutex, was handed it, or was notified inside a wait can be
  brought to hold the lock by steps of the system; neither a mutex nor a wait deadlocks it.
\<close>

theorem mutex_waiters_can_proceed:
  assumes "mutex_steps home mutex_sys_init s"
    and "ms_pc s h = Parked \<or> ms_pc s h = Granted \<or> ms_pc s h = Won
       \<or> ms_pc s h = CvNotified \<or> ms_pc s h = CvPushed True \<or> ms_pc s h = CvRelock"
  shows "\<exists>t. mutex_steps home s t \<and> ms_pc t h = Holding"
  using lw.awaiting_reaches_holding [OF mx.reachable_inv [OF refl assms(1)], of h] assms(2) by auto

theorem mutex_waiters_can_proceed_witness:
  "\<exists>t. mutex_steps (\<lambda>_. 0) contended_mutex t \<and> ms_pc t (Suc 0) = Holding"
  by (rule mutex_waiters_can_proceed [OF contended_mutex_reachable]) (simp add: contended_mutex_eq)

text \<open>
  Notify_all leaves no waiter behind. From a reachable state it empties the
  condition's queue, takes the waiters out in the order they came, and everyone who waited,
  also one that has not released the mutex yet, then has exactly one resumption on its way.
\<close>

theorem notify_all_wakes_everyone:
  assumes "mutex_steps home mutex_sys_init s"
  shows "ms_cv (do_notify_all s) = [] \<and> ms_hand (do_notify_all s) = ms_hand s @ ms_cv s
     \<and> (pc_in_cv (ms_pc s h) \<longrightarrow>
          count_list (handles (ms_hand (do_notify_all s))) h
            + count_list (ms_ctx (do_notify_all s) (home h)) h = 1)"
proof -
  note inv = mx.reachable_inv [OF refl assms]
  have "pc_in_flight (ms_pc (do_notify_all s) h)" if w: "pc_in_cv (ms_pc s h)"
  proof -
    have "h \<in> set (handles (ms_cv s))" using mutex_invD(3) [OF inv] w by (simp add: queue_holds_def)
    then show ?thesis using w by (cases "ms_pc s h") (simp_all add: step_simps handles_def pc_notify_def)
  qed
  then show ?thesis
    using flight_count [OF mutex_invD(4) [OF inv_notify_all [OF inv]], of h]
    by (simp add: do_notify_all_def notify_all_def)
qed

theorem notify_all_wakes_everyone_witness:
  "ms_cv (do_notify_all contended_mutex) = []"
  using notify_all_wakes_everyone [OF contended_mutex_reachable, of 0] by simp

end
