(* ===== verification/Coro_Context.thy ===== *)
theory Coro_Context
  imports Timer_Queue "HOL-Library.While_Combinator"
begin

section \<open>The event loop (core/coro_context.h, core/coro_context.cpp)\<close>

text \<open>
  \<^verbatim>\<open>CoroContext\<close>: one thread that runs posted tasks in batches, fires timers and waits in the
  I/O service. This theory is the loop as that thread executes it; what other threads can do to
  it in between is the subject of the theory of the wake-up protocol.

  User code and the I/O service are arguments. A task is a value of type \<open>'t\<close>; \<open>prog t b s\<close> are
  the calls into the context that happen while \<open>t(b)\<close> runs in state \<open>s\<close>, in order: those it
  makes, those of the tasks that it dispatches, and the submissions of other threads meanwhile.
  \<open>poll d s\<close> is the status with which \<^verbatim>\<open>IoServiceInterface::poll\<close> returns when told to wait
  at most \<open>d\<close>, with the calls made in the meantime.
\<close>

subsection \<open>State and operations\<close>

datatype ctx_state = CtxRunning | CtxStopping

text \<open>
  \<open>cx_now\<close> is the steady clock and \<open>cx_wakes\<close> counts the wake-ups sent to the I/O service. The
  last three fields record, in order, the tasks submitted, the submitted tasks that were run,
  and the timer tasks that fired.
\<close>

record 't ctx =
  cx_state :: ctx_state
  cx_thread :: thread_id
  cx_pending :: "'t list"
  cx_timers :: "'t timer_queue"
  cx_now :: nanos
  cx_wakes :: nat
  cx_submitted :: "'t list"
  cx_ran :: "'t list"
  cx_fired :: "'t list"

text \<open>
  The constructor: \<open>has_local\<close> tells whether the thread's \<^verbatim>\<open>LocalContext\<close> is set already.
\<close>

definition ctx_new :: "bool \<Rightarrow> thread_id \<Rightarrow> nanos \<Rightarrow> size_t \<Rightarrow> 't ctx checked" where
  "ctx_new has_local me now entries =
     (if has_local then Inl (Fatal ''This thread already has a context'')
      else if entries = 0 then Inl (Fatal ''Entries cannot be zero'')
      else Inr \<lparr>cx_state = CtxStopping, cx_thread = me, cx_pending = [], cx_timers = tq_empty,
                cx_now = now, cx_wakes = 0, cx_submitted = [], cx_ran = [], cx_fired = []\<rparr>)"

definition assert_in_context_thread :: "thread_id \<Rightarrow> 't ctx \<Rightarrow> bool" where
  "assert_in_context_thread me s \<longleftrightarrow> cx_thread s = me"

definition ctx_wake_up :: "'t ctx \<Rightarrow> 't ctx" where
  "ctx_wake_up s = s\<lparr>cx_wakes := Suc (cx_wakes s)\<rparr>"

text \<open>\<^verbatim>\<open>execute\<close>: the section under the lock, then the wake-up.\<close>

definition execute_push :: "'t \<Rightarrow> 't ctx \<Rightarrow> 't ctx" where
  "execute_push task s =
     s\<lparr>cx_pending := cx_pending s @ [task], cx_submitted := cx_submitted s @ [task]\<rparr>"

definition ctx_execute :: "thread_id \<Rightarrow> 't \<Rightarrow> 't ctx \<Rightarrow> 't ctx" where
  "ctx_execute me task s =
     (let s = execute_push task s
      in if \<not> assert_in_context_thread me s then ctx_wake_up s else s)"

definition ctx_stop :: "thread_id \<Rightarrow> 't ctx \<Rightarrow> 't ctx checked" where
  "ctx_stop me s =
     (if \<not> assert_in_context_thread me s
      then Inl (Fatal ''You can't stop the context on another thread'')
      else Inr (s\<lparr>cx_state := CtxStopping\<rparr>))"

text \<open>
  \<^verbatim>\<open>dispatch\<close> and \<^verbatim>\<open>wake_in_context\<close> run the task, or resume the coroutine, in place on
  the context's own thread and queue it otherwise.
\<close>

definition ctx_dispatch ::
  "thread_id \<Rightarrow> ('t \<Rightarrow> 't ctx \<Rightarrow> 't ctx checked) \<Rightarrow> 't \<Rightarrow> 't ctx \<Rightarrow> 't ctx checked" where
  "ctx_dispatch me run task s =
     (if assert_in_context_thread me s then run task s else Inr (ctx_execute me task s))"

definition queue_in_context :: "thread_id \<Rightarrow> 't \<Rightarrow> 't ctx \<Rightarrow> 't ctx" where
  "queue_in_context me resume_h s = ctx_execute me resume_h s"

definition wake_in_context ::
  "thread_id \<Rightarrow> ('t \<Rightarrow> 't ctx \<Rightarrow> 't ctx checked) \<Rightarrow> 't \<Rightarrow> 't ctx \<Rightarrow> 't ctx checked" where
  "wake_in_context me run resume_h s =
     (if assert_in_context_thread me s then run resume_h s else Inr (queue_in_context me resume_h s))"

definition expires_until :: "nanos \<Rightarrow> 't \<Rightarrow> 't ctx \<Rightarrow> nat \<times> 't ctx" where
  "expires_until tp task s =
     (let (handle, q) = timer_push tp task (cx_timers s) in (handle, s\<lparr>cx_timers := q\<rparr>))"

definition expires_after :: "nanos \<Rightarrow> 't \<Rightarrow> 't ctx \<Rightarrow> nat \<times> 't ctx" where
  "expires_after dur task s =
     (let (handle, q) = timer_push (cx_now s + dur) task (cx_timers s)
      in (handle, s\<lparr>cx_timers := q\<rparr>))"

subsection \<open>What happens while a task runs\<close>

text \<open>The calls of user code: an entry point with its thread, or time going by.\<close>

datatype 't ctx_call =
  ExecuteCall thread_id 't | StopCall thread_id | UntilCall nanos 't | AfterCall nanos 't
| CancelCall nat | ElapseCall nat

fun do_call :: "'t ctx_call \<Rightarrow> 't ctx \<Rightarrow> 't ctx checked" where
  "do_call (ExecuteCall me t) s = Inr (ctx_execute me t s)"
| "do_call (StopCall me) s = ctx_stop me s"
| "do_call (UntilCall tp t) s = Inr (snd (expires_until tp t s))"
| "do_call (AfterCall d t) s = Inr (snd (expires_after d t s))"
| "do_call (CancelCall h) s = Inr (s\<lparr>cx_timers := snd (snd (timer_cancel h (cx_timers s)))\<rparr>)"
| "do_call (ElapseCall d) s = Inr (s\<lparr>cx_now := cx_now s + int d\<rparr>)"

fun do_calls :: "'t ctx_call list \<Rightarrow> 't ctx \<Rightarrow> 't ctx checked" where
  "do_calls [] s = Inr s"
| "do_calls (c # cs) s = bind_checked (do_call c s) (do_calls cs)"

type_synonym 't task_prog = "'t \<Rightarrow> bool \<Rightarrow> 't ctx \<Rightarrow> 't ctx_call list"
type_synonym 't poll_fun = "nanos \<Rightarrow> 't ctx \<Rightarrow> int \<times> 't ctx_call list"

subsection \<open>The loop\<close>

fun run_handles :: "'t task_prog \<Rightarrow> 't list \<Rightarrow> 't ctx \<Rightarrow> 't ctx checked" where
  "run_handles prog [] s = Inr s"
| "run_handles prog (f # fs) s =
     bind_checked (do_calls (prog f True s) (s\<lparr>cx_ran := cx_ran s @ [f]\<rparr>)) (run_handles prog fs)"

fun run_timer_tasks :: "'t task_prog \<Rightarrow> 't list \<Rightarrow> 't ctx \<Rightarrow> 't ctx checked" where
  "run_timer_tasks prog [] s = Inr s"
| "run_timer_tasks prog (f # fs) s =
     bind_checked (do_calls (prog f True s) (s\<lparr>cx_fired := cx_fired s @ [f]\<rparr>)) (run_timer_tasks prog fs)"

definition poll_timeout :: "'t ctx \<Rightarrow> nanos" where
  "poll_timeout s =
     (if cx_pending s \<noteq> [] \<or> cx_state s = CtxStopping then 0
      else next_duration (cx_now s) (cx_timers s))"

definition ctx_poll :: "thread_id \<Rightarrow> 't poll_fun \<Rightarrow> 't ctx \<Rightarrow> 't ctx checked" where
  "ctx_poll me poll s =
     (let (status, calls) = poll (poll_timeout s) s
      in bind_checked (do_calls calls s) (\<lambda>s. if status = -1 then ctx_stop me s else Inr s))"

definition ctx_iteration :: "thread_id \<Rightarrow> 't task_prog \<Rightarrow> 't poll_fun \<Rightarrow> 't ctx \<Rightarrow> 't ctx checked" where
  "ctx_iteration me prog poll s =
     bind_checked (run_handles prog (cx_pending s) (s\<lparr>cx_pending := []\<rparr>)) (\<lambda>s.
       let (timer_tasks, q) = get_expired (cx_now s) [] (cx_timers s)
       in bind_checked (run_timer_tasks prog timer_tasks (s\<lparr>cx_timers := q\<rparr>)) (ctx_poll me poll))"

definition ctx_going :: "'t ctx checked \<Rightarrow> bool" where
  "ctx_going r = (case r of Inl e \<Rightarrow> False | Inr s \<Rightarrow> cx_state s \<noteq> CtxStopping)"

text \<open>\<^verbatim>\<open>CoroContext::start\<close>; \<open>None\<close> is a loop that never ends.\<close>

definition ctx_start :: "thread_id \<Rightarrow> 't task_prog \<Rightarrow> 't poll_fun \<Rightarrow> 't ctx \<Rightarrow> 't ctx checked option" where
  "ctx_start me prog poll s =
     (if \<not> assert_in_context_thread me s
      then Some (Inl (Fatal ''You can't start the context on another thread''))
      else if cx_state s \<noteq> CtxStopping
      then Some (Inl (Fatal ''You can't start the context twice''))
      else while_option ctx_going (\<lambda>r. bind_checked r (ctx_iteration me prog poll))
             (Inr (s\<lparr>cx_state := CtxRunning\<rparr>)))"

subsection \<open>What calls keep\<close>

text \<open>
  During a batch: what was submitted is what was run, then the rest \<open>todo\<close> of the batch, then
  what is pending.
\<close>

definition batch_ok :: "'t list \<Rightarrow> 't ctx \<Rightarrow> bool" where
  "batch_ok todo s \<longleftrightarrow> cx_submitted s = cx_ran s @ todo @ cx_pending s"

definition keeps :: "'t ctx \<Rightarrow> 't ctx \<Rightarrow> bool" where
  "keeps s t \<longleftrightarrow> cx_thread t = cx_thread s \<and> cx_now s \<le> cx_now t
     \<and> (cx_state s = CtxStopping \<longrightarrow> cx_state t = CtxStopping)
     \<and> (tq_inv (cx_timers s) \<longrightarrow> tq_inv (cx_timers t))"

lemma keeps_refl [simp]: "keeps s s"
  by (simp add: keeps_def)

lemma keeps_trans: "keeps s t \<Longrightarrow> keeps t u \<Longrightarrow> keeps s u"
  by (auto simp: keeps_def)

lemma do_call_spec:
  assumes "do_call c s = Inr t"
  shows "keeps s t \<and> cx_ran t = cx_ran s \<and> cx_fired t = cx_fired s
     \<and> (batch_ok todo s \<longrightarrow> batch_ok todo t)"
proof (cases c)
  case (CancelCall h)
  obtain r calls q where q: "timer_cancel h (cx_timers s) = (r, calls, q)" by (cases "timer_cancel h (cx_timers s)")
  show ?thesis using assms CancelCall q tq_inv_cancel [OF _ q] by (auto simp: keeps_def batch_ok_def)
next
  case (UntilCall tp u)
  with assms show ?thesis
    by (auto simp: keeps_def batch_ok_def expires_until_def tq_inv_push split: prod.splits)
next
  case (AfterCall d u)
  with assms show ?thesis
    by (auto simp: keeps_def batch_ok_def expires_after_def tq_inv_push split: prod.splits)
qed (use assms in \<open>auto simp: keeps_def batch_ok_def ctx_execute_def execute_push_def ctx_stop_def ctx_wake_up_def
      assert_in_context_thread_def Let_def split: if_splits\<close>)

lemma bind_checked_Inr: "bind_checked m f = Inr y \<longleftrightarrow> (\<exists>x. m = Inr x \<and> f x = Inr y)"
  by (cases m) simp_all

lemma do_calls_spec:
  "do_calls cs s = Inr t \<Longrightarrow> keeps s t \<and> cx_ran t = cx_ran s \<and> cx_fired t = cx_fired s
     \<and> (batch_ok todo s \<longrightarrow> batch_ok todo t)"
proof (induction cs arbitrary: s)
  case (Cons c cs)
  then obtain u where u: "do_call c s = Inr u" "do_calls cs u = Inr t" by (auto simp: bind_checked_Inr)
  from do_call_spec [OF u(1), of todo] Cons.IH [OF u(2)] keeps_trans show ?case by metis
qed simp

lemma run_handles_spec:
  "run_handles prog fs s = Inr t \<Longrightarrow> keeps s t \<and> cx_ran t = cx_ran s @ fs \<and> cx_fired t = cx_fired s
     \<and> (batch_ok fs s \<longrightarrow> batch_ok [] t)"
proof (induction fs arbitrary: s)
  case (Cons f fs)
  let ?s = "s\<lparr>cx_ran := cx_ran s @ [f]\<rparr>"
  obtain u where u: "do_calls (prog f True s) ?s = Inr u" "run_handles prog fs u = Inr t"
    using Cons.prems by (auto simp: bind_checked_Inr)
  have "keeps s ?s" by (simp add: keeps_def)
  moreover have "batch_ok (f # fs) s \<longrightarrow> batch_ok fs ?s" by (simp add: batch_ok_def)
  ultimately show ?case
    using do_calls_spec [OF u(1), of fs] Cons.IH [OF u(2)] keeps_trans [of s ?s u] keeps_trans [of s u t]
    by simp
qed simp

lemma run_timer_tasks_spec:
  "run_timer_tasks prog fs s = Inr t \<Longrightarrow> keeps s t \<and> cx_fired t = cx_fired s @ fs \<and> cx_ran t = cx_ran s
     \<and> (batch_ok [] s \<longrightarrow> batch_ok [] t)"
proof (induction fs arbitrary: s)
  case (Cons f fs)
  let ?s = "s\<lparr>cx_fired := cx_fired s @ [f]\<rparr>"
  obtain u where u: "do_calls (prog f True s) ?s = Inr u" "run_timer_tasks prog fs u = Inr t"
    using Cons.prems by (auto simp: bind_checked_Inr)
  have "keeps s ?s" by (simp add: keeps_def)
  moreover have "batch_ok [] s \<longrightarrow> batch_ok [] ?s" by (simp add: batch_ok_def)
  ultimately show ?case
    using do_calls_spec [OF u(1), of "[]"] Cons.IH [OF u(2)] keeps_trans [of s ?s u] keeps_trans [of s u t]
    by simp
qed simp

lemma ctx_stop_spec:
  "ctx_stop me s = Inr t \<Longrightarrow> t = s\<lparr>cx_state := CtxStopping\<rparr> \<and> keeps s t"
  by (auto simp: ctx_stop_def keeps_def split: if_splits)

lemma ctx_poll_spec:
  assumes "ctx_poll me poll s = Inr t"
  shows "keeps s t \<and> cx_ran t = cx_ran s \<and> cx_fired t = cx_fired s \<and> (batch_ok [] s \<longrightarrow> batch_ok [] t)
     \<and> (fst (poll (poll_timeout s) s) = -1 \<longrightarrow> cx_state t = CtxStopping)"
proof -
  obtain status calls where p: "poll (poll_timeout s) s = (status, calls)" by fastforce
  from assms obtain u where u: "do_calls calls s = Inr u"
    "(if status = -1 then ctx_stop me u else Inr u) = Inr t"
    by (auto simp: ctx_poll_def p bind_checked_Inr)
  from do_calls_spec [OF u(1), of "[]"] u(2) ctx_stop_spec [of me u t] keeps_trans show ?thesis
    by (cases "status = -1") (auto simp: p batch_ok_def)
qed

text \<open>One iteration.\<close>

lemma ctx_iteration_spec:
  assumes it: "ctx_iteration me prog poll s = Inr t"
  shows "keeps s t" and "cx_ran t = cx_ran s @ cx_pending s"
    and "batch_ok [] s \<Longrightarrow> batch_ok [] t"
    and "\<exists>u. run_handles prog (cx_pending s) (s\<lparr>cx_pending := []\<rparr>) = Inr u
       \<and> cx_fired t = cx_fired s @ fst (get_expired (cx_now u) [] (cx_timers u))"
proof -
  let ?s = "s\<lparr>cx_pending := []\<rparr>"
  obtain u where u: "run_handles prog (cx_pending s) ?s = Inr u"
    and rest: "(let (timer_tasks, q) = get_expired (cx_now u) [] (cx_timers u)
       in bind_checked (run_timer_tasks prog timer_tasks (u\<lparr>cx_timers := q\<rparr>)) (ctx_poll me poll)) = Inr t"
    using it by (auto simp: ctx_iteration_def bind_checked_Inr)
  obtain ts q where get: "get_expired (cx_now u) [] (cx_timers u) = (ts, q)" by fastforce
  let ?u = "u\<lparr>cx_timers := q\<rparr>"
  from rest obtain v where v: "run_timer_tasks prog ts ?u = Inr v" "ctx_poll me poll v = Inr t"
    by (auto simp: get bind_checked_Inr)
  note h = run_handles_spec [OF u] and tm = run_timer_tasks_spec [OF v(1)] and po = ctx_poll_spec [OF v(2)]
  have k: "keeps s ?s" "keeps u ?u"
    using get_expired_spec(2) [OF _ get] by (simp_all add: keeps_def)
  show "keeps s t" using k h tm po keeps_trans by blast
  show "cx_ran t = cx_ran s @ cx_pending s" using h tm po by simp
  show "batch_ok [] t" if "batch_ok [] s"
    using that h tm po by (simp add: batch_ok_def)
  show "\<exists>u. run_handles prog (cx_pending s) ?s = Inr u
      \<and> cx_fired t = cx_fired s @ fst (get_expired (cx_now u) [] (cx_timers u))"
    using u h tm po get by auto
qed

subsection \<open>The whole loop\<close>

definition loop_inv :: "'t ctx \<Rightarrow> 't ctx checked \<Rightarrow> bool" where
  "loop_inv s r \<longleftrightarrow> (case r of Inl e \<Rightarrow> True | Inr t \<Rightarrow> batch_ok [] t
     \<and> (\<exists>more. cx_ran t = cx_ran s @ more) \<and> keeps (s\<lparr>cx_state := CtxRunning\<rparr>) t)"

lemma ctx_start_loop:
  assumes "batch_ok [] s" and "ctx_start me prog poll s = Some (Inr t)"
  shows "loop_inv s (Inr t) \<and> cx_state t = CtxStopping"
proof -
  let ?body = "\<lambda>r. bind_checked r (ctx_iteration me prog poll)"
  let ?r = "Inr (s\<lparr>cx_state := CtxRunning\<rparr>)"
  have w: "while_option ctx_going ?body ?r = Some (Inr t)"
    using assms(2) by (simp add: ctx_start_def split: if_splits)
  have "loop_inv s (Inr t)"
  proof (rule while_option_rule [OF _ w, where P = "loop_inv s"])
    show "loop_inv s ?r" using assms(1) by (simp add: loop_inv_def batch_ok_def)
  next
    fix r assume r: "loop_inv s r" "ctx_going r"
    then obtain u where u: "r = Inr u" by (cases r) (simp_all add: ctx_going_def)
    show "loop_inv s (?body r)"
    proof (cases "ctx_iteration me prog poll u")
      case (Inr v)
      from ctx_iteration_spec [OF Inr] r(1) keeps_trans show ?thesis
        by (auto simp: u Inr loop_inv_def)
    qed (simp add: u loop_inv_def)
  qed
  moreover have "\<not> ctx_going (Inr t)" by (rule while_option_stop [OF w])
  ultimately show ?thesis by (simp add: ctx_going_def)
qed

text \<open>
  No call comes from the wrong thread: only the context's own thread asks it to stop. Then no
  call is fatal, and a call to stop is obeyed.
\<close>

definition calls_in_thread :: "thread_id \<Rightarrow> 't ctx_call list \<Rightarrow> bool" where
  "calls_in_thread tid cs \<longleftrightarrow> (\<forall>me. StopCall me \<in> set cs \<longrightarrow> me = tid)"

lemma do_calls_total:
  "calls_in_thread (cx_thread s) cs \<Longrightarrow>
   \<exists>t. do_calls cs s = Inr t \<and> (\<forall>me. StopCall me \<in> set cs \<longrightarrow> cx_state t = CtxStopping)"
proof (induction cs arbitrary: s)
  case (Cons c cs)
  have "\<exists>u. do_call c s = Inr u \<and> (\<forall>me. c = StopCall me \<longrightarrow> cx_state u = CtxStopping)"
    using Cons.prems by (cases c) (auto simp: calls_in_thread_def ctx_stop_def assert_in_context_thread_def)
  then obtain u where u: "do_call c s = Inr u" "\<forall>me. c = StopCall me \<longrightarrow> cx_state u = CtxStopping" by blast
  have "cx_thread u = cx_thread s" using do_call_spec [OF u(1)] by (simp add: keeps_def)
  then have "calls_in_thread (cx_thread u) cs" using Cons.prems by (simp add: calls_in_thread_def)
  from Cons.IH [OF this] obtain t where t: "do_calls cs u = Inr t"
    "\<forall>me. StopCall me \<in> set cs \<longrightarrow> cx_state t = CtxStopping" by blast
  have "cx_state u = CtxStopping \<longrightarrow> cx_state t = CtxStopping"
    using do_calls_spec [OF t(1)] by (simp add: keeps_def)
  with u t show ?case by auto
qed simp

lemma run_handles_total:
  "\<forall>f b u. calls_in_thread (cx_thread s) (prog f b u) \<Longrightarrow>
   \<exists>t. run_handles prog fs s = Inr t
     \<and> ((\<exists>f \<in> set fs. \<forall>u. \<exists>me. StopCall me \<in> set (prog f True u)) \<longrightarrow> cx_state t = CtxStopping)"
proof (induction fs arbitrary: s)
  case (Cons f fs)
  let ?s = "s\<lparr>cx_ran := cx_ran s @ [f]\<rparr>"
  obtain u where u: "do_calls (prog f True s) ?s = Inr u"
    "\<forall>me. StopCall me \<in> set (prog f True s) \<longrightarrow> cx_state u = CtxStopping"
    using do_calls_total [of ?s "prog f True s"] Cons.prems by auto
  have "cx_thread u = cx_thread s" using do_calls_spec [OF u(1)] by (simp add: keeps_def)
  then obtain t where t: "run_handles prog fs u = Inr t"
    "(\<exists>f \<in> set fs. \<forall>u. \<exists>me. StopCall me \<in> set (prog f True u)) \<longrightarrow> cx_state t = CtxStopping"
    using Cons.IH [of u] Cons.prems by auto
  have "cx_state u = CtxStopping \<longrightarrow> cx_state t = CtxStopping"
    using run_handles_spec [OF t(1)] by (simp add: keeps_def)
  with u t show ?case by auto
qed simp

lemma run_timer_tasks_total:
  "\<forall>f b u. calls_in_thread (cx_thread s) (prog f b u) \<Longrightarrow> \<exists>t. run_timer_tasks prog fs s = Inr t"
proof (induction fs arbitrary: s)
  case (Cons f fs)
  let ?s = "s\<lparr>cx_fired := cx_fired s @ [f]\<rparr>"
  obtain u where u: "do_calls (prog f True s) ?s = Inr u"
    using do_calls_total [of ?s "prog f True s"] Cons.prems by auto
  have "cx_thread u = cx_thread s" using do_calls_spec [OF u(1)] by (simp add: keeps_def)
  then show ?case using Cons.IH [of u] Cons.prems u by auto
qed simp

lemma ctx_poll_total:
  assumes "cx_thread s = me" and "\<forall>d u. calls_in_thread me (snd (poll d u))"
  shows "\<exists>t. ctx_poll me poll s = Inr t"
proof -
  obtain status calls where p: "poll (poll_timeout s) s = (status, calls)" by fastforce
  then have "calls_in_thread (cx_thread s) calls" using assms by (metis snd_conv)
  from do_calls_total [OF this] obtain u where u: "do_calls calls s = Inr u" by blast
  have "cx_thread u = me" using do_calls_spec [OF u] assms(1) by (simp add: keeps_def)
  then show ?thesis using u by (auto simp: ctx_poll_def p ctx_stop_def assert_in_context_thread_def)
qed

lemma ctx_iteration_total:
  assumes me: "cx_thread s = me" and prog: "\<forall>f b u. calls_in_thread me (prog f b u)"
    and poll: "\<forall>d u. calls_in_thread me (snd (poll d u))"
  shows "\<exists>t. ctx_iteration me prog poll s = Inr t
     \<and> ((\<exists>f \<in> set (cx_pending s). \<forall>u. \<exists>me. StopCall me \<in> set (prog f True u))
          \<or> (\<forall>d u. fst (poll d u) = -1) \<longrightarrow> cx_state t = CtxStopping)"
proof -
  obtain u where u: "run_handles prog (cx_pending s) (s\<lparr>cx_pending := []\<rparr>) = Inr u"
    "(\<exists>f \<in> set (cx_pending s). \<forall>u. \<exists>me. StopCall me \<in> set (prog f True u)) \<longrightarrow> cx_state u = CtxStopping"
    using run_handles_total [of "s\<lparr>cx_pending := []\<rparr>" prog "cx_pending s"] prog me by auto
  obtain ts q where get: "get_expired (cx_now u) [] (cx_timers u) = (ts, q)" by fastforce
  let ?u = "u\<lparr>cx_timers := q\<rparr>"
  have tu: "cx_thread ?u = me" using run_handles_spec [OF u(1)] me by (simp add: keeps_def)
  obtain v where v: "run_timer_tasks prog ts ?u = Inr v"
    using run_timer_tasks_total [of ?u prog ts] prog tu by auto
  note kv = run_timer_tasks_spec [OF v]
  have "cx_thread v = me" using kv tu by (simp add: keeps_def)
  from ctx_poll_total [OF this poll] obtain t where t: "ctx_poll me poll v = Inr t" by blast
  have "ctx_iteration me prog poll s = Inr t" by (simp add: ctx_iteration_def u(1) get v t)
  moreover have "cx_state u = CtxStopping \<longrightarrow> cx_state t = CtxStopping"
    using kv ctx_poll_spec [OF t] by (simp add: keeps_def)
  ultimately show ?thesis using u(2) ctx_poll_spec [OF t] by auto
qed

interpretation cx: executor "ctx_execute me" cx_pending
  by unfold_locales (simp add: ctx_execute_def execute_push_def ctx_wake_up_def Let_def)

lemma batch_ok_start:
  assumes "ctx_new has_local me now entries = Inr s\<^sub>0" and "do_calls cs s\<^sub>0 = Inr s"
  shows "batch_ok [] s \<and> tq_inv (cx_timers s) \<and> cx_thread s = me"
proof -
  have "batch_ok [] s\<^sub>0 \<and> tq_inv (cx_timers s\<^sub>0) \<and> cx_thread s\<^sub>0 = me"
    using assms(1) by (auto simp: ctx_new_def batch_ok_def tq_inv_empty split: if_splits)
  with do_calls_spec [OF assms(2), of "[]"] show ?thesis by (simp add: keeps_def)
qed

lemma execute_others:
  "cx_ran (fold (ctx_execute me) ts s) = cx_ran s \<and> cx_fired (fold (ctx_execute me) ts s) = cx_fired s"
  by (induction ts arbitrary: s) (simp_all add: ctx_execute_def execute_push_def ctx_wake_up_def Let_def)

subsection \<open>Properties\<close>

text \<open>A program for the witnesses: the second task submits another one and stops the loop.\<close>

definition demo_prog :: "string task_prog" where
  "demo_prog t b s = (if t = ''last'' then [ExecuteCall 0 ''never'', StopCall 0] else [])"

definition demo_poll :: "string poll_fun" where
  "demo_poll d s = (0, [])"

definition demo_ctx :: "string ctx" where
  "demo_ctx = \<lparr>cx_state = CtxStopping, cx_thread = 0, cx_pending = [''first'', ''last''],
     cx_timers = tq_empty, cx_now = 7, cx_wakes = 1, cx_submitted = [''first'', ''last''],
     cx_ran = [], cx_fired = []\<rparr>"

definition demo_ctx_done :: "string ctx" where
  "demo_ctx_done = demo_ctx\<lparr>cx_pending := [''never''], cx_submitted := [''first'', ''last'', ''never''],
     cx_ran := [''first'', ''last'']\<rparr>"

lemma demo_ctx_reached:
  "ctx_new False 0 7 8 = Inr \<lparr>cx_state = CtxStopping, cx_thread = 0, cx_pending = [], cx_timers = tq_empty,
                cx_now = 7, cx_wakes = 0, cx_submitted = [], cx_ran = [], cx_fired = []\<rparr>"
  "do_calls [ExecuteCall 0 ''first'', ExecuteCall (Suc 0) ''last'']
     \<lparr>cx_state = CtxStopping, cx_thread = 0, cx_pending = [], cx_timers = tq_empty,
      cx_now = 7, cx_wakes = 0, cx_submitted = [], cx_ran = [], cx_fired = []\<rparr> = Inr demo_ctx"
  by (simp_all add: ctx_new_def demo_ctx_def ctx_execute_def execute_push_def ctx_wake_up_def assert_in_context_thread_def)

lemma demo_iteration:
  "ctx_iteration 0 demo_prog demo_poll (demo_ctx\<lparr>cx_state := CtxRunning\<rparr>) = Inr demo_ctx_done"
  by (simp add: ctx_iteration_def demo_ctx_def demo_ctx_done_def demo_prog_def demo_poll_def ctx_poll_def
      get_expired_def get_expired_loop.simps tq_empty_def ctx_execute_def execute_push_def ctx_stop_def
      assert_in_context_thread_def)

lemma demo_start: "ctx_start 0 demo_prog demo_poll demo_ctx = Some (Inr demo_ctx_done)"
proof -
  have g: "ctx_going (Inr (demo_ctx\<lparr>cx_state := CtxRunning\<rparr>))" "\<not> ctx_going (Inr demo_ctx_done)"
    by (simp_all add: ctx_going_def demo_ctx_done_def demo_ctx_def)
  have "cx_thread demo_ctx = 0" "cx_state demo_ctx = CtxStopping" by (simp_all add: demo_ctx_def)
  with g show ?thesis
    by (simp add: ctx_start_def assert_in_context_thread_def while_option_unfold demo_iteration)
qed

text \<open>
  Property C4: every task submitted to a context, before or during its run, by its own thread or
  by others, is run exactly once and in the order of submission, or is still pending, in that
  order, when the loop returns; the loop returns only when it was stopped.
\<close>

theorem context_runs_tasks_once_in_order:
  assumes "ctx_new has_local me now entries = Inr s\<^sub>0" and "do_calls cs s\<^sub>0 = Inr s"
    and "ctx_start me prog poll s = Some (Inr t)"
  shows "cx_submitted t = cx_ran t @ cx_pending t \<and> cx_state t = CtxStopping
     \<and> (\<exists>more. cx_ran t = cx_ran s @ more)"
  using ctx_start_loop [OF _ assms(3)] batch_ok_start [OF assms(1,2)]
  by (simp add: loop_inv_def batch_ok_def)

theorem context_runs_tasks_once_in_order_witness:
  "cx_submitted demo_ctx_done = [''first'', ''last''] @ [''never'']
   \<and> cx_ran demo_ctx_done = [''first'', ''last'']"
proof -
  have "cx_submitted demo_ctx_done = cx_ran demo_ctx_done @ cx_pending demo_ctx_done"
    using context_runs_tasks_once_in_order [OF demo_ctx_reached demo_start] by blast
  then show ?thesis by (simp add: demo_ctx_done_def)
qed

text \<open>
  One iteration of the loop runs what was pending when it began, with whatever
  other threads submitted before, in order and nothing else; then it fires exactly the timers that are due;
  tasks submitted in the meantime wait for the next iteration.
\<close>

theorem iteration_runs_the_batch:
  assumes "batch_ok [] s" and "ctx_iteration me prog poll (fold (ctx_execute other) ts s) = Inr t"
  shows "cx_ran t = cx_ran s @ cx_pending s @ ts
     \<and> cx_submitted t = cx_ran t @ cx_pending t
     \<and> (\<exists>u. run_handles prog (cx_pending s @ ts) ((fold (ctx_execute other) ts s)\<lparr>cx_pending := []\<rparr>) = Inr u
          \<and> cx_fired t = cx_fired s @ fst (get_expired (cx_now u) [] (cx_timers u)))"
proof -
  have "batch_ok [] (fold (ctx_execute other) ts s)"
    using assms(1) by (induction ts arbitrary: s)
      (simp_all add: batch_ok_def ctx_execute_def execute_push_def ctx_wake_up_def Let_def)
  with ctx_iteration_spec [OF assms(2)] show ?thesis
    by (simp add: cx.queued_submits execute_others batch_ok_def)
qed

theorem iteration_runs_the_batch_witness:
  "cx_ran demo_ctx_done = [''first'', ''last''] \<and> cx_fired demo_ctx_done = []"
proof -
  have "batch_ok [] (demo_ctx\<lparr>cx_state := CtxRunning\<rparr>)" by (simp add: batch_ok_def demo_ctx_def)
  from iteration_runs_the_batch [OF this, of 0 demo_prog demo_poll 0 "[]" demo_ctx_done]
  have "cx_ran demo_ctx_done = [''first'', ''last'']" by (simp add: demo_iteration) (simp add: demo_ctx_def)
  then show ?thesis by (simp add: demo_ctx_done_def demo_ctx_def)
qed

text \<open>
  The loop never sleeps on work. The time it lets the I/O service wait is zero
  when a task is pending or a stop was asked for; otherwise it reaches no timer's deadline late,
  and with a timer present it ends at the earliest deadline.
\<close>

theorem loop_never_sleeps_on_work:
  assumes "tq_inv (cx_timers s)"
  shows "0 \<le> poll_timeout s
     \<and> (cx_pending s \<noteq> [] \<or> cx_state s = CtxStopping \<longrightarrow> poll_timeout s = 0)
     \<and> (\<forall>p \<in> set (tq_timers (cx_timers s)).
           poll_timeout s \<le> max 0 (deadline_of (cx_timers s) p - cx_now s))
     \<and> (cx_pending s = [] \<and> cx_state s = CtxRunning \<and> tq_timers (cx_timers s) \<noteq> [] \<longrightarrow>
         (\<exists>p \<in> set (tq_timers (cx_timers s)).
            deadline_of (cx_timers s) p \<le> cx_now s + poll_timeout s))"
  using next_duration_spec [OF assms, of "cx_now s"] by (auto simp: poll_timeout_def)

theorem loop_never_sleeps_on_work_witness: "poll_timeout demo_ctx = 0"
proof -
  have "tq_inv (cx_timers demo_ctx)" by (simp add: demo_ctx_def tq_inv_empty)
  from loop_never_sleeps_on_work [OF this] show ?thesis by (simp add: demo_ctx_def)
qed

text \<open>
  A stop is orderly, and so is a failure of the I/O service. When only the
  context's own thread asks it to stop, and a pending task does so or the service reports an
  error, the loop returns after this very iteration, with the rest of the batch run.
\<close>

theorem stop_finishes_the_batch:
  assumes "cx_thread s = me" and "cx_state s = CtxStopping"
    and "\<forall>f b u. calls_in_thread me (prog f b u)" and "\<forall>d u. calls_in_thread me (snd (poll d u))"
    and "(\<exists>f \<in> set (cx_pending s). \<forall>u. \<exists>me. StopCall me \<in> set (prog f True u))
       \<or> (\<forall>d u. fst (poll d u) = -1)"
  shows "\<exists>t. ctx_start me prog poll s = Some (Inr t) \<and> cx_state t = CtxStopping
     \<and> cx_ran t = cx_ran s @ cx_pending s"
proof -
  let ?s = "s\<lparr>cx_state := CtxRunning\<rparr>"
  obtain t where t: "ctx_iteration me prog poll ?s = Inr t" "cx_state t = CtxStopping"
    using ctx_iteration_total [of ?s me prog poll] assms by auto
  have "ctx_going (Inr ?s)" "\<not> ctx_going (Inr t)" using t(2) by (simp_all add: ctx_going_def)
  then have "ctx_start me prog poll s = Some (Inr t)"
    using assms(1,2) t(1) by (simp add: ctx_start_def assert_in_context_thread_def while_option_unfold)
  moreover have "cx_ran t = cx_ran s @ cx_pending s" using ctx_iteration_spec(2) [OF t(1)] by simp
  ultimately show ?thesis using t(2) by blast
qed

theorem stop_finishes_the_batch_witness:
  "\<exists>t. ctx_start 0 demo_prog demo_poll demo_ctx = Some (Inr t) \<and> cx_state t = CtxStopping
     \<and> cx_ran t = cx_ran demo_ctx @ cx_pending demo_ctx"
  by (rule stop_finishes_the_batch)
    (simp_all add: demo_ctx_def demo_prog_def demo_poll_def calls_in_thread_def)

end
