(* ===== verification/Thread_Pool.thy ===== *)
theory Thread_Pool
  imports Coro_Context
begin

section \<open>The thread pool (core/thread_pool.h, core/thread_pool.cpp)\<close>

text \<open>
  \<^verbatim>\<open>ThreadPool\<close>: a task queue, workers that sleep on one condition variable, and clients that
  wait for the queue to drain on another. Every critical section of the pool's mutex is one
  step; a notification after a critical section is a step of its own, so that whatever can
  happen between the two happens here too.
\<close>

subsection \<open>State\<close>

datatype pool_state = PoolStopping | PoolRunning | PendingDestroy

text \<open>
  Where a worker thread is: not started, about to evaluate the predicate of its wait with the
  lock held, asleep on \<^verbatim>\<open>cv_\<close>, running a task, or returned. A client of \<^verbatim>\<open>wait\<close> is in it
  before its predicate, asleep on \<^verbatim>\<open>wait_cv_\<close>, or back.
\<close>

datatype 't worker = NotStarted | Checking | Asleep | RunningTask 't | Exited
datatype waiter = NotWaiting | WaitChecking | WaitAsleep | WaitDone

text \<open>
  \<open>tp_signals\<close> and \<open>tp_broadcasts\<close> count the calls of \<^verbatim>\<open>cv_.notify_one\<close> and
  \<^verbatim>\<open>cv_.notify_all\<close> still to be made by threads that have left their critical section.
  \<open>tp_submitted\<close> and \<open>tp_taken\<close> record what was submitted and what workers took, in order.
\<close>

record 't pool =
  tp_state :: pool_state
  tp_wait_flag :: bool
  tp_tasks :: "'t list"
  tp_num :: nat
  tp_once :: bool
  tp_workers :: "nat \<Rightarrow> 't worker"
  tp_waiters :: "nat \<Rightarrow> waiter"
  tp_signals :: nat
  tp_broadcasts :: nat
  tp_submitted :: "'t list"
  tp_taken :: "'t list"

definition pool_new :: "nat \<Rightarrow> 't pool checked" where
  "pool_new thread_num =
     (if thread_num < 1 then Inl (Fatal ''worker threads cannot less than 1'')
      else Inr \<lparr>tp_state = PoolStopping, tp_wait_flag = False, tp_tasks = [], tp_num = thread_num,
                tp_once = False, tp_workers = (\<lambda>_. NotStarted), tp_waiters = (\<lambda>_. NotWaiting),
                tp_signals = 0, tp_broadcasts = 0, tp_submitted = [], tp_taken = []\<rparr>)"

subsection \<open>Operations\<close>

definition pool_execute :: "'t \<Rightarrow> 't pool \<Rightarrow> 't pool" where
  "pool_execute task p =
     p\<lparr>tp_tasks := tp_tasks p @ [task], tp_signals := Suc (tp_signals p),
       tp_submitted := tp_submitted p @ [task]\<rparr>"

definition pool_start :: "'t pool \<Rightarrow> 't pool" where
  "pool_start p =
     (let p = (if tp_once p then p
               else p\<lparr>tp_once := True,
                      tp_workers := (\<lambda>w. if w < tp_num p then Checking else NotStarted)\<rparr>)
      in p\<lparr>tp_state := PoolRunning, tp_broadcasts := Suc (tp_broadcasts p)\<rparr>)"

definition pool_stop :: "'t pool \<Rightarrow> 't pool" where
  "pool_stop p = p\<lparr>tp_state := PoolStopping\<rparr>"

text \<open>\<^verbatim>\<open>wait\<close>: its part before the first sleep, and the predicate after each wake-up.\<close>

definition wait_pred :: "nat \<Rightarrow> 't pool \<Rightarrow> 't pool" where
  "wait_pred i p =
     p\<lparr>tp_waiters := (tp_waiters p)(i := (if tp_tasks p = [] then WaitDone else WaitAsleep))\<rparr>"

definition pool_wait :: "nat \<Rightarrow> 't pool \<Rightarrow> 't pool" where
  "pool_wait i p =
     (if tp_state p \<noteq> PoolRunning then p\<lparr>tp_waiters := (tp_waiters p)(i := WaitDone)\<rparr>
      else wait_pred i (p\<lparr>tp_wait_flag := True\<rparr>))"

text \<open>The second half of the destructor, after its \<^verbatim>\<open>wait\<close>; then it joins the workers.\<close>

definition pool_destroy :: "'t pool \<Rightarrow> 't pool" where
  "pool_destroy p = p\<lparr>tp_state := PendingDestroy, tp_broadcasts := Suc (tp_broadcasts p)\<rparr>"

definition pool_joined :: "'t pool \<Rightarrow> bool" where
  "pool_joined p \<longleftrightarrow> (\<forall>w. tp_workers p w \<in> {NotStarted, Exited})"

subsection \<open>The workers\<close>

text \<open>\<^verbatim>\<open>wait_cv_.notify_all\<close> and \<^verbatim>\<open>cv_.notify_all\<close>.\<close>

definition wake_waiters :: "'t pool \<Rightarrow> 't pool" where
  "wake_waiters p =
     p\<lparr>tp_waiters := (\<lambda>i. if tp_waiters p i = WaitAsleep then WaitChecking else tp_waiters p i)\<rparr>"

definition wake_workers :: "'t pool \<Rightarrow> 't pool" where
  "wake_workers p =
     p\<lparr>tp_workers := (\<lambda>w. if tp_workers p w = Asleep then Checking else tp_workers p w)\<rparr>"

text \<open>The lambda that \<^verbatim>\<open>run_in_background\<close> waits for, and one round of its loop.\<close>

definition worker_pred :: "'t pool \<Rightarrow> bool \<times> 't pool" where
  "worker_pred p =
     (if tp_tasks p = []
      then (tp_state p = PendingDestroy,
            if tp_wait_flag p then wake_waiters (p\<lparr>tp_wait_flag := False\<rparr>) else p)
      else (tp_state p = PoolRunning, p))"

definition worker_check :: "nat \<Rightarrow> 't pool \<Rightarrow> 't pool" where
  "worker_check w p =
     (let (go, p) = worker_pred p
      in if \<not> go then p\<lparr>tp_workers := (tp_workers p)(w := Asleep)\<rparr>
         else if tp_state p = PendingDestroy then p\<lparr>tp_workers := (tp_workers p)(w := Exited)\<rparr>
         else p\<lparr>tp_workers := (tp_workers p)(w := RunningTask (hd (tp_tasks p))),
                tp_tasks := tl (tp_tasks p), tp_taken := tp_taken p @ [hd (tp_tasks p)]\<rparr>)"

text \<open>The end of a task; one that throws ends the process.\<close>

definition worker_finish :: "bool \<Rightarrow> nat \<Rightarrow> 't pool \<Rightarrow> 't pool checked" where
  "worker_finish threw w p =
     (if threw then Inl (Fatal ''One task throw exception when thread function is running'')
      else Inr (p\<lparr>tp_workers := (tp_workers p)(w := Checking)\<rparr>))"

lemmas pool_op_defs [step_simps] = pool_execute_def pool_start_def pool_stop_def wait_pred_def
  pool_wait_def pool_destroy_def wake_waiters_def wake_workers_def worker_pred_def worker_check_def
  worker_finish_def Let_def

subsection \<open>The step relations\<close>

text \<open>
  What the pool does by itself; what its clients ask for; and the wake-ups without a reason that
  condition variables may add.
\<close>

inductive pool_internal :: "'t pool \<Rightarrow> 't pool \<Rightarrow> bool" where
  check: "tp_workers p w = Checking \<Longrightarrow> pool_internal p (worker_check w p)"
| finish: "tp_workers p w = RunningTask t \<Longrightarrow> worker_finish False w p = Inr q \<Longrightarrow> pool_internal p q"
| notify_one: "tp_signals p = Suc n \<Longrightarrow> tp_workers p w = Asleep \<Longrightarrow>
    pool_internal p (p\<lparr>tp_workers := (tp_workers p)(w := Checking), tp_signals := n\<rparr>)"
| notify_none: "tp_signals p = Suc n \<Longrightarrow> \<forall>w. tp_workers p w \<noteq> Asleep \<Longrightarrow>
    pool_internal p (p\<lparr>tp_signals := n\<rparr>)"
| notify_all: "tp_broadcasts p = Suc n \<Longrightarrow> pool_internal p ((wake_workers p)\<lparr>tp_broadcasts := n\<rparr>)"
| recheck: "tp_waiters p i = WaitChecking \<Longrightarrow> pool_internal p (wait_pred i p)"

inductive pool_client :: "'t pool \<Rightarrow> 't pool \<Rightarrow> bool" where
  execute: "pool_client p (pool_execute t p)"
| start: "tp_state p \<noteq> PendingDestroy \<Longrightarrow> pool_client p (pool_start p)"
| stop: "tp_state p \<noteq> PendingDestroy \<Longrightarrow> pool_client p (pool_stop p)"
| wait: "tp_waiters p i \<in> {NotWaiting, WaitDone} \<Longrightarrow> pool_client p (pool_wait i p)"
| destroy: "tp_waiters p i = WaitDone \<Longrightarrow> pool_client p (pool_destroy p)"

inductive pool_spurious :: "'t pool \<Rightarrow> 't pool \<Rightarrow> bool" where
  worker: "tp_workers p w = Asleep \<Longrightarrow> pool_spurious p (p\<lparr>tp_workers := (tp_workers p)(w := Checking)\<rparr>)"
| waiter: "tp_waiters p i = WaitAsleep \<Longrightarrow>
    pool_spurious p (p\<lparr>tp_waiters := (tp_waiters p)(i := WaitChecking)\<rparr>)"

definition pool_step :: "'t pool \<Rightarrow> 't pool \<Rightarrow> bool" where
  "pool_step p q \<longleftrightarrow> pool_internal p q \<or> pool_client p q \<or> pool_spurious p q"

abbreviation pool_steps :: "'t pool \<Rightarrow> 't pool \<Rightarrow> bool" where
  "pool_steps \<equiv> pool_step\<^sup>*\<^sup>*"

subsection \<open>The invariant\<close>

text \<open>
  Tasks are conserved in order; with the pool running and a task queued, a notification is
  still to come or some worker is awake, so the task cannot be overlooked; and a worker asleep
  when the pool is being destroyed with nothing queued will be notified.
\<close>

definition worker_awake :: "'t worker \<Rightarrow> bool" where
  "worker_awake w \<longleftrightarrow> (case w of Checking \<Rightarrow> True | RunningTask _ \<Rightarrow> True | _ \<Rightarrow> False)"

definition pool_inv :: "'t pool \<Rightarrow> bool" where
  "pool_inv p \<longleftrightarrow> tp_submitted p = tp_taken p @ tp_tasks p
     \<and> 0 < tp_num p
     \<and> (tp_state p = PoolRunning \<longrightarrow> tp_once p)
     \<and> (\<forall>w. tp_workers p w = NotStarted \<longleftrightarrow> \<not> (tp_once p \<and> w < tp_num p))
     \<and> (tp_state p \<noteq> PendingDestroy \<longrightarrow> (\<forall>w. tp_workers p w \<noteq> Exited))
     \<and> (tp_state p = PoolRunning \<and> tp_tasks p \<noteq> [] \<longrightarrow>
          0 < tp_signals p \<or> 0 < tp_broadcasts p \<or> (\<exists>w. worker_awake (tp_workers p w)))
     \<and> (tp_state p = PendingDestroy \<and> tp_tasks p = [] \<longrightarrow>
          0 < tp_broadcasts p \<or> (\<forall>w. tp_workers p w \<noteq> Asleep))"

lemma worker_awake_simps [simp]:
  "worker_awake Checking" "worker_awake (RunningTask t)" "\<not> worker_awake NotStarted"
  "\<not> worker_awake Asleep" "\<not> worker_awake Exited"
  by (simp_all add: worker_awake_def)

text \<open>A worker that is put to sleep, or leaves, found no task to run.\<close>

lemma worker_check_cases:
  obtains
    (sleep) "if tp_tasks p = [] then tp_state p \<noteq> PendingDestroy else tp_state p \<noteq> PoolRunning"
      "\<exists>flag waiters. worker_check w p = p\<lparr>tp_wait_flag := flag, tp_waiters := waiters,
         tp_workers := (tp_workers p)(w := Asleep)\<rparr>"
  | (exit) "tp_tasks p = []" "tp_state p = PendingDestroy"
      "\<exists>flag waiters. worker_check w p = p\<lparr>tp_wait_flag := flag, tp_waiters := waiters,
         tp_workers := (tp_workers p)(w := Exited)\<rparr>"
  | (take) t ts where "tp_tasks p = t # ts" "tp_state p = PoolRunning"
      "worker_check w p = p\<lparr>tp_workers := (tp_workers p)(w := RunningTask t), tp_tasks := ts,
         tp_taken := tp_taken p @ [t]\<rparr>"
proof (cases "tp_tasks p")
  case Nil
  define q where "q = snd (worker_pred p)"
  have q: "\<exists>flag waiters. q = p\<lparr>tp_wait_flag := flag, tp_waiters := waiters\<rparr>"
  proof (cases "tp_wait_flag p")
    case True
    then show ?thesis using Nil by (auto simp: q_def worker_pred_def wake_waiters_def)
  next
    case False
    then have "q = p\<lparr>tp_wait_flag := tp_wait_flag p, tp_waiters := tp_waiters p\<rparr>"
      using Nil by (simp add: q_def worker_pred_def)
    then show ?thesis by blast
  qed
  have w: "worker_pred p = (tp_state p = PendingDestroy, q)" using Nil by (simp add: q_def worker_pred_def)
  obtain flag waiters where q': "q = p\<lparr>tp_wait_flag := flag, tp_waiters := waiters\<rparr>" using q by blast
  show ?thesis
  proof (cases "tp_state p = PendingDestroy")
    case True
    then show ?thesis using exit [OF Nil True] by (auto simp: worker_check_def w q')
  next
    case False
    then have c: "if tp_tasks p = [] then tp_state p \<noteq> PendingDestroy else tp_state p \<noteq> PoolRunning"
      using Nil by simp
    from False show ?thesis by (intro sleep [OF c]) (auto simp: worker_check_def w q')
  qed
next
  case (Cons t ts)
  show ?thesis
  proof (cases "tp_state p = PoolRunning")
    case True
    then show ?thesis by (intro take [OF Cons True]) (simp add: worker_check_def worker_pred_def Cons)
  next
    case False
    have "worker_check w p = p\<lparr>tp_wait_flag := tp_wait_flag p, tp_waiters := tp_waiters p,
        tp_workers := (tp_workers p)(w := Asleep)\<rparr>"
      using False by (simp add: worker_check_def worker_pred_def Cons)
    moreover have "if tp_tasks p = [] then tp_state p \<noteq> PendingDestroy else tp_state p \<noteq> PoolRunning"
      using Cons False by simp
    ultimately show ?thesis using sleep by blast
  qed
qed

lemma inv_worker_check:
  assumes inv: "pool_inv p" and w: "tp_workers p w = Checking"
  shows "pool_inv (worker_check w p)"
proof (cases rule: worker_check_cases [of p w])
  case sleep
  then obtain flag waiters where eq: "worker_check w p = p\<lparr>tp_wait_flag := flag, tp_waiters := waiters,
    tp_workers := (tp_workers p)(w := Asleep)\<rparr>" by blast
  have "tp_workers p w \<noteq> NotStarted" using w by simp
  with inv sleep(1) show ?thesis unfolding eq pool_inv_def by (auto split: if_splits)
next
  case exit
  then obtain flag waiters where eq: "worker_check w p = p\<lparr>tp_wait_flag := flag, tp_waiters := waiters,
    tp_workers := (tp_workers p)(w := Exited)\<rparr>" by blast
  have "tp_workers p w \<noteq> NotStarted" using w by simp
  with inv exit(1,2) show ?thesis unfolding eq pool_inv_def by simp metis
next
  case (take t ts)
  have "tp_workers p w \<noteq> NotStarted" using w by simp
  moreover have "\<exists>k. worker_awake (((tp_workers p)(w := RunningTask t)) k)" by (rule exI [of _ w]) simp
  ultimately show ?thesis using inv take(1,2) unfolding take(3) pool_inv_def by simp
qed

text \<open>Waking a worker keeps everything; the other parts of the state do not matter to it.\<close>

lemma inv_wake:
  assumes "pool_inv p" and "\<And>k. ws k = tp_workers p k \<or> ws k = Checking \<and> tp_workers p k \<in> {Asleep, RunningTask t}"
    and "(\<exists>k. ws k = Checking) \<or> sg = tp_signals p \<and> bc = tp_broadcasts p
       \<or> (\<forall>k. ws k \<noteq> Asleep)"
    and "bc = tp_broadcasts p \<or> (\<forall>k. ws k \<noteq> Asleep)"
  shows "pool_inv (p\<lparr>tp_workers := ws, tp_signals := sg, tp_broadcasts := bc\<rparr>)"
proof -
  have ns: "ws k = NotStarted \<longleftrightarrow> tp_workers p k = NotStarted"
    and ex: "ws k = Exited \<longleftrightarrow> tp_workers p k = Exited"
    and aw: "worker_awake (tp_workers p k) \<Longrightarrow> worker_awake (ws k)"
    and sl: "ws k = Asleep \<Longrightarrow> tp_workers p k = Asleep" for k
    using assms(2) [of k] by auto
  have "0 < sg \<or> 0 < bc \<or> (\<exists>k. worker_awake (ws k))"
    if run: "tp_state p = PoolRunning" "tp_tasks p \<noteq> []"
  proof -
    have once: "tp_once p" and n: "0 < tp_num p" and st: "tp_workers p 0 \<noteq> NotStarted" and "tp_workers p 0 \<noteq> Exited"
      using assms(1) run unfolding pool_inv_def by auto
    then have "ws 0 \<noteq> Asleep \<Longrightarrow> worker_awake (ws 0)" using ns [of 0] ex [of 0] by (cases "ws 0") auto
    moreover have "0 < tp_signals p \<or> 0 < tp_broadcasts p \<or> (\<exists>k. worker_awake (tp_workers p k))"
      using assms(1) run unfolding pool_inv_def by blast
    ultimately show ?thesis
      using assms(3) aw worker_awake_simps(1) by metis
  qed
  moreover have "0 < bc \<or> (\<forall>w. ws w \<noteq> Asleep)" if "tp_state p = PendingDestroy" "tp_tasks p = []"
    using assms(1,4) that sl unfolding pool_inv_def by metis
  ultimately show ?thesis using assms(1) unfolding pool_inv_def by (simp add: ns ex)
qed

lemma inv_internal:
  assumes "pool_internal p q" and inv: "pool_inv p"
  shows "pool_inv q"
  using assms(1)
proof cases
  case (check w)
  then show ?thesis using inv_worker_check [OF inv] by simp
next
  case (finish w t)
  then show ?thesis
    using inv_wake [OF inv, of "(tp_workers p)(w := Checking)" t "tp_signals p" "tp_broadcasts p"]
    by (auto simp: worker_finish_def)
next
  case (notify_one n w)
  have "pool_inv (p\<lparr>tp_workers := (tp_workers p)(w := Checking), tp_signals := n,
      tp_broadcasts := tp_broadcasts p\<rparr>)"
    by (rule inv_wake [OF inv]) (use notify_one in auto)
  then show ?thesis using notify_one by simp
next
  case (notify_none n)
  then show ?thesis
    using inv_wake [OF inv, of "tp_workers p" _ n "tp_broadcasts p"] by auto
next
  case (notify_all n)
  let ?ws = "\<lambda>w. if tp_workers p w = Asleep then Checking else tp_workers p w"
  show ?thesis
    using inv_wake [OF inv, of ?ws _ "tp_signals p" n] notify_all by (auto simp: wake_workers_def)
next
  case (recheck i)
  then show ?thesis using inv by (simp add: wait_pred_def pool_inv_def)
qed

lemma inv_client: "pool_client p q \<Longrightarrow> pool_inv p \<Longrightarrow> pool_inv q"
proof (induction rule: pool_client.induct)
  case (start p)
  then show ?case by (auto simp: pool_inv_def pool_start_def Let_def)
qed (auto simp: pool_inv_def pool_execute_def pool_stop_def pool_wait_def wait_pred_def pool_destroy_def)

lemma inv_spurious: "pool_spurious p q \<Longrightarrow> pool_inv p \<Longrightarrow> pool_inv q"
proof (induction rule: pool_spurious.induct)
  case (worker p w)
  then show ?case
    using inv_wake [of p "(tp_workers p)(w := Checking)" _ "tp_signals p" "tp_broadcasts p"] by auto
qed (simp add: pool_inv_def)

lemma inv_pool_new: "pool_new n = Inr p \<Longrightarrow> pool_inv p"
  by (auto simp: pool_new_def pool_inv_def split: if_splits)

interpretation tp: transition_system "\<lambda>p. pool_new n = Inr p" pool_step pool_inv
  by unfold_locales (auto simp: pool_step_def intro: inv_pool_new inv_internal inv_client inv_spurious)

interpretation tp_exec: executor pool_execute tp_tasks
  by unfold_locales (simp add: pool_execute_def)

subsection \<open>The pool makes progress\<close>

abbreviation pool_internals :: "'t pool \<Rightarrow> 't pool \<Rightarrow> bool" where
  "pool_internals \<equiv> pool_internal\<^sup>*\<^sup>*"

lemma some_worker_awake:
  assumes inv: "pool_inv p" and run: "tp_state p = PoolRunning" "tp_tasks p \<noteq> []"
  shows "\<exists>q w. pool_internals p q \<and> worker_awake (tp_workers q w) \<and> tp_tasks q = tp_tasks p
     \<and> tp_state q = tp_state p \<and> tp_taken q = tp_taken p"
proof (cases "\<exists>w. worker_awake (tp_workers p w)")
  case True
  then show ?thesis by blast
next
  case False
  have "tp_workers p 0 \<noteq> NotStarted" "tp_workers p 0 \<noteq> Exited"
    using inv run unfolding pool_inv_def by simp_all
  moreover have "\<not> worker_awake (tp_workers p 0)" using False by blast
  ultimately have a: "tp_workers p 0 = Asleep" by (cases "tp_workers p 0") simp_all
  have "tp_state p = PoolRunning \<and> tp_tasks p \<noteq> [] \<longrightarrow>
          0 < tp_signals p \<or> 0 < tp_broadcasts p \<or> (\<exists>w. worker_awake (tp_workers p w))"
    using inv unfolding pool_inv_def by (elim conjE)
  with run False have "0 < tp_signals p \<or> 0 < tp_broadcasts p" by simp
  then show ?thesis
  proof
    assume "0 < tp_signals p"
    then obtain n where "tp_signals p = Suc n" using gr0_implies_Suc by blast
    from pool_internal.notify_one [OF this a] show ?thesis
      by (intro exI [of _ "p\<lparr>tp_workers := (tp_workers p)(0 := Checking), tp_signals := n\<rparr>"] exI [of _ 0])
        (simp add: r_into_rtranclp)
  next
    assume "0 < tp_broadcasts p"
    then obtain n where "tp_broadcasts p = Suc n" using gr0_implies_Suc by blast
    from pool_internal.notify_all [OF this] a show ?thesis
      by (intro exI [of _ "(wake_workers p)\<lparr>tp_broadcasts := n\<rparr>"] exI [of _ 0])
        (simp add: r_into_rtranclp wake_workers_def)
  qed
qed

lemma awake_to_checking:
  assumes "worker_awake (tp_workers p w)"
  shows "\<exists>q. pool_internals p q \<and> q = p\<lparr>tp_workers := (tp_workers p)(w := Checking)\<rparr>"
proof (cases "tp_workers p w")
  case Checking
  then have "p\<lparr>tp_workers := (tp_workers p)(w := Checking)\<rparr> = p" by (simp add: fun_upd_idem)
  then show ?thesis by auto
next
  case (RunningTask t)
  from pool_internal.finish [OF this] show ?thesis by (simp add: worker_finish_def r_into_rtranclp)
qed (use assms in simp_all)

lemma internals_inv: "pool_internals p q \<Longrightarrow> pool_inv p \<Longrightarrow> pool_inv q"
  by (induction rule: rtranclp_induct) (auto intro: inv_internal)

lemma take_next:
  assumes inv: "pool_inv p" and run: "tp_state p = PoolRunning" and ts: "tp_tasks p = t # ts"
  shows "\<exists>q. pool_internals p q \<and> tp_state q = PoolRunning \<and> tp_tasks q = ts
     \<and> tp_taken q = tp_taken p @ [t]"
proof -
  obtain q w where q: "pool_internals p q" "worker_awake (tp_workers q w)" "tp_tasks q = t # ts"
    "tp_state q = PoolRunning" "tp_taken q = tp_taken p"
    using some_worker_awake [OF inv run] run ts by auto
  let ?r = "q\<lparr>tp_workers := (tp_workers q)(w := Checking)\<rparr>"
  have r: "pool_internals p ?r" using q(1) awake_to_checking [OF q(2)] by auto
  have "pool_internal ?r (worker_check w ?r)" by (rule pool_internal.check) simp
  with r have "pool_internals p (worker_check w ?r)" by (rule rtranclp.rtrancl_into_rtrancl)
  then show ?thesis
    using q(3-5) by (intro exI [of _ "worker_check w ?r"]) (simp add: worker_check_def worker_pred_def)
qed

lemma drain_pool:
  "pool_inv p \<Longrightarrow> tp_state p = PoolRunning \<Longrightarrow>
   \<exists>q. pool_internals p q \<and> tp_tasks q = [] \<and> tp_taken q = tp_taken p @ tp_tasks p"
proof (induction "tp_tasks p" arbitrary: p)
  case (Cons t ts)
  from take_next [OF Cons.prems] Cons.hyps(2) obtain q where q: "pool_internals p q"
    "tp_state q = PoolRunning" "ts = tp_tasks q" "tp_taken q = tp_taken p @ [t]" by metis
  from Cons.hyps(1) [OF q(3) internals_inv [OF q(1) Cons.prems(1)] q(2)] obtain u where
    "pool_internals q u" "tp_tasks u = []" "tp_taken u = tp_taken p @ t # ts" using q(3,4) by auto
  with q(1) Cons.hyps(2) show ?case by (metis rtranclp_trans)
qed auto

text \<open>An idle pool that is being destroyed lets every worker go.\<close>

lemma exit_one:
  assumes st: "tp_state p = PendingDestroy" "tp_tasks p = []" and w: "worker_awake (tp_workers p w)"
  shows "\<exists>q. pool_internals p q \<and> tp_state q = PendingDestroy \<and> tp_tasks q = []
     \<and> tp_workers q = (tp_workers p)(w := Exited)"
proof -
  let ?r = "p\<lparr>tp_workers := (tp_workers p)(w := Checking)\<rparr>"
  have "pool_internal ?r (worker_check w ?r)" by (rule pool_internal.check) simp
  with awake_to_checking [OF w] have "pool_internals p (worker_check w ?r)"
    by (auto intro: rtranclp.rtrancl_into_rtrancl)
  moreover have "tp_state (worker_check w ?r) = PendingDestroy \<and> tp_tasks (worker_check w ?r) = []
      \<and> tp_workers (worker_check w ?r) = (tp_workers p)(w := Exited)"
    using st by (simp add: worker_check_def worker_pred_def wake_waiters_def)
  ultimately show ?thesis by blast
qed

lemma exit_all:
  "tp_state p = PendingDestroy \<Longrightarrow> tp_tasks p = [] \<Longrightarrow> (\<forall>w. tp_workers p w \<noteq> Asleep) \<Longrightarrow>
   \<forall>w < n. tp_workers p w \<noteq> NotStarted \<Longrightarrow>
   \<exists>q. pool_internals p q \<and> tp_state q = PendingDestroy \<and> tp_tasks q = []
     \<and> tp_workers q = (\<lambda>w. if w < n then Exited else tp_workers p w)"
proof (induction n)
  case (Suc n)
  then obtain q where q: "pool_internals p q" "tp_state q = PendingDestroy" "tp_tasks q = []"
    "tp_workers q = (\<lambda>w. if w < n then Exited else tp_workers p w)" by auto
  have eq: "(\<lambda>w. if w < Suc n then Exited else tp_workers p w) = (tp_workers q)(n := Exited)"
    by (auto simp: q(4) less_Suc_eq)
  show ?case
  proof (cases "tp_workers p n = Exited")
    case True
    then have "(tp_workers q)(n := Exited) = tp_workers q" by (intro fun_upd_idem) (simp add: q(4))
    with q eq show ?thesis by auto
  next
    case False
    then have "worker_awake (tp_workers q n)"
      using Suc.prems(3,4) by (cases "tp_workers p n") (auto simp: q(4))
    from exit_one [OF q(2,3) this] obtain u where "pool_internals q u" "tp_state u = PendingDestroy"
      "tp_tasks u = []" "tp_workers u = (tp_workers q)(n := Exited)" by blast
    with q(1) eq show ?thesis by (metis rtranclp_trans)
  qed
qed auto

lemma destroy_idle:
  assumes inv: "pool_inv p" and st: "tp_state p = PendingDestroy" "tp_tasks p = []"
  shows "\<exists>q. pool_internals p q \<and> pool_joined q"
proof -
  obtain r where r: "pool_internals p r" "tp_state r = PendingDestroy" "tp_tasks r = []"
    "\<forall>w. tp_workers r w \<noteq> Asleep"
  proof (cases "\<forall>w. tp_workers p w \<noteq> Asleep")
    case True
    then show ?thesis using that [of p] st by simp
  next
    case False
    then have "0 < tp_broadcasts p" using inv st unfolding pool_inv_def by blast
    then obtain n where "tp_broadcasts p = Suc n" using gr0_implies_Suc by blast
    from pool_internal.notify_all [OF this] show ?thesis
      using st by (intro that [of "(wake_workers p)\<lparr>tp_broadcasts := n\<rparr>"])
        (simp_all add: r_into_rtranclp wake_workers_def)
  qed
  have ns: "tp_workers r w = NotStarted \<longleftrightarrow> \<not> (tp_once r \<and> w < tp_num r)" for w
    using internals_inv [OF r(1) inv] unfolding pool_inv_def by blast
  let ?n = "if tp_once r then tp_num r else 0"
  obtain q where q: "pool_internals r q" "tp_workers q = (\<lambda>w. if w < ?n then Exited else tp_workers r w)"
  proof -
    have "\<forall>w < ?n. tp_workers r w \<noteq> NotStarted" using ns by auto
    from exit_all [OF r(2-4) this] that show ?thesis by blast
  qed
  have "pool_joined q" using ns by (auto simp: pool_joined_def q(2))
  with q(1) r(1) show ?thesis by (meson rtranclp_trans)
qed

subsection \<open>Schedules\<close>

datatype 't pool_cmd =
  DoExecute 't | DoStart | DoStop | DoWait nat | DoDestroy nat
| DoCheck nat | DoFinish nat | DoSignal nat | DoBroadcast | DoRecheck nat

fun pool_do :: "'t pool_cmd \<Rightarrow> 't pool \<Rightarrow> 't pool option" where
  "pool_do (DoExecute t) p = Some (pool_execute t p)"
| "pool_do DoStart p = (if tp_state p \<noteq> PendingDestroy then Some (pool_start p) else None)"
| "pool_do DoStop p = (if tp_state p \<noteq> PendingDestroy then Some (pool_stop p) else None)"
| "pool_do (DoWait i) p = (if tp_waiters p i \<in> {NotWaiting, WaitDone} then Some (pool_wait i p) else None)"
| "pool_do (DoDestroy i) p = (if tp_waiters p i = WaitDone then Some (pool_destroy p) else None)"
| "pool_do (DoCheck w) p = (if tp_workers p w = Checking then Some (worker_check w p) else None)"
| "pool_do (DoFinish w) p =
     (case tp_workers p w of
        RunningTask t \<Rightarrow> Some (p\<lparr>tp_workers := (tp_workers p)(w := Checking)\<rparr>) | _ \<Rightarrow> None)"
| "pool_do (DoSignal w) p =
     (if 0 < tp_signals p \<and> tp_workers p w = Asleep
      then Some (p\<lparr>tp_workers := (tp_workers p)(w := Checking), tp_signals := tp_signals p - 1\<rparr>) else None)"
| "pool_do DoBroadcast p =
     (if 0 < tp_broadcasts p then Some ((wake_workers p)\<lparr>tp_broadcasts := tp_broadcasts p - 1\<rparr>) else None)"
| "pool_do (DoRecheck i) p = (if tp_waiters p i = WaitChecking then Some (wait_pred i p) else None)"

abbreviation pool_schedule :: "'t pool_cmd list \<Rightarrow> 't pool \<Rightarrow> 't pool option" where
  "pool_schedule \<equiv> run_schedule pool_do"

lemma pool_cmd_step: "pool_do c p = Some q \<Longrightarrow> pool_step p q"
  unfolding pool_step_def
proof (induction c p rule: pool_do.induct)
  case (7 w p)
  then obtain t where "tp_workers p w = RunningTask t" by (auto split: worker.splits)
  with 7 pool_internal.finish [of p w t q] show ?case by (simp add: worker_finish_def)
next
  case (8 w p)
  then show ?case using pool_internal.notify_one [of p "tp_signals p - 1" w] by (auto split: if_splits)
next
  case (9 p)
  then show ?case using pool_internal.notify_all [of p "tp_broadcasts p - 1"] by (auto split: if_splits)
qed (auto split: if_splits intro: pool_internal.intros pool_client.intros)

lemma pool_schedule_steps: "pool_schedule cs p = Some q \<Longrightarrow> pool_steps p q"
  using pool_cmd_step by (rule run_schedule_steps)

lemma DoFinish_running:
  "tp_workers p w = RunningTask t \<Longrightarrow>
   pool_do (DoFinish w) p = Some (p\<lparr>tp_workers := (tp_workers p)(w := Checking)\<rparr>)"
  by simp

text \<open>A pool of one worker, and where some schedules lead.\<close>

definition fresh_pool :: "string pool" where
  "fresh_pool = \<lparr>tp_state = PoolStopping, tp_wait_flag = False, tp_tasks = [], tp_num = Suc 0,
     tp_once = False, tp_workers = (\<lambda>_. NotStarted), tp_waiters = (\<lambda>_. NotWaiting),
     tp_signals = 0, tp_broadcasts = 0, tp_submitted = [], tp_taken = []\<rparr>"

lemma fresh_pool_new: "pool_new (Suc 0) = Inr fresh_pool"
  by (simp add: pool_new_def fresh_pool_def)

definition lost_wait_schedule :: "string pool_cmd list" where
  "lost_wait_schedule =
     [DoStart, DoExecute ''a'', DoWait 0, DoCheck 0, DoFinish 0, DoCheck 0,
      DoExecute ''b'', DoRecheck 0, DoSignal 0, DoCheck 0, DoFinish 0, DoCheck 0,
      DoSignal 0, DoCheck 0, DoBroadcast, DoCheck 0]"

definition lost_wait_pool :: "string pool" where
  "lost_wait_pool = \<lparr>tp_state = PoolRunning, tp_wait_flag = False, tp_tasks = [], tp_num = Suc 0,
     tp_once = True, tp_workers = (\<lambda>_. NotStarted)(0 := Asleep), tp_waiters = (\<lambda>_. NotWaiting)(0 := WaitAsleep),
     tp_signals = 0, tp_broadcasts = 0, tp_submitted = [''a'', ''b''], tp_taken = [''a'', ''b'']\<rparr>"

lemma one_worker: "(\<lambda>w. if w = (0::nat) then a else b) = (\<lambda>_. b)(0 := a)"
  by (auto simp: fun_eq_iff)

lemma lost_wait_run: "pool_schedule lost_wait_schedule fresh_pool = Some lost_wait_pool"
  by (simp add: lost_wait_schedule_def lost_wait_pool_def fresh_pool_def step_simps one_worker)
    (simp add: fun_eq_iff)

definition stopped_schedule :: "string pool_cmd list" where
  "stopped_schedule = [DoStart, DoExecute ''a'', DoStop, DoWait 0, DoDestroy 0]"

definition stopped_pool :: "string pool" where
  "stopped_pool = \<lparr>tp_state = PendingDestroy, tp_wait_flag = False, tp_tasks = [''a''], tp_num = Suc 0,
     tp_once = True, tp_workers = (\<lambda>_. NotStarted)(0 := Checking), tp_waiters = (\<lambda>_. NotWaiting)(0 := WaitDone),
     tp_signals = Suc 0, tp_broadcasts = Suc (Suc 0), tp_submitted = [''a''], tp_taken = []\<rparr>"

lemma stopped_run: "pool_schedule stopped_schedule fresh_pool = Some stopped_pool"
  by (simp add: stopped_schedule_def stopped_pool_def fresh_pool_def step_simps one_worker)

definition busy_schedule :: "string pool_cmd list" where
  "busy_schedule = [DoStart, DoExecute ''a'', DoExecute ''b'', DoCheck 0]"

definition busy_pool :: "string pool" where
  "busy_pool = \<lparr>tp_state = PoolRunning, tp_wait_flag = False, tp_tasks = [''b''], tp_num = Suc 0,
     tp_once = True, tp_workers = (\<lambda>_. NotStarted)(0 := RunningTask ''a''), tp_waiters = (\<lambda>_. NotWaiting),
     tp_signals = Suc (Suc 0), tp_broadcasts = Suc 0, tp_submitted = [''a'', ''b''], tp_taken = [''a'']\<rparr>"

lemma busy_run: "pool_schedule busy_schedule fresh_pool = Some busy_pool"
  by (simp add: busy_schedule_def busy_pool_def fresh_pool_def step_simps one_worker)

definition idle_schedule :: "string pool_cmd list" where
  "idle_schedule = [DoStart, DoCheck 0, DoWait 0, DoDestroy 0]"

definition idle_pool :: "string pool" where
  "idle_pool = \<lparr>tp_state = PendingDestroy, tp_wait_flag = True, tp_tasks = [], tp_num = Suc 0,
     tp_once = True, tp_workers = (\<lambda>_. NotStarted)(0 := Asleep), tp_waiters = (\<lambda>_. NotWaiting)(0 := WaitDone),
     tp_signals = 0, tp_broadcasts = Suc (Suc 0), tp_submitted = [], tp_taken = []\<rparr>"

lemma idle_run: "pool_schedule idle_schedule fresh_pool = Some idle_pool"
  by (simp add: idle_schedule_def idle_pool_def fresh_pool_def step_simps one_worker)

subsection \<open>Properties\<close>

text \<open>
  Property C17: whatever threads submit, start, stop, wait and destroy, in any interleaving, the
  workers take every submitted task at most once, in the order of submission, and the ones not
  taken are in the queue, in order.
\<close>

theorem pool_takes_tasks_once_in_order:
  assumes "pool_new n = Inr p" and "pool_steps p q"
  shows "tp_submitted q = tp_taken q @ tp_tasks q"
  using tp.reachable_inv [OF assms] by (simp add: pool_inv_def)

theorem pool_takes_tasks_once_in_order_witness:
  "tp_submitted busy_pool = [''a''] @ tp_tasks busy_pool"
  using pool_takes_tasks_once_in_order [OF fresh_pool_new pool_schedule_steps [OF busy_run]]
  by (simp add: busy_pool_def)

text \<open>
  Property C33: no wake-up of a worker is lost. In every reachable state of a running pool the
  workers and the notifications under way can drain the queue, in order, without any further
  help from outside.
\<close>

theorem running_pool_drains:
  assumes "pool_new n = Inr p" and "pool_steps p q" and "tp_state q = PoolRunning"
  shows "\<exists>u. pool_internals q u \<and> tp_tasks u = [] \<and> tp_taken u = tp_taken q @ tp_tasks q"
  by (rule drain_pool [OF tp.reachable_inv [OF assms(1,2)] assms(3)])

theorem running_pool_drains_witness:
  "\<exists>u. pool_internals busy_pool u \<and> tp_tasks u = [] \<and> tp_taken u = [''a'', ''b'']"
  using running_pool_drains [OF fresh_pool_new pool_schedule_steps [OF busy_run]]
  by (simp add: busy_pool_def)

text \<open>
  A pool that is destroyed with an empty queue lets every worker return, so that
  the destructor's joins can end.
\<close>

theorem idle_pool_can_be_destroyed:
  assumes "pool_new n = Inr p" and "pool_steps p q"
    and "tp_state q = PendingDestroy" and "tp_tasks q = []"
  shows "\<exists>u. pool_internals q u \<and> pool_joined u"
  by (rule destroy_idle [OF tp.reachable_inv [OF assms(1,2)] assms(3,4)])

theorem idle_pool_can_be_destroyed_witness: "\<exists>u. pool_internals idle_pool u \<and> pool_joined u"
  by (rule idle_pool_can_be_destroyed [OF fresh_pool_new pool_schedule_steps [OF idle_run]])
    (simp_all add: idle_pool_def)

lemma destroyed_stays:
  assumes "pool_step p q" and "tp_state p = PendingDestroy" and "tp_tasks p \<noteq> []"
    and "tp_workers p w \<notin> {NotStarted, Exited}"
  shows "tp_state q = PendingDestroy \<and> tp_tasks q \<noteq> [] \<and> tp_workers q w \<notin> {NotStarted, Exited}"
proof -
  have check: "worker_check k p = p\<lparr>tp_workers := (tp_workers p)(k := Asleep)\<rparr>" for k
    using assms(2,3) by (simp add: worker_check_def worker_pred_def)
  from assms(1) consider "pool_internal p q" | "pool_client p q" | "pool_spurious p q"
    by (auto simp: pool_step_def)
  then show ?thesis
  proof cases
    case 1
    then show ?thesis
      using assms(2-) by cases (auto simp: check worker_finish_def wake_workers_def wait_pred_def split: if_splits)
  next
    case 2
    then show ?thesis
      using assms(2-) by cases (auto simp: pool_execute_def pool_wait_def pool_destroy_def)
  next
    case 3
    then show ?thesis using assms(2-) by cases auto
  qed
qed

text \<open>
  Destroying a pool that has a task in its queue and a worker hangs. Nothing that
  can happen afterwards, notifications and spurious wake-ups included, lets the worker return,
  so the destructor never gets past its joins.
\<close>

theorem destroy_with_queued_tasks_hangs:
  assumes "tp_state p = PendingDestroy" and "tp_tasks p \<noteq> []"
    and "tp_workers p w \<notin> {NotStarted, Exited}" and "pool_steps p q"
  shows "\<not> pool_joined q"
proof -
  from assms(4) have "tp_state q = PendingDestroy \<and> tp_tasks q \<noteq> [] \<and> tp_workers q w \<notin> {NotStarted, Exited}"
  proof (induction rule: rtranclp_induct)
    case (step q u)
    then show ?case using destroyed_stays [of q u w] by blast
  qed (use assms(1-3) in simp)
  then show ?thesis by (auto simp: pool_joined_def)
qed

theorem destroy_with_queued_tasks_hangs_witness:
  "pool_steps fresh_pool stopped_pool \<and> \<not> (\<exists>q. pool_steps stopped_pool q \<and> pool_joined q)"
  using destroy_with_queued_tasks_hangs [of stopped_pool 0] pool_schedule_steps [OF stopped_run]
  by (auto simp: stopped_pool_def)

text \<open>
  A client of wait can be left behind. There is a run of a pool of one worker, with
  no spurious wake-up in it, after which the pool is running and idle, the queue is empty, no
  notification is under way, nothing more can happen by itself, and the client still sleeps: it
  was notified, found a task submitted in the meantime, and went back to sleep with
  \<^verbatim>\<open>wait_flag_\<close> reset.
\<close>

theorem wait_can_be_left_behind:
  "\<exists>q. pool_schedule lost_wait_schedule fresh_pool = Some q \<and> pool_steps fresh_pool q
     \<and> tp_state q = PoolRunning \<and> tp_tasks q = [] \<and> tp_waiters q 0 = WaitAsleep
     \<and> \<not> (\<exists>u. pool_internal q u)"
proof -
  have "\<not> pool_internal lost_wait_pool u" for u
  proof
    assume "pool_internal lost_wait_pool u"
    then show False by cases (simp_all add: lost_wait_pool_def split: if_splits)
  qed
  then show ?thesis
    using lost_wait_run pool_schedule_steps [OF lost_wait_run]
    by (intro exI [of _ lost_wait_pool]) (simp add: lost_wait_pool_def)
qed

end
