(* ===== verification/Wakeup_Protocol.thy ===== *)
theory Wakeup_Protocol
  imports Coro_Context
begin

section \<open>The event loop and the threads that feed it (core/coro_context.cpp)\<close>

text \<open>
  \<^verbatim>\<open>execute\<close> from another thread appends a task under the lock and afterwards writes to the
  wake-up descriptor; the loop takes the tasks under the lock, later checks under the lock
  whether it may sleep, and only after that enters the I/O service. Each of these is a step
  here, so that they interleave. A wake-up is remembered by the descriptor until the service
  reads it: the service returns from a sleep when some wake-up was sent since it last looked.
\<close>

datatype loop_pc = LoopTop | LoopRun | LoopPoll nanos | LoopSleep

record 't wk =
  wk_ctx :: "'t ctx"
  wk_pc :: loop_pc
  wk_writers :: nat
  wk_seen :: nat

definition swap_pending :: "'t ctx \<Rightarrow> 't ctx" where
  "swap_pending s = s\<lparr>cx_pending := [], cx_ran := cx_ran s @ cx_pending s\<rparr>"

definition wk_init :: "'t wk \<Rightarrow> bool" where
  "wk_init s \<longleftrightarrow> wk_pc s = LoopTop \<and> wk_writers s = 0 \<and> wk_seen s \<le> cx_wakes (wk_ctx s)
     \<and> cx_state (wk_ctx s) = CtxRunning"

text \<open>
  \<open>wk_step\<close> leaves out one thing, that a timer or a completion ends a sleep; \<open>wk_any\<close> has it.
\<close>

inductive wk_step :: "'t wk \<Rightarrow> 't wk \<Rightarrow> bool" where
  push: "wk_step s (s\<lparr>wk_ctx := execute_push t (wk_ctx s), wk_writers := Suc (wk_writers s)\<rparr>)"
| signal: "wk_writers s = Suc n \<Longrightarrow> wk_step s (s\<lparr>wk_ctx := ctx_wake_up (wk_ctx s), wk_writers := n\<rparr>)"
| swap: "wk_pc s = LoopTop \<Longrightarrow> cx_state (wk_ctx s) \<noteq> CtxStopping \<Longrightarrow>
    wk_step s (s\<lparr>wk_ctx := swap_pending (wk_ctx s), wk_pc := LoopRun\<rparr>)"
| own: "wk_pc s = LoopRun \<Longrightarrow>
    wk_step s (s\<lparr>wk_ctx := ctx_execute (cx_thread (wk_ctx s)) t (wk_ctx s)\<rparr>)"
| stop: "wk_pc s = LoopRun \<Longrightarrow> ctx_stop (cx_thread (wk_ctx s)) (wk_ctx s) = Inr c \<Longrightarrow>
    wk_step s (s\<lparr>wk_ctx := c\<rparr>)"
| check: "wk_pc s = LoopRun \<Longrightarrow> wk_step s (s\<lparr>wk_pc := LoopPoll (poll_timeout (wk_ctx s))\<rparr>)"
| poll: "wk_pc s = LoopPoll 0 \<Longrightarrow> seen = wk_seen s \<or> seen = cx_wakes (wk_ctx s) \<Longrightarrow>
    wk_step s (s\<lparr>wk_pc := LoopTop, wk_seen := seen\<rparr>)"
| sleep: "wk_pc s = LoopPoll d \<Longrightarrow> d \<noteq> 0 \<Longrightarrow> wk_step s (s\<lparr>wk_pc := LoopSleep\<rparr>)"
| wake: "wk_pc s = LoopSleep \<Longrightarrow> wk_seen s < cx_wakes (wk_ctx s) \<Longrightarrow>
    wk_step s (s\<lparr>wk_pc := LoopTop, wk_seen := cx_wakes (wk_ctx s)\<rparr>)"

inductive wk_any :: "'t wk \<Rightarrow> 't wk \<Rightarrow> bool" where
  step: "wk_step s t \<Longrightarrow> wk_any s t"
| expire: "wk_pc s = LoopSleep \<Longrightarrow> wk_any s (s\<lparr>wk_pc := LoopTop\<rparr>)"

text \<open>Whoever is about to sleep, or sleeps, on a pending task has a wake-up coming.\<close>

definition wk_inv :: "'t wk \<Rightarrow> bool" where
  "wk_inv s \<longleftrightarrow> wk_seen s \<le> cx_wakes (wk_ctx s)
     \<and> (wk_pc s = LoopSleep \<or> (\<exists>d. wk_pc s = LoopPoll d \<and> d \<noteq> 0) \<longrightarrow>
          cx_state (wk_ctx s) = CtxRunning
        \<and> (cx_pending (wk_ctx s) \<noteq> [] \<longrightarrow> 0 < wk_writers s \<or> wk_seen s < cx_wakes (wk_ctx s)))"

lemma wk_inv_step: "wk_step s t \<Longrightarrow> wk_inv s \<Longrightarrow> wk_inv t"
proof (induction rule: wk_step.induct)
  case (check s)
  then show ?case
    by (cases "cx_state (wk_ctx s)") (auto simp: wk_inv_def poll_timeout_def)
qed (auto simp: wk_inv_def execute_push_def ctx_wake_up_def swap_pending_def ctx_execute_def
    assert_in_context_thread_def ctx_stop_def Let_def)

interpretation wk: transition_system wk_init wk_any wk_inv
proof
  fix s t :: "'t wk"
  show "wk_init s \<Longrightarrow> wk_inv s" by (auto simp: wk_init_def wk_inv_def)
  assume inv: "wk_inv s" and "wk_any s t"
  from this(2) show "wk_inv t"
  proof cases
    case step
    then show ?thesis using inv by (rule wk_inv_step)
  next
    case expire
    then show ?thesis using inv by (simp add: wk_inv_def)
  qed
qed

lemma top_takes:
  assumes "wk_pc s = LoopTop" and "cx_state (wk_ctx s) = CtxRunning"
  shows "\<exists>t. wk_step\<^sup>*\<^sup>* s t \<and> cx_ran (wk_ctx t) = cx_ran (wk_ctx s) @ cx_pending (wk_ctx s)"
  using wk_step.swap [OF assms(1)] assms(2)
  by (intro exI [of _ "s\<lparr>wk_ctx := swap_pending (wk_ctx s), wk_pc := LoopRun\<rparr>"])
    (simp add: swap_pending_def r_into_rtranclp)

lemma poll_takes:
  assumes inv: "wk_inv s" and pc: "wk_pc s = LoopSleep \<or> wk_pc s = LoopPoll d"
    and run: "cx_state (wk_ctx s) = CtxRunning" and ne: "cx_pending (wk_ctx s) \<noteq> []"
  shows "\<exists>t. wk_step\<^sup>*\<^sup>* s t \<and> cx_ran (wk_ctx t) = cx_ran (wk_ctx s) @ cx_pending (wk_ctx s)"
proof -
  have sleep: "\<exists>t. wk_step\<^sup>*\<^sup>* u t \<and> cx_ran (wk_ctx t) = cx_ran (wk_ctx s) @ cx_pending (wk_ctx s)"
    if u: "wk_pc u = LoopSleep" "wk_seen u < cx_wakes (wk_ctx u)" "cx_state (wk_ctx u) = CtxRunning"
      "cx_ran (wk_ctx u) = cx_ran (wk_ctx s)" "cx_pending (wk_ctx u) = cx_pending (wk_ctx s)" for u :: "'a wk"
  proof -
    let ?v = "u\<lparr>wk_pc := LoopTop, wk_seen := cx_wakes (wk_ctx u)\<rparr>"
    have "wk_step u ?v" by (rule wk_step.wake [OF u(1,2)])
    moreover obtain t where "wk_step\<^sup>*\<^sup>* ?v t" "cx_ran (wk_ctx t) = cx_ran (wk_ctx s) @ cx_pending (wk_ctx s)"
      using top_takes [of ?v] u by auto
    ultimately show ?thesis by (meson converse_rtranclp_into_rtranclp)
  qed
  show ?thesis
  proof (cases "wk_pc s = LoopPoll 0")
    case True
    let ?v = "s\<lparr>wk_pc := LoopTop, wk_seen := wk_seen s\<rparr>"
    have "wk_step s ?v" by (rule wk_step.poll [OF True]) simp
    then show ?thesis using top_takes [of ?v] run by (auto intro: converse_rtranclp_into_rtranclp)
  next
    case False
    let ?v = "s\<lparr>wk_pc := LoopSleep\<rparr>"
    have to_sleep: "wk_step\<^sup>*\<^sup>* s ?v"
    proof (cases "wk_pc s = LoopSleep")
      case True
      then have "?v = s" by simp
      then show ?thesis by (simp only: rtranclp.rtrancl_refl)
    next
      case no: False
      then show ?thesis using pc False wk_step.sleep [of s d] by (auto intro: r_into_rtranclp)
    qed
    have sleepy: "wk_pc s = LoopSleep \<or> (\<exists>d. wk_pc s = LoopPoll d \<and> d \<noteq> 0)" using pc False by auto
    then have "0 < wk_writers s \<or> wk_seen s < cx_wakes (wk_ctx s)" using inv ne by (auto simp: wk_inv_def)
    then show ?thesis
    proof
      assume "wk_seen s < cx_wakes (wk_ctx s)"
      then show ?thesis using sleep [of ?v] run to_sleep by (auto intro: rtranclp_trans)
    next
      assume "0 < wk_writers s"
      then obtain n where "wk_writers ?v = Suc n" by (cases "wk_writers s") auto
      then have "wk_step ?v (?v\<lparr>wk_ctx := ctx_wake_up (wk_ctx ?v), wk_writers := n\<rparr>)" by (rule wk_step.signal)
      with to_sleep have "wk_step\<^sup>*\<^sup>* s (?v\<lparr>wk_ctx := ctx_wake_up (wk_ctx ?v), wk_writers := n\<rparr>)"
        by (rule rtranclp.rtrancl_into_rtrancl)
      moreover have "wk_seen s \<le> cx_wakes (wk_ctx s)" using inv by (simp add: wk_inv_def)
      ultimately show ?thesis
        using sleep [of "?v\<lparr>wk_ctx := ctx_wake_up (wk_ctx ?v), wk_writers := n\<rparr>"] run
        by (auto simp: ctx_wake_up_def intro: rtranclp_trans)
    qed
  qed
qed

lemma run_takes:
  assumes inv: "wk_inv s" and run: "cx_state (wk_ctx s) = CtxRunning" and ne: "cx_pending (wk_ctx s) \<noteq> []"
  shows "\<exists>t. wk_step\<^sup>*\<^sup>* s t \<and> cx_ran (wk_ctx t) = cx_ran (wk_ctx s) @ cx_pending (wk_ctx s)"
proof (cases "wk_pc s")
  case LoopTop
  then show ?thesis by (rule top_takes [OF _ run])
next
  case LoopRun
  let ?v = "s\<lparr>wk_pc := LoopPoll (poll_timeout (wk_ctx s))\<rparr>"
  have st: "wk_step s ?v" by (rule wk_step.check [OF LoopRun])
  then show ?thesis
    using poll_takes [OF wk_inv_step [OF st inv]] run ne by (auto intro: converse_rtranclp_into_rtranclp)
qed (use poll_takes [OF inv _ run ne] in auto)

subsection \<open>Property\<close>

text \<open>
  No wake-up of the event loop is lost. However other threads' submissions
  interleave with the loop, in every reachable state of a running loop with tasks pending, the
  loop can go on to run all of them, in order, without waiting for a timer or any I/O to happen.
\<close>

theorem submitted_tasks_wake_the_loop:
  assumes "wk_init s\<^sub>0" and "wk_any\<^sup>*\<^sup>* s\<^sub>0 s"
    and "cx_state (wk_ctx s) = CtxRunning" and "cx_pending (wk_ctx s) \<noteq> []"
  shows "\<exists>t. wk_step\<^sup>*\<^sup>* s t \<and> cx_ran (wk_ctx t) = cx_ran (wk_ctx s) @ cx_pending (wk_ctx s)"
  by (rule run_takes [OF wk.reachable_inv [OF assms(1,2)] assms(3,4)])

definition demo_wk :: "string wk" where
  "demo_wk = \<lparr>wk_ctx = demo_ctx\<lparr>cx_state := CtxRunning\<rparr>, wk_pc = LoopTop, wk_writers = 0, wk_seen = 0\<rparr>"

theorem submitted_tasks_wake_the_loop_witness:
  "\<exists>t. wk_step\<^sup>*\<^sup>* demo_wk t \<and> cx_ran (wk_ctx t) = [''first'', ''last'']"
proof -
  have "wk_init demo_wk" by (simp add: demo_wk_def wk_init_def)
  from submitted_tasks_wake_the_loop [OF this rtranclp.rtrancl_refl] show ?thesis
    by (simp add: demo_wk_def demo_ctx_def)
qed

end
