(* ===== verification/Io_Service.thy ===== *)
theory Io_Service
  imports Result_Error
begin

section \<open>Operations and their contexts (core/io_context.h, core/io_service.h, net/io_service.cpp)\<close>

text \<open>
  Every asynchronous operation is described by an \<^verbatim>\<open>IoContext\<close> on the heap, which
  \<^verbatim>\<open>IoService\<close> fills in and hands to the operating system's interface, and which the callback
  deletes. Addresses are numbers; buffers are addresses with a length; what the caller's
  \<^verbatim>\<open>void*\<close> points to is of type \<open>'p\<close>.
\<close>

datatype operation =
  OpNoop | OpWriteFile | OpReadFile | OpAccept | OpConnect | OpSend | OpReceive | OpSendTo | OpReceiveFrom

text \<open>
  What \<^verbatim>\<open>IoContext::ptr\<close> may hold: the user's pointer, a \<^verbatim>\<open>ResumeWithMsg\<close> that
  wraps it (Linux), or the service itself. The callbacks are the user's, the one that re-arms the
  wake-up of the service, and the empty one.
\<close>

datatype 'p io_ptr = UserPtr 'p | MsgPtr nat | ServicePtr

datatype io_cb = UserCb | WakeUpCb | EmptyCb

type_synonym byte = "8 word"

record 'p io_ctx =
  ic_op :: operation
  ic_buf :: nat
  ic_len :: nat
  ic_addr :: "byte list"
  ic_addr_len :: nat
  ic_ptr :: "'p io_ptr"
  ic_cb :: io_cb
  ic_res :: "64 word"

text \<open>\<^verbatim>\<open>ResumeWithMsg\<close>: the message header names the context whose address and buffer it uses.\<close>

record 'p resume_msg =
  rm_ctx :: nat
  rm_namelen :: nat
  rm_ptr :: 'p

text \<open>
  The heap of contexts and messages; \<open>ih_issued\<close> and \<open>ih_user\<close> record which contexts were
  created for the user, in order, and with which pointer.
\<close>

record 'p io_heap =
  ih_ctx :: "nat \<rightharpoonup> 'p io_ctx"
  ih_msg :: "nat \<rightharpoonup> 'p resume_msg"
  ih_next :: nat
  ih_issued :: "nat list"
  ih_user :: "nat \<rightharpoonup> 'p"

definition io_buf :: "nat \<Rightarrow> nat \<Rightarrow> 'p io_ctx \<Rightarrow> 'p io_ctx" where
  "io_buf buf len c = c\<lparr>ic_buf := buf, ic_len := len\<rparr>"

definition blank_ctx :: "operation \<Rightarrow> 'p io_ptr \<Rightarrow> io_cb \<Rightarrow> 'p io_ctx" where
  "blank_ctx op p cb = \<lparr>ic_op = op, ic_buf = 0, ic_len = 0, ic_addr = [], ic_addr_len = 0,
                        ic_ptr = p, ic_cb = cb, ic_res = 0\<rparr>"

definition new_ctx :: "'p \<Rightarrow> 'p io_ctx \<Rightarrow> ('p, 'z) io_heap_scheme \<Rightarrow> nat \<times> ('p, 'z) io_heap_scheme" where
  "new_ctx user_ptr c h =
     (ih_next h, h\<lparr>ih_ctx := (ih_ctx h)(ih_next h \<mapsto> c), ih_next := Suc (ih_next h),
                   ih_issued := ih_issued h @ [ih_next h], ih_user := (ih_user h)(ih_next h \<mapsto> user_ptr)\<rparr>)"

text \<open>\<^verbatim>\<open>new ResumeWithMsg\<close> and the assignment of its address to \<^verbatim>\<open>ioc->ptr\<close>.\<close>

definition wrap_msg :: "'p \<Rightarrow> nat \<Rightarrow> ('p, 'z) io_heap_scheme \<Rightarrow> ('p, 'z) io_heap_scheme" where
  "wrap_msg user_ptr ioc h =
     (case ih_ctx h ioc of
        None \<Rightarrow> h
      | Some c \<Rightarrow> h\<lparr>ih_msg := (ih_msg h)(ih_next h \<mapsto> \<lparr>rm_ctx = ioc, rm_namelen = ic_addr_len c, rm_ptr = user_ptr\<rparr>),
                    ih_ctx := (ih_ctx h)(ioc \<mapsto> c\<lparr>ic_ptr := MsgPtr (ih_next h)\<rparr>),
                    ih_next := Suc (ih_next h)\<rparr>)"

subsection \<open>IoService\<close>

text \<open>
  \<open>impl\<close> is the virtual call into the \<^verbatim>\<open>IoServiceInterface\<close> with the context; its result is
  \<open>None\<close> where the implementation dereferences a null pointer. \<^verbatim>\<open>receive\<close> labels its context
  \<^verbatim>\<open>Operation::Send\<close>, as the source does.
\<close>

definition svc_write_file where
  "svc_write_file impl buf len user_ptr h =
     (let (ioc, h) = new_ctx user_ptr (io_buf buf len (blank_ctx OpWriteFile (UserPtr user_ptr) UserCb)) h
      in impl ioc h)"

definition svc_read_file where
  "svc_read_file impl buf len user_ptr h =
     (let (ioc, h) = new_ctx user_ptr (io_buf buf len (blank_ctx OpReadFile (UserPtr user_ptr) UserCb)) h
      in impl ioc h)"

definition svc_accept where
  "svc_accept impl user_ptr h =
     (let (ioc, h) = new_ctx user_ptr (blank_ctx OpAccept (UserPtr user_ptr) UserCb) h in impl ioc h)"

definition svc_connect where
  "svc_connect impl remote user_ptr h =
     (let (ioc, h) = new_ctx user_ptr ((blank_ctx OpConnect (UserPtr user_ptr) UserCb)
            \<lparr>ic_addr_len := length remote, ic_addr := remote\<rparr>) h
      in impl ioc h)"

definition svc_send where
  "svc_send impl buf len user_ptr h =
     (let (ioc, h) = new_ctx user_ptr (io_buf buf len (blank_ctx OpSend (UserPtr user_ptr) UserCb)) h
      in impl ioc h)"

definition svc_receive where
  "svc_receive impl buf len user_ptr h =
     (let (ioc, h) = new_ctx user_ptr (io_buf buf len (blank_ctx OpSend (UserPtr user_ptr) UserCb)) h
      in impl ioc h)"

definition svc_send_to where
  "svc_send_to impl remote buf len user_ptr h =
     (let (ioc, h) = new_ctx user_ptr ((io_buf buf len (blank_ctx OpSendTo (UserPtr user_ptr) UserCb))
            \<lparr>ic_addr_len := length remote, ic_addr := remote\<rparr>) h
      in impl ioc (wrap_msg user_ptr ioc h))"

definition sockaddr_in6_size :: nat where
  "sockaddr_in6_size = 28"

definition svc_receive_from where
  "svc_receive_from impl buf len user_ptr h =
     (let (ioc, h) = new_ctx user_ptr ((io_buf buf len (blank_ctx OpReceiveFrom (UserPtr user_ptr) UserCb))
            \<lparr>ic_addr_len := sockaddr_in6_size\<rparr>) h
      in impl ioc (wrap_msg user_ptr ioc h))"

lemmas svc_defs = svc_write_file_def svc_read_file_def svc_accept_def svc_connect_def svc_send_def
  svc_receive_def svc_send_to_def svc_receive_from_def

subsection \<open>What the service promises its implementation\<close>

text \<open>
  The shape of a fresh context: its address was not in use, it carries the user's callback, and
  exactly the two operations on messages carry a message, which wraps the user's pointer.
\<close>

definition is_msg_op :: "operation \<Rightarrow> bool" where
  "is_msg_op op \<longleftrightarrow> op = OpSendTo \<or> op = OpReceiveFrom"

definition fresh_ctx ::
  "'p \<Rightarrow> nat \<Rightarrow> ('p, 'z) io_heap_scheme \<Rightarrow> ('p, 'z) io_heap_scheme \<Rightarrow> bool" where
  "fresh_ctx p ioc h h' \<longleftrightarrow>
     ioc = ih_next h \<and> ih_next h < ih_next h'
   \<and> (\<exists>c. ih_ctx h' = (ih_ctx h)(ioc \<mapsto> c) \<and> ic_op c \<noteq> OpNoop \<and> ic_cb c = UserCb
        \<and> (if is_msg_op (ic_op c)
           then \<exists>m. ic_ptr c = MsgPtr m \<and> m = Suc (ih_next h) \<and> m < ih_next h'
                  \<and> (\<exists>r. ih_msg h' = (ih_msg h)(m \<mapsto> r) \<and> rm_ptr r = p \<and> rm_ctx r = ioc)
           else ic_ptr c = UserPtr p \<and> ih_msg h' = ih_msg h))
   \<and> ih_issued h' = ih_issued h @ [ioc] \<and> ih_user h' = (ih_user h)(ioc \<mapsto> p)
   \<and> h' = h\<lparr>ih_ctx := ih_ctx h', ih_msg := ih_msg h', ih_next := ih_next h',
            ih_issued := ih_issued h', ih_user := ih_user h'\<rparr>"

lemma fresh_plain:
  assumes "ic_op c \<noteq> OpNoop" "\<not> is_msg_op (ic_op c)" "ic_cb c = UserCb" "ic_ptr c = UserPtr p"
  shows "fresh_ctx p (fst (new_ctx p c h)) h (snd (new_ctx p c h))"
  using assms by (auto simp: fresh_ctx_def new_ctx_def)

lemma fresh_msg:
  assumes "is_msg_op (ic_op c)" "ic_cb c = UserCb"
  shows "fresh_ctx p (fst (new_ctx p c h)) h (wrap_msg p (fst (new_ctx p c h)) (snd (new_ctx p c h)))"
proof -
  let ?c = "c\<lparr>ic_ptr := MsgPtr (Suc (ih_next h))\<rparr>"
  let ?r = "\<lparr>rm_ctx = ih_next h, rm_namelen = ic_addr_len c, rm_ptr = p\<rparr>"
  have op: "ic_op c \<noteq> OpNoop" using assms(1) by (auto simp: is_msg_op_def)
  have "(ih_msg h)(Suc (ih_next h) \<mapsto> ?r) = (ih_msg h)(Suc (ih_next h) \<mapsto> ?r) \<and> rm_ptr ?r = p
      \<and> rm_ctx ?r = ih_next h" by simp
  then have "\<exists>r. (ih_msg h)(Suc (ih_next h) \<mapsto> ?r) = (ih_msg h)(Suc (ih_next h) \<mapsto> r) \<and> rm_ptr r = p
      \<and> rm_ctx r = ih_next h" by blast
  then show ?thesis
    unfolding fresh_ctx_def
    by (intro conjI exI [of _ ?c]) (simp_all add: new_ctx_def wrap_msg_def op assms)
qed

text \<open>Every operation of the service calls its implementation once, with a fresh context.\<close>

lemma svc_fresh:
  shows "\<exists>ioc h'. svc_write_file impl b n p h = impl ioc h' \<and> fresh_ctx p ioc h h'"
    and "\<exists>ioc h'. svc_read_file impl b n p h = impl ioc h' \<and> fresh_ctx p ioc h h'"
    and "\<exists>ioc h'. svc_accept impl p h = impl ioc h' \<and> fresh_ctx p ioc h h'"
    and "\<exists>ioc h'. svc_connect impl a p h = impl ioc h' \<and> fresh_ctx p ioc h h'"
    and "\<exists>ioc h'. svc_send impl b n p h = impl ioc h' \<and> fresh_ctx p ioc h h'"
    and "\<exists>ioc h'. svc_receive impl b n p h = impl ioc h' \<and> fresh_ctx p ioc h h'"
    and "\<exists>ioc h'. svc_send_to impl a b n p h = impl ioc h' \<and> fresh_ctx p ioc h h'"
    and "\<exists>ioc h'. svc_receive_from impl b n p h = impl ioc h' \<and> fresh_ctx p ioc h h'"
  unfolding svc_defs split_def Let_def
  by ((rule exI)+, rule conjI, rule refl, rule fresh_plain fresh_msg,
      simp_all add: io_buf_def blank_ctx_def is_msg_op_def)+

end
