(* ===== verification/Io_Uring.thy ===== *)
theory Io_Uring
  imports Io_Service "HOL-Library.Multiset"
begin

section \<open>The io_uring service (net/io_uring.h, net/io_uring.cpp)\<close>

text \<open>
  \<^verbatim>\<open>IoUring\<close> writes submission entries into a ring of fixed size, hands them to the kernel in
  \<^verbatim>\<open>poll\<close> and calls back for every completion. The kernel is the environment of the
  model: it may complete any entry it was handed, in any order, with any result, once; the read
  of the wake-up descriptor completes only when that descriptor's counter is not zero, and takes
  it. The loop over the completions in \<^verbatim>\<open>poll\<close> is a step per completion, so that whatever
  callbacks and other threads do in between is between them here.
\<close>

subsection \<open>State\<close>

datatype sqe_prep =
  PrepWrite int nat nat nat | PrepRead int nat nat nat | PrepAccept int nat | PrepConnect int nat
| PrepSend int nat nat | PrepRecv int nat nat | PrepSendmsg int nat | PrepRecvmsg int nat
| PrepCancelFd int | PrepWakeUpRead

record sqe =
  sq_prep :: sqe_prep
  sq_data :: nat

record cqe =
  cq_data :: nat
  cq_res :: int

text \<open>
  A callback that was invoked: the error code, the context with its operation, the pointer and
  \<^verbatim>\<open>res\<close>.
\<close>

record 'p io_call =
  ca_ec :: error_code
  ca_ctx :: nat
  ca_op :: operation
  ca_ptr :: "'p io_ptr"
  ca_res :: "64 word"

record 'p ring = "'p io_heap" +
  rg_entries :: nat
  rg_sq :: "sqe list"
  rg_kernel :: "sqe list"
  rg_cq :: "cqe list"
  rg_io_num :: size_t
  rg_event :: nat
  rg_wake :: nat
  rg_empty :: nat
  rg_calls :: "'p io_call list"

text \<open>
  \<^verbatim>\<open>io_uring_get_sqe\<close> is null when the ring is full; the code dereferences it, which is
  \<open>None\<close>.
\<close>

definition put_sqe :: "sqe_prep \<Rightarrow> nat \<Rightarrow> 'p ring \<Rightarrow> 'p ring option" where
  "put_sqe prep data s =
     (if length (rg_sq s) < rg_entries s
      then Some (s\<lparr>rg_sq := rg_sq s @ [\<lparr>sq_prep = prep, sq_data = data\<rparr>]\<rparr>) else None)"

definition prep_wake_up :: "'p ring \<Rightarrow> 'p ring option" where
  "prep_wake_up s = put_sqe PrepWakeUpRead (rg_wake s) s"

text \<open>
  The constructor, when the kernel gives it a ring. The arguments of \<^verbatim>\<open>eventfd\<close> are
  swapped in the source: the flag \<^verbatim>\<open>EFD_NONBLOCK\<close>, 2048, is the counter's initial value.
\<close>

definition efd_nonblock :: nat where
  "efd_nonblock = 2048"

definition ring_new :: "bool \<Rightarrow> nat \<Rightarrow> ('p ring) option checked" where
  "ring_new init_ok entries =
     (if \<not> init_ok then Inl (Fatal ''failed to create io uring'')
      else Inr (prep_wake_up
        \<lparr>ih_ctx = [0 \<mapsto> blank_ctx OpNoop ServicePtr WakeUpCb, Suc 0 \<mapsto> blank_ctx OpNoop ServicePtr EmptyCb],
         ih_msg = Map.empty, ih_next = Suc (Suc 0), ih_issued = [], ih_user = Map.empty,
         rg_entries = entries, rg_sq = [], rg_kernel = [], rg_cq = [], rg_io_num = 0,
         rg_event = efd_nonblock, rg_wake = 0, rg_empty = Suc 0, rg_calls = []\<rparr>))"

subsection \<open>Operations\<close>

definition the_ctx :: "nat \<Rightarrow> 'p ring \<Rightarrow> 'p io_ctx" where
  "the_ctx ioc s = the (ih_ctx s ioc)"

definition count_io :: "'p ring \<Rightarrow> 'p ring" where
  "count_io s = s\<lparr>rg_io_num := rg_io_num s + 1\<rparr>"

definition ring_write_file :: "int \<Rightarrow> nat \<Rightarrow> nat \<Rightarrow> 'p ring \<Rightarrow> 'p ring option" where
  "ring_write_file fd offset ioc s =
     put_sqe (PrepWrite fd (ic_buf (the_ctx ioc s)) (ic_len (the_ctx ioc s)) offset) ioc (count_io s)"

definition ring_read_file :: "int \<Rightarrow> nat \<Rightarrow> nat \<Rightarrow> 'p ring \<Rightarrow> 'p ring option" where
  "ring_read_file fd offset ioc s =
     put_sqe (PrepRead fd (ic_buf (the_ctx ioc s)) (ic_len (the_ctx ioc s)) offset) ioc (count_io s)"

definition ring_accept :: "int \<Rightarrow> nat \<Rightarrow> 'p ring \<Rightarrow> 'p ring option" where
  "ring_accept listener ioc s = put_sqe (PrepAccept listener ioc) ioc (count_io s)"

definition ring_connect :: "int \<Rightarrow> nat \<Rightarrow> 'p ring \<Rightarrow> 'p ring option" where
  "ring_connect fd ioc s = put_sqe (PrepConnect fd ioc) ioc (count_io s)"

definition ring_send :: "int \<Rightarrow> nat \<Rightarrow> 'p ring \<Rightarrow> 'p ring option" where
  "ring_send fd ioc s =
     put_sqe (PrepSend fd (ic_buf (the_ctx ioc s)) (ic_len (the_ctx ioc s))) ioc (count_io s)"

definition ring_receive :: "int \<Rightarrow> nat \<Rightarrow> 'p ring \<Rightarrow> 'p ring option" where
  "ring_receive fd ioc s =
     put_sqe (PrepRecv fd (ic_buf (the_ctx ioc s)) (ic_len (the_ctx ioc s))) ioc (count_io s)"

definition the_msg :: "'p io_ptr \<Rightarrow> nat" where
  "the_msg p = (case p of MsgPtr m \<Rightarrow> m | _ \<Rightarrow> 0)"

definition ring_send_to :: "int \<Rightarrow> nat \<Rightarrow> 'p ring \<Rightarrow> 'p ring option" where
  "ring_send_to fd ioc s = put_sqe (PrepSendmsg fd (the_msg (ic_ptr (the_ctx ioc s)))) ioc (count_io s)"

definition ring_receive_from :: "int \<Rightarrow> nat \<Rightarrow> 'p ring \<Rightarrow> 'p ring option" where
  "ring_receive_from fd ioc s = put_sqe (PrepRecvmsg fd (the_msg (ic_ptr (the_ctx ioc s)))) ioc (count_io s)"

definition ring_cancel :: "int \<Rightarrow> 'p ring \<Rightarrow> 'p ring option" where
  "ring_cancel fd s = put_sqe (PrepCancelFd fd) (rg_empty s) s"

definition ring_attach :: "int \<Rightarrow> error_code \<Rightarrow> 'p ring \<Rightarrow> error_code \<times> 'p ring" where
  "ring_attach fd ec s = (ec, s)"

definition ring_wake_up :: "'p ring \<Rightarrow> 'p ring" where
  "ring_wake_up s = s\<lparr>rg_event := rg_event s + 114514\<rparr>"

text \<open>
  The destructor closes the wake-up descriptor, ends the ring and deletes the two internal contexts; it
  does not look at the operations that are pending.
\<close>

definition ring_dtor :: "'p ring \<Rightarrow> 'p ring" where
  "ring_dtor s = s\<lparr>rg_sq := [], rg_kernel := [], rg_cq := [], rg_event := 0,
                   ih_ctx := (ih_ctx s)(rg_wake s := None, rg_empty s := None)\<rparr>"

text \<open>The eight operations with the service's part: what issuing one of them can be.\<close>

datatype 'p io_request =
  WriteFileReq int nat nat nat | ReadFileReq int nat nat nat | AcceptReq int | ConnectReq int "byte list"
| SendReq int nat nat | ReceiveReq int nat nat | SendToReq int "byte list" nat nat | ReceiveFromReq int nat nat

fun ring_issue :: "'p io_request \<Rightarrow> 'p \<Rightarrow> 'p ring \<Rightarrow> 'p ring option" where
  "ring_issue (WriteFileReq fd b n off) p s = svc_write_file (ring_write_file fd off) b n p s"
| "ring_issue (ReadFileReq fd b n off) p s = svc_read_file (ring_read_file fd off) b n p s"
| "ring_issue (AcceptReq fd) p s = svc_accept (ring_accept fd) p s"
| "ring_issue (ConnectReq fd a) p s = svc_connect (ring_connect fd) a p s"
| "ring_issue (SendReq fd b n) p s = svc_send (ring_send fd) b n p s"
| "ring_issue (ReceiveReq fd b n) p s = svc_receive (ring_receive fd) b n p s"
| "ring_issue (SendToReq fd a b n) p s = svc_send_to (ring_send_to fd) a b n p s"
| "ring_issue (ReceiveFromReq fd b n) p s = svc_receive_from (ring_receive_from fd) b n p s"

subsection \<open>Completions\<close>

text \<open>
  The callback: the user's one resumes the coroutine and deletes the context; the wake-up's one
  arms the wake-up again.
\<close>

definition invoke_cb :: "error_code \<Rightarrow> nat \<Rightarrow> 'p ring \<Rightarrow> 'p ring option" where
  "invoke_cb ec ioc s =
     (let c = the_ctx ioc s;
          s = s\<lparr>rg_calls := rg_calls s @ [\<lparr>ca_ec = ec, ca_ctx = ioc, ca_op = ic_op c,
               ca_ptr = ic_ptr c, ca_res = ic_res c\<rparr>]\<rparr>
      in case ic_cb c of
           UserCb \<Rightarrow> Some (s\<lparr>ih_ctx := (ih_ctx s)(ioc := None)\<rparr>)
         | WakeUpCb \<Rightarrow> prep_wake_up s
         | EmptyCb \<Rightarrow> Some s)"

text \<open>
  \<^verbatim>\<open>handle_cqe\<close> up to the callback: what it does to the context. \<open>peername\<close> stands for
  \<^verbatim>\<open>getpeername\<close>.
\<close>

definition finish_ctx ::
  "(int \<Rightarrow> byte list) \<Rightarrow> int \<Rightarrow> nat \<Rightarrow> 'p ring \<Rightarrow> error_code \<times> 'p ring" where
  "finish_ctx peername res ioc s =
     (let c = the_ctx ioc s
      in if res < 0
         then (make_system_error_code (- res), s\<lparr>ih_ctx := (ih_ctx s)(ioc \<mapsto> c\<lparr>ic_res := 0\<rparr>)\<rparr>)
         else (let c = c\<lparr>ic_res := word_of_int res\<rparr>
               in (no_error,
                   (case ic_op c of
                      OpAccept \<Rightarrow> s\<lparr>ih_ctx := (ih_ctx s)(ioc \<mapsto> c\<lparr>ic_addr := peername res,
                                            ic_addr_len := length (peername res)\<rparr>)\<rparr>
                    | OpSendTo \<Rightarrow>
                        (let m = the_msg (ic_ptr c); rwm = the (ih_msg s m)
                         in s\<lparr>ih_ctx := (ih_ctx s)(ioc \<mapsto> c\<lparr>ic_addr_len := rm_namelen rwm, ic_ptr := UserPtr (rm_ptr rwm)\<rparr>),
                              ih_msg := (ih_msg s)(m := None)\<rparr>)
                    | OpReceiveFrom \<Rightarrow>
                        (let m = the_msg (ic_ptr c); rwm = the (ih_msg s m)
                         in s\<lparr>ih_ctx := (ih_ctx s)(ioc \<mapsto> c\<lparr>ic_addr_len := rm_namelen rwm, ic_ptr := UserPtr (rm_ptr rwm)\<rparr>),
                              ih_msg := (ih_msg s)(m := None)\<rparr>)
                    | _ \<Rightarrow> s\<lparr>ih_ctx := (ih_ctx s)(ioc \<mapsto> c)\<rparr>))))"

definition uncount_io :: "nat \<Rightarrow> 'p ring \<Rightarrow> 'p ring" where
  "uncount_io ioc s =
     (if ic_op (the_ctx ioc s) \<noteq> OpNoop then s\<lparr>rg_io_num := rg_io_num s - 1\<rparr> else s)"

definition handle_cqe :: "(int \<Rightarrow> byte list) \<Rightarrow> cqe \<Rightarrow> 'p ring \<Rightarrow> 'p ring option" where
  "handle_cqe peername e s =
     (let ioc = cq_data e;
          s = uncount_io ioc s;
          (ec, s) = finish_ctx peername (cq_res e) ioc s
      in invoke_cb ec ioc s)"

text \<open>
  \<^verbatim>\<open>poll\<close> before its loop, given what \<^verbatim>\<open>io_uring_submit_and_wait_timeout\<close> returns:
  the value it returns with, or that it goes on to the completions and will return 1.
\<close>

datatype poll_outcome = PollReturns int error_code | PollDelivers

definition eintr :: int where "eintr = 4"
definition eagain :: int where "eagain = 11"
definition etime :: int where "etime = 62"

definition ring_submit :: "'p ring \<Rightarrow> 'p ring" where
  "ring_submit s = s\<lparr>rg_kernel := rg_kernel s @ rg_sq s, rg_sq := []\<rparr>"

definition ring_poll :: "nat \<Rightarrow> int \<Rightarrow> error_code \<Rightarrow> 'p ring \<Rightarrow> poll_outcome \<times> 'p ring" where
  "ring_poll nanosec r ec s =
     (if nanosec = 0 \<and> rg_io_num s = 0 then (PollReturns 0 ec, s)
      else (let s = ring_submit s
            in if r = - etime \<or> r = - eagain then (PollReturns 0 ec, s)
               else if r = - eintr then (PollReturns 2 ec, s)
               else if r < 0 then (PollReturns (-1) (make_system_error_code (- r)), s)
               else (PollDelivers, s)))"

definition next_cqe :: "(int \<Rightarrow> byte list) \<Rightarrow> 'p ring \<Rightarrow> 'p ring option" where
  "next_cqe peername s =
     (case rg_cq s of e # es \<Rightarrow> handle_cqe peername e (s\<lparr>rg_cq := es\<rparr>) | [] \<Rightarrow> None)"

subsection \<open>The step relation\<close>

text \<open>What the kernel writes into the header of a received message.\<close>

definition set_namelen :: "sqe_prep \<Rightarrow> nat \<Rightarrow> (nat \<rightharpoonup> 'p resume_msg) \<Rightarrow> (nat \<rightharpoonup> 'p resume_msg)" where
  "set_namelen prep n msgs =
     (case prep of
        PrepRecvmsg fd m \<Rightarrow> (case msgs m of Some r \<Rightarrow> msgs(m \<mapsto> r\<lparr>rm_namelen := n\<rparr>) | None \<Rightarrow> msgs)
      | _ \<Rightarrow> msgs)"

inductive ring_step :: "(int \<Rightarrow> byte list) \<Rightarrow> 'p ring \<Rightarrow> 'p ring \<Rightarrow> bool" for peername where
  issue: "ring_issue req p s = Some t \<Longrightarrow> ring_step peername s t"
| cancel: "ring_cancel fd s = Some t \<Longrightarrow> ring_step peername s t"
| wake_up: "ring_step peername s (ring_wake_up s)"
| poll: "ring_step peername s (snd (ring_poll nanosec r ec s))"
| kernel: "rg_kernel s = xs @ e # ys \<Longrightarrow> sq_prep e \<noteq> PrepWakeUpRead \<Longrightarrow>
    ring_step peername s (s\<lparr>rg_kernel := xs @ ys, rg_cq := rg_cq s @ [\<lparr>cq_data = sq_data e, cq_res = res\<rparr>],
                           ih_msg := set_namelen (sq_prep e) n (ih_msg s)\<rparr>)"
| kernel_wake_up: "rg_kernel s = xs @ e # ys \<Longrightarrow> sq_prep e = PrepWakeUpRead \<Longrightarrow> 0 < rg_event s \<Longrightarrow>
    ring_step peername s (s\<lparr>rg_kernel := xs @ ys, rg_cq := rg_cq s @ [\<lparr>cq_data = sq_data e, cq_res = 8\<rparr>],
                           rg_event := 0\<rparr>)"
| deliver: "next_cqe peername s = Some t \<Longrightarrow> ring_step peername s t"

abbreviation ring_steps :: "(int \<Rightarrow> byte list) \<Rightarrow> 'p ring \<Rightarrow> 'p ring \<Rightarrow> bool" where
  "ring_steps peername \<equiv> (ring_step peername)\<^sup>*\<^sup>*"

subsection \<open>The invariant\<close>

text \<open>
  A context is pending from the moment its entry is written until its callback runs. The two
  internal contexts are numbers 0 (the wake-up) and 1.
\<close>

definition pending_data :: "'p ring \<Rightarrow> nat multiset" where
  "pending_data s = mset (map sq_data (rg_sq s)) + mset (map sq_data (rg_kernel s)) + mset (map cq_data (rg_cq s))"

definition user_data :: "nat multiset \<Rightarrow> nat multiset" where
  "user_data M = {#a \<in># M. Suc 0 < a#}"

definition ctx_wf :: "'p ring \<Rightarrow> nat \<Rightarrow> 'p io_ctx \<Rightarrow> bool" where
  "ctx_wf s a c \<longleftrightarrow> a < ih_next s \<and> ic_op c \<noteq> OpNoop \<and> ic_cb c = UserCb
     \<and> (\<exists>p. ih_user s a = Some p
          \<and> (if is_msg_op (ic_op c)
             then \<exists>m r. ic_ptr c = MsgPtr m \<and> ih_msg s m = Some r \<and> rm_ptr r = p \<and> rm_ctx r = a
             else ic_ptr c = UserPtr p))"

definition call_wf :: "'p ring \<Rightarrow> 'p io_call \<Rightarrow> bool" where
  "call_wf s k \<longleftrightarrow> (Suc 0 < ca_ctx k \<longrightarrow> ca_ctx k < ih_next s
     \<and> (\<exists>p. ih_user s (ca_ctx k) = Some p
          \<and> (if is_error (ca_ec k) \<and> is_msg_op (ca_op k) then \<exists>m. ca_ptr k = MsgPtr m
             else ca_ptr k = UserPtr p)))"

definition ring_heap_inv :: "'p ring \<Rightarrow> bool" where
  "ring_heap_inv s \<longleftrightarrow> rg_wake s = 0 \<and> rg_empty s = Suc 0 \<and> Suc 0 < ih_next s
     \<and> (\<exists>c. ih_ctx s 0 = Some c \<and> ic_op c = OpNoop \<and> ic_cb c = WakeUpCb)
     \<and> (\<exists>c. ih_ctx s (Suc 0) = Some c \<and> ic_op c = OpNoop \<and> ic_cb c = EmptyCb)
     \<and> (\<forall>a c. Suc 0 < a \<longrightarrow> ih_ctx s a = Some c \<longrightarrow> ctx_wf s a c)
     \<and> (\<forall>m r. ih_msg s m = Some r \<longrightarrow> m < ih_next s)
     \<and> (\<forall>k \<in> set (rg_calls s). call_wf s k)"

definition ring_count_inv :: "'p ring \<Rightarrow> bool" where
  "ring_count_inv s \<longleftrightarrow> count (pending_data s) 0 = 1
     \<and> (\<forall>a. Suc 0 < a \<longrightarrow> count (pending_data s) a = (if a \<in> dom (ih_ctx s) then 1 else 0))
     \<and> rg_io_num s = of_nat (size (user_data (pending_data s)))
     \<and> distinct (ih_issued s) \<and> (\<forall>a \<in> set (ih_issued s). Suc 0 < a \<and> a < ih_next s)
     \<and> mset (ih_issued s) = user_data (pending_data s) + user_data (mset (map ca_ctx (rg_calls s)))"

definition ring_inv :: "'p ring \<Rightarrow> bool" where
  "ring_inv s \<longleftrightarrow> ring_heap_inv s \<and> ring_count_inv s"

lemma heap_invD:
  assumes "ring_heap_inv s"
  shows "rg_wake s = 0" and "rg_empty s = Suc 0" and "Suc 0 < ih_next s"
    and "\<exists>c. ih_ctx s 0 = Some c \<and> ic_op c = OpNoop \<and> ic_cb c = WakeUpCb"
    and "\<exists>c. ih_ctx s (Suc 0) = Some c \<and> ic_op c = OpNoop \<and> ic_cb c = EmptyCb"
    and "\<And>a c. Suc 0 < a \<Longrightarrow> ih_ctx s a = Some c \<Longrightarrow> ctx_wf s a c"
    and "\<And>m r. ih_msg s m = Some r \<Longrightarrow> m < ih_next s"
    and "\<And>k. k \<in> set (rg_calls s) \<Longrightarrow> call_wf s k"
  using assms unfolding ring_heap_inv_def by simp_all

lemma count_invD:
  assumes "ring_count_inv s"
  shows "count (pending_data s) 0 = 1"
    and "\<And>a. Suc 0 < a \<Longrightarrow> count (pending_data s) a = (if a \<in> dom (ih_ctx s) then 1 else 0)"
    and "rg_io_num s = of_nat (size (user_data (pending_data s)))"
    and "distinct (ih_issued s)" and "\<forall>a \<in> set (ih_issued s). Suc 0 < a \<and> a < ih_next s"
    and "mset (ih_issued s) = user_data (pending_data s) + user_data (mset (map ca_ctx (rg_calls s)))"
  using assms unfolding ring_count_inv_def by simp_all

subsection \<open>Issuing\<close>

lemma issue_spec:
  assumes "ring_issue req p s = Some t"
  shows "\<exists>ioc h prep. fresh_ctx p ioc s h \<and> length (rg_sq s) < rg_entries s
     \<and> t = h\<lparr>rg_io_num := rg_io_num s + 1, rg_sq := rg_sq s @ [\<lparr>sq_prep = prep, sq_data = ioc\<rparr>]\<rparr>"
proof -
  have frame: "rg_io_num h = rg_io_num s \<and> rg_sq h = rg_sq s \<and> rg_entries h = rg_entries s"
    if "fresh_ctx p ioc s h" for ioc h
  proof -
    have "h = s\<lparr>ih_ctx := ih_ctx h, ih_msg := ih_msg h, ih_next := ih_next h,
            ih_issued := ih_issued h, ih_user := ih_user h\<rparr>" (is "h = ?h")
      using that unfolding fresh_ctx_def by (elim conjE)
    then have "rg_io_num h = rg_io_num ?h" "rg_sq h = rg_sq ?h" "rg_entries h = rg_entries ?h" by simp_all
    then show ?thesis by simp
  qed
  have put: ?thesis if f: "fresh_ctx p ioc s h" and "put_sqe prep ioc (count_io h) = Some t" for ioc h prep
    using that frame [OF f] by (auto simp: put_sqe_def count_io_def split: if_splits)
  note rules = ring_write_file_def ring_read_file_def ring_accept_def ring_connect_def ring_send_def
    ring_receive_def ring_send_to_def ring_receive_from_def
  have "\<exists>ioc h prep. fresh_ctx p ioc s h \<and> put_sqe prep ioc (count_io h) = Some t"
  proof (cases req)
    case (WriteFileReq fd b n off)
    then show ?thesis
      using assms svc_fresh(1) [where p = p and h = s and impl = "ring_write_file fd off"] by (auto simp: rules) metis
  next
    case (ReadFileReq fd b n off)
    then show ?thesis
      using assms svc_fresh(2) [where p = p and h = s and impl = "ring_read_file fd off"] by (auto simp: rules) metis
  next
    case (AcceptReq fd)
    then show ?thesis
      using assms svc_fresh(3) [where p = p and h = s and impl = "ring_accept fd"] by (auto simp: rules) metis
  next
    case (ConnectReq fd a)
    then show ?thesis
      using assms svc_fresh(4) [where p = p and h = s and impl = "ring_connect fd"] by (auto simp: rules) metis
  next
    case (SendReq fd b n)
    then show ?thesis
      using assms svc_fresh(5) [where p = p and h = s and impl = "ring_send fd"] by (auto simp: rules) metis
  next
    case (ReceiveReq fd b n)
    then show ?thesis
      using assms svc_fresh(6) [where p = p and h = s and impl = "ring_receive fd"] by (auto simp: rules) metis
  next
    case (SendToReq fd a b n)
    then show ?thesis
      using assms svc_fresh(7) [where p = p and h = s and impl = "ring_send_to fd"] by (auto simp: rules) metis
  next
    case (ReceiveFromReq fd b n)
    then show ?thesis
      using assms svc_fresh(8) [where p = p and h = s and impl = "ring_receive_from fd"] by (auto simp: rules) metis
  qed
  then show ?thesis using put by blast
qed

subsection \<open>Every step keeps the invariant\<close>

lemma ctx_wf_mono:
  assumes "ctx_wf s a c" and "ih_next s \<le> ih_next t" and "\<And>b. b < ih_next s \<Longrightarrow> ih_user t b = ih_user s b"
    and "\<And>m r. ih_msg s m = Some r \<Longrightarrow> rm_ctx r = a \<Longrightarrow>
           \<exists>r'. ih_msg t m = Some r' \<and> rm_ptr r' = rm_ptr r \<and> rm_ctx r' = rm_ctx r"
  shows "ctx_wf t a c"
proof -
  obtain p where p: "a < ih_next s" "ic_op c \<noteq> OpNoop" "ic_cb c = UserCb" "ih_user s a = Some p"
    "if is_msg_op (ic_op c)
     then \<exists>m r. ic_ptr c = MsgPtr m \<and> ih_msg s m = Some r \<and> rm_ptr r = p \<and> rm_ctx r = a
     else ic_ptr c = UserPtr p"
    using assms(1) unfolding ctx_wf_def by blast
  have "if is_msg_op (ic_op c)
     then \<exists>m r. ic_ptr c = MsgPtr m \<and> ih_msg t m = Some r \<and> rm_ptr r = p \<and> rm_ctx r = a
     else ic_ptr c = UserPtr p"
  proof (cases "is_msg_op (ic_op c)")
    case True
    with p(5) obtain m r where "ic_ptr c = MsgPtr m" "ih_msg s m = Some r" "rm_ptr r = p" "rm_ctx r = a"
      by auto
    with assms(4) [of m r] True show ?thesis by auto
  qed (use p(5) in simp)
  with p(1-4) assms(2,3) show ?thesis unfolding ctx_wf_def by auto
qed

lemma call_wf_mono:
  "call_wf s k \<Longrightarrow> ih_next s \<le> ih_next t \<Longrightarrow> (\<And>b. b < ih_next s \<Longrightarrow> ih_user t b = ih_user s b) \<Longrightarrow> call_wf t k"
  by (auto simp: call_wf_def)

lemma heap_inv_cong:
  assumes "ring_heap_inv s" and "ih_ctx t = ih_ctx s" "ih_next t = ih_next s" "ih_user t = ih_user s"
    "rg_wake t = rg_wake s" "rg_empty t = rg_empty s" "rg_calls t = rg_calls s" "dom (ih_msg t) = dom (ih_msg s)"
    and "\<And>m r. ih_msg s m = Some r \<Longrightarrow> \<exists>r'. ih_msg t m = Some r' \<and> rm_ptr r' = rm_ptr r \<and> rm_ctx r' = rm_ctx r"
  shows "ring_heap_inv t"
proof -
  have "ctx_wf t a c" if "Suc 0 < a" "ih_ctx t a = Some c" for a c
    by (rule ctx_wf_mono [of s a c t]) (use assms that in \<open>auto simp: ring_heap_inv_def\<close>)
  moreover have "call_wf t k" if "k \<in> set (rg_calls t)" for k
    by (rule call_wf_mono [of s k t]) (use assms that in \<open>auto simp: ring_heap_inv_def\<close>)
  moreover have "m < ih_next t" if "ih_msg t m = Some r" for m r
  proof -
    have "m \<in> dom (ih_msg s)" using assms(8) that by blast
    then show ?thesis using assms(1,3) unfolding ring_heap_inv_def by auto
  qed
  ultimately show ?thesis using assms(1-7) unfolding ring_heap_inv_def by simp
qed

lemma count_inv_cong:
  "ring_count_inv s \<Longrightarrow> pending_data t = pending_data s \<Longrightarrow> ih_ctx t = ih_ctx s \<Longrightarrow> ih_next t = ih_next s \<Longrightarrow>
   rg_io_num t = rg_io_num s \<Longrightarrow> ih_issued t = ih_issued s \<Longrightarrow> rg_calls t = rg_calls s \<Longrightarrow> ring_count_inv t"
  by (simp add: ring_count_inv_def)

lemma ring_inv_issue:
  assumes inv: "ring_inv s" and step: "ring_issue req p s = Some t"
  shows "ring_inv t"
proof -
  obtain ioc h prep where f: "fresh_ctx p ioc s h"
    and t: "t = h\<lparr>rg_io_num := rg_io_num s + 1, rg_sq := rg_sq s @ [\<lparr>sq_prep = prep, sq_data = ioc\<rparr>]\<rparr>"
    using issue_spec [OF step] by blast
  have heap: "ring_heap_inv s" and cnt: "ring_count_inv s" using inv by (simp_all add: ring_inv_def)
  have h: "h = s\<lparr>ih_ctx := ih_ctx h, ih_msg := ih_msg h, ih_next := ih_next h,
            ih_issued := ih_issued h, ih_user := ih_user h\<rparr>" (is "h = ?h")
    using f unfolding fresh_ctx_def by (elim conjE)
  have "rg_kernel h = rg_kernel ?h" "rg_cq h = rg_cq ?h" "rg_wake h = rg_wake ?h" "rg_empty h = rg_empty ?h"
    "rg_calls h = rg_calls ?h" using h by simp_all
  then have rg: "rg_kernel t = rg_kernel s" "rg_cq t = rg_cq s" "rg_wake t = rg_wake s"
    "rg_empty t = rg_empty s" "rg_calls t = rg_calls s" by (simp_all add: t)
  obtain c where c: "ioc = ih_next s" "ih_next s < ih_next t" "ih_ctx t = (ih_ctx s)(ioc \<mapsto> c)"
    "ih_issued t = ih_issued s @ [ioc]" "ih_user t = (ih_user s)(ioc \<mapsto> p)"
    "ic_op c \<noteq> OpNoop" "ic_cb c = UserCb"
    and msg: "if is_msg_op (ic_op c)
           then \<exists>m. ic_ptr c = MsgPtr m \<and> m = Suc (ih_next s) \<and> m < ih_next t
                  \<and> (\<exists>r. ih_msg t = (ih_msg s)(m \<mapsto> r) \<and> rm_ptr r = p \<and> rm_ctx r = ioc)
           else ic_ptr c = UserPtr p \<and> ih_msg t = ih_msg s"
    using f unfolding fresh_ctx_def t by auto
  have one: "Suc 0 < ih_next s" and below: "\<And>m r. ih_msg s m = Some r \<Longrightarrow> m < ih_next s"
    using heap by (auto simp: ring_heap_inv_def)
  have ext: "ih_msg t m = ih_msg s m" if "m < ih_next s" for m using msg that by (auto split: if_splits)
  have msgs: "ih_msg s m = Some r \<Longrightarrow> ih_msg t m = Some r" for m r using ext below by auto
  have wf: "ctx_wf t a d" if "Suc 0 < a" "ih_ctx t a = Some d" for a d
  proof (cases "a = ioc")
    case True
    then have "d = c" using that c(3) by simp
    with True c msg show ?thesis by (auto simp: ctx_wf_def split: if_splits)
  next
    case False
    then have "ctx_wf s a d" using that c(3) heap by (auto simp: ring_heap_inv_def)
    then show ?thesis by (rule ctx_wf_mono) (use c msgs in auto)
  qed
  have "m < ih_next t" if "ih_msg t m = Some r" for m r
    using that msg below [of m r] c(2) by (auto split: if_splits)
  moreover have "call_wf t k" if "k \<in> set (rg_calls t)" for k
    by (rule call_wf_mono [of s k t]) (use that rg(5) heap c in \<open>auto simp: ring_heap_inv_def\<close>)
  ultimately have "ring_heap_inv t" using heap wf c one rg unfolding ring_heap_inv_def by auto
  moreover have "ring_count_inv t"
  proof -
    have pend: "pending_data t = pending_data s + {#ioc#}" by (simp add: pending_data_def rg(1,2)) (simp add: t)
    have out: "ih_ctx s ioc = None"
    proof (rule ccontr)
      assume "ih_ctx s ioc \<noteq> None"
      then obtain d where "ih_ctx s ioc = Some d" by blast
      then have "ctx_wf s ioc d" using heap one c(1) by (auto simp: ring_heap_inv_def)
      then show False using c(1) by (simp add: ctx_wf_def)
    qed
    have u: "user_data (pending_data t) = user_data (pending_data s) + {#ioc#}"
      using one c(1) by (simp add: pend user_data_def)
    have "rg_io_num t = of_nat (size (user_data (pending_data t)))"
      using cnt unfolding u by (simp add: ring_count_inv_def t)
    moreover have "count (pending_data t) a = (if a \<in> dom (ih_ctx t) then 1 else 0)" if "Suc 0 < a" for a
      using cnt that out unfolding pend ring_count_inv_def c(3) by auto
    moreover have "count (pending_data t) 0 = 1" using cnt one c(1) unfolding pend ring_count_inv_def by simp
    moreover have "distinct (ih_issued t) \<and> (\<forall>a \<in> set (ih_issued t). Suc 0 < a \<and> a < ih_next t)"
      using cnt one c(1,2,4) unfolding ring_count_inv_def by auto
    moreover have "mset (ih_issued t) = user_data (pending_data t) + user_data (mset (map ca_ctx (rg_calls t)))"
      using cnt unfolding ring_count_inv_def u c(4) rg(5) by simp
    ultimately show ?thesis unfolding ring_count_inv_def by blast
  qed
  ultimately show ?thesis by (simp add: ring_inv_def)
qed

text \<open>A step that moves an entry along leaves the multiset of pending data as it was.\<close>

lemma ring_inv_pass:
  assumes "ring_inv s" and "pending_data t = pending_data s" and "ih_ctx t = ih_ctx s" "ih_next t = ih_next s"
    "ih_user t = ih_user s" "rg_wake t = rg_wake s" "rg_empty t = rg_empty s" "rg_calls t = rg_calls s"
    "rg_io_num t = rg_io_num s" "ih_issued t = ih_issued s" and "dom (ih_msg t) = dom (ih_msg s)"
    and "\<And>m r. ih_msg s m = Some r \<Longrightarrow> \<exists>r'. ih_msg t m = Some r' \<and> rm_ptr r' = rm_ptr r \<and> rm_ctx r' = rm_ctx r"
  shows "ring_inv t"
proof -
  have "ring_heap_inv t" by (rule heap_inv_cong [of s t]) (use assms in \<open>simp_all add: ring_inv_def\<close>)
  moreover have "ring_count_inv t"
    by (rule count_inv_cong [of s t]) (use assms in \<open>simp_all add: ring_inv_def\<close>)
  ultimately show ?thesis by (simp add: ring_inv_def)
qed

text \<open>So does one that adds or removes the internal contexts' entries, except for what it counts.\<close>

lemma ring_inv_internal:
  assumes inv: "ring_inv s" and "count (pending_data t) 0 = 1"
    and user: "\<And>a. Suc 0 < a \<Longrightarrow> count (pending_data t) a = count (pending_data s) a"
    and "ih_ctx t = ih_ctx s" "ih_next t = ih_next s" "ih_user t = ih_user s" "ih_msg t = ih_msg s"
    "rg_wake t = rg_wake s" "rg_empty t = rg_empty s" "rg_calls t = rg_calls s"
    "rg_io_num t = rg_io_num s" "ih_issued t = ih_issued s"
  shows "ring_inv t"
proof -
  have "ring_heap_inv t" by (rule heap_inv_cong [of s t]) (use assms in \<open>simp_all add: ring_inv_def\<close>)
  moreover have "user_data (pending_data t) = user_data (pending_data s)"
    by (rule multiset_eqI) (simp add: user_data_def user)
  ultimately show ?thesis using assms unfolding ring_inv_def ring_count_inv_def by simp
qed

lemma set_namelen_keeps:
  "dom (set_namelen prep n ms) = dom ms"
  "ms m = Some r \<Longrightarrow> \<exists>r'. set_namelen prep n ms m = Some r' \<and> rm_ptr r' = rm_ptr r \<and> rm_ctx r' = rm_ctx r"
  by (auto simp: set_namelen_def split: sqe_prep.splits option.splits)

lemma ring_inv_cancel: "ring_inv s \<Longrightarrow> ring_cancel fd s = Some t \<Longrightarrow> ring_inv t"
proof (rule ring_inv_internal [of s t])
  assume "ring_inv s" "ring_cancel fd s = Some t"
  then have "pending_data t = pending_data s + {#Suc 0#}" "count (pending_data s) 0 = 1"
    by (auto simp: ring_cancel_def put_sqe_def pending_data_def ring_inv_def ring_heap_inv_def
        ring_count_inv_def split: if_splits)
  then show "count (pending_data t) 0 = 1" "\<And>a. Suc 0 < a \<Longrightarrow> count (pending_data t) a = count (pending_data s) a"
    by auto
qed (auto simp: ring_cancel_def put_sqe_def split: if_splits)

lemma ring_inv_poll: "ring_inv s \<Longrightarrow> ring_inv (snd (ring_poll ns r ec s))"
  by (rule ring_inv_pass [of s]) (auto simp: ring_poll_def ring_submit_def pending_data_def Let_def)

lemma ring_inv_kernel:
  assumes "ring_inv s" and "rg_kernel s = xs @ e # ys"
  shows "ring_inv (s\<lparr>rg_kernel := xs @ ys, rg_cq := rg_cq s @ [\<lparr>cq_data = sq_data e, cq_res = res\<rparr>],
                    ih_msg := set_namelen (sq_prep e) n (ih_msg s)\<rparr>)"
  by (rule ring_inv_pass [OF assms(1)])
    (use assms(2) set_namelen_keeps in \<open>auto simp: pending_data_def set_namelen_keeps(1)\<close>)

lemma ring_inv_kernel_wake:
  assumes "ring_inv s" and "rg_kernel s = xs @ e # ys"
  shows "ring_inv (s\<lparr>rg_kernel := xs @ ys, rg_cq := rg_cq s @ [\<lparr>cq_data = sq_data e, cq_res = res\<rparr>],
                    rg_event := 0\<rparr>)"
  by (rule ring_inv_pass [OF assms(1)]) (use assms(2) in \<open>auto simp: pending_data_def\<close>)

text \<open>What a completion of a user's operation does.\<close>

lemma deliver_user:
  assumes heap: "ring_heap_inv s" and cq: "rg_cq s = e # es" and a: "Suc 0 < cq_data e"
    and c: "ih_ctx s (cq_data e) = Some c" and step: "next_cqe peername s = Some t"
  shows "\<exists>k. t = s\<lparr>rg_cq := es, rg_io_num := rg_io_num s - 1, ih_ctx := (ih_ctx s)(cq_data e := None),
       ih_msg := (if is_msg_op (ic_op c) \<and> 0 \<le> cq_res e then (ih_msg s)(the_msg (ic_ptr c) := None) else ih_msg s),
       rg_calls := rg_calls s @ [k]\<rparr>
     \<and> ca_ctx k = cq_data e \<and> ca_op k = ic_op c
     \<and> ca_ec k = (if cq_res e < 0 then make_system_error_code (- cq_res e) else no_error)
     \<and> ca_ptr k = (if is_msg_op (ic_op c) \<and> 0 \<le> cq_res e
                   then UserPtr (rm_ptr (the (ih_msg s (the_msg (ic_ptr c))))) else ic_ptr c)
     \<and> ca_res k = (if cq_res e < 0 then 0 else word_of_int (cq_res e))"
proof -
  have wf: "ctx_wf s (cq_data e) c" using heap a c unfolding ring_heap_inv_def by blast
  then have op: "ic_op c \<noteq> OpNoop" "ic_cb c = UserCb" by (simp_all add: ctx_wf_def)
  let ?k = "\<lparr>ca_ec = (if cq_res e < 0 then make_system_error_code (- cq_res e) else no_error),
      ca_ctx = cq_data e, ca_op = ic_op c,
      ca_ptr = (if is_msg_op (ic_op c) \<and> 0 \<le> cq_res e
                then UserPtr (rm_ptr (the (ih_msg s (the_msg (ic_ptr c))))) else ic_ptr c),
      ca_res = (if cq_res e < 0 then 0 else word_of_int (cq_res e))\<rparr>"
  have "t = s\<lparr>rg_cq := es, rg_io_num := rg_io_num s - 1, ih_ctx := (ih_ctx s)(cq_data e := None),
       ih_msg := (if is_msg_op (ic_op c) \<and> 0 \<le> cq_res e then (ih_msg s)(the_msg (ic_ptr c) := None) else ih_msg s),
       rg_calls := rg_calls s @ [?k]\<rparr>"
  proof (cases "cq_res e < 0")
    case True
    with step cq c op show ?thesis
      by (auto simp: next_cqe_def handle_cqe_def uncount_io_def finish_ctx_def the_ctx_def invoke_cb_def Let_def
          intro!: ring.equality)
  next
    case False
    with step cq c op show ?thesis
      by (cases "ic_op c") (auto simp: next_cqe_def handle_cqe_def uncount_io_def finish_ctx_def the_ctx_def
          invoke_cb_def Let_def is_msg_op_def intro!: ring.equality)
  qed
  then show ?thesis by (intro exI [of _ ?k]) simp
qed

lemma user_data_drop:
  "pending_data s = add_mset a (pending_data t) \<Longrightarrow> Suc 0 < a \<Longrightarrow>
   user_data (pending_data s) = add_mset a (user_data (pending_data t))"
  by (simp add: user_data_def)

lemma ring_inv_deliver_user:
  assumes inv: "ring_inv s" and cq: "rg_cq s = e # es" and a: "Suc 0 < cq_data e"
    and step: "next_cqe peername s = Some t"
  shows "ring_inv t"
proof -
  let ?a = "cq_data e"
  have heap: "ring_heap_inv s" and cnt: "ring_count_inv s" using inv by (simp_all add: ring_inv_def)
  have "0 < count (pending_data s) ?a" by (simp add: pending_data_def cq)
  then have "?a \<in> dom (ih_ctx s)" using cnt a unfolding ring_count_inv_def by (metis less_irrefl)
  then obtain c where c: "ih_ctx s ?a = Some c" by blast
  have wf: "ctx_wf s ?a c" using heap a c unfolding ring_heap_inv_def by blast
  obtain k where t: "t = s\<lparr>rg_cq := es, rg_io_num := rg_io_num s - 1, ih_ctx := (ih_ctx s)(?a := None),
       ih_msg := (if is_msg_op (ic_op c) \<and> 0 \<le> cq_res e then (ih_msg s)(the_msg (ic_ptr c) := None) else ih_msg s),
       rg_calls := rg_calls s @ [k]\<rparr>"
    and k: "ca_ctx k = ?a" "ca_op k = ic_op c"
      "ca_ec k = (if cq_res e < 0 then make_system_error_code (- cq_res e) else no_error)"
      "ca_ptr k = (if is_msg_op (ic_op c) \<and> 0 \<le> cq_res e
                   then UserPtr (rm_ptr (the (ih_msg s (the_msg (ic_ptr c))))) else ic_ptr c)"
    using deliver_user [OF heap cq a c step] by blast
  have wf_t: "ctx_wf t b d" if "Suc 0 < b" "ih_ctx t b = Some d" for b d
  proof (rule ctx_wf_mono [of s])
    show "ctx_wf s b d" using that heap unfolding ring_heap_inv_def by (auto simp: t split: if_splits)
    fix m r assume m: "ih_msg s m = Some r" "rm_ctx r = b"
    have "b \<noteq> ?a" using that(2) by (auto simp: t)
    then have "m \<noteq> the_msg (ic_ptr c)" if "is_msg_op (ic_op c)"
      using wf m that by (auto simp: ctx_wf_def the_msg_def)
    then show "\<exists>r'. ih_msg t m = Some r' \<and> rm_ptr r' = rm_ptr r \<and> rm_ctx r' = rm_ctx r"
      using m by (auto simp: t)
  qed (simp_all add: t)
  have call_k: "call_wf t k"
    using wf k by (auto simp: call_wf_def ctx_wf_def t the_msg_def)
  have "call_wf t j" if "j \<in> set (rg_calls s)" for j
    by (rule call_wf_mono [of s j t]) (use that heap in \<open>auto simp: ring_heap_inv_def t\<close>)
  with wf_t call_k heap a have "ring_heap_inv t"
    unfolding ring_heap_inv_def by (auto simp: t split: if_splits)
  moreover have "ring_count_inv t"
  proof -
    have pend: "pending_data s = add_mset ?a (pending_data t)" by (simp add: pending_data_def cq t)
    note ud = user_data_drop [OF pend a]
    have dom1: "count (pending_data s) ?a = 1" using cnt a c unfolding ring_count_inv_def by auto
    have "count (pending_data t) b = (if b \<in> dom (ih_ctx t) then 1 else 0)" if "Suc 0 < b" for b
    proof (cases "b = ?a")
      case True
      then show ?thesis using dom1 unfolding pend by (simp add: t)
    next
      case False
      then have "count (pending_data t) b = count (pending_data s) b" unfolding pend by simp
      then show ?thesis using False that cnt unfolding ring_count_inv_def by (simp add: t domIff)
    qed
    moreover have "count (pending_data t) 0 = 1" using cnt a unfolding pend ring_count_inv_def by auto
    moreover have "rg_io_num t = of_nat (size (user_data (pending_data t)))"
    proof -
      have "rg_io_num t = rg_io_num s - 1" by (simp add: t)
      moreover have "rg_io_num s = of_nat (size (user_data (pending_data s)))"
        using cnt unfolding ring_count_inv_def by blast
      ultimately show ?thesis by (simp add: ud)
    qed
    moreover have "mset (ih_issued t) = user_data (pending_data t) + user_data (mset (map ca_ctx (rg_calls t)))"
    proof -
      have "rg_calls t = rg_calls s @ [k]" "ih_issued t = ih_issued s" by (simp_all add: t)
      then show ?thesis using cnt a unfolding ring_count_inv_def ud by (simp add: k(1) user_data_def)
    qed
    moreover have "distinct (ih_issued t) \<and> (\<forall>a \<in> set (ih_issued t). Suc 0 < a \<and> a < ih_next t)"
      using cnt unfolding ring_count_inv_def by (simp add: t)
    ultimately show ?thesis unfolding ring_count_inv_def by blast
  qed
  ultimately show ?thesis by (simp add: ring_inv_def)
qed

text \<open>A completion of one of the two internal contexts.\<close>

lemma deliver_internal:
  assumes heap: "ring_heap_inv s" and cq: "rg_cq s = e # es" and a: "\<not> Suc 0 < cq_data e"
    and step: "next_cqe peername s = Some t"
  shows "\<exists>c c' k sq. ih_ctx s (cq_data e) = Some c \<and> ic_op c' = ic_op c \<and> ic_cb c' = ic_cb c \<and> ca_ctx k = cq_data e
     \<and> mset (map sq_data sq) = (if cq_data e = 0 then {#0#} else {#})
     \<and> t = s\<lparr>rg_cq := es, ih_ctx := (ih_ctx s)(cq_data e \<mapsto> c'), rg_calls := rg_calls s @ [k],
             rg_sq := rg_sq s @ sq\<rparr>"
proof -
  have "\<exists>c. ih_ctx s (cq_data e) = Some c \<and> ic_op c = OpNoop
      \<and> ic_cb c = (if cq_data e = 0 then WakeUpCb else EmptyCb)"
  proof -
    have "cq_data e = 0 \<or> cq_data e = Suc 0" using a by auto
    then show ?thesis using heap_invD(4,5) [OF heap] by (elim disjE) simp_all
  qed
  then obtain c where c: "ih_ctx s (cq_data e) = Some c" "ic_op c = OpNoop"
    "ic_cb c = (if cq_data e = 0 then WakeUpCb else EmptyCb)" by blast
  let ?c = "c\<lparr>ic_res := (if cq_res e < 0 then 0 else word_of_int (cq_res e))\<rparr>"
  let ?k = "\<lparr>ca_ec = (if cq_res e < 0 then make_system_error_code (- cq_res e) else no_error),
      ca_ctx = cq_data e, ca_op = OpNoop, ca_ptr = ic_ptr c, ca_res = ic_res ?c\<rparr>"
  let ?sq = "if cq_data e = 0 then [\<lparr>sq_prep = PrepWakeUpRead, sq_data = 0\<rparr>] else []"
  have w: "rg_wake s = 0" using heap by (simp add: ring_heap_inv_def)
  let ?s = "s\<lparr>rg_cq := es\<rparr>"
  have the_c: "the_ctx (cq_data e) ?s = c" by (simp add: the_ctx_def c)
  have un: "uncount_io (cq_data e) ?s = ?s" by (simp add: uncount_io_def the_c c(2))
  have fin: "finish_ctx peername (cq_res e) (cq_data e) ?s = (ca_ec ?k, ?s\<lparr>ih_ctx := (ih_ctx s)(cq_data e \<mapsto> ?c)\<rparr>)"
    by (simp add: finish_ctx_def the_c c(2))
  have "t = s\<lparr>rg_cq := es, ih_ctx := (ih_ctx s)(cq_data e \<mapsto> ?c), rg_calls := rg_calls s @ [?k],
             rg_sq := rg_sq s @ ?sq\<rparr>"
  proof -
    let ?u = "?s\<lparr>ih_ctx := (ih_ctx s)(cq_data e \<mapsto> ?c)\<rparr>"
    let ?v = "?u\<lparr>rg_calls := rg_calls s @ [?k]\<rparr>"
    have "the_ctx (cq_data e) ?u = ?c" by (simp add: the_ctx_def)
    then have cb: "invoke_cb (ca_ec ?k) (cq_data e) ?u = (if cq_data e = 0 then prep_wake_up ?v else Some ?v)"
      by (simp add: invoke_cb_def c(2,3) Let_def)
    have "next_cqe peername s = invoke_cb (ca_ec ?k) (cq_data e) ?u"
      by (simp add: next_cqe_def cq handle_cqe_def un fin Let_def)
    then have "(if cq_data e = 0 then prep_wake_up ?v else Some ?v) = Some t" using step cb by simp
    then show ?thesis
      by (cases "cq_data e = 0") (auto simp: prep_wake_up_def put_sqe_def w split: if_split_asm intro!: ring.equality)
  qed
  then show ?thesis
    by (intro exI [of _ c] exI [of _ ?c] exI [of _ ?k] exI [of _ ?sq] conjI) (simp_all add: c)
qed

lemma ring_inv_deliver_internal:
  assumes inv: "ring_inv s" and cq: "rg_cq s = e # es" and a: "\<not> Suc 0 < cq_data e"
    and step: "next_cqe peername s = Some t"
  shows "ring_inv t"
proof -
  have heap: "ring_heap_inv s" and cnt: "ring_count_inv s" using inv by (simp_all add: ring_inv_def)
  obtain c c' k sq where c: "ih_ctx s (cq_data e) = Some c" "ic_op c' = ic_op c" "ic_cb c' = ic_cb c"
    and k: "ca_ctx k = cq_data e"
    and sq: "mset (map sq_data sq) = (if cq_data e = 0 then {#0#} else {#})"
    and t: "t = s\<lparr>rg_cq := es, ih_ctx := (ih_ctx s)(cq_data e \<mapsto> c'), rg_calls := rg_calls s @ [k],
             rg_sq := rg_sq s @ sq\<rparr>"
    using deliver_internal [OF heap cq a step] by blast
  have keep: "ctx_wf t b d" if "Suc 0 < b" "ih_ctx t b = Some d" for b d
  proof (rule ctx_wf_mono [of s])
    show "ctx_wf s b d" using that a heap unfolding ring_heap_inv_def by (auto simp: t split: if_splits)
  qed (simp_all add: t)
  have calls: "call_wf t j" if "j \<in> set (rg_calls t)" for j
  proof (cases "j = k")
    case True
    then show ?thesis using a k by (simp add: call_wf_def)
  next
    case False
    then have "call_wf s j" using that heap by (auto simp: ring_heap_inv_def t)
    then show ?thesis by (rule call_wf_mono) (simp_all add: t)
  qed
  have zero: "\<exists>c. ih_ctx t 0 = Some c \<and> ic_op c = OpNoop \<and> ic_cb c = WakeUpCb"
    using heap c unfolding ring_heap_inv_def by (auto simp: t)
  have one: "\<exists>c. ih_ctx t (Suc 0) = Some c \<and> ic_op c = OpNoop \<and> ic_cb c = EmptyCb"
    using heap c unfolding ring_heap_inv_def by (auto simp: t)
  have rest: "rg_wake t = 0 \<and> rg_empty t = Suc 0 \<and> Suc 0 < ih_next t \<and> (\<forall>m r. ih_msg t m = Some r \<longrightarrow> m < ih_next t)"
    using heap unfolding ring_heap_inv_def by (simp add: t)
  have "ring_heap_inv t" using keep calls zero one rest unfolding ring_heap_inv_def by blast
  moreover have "ring_count_inv t"
  proof -
    have pend: "add_mset (cq_data e) (pending_data t)
        = pending_data s + (if cq_data e = 0 then {#0#} else {#})"
      using sq by (simp add: pending_data_def cq t)
    have user: "count (pending_data t) b = count (pending_data s) b" if "Suc 0 < b" for b
    proof -
      have "count (add_mset (cq_data e) (pending_data t)) b = count (pending_data t) b" using a that by auto
      then show ?thesis unfolding pend using that by (simp split: if_splits)
    qed
    have "count (add_mset (cq_data e) (pending_data t)) 0 = count (pending_data t) 0 + (if cq_data e = 0 then 1 else 0)"
      by simp
    then have z: "count (pending_data t) 0 = count (pending_data s) 0" unfolding pend by (simp split: if_splits)
    have ud: "user_data (pending_data t) = user_data (pending_data s)"
      by (rule multiset_eqI) (simp add: user_data_def user)
    have f: "rg_io_num t = rg_io_num s" "ih_issued t = ih_issued s" "ih_next t = ih_next s"
      "rg_calls t = rg_calls s @ [k]" by (simp_all add: t)
    have "user_data (mset (map ca_ctx (rg_calls t))) = user_data (mset (map ca_ctx (rg_calls s)))"
      using a by (simp add: f k user_data_def)
    moreover have "dom (ih_ctx t) = dom (ih_ctx s)" using c(1) by (auto simp: t)
    moreover have "\<forall>b. Suc 0 < b \<longrightarrow> count (pending_data t) b = (if b \<in> dom (ih_ctx s) then 1 else 0)"
      using count_invD(2) [OF cnt] user by simp
    moreover note count_invD(1,3-6) [OF cnt]
    ultimately show ?thesis unfolding ring_count_inv_def f(1-3) ud z by simp
  qed
  ultimately show ?thesis by (simp add: ring_inv_def)
qed

lemma ring_inv_new:
  assumes "ring_new ok n = Inr (Some s)"
  shows "ring_inv s"
proof -
  have s: "s = \<lparr>ih_ctx = [0 \<mapsto> blank_ctx OpNoop ServicePtr WakeUpCb, Suc 0 \<mapsto> blank_ctx OpNoop ServicePtr EmptyCb],
         ih_msg = Map.empty, ih_next = Suc (Suc 0), ih_issued = [], ih_user = Map.empty,
         rg_entries = n, rg_sq = [\<lparr>sq_prep = PrepWakeUpRead, sq_data = 0\<rparr>], rg_kernel = [], rg_cq = [], rg_io_num = 0,
         rg_event = efd_nonblock, rg_wake = 0, rg_empty = Suc 0, rg_calls = []\<rparr>"
    using assms by (auto simp: ring_new_def prep_wake_up_def put_sqe_def split: if_splits)
  show ?thesis
    by (auto simp: s ring_inv_def ring_heap_inv_def ring_count_inv_def pending_data_def user_data_def blank_ctx_def)
qed

lemma ring_inv_step: "ring_step peername s t \<Longrightarrow> ring_inv s \<Longrightarrow> ring_inv t"
proof (induction rule: ring_step.induct)
  case (wake_up s)
  then show ?case by (rule ring_inv_pass) (simp_all add: ring_wake_up_def pending_data_def)
next
  case (deliver s t)
  then obtain e es where "rg_cq s = e # es" by (auto simp: next_cqe_def split: list.splits)
  with deliver show ?case
    by (cases "Suc 0 < cq_data e") (auto intro: ring_inv_deliver_user ring_inv_deliver_internal)
qed (auto intro: ring_inv_issue ring_inv_cancel ring_inv_poll ring_inv_kernel ring_inv_kernel_wake)

interpretation rg: transition_system "\<lambda>s. ring_new ok n = Inr (Some s)" "ring_step peername" ring_inv
  by unfold_locales (auto intro: ring_inv_new ring_inv_step)

subsection \<open>Schedules\<close>

text \<open>The steps of a run by name; \<open>DoKernel i\<close> completes the \<open>i\<close>-th entry the kernel holds.\<close>

datatype 'p ring_cmd =
  DoIssue "'p io_request" 'p | DoCancel int | DoWakeUp | DoPoll nat int | DoKernel nat int nat | DoDeliver

fun ring_do :: "(int \<Rightarrow> byte list) \<Rightarrow> 'p ring_cmd \<Rightarrow> 'p ring \<Rightarrow> 'p ring option" where
  "ring_do peername (DoIssue req p) s = ring_issue req p s"
| "ring_do peername (DoCancel fd) s = ring_cancel fd s"
| "ring_do peername DoWakeUp s = Some (ring_wake_up s)"
| "ring_do peername (DoPoll ns r) s = Some (snd (ring_poll ns r no_error s))"
| "ring_do peername (DoKernel i res n) s =
     (if i < length (rg_kernel s) then
        (let e = rg_kernel s ! i
         in if sq_prep e \<noteq> PrepWakeUpRead
            then Some (s\<lparr>rg_kernel := take i (rg_kernel s) @ drop (Suc i) (rg_kernel s),
                         rg_cq := rg_cq s @ [\<lparr>cq_data = sq_data e, cq_res = res\<rparr>],
                         ih_msg := set_namelen (sq_prep e) n (ih_msg s)\<rparr>)
            else if 0 < rg_event s
            then Some (s\<lparr>rg_kernel := take i (rg_kernel s) @ drop (Suc i) (rg_kernel s),
                         rg_cq := rg_cq s @ [\<lparr>cq_data = sq_data e, cq_res = 8\<rparr>], rg_event := 0\<rparr>)
            else None)
      else None)"
| "ring_do peername DoDeliver s = next_cqe peername s"

abbreviation ring_schedule :: "(int \<Rightarrow> byte list) \<Rightarrow> 'p ring_cmd list \<Rightarrow> 'p ring \<Rightarrow> 'p ring option" where
  "ring_schedule peername \<equiv> run_schedule (ring_do peername)"

lemma ring_do_step: "ring_do peername c s = Some t \<Longrightarrow> ring_step peername s t"
proof (cases c)
  case (DoKernel i res n)
  assume do: "ring_do peername c s = Some t"
  then have i: "i < length (rg_kernel s)" by (simp add: DoKernel split: if_splits)
  note k = id_take_nth_drop [OF i]
  show ?thesis
  proof (cases "sq_prep (rg_kernel s ! i) = PrepWakeUpRead")
    case True
    with do i ring_step.kernel_wake_up [OF k True] show ?thesis
      by (simp add: DoKernel Let_def split: if_splits)
  next
    case False
    with do i ring_step.kernel [OF k False] show ?thesis by (auto simp: DoKernel Let_def)
  qed
qed (auto intro: ring_step.intros)

lemma ring_schedule_steps: "ring_schedule peername cs s = Some t \<Longrightarrow> ring_steps peername s t"
  using ring_do_step by (rule run_schedule_steps)

definition demo_ring :: "string ring" where
  "demo_ring = \<lparr>ih_ctx = [0 \<mapsto> blank_ctx OpNoop ServicePtr WakeUpCb, Suc 0 \<mapsto> blank_ctx OpNoop ServicePtr EmptyCb],
         ih_msg = Map.empty, ih_next = Suc (Suc 0), ih_issued = [], ih_user = Map.empty,
         rg_entries = 4, rg_sq = [\<lparr>sq_prep = PrepWakeUpRead, sq_data = 0\<rparr>], rg_kernel = [], rg_cq = [], rg_io_num = 0,
         rg_event = 2048, rg_wake = 0, rg_empty = Suc 0, rg_calls = []\<rparr>"

lemma demo_ring_new: "ring_new True 4 = Inr (Some demo_ring)"
  by (simp add: ring_new_def prep_wake_up_def put_sqe_def demo_ring_def efd_nonblock_def)

text \<open>A datagram that cannot be sent: the kernel completes the operation with an error.\<close>

definition failed_send_schedule :: "string ring_cmd list" where
  "failed_send_schedule = [DoIssue (SendToReq 3 [] 100 5) ''coroutine'', DoPoll 1000 0, DoKernel (Suc 0) (-111) 0, DoDeliver]"

definition failed_send_ring :: "string ring" where
  "failed_send_ring = demo_ring\<lparr>
     ih_msg := [Suc (Suc (Suc 0)) \<mapsto> \<lparr>rm_ctx = Suc (Suc 0), rm_namelen = 0, rm_ptr = ''coroutine''\<rparr>], ih_next := 4, ih_issued := [Suc (Suc 0)],
     ih_user := [Suc (Suc 0) \<mapsto> ''coroutine''], rg_sq := [], rg_kernel := [\<lparr>sq_prep = PrepWakeUpRead, sq_data = 0\<rparr>],
     rg_calls := [\<lparr>ca_ec = make_system_error_code 111, ca_ctx = Suc (Suc 0), ca_op = OpSendTo, ca_ptr = MsgPtr (Suc (Suc (Suc 0))), ca_res = 0\<rparr>]\<rparr>"

lemma failed_send_run: "ring_schedule peername failed_send_schedule demo_ring = Some failed_send_ring"
  by (simp add: failed_send_schedule_def failed_send_ring_def demo_ring_def svc_send_to_def new_ctx_def wrap_msg_def
      io_buf_def blank_ctx_def ring_send_to_def put_sqe_def count_io_def the_ctx_def the_msg_def ring_poll_def
      ring_submit_def set_namelen_def next_cqe_def handle_cqe_def uncount_io_def finish_ctx_def invoke_cb_def
      Let_def etime_def eagain_def eintr_def)

text \<open>A batch of operations issued without a \<^verbatim>\<open>poll\<close> in between.\<close>

fun issue_batch :: "('p io_request \<times> 'p) list \<Rightarrow> 'p ring \<Rightarrow> 'p ring option" where
  "issue_batch [] s = Some s"
| "issue_batch ((req, p) # reqs) s =
     (case ring_issue req p s of None \<Rightarrow> None | Some t \<Rightarrow> issue_batch reqs t)"

lemma ring_issue_room:
  "(ring_issue req p s \<noteq> None) = (length (rg_sq s) < rg_entries s)"
  by (cases req) (auto simp: svc_defs new_ctx_def wrap_msg_def put_sqe_def count_io_def ring_write_file_def
      ring_read_file_def ring_accept_def ring_connect_def ring_send_def ring_receive_def ring_send_to_def
      ring_receive_from_def)

lemma ring_issue_length:
  assumes "ring_issue req p s = Some t"
  shows "length (rg_sq t) = Suc (length (rg_sq s)) \<and> rg_entries t = rg_entries s"
  using assms
  by (cases req) (auto simp: svc_defs new_ctx_def wrap_msg_def put_sqe_def count_io_def ring_write_file_def
      ring_read_file_def ring_accept_def ring_connect_def ring_send_def ring_receive_def ring_send_to_def
      ring_receive_from_def split: if_splits)

lemma issue_batch_room:
  "length (rg_sq s) \<le> rg_entries s \<Longrightarrow>
   (issue_batch reqs s \<noteq> None) = (length (rg_sq s) + length reqs \<le> rg_entries s)"
proof (induction reqs arbitrary: s)
  case (Cons r reqs)
  obtain req p where r: "r = (req, p)" by fastforce
  show ?case
  proof (cases "ring_issue req p s")
    case None
    then have "\<not> length (rg_sq s) < rg_entries s" using ring_issue_room [of req p s] by simp
    then show ?thesis by (simp add: r None)
  next
    case (Some t)
    then have "length (rg_sq s) < rg_entries s" using ring_issue_room [of req p s] by simp
    then show ?thesis using Cons.IH [of t] ring_issue_length [OF Some] by (simp add: r Some)
  qed
qed simp

lemma user_data_count: "count (user_data M) a = (if Suc 0 < a then count M a else 0)"
  by (simp add: user_data_def)

lemma issued_once:
  assumes cnt: "ring_count_inv s" and a: "a \<in> set (ih_issued s)"
  shows "count (pending_data s) a + count (mset (map ca_ctx (rg_calls s))) a = 1
      \<and> (a \<in># pending_data s \<longleftrightarrow> a \<in> dom (ih_ctx s))"
proof -
  have u: "Suc 0 < a" using count_invD(5) [OF cnt] a by blast
  have "count (mset (ih_issued s)) a = 1" using count_invD(4) [OF cnt] a
    by (simp add: distinct_count_atmost_1)
  then have "count (user_data (pending_data s) + user_data (mset (map ca_ctx (rg_calls s)))) a = 1"
    using count_invD(6) [OF cnt] by simp
  then have "count (pending_data s) a + count (mset (map ca_ctx (rg_calls s))) a = 1"
    using u by (simp add: user_data_count)
  moreover have "a \<in># pending_data s \<longleftrightarrow> a \<in> dom (ih_ctx s)"
    unfolding count_greater_zero_iff [symmetric] count_invD(2) [OF cnt u] by simp
  ultimately show ?thesis by blast
qed

subsection \<open>Properties\<close>

text \<open>
  Property C11: every operation that was issued is pending in exactly one place (submission queue,
  kernel, completion queue) or its callback has run, once; never both. The context of a pending
  operation is alive, and \<^verbatim>\<open>io_num_\<close> is the number of pending operations.
\<close>

theorem ring_completes_each_operation_once:
  assumes "ring_new ok n = Inr (Some s\<^sub>0)" and "ring_steps peername s\<^sub>0 s"
  shows "(\<forall>a \<in> set (ih_issued s).
            count (pending_data s) a + count (mset (map ca_ctx (rg_calls s))) a = 1
          \<and> (a \<in># pending_data s \<longleftrightarrow> a \<in> dom (ih_ctx s)))
     \<and> rg_io_num s = of_nat (size (user_data (pending_data s)))"
proof -
  have cnt: "ring_count_inv s" using rg.reachable_inv [OF assms] by (simp add: ring_inv_def)
  then show ?thesis using issued_once count_invD(3) [OF cnt] by blast
qed

theorem ring_completes_each_operation_once_witness:
  "count (mset (map ca_ctx (rg_calls failed_send_ring))) (Suc (Suc 0)) = 1 \<and> rg_io_num failed_send_ring = 0"
proof -
  have "Suc (Suc 0) \<in> set (ih_issued failed_send_ring)" by (simp add: failed_send_ring_def)
  then have "count (pending_data failed_send_ring) (Suc (Suc 0))
      + count (mset (map ca_ctx (rg_calls failed_send_ring))) (Suc (Suc 0)) = 1"
    using ring_completes_each_operation_once [OF demo_ring_new ring_schedule_steps [OF failed_send_run]] by blast
  then show ?thesis by (simp add: pending_data_def failed_send_ring_def demo_ring_def)
qed

text \<open>
  A wake-up sent from another thread is never missed. The read of the wake-up
  descriptor is always armed exactly once; so after a wake-up, a \<^verbatim>\<open>poll\<close> that does not
  return at once has, or can get from the kernel, a completion to return with.
\<close>

theorem ring_wake_up_is_seen:
  assumes "ring_new ok n = Inr (Some s\<^sub>0)" and "ring_steps peername s\<^sub>0 s"
    and "t = snd (ring_poll nanosec r ec (ring_wake_up s))" and "nanosec \<noteq> 0"
  shows "count (pending_data t) (rg_wake t) = 1
     \<and> (\<exists>u e. (u = t \<or> ring_step peername t u) \<and> e \<in> set (rg_cq u) \<and> cq_data e = rg_wake u)"
proof -
  have steps: "ring_steps peername s\<^sub>0 t"
    using assms(2,3) ring_step.wake_up [of peername s] ring_step.poll [of peername "ring_wake_up s" nanosec r ec]
    by (metis rtranclp.rtrancl_into_rtrancl)
  note inv = rg.reachable_inv [OF assms(1) steps]
  have w: "rg_wake t = 0" and one: "count (pending_data t) 0 = 1"
    using inv heap_invD(1) count_invD(1) by (auto simp: ring_inv_def)
  have t: "rg_sq t = []" "0 < rg_event t"
    using assms(3,4) by (auto simp: ring_poll_def ring_submit_def ring_wake_up_def Let_def)
  have "\<exists>u e. (u = t \<or> ring_step peername t u) \<and> e \<in> set (rg_cq u) \<and> cq_data e = rg_wake u"
  proof (cases "0 \<in># mset (map cq_data (rg_cq t))")
    case True
    then obtain e where "e \<in> set (rg_cq t)" "cq_data e = rg_wake t" by (auto simp: w)
    then show ?thesis by blast
  next
    case False
    have "0 \<in># mset (map sq_data (rg_kernel t))"
    proof (rule ccontr)
      assume "0 \<notin># mset (map sq_data (rg_kernel t))"
      with False have "count (mset (map sq_data (rg_kernel t))) 0 = 0" "count (mset (map cq_data (rg_cq t))) 0 = 0"
        by (simp_all only: not_in_iff)
      with one t(1) show False by (simp add: pending_data_def)
    qed
    then obtain e where e: "e \<in> set (rg_kernel t)" "sq_data e = 0" by auto
    then obtain xs ys where k: "rg_kernel t = xs @ e # ys" by (meson split_list)
    let ?e = "\<lparr>cq_data = sq_data e, cq_res = 8\<rparr>"
    have "\<exists>u. ring_step peername t u \<and> rg_cq u = rg_cq t @ [?e] \<and> rg_wake u = rg_wake t"
    proof (cases "sq_prep e = PrepWakeUpRead")
      case True
      show ?thesis by (rule exI, rule conjI, rule ring_step.kernel_wake_up [OF k True t(2)]) simp
    next
      case False
      show ?thesis by (rule exI, rule conjI, rule ring_step.kernel [OF k False, where res = 8]) simp
    qed
    then obtain u where "ring_step peername t u" "rg_cq u = rg_cq t @ [?e]" "rg_wake u = rg_wake t" by blast
    then show ?thesis using e(2) w by (intro exI [of _ u] exI [of _ ?e]) simp
  qed
  with w one show ?thesis by simp
qed

theorem ring_wake_up_is_seen_witness:
  "\<exists>u e. (u = snd (ring_poll 5 0 no_error (ring_wake_up demo_ring))
            \<or> ring_step (\<lambda>_. []) (snd (ring_poll 5 0 no_error (ring_wake_up demo_ring))) u)
       \<and> e \<in> set (rg_cq u) \<and> cq_data e = rg_wake u"
  using ring_wake_up_is_seen [OF demo_ring_new rtranclp.rtrancl_refl refl,
      where peername = "\<lambda>_. []" and nanosec = 5] by simp

text \<open>
  A user's callback is given the user's own pointer, except when a
  \<^verbatim>\<open>send_to\<close> or \<^verbatim>\<open>receive_from\<close> completes with an error: then, and only
  then, it is given the address of the internal \<^verbatim>\<open>ResumeWithMsg\<close> instead.
\<close>

theorem ring_callback_pointer:
  assumes "ring_new ok n = Inr (Some s\<^sub>0)" and "ring_steps peername s\<^sub>0 s"
    and "k \<in> set (rg_calls s)" and "Suc 0 < ca_ctx k"
  shows "\<exists>p. ih_user s (ca_ctx k) = Some p
     \<and> (ca_ptr k = UserPtr p \<longleftrightarrow> \<not> (is_error (ca_ec k) \<and> is_msg_op (ca_op k)))"
proof -
  have "ring_heap_inv s" using rg.reachable_inv [OF assms(1,2)] by (simp add: ring_inv_def)
  then have "call_wf s k" using heap_invD(8) assms(3) by blast
  then show ?thesis using assms(4) by (auto simp: call_wf_def split: if_splits)
qed

theorem ring_callback_pointer_witness:
  "\<exists>k \<in> set (rg_calls failed_send_ring). is_error (ca_ec k)
     \<and> ih_user failed_send_ring (ca_ctx k) = Some ''coroutine'' \<and> ca_ptr k \<noteq> UserPtr ''coroutine''"
proof -
  let ?k = "\<lparr>ca_ec = make_system_error_code 111, ca_ctx = Suc (Suc 0), ca_op = OpSendTo,
      ca_ptr = MsgPtr (Suc (Suc (Suc 0))), ca_res = 0\<rparr> :: string io_call"
  have k: "?k \<in> set (rg_calls failed_send_ring)" "Suc 0 < ca_ctx ?k" by (simp_all add: failed_send_ring_def)
  from ring_callback_pointer [OF demo_ring_new ring_schedule_steps [OF failed_send_run] k]
  obtain p where p: "ih_user failed_send_ring (ca_ctx ?k) = Some p"
    "ca_ptr ?k = UserPtr p \<longleftrightarrow> \<not> (is_error (ca_ec ?k) \<and> is_msg_op (ca_op ?k))" by blast
  have "p = ''coroutine''" using p(1) by (simp add: failed_send_ring_def)
  then show ?thesis
    using p k(1) by (intro bexI [of _ ?k]) (simp_all add: is_msg_op_def failed_send_ring_def)
qed

text \<open>
  A ring of \<open>n\<close> entries takes at most \<open>n - 1\<close> operations before the first
  \<^verbatim>\<open>poll\<close>, since the wake-up's read has one of the entries; with one more the code
  dereferences the null pointer that \<^verbatim>\<open>io_uring_get_sqe\<close> returns.
\<close>

theorem ring_overflow_dereferences_null:
  assumes "ring_new ok n = Inr (Some s)"
  shows "issue_batch reqs s = None \<longleftrightarrow> n \<le> length reqs"
proof -
  have s: "length (rg_sq s) = 1" "rg_entries s = n" "0 < n"
    using assms by (auto simp: ring_new_def prep_wake_up_def put_sqe_def split: if_splits)
  then show ?thesis using issue_batch_room [of s reqs] by auto
qed

theorem ring_overflow_dereferences_null_witness:
  "issue_batch [(AcceptReq 3, ''a''), (SendReq 4 0 1, ''b''), (SendReq 5 0 1, ''c''), (SendReq 6 0 1, ''d'')] demo_ring = None
   \<and> issue_batch [(AcceptReq 3, ''a''), (SendReq 4 0 1, ''b''), (SendReq 5 0 1, ''c'')] demo_ring \<noteq> None"
  by (simp only: ring_overflow_dereferences_null [OF demo_ring_new]) simp

text \<open>
  The destructor leaks exactly the contexts of the operations whose callback has not run, and nothing will
  ever run it: the coroutines that wait for them stay suspended.
\<close>

theorem ring_dtor_leaks_pending:
  assumes "ring_new ok n = Inr (Some s\<^sub>0)" and "ring_steps peername s\<^sub>0 s"
  shows "dom (ih_ctx (ring_dtor s)) = set (ih_issued s) - set (map ca_ctx (rg_calls s))
     \<and> pending_data (ring_dtor s) = {#} \<and> next_cqe peername (ring_dtor s) = None"
proof -
  note inv = rg.reachable_inv [OF assms]
  have cnt: "ring_count_inv s" and w: "rg_wake s = 0" "rg_empty s = Suc 0"
    using inv heap_invD(1,2) by (auto simp: ring_inv_def)
  have alive: "a \<in> dom (ih_ctx s) \<longleftrightarrow> a \<in># pending_data s" if "Suc 0 < a" for a
    unfolding count_greater_zero_iff [symmetric] count_invD(2) [OF cnt that] by simp
  have here: "a \<in> set (ih_issued s) \<longleftrightarrow> Suc 0 < a \<and> (a \<in># pending_data s \<or> a \<in> set (map ca_ctx (rg_calls s)))" for a
    unfolding set_mset_mset [symmetric] count_invD(6) [OF cnt] by (auto simp: user_data_def)
  have once: "a \<notin> set (map ca_ctx (rg_calls s))" if a: "a \<in># pending_data s" "Suc 0 < a" for a
    using issued_once [OF cnt, of a] here [of a] a
    by (metis One_nat_def add_is_1 count_greater_zero_iff less_numeral_extra(3) set_mset_mset)
  have "a \<in> dom (ih_ctx (ring_dtor s)) \<longleftrightarrow> a \<in> set (ih_issued s) - set (map ca_ctx (rg_calls s))" for a
  proof (cases "Suc 0 < a")
    case True
    then show ?thesis using alive here once by (auto simp: ring_dtor_def w)
  next
    case False
    then have "a = 0 \<or> a = Suc 0" by auto
    then show ?thesis using here [of a] by (auto simp: ring_dtor_def w)
  qed
  then show ?thesis by (auto simp: ring_dtor_def pending_data_def next_cqe_def)
qed

end
