(* ===== verification/Handle_Owner.thy ===== *)
theory Handle_Owner
  imports Magio_Prelude
begin

section \<open>Objects that own a descriptor\<close>

text \<open>
  \<^verbatim>\<open>RandomAccessFile\<close>, \<^verbatim>\<open>File\<close>, the two pipes and \<^verbatim>\<open>Socket\<close> are move-only owners of a
  descriptor of the operating system, -1 being none. Each of them provides the operations of
  this record; what they have in common is stated once, as a locale, for any program that
  creates, moves, assigns, closes and destroys such objects.
\<close>

definition kInvalidHandle :: sock_handle where
  "kInvalidHandle = -1"

text \<open>
  \<open>oo_adopt fd\<close> is the object a successful open gives for \<open>fd\<close>; moves return both objects, the
  target first; \<open>oo_self\<close> is an assignment of an object to itself; \<open>oo_close\<close> is \<^verbatim>\<open>close\<close>,
  which the destructor calls too, with the descriptor it passes to the system.
\<close>

record 'o owner_ops =
  oo_handle :: "'o \<Rightarrow> sock_handle"
  oo_default :: 'o
  oo_adopt :: "sock_handle \<Rightarrow> 'o"
  oo_move_ctor :: "'o \<Rightarrow> 'o \<times> 'o"
  oo_move_assign :: "'o \<Rightarrow> 'o \<Rightarrow> 'o \<times> 'o"
  oo_self :: "'o \<Rightarrow> 'o"
  oo_close :: "'o \<Rightarrow> sock_handle option \<times> 'o"

text \<open>
  A program's objects by name, the descriptors that are open, the number of times a descriptor
  was closed that was not open, and the descriptors that assignments have overwritten.
\<close>

record 'o own_sys =
  ow_objs :: "nat \<rightharpoonup> 'o"
  ow_open :: "sock_handle set"
  ow_bad :: nat
  ow_lost :: "sock_handle list"

datatype own_cmd =
  NewObj nat | OpenObj nat sock_handle | MoveNew nat nat | MoveAssign nat nat | CloseObj nat | DestroyObj nat

definition own_init :: "'o own_sys" where
  "own_init = \<lparr>ow_objs = Map.empty, ow_open = {}, ow_bad = 0, ow_lost = []\<rparr>"

definition close_fd :: "sock_handle option \<Rightarrow> 'o own_sys \<Rightarrow> 'o own_sys" where
  "close_fd c s =
     (case c of
        None \<Rightarrow> s
      | Some fd \<Rightarrow> if fd \<in> ow_open s then s\<lparr>ow_open := ow_open s - {fd}\<rparr> else s\<lparr>ow_bad := Suc (ow_bad s)\<rparr>)"

text \<open>
  The system hands out a descriptor that is not open and not negative. Commands that do not make
  sense, such as moving from an object that does not exist, do nothing.
\<close>

fun own_exec :: "'o owner_ops \<Rightarrow> own_cmd \<Rightarrow> 'o own_sys \<Rightarrow> 'o own_sys" where
  "own_exec ops (NewObj i) s =
     (if ow_objs s i = None then s\<lparr>ow_objs := (ow_objs s)(i \<mapsto> oo_default ops)\<rparr> else s)"
| "own_exec ops (OpenObj i fd) s =
     (if ow_objs s i = None \<and> 0 \<le> fd \<and> fd \<notin> ow_open s
      then s\<lparr>ow_objs := (ow_objs s)(i \<mapsto> oo_adopt ops fd), ow_open := insert fd (ow_open s)\<rparr> else s)"
| "own_exec ops (MoveNew i j) s =
     (case (ow_objs s i, ow_objs s j) of
        (None, Some b) \<Rightarrow> (let (a, b) = oo_move_ctor ops b in s\<lparr>ow_objs := (ow_objs s)(i \<mapsto> a, j \<mapsto> b)\<rparr>)
      | _ \<Rightarrow> s)"
| "own_exec ops (MoveAssign i j) s =
     (case (ow_objs s i, ow_objs s j) of
        (Some a, Some b) \<Rightarrow>
          (if i = j
           then s\<lparr>ow_objs := (ow_objs s)(i \<mapsto> oo_self ops a),
                  ow_lost := ow_lost s @ (if oo_handle ops (oo_self ops a) \<noteq> oo_handle ops a then [oo_handle ops a] else [])\<rparr>
           else (let (a', b') = oo_move_assign ops a b
                 in s\<lparr>ow_objs := (ow_objs s)(i \<mapsto> a', j \<mapsto> b'),
                      ow_lost := ow_lost s @ (if oo_handle ops a \<noteq> kInvalidHandle then [oo_handle ops a] else [])\<rparr>))
      | _ \<Rightarrow> s)"
| "own_exec ops (CloseObj i) s =
     (case ow_objs s i of
        Some a \<Rightarrow> (let (c, a) = oo_close ops a in (close_fd c s)\<lparr>ow_objs := (ow_objs s)(i \<mapsto> a)\<rparr>)
      | None \<Rightarrow> s)"
| "own_exec ops (DestroyObj i) s =
     (case ow_objs s i of
        Some a \<Rightarrow> (let (c, a) = oo_close ops a in (close_fd c s)\<lparr>ow_objs := (ow_objs s)(i := None)\<rparr>)
      | None \<Rightarrow> s)"

definition own_run :: "'o owner_ops \<Rightarrow> own_cmd list \<Rightarrow> 'o own_sys" where
  "own_run ops cmds = fold (own_exec ops) cmds own_init"

subsection \<open>The invariant\<close>

text \<open>\<open>own_holds s h i\<close>: object \<open>i\<close> owns descriptor \<open>h\<close>.\<close>

definition own_holds :: "'o owner_ops \<Rightarrow> 'o own_sys \<Rightarrow> sock_handle \<Rightarrow> nat \<Rightarrow> bool" where
  "own_holds ops s h i \<longleftrightarrow> h \<noteq> kInvalidHandle \<and> (\<exists>a. ow_objs s i = Some a \<and> oo_handle ops a = h)"

text \<open>No descriptor has two owners; every open one has an owner or was overwritten in its owner.\<close>

definition single_owner :: "'o owner_ops \<Rightarrow> 'o own_sys \<Rightarrow> bool" where
  "single_owner ops s \<longleftrightarrow> (\<forall>h i j. own_holds ops s h i \<longrightarrow> own_holds ops s h j \<longrightarrow> i = j)"

definition accounted :: "'o owner_ops \<Rightarrow> 'o own_sys \<Rightarrow> bool" where
  "accounted ops s \<longleftrightarrow> (\<forall>h. h \<in> ow_open s \<longleftrightarrow> (\<exists>i. own_holds ops s h i) \<or> h \<in> set (ow_lost s))"

definition own_inv :: "'o owner_ops \<Rightarrow> 'o own_sys \<Rightarrow> bool" where
  "own_inv ops s \<longleftrightarrow> ow_bad s = 0
     \<and> (\<forall>h i j. own_holds ops s h i \<longrightarrow> own_holds ops s h j \<longrightarrow> i = j)
     \<and> (\<forall>h. (\<exists>i. own_holds ops s h i) \<longrightarrow> h \<notin> set (ow_lost s))
     \<and> (\<forall>h. h \<in> ow_open s \<longleftrightarrow> (\<exists>i. own_holds ops s h i) \<or> h \<in> set (ow_lost s))
     \<and> kInvalidHandle \<notin> ow_open s"

text \<open>
  The five ways in which a command changes who owns what: nothing, a new owner of a new
  descriptor, a transfer, a transfer that overwrites, a release.
\<close>

lemma own_inv_same:
  assumes "own_inv ops s" and "\<And>h i. own_holds ops t h i = own_holds ops s h i"
    and "ow_open t = ow_open s" "ow_bad t = ow_bad s" "ow_lost t = ow_lost s"
  shows "own_inv ops t"
proof -
  have "own_holds ops t = own_holds ops s" using assms(2) by (simp add: fun_eq_iff)
  then have "own_inv ops t = own_inv ops s" by (simp only: own_inv_def assms(3-5))
  with assms(1) show ?thesis by simp
qed

lemma own_inv_open:
  assumes inv: "own_inv ops s" and fd: "0 \<le> fd" "fd \<notin> ow_open s"
    and holds: "\<And>h k. own_holds ops t h k \<longleftrightarrow> own_holds ops s h k \<or> h = fd \<and> k = i"
    and t: "ow_open t = insert fd (ow_open s)" "ow_bad t = ow_bad s" "ow_lost t = ow_lost s"
  shows "own_inv ops t"
proof -
  have "\<not> own_holds ops s fd k" for k using inv fd(2) unfolding own_inv_def by blast
  moreover have "fd \<notin> set (ow_lost s)" using inv fd(2) unfolding own_inv_def by blast
  moreover have "fd \<noteq> kInvalidHandle" using fd(1) by (simp add: kInvalidHandle_def)
  ultimately show ?thesis using inv unfolding own_inv_def t holds by (intro conjI) (simp_all, blast+)
qed

lemma own_inv_release:
  assumes inv: "own_inv ops s" and h: "own_holds ops s fd i"
    and holds: "\<And>h k. own_holds ops t h k \<longleftrightarrow> own_holds ops s h k \<and> k \<noteq> i"
    and t: "ow_open t = ow_open s - {fd}" "ow_bad t = ow_bad s" "ow_lost t = ow_lost s"
  shows "own_inv ops t"
proof -
  have own: "own_holds ops s h i \<longleftrightarrow> h = fd" for h
    using h unfolding own_holds_def by auto
  have uniq: "own_holds ops s fd k \<longleftrightarrow> k = i" for k
    using inv h unfolding own_inv_def by blast
  have "own_holds ops t h k \<longleftrightarrow> own_holds ops s h k \<and> h \<noteq> fd" for h k
    using holds [of h k] own [of h] uniq [of k] by auto
  moreover have "fd \<notin> set (ow_lost s)" using inv h unfolding own_inv_def by blast
  ultimately show ?thesis using inv unfolding own_inv_def t by (intro conjI) (simp_all, blast+)
qed

lemma own_inv_forget:
  assumes inv: "own_inv ops s" and h: "own_holds ops s fd i"
    and holds: "\<And>h k. own_holds ops t h k \<longleftrightarrow> own_holds ops s h k \<and> k \<noteq> i"
    and t: "ow_open t = ow_open s" "ow_bad t = ow_bad s" "ow_lost t = ow_lost s @ [fd]"
  shows "own_inv ops t"
proof -
  have own: "own_holds ops s h i \<longleftrightarrow> h = fd" for h
    using h unfolding own_holds_def by auto
  have uniq: "own_holds ops s fd k \<longleftrightarrow> k = i" for k
    using inv h unfolding own_inv_def by blast
  have "own_holds ops t h k \<longleftrightarrow> own_holds ops s h k \<and> h \<noteq> fd" for h k
    using holds [of h k] own [of h] uniq [of k] by auto
  then show ?thesis using inv h unfolding own_inv_def t by (intro conjI) (simp_all, blast+)
qed

text \<open>
  A transfer from \<open>j\<close> to \<open>i\<close>; what \<open>i\<close> owned before goes to the lost ones, if it was anything.
\<close>

lemma own_inv_transfer:
  assumes inv: "own_inv ops s" and ne: "i \<noteq> j"
    and holds: "\<And>h k. own_holds ops t h k \<longleftrightarrow>
          (if k = i then own_holds ops s h j else k \<noteq> j \<and> own_holds ops s h k)"
    and t: "ow_open t = ow_open s" "ow_bad t = ow_bad s"
    and lost: "\<And>h. h \<in> set (ow_lost t) \<longleftrightarrow> h \<in> set (ow_lost s) \<or> own_holds ops s h i"
  shows "own_inv ops t"
proof -
  have uniq: "own_holds ops s h k \<Longrightarrow> own_holds ops s h l \<Longrightarrow> k = l" for h k l
    using inv unfolding own_inv_def by blast
  have "(\<exists>k. own_holds ops t h k) \<longleftrightarrow> (\<exists>k. own_holds ops s h k \<and> k \<noteq> i)" for h
    using ne unfolding holds by metis
  moreover have "own_holds ops t h k \<Longrightarrow> own_holds ops t h l \<Longrightarrow> k = l" for h k l
    unfolding holds using uniq by (auto split: if_splits)
  moreover have "(\<exists>k. own_holds ops t h k) \<Longrightarrow> h \<notin> set (ow_lost t)" for h
    using uniq inv ne unfolding holds lost own_inv_def by (auto split: if_splits)
  ultimately show ?thesis
    using inv unfolding own_inv_def t lost by (intro conjI) (simp_all, metis+)
qed

subsection \<open>The contract of an owner class\<close>

locale handle_owner =
  fixes ops :: "'o owner_ops"
  assumes handle_default: "oo_handle ops (oo_default ops) = kInvalidHandle"
    and handle_adopt: "oo_handle ops (oo_adopt ops fd) = fd"
    and handle_move: "oo_handle ops (fst (oo_move_ctor ops b)) = oo_handle ops b"
      "oo_handle ops (snd (oo_move_ctor ops b)) = kInvalidHandle"
    and handle_assign:
      "oo_handle ops a \<noteq> oo_handle ops b \<or> oo_handle ops b = kInvalidHandle \<Longrightarrow>
         oo_handle ops (fst (oo_move_assign ops a b)) = oo_handle ops b
       \<and> oo_handle ops (snd (oo_move_assign ops a b)) = kInvalidHandle"
    and handle_self: "oo_handle ops (oo_self ops a) = oo_handle ops a
       \<or> oo_handle ops (oo_self ops a) = kInvalidHandle"
    and close: "fst (oo_close ops a) = (if oo_handle ops a \<noteq> kInvalidHandle then Some (oo_handle ops a) else None)"
      "oo_handle ops (snd (oo_close ops a)) = kInvalidHandle"
begin

lemma inv_move_new:
  assumes inv: "own_inv ops s" and i: "ow_objs s i = None" and j: "ow_objs s j = Some b"
  shows "own_inv ops (own_exec ops (MoveNew i j) s)"
proof -
  obtain a' b' where m: "oo_move_ctor ops b = (a', b')" by fastforce
  have h: "oo_handle ops a' = oo_handle ops b" "oo_handle ops b' = kInvalidHandle"
    using handle_move [of b] m by simp_all
  have ij: "i \<noteq> j" using i j by auto
  have eq: "own_exec ops (MoveNew i j) s = s\<lparr>ow_objs := (ow_objs s)(i \<mapsto> a', j \<mapsto> b')\<rparr>"
    by (simp add: i j m)
  show ?thesis
    unfolding eq by (rule own_inv_transfer [OF inv ij]) (use i j h ij in \<open>auto simp: own_holds_def\<close>)
qed

lemma inv_assign:
  assumes inv: "own_inv ops s" and ij: "i \<noteq> j" and i: "ow_objs s i = Some a" and j: "ow_objs s j = Some b"
  shows "own_inv ops (own_exec ops (MoveAssign i j) s)"
proof -
  obtain a' b' where m: "oo_move_assign ops a b = (a', b')" by fastforce
  have "oo_handle ops a \<noteq> oo_handle ops b \<or> oo_handle ops b = kInvalidHandle"
  proof (rule ccontr)
    assume "\<not> ?thesis"
    then have "own_holds ops s (oo_handle ops b) i" "own_holds ops s (oo_handle ops b) j"
      using i j by (auto simp: own_holds_def)
    then show False using inv ij unfolding own_inv_def by blast
  qed
  then have h: "oo_handle ops a' = oo_handle ops b" "oo_handle ops b' = kInvalidHandle"
    using handle_assign [of a b] m by simp_all
  have eq: "own_exec ops (MoveAssign i j) s = s\<lparr>ow_objs := (ow_objs s)(i \<mapsto> a', j \<mapsto> b'),
      ow_lost := ow_lost s @ (if oo_handle ops a \<noteq> kInvalidHandle then [oo_handle ops a] else [])\<rparr>"
    using ij by (simp add: i j m)
  show ?thesis
    unfolding eq by (rule own_inv_transfer [OF inv ij]) (use i j h ij in \<open>auto simp: own_holds_def\<close>)
qed

lemma inv_self:
  assumes inv: "own_inv ops s" and i: "ow_objs s i = Some a"
  shows "own_inv ops (own_exec ops (MoveAssign i i) s)"
proof (cases "oo_handle ops (oo_self ops a) = oo_handle ops a")
  case True
  then show ?thesis using i by (intro own_inv_same [OF inv]) (auto simp: own_holds_def)
next
  case False
  then have h: "oo_handle ops (oo_self ops a) = kInvalidHandle" "oo_handle ops a \<noteq> kInvalidHandle"
    using handle_self [of a] by auto
  let ?t = "own_exec ops (MoveAssign i i) s"
  have t: "ow_open ?t = ow_open s" "ow_bad ?t = ow_bad s" "ow_lost ?t = ow_lost s @ [oo_handle ops a]"
    using i False by simp_all
  have holds: "own_holds ops ?t k l \<longleftrightarrow> own_holds ops s k l \<and> l \<noteq> i" for k l
    using i h by (auto simp: own_holds_def)
  have "own_holds ops s (oo_handle ops a) i" using i h by (simp add: own_holds_def)
  from own_inv_forget [OF inv this holds t] show ?thesis .
qed

lemma inv_close:
  assumes inv: "own_inv ops s" and i: "ow_objs s i = Some a"
    and t: "t = (close_fd (fst (oo_close ops a)) s)\<lparr>ow_objs := m\<rparr>"
    and m: "m = (ow_objs s)(i \<mapsto> snd (oo_close ops a)) \<or> m = (ow_objs s)(i := None)"
  shows "own_inv ops t"
proof (cases "oo_handle ops a = kInvalidHandle")
  case True
  have "own_holds ops t h k = own_holds ops s h k" for h k
    using m i True close(2) [of a] by (auto simp: t own_holds_def split: if_splits)
  then show ?thesis using close(1) [of a] True by (intro own_inv_same [OF inv]) (simp_all add: t close_fd_def)
next
  case False
  have h: "own_holds ops s (oo_handle ops a) i" using False i by (simp add: own_holds_def)
  then have open_fd: "oo_handle ops a \<in> ow_open s" using inv unfolding own_inv_def by blast
  show ?thesis
  proof (rule own_inv_release [OF inv h])
    show "own_holds ops t k l \<longleftrightarrow> own_holds ops s k l \<and> l \<noteq> i" for k l
      using m i close(2) [of a] by (auto simp: t own_holds_def split: if_splits)
  qed (use close(1) [of a] False open_fd in \<open>simp_all add: t close_fd_def\<close>)
qed

lemma inv_exec: "own_inv ops s \<Longrightarrow> own_inv ops (own_exec ops c s)"
proof (cases c)
  case (NewObj i)
  assume inv: "own_inv ops s"
  then show ?thesis using NewObj handle_default by (intro own_inv_same [OF inv]) (auto simp: own_holds_def)
next
  case (OpenObj i fd)
  assume inv: "own_inv ops s"
  show ?thesis
  proof (cases "ow_objs s i = None \<and> 0 \<le> fd \<and> fd \<notin> ow_open s")
    case True
    then have "fd \<noteq> kInvalidHandle" by (auto simp: kInvalidHandle_def)
    with True OpenObj show ?thesis
      by (intro own_inv_open [OF inv, of fd _ i]) (auto simp: own_holds_def handle_adopt)
  next
    case False
    then show ?thesis using inv OpenObj by (simp only: own_exec.simps if_False)
  qed
next
  case (MoveNew i j)
  assume inv: "own_inv ops s"
  show ?thesis
  proof (cases "ow_objs s i = None \<and> ow_objs s j \<noteq> None")
    case True
    then show ?thesis using inv_move_new [OF inv, of i j] MoveNew by auto
  next
    case False
    then have "own_exec ops c s = s" using MoveNew by (auto split: option.splits)
    with inv show ?thesis by simp
  qed
next
  case (MoveAssign i j)
  assume inv: "own_inv ops s"
  show ?thesis
  proof (cases "ow_objs s i \<noteq> None \<and> ow_objs s j \<noteq> None")
    case True
    then obtain a b where ab: "ow_objs s i = Some a" "ow_objs s j = Some b" by blast
    show ?thesis
    proof (cases "i = j")
      case eq: True
      show ?thesis using inv_self [OF inv ab(1)] MoveAssign eq by simp
    next
      case False
      show ?thesis using inv_assign [OF inv False ab] MoveAssign by simp
    qed
  next
    case False
    then have "own_exec ops c s = s" using MoveAssign by (auto split: option.splits)
    with inv show ?thesis by simp
  qed
next
  case (CloseObj i)
  assume inv: "own_inv ops s"
  show ?thesis
  proof (cases "ow_objs s i")
    case (Some a)
    show ?thesis
      by (rule inv_close [OF inv Some _ disjI1 [OF refl]]) (simp add: CloseObj Some split_def Let_def)
  qed (use inv CloseObj in simp)
next
  case (DestroyObj i)
  assume inv: "own_inv ops s"
  show ?thesis
  proof (cases "ow_objs s i")
    case (Some a)
    show ?thesis
      by (rule inv_close [OF inv Some _ disjI2 [OF refl]]) (simp add: DestroyObj Some split_def Let_def)
  qed (use inv DestroyObj in simp)
qed

lemma own_run_inv: "own_inv ops (own_run ops cmds)"
proof -
  have "own_inv ops s \<Longrightarrow> own_inv ops (fold (own_exec ops) cmds s)" for s
    by (induction cmds arbitrary: s) (simp_all add: inv_exec)
  moreover have "own_inv ops own_init" by (simp add: own_init_def own_inv_def own_holds_def)
  ultimately show ?thesis unfolding own_run_def by blast
qed

lemma never_closes_twice: "ow_bad (own_run ops cmds) = 0"
  using own_run_inv [of cmds] by (simp add: own_inv_def)

lemma single_owners: "single_owner ops (own_run ops cmds)"
  using own_run_inv [of cmds] unfolding own_inv_def single_owner_def by (elim conjE)

lemma all_accounted: "accounted ops (own_run ops cmds)"
  using own_run_inv [of cmds] unfolding own_inv_def accounted_def by (elim conjE)

end

end
