(* ===== verification/File_Handles.thy ===== *)
theory File_Handles
  imports Handle_Owner Io_Uring
begin

section \<open>Files (core/file.h, core/file.cpp)\<close>

text \<open>
  \<^verbatim>\<open>RandomAccessFile\<close> and \<^verbatim>\<open>File\<close>: how the open mode is decoded, the two owner classes,
  their attachment to the context of the thread that uses them first, and the requests that
  reads and writes hand to the I/O service. A context is a number; \<^verbatim>\<open>LocalContext\<close> is the
  argument \<open>local\<close>. A coroutine's read is split where it suspends: what it requests, and what it
  does with the result when it is resumed.
\<close>

unbundle bit_operations_syntax

subsection \<open>Opening\<close>

definition ReadOnly :: int where "ReadOnly = 1"
definition WriteOnly :: int where "WriteOnly = 2"
definition ReadWrite :: int where "ReadWrite = 4"
definition Create :: int where "Create = 8"
definition Truncate :: int where "Truncate = 16"
definition Append :: int where "Append = 32"

lemmas openmode_defs = ReadOnly_def WriteOnly_def ReadWrite_def Create_def Truncate_def Append_def

text \<open>The flags of Linux, and the two arguments of \<^verbatim>\<open>CreateFile\<close>.\<close>

definition O_RDONLY :: int where "O_RDONLY = 0"
definition O_WRONLY :: int where "O_WRONLY = 1"
definition O_RDWR :: int where "O_RDWR = 2"
definition O_CREAT :: int where "O_CREAT = 64"
definition O_TRUNC :: int where "O_TRUNC = 512"
definition O_APPEND :: int where "O_APPEND = 1024"

lemmas linux_flag_defs = O_RDONLY_def O_WRONLY_def O_RDWR_def O_CREAT_def O_TRUNC_def O_APPEND_def

definition open_flags :: "int \<Rightarrow> int option" where
  "open_flags mode =
     (let first = mode AND 7
      in if first = 0 then None
         else case (if first = ReadOnly then Some O_RDONLY
                    else if first = WriteOnly then Some O_WRONLY
                    else if first = ReadWrite then Some O_RDWR else None) of
                None \<Rightarrow> None
              | Some flag \<Rightarrow>
                  (let flag = (if mode AND Create \<noteq> 0 then flag OR O_CREAT else flag);
                       flag = (if mode AND Truncate \<noteq> 0 then flag OR O_TRUNC else flag);
                       flag = (if mode AND Append \<noteq> 0 then flag OR O_APPEND else flag)
                   in Some flag))"

definition open_file :: "(int \<Rightarrow> int) \<Rightarrow> int \<Rightarrow> sock_handle" where
  "open_file sys_open mode =
     (case open_flags mode of
        None \<Rightarrow> kInvalidHandle
      | Some flag \<Rightarrow> (let fd = sys_open flag in if fd = -1 then kInvalidHandle else fd))"

datatype win_disposition = OpenExisting | OpenAlways | CreateAlways | TruncateExisting

definition win_open_args :: "int \<Rightarrow> ((bool \<times> bool) \<times> win_disposition) option" where
  "win_open_args mode =
     (let first = mode AND 7
      in if first = 0 then None
         else case (if first = ReadOnly then Some (True, False)
                    else if first = WriteOnly then Some (False, True)
                    else if first = ReadWrite then Some (True, True) else None) of
                None \<Rightarrow> None
              | Some desired_access \<Rightarrow>
                  (let d = (if mode AND Create \<noteq> 0 then OpenAlways else OpenExisting);
                       d = (if mode AND Truncate \<noteq> 0
                            then (if mode AND Create \<noteq> 0 then CreateAlways else TruncateExisting) else d)
                   in Some (desired_access, d)))"

text \<open>
  On Windows: the handle that \<^verbatim>\<open>CreateFile\<close> returns; \<^verbatim>\<open>INVALID_HANDLE_VALUE\<close> is -1, as \<^verbatim>\<open>kInvalidHandle\<close> is.
\<close>

definition win_open_file :: "(bool \<times> bool \<Rightarrow> win_disposition \<Rightarrow> sock_handle) \<Rightarrow> int \<Rightarrow> sock_handle" where
  "win_open_file create_file mode =
     (case win_open_args mode of
        None \<Rightarrow> kInvalidHandle
      | Some (desired_access, disposition) \<Rightarrow>
          (let handle = create_file desired_access disposition in if handle = -1 then kInvalidHandle else handle))"

text \<open>Both systems are asked for the same modes, and their refusals look the same.\<close>

lemma open_modes_alike: "win_open_args mode = None \<longleftrightarrow> open_flags mode = None"
  by (simp add: win_open_args_def open_flags_def Let_def)

lemma open_file_refuses:
  "open_flags mode = None \<Longrightarrow> open_file sys_open mode = kInvalidHandle \<and> win_open_file create_file mode = kInvalidHandle"
  "open_flags mode \<noteq> None \<Longrightarrow> open_file (\<lambda>_. -1) mode = kInvalidHandle \<and> win_open_file (\<lambda>_ _. -1) mode = kInvalidHandle"
  using open_modes_alike [of mode] by (auto simp: open_file_def win_open_file_def split: option.splits)

subsection \<open>The classes\<close>

record raf =
  rf_handle :: sock_handle
  rf_attached :: "nat option"
  rf_app :: bool

definition raf_reset :: raf where
  "raf_reset = \<lparr>rf_handle = kInvalidHandle, rf_attached = None, rf_app = False\<rparr>"

text \<open>
  The move constructor does not initialise \<^verbatim>\<open>attached_\<close>: \<open>junk\<close> is what happens to be in its
  place. The assignment leaves the target's own in place.
\<close>

definition raf_move_ctor :: "nat option \<Rightarrow> raf \<Rightarrow> raf \<times> raf" where
  "raf_move_ctor junk other =
     (\<lparr>rf_handle = rf_handle other, rf_attached = junk, rf_app = rf_app other\<rparr>, raf_reset)"

definition raf_move_assign :: "raf \<Rightarrow> raf \<Rightarrow> raf \<times> raf" where
  "raf_move_assign f other = (f\<lparr>rf_handle := rf_handle other, rf_app := rf_app other\<rparr>, raf_reset)"

definition raf_close :: "raf \<Rightarrow> sock_handle option \<times> raf" where
  "raf_close f = (if rf_handle f \<noteq> kInvalidHandle then (Some (rf_handle f), raf_reset) else (None, f))"

definition raf_dtor :: "raf \<Rightarrow> sock_handle option \<times> raf" where
  "raf_dtor f = raf_close f"

definition raf_open :: "(int \<Rightarrow> int) \<Rightarrow> int \<Rightarrow> raf" where
  "raf_open sys_open mode =
     (let fl = raf_reset\<lparr>rf_handle := open_file sys_open mode\<rparr>
      in if mode AND Append \<noteq> 0 then fl\<lparr>rf_app := True\<rparr> else fl)"

record file_t =
  fl_handle :: sock_handle
  fl_attached :: "nat option"
  fl_read_offset :: size_t
  fl_write_offset :: size_t

definition file_reset :: file_t where
  "file_reset = \<lparr>fl_handle = kInvalidHandle, fl_attached = None, fl_read_offset = 0, fl_write_offset = 0\<rparr>"

definition file_move_ctor :: "file_t \<Rightarrow> file_t \<times> file_t" where
  "file_move_ctor other =
     (\<lparr>fl_handle = fl_handle other, fl_attached = fl_attached other,
       fl_read_offset = fl_read_offset other, fl_write_offset = fl_write_offset other\<rparr>, file_reset)"

definition file_move_assign :: "file_t \<Rightarrow> file_t \<Rightarrow> file_t \<times> file_t" where
  "file_move_assign f other =
     (f\<lparr>fl_handle := fl_handle other, fl_attached := fl_attached other,
        fl_read_offset := fl_read_offset other, fl_write_offset := fl_write_offset other\<rparr>, file_reset)"

definition file_close :: "file_t \<Rightarrow> sock_handle option \<times> file_t" where
  "file_close f = (if kInvalidHandle \<noteq> fl_handle f then (Some (fl_handle f), file_reset) else (None, f))"

definition file_dtor :: "file_t \<Rightarrow> sock_handle option \<times> file_t" where
  "file_dtor f = file_close f"

text \<open>On Windows the write offset starts at the file's size in append mode.\<close>

definition file_open :: "(int \<Rightarrow> int) \<Rightarrow> size_t option \<Rightarrow> int \<Rightarrow> file_t" where
  "file_open sys_open win_size mode =
     (let fl = file_reset\<lparr>fl_handle := open_file sys_open mode\<rparr>;
          fl = (if mode AND Append \<noteq> 0
                  then (case win_size of Some n \<Rightarrow> fl\<lparr>fl_write_offset := n\<rparr> | None \<Rightarrow> fl)
                  else fl\<lparr>fl_write_offset := 0\<rparr>)
      in fl\<lparr>fl_read_offset := 0\<rparr>)"

text \<open>Cancelling and syncing pass the descriptor on, unless there is none.\<close>

definition raf_cancel :: "raf \<Rightarrow> sock_handle option" where
  "raf_cancel f = (if rf_handle f \<noteq> kInvalidHandle then Some (rf_handle f) else None)"

definition raf_sync_all :: "raf \<Rightarrow> sock_handle option" where
  "raf_sync_all f = (if kInvalidHandle \<noteq> rf_handle f then Some (rf_handle f) else None)"

definition raf_sync_data :: "raf \<Rightarrow> sock_handle option" where
  "raf_sync_data f = (if kInvalidHandle \<noteq> rf_handle f then Some (rf_handle f) else None)"

definition file_cancel :: "file_t \<Rightarrow> sock_handle option" where
  "file_cancel f = (if kInvalidHandle \<noteq> fl_handle f then Some (fl_handle f) else None)"

definition file_sync_all :: "file_t \<Rightarrow> sock_handle option" where
  "file_sync_all f = (if kInvalidHandle \<noteq> fl_handle f then Some (fl_handle f) else None)"

definition file_sync_data :: "file_t \<Rightarrow> sock_handle option" where
  "file_sync_data f = (if kInvalidHandle \<noteq> fl_handle f then Some (fl_handle f) else None)"

text \<open>\<^verbatim>\<open>operator bool\<close>, and the calls behind close and sync: on Windows the latter do nothing.\<close>

definition raf_bool :: "raf \<Rightarrow> bool" where
  "raf_bool f \<longleftrightarrow> rf_handle f \<noteq> kInvalidHandle"

definition file_bool :: "file_t \<Rightarrow> bool" where
  "file_bool f \<longleftrightarrow> fl_handle f \<noteq> kInvalidHandle"

datatype file_call = CloseHandleCall sock_handle | CloseCall sock_handle | FsyncCall sock_handle | FdatasyncCall sock_handle

definition close_file :: "bool \<Rightarrow> sock_handle \<Rightarrow> file_call list" where
  "close_file windows ioh = [if windows then CloseHandleCall ioh else CloseCall ioh]"

definition handle_sync_all :: "bool \<Rightarrow> sock_handle \<Rightarrow> file_call list" where
  "handle_sync_all windows ioh = (if windows then [] else [FsyncCall ioh])"

definition handle_sync_data :: "bool \<Rightarrow> sock_handle \<Rightarrow> file_call list" where
  "handle_sync_data windows ioh = (if windows then [] else [FdatasyncCall ioh])"

text \<open>A file that is not open makes no call, whatever is done to it.\<close>

lemma closed_file_is_inert:
  "\<not> file_bool f \<Longrightarrow> file_close f = (None, f) \<and> file_sync_all f = None \<and> file_sync_data f = None \<and> file_cancel f = None"
  "\<not> raf_bool g \<Longrightarrow> raf_close g = (None, g) \<and> raf_sync_all g = None \<and> raf_sync_data g = None \<and> raf_cancel g = None"
  by (auto simp: file_bool_def raf_bool_def file_close_def raf_close_def file_sync_all_def raf_sync_all_def
      file_sync_data_def raf_sync_data_def file_cancel_def raf_cancel_def)

lemmas raf_defs [handle_simps] = raf_reset_def raf_move_ctor_def raf_move_assign_def raf_close_def raf_dtor_def
lemmas file_defs [handle_simps] = file_reset_def file_move_ctor_def file_move_assign_def file_close_def
  file_dtor_def

subsection \<open>As owners of a descriptor\<close>

definition raf_ops :: "nat option \<Rightarrow> raf owner_ops" where
  "raf_ops junk = \<lparr>oo_handle = rf_handle, oo_default = raf_reset,
     oo_adopt = (\<lambda>fd. raf_reset\<lparr>rf_handle := fd\<rparr>), oo_move_ctor = raf_move_ctor junk,
     oo_move_assign = raf_move_assign, oo_self = (\<lambda>f. raf_reset), oo_close = raf_dtor\<rparr>"

definition file_ops :: "file_t owner_ops" where
  "file_ops = \<lparr>oo_handle = fl_handle, oo_default = file_reset,
     oo_adopt = (\<lambda>fd. file_reset\<lparr>fl_handle := fd\<rparr>), oo_move_ctor = file_move_ctor,
     oo_move_assign = file_move_assign, oo_self = (\<lambda>f. file_reset), oo_close = file_dtor\<rparr>"

interpretation raf_owner: handle_owner "raf_ops junk"
  by unfold_locales (simp_all add: raf_ops_def handle_simps kInvalidHandle_def)

interpretation file_owner: handle_owner file_ops
  by unfold_locales (auto simp: file_ops_def handle_simps kInvalidHandle_def)

subsection \<open>Attaching to a context\<close>

text \<open>The number counts the calls of the service's \<^verbatim>\<open>attach\<close>.\<close>

definition raf_attach_context :: "nat \<Rightarrow> raf \<Rightarrow> (raf \<times> nat) checked" where
  "raf_attach_context local f =
     (if kInvalidHandle = rf_handle f then Inr (f, 0)
      else case rf_attached f of
             None \<Rightarrow> Inr (f\<lparr>rf_attached := Some local\<rparr>, 1)
           | Some c \<Rightarrow> if c \<noteq> local then Inl (Fatal ''The file cannot be attached to different context'')
                        else Inr (f, 0))"

definition file_attach_context :: "nat \<Rightarrow> file_t \<Rightarrow> (file_t \<times> nat) checked" where
  "file_attach_context local f =
     (if kInvalidHandle = fl_handle f then Inr (f, 0)
      else case fl_attached f of
             None \<Rightarrow> Inr (f\<lparr>fl_attached := Some local\<rparr>, 1)
           | Some c \<Rightarrow> if c \<noteq> local then Inl (Fatal ''The file cannot be attached to different context'')
                        else Inr (f, 0))"

subsection \<open>Reading and writing\<close>

text \<open>
  What the user's pointer of a request stands for: the coroutine to be resumed, or the functor
  to be called.
\<close>

datatype completion = ResumeCoroutine nat | CallFunctor nat

definition raf_read_at ::
  "nat \<Rightarrow> size_t \<Rightarrow> nat \<Rightarrow> nat \<Rightarrow> nat \<Rightarrow> raf \<Rightarrow> (raf \<times> completion io_request \<times> completion) checked" where
  "raf_read_at local offset buf len h f =
     bind_checked (raf_attach_context local f) (\<lambda>(f, _).
       Inr (f, ReadFileReq (rf_handle f) buf len (unat offset), ResumeCoroutine h))"

definition raf_write_at ::
  "nat \<Rightarrow> size_t option \<Rightarrow> size_t \<Rightarrow> nat \<Rightarrow> nat \<Rightarrow> nat \<Rightarrow> raf \<Rightarrow> (raf \<times> completion io_request \<times> completion) checked"
where
  "raf_write_at local win_size offset msg len h f =
     bind_checked (raf_attach_context local f) (\<lambda>(f, _).
       let offset = (case win_size of Some n \<Rightarrow> if rf_app f then n else offset | None \<Rightarrow> offset)
       in Inr (f, WriteFileReq (rf_handle f) msg len (unat offset), ResumeCoroutine h))"

definition raf_read_at_cb ::
  "nat \<Rightarrow> size_t \<Rightarrow> nat \<Rightarrow> nat \<Rightarrow> nat \<Rightarrow> raf \<Rightarrow> (raf \<times> completion io_request \<times> completion) checked" where
  "raf_read_at_cb local offset buf len cb f =
     bind_checked (raf_attach_context local f) (\<lambda>(f, _).
       Inr (f, ReadFileReq (rf_handle f) buf len (unat offset), CallFunctor cb))"

definition raf_write_at_cb ::
  "nat \<Rightarrow> size_t option \<Rightarrow> size_t \<Rightarrow> nat \<Rightarrow> nat \<Rightarrow> nat \<Rightarrow> raf \<Rightarrow> (raf \<times> completion io_request \<times> completion) checked"
where
  "raf_write_at_cb local win_size offset msg len cb f =
     bind_checked (raf_attach_context local f) (\<lambda>(f, _).
       let offset = (case win_size of Some n \<Rightarrow> if rf_app f then n else offset | None \<Rightarrow> offset)
       in Inr (f, WriteFileReq (rf_handle f) msg len (unat offset), CallFunctor cb))"

definition file_read ::
  "nat \<Rightarrow> nat \<Rightarrow> nat \<Rightarrow> completion \<Rightarrow> file_t \<Rightarrow> (file_t \<times> completion io_request \<times> completion) checked" where
  "file_read local buf len c f =
     bind_checked (file_attach_context local f) (\<lambda>(f, _).
       Inr (f, ReadFileReq (fl_handle f) buf len (unat (fl_read_offset f)), c))"

definition file_write ::
  "nat \<Rightarrow> nat \<Rightarrow> nat \<Rightarrow> completion \<Rightarrow> file_t \<Rightarrow> (file_t \<times> completion io_request \<times> completion) checked" where
  "file_write local msg len c f =
     bind_checked (file_attach_context local f) (\<lambda>(f, _).
       Inr (f, WriteFileReq (fl_handle f) msg len (unat (fl_write_offset f)), c))"

text \<open>After the completion: the offset moves on, then the result is returned or the callback called.\<close>

definition file_read_done :: "error_code \<Rightarrow> size_t \<Rightarrow> file_t \<Rightarrow> size_t result \<times> file_t" where
  "file_read_done ec res f = (result_of res ec, f\<lparr>fl_read_offset := fl_read_offset f + res\<rparr>)"

definition file_write_done :: "error_code \<Rightarrow> size_t \<Rightarrow> file_t \<Rightarrow> size_t result \<times> file_t" where
  "file_write_done ec res f = (result_of res ec, f\<lparr>fl_write_offset := fl_write_offset f + res\<rparr>)"

text \<open>
  A coroutine that reads a file one piece after the other, and one that writes: the buffers, and
  what the operations complete with. The result lists the requests.
\<close>

type_synonym io_script = "(nat \<times> nat \<times> error_code \<times> size_t) list"

fun file_reads :: "nat \<Rightarrow> nat \<Rightarrow> io_script \<Rightarrow> file_t \<Rightarrow> (completion io_request list \<times> file_t) checked" where
  "file_reads local h [] f = Inr ([], f)"
| "file_reads local h ((buf, len, ec, res) # rest) f =
     bind_checked (file_read local buf len (ResumeCoroutine h) f) (\<lambda>(f, req, _).
       bind_checked (file_reads local h rest (snd (file_read_done ec res f))) (\<lambda>(reqs, f).
         Inr (req # reqs, f)))"

fun file_writes :: "nat \<Rightarrow> nat \<Rightarrow> io_script \<Rightarrow> file_t \<Rightarrow> (completion io_request list \<times> file_t) checked" where
  "file_writes local h [] f = Inr ([], f)"
| "file_writes local h ((msg, len, ec, res) # rest) f =
     bind_checked (file_write local msg len (ResumeCoroutine h) f) (\<lambda>(f, req, _).
       bind_checked (file_writes local h rest (snd (file_write_done ec res f))) (\<lambda>(reqs, f).
         Inr (req # reqs, f)))"

definition results_of :: "io_script \<Rightarrow> size_t list" where
  "results_of xs = map (\<lambda>(_, _, _, res). res) xs"

lemma results_of_Cons [simp]: "results_of ((b, n, ec, r) # xs) = r # results_of xs"
  by (simp add: results_of_def)

lemma results_of_Nil [simp]: "results_of [] = []"
  by (simp add: results_of_def)

lemma attached_file:
  assumes "fl_handle f \<noteq> kInvalidHandle" and "fl_attached f = None \<or> fl_attached f = Some local"
  shows "\<exists>n. file_attach_context local f = Inr (f\<lparr>fl_attached := Some local\<rparr>, n)"
  using assms by (cases "fl_attached f") (auto simp: file_attach_context_def)

lemma file_reads_spec:
  "fl_handle f \<noteq> kInvalidHandle \<Longrightarrow> fl_attached f = None \<or> fl_attached f = Some local \<Longrightarrow>
   \<exists>reqs g. file_reads local h xs f = Inr (reqs, g) \<and> length reqs = length xs
     \<and> fl_read_offset g = fl_read_offset f + sum_list (results_of xs)
     \<and> fl_write_offset g = fl_write_offset f
     \<and> (\<forall>k < length xs. reqs ! k = ReadFileReq (fl_handle f) (fst (xs ! k)) (fst (snd (xs ! k)))
           (unat (fl_read_offset f + sum_list (take k (results_of xs)))))"
proof (induction xs arbitrary: f)
  case (Cons x xs)
  obtain buf len ec res where x: "x = (buf, len, ec, res)" by (cases x) auto
  obtain n where a: "file_attach_context local f = Inr (f\<lparr>fl_attached := Some local\<rparr>, n)"
    using attached_file [OF Cons.prems] by blast
  let ?g = "f\<lparr>fl_attached := Some local, fl_read_offset := fl_read_offset f + res\<rparr>"
  obtain reqs g where IH: "file_reads local h xs ?g = Inr (reqs, g)" "length reqs = length xs"
    "fl_read_offset g = fl_read_offset ?g + sum_list (results_of xs)" "fl_write_offset g = fl_write_offset ?g"
    "\<forall>k < length xs. reqs ! k = ReadFileReq (fl_handle ?g) (fst (xs ! k)) (fst (snd (xs ! k)))
           (unat (fl_read_offset ?g + sum_list (take k (results_of xs))))"
    using Cons.IH [of ?g] Cons.prems by auto
  let ?req = "ReadFileReq (fl_handle f) buf len (unat (fl_read_offset f))"
  have "file_reads local h (x # xs) f = Inr (?req # reqs, g)"
    using a IH(1) by (simp add: x file_read_def file_read_done_def)
  moreover have "(?req # reqs) ! k = ReadFileReq (fl_handle f) (fst ((x # xs) ! k)) (fst (snd ((x # xs) ! k)))
      (unat (fl_read_offset f + sum_list (take k (results_of (x # xs)))))" if "k < length (x # xs)" for k
    using IH(5) that by (cases k) (simp_all add: x add.assoc)
  ultimately show ?case using IH(2-4) by (auto simp: x add.assoc)
qed simp

lemma file_writes_spec:
  "fl_handle f \<noteq> kInvalidHandle \<Longrightarrow> fl_attached f = None \<or> fl_attached f = Some local \<Longrightarrow>
   \<exists>reqs g. file_writes local h xs f = Inr (reqs, g) \<and> length reqs = length xs
     \<and> fl_write_offset g = fl_write_offset f + sum_list (results_of xs)
     \<and> fl_read_offset g = fl_read_offset f
     \<and> (\<forall>k < length xs. reqs ! k = WriteFileReq (fl_handle f) (fst (xs ! k)) (fst (snd (xs ! k)))
           (unat (fl_write_offset f + sum_list (take k (results_of xs)))))"
proof (induction xs arbitrary: f)
  case (Cons x xs)
  obtain buf len ec res where x: "x = (buf, len, ec, res)" by (cases x) auto
  obtain n where a: "file_attach_context local f = Inr (f\<lparr>fl_attached := Some local\<rparr>, n)"
    using attached_file [OF Cons.prems] by blast
  let ?g = "f\<lparr>fl_attached := Some local, fl_write_offset := fl_write_offset f + res\<rparr>"
  obtain reqs g where IH: "file_writes local h xs ?g = Inr (reqs, g)" "length reqs = length xs"
    "fl_write_offset g = fl_write_offset ?g + sum_list (results_of xs)" "fl_read_offset g = fl_read_offset ?g"
    "\<forall>k < length xs. reqs ! k = WriteFileReq (fl_handle ?g) (fst (xs ! k)) (fst (snd (xs ! k)))
           (unat (fl_write_offset ?g + sum_list (take k (results_of xs))))"
    using Cons.IH [of ?g] Cons.prems by auto
  let ?req = "WriteFileReq (fl_handle f) buf len (unat (fl_write_offset f))"
  have "file_writes local h (x # xs) f = Inr (?req # reqs, g)"
    using a IH(1) by (simp add: x file_write_def file_write_done_def)
  moreover have "(?req # reqs) ! k = WriteFileReq (fl_handle f) (fst ((x # xs) ! k)) (fst (snd ((x # xs) ! k)))
      (unat (fl_write_offset f + sum_list (take k (results_of (x # xs)))))" if "k < length (x # xs)" for k
    using IH(5) that by (cases k) (simp_all add: x add.assoc)
  ultimately show ?case using IH(2-4) by (auto simp: x add.assoc)
qed simp

subsection \<open>Properties\<close>

text \<open>
  Sequential reads and writes of a \<^verbatim>\<open>File\<close> are contiguous: the request of each
  starts where the results of the earlier ones add up to, a failed one (result 0) does not move
  the position, and neither direction moves the other's.
\<close>

theorem file_io_is_contiguous:
  assumes "fl_handle f \<noteq> kInvalidHandle" and "fl_attached f = None \<or> fl_attached f = Some local"
  shows "(\<exists>reqs g. file_reads local h xs f = Inr (reqs, g) \<and> length reqs = length xs
      \<and> fl_read_offset g = fl_read_offset f + sum_list (results_of xs) \<and> fl_write_offset g = fl_write_offset f
      \<and> (\<forall>k < length xs. reqs ! k = ReadFileReq (fl_handle f) (fst (xs ! k)) (fst (snd (xs ! k)))
           (unat (fl_read_offset f + sum_list (take k (results_of xs))))))
   \<and> (\<exists>reqs g. file_writes local h xs f = Inr (reqs, g) \<and> length reqs = length xs
      \<and> fl_write_offset g = fl_write_offset f + sum_list (results_of xs) \<and> fl_read_offset g = fl_read_offset f
      \<and> (\<forall>k < length xs. reqs ! k = WriteFileReq (fl_handle f) (fst (xs ! k)) (fst (snd (xs ! k)))
           (unat (fl_write_offset f + sum_list (take k (results_of xs))))))"
  using file_reads_spec [OF assms] file_writes_spec [OF assms] by blast

theorem file_io_is_contiguous_witness:
  "\<exists>reqs g. file_reads 1 7 [(100, 8, no_error, 8), (108, 8, make_system_error_code 5, 0), (108, 8, no_error, 3)]
       (file_reset\<lparr>fl_handle := 3\<rparr>) = Inr (reqs, g)
     \<and> fl_read_offset g = 11 \<and> reqs ! Suc (Suc 0) = ReadFileReq 3 108 8 8"
proof -
  let ?f = "file_reset\<lparr>fl_handle := 3\<rparr>"
  let ?xs = "[(100, 8, no_error, 8), (108, 8, make_system_error_code 5, 0), (108, 8, no_error, 3)] :: io_script"
  have "fl_handle ?f \<noteq> kInvalidHandle" "fl_attached ?f = None \<or> fl_attached ?f = Some 1"
    by (simp_all add: file_reset_def kInvalidHandle_def)
  from file_io_is_contiguous [OF this, of 7 ?xs] obtain reqs g where
    r: "file_reads 1 7 ?xs ?f = Inr (reqs, g)" "fl_read_offset g = fl_read_offset ?f + sum_list (results_of ?xs)"
    "\<forall>k < length ?xs. reqs ! k = ReadFileReq (fl_handle ?f) (fst (?xs ! k)) (fst (snd (?xs ! k)))
           (unat (fl_read_offset ?f + sum_list (take k (results_of ?xs))))" by blast
  have "fl_read_offset g = 11" using r(2) by (simp add: file_reset_def)
  moreover have "reqs ! Suc (Suc 0) = ReadFileReq 3 108 8 8"
    using r(3) [rule_format, of "Suc (Suc 0)"] by (simp add: file_reset_def)
  ultimately show ?thesis using r(1) by blast
qed

text \<open>
  Moving a \<^verbatim>\<open>RandomAccessFile\<close> loses track of the context it is attached to. The
  target of an assignment keeps its own attachment: a file that context \<open>c\<close> attached cannot be used
  in \<open>c\<close> any more when it was assigned to one attached elsewhere, and the process ends; assigned to
  one attached to \<open>d\<close>, it is used in \<open>d\<close> without ever being registered there.
\<close>

theorem raf_assignment_keeps_stale_attachment:
  assumes "rf_handle g \<noteq> kInvalidHandle" and "rf_attached g = Some c" and "rf_attached f = Some d" and "c \<noteq> d"
  shows "(\<exists>e. raf_attach_context c (fst (raf_move_assign f g)) = Inl e)
     \<and> raf_attach_context d (fst (raf_move_assign f g)) = Inr (fst (raf_move_assign f g), 0)"
  using assms by (simp add: raf_attach_context_def raf_move_assign_def)

theorem raf_assignment_keeps_stale_attachment_witness:
  "\<exists>e. raf_attach_context 1 (fst (raf_move_assign
      \<lparr>rf_handle = 3, rf_attached = Some 2, rf_app = False\<rparr>
      \<lparr>rf_handle = 4, rf_attached = Some 1, rf_app = False\<rparr>)) = Inl e"
  using raf_assignment_keeps_stale_attachment [of "\<lparr>rf_handle = 4, rf_attached = Some 1, rf_app = False\<rparr>" 1
      "\<lparr>rf_handle = 3, rf_attached = Some 2, rf_app = False\<rparr>" 2]
  by (simp add: kInvalidHandle_def)

definition mode_of_flags :: "int \<Rightarrow> int" where
  "mode_of_flags flag =
     (if flag AND 3 = O_RDONLY then ReadOnly else if flag AND 3 = O_WRONLY then WriteOnly else ReadWrite)
   + (if flag AND O_CREAT \<noteq> 0 then Create else 0) + (if flag AND O_TRUNC \<noteq> 0 then Truncate else 0)
   + (if flag AND O_APPEND \<noteq> 0 then Append else 0)"

definition mode_decoded :: "int \<Rightarrow> bool" where
  "mode_decoded mode \<longleftrightarrow>
     (open_flags mode = None \<longleftrightarrow> mode AND 7 \<noteq> ReadOnly \<and> mode AND 7 \<noteq> WriteOnly \<and> mode AND 7 \<noteq> ReadWrite)
   \<and> (case open_flags mode of Some flag \<Rightarrow> mode_of_flags flag = mode | None \<Rightarrow> True)
   \<and> (case win_open_args mode of
        Some ((r, w), d) \<Rightarrow> (r \<longleftrightarrow> mode AND (ReadOnly OR ReadWrite) \<noteq> 0) \<and> (w \<longleftrightarrow> mode AND (WriteOnly OR ReadWrite) \<noteq> 0)
          \<and> (d = OpenAlways \<or> d = CreateAlways \<longleftrightarrow> mode AND Create \<noteq> 0)
          \<and> (d = CreateAlways \<or> d = TruncateExisting \<longleftrightarrow> mode AND Truncate \<noteq> 0)
      | None \<Rightarrow> open_flags mode = None)"

lemma all_modes_decoded: "list_all mode_decoded [0..63]"
  by code_simp

text \<open>
  The open mode is decoded without loss. A mode of the six documented bits is
  refused exactly when it does not have exactly one access bit; otherwise the Linux flags
  determine it, bit by bit, and Windows gets the same access and creation.
\<close>

theorem open_mode_decoded:
  assumes "0 \<le> mode" and "mode < 64"
  shows "(open_flags mode = None \<longleftrightarrow> mode AND 7 \<noteq> ReadOnly \<and> mode AND 7 \<noteq> WriteOnly \<and> mode AND 7 \<noteq> ReadWrite)
   \<and> (case open_flags mode of Some flag \<Rightarrow> mode_of_flags flag = mode | None \<Rightarrow> True)
   \<and> (case win_open_args mode of
        Some ((r, w), d) \<Rightarrow> (r \<longleftrightarrow> mode AND (ReadOnly OR ReadWrite) \<noteq> 0) \<and> (w \<longleftrightarrow> mode AND (WriteOnly OR ReadWrite) \<noteq> 0)
          \<and> (d = OpenAlways \<or> d = CreateAlways \<longleftrightarrow> mode AND Create \<noteq> 0)
          \<and> (d = CreateAlways \<or> d = TruncateExisting \<longleftrightarrow> mode AND Truncate \<noteq> 0)
      | None \<Rightarrow> open_flags mode = None)"
proof -
  have "mode \<in> set [0..63]" using assms by simp
  with all_modes_decoded have "mode_decoded mode" unfolding list_all_iff by blast
  then show ?thesis unfolding mode_decoded_def .
qed

theorem open_mode_decoded_witness: "open_flags 44 = Some (2 + 64 + 1024) \<and> mode_of_flags (2 + 64 + 1024) = 44"
proof -
  have "open_flags 44 = Some (2 + 64 + 1024)" by code_simp
  then show ?thesis using open_mode_decoded [of 44] by simp
qed

end
