(* ===== verification/Inet_Address.thy ===== *)
theory Inet_Address
  imports Result_Error
begin

section \<open>Addresses (net/address.h, net/address.cpp, net/protocal.h)\<close>

text \<open>
  \<^verbatim>\<open>InetAddress\<close> is a buffer of 32 bytes with a \<^verbatim>\<open>sockaddr_in\<close> or a
  \<^verbatim>\<open>sockaddr_in6\<close> at its start, in the layout of Linux on a little-endian machine. The
  constructor leaves the buffer as it is: \<open>junk\<close>. \<open>pton\<close> and \<open>ntop\<close> stand for
  \<^verbatim>\<open>inet_pton\<close>, whose result is 1 with the bytes of the address, 0 for a text that is not an
  address (the destination is left alone), or -1; and \<^verbatim>\<open>inet_ntop\<close>, which reads 4 or 16
  bytes at the pointer it is given.
\<close>

datatype ip_version = V4 | V6
datatype transport = Tcp | Udp

type_synonym inet_bytes = "8 word list"
type_synonym port_t = "16 word"
type_synonym pton_fun = "int \<Rightarrow> string \<Rightarrow> int \<times> inet_bytes"
type_synonym ntop_fun = "int \<Rightarrow> inet_bytes \<Rightarrow> string"

definition af_inet :: int where "af_inet = 2"
definition af_inet6 :: int where "af_inet6 = 10"

text \<open>\<^verbatim>\<open>htons\<close> on a little-endian machine, as the two bytes in memory; \<^verbatim>\<open>ntohs\<close>.\<close>

definition htons_bytes :: "port_t \<Rightarrow> inet_bytes" where
  "htons_bytes p = [ucast (drop_bit 8 p), ucast p]"

definition ntohs_bytes :: "inet_bytes \<Rightarrow> port_t" where
  "ntohs_bytes b = push_bit 8 (ucast (b ! 0)) + ucast (b ! 1)"

definition family_bytes :: "int \<Rightarrow> inet_bytes" where
  "family_bytes af = [word_of_int af, 0]"

definition sockaddr_in :: "port_t \<Rightarrow> inet_bytes \<Rightarrow> inet_bytes" where
  "sockaddr_in port addr = family_bytes af_inet @ htons_bytes port @ addr @ replicate 8 0"

definition sockaddr_in6 :: "port_t \<Rightarrow> inet_bytes \<Rightarrow> inet_bytes" where
  "sockaddr_in6 port addr = family_bytes af_inet6 @ htons_bytes port @ replicate 4 0 @ addr @ replicate 4 0"

text \<open>\<^verbatim>\<open>memcpy\<close> to the start of the buffer.\<close>

definition copy_to :: "inet_bytes \<Rightarrow> inet_bytes \<Rightarrow> inet_bytes" where
  "copy_to buf src = src @ drop (length src) buf"

text \<open>
  What \<^verbatim>\<open>inet_pton\<close> leaves in the zero-initialised destination.
\<close>

definition pton_into :: "nat \<Rightarrow> int \<times> inet_bytes \<Rightarrow> inet_bytes" where
  "pton_into n r = (if fst r = 1 then snd r else replicate n 0)"

definition inet_from :: "pton_fun \<Rightarrow> int \<Rightarrow> inet_bytes \<Rightarrow> string \<Rightarrow> port_t \<Rightarrow> inet_bytes result" where
  "inet_from pton errno junk ip port =
     (if CHR ''.'' \<in> set ip
      then (let r = pton af_inet ip
            in if -1 = fst r then result_error junk (make_system_error_code errno)
               else result_of (copy_to junk (sockaddr_in port (pton_into 4 r))) no_error)
      else (let r = pton af_inet6 ip
            in if -1 = fst r then result_error junk (make_system_error_code errno)
               else result_of (copy_to junk (sockaddr_in6 port (pton_into 16 r))) no_error))"

definition sa_family :: "inet_bytes \<Rightarrow> int" where
  "sa_family buf = uint (buf ! 0) + 256 * uint (buf ! 1)"

definition is_ipv4 :: "inet_bytes \<Rightarrow> bool" where
  "is_ipv4 buf \<longleftrightarrow> sa_family buf = af_inet"

definition is_ipv6 :: "inet_bytes \<Rightarrow> bool" where
  "is_ipv6 buf \<longleftrightarrow> sa_family buf = af_inet6"

definition sockaddr_len :: "inet_bytes \<Rightarrow> nat" where
  "sockaddr_len buf = (if sa_family buf = af_inet then 16 else 28)"

definition inet_from_sockaddr :: "inet_bytes \<Rightarrow> inet_bytes \<Rightarrow> inet_bytes" where
  "inet_from_sockaddr junk paddr =
     (let addr_len = (if sa_family paddr = af_inet then 16 else 28)
      in copy_to junk (take addr_len paddr))"

definition inet_port :: "inet_bytes \<Rightarrow> port_t" where
  "inet_port buf = ntohs_bytes (take 2 (drop 2 buf))"

text \<open>\<^verbatim>\<open>ip\<close> hands \<^verbatim>\<open>inet_ntop\<close> the address of the whole structure.\<close>

definition inet_ip :: "ntop_fun \<Rightarrow> inet_bytes \<Rightarrow> string" where
  "inet_ip ntop buf = ntop (sa_family buf) (take (if sa_family buf = af_inet then 4 else 16) buf)"

text \<open>The documented behaviour of \<^verbatim>\<open>inet_pton\<close> that the proofs use: how many bytes it writes.\<close>

definition pton_sizes :: "pton_fun \<Rightarrow> bool" where
  "pton_sizes pton \<longleftrightarrow> (\<forall>ip. (fst (pton af_inet ip) = 1 \<longrightarrow> length (snd (pton af_inet ip)) = 4)
     \<and> (fst (pton af_inet6 ip) = 1 \<longrightarrow> length (snd (pton af_inet6 ip)) = 16))"

lemma port_round_trip: "ntohs_bytes (htons_bytes p) = p"
proof -
  have "push_bit 8 (ucast (ucast (drop_bit 8 p) :: 8 word) :: 16 word) + ucast (ucast p :: 8 word) = p"
  proof (rule word_unat_eq_iff [THEN iffD2])
    have b: "unat p < 65536" using unsigned_less [of p] by simp
    have hi: "unat (ucast (drop_bit 8 p) :: 8 word) = unat p div 256"
      using b by (simp add: unsigned_ucast_eq drop_bit_eq_div take_bit_eq_mod unat_div)
    have lo: "unat (ucast p :: 8 word) = unat p mod 256"
      by (simp add: unsigned_ucast_eq take_bit_eq_mod)
    have "unat (push_bit 8 (ucast (ucast (drop_bit 8 p) :: 8 word) :: 16 word)) = (unat p div 256) * 256"
    proof -
      have up: "unat (push_bit 8 w) = unat w * 256" if "unat w < 256" for w :: "16 word"
        using that by (simp add: push_bit_eq_mult unat_word_ariths)
      have "unat (ucast (ucast (drop_bit 8 p) :: 8 word) :: 16 word) = unat p div 256"
        unfolding unsigned_ucast_eq [of "ucast (drop_bit 8 p) :: 8 word"] hi
        using b by (simp add: take_bit_eq_mod)
      then show ?thesis using up b by simp
    qed
    moreover have "unat (ucast (ucast p :: 8 word) :: 16 word) = unat p mod 256"
      using lo by (simp add: unsigned_ucast_eq take_bit_eq_mod unat_mod)
    ultimately show "unat (push_bit 8 (ucast (ucast (drop_bit 8 p) :: 8 word) :: 16 word) + ucast (ucast p :: 8 word))
        = unat p"
      using b by (simp add: unat_word_ariths)
  qed
  then show ?thesis by (simp add: ntohs_bytes_def htons_bytes_def)
qed

text \<open>The two layouts, read back.\<close>

lemma sockaddr_in_fields:
  assumes "length addr = 4"
  shows "sa_family (copy_to junk (sockaddr_in p addr)) = af_inet"
    and "inet_port (copy_to junk (sockaddr_in p addr)) = p"
    and "take 16 (copy_to junk (sockaddr_in p addr)) = sockaddr_in p addr"
    and "take 4 (copy_to junk (sockaddr_in p addr)) = family_bytes af_inet @ htons_bytes p"
    and "length (sockaddr_in p addr) = 16"
  using assms port_round_trip [of p]
  by (simp_all add: copy_to_def sockaddr_in_def family_bytes_def af_inet_def sa_family_def inet_port_def
      htons_bytes_def)

lemma sockaddr_in6_fields:
  assumes "length addr = 16"
  shows "sa_family (copy_to junk (sockaddr_in6 p addr)) = af_inet6"
    and "inet_port (copy_to junk (sockaddr_in6 p addr)) = p"
    and "take 28 (copy_to junk (sockaddr_in6 p addr)) = sockaddr_in6 p addr"
    and "length (sockaddr_in6 p addr) = 28"
  using assms port_round_trip [of p]
  by (simp_all add: copy_to_def sockaddr_in6_def family_bytes_def af_inet6_def sa_family_def inet_port_def
      htons_bytes_def)

lemma pton_into_length:
  assumes "pton_sizes pton"
  shows "length (pton_into 4 (pton af_inet ip)) = 4" and "length (pton_into 16 (pton af_inet6 ip)) = 16"
  using assms by (auto simp: pton_into_def pton_sizes_def)

lemma inet_from_cases:
  assumes "pton_sizes pton" and "inet_from pton errno junk ip p = r" and "\<not> is_error (res_ec r)" and "errno \<noteq> 0"
  obtains (v4) addr where "CHR ''.'' \<in> set ip" "length addr = 4" "addr = pton_into 4 (pton af_inet ip)"
      "fst (pton af_inet ip) \<noteq> -1" "res_value r = copy_to junk (sockaddr_in p addr)"
  | (v6) addr where "CHR ''.'' \<notin> set ip" "length addr = 16" "addr = pton_into 16 (pton af_inet6 ip)"
      "fst (pton af_inet6 ip) \<noteq> -1" "res_value r = copy_to junk (sockaddr_in6 p addr)"
proof (cases "CHR ''.'' \<in> set ip")
  case True
  then show ?thesis
    using assms(2-4) v4 [OF True pton_into_length(1) [OF assms(1)] refl]
    by (auto simp: inet_from_def Let_def split: if_splits)
next
  case False
  then show ?thesis
    using assms(2-4) v6 [OF False pton_into_length(2) [OF assms(1)] refl]
    by (auto simp: inet_from_def Let_def split: if_splits)
qed

subsection \<open>Properties\<close>

text \<open>An example of \<^verbatim>\<open>inet_pton\<close>: it knows two addresses.\<close>

definition demo_pton :: pton_fun where
  "demo_pton af ip =
     (if af = af_inet \<and> ip = ''127.0.0.1'' then (1, [127, 0, 0, 1])
      else if af = af_inet \<and> ip = ''10.0.0.7'' then (1, [10, 0, 0, 7]) else (0, []))"

lemma demo_pton_sizes: "pton_sizes demo_pton"
  by (simp add: pton_sizes_def demo_pton_def af_inet6_def af_inet_def)

text \<open>
  Property C38: an address that was made from text and a port gives back its port and its family,
  has the length the system expects for that family, and survives the trip through a
  \<^verbatim>\<open>sockaddr\<close> of that length byte for byte.
\<close>

theorem address_round_trip:
  assumes "pton_sizes pton" and "inet_from pton errno junk ip p = r" and "\<not> is_error (res_ec r)" and "errno \<noteq> 0"
  shows "inet_port (res_value r) = p
     \<and> (is_ipv4 (res_value r) \<longleftrightarrow> CHR ''.'' \<in> set ip) \<and> (is_ipv6 (res_value r) \<longleftrightarrow> CHR ''.'' \<notin> set ip)
     \<and> take (sockaddr_len (res_value r)) (res_value r)
         = (if CHR ''.'' \<in> set ip then sockaddr_in p (pton_into 4 (pton af_inet ip))
            else sockaddr_in6 p (pton_into 16 (pton af_inet6 ip)))
     \<and> take (sockaddr_len (res_value r))
         (inet_from_sockaddr junk' (take (sockaddr_len (res_value r)) (res_value r)))
         = take (sockaddr_len (res_value r)) (res_value r)"
proof -
  have f: "af_inet6 \<noteq> af_inet" by (simp add: af_inet_def af_inet6_def)
  show ?thesis
  proof (cases rule: inet_from_cases [OF assms, case_names v4 v6])
    case (v4 addr)
    note a = sockaddr_in_fields [OF v4(2)]
    have l: "sockaddr_len (res_value r) = 16" by (simp add: sockaddr_len_def v4(5) a(1))
    have "sa_family (sockaddr_in p addr) = af_inet" using a(1) [of "[]" p] by (simp add: copy_to_def)
    then have "inet_from_sockaddr junk' (sockaddr_in p addr) = copy_to junk' (sockaddr_in p addr)"
      using a(5) [of p] by (simp add: inet_from_sockaddr_def)
    then show ?thesis using v4(1,3) f a by (simp add: l) (simp add: v4(5) a is_ipv4_def is_ipv6_def)
  next
    case (v6 addr)
    note a = sockaddr_in6_fields [OF v6(2)]
    have l: "sockaddr_len (res_value r) = 28" using f by (simp add: sockaddr_len_def v6(5) a(1))
    have "sa_family (sockaddr_in6 p addr) = af_inet6" using a(1) [of "[]" p] by (simp add: copy_to_def)
    then have "inet_from_sockaddr junk' (sockaddr_in6 p addr) = copy_to junk' (sockaddr_in6 p addr)"
      using a(4) [of p] f by (simp add: inet_from_sockaddr_def)
    then show ?thesis using v6(1,3) f a by (simp add: l) (simp add: v6(5) a is_ipv4_def is_ipv6_def)
  qed
qed

theorem address_round_trip_witness:
  "inet_port (res_value (inet_from demo_pton 22 (replicate 32 0) ''127.0.0.1'' 8080)) = 8080
   \<and> is_ipv4 (res_value (inet_from demo_pton 22 (replicate 32 0) ''127.0.0.1'' 8080))"
proof -
  have "\<not> is_error (res_ec (inet_from demo_pton 22 (replicate 32 0) ''127.0.0.1'' 8080))"
    by (simp add: inet_from_def demo_pton_def Let_def)
  from address_round_trip [OF demo_pton_sizes refl this] show ?thesis by simp
qed

text \<open>A printer that shows every byte it is given, so that two addresses print differently.\<close>

definition demo_ntop :: ntop_fun where
  "demo_ntop af bs = map (\<lambda>b. char_of (unat b)) bs"

text \<open>
  \<^verbatim>\<open>ip()\<close> of an IPv4 address does not depend on the address: two addresses with
  the same port print the same, whatever they are, since \<^verbatim>\<open>inet_ntop\<close> is given the start of
  the structure, where the family and the port are.
\<close>

theorem ip_ignores_the_address:
  assumes "pton_sizes pton" and "errno \<noteq> 0" and "CHR ''.'' \<in> set ip" and "CHR ''.'' \<in> set ip'"
    and "inet_from pton errno junk ip p = r" and "\<not> is_error (res_ec r)"
    and "inet_from pton errno junk' ip' p = r'" and "\<not> is_error (res_ec r')"
  shows "inet_ip ntop (res_value r) = inet_ip ntop (res_value r')
     \<and> inet_ip ntop (res_value r) = ntop af_inet (family_bytes af_inet @ htons_bytes p)"
proof -
  have "inet_ip ntop (res_value q) = ntop af_inet (family_bytes af_inet @ htons_bytes p)"
    if q: "inet_from pton errno j i p = q" "\<not> is_error (res_ec q)" "CHR ''.'' \<in> set i" for i j q
  proof (cases rule: inet_from_cases [OF assms(1) q(1,2) assms(2), case_names v4 v6])
    case (v4 addr)
    then show ?thesis by (simp add: inet_ip_def sockaddr_in_fields)
  qed (use q(3) in simp)
  from this [OF assms(5,6,3)] this [OF assms(7,8,4)] show ?thesis by simp
qed

theorem ip_ignores_the_address_witness:
  "inet_ip demo_ntop (res_value (inet_from demo_pton 22 (replicate 32 0) ''127.0.0.1'' 80))
     = inet_ip demo_ntop (res_value (inet_from demo_pton 22 (replicate 32 0) ''10.0.0.7'' 80))"
proof -
  have "\<not> is_error (res_ec (inet_from demo_pton 22 (replicate 32 0) ''127.0.0.1'' 80))"
    "\<not> is_error (res_ec (inet_from demo_pton 22 (replicate 32 0) ''10.0.0.7'' 80))"
    by (simp_all add: inet_from_def demo_pton_def Let_def)
  then show ?thesis
    using ip_ignores_the_address [OF demo_pton_sizes, of 22 "''127.0.0.1''" "''10.0.0.7''" _ _ _ _ _ demo_ntop] by simp
qed

text \<open>
  A text that is no address is accepted. Where \<^verbatim>\<open>inet_pton\<close> reports an invalid
  text by returning 0, \<^verbatim>\<open>from\<close> reports success and returns the all-zero address with the port.
\<close>

theorem invalid_text_is_accepted:
  assumes "fst (pton (if CHR ''.'' \<in> set ip then af_inet else af_inet6) ip) = 0"
  shows "\<not> is_error (res_ec (inet_from pton errno junk ip p))
     \<and> res_value (inet_from pton errno junk ip p)
         = copy_to junk (if CHR ''.'' \<in> set ip then sockaddr_in p (replicate 4 0) else sockaddr_in6 p (replicate 16 0))"
  using assms by (cases "CHR ''.'' \<in> set ip") (simp_all add: inet_from_def pton_into_def Let_def)

theorem invalid_text_is_accepted_witness:
  "\<not> is_error (res_ec (inet_from demo_pton 22 (replicate 32 0) ''localhost'' 80))"
  using invalid_text_is_accepted [of demo_pton "''localhost''" 22 "replicate 32 0" 80]
  by (simp add: demo_pton_def af_inet6_def af_inet_def)

end
