(* ===== verification/Socket_Handles.thy ===== *)
theory Socket_Handles
  imports File_Handles Inet_Address
begin

section \<open>Pipes, sockets and acceptors (core/pipe, net/socket, net/acceptor)\<close>

text \<open>
  The other owners of descriptors, with the requests their operations hand to the I/O service
  and what they make of the completions. The system calls \<^verbatim>\<open>socket\<close>, \<^verbatim>\<open>bind\<close>,
  \<^verbatim>\<open>listen\<close> and \<^verbatim>\<open>pipe\<close> are arguments.
\<close>

subsection \<open>Pipes\<close>

record readable_pipe =
  rp_handle :: sock_handle

record writable_pipe =
  wp_handle :: sock_handle

definition rp_move_ctor :: "readable_pipe \<Rightarrow> readable_pipe \<times> readable_pipe" where
  "rp_move_ctor other = (\<lparr>rp_handle = rp_handle other\<rparr>, other\<lparr>rp_handle := kInvalidHandle\<rparr>)"

definition rp_move_assign :: "readable_pipe \<Rightarrow> readable_pipe \<Rightarrow> readable_pipe \<times> readable_pipe" where
  "rp_move_assign p other = (p\<lparr>rp_handle := rp_handle other\<rparr>, other\<lparr>rp_handle := kInvalidHandle\<rparr>)"

definition rp_close :: "readable_pipe \<Rightarrow> sock_handle option \<times> readable_pipe" where
  "rp_close p = (if rp_handle p \<noteq> kInvalidHandle then (Some (rp_handle p), p\<lparr>rp_handle := kInvalidHandle\<rparr>)
                 else (None, p))"

definition rp_dtor :: "readable_pipe \<Rightarrow> sock_handle option \<times> readable_pipe" where
  "rp_dtor p = rp_close p"

definition wp_move_ctor :: "writable_pipe \<Rightarrow> writable_pipe \<times> writable_pipe" where
  "wp_move_ctor other = (\<lparr>wp_handle = wp_handle other\<rparr>, other\<lparr>wp_handle := kInvalidHandle\<rparr>)"

definition wp_move_assign :: "writable_pipe \<Rightarrow> writable_pipe \<Rightarrow> writable_pipe \<times> writable_pipe" where
  "wp_move_assign p other = (p\<lparr>wp_handle := wp_handle other\<rparr>, other\<lparr>wp_handle := kInvalidHandle\<rparr>)"

definition wp_close :: "writable_pipe \<Rightarrow> sock_handle option \<times> writable_pipe" where
  "wp_close p = (if wp_handle p \<noteq> kInvalidHandle then (Some (wp_handle p), p\<lparr>wp_handle := kInvalidHandle\<rparr>)
                 else (None, p))"

definition wp_dtor :: "writable_pipe \<Rightarrow> sock_handle option \<times> writable_pipe" where
  "wp_dtor p = wp_close p"

definition rp_bool :: "readable_pipe \<Rightarrow> bool" where
  "rp_bool p \<longleftrightarrow> rp_handle p \<noteq> kInvalidHandle"

definition wp_bool :: "writable_pipe \<Rightarrow> bool" where
  "wp_bool p \<longleftrightarrow> wp_handle p \<noteq> kInvalidHandle"

lemma closed_pipe_is_inert:
  "\<not> rp_bool (snd (rp_close p)) \<and> (fst (rp_close p) = None \<longleftrightarrow> \<not> rp_bool p)"
  "\<not> wp_bool (snd (wp_close q)) \<and> (fst (wp_close q) = None \<longleftrightarrow> \<not> wp_bool q)"
  by (auto simp: rp_bool_def wp_bool_def rp_close_def wp_close_def)

definition rp_read :: "nat \<Rightarrow> nat \<Rightarrow> nat \<Rightarrow> readable_pipe \<Rightarrow> completion io_request \<times> completion" where
  "rp_read buf len h p = (ReadFileReq (rp_handle p) buf len 0, ResumeCoroutine h)"

definition rp_read_cb :: "nat \<Rightarrow> nat \<Rightarrow> nat \<Rightarrow> readable_pipe \<Rightarrow> completion io_request \<times> completion" where
  "rp_read_cb buf len cb p = (ReadFileReq (rp_handle p) buf len 0, CallFunctor cb)"

definition wp_write :: "nat \<Rightarrow> nat \<Rightarrow> nat \<Rightarrow> writable_pipe \<Rightarrow> completion io_request \<times> completion" where
  "wp_write msg len h p = (WriteFileReq (wp_handle p) msg len 0, ResumeCoroutine h)"

definition wp_write_cb :: "nat \<Rightarrow> nat \<Rightarrow> nat \<Rightarrow> writable_pipe \<Rightarrow> completion io_request \<times> completion" where
  "wp_write_cb msg len cb p = (WriteFileReq (wp_handle p) msg len 0, CallFunctor cb)"

text \<open>\<open>pipefd\<close> is what the system call gives, if it succeeds.\<close>

definition make_pipe :: "(sock_handle \<times> sock_handle) option \<Rightarrow> int \<Rightarrow> (readable_pipe \<times> writable_pipe) result" where
  "make_pipe pipefd errno =
     (case pipefd of
        None \<Rightarrow> result_error (\<lparr>rp_handle = kInvalidHandle\<rparr>, \<lparr>wp_handle = kInvalidHandle\<rparr>)
                  (make_system_error_code errno)
      | Some (r, w) \<Rightarrow> result_of (\<lparr>rp_handle = r\<rparr>, \<lparr>wp_handle = w\<rparr>) no_error)"

subsection \<open>Sockets\<close>

record socket =
  sk_handle :: sock_handle
  sk_attached :: "nat option"
  sk_ip :: ip_version
  sk_transport :: transport

definition sock_reset :: socket where
  "sock_reset = \<lparr>sk_handle = kInvalidHandle, sk_attached = None, sk_ip = V4, sk_transport = Tcp\<rparr>"

definition sock_make :: "sock_handle \<Rightarrow> ip_version \<Rightarrow> transport \<Rightarrow> socket" where
  "sock_make h ip tp = \<lparr>sk_handle = h, sk_attached = None, sk_ip = ip, sk_transport = tp\<rparr>"

definition sock_move_ctor :: "socket \<Rightarrow> socket \<times> socket" where
  "sock_move_ctor other =
     (\<lparr>sk_handle = sk_handle other, sk_attached = sk_attached other, sk_ip = sk_ip other,
       sk_transport = sk_transport other\<rparr>, sock_reset)"

definition sock_move_assign :: "socket \<Rightarrow> socket \<Rightarrow> socket \<times> socket" where
  "sock_move_assign s other =
     (if sk_handle s = sk_handle other then (s, other)
      else (s\<lparr>sk_handle := sk_handle other, sk_attached := sk_attached other, sk_ip := sk_ip other,
              sk_transport := sk_transport other\<rparr>, sock_reset))"

definition sock_close :: "socket \<Rightarrow> sock_handle option \<times> socket" where
  "sock_close s = (if kInvalidHandle \<noteq> sk_handle s then (Some (sk_handle s), sock_reset) else (None, s))"

text \<open>\<^verbatim>\<open>operator bool\<close>; the other observers are the fields.\<close>

definition sock_bool :: "socket \<Rightarrow> bool" where
  "sock_bool s \<longleftrightarrow> sk_handle s \<noteq> kInvalidHandle"

lemma closed_socket_is_inert:
  "\<not> sock_bool (snd (sock_close s)) \<and> (fst (sock_close s) = None \<longleftrightarrow> \<not> sock_bool s)"
  by (simp add: sock_bool_def sock_close_def sock_reset_def)

definition sock_dtor :: "socket \<Rightarrow> sock_handle option \<times> socket" where
  "sock_dtor s = sock_close s"

definition af_of :: "ip_version \<Rightarrow> int" where
  "af_of ip = (case ip of V4 \<Rightarrow> af_inet | V6 \<Rightarrow> af_inet6)"

datatype sock_type = SockStream | SockDgram

definition open_socket :: "(int \<Rightarrow> sock_type \<Rightarrow> sock_handle \<times> int) \<Rightarrow> ip_version \<Rightarrow> transport \<Rightarrow> sock_handle \<times> error_code" where
  "open_socket sys_socket ip tp =
     (let (handle, errno) = sys_socket (af_of ip) (case tp of Tcp \<Rightarrow> SockStream | Udp \<Rightarrow> SockDgram)
      in (handle, if handle = -1 then make_system_error_code errno else no_error))"

definition sock_open :: "(int \<Rightarrow> sock_type \<Rightarrow> sock_handle \<times> int) \<Rightarrow> ip_version \<Rightarrow> transport \<Rightarrow> socket result" where
  "sock_open sys_socket ip tp =
     (let (handle, ec) = open_socket sys_socket ip tp
      in if is_error ec then result_error sock_reset ec else result_of (sock_make handle ip tp) no_error)"

definition sock_bind :: "(sock_handle \<Rightarrow> inet_bytes \<Rightarrow> int \<times> int) \<Rightarrow> inet_bytes \<Rightarrow> socket \<Rightarrow> unit result" where
  "sock_bind sys_bind address s =
     (let (r, errno) = sys_bind (sk_handle s) (take (sockaddr_len address) address)
      in if -1 = r then result_error () (make_system_error_code errno) else result_of () no_error)"

definition sock_attach_context :: "nat \<Rightarrow> socket \<Rightarrow> (socket \<times> nat) checked" where
  "sock_attach_context local s =
     (if kInvalidHandle = sk_handle s then Inr (s, 0)
      else case sk_attached s of
             None \<Rightarrow> Inr (s\<lparr>sk_attached := Some local\<rparr>, 1)
           | Some c \<Rightarrow> if c \<noteq> local then Inl (Fatal ''The socket cannot be attached to different context'')
                        else Inr (s, 0))"

definition sock_cancel :: "socket \<Rightarrow> sock_handle option" where
  "sock_cancel s = (if kInvalidHandle \<noteq> sk_handle s then Some (sk_handle s) else None)"

definition sock_shutdown :: "socket \<Rightarrow> sock_handle option" where
  "sock_shutdown s = (if sk_handle s \<noteq> -1 then Some (sk_handle s) else None)"

text \<open>The operations: \<open>c\<close> is the coroutine or the functor that the completion goes to.\<close>

type_synonym sock_request = "(socket \<times> completion io_request \<times> completion) checked"

definition sock_issue :: "nat \<Rightarrow> (sock_handle \<Rightarrow> completion io_request) \<Rightarrow> completion \<Rightarrow> socket \<Rightarrow> sock_request" where
  "sock_issue local req c s =
     bind_checked (sock_attach_context local s) (\<lambda>(s, _). Inr (s, req (sk_handle s), c))"

definition sock_connect :: "nat \<Rightarrow> inet_bytes \<Rightarrow> nat \<Rightarrow> socket \<Rightarrow> sock_request" where
  "sock_connect local address h s =
     sock_issue local (\<lambda>fd. ConnectReq fd (take (sockaddr_len address) address)) (ResumeCoroutine h) s"

definition sock_receive :: "nat \<Rightarrow> nat \<Rightarrow> nat \<Rightarrow> nat \<Rightarrow> socket \<Rightarrow> sock_request" where
  "sock_receive local buf len h s = sock_issue local (\<lambda>fd. ReceiveReq fd buf len) (ResumeCoroutine h) s"

definition sock_send :: "nat \<Rightarrow> nat \<Rightarrow> nat \<Rightarrow> nat \<Rightarrow> socket \<Rightarrow> sock_request" where
  "sock_send local msg len h s = sock_issue local (\<lambda>fd. SendReq fd msg len) (ResumeCoroutine h) s"

definition sock_send_to :: "nat \<Rightarrow> nat \<Rightarrow> nat \<Rightarrow> inet_bytes \<Rightarrow> nat \<Rightarrow> socket \<Rightarrow> sock_request" where
  "sock_send_to local msg len address h s =
     sock_issue local (\<lambda>fd. SendToReq fd (take (sockaddr_len address) address) msg len) (ResumeCoroutine h) s"

definition sock_receive_from :: "nat \<Rightarrow> nat \<Rightarrow> nat \<Rightarrow> nat \<Rightarrow> socket \<Rightarrow> sock_request" where
  "sock_receive_from local buf len h s = sock_issue local (\<lambda>fd. ReceiveFromReq fd buf len) (ResumeCoroutine h) s"

definition sock_connect_cb :: "nat \<Rightarrow> inet_bytes \<Rightarrow> nat \<Rightarrow> socket \<Rightarrow> sock_request" where
  "sock_connect_cb local address cb s =
     sock_issue local (\<lambda>fd. ConnectReq fd (take (sockaddr_len address) address)) (CallFunctor cb) s"

definition sock_receive_cb :: "nat \<Rightarrow> nat \<Rightarrow> nat \<Rightarrow> nat \<Rightarrow> socket \<Rightarrow> sock_request" where
  "sock_receive_cb local buf len cb s = sock_issue local (\<lambda>fd. ReceiveReq fd buf len) (CallFunctor cb) s"

definition sock_send_cb :: "nat \<Rightarrow> nat \<Rightarrow> nat \<Rightarrow> nat \<Rightarrow> socket \<Rightarrow> sock_request" where
  "sock_send_cb local msg len cb s = sock_issue local (\<lambda>fd. SendReq fd msg len) (CallFunctor cb) s"

definition sock_send_to_cb :: "nat \<Rightarrow> nat \<Rightarrow> nat \<Rightarrow> inet_bytes \<Rightarrow> nat \<Rightarrow> socket \<Rightarrow> sock_request" where
  "sock_send_to_cb local msg len address cb s =
     sock_issue local (\<lambda>fd. SendToReq fd (take (sockaddr_len address) address) msg len) (CallFunctor cb) s"

definition sock_receive_from_cb :: "nat \<Rightarrow> nat \<Rightarrow> nat \<Rightarrow> nat \<Rightarrow> socket \<Rightarrow> sock_request" where
  "sock_receive_from_cb local buf len cb s = sock_issue local (\<lambda>fd. ReceiveFromReq fd buf len) (CallFunctor cb) s"

text \<open>
  What the coroutine version of \<^verbatim>\<open>receive_from\<close> returns, and what the other version calls its
  functor with; the address is the one in the context.
\<close>

definition receive_from_done ::
  "inet_bytes \<Rightarrow> error_code \<Rightarrow> size_t \<Rightarrow> inet_bytes \<Rightarrow> (size_t \<times> inet_bytes) result" where
  "receive_from_done junk ec res remote =
     (if is_error ec then result_error (0, junk) ec
      else result_of (res, inet_from_sockaddr junk remote) no_error)"

definition receive_from_cb_done ::
  "inet_bytes \<Rightarrow> error_code \<Rightarrow> size_t \<Rightarrow> inet_bytes \<Rightarrow> error_code \<times> size_t \<times> inet_bytes" where
  "receive_from_cb_done junk ec res remote =
     (if is_error ec then (ec, 0, junk) else (ec, res, inet_from_sockaddr junk remote))"

subsection \<open>Acceptors\<close>

text \<open>The conversion of \<^verbatim>\<open>uint64_t\<close> to \<^verbatim>\<open>int\<close>.\<close>

definition to_int :: "size_t \<Rightarrow> sock_handle" where
  "to_int r = sint (ucast r :: 32 word)"

record acceptor =
  ac_listener :: socket

definition acc_move_ctor :: "acceptor \<Rightarrow> acceptor \<times> acceptor" where
  "acc_move_ctor other =
     (let (a, b) = sock_move_ctor (ac_listener other) in (\<lparr>ac_listener = a\<rparr>, other\<lparr>ac_listener := b\<rparr>))"

definition acc_move_assign :: "acceptor \<Rightarrow> acceptor \<Rightarrow> acceptor \<times> acceptor" where
  "acc_move_assign t other =
     (if sk_handle (ac_listener t) = sk_handle (ac_listener other) then (t, other)
      else (let (a, b) = sock_move_assign (ac_listener t) (ac_listener other)
            in (t\<lparr>ac_listener := a\<rparr>, other\<lparr>ac_listener := b\<rparr>)))"

text \<open>The implicit destructor.\<close>

definition acc_dtor :: "acceptor \<Rightarrow> sock_handle option \<times> acceptor" where
  "acc_dtor t = (let (c, s) = sock_dtor (ac_listener t) in (c, t\<lparr>ac_listener := s\<rparr>))"

text \<open>
  \<^verbatim>\<open>listen\<close>: open, bind, listen; a failure on the way closes the socket when the local
  acceptor is destroyed. The result is the acceptor and the descriptor so closed.
\<close>

definition acc_listen ::
  "(int \<Rightarrow> sock_type \<Rightarrow> sock_handle \<times> int) \<Rightarrow> (sock_handle \<Rightarrow> inet_bytes \<Rightarrow> int \<times> int) \<Rightarrow>
   (sock_handle \<Rightarrow> int \<times> int) \<Rightarrow> inet_bytes \<Rightarrow> acceptor result \<times> sock_handle option" where
  "acc_listen sys_socket sys_bind sys_listen address =
     (let none = \<lparr>ac_listener = sock_reset\<rparr>;
          r = sock_open sys_socket (if is_ipv4 address then V4 else V6) Tcp
      in if is_error (res_ec r) then (result_error none (res_ec r), None)
         else (let s = fst (sock_move_assign sock_reset (res_value r));
                   b = sock_bind sys_bind address s
               in if is_error (res_ec b) then (result_error none (res_ec b), fst (sock_dtor s))
                  else (let (l, errno) = sys_listen (sk_handle s)
                        in if -1 = l then (result_error none (make_system_error_code errno), fst (sock_dtor s))
                           else (result_of \<lparr>ac_listener = s\<rparr> no_error, None))))"

definition acc_attach_context :: "nat \<Rightarrow> acceptor \<Rightarrow> (acceptor \<times> nat) checked" where
  "acc_attach_context local t =
     bind_checked (sock_attach_context local (ac_listener t)) (\<lambda>(s, n). Inr (t\<lparr>ac_listener := s\<rparr>, n))"

definition acc_accept :: "nat \<Rightarrow> completion \<Rightarrow> acceptor \<Rightarrow> (acceptor \<times> completion io_request \<times> completion) checked" where
  "acc_accept local c t =
     bind_checked (acc_attach_context local t) (\<lambda>(t, _).
       Inr (t, AcceptReq (sk_handle (ac_listener t)), c))"

definition accept_done ::
  "inet_bytes \<Rightarrow> error_code \<Rightarrow> size_t \<Rightarrow> inet_bytes \<Rightarrow> acceptor \<Rightarrow> (socket \<times> inet_bytes) result" where
  "accept_done junk ec res remote t =
     (if is_error ec then result_error (sock_reset, junk) ec
      else result_of (sock_make (to_int res) (sk_ip (ac_listener t)) (sk_transport (ac_listener t)),
                      inet_from_sockaddr junk remote) no_error)"

definition accept_cb_done ::
  "inet_bytes \<Rightarrow> error_code \<Rightarrow> size_t \<Rightarrow> inet_bytes \<Rightarrow> error_code \<times> socket \<times> inet_bytes" where
  "accept_cb_done junk ec res remote =
     (let ip = (if sa_family remote = af_inet then V4 else V6)
      in if is_error ec then (ec, sock_reset, junk)
         else (ec, sock_make (to_int res) ip Tcp, inet_from_sockaddr junk remote))"

lemmas pipe_socket_defs [handle_simps] = rp_move_ctor_def rp_move_assign_def rp_close_def rp_dtor_def
  wp_move_ctor_def wp_move_assign_def wp_close_def wp_dtor_def sock_reset_def sock_make_def sock_move_ctor_def
  sock_move_assign_def sock_close_def sock_dtor_def acc_move_ctor_def acc_move_assign_def acc_dtor_def

subsection \<open>As owners of a descriptor\<close>

definition rp_ops :: "readable_pipe owner_ops" where
  "rp_ops = \<lparr>oo_handle = rp_handle, oo_default = \<lparr>rp_handle = kInvalidHandle\<rparr>,
     oo_adopt = (\<lambda>fd. \<lparr>rp_handle = fd\<rparr>), oo_move_ctor = rp_move_ctor, oo_move_assign = rp_move_assign,
     oo_self = (\<lambda>p. p\<lparr>rp_handle := kInvalidHandle\<rparr>), oo_close = rp_dtor\<rparr>"

definition wp_ops :: "writable_pipe owner_ops" where
  "wp_ops = \<lparr>oo_handle = wp_handle, oo_default = \<lparr>wp_handle = kInvalidHandle\<rparr>,
     oo_adopt = (\<lambda>fd. \<lparr>wp_handle = fd\<rparr>), oo_move_ctor = wp_move_ctor, oo_move_assign = wp_move_assign,
     oo_self = (\<lambda>p. p\<lparr>wp_handle := kInvalidHandle\<rparr>), oo_close = wp_dtor\<rparr>"

definition sock_ops :: "socket owner_ops" where
  "sock_ops = \<lparr>oo_handle = sk_handle, oo_default = sock_reset, oo_adopt = (\<lambda>fd. sock_make fd V4 Tcp),
     oo_move_ctor = sock_move_ctor, oo_move_assign = sock_move_assign, oo_self = (\<lambda>s. s), oo_close = sock_dtor\<rparr>"

definition acc_ops :: "acceptor owner_ops" where
  "acc_ops = \<lparr>oo_handle = (\<lambda>t. sk_handle (ac_listener t)), oo_default = \<lparr>ac_listener = sock_reset\<rparr>,
     oo_adopt = (\<lambda>fd. \<lparr>ac_listener = sock_make fd V4 Tcp\<rparr>), oo_move_ctor = acc_move_ctor,
     oo_move_assign = acc_move_assign, oo_self = (\<lambda>t. t), oo_close = acc_dtor\<rparr>"

interpretation rp_owner: handle_owner rp_ops
  by unfold_locales (auto simp: rp_ops_def handle_simps)

interpretation wp_owner: handle_owner wp_ops
  by unfold_locales (auto simp: wp_ops_def handle_simps)

interpretation sock_owner: handle_owner sock_ops
  by unfold_locales (auto simp: sock_ops_def handle_simps)

interpretation acc_owner: handle_owner acc_ops
  by unfold_locales (auto simp: acc_ops_def handle_simps)

subsection \<open>Properties\<close>

text \<open>
  Property C25: descriptors are never closed twice, nor after they were handed to another object.
  In every program that creates, opens, moves, assigns, closes and destroys files, pipes,
  sockets or acceptors, each close hits an open descriptor, and no two objects own the same one.
\<close>

theorem descriptors_never_closed_twice:
  "ow_bad (own_run (raf_ops junk) cmds) = 0 \<and> single_owner (raf_ops junk) (own_run (raf_ops junk) cmds)
   \<and> ow_bad (own_run file_ops cmds) = 0 \<and> single_owner file_ops (own_run file_ops cmds)
   \<and> ow_bad (own_run rp_ops cmds) = 0 \<and> single_owner rp_ops (own_run rp_ops cmds)
   \<and> ow_bad (own_run wp_ops cmds) = 0 \<and> single_owner wp_ops (own_run wp_ops cmds)
   \<and> ow_bad (own_run sock_ops cmds) = 0 \<and> single_owner sock_ops (own_run sock_ops cmds)
   \<and> ow_bad (own_run acc_ops cmds) = 0 \<and> single_owner acc_ops (own_run acc_ops cmds)"
  by (simp only: raf_owner.never_closes_twice raf_owner.single_owners file_owner.never_closes_twice
      file_owner.single_owners rp_owner.never_closes_twice rp_owner.single_owners wp_owner.never_closes_twice
      wp_owner.single_owners sock_owner.never_closes_twice sock_owner.single_owners
      acc_owner.never_closes_twice acc_owner.single_owners simp_thms)

theorem descriptors_never_closed_twice_witness:
  "own_run sock_ops [OpenObj 0 5, MoveNew 1 0, DestroyObj 0, DestroyObj 1]
     = \<lparr>ow_objs = Map.empty, ow_open = {}, ow_bad = 0, ow_lost = []\<rparr>
   \<and> ow_bad (own_run sock_ops [OpenObj 0 5, MoveNew 1 0, DestroyObj 0, DestroyObj 1]) = 0"
  using descriptors_never_closed_twice [where cmds = "[OpenObj 0 5, MoveNew 1 0, DestroyObj 0, DestroyObj 1]"]
  by (simp add: own_run_def own_init_def sock_ops_def handle_simps kInvalidHandle_def close_fd_def fun_upd_idem)

text \<open>
  A descriptor leaks exactly by move assignment. In each of the six classes a
  descriptor is open if and only if an object owns it or an assignment overwrote it in the object
  that owned it.
\<close>

theorem descriptors_leak_only_by_assignment:
  "accounted (raf_ops junk) (own_run (raf_ops junk) cmds) \<and> accounted file_ops (own_run file_ops cmds)
   \<and> accounted rp_ops (own_run rp_ops cmds) \<and> accounted wp_ops (own_run wp_ops cmds)
   \<and> accounted sock_ops (own_run sock_ops cmds) \<and> accounted acc_ops (own_run acc_ops cmds)"
  by (simp only: raf_owner.all_accounted file_owner.all_accounted rp_owner.all_accounted
      wp_owner.all_accounted sock_owner.all_accounted acc_owner.all_accounted simp_thms)

theorem descriptors_leak_only_by_assignment_witness:
  "ow_objs (own_run sock_ops [OpenObj 0 5, OpenObj 1 6, MoveAssign 0 1, DestroyObj 0, DestroyObj 1]) = Map.empty
   \<and> 5 \<in> ow_open (own_run sock_ops [OpenObj 0 5, OpenObj 1 6, MoveAssign 0 1, DestroyObj 0, DestroyObj 1])"
proof -
  have s: "own_run sock_ops [OpenObj 0 5, OpenObj 1 6, MoveAssign 0 1, DestroyObj 0, DestroyObj 1]
      = \<lparr>ow_objs = Map.empty, ow_open = {5}, ow_bad = 0, ow_lost = [5]\<rparr>"
    by (simp add: own_run_def own_init_def sock_ops_def handle_simps kInvalidHandle_def close_fd_def fun_upd_idem)
  then show ?thesis
    using descriptors_leak_only_by_assignment [where cmds = "[OpenObj 0 5, OpenObj 1 6, MoveAssign 0 1, DestroyObj 0, DestroyObj 1]"]
    by (simp add: accounted_def)
qed

end
