(* ===== verification/Generator.thy ===== *)
theory Generator
  imports Magio_Prelude
begin

section \<open>Generators (core/generator.h)\<close>

text \<open>
  A generator is a coroutine that its iterator resumes for one value at a time, and that may hand
  over to another one with \<^verbatim>\<open>co_yield std::move(gen)\<close>. The frames of the nested coroutines are
  linked by raw pointers: every promise has a parent, the root's promise points at the innermost
  coroutine (\<^verbatim>\<open>leaf_\<close>) and the others' at the root (\<^verbatim>\<open>root_\<close>), in one union. This
  theory models the promises on a heap with those pointers, and shows that what a consumer
  sees is what a plain stack of bodies gives.

  The body of a coroutine is the user's code, an argument: from a local state, and the exception
  that \<^verbatim>\<open>await_resume\<close> threw if it did, it goes on to its next suspension, return or
  throw. A heap is a list of frames, an address an index, a destroyed frame \<open>None\<close>.
\<close>

datatype ('v, 'e, 's) gen_act =
  GYield 'v 's | GNest "'s option" 's | GReturn | GThrow 'e

type_synonym ('v, 'e, 's) gen_prog = "'s \<Rightarrow> 'e option \<Rightarrow> ('v, 'e, 's) gen_act"

text \<open>
  The promise. \<open>pr_link\<close> is the union of \<^verbatim>\<open>root_\<close> and \<^verbatim>\<open>leaf_\<close>;
  \<open>pr_exception\<close> points at the \<^verbatim>\<open>exception_\<close> of the awaiter in the named frame. With
  the promise the frame holds the local state, the mark of the final suspension, and, while it is
  suspended in a \<^verbatim>\<open>co_yield\<close> of a generator, the \<^verbatim>\<open>yield_sequence_awaiter\<close>: the
  nested coroutine that it owns and its \<^verbatim>\<open>exception_\<close>.
\<close>

record ('v, 'e, 's) promise =
  pr_link :: nat
  pr_parent :: "nat option"
  pr_exception :: "nat option"
  pr_value :: "'v option"
  pr_state :: 's
  pr_done :: bool
  pr_awaiter :: "(nat \<times> 'e option) option"

type_synonym ('v, 'e, 's) gen_heap = "('v, 'e, 's) promise option list"

definition frame :: "('v, 'e, 's) gen_heap \<Rightarrow> nat \<Rightarrow> ('v, 'e, 's) promise option" where
  "frame w h = (if h < length w then w ! h else None)"

definition on_frame ::
  "nat \<Rightarrow> (('v, 'e, 's) promise \<Rightarrow> ('v, 'e, 's) promise) \<Rightarrow> ('v, 'e, 's) gen_heap \<Rightarrow> ('v, 'e, 's) gen_heap" where
  "on_frame h f w = (case frame w h of Some p \<Rightarrow> w[h := Some (f p)] | None \<Rightarrow> w)"

text \<open>Calling a generator function: a frame whose promise points at itself, not yet started.\<close>

definition gen_call :: "'s \<Rightarrow> ('v, 'e, 's) gen_heap \<Rightarrow> nat \<times> ('v, 'e, 's) gen_heap" where
  "gen_call s w =
     (length w, w @ [Some \<lparr>pr_link = length w, pr_parent = None, pr_exception = None, pr_value = None,
                           pr_state = s, pr_done = False, pr_awaiter = None\<rparr>])"

text \<open>
  \<^verbatim>\<open>coro_.destroy()\<close>: the frame with the awaiter in it, and so the nested one it owns.
\<close>

function gen_destroy :: "nat \<Rightarrow> ('v, 'e, 's) gen_heap \<Rightarrow> ('v, 'e, 's) gen_heap" where
  "gen_destroy h w =
     (case frame w h of
        None \<Rightarrow> w
      | Some p \<Rightarrow> (case pr_awaiter p of
                     Some (n, _) \<Rightarrow> gen_destroy n (w[h := None])
                   | None \<Rightarrow> w[h := None]))"
  by pat_completeness auto
termination
proof (relation "measure (\<lambda>(_, w). length (filter (\<lambda>x. x \<noteq> None) w))")
  fix h n x and w :: "('v, 'e, 's) gen_heap" and p a
  assume "frame w h = Some p"
  then have h: "h < length w" "w ! h = Some p" by (auto simp: frame_def split: if_splits)
  have "w = take h w @ w ! h # drop (Suc h) w" using h(1) by (rule id_take_nth_drop)
  then have "length (filter (\<lambda>x. x \<noteq> None) w)
      = length (filter (\<lambda>x. x \<noteq> None) (take h w @ w ! h # drop (Suc h) w))" by simp
  then show "((n, w[h := None]), h, w) \<in> measure (\<lambda>(_, w). length (filter (\<lambda>x. x \<noteq> None) w))"
    using h by (simp add: upd_conv_take_nth_drop)
qed simp

declare gen_destroy.simps [simp del]

subsection \<open>Running\<close>

text \<open>
  Control is with a coroutine or back with whoever called \<^verbatim>\<open>resume\<close>: it was suspended or it
  threw. Resuming a frame that does not exist or has ended is undefined.
\<close>

datatype 'e outcome = Suspended | Raised 'e | Undefined

datatype 'e control = Running nat | Stopped "'e outcome"

text \<open>
  \<^verbatim>\<open>yield_sequence_awaiter::await_resume\<close> and the end of the awaiter: the exception of the
  nested coroutine, and the nested frame is destroyed.
\<close>

definition await_resume :: "nat \<Rightarrow> ('v, 'e, 's) promise \<Rightarrow> ('v, 'e, 's) gen_heap \<Rightarrow> 'e option \<times> ('v, 'e, 's) gen_heap" where
  "await_resume h p w =
     (case pr_awaiter p of
        None \<Rightarrow> (None, w)
      | Some (n, exn) \<Rightarrow> (exn, gen_destroy n (on_frame h (\<lambda>p. p\<lparr>pr_awaiter := None\<rparr>) w)))"

definition yield_value :: "nat \<Rightarrow> 'v \<Rightarrow> ('v, 'e, 's) promise \<Rightarrow> ('v, 'e, 's) gen_heap \<Rightarrow> ('v, 'e, 's) gen_heap" where
  "yield_value h v p w = on_frame (pr_link p) (\<lambda>r. r\<lparr>pr_value := Some v\<rparr>) w"

text \<open>
  \<^verbatim>\<open>yield_sequence_awaiter::await_suspend\<close> of the coroutine \<open>h\<close> with the nested \<open>n\<close>: the
  statements in their order; \<open>root\<close> is the pointer that \<^verbatim>\<open>current.root_\<close> holds.
\<close>

definition sequence_suspend :: "nat \<Rightarrow> nat \<Rightarrow> ('v, 'e, 's) promise \<Rightarrow> ('v, 'e, 's) gen_heap \<Rightarrow> ('v, 'e, 's) gen_heap" where
  "sequence_suspend h n p w =
     (let root = pr_link p;
          w = on_frame n (\<lambda>q. q\<lparr>pr_link := root\<rparr>) w;
          w = on_frame root (\<lambda>r. r\<lparr>pr_link := n\<rparr>) w
      in on_frame n (\<lambda>q. q\<lparr>pr_parent := Some h, pr_exception := Some h\<rparr>) w)"

text \<open>\<^verbatim>\<open>final_awaiter::await_suspend\<close>.\<close>

definition final_suspend :: "nat \<Rightarrow> ('v, 'e, 's) promise \<Rightarrow> ('v, 'e, 's) gen_heap \<Rightarrow> 'e control \<times> ('v, 'e, 's) gen_heap" where
  "final_suspend h p w =
     (let w = on_frame h (\<lambda>p. p\<lparr>pr_done := True\<rparr>) w
      in case pr_parent p of
           Some parent \<Rightarrow> (Running parent, on_frame (pr_link p) (\<lambda>r. r\<lparr>pr_link := parent\<rparr>) w)
         | None \<Rightarrow> (Stopped Suspended, w))"

text \<open>
  \<^verbatim>\<open>unhandled_exception\<close>: without a place to put it the exception leaves \<^verbatim>\<open>resume\<close>, and
  the coroutine counts as finally suspended.
\<close>

definition unhandled_exception ::
  "nat \<Rightarrow> 'e \<Rightarrow> ('v, 'e, 's) promise \<Rightarrow> ('v, 'e, 's) gen_heap \<Rightarrow> 'e control \<times> ('v, 'e, 's) gen_heap" where
  "unhandled_exception h e p w =
     (case pr_exception p of
        None \<Rightarrow> (Stopped (Raised e), on_frame h (\<lambda>p. p\<lparr>pr_done := True\<rparr>) w)
      | Some a \<Rightarrow> final_suspend h p
          (on_frame a (\<lambda>q. q\<lparr>pr_awaiter := map_option (\<lambda>(n, _). (n, Some e)) (pr_awaiter q)\<rparr>) w))"

text \<open>What the running coroutine does up to its next suspension point.\<close>

definition gen_perform ::
  "('v, 'e, 's) gen_prog \<Rightarrow> nat \<Rightarrow> ('v, 'e, 's) promise \<Rightarrow> ('v, 'e, 's) gen_heap \<Rightarrow> 'e control \<times> ('v, 'e, 's) gen_heap" where
  "gen_perform prog h p w =
     (let (exn, w) = await_resume h p w
      in case prog (pr_state p) exn of
           GYield v s \<Rightarrow> (Stopped Suspended, on_frame h (\<lambda>p. p\<lparr>pr_state := s\<rparr>) (yield_value h v p w))
         | GNest None s \<Rightarrow> (Running h, on_frame h (\<lambda>p. p\<lparr>pr_state := s\<rparr>) w)
         | GNest (Some s') s \<Rightarrow>
             (let (n, w) = gen_call s' w;
                  w = on_frame h (\<lambda>p. p\<lparr>pr_state := s, pr_awaiter := Some (n, None)\<rparr>) w
              in (Running n, sequence_suspend h n p w))
         | GReturn \<Rightarrow> final_suspend h p w
         | GThrow e \<Rightarrow> unhandled_exception h e p w)"

definition gen_step :: "('v, 'e, 's) gen_prog \<Rightarrow> 'e control \<times> ('v, 'e, 's) gen_heap \<Rightarrow> 'e control \<times> ('v, 'e, 's) gen_heap" where
  "gen_step prog = (\<lambda>(c, w).
     case c of
       Stopped r \<Rightarrow> (c, w)
     | Running h \<Rightarrow> (case frame w h of
           None \<Rightarrow> (Stopped Undefined, w)
         | Some p \<Rightarrow> if pr_done p then (Stopped Undefined, w) else gen_perform prog h p w))"

definition is_running :: "'e control \<times> 'w \<Rightarrow> bool" where
  "is_running s = (case fst s of Running _ \<Rightarrow> True | Stopped _ \<Rightarrow> False)"

text \<open>
  \<^verbatim>\<open>coroutine_handle::resume\<close>; \<open>None\<close> when control never comes back.
\<close>

definition gen_resume :: "('v, 'e, 's) gen_prog \<Rightarrow> nat \<Rightarrow> ('v, 'e, 's) gen_heap \<Rightarrow> ('e control \<times> ('v, 'e, 's) gen_heap) option" where
  "gen_resume prog h w = while_option is_running (gen_step prog) (Running h, w)"

subsection \<open>The iterator\<close>

definition gen_begin :: "('v, 'e, 's) gen_prog \<Rightarrow> nat option \<Rightarrow> ('v, 'e, 's) gen_heap \<Rightarrow> ('e control \<times> ('v, 'e, 's) gen_heap) option" where
  "gen_begin prog coro w =
     (case coro of Some h \<Rightarrow> gen_resume prog h w | None \<Rightarrow> Some (Stopped Suspended, w))"

definition it_at_end :: "nat option \<Rightarrow> ('v, 'e, 's) gen_heap \<Rightarrow> bool" where
  "it_at_end coro w =
     (case coro of None \<Rightarrow> True | Some h \<Rightarrow> (case frame w h of Some p \<Rightarrow> pr_done p | None \<Rightarrow> True))"

definition it_next :: "('v, 'e, 's) gen_prog \<Rightarrow> nat \<Rightarrow> ('v, 'e, 's) gen_heap \<Rightarrow> ('e control \<times> ('v, 'e, 's) gen_heap) option" where
  "it_next prog h w =
     (case frame w h of Some p \<Rightarrow> gen_resume prog (pr_link p) w | None \<Rightarrow> Some (Stopped Undefined, w))"

definition it_deref :: "nat \<Rightarrow> ('v, 'e, 's) gen_heap \<Rightarrow> 'v option" where
  "it_deref h w = (case frame w h of Some p \<Rightarrow> pr_value p | None \<Rightarrow> None)"

text \<open>
  The rest of the iterator: post-increment is pre-increment without a result; moving, by construction from an
  empty one and by assignment, exchanges the handles. \<^verbatim>\<open>end()\<close> is an object without state, compared by \<open>it_at_end\<close>.
\<close>

definition it_post_inc :: "('v, 'e, 's) gen_prog \<Rightarrow> nat \<Rightarrow> ('v, 'e, 's) gen_heap \<Rightarrow> ('e control \<times> ('v, 'e, 's) gen_heap) option" where
  "it_post_inc prog h w = it_next prog h w"

definition it_arrow :: "nat \<Rightarrow> ('v, 'e, 's) gen_heap \<Rightarrow> 'v option" where
  "it_arrow h w = it_deref h w"

definition it_swap :: "nat option \<Rightarrow> nat option \<Rightarrow> nat option \<times> nat option" where
  "it_swap this other = (other, this)"

definition it_move_ctor :: "nat option \<Rightarrow> nat option \<times> nat option" where
  "it_move_ctor other = it_swap None other"

definition it_move_assign :: "nat option \<Rightarrow> nat option \<Rightarrow> nat option \<times> nat option" where
  "it_move_assign this other = it_swap this other"

lemma moved_iterator_is_at_end: "it_at_end (snd (it_move_ctor other)) w" "it_move_assign this (fst (it_move_assign other this)) = (this, this)"
  by (simp_all add: it_move_ctor_def it_move_assign_def it_swap_def it_at_end_def)

text \<open>\<^verbatim>\<open>Generator\<close> owns its coroutine: moves, swap (with assignment) and the destructor.\<close>

definition gen_move_ctor :: "nat option \<Rightarrow> nat option \<times> nat option" where
  "gen_move_ctor other = (other, None)"

definition gen_swap :: "nat option \<Rightarrow> nat option \<Rightarrow> nat option \<times> nat option" where
  "gen_swap a b = (b, a)"

definition gen_dtor :: "nat option \<Rightarrow> ('v, 'e, 's) gen_heap \<Rightarrow> ('v, 'e, 's) gen_heap" where
  "gen_dtor coro w = (case coro of Some h \<Rightarrow> gen_destroy h w | None \<Rightarrow> w)"

definition gen_assign :: "nat option \<Rightarrow> nat option \<Rightarrow> ('v, 'e, 's) gen_heap \<Rightarrow> nat option \<times> ('v, 'e, 's) gen_heap" where
  "gen_assign this g w = (let (this', g') = gen_swap this g in (this', gen_dtor g' w))"

text \<open>
  A range-based \<^verbatim>\<open>for\<close> over the generator that reads at most \<open>n\<close> values: what it read, how
  it ended, and the heap.
\<close>

datatype 'e ending = Exhausted | Stopped_early | Threw 'e | Broken

fun gen_loop ::
  "('v, 'e, 's) gen_prog \<Rightarrow> nat \<Rightarrow> nat \<Rightarrow> 'e control \<times> ('v, 'e, 's) gen_heap
     \<Rightarrow> ('v option list \<times> 'e ending \<times> ('v, 'e, 's) gen_heap) option" where
  "gen_loop prog h n (Stopped (Raised e), w) = Some ([], Threw e, w)"
| "gen_loop prog h n (Stopped Undefined, w) = Some ([], Broken, w)"
| "gen_loop prog h n (Running k, w) = Some ([], Broken, w)"
| "gen_loop prog h 0 (Stopped Suspended, w) =
     Some ([], if it_at_end (Some h) w then Exhausted else Stopped_early, w)"
| "gen_loop prog h (Suc n) (Stopped Suspended, w) =
     (if it_at_end (Some h) w then Some ([], Exhausted, w)
      else map_option (\<lambda>(vs, r). (it_deref h w # vs, r))
             (Option.bind (it_next prog h w) (gen_loop prog h n)))"

definition gen_take :: "('v, 'e, 's) gen_prog \<Rightarrow> nat \<Rightarrow> 's \<Rightarrow> ('v, 'e, 's) gen_heap \<Rightarrow> ('v option list \<times> 'e ending \<times> ('v, 'e, 's) gen_heap) option" where
  "gen_take prog n s w =
     (let (h, w) = gen_call s w in Option.bind (gen_begin prog (Some h) w) (gen_loop prog h n))"

subsection \<open>The specification: a stack of bodies\<close>

text \<open>
  The innermost body is on top; a nested sequence pushes its body, a return pops it, and an
  exception is thrown into the body below.
\<close>

datatype ('v, 'e, 's) stack_run =
  RRun "'s list" "'e option" | RYield 'v "'s list" | RFinished | RRaised 'e

fun stack_step :: "('v, 'e, 's) gen_prog \<Rightarrow> ('v, 'e, 's) stack_run \<Rightarrow> ('v, 'e, 's) stack_run" where
  "stack_step prog (RRun (s # ss) exn) =
     (case prog s exn of
        GYield v s' \<Rightarrow> RYield v (s' # ss)
      | GNest None s' \<Rightarrow> RRun (s' # ss) None
      | GNest (Some s0) s' \<Rightarrow> RRun (s0 # s' # ss) None
      | GReturn \<Rightarrow> if ss = [] then RFinished else RRun ss None
      | GThrow e \<Rightarrow> if ss = [] then RRaised e else RRun ss (Some e))"
| "stack_step prog t = t"

definition is_RRun :: "('v, 'e, 's) stack_run \<Rightarrow> bool" where
  "is_RRun t = (case t of RRun _ _ \<Rightarrow> True | _ \<Rightarrow> False)"

definition stack_resume :: "('v, 'e, 's) gen_prog \<Rightarrow> 's list \<Rightarrow> ('v, 'e, 's) stack_run option" where
  "stack_resume prog ss = while_option is_RRun (stack_step prog) (RRun ss None)"

fun stack_loop :: "('v, 'e, 's) gen_prog \<Rightarrow> nat \<Rightarrow> ('v, 'e, 's) stack_run \<Rightarrow> ('v option list \<times> 'e ending) option" where
  "stack_loop prog n (RRaised e) = Some ([], Threw e)"
| "stack_loop prog n RFinished = Some ([], Exhausted)"
| "stack_loop prog n (RRun ss exn) = Some ([], Broken)"
| "stack_loop prog 0 (RYield v ss) = Some ([], Stopped_early)"
| "stack_loop prog (Suc n) (RYield v ss) =
     map_option (\<lambda>(vs, r). (Some v # vs, r)) (Option.bind (stack_resume prog ss) (stack_loop prog n))"

definition stack_take :: "('v, 'e, 's) gen_prog \<Rightarrow> nat \<Rightarrow> 's \<Rightarrow> ('v option list \<times> 'e ending) option" where
  "stack_take prog n s = Option.bind (stack_resume prog [s]) (stack_loop prog n)"

subsection \<open>Heaps\<close>

lemma frame_on_frame [simp]: "frame (on_frame h f w) i = (if i = h then map_option f (frame w h) else frame w i)"
  by (auto simp: on_frame_def frame_def split: option.splits)

lemma length_on_frame [simp]: "length (on_frame h f w) = length w"
  by (simp add: on_frame_def split: option.splits)

lemma frame_append [simp]: "frame (w @ [x]) i = (if i = length w then x else frame w i)"
  by (auto simp: frame_def nth_append)

lemma frame_None_upd [simp]: "frame (w[h := None]) i = (if i = h then None else frame w i)"
  by (auto simp: frame_def)

lemma frame_beyond: "length w \<le> i \<Longrightarrow> frame w i = None"
  by (simp add: frame_def)

lemma frame_eqI:
  assumes "length v = length w" and "\<And>i. frame v i = frame w i"
  shows "v = w"
proof (rule nth_equalityI)
  fix i assume "i < length v"
  with assms(1) assms(2) [of i] show "v ! i = w ! i" by (simp add: frame_def)
qed (fact assms(1))

lemma destroy_leaf:
  "frame w h = Some p \<Longrightarrow> pr_awaiter p = None \<Longrightarrow> gen_destroy h w = w[h := None]"
  by (simp add: gen_destroy.simps [of h])

lemma length_gen_destroy [simp]: "length (gen_destroy h w) = length w"
proof (induction h w rule: gen_destroy.induct)
  case (1 h w)
  then show ?case by (auto simp: gen_destroy.simps [of h] split: option.splits)
qed

subsection \<open>The chain of promises\<close>

text \<open>
  \<open>chain w r aw ids ss\<close>: the coroutines \<open>ids\<close>, innermost first, up to the root \<open>r\<close>, hold the
  local states \<open>ss\<close>, each is suspended in the awaiter that owns the one before, \<open>aw\<close> is the
  innermost one's awaiter, and the pointers are as the code needs them.
\<close>

fun chain :: "('v, 'e, 's) gen_heap \<Rightarrow> nat \<Rightarrow> (nat \<times> 'e option) option \<Rightarrow> nat list \<Rightarrow> 's list \<Rightarrow> bool" where
  "chain w r aw (i # is) (s # ss) =
     (\<exists>p. frame w i = Some p \<and> pr_state p = s \<and> \<not> pr_done p \<and> pr_awaiter p = aw
        \<and> (if is = [] then i = r \<and> ss = [] \<and> pr_parent p = None \<and> pr_exception p = None
           else i \<noteq> r \<and> pr_link p = r \<and> pr_parent p = Some (hd is) \<and> pr_exception p = Some (hd is)
                \<and> chain w r (Some (i, None)) is ss))"
| "chain w r aw ids ss = False"

definition leaf_is :: "('v, 'e, 's) gen_heap \<Rightarrow> nat \<Rightarrow> nat \<Rightarrow> bool" where
  "leaf_is w r h \<longleftrightarrow> (\<exists>p. frame w r = Some p \<and> pr_link p = h)"

definition owned :: "('v, 'e, 's) gen_heap \<Rightarrow> ('v, 'e, 's) gen_heap \<Rightarrow> nat set \<Rightarrow> bool" where
  "owned w0 w A \<longleftrightarrow> length w0 < length w \<and> A \<subseteq> {length w0..<length w}
     \<and> (\<forall>i. if i < length w0 then frame w i = frame w0 i else i \<notin> A \<longrightarrow> frame w i = None)"

text \<open>Changes that the chain does not see: values, and the root's pointer to the leaf.\<close>

definition alike :: "nat \<Rightarrow> nat \<Rightarrow> ('v, 'e, 's) promise \<Rightarrow> ('v, 'e, 's) promise \<Rightarrow> bool" where
  "alike r i p q \<longleftrightarrow> pr_parent q = pr_parent p \<and> pr_exception q = pr_exception p \<and> pr_state q = pr_state p
     \<and> pr_done q = pr_done p \<and> pr_awaiter q = pr_awaiter p \<and> (i \<noteq> r \<longrightarrow> pr_link q = pr_link p)"

lemma alike_refl [simp]: "alike r i p p"
  by (simp add: alike_def)

lemma chain_alike:
  assumes "chain w r aw ids ss"
    and "\<And>i p. i \<in> set ids \<Longrightarrow> frame w i = Some p \<Longrightarrow> \<exists>q. frame w' i = Some q \<and> alike r i p q"
  shows "chain w' r aw ids ss"
  using assms
proof (induction w r aw ids ss rule: chain.induct)
  case (1 w r aw i "is" s ss)
  from "1.prems"(1) obtain p where p: "frame w i = Some p" "pr_state p = s" "\<not> pr_done p" "pr_awaiter p = aw"
    and rest: "if is = [] then i = r \<and> ss = [] \<and> pr_parent p = None \<and> pr_exception p = None
           else i \<noteq> r \<and> pr_link p = r \<and> pr_parent p = Some (hd is) \<and> pr_exception p = Some (hd is)
                \<and> chain w r (Some (i, None)) is ss" by auto
  obtain q where q: "frame w' i = Some q" "alike r i p q" using "1.prems"(2) [OF _ p(1)] by auto
  show ?case
  proof (cases "is = []")
    case True
    with p q rest show ?thesis by (simp add: alike_def)
  next
    case False
    with rest have "chain w r (Some (i, None)) is ss" by simp
    from "1.IH" [OF False this] "1.prems"(2) have "chain w' r (Some (i, None)) is ss" by simp
    with False p q rest show ?thesis by (simp add: alike_def)
  qed
qed auto

lemma chain_lengths: "chain w r aw ids ss \<Longrightarrow> ids \<noteq> [] \<and> ss \<noteq> [] \<and> last ids = r"
  by (induction w r aw ids ss rule: chain.induct) (auto split: if_splits)

lemma chain_frames: "chain w r aw ids ss \<Longrightarrow> i \<in> set ids \<Longrightarrow> \<exists>p. frame w i = Some p \<and> \<not> pr_done p"
  by (induction w r aw ids ss rule: chain.induct) (auto split: if_splits)

lemma chain_hd: "chain w r aw ids ss \<Longrightarrow> \<exists>p. frame w (hd ids) = Some p"
  using chain_frames chain_lengths hd_in_set by metis

lemma chain_root_in: "chain w r aw ids ss \<Longrightarrow> r \<in> set ids"
  using chain_lengths last_in_set by metis

subsection \<open>The pointers simulate the stack\<close>

definition clean :: "('v, 'e, 's) gen_heap \<Rightarrow> ('v, 'e, 's) gen_heap \<Rightarrow> nat list \<Rightarrow> 's list \<Rightarrow> bool" where
  "clean w0 w ids ss \<longleftrightarrow> chain w (length w0) None ids ss \<and> distinct ids \<and> owned w0 w (set ids)
     \<and> leaf_is w (length w0) (hd ids)"

definition ended :: "('v, 'e, 's) gen_heap \<Rightarrow> ('v, 'e, 's) gen_heap \<Rightarrow> bool" where
  "ended w0 w \<longleftrightarrow> owned w0 w {length w0}
     \<and> (\<exists>p. frame w (length w0) = Some p \<and> pr_done p \<and> pr_awaiter p = None)"

text \<open>A coroutine that a nested one handed back to: the nested frame still exists, and has ended.\<close>

definition handed_back ::
  "('v, 'e, 's) gen_heap \<Rightarrow> ('v, 'e, 's) gen_heap \<Rightarrow> nat list \<Rightarrow> 's list \<Rightarrow> 'e option \<Rightarrow> bool" where
  "handed_back w0 w ids ss exn \<longleftrightarrow> (\<exists>n q. chain w (length w0) (Some (n, exn)) ids ss \<and> distinct ids
     \<and> n \<notin> set ids \<and> frame w n = Some q \<and> pr_awaiter q = None
     \<and> owned w0 w (insert n (set ids)) \<and> leaf_is w (length w0) (hd ids))"

fun gen_rep :: "('v, 'e, 's) gen_heap \<Rightarrow> 'e control \<times> ('v, 'e, 's) gen_heap \<Rightarrow> ('v, 'e, 's) stack_run \<Rightarrow> bool" where
  "gen_rep w0 (Running h, w) (RRun ss exn) =
     (\<exists>ids. h = hd ids \<and> (exn = None \<and> clean w0 w ids ss \<or> handed_back w0 w ids ss exn))"
| "gen_rep w0 (Stopped Suspended, w) (RYield v ss) = ((\<exists>ids. clean w0 w ids ss) \<and> it_deref (length w0) w = Some v)"
| "gen_rep w0 (Stopped Suspended, w) RFinished = ended w0 w"
| "gen_rep w0 (Stopped (Raised e), w) (RRaised e') = (e = e' \<and> ended w0 w)"
| "gen_rep w0 s t = False"

lemma owned_on_frame [simp]: "k \<in> A \<Longrightarrow> owned w0 w A \<Longrightarrow> owned w0 (on_frame k f w) A"
  by (auto simp: owned_def subset_eq split: if_splits)

lemma clean_split:
  assumes "clean w0 w ids ss"
  obtains h "is" s ss' where "ids = h # is" "ss = s # ss'" "h \<notin> set is"
proof -
  from assms have "chain w (length w0) None ids ss" "distinct ids" by (simp_all add: clean_def)
  with that show thesis by (cases ids; cases ss) auto
qed

lemma clean_head:
  assumes "clean w0 w (h # is) (s # ss)" and "frame w h = Some p"
  shows "pr_state p = s" "\<not> pr_done p" "pr_awaiter p = None" "pr_link p = length w0"
    and "is = [] \<Longrightarrow> h = length w0 \<and> ss = [] \<and> pr_parent p = None \<and> pr_exception p = None"
    and "is \<noteq> [] \<Longrightarrow> h \<noteq> length w0 \<and> pr_parent p = Some (hd is) \<and> pr_exception p = Some (hd is)
           \<and> chain w (length w0) (Some (h, None)) is ss"
  using assms by (auto simp: clean_def leaf_is_def split: if_splits)

lemma root_owned: "clean w0 w ids ss \<Longrightarrow> length w0 \<in> set ids"
  unfolding clean_def by (elim conjE) (rule chain_root_in)

text \<open>Changing the local state of the innermost coroutine, or the value in the root.\<close>

lemma clean_state:
  assumes "clean w0 w (h # is) (s # ss)"
  shows "clean w0 (on_frame h (\<lambda>p. p\<lparr>pr_state := s'\<rparr>) w) (h # is) (s' # ss)"
proof -
  let ?w = "on_frame h (\<lambda>p. p\<lparr>pr_state := s'\<rparr>) w"
  have h: "h \<notin> set is" using assms by (simp add: clean_def)
  obtain p where p: "frame w h = Some p" using assms by (auto simp: clean_def)
  have "chain ?w (length w0) None (h # is) (s' # ss)"
  proof (cases "is = []")
    case True
    with clean_head [OF assms p] p show ?thesis by simp
  next
    case False
    with clean_head(6) [OF assms p] have "chain w (length w0) (Some (h, None)) is ss" by simp
    then have "chain ?w (length w0) (Some (h, None)) is ss" by (rule chain_alike) (use h in auto)
    with False clean_head [OF assms p] p show ?thesis by simp
  qed
  moreover have "leaf_is ?w (length w0) h" using assms by (auto simp: clean_def leaf_is_def)
  ultimately show ?thesis using assms by (simp add: clean_def)
qed

lemma clean_value:
  assumes "clean w0 w ids ss"
  shows "clean w0 (on_frame (length w0) (\<lambda>p. p\<lparr>pr_value := v\<rparr>) w) ids ss"
proof -
  have "chain (on_frame (length w0) (\<lambda>p. p\<lparr>pr_value := v\<rparr>) w) (length w0) None ids ss"
    using assms unfolding clean_def by (elim conjE) (erule chain_alike, auto simp: alike_def)
  then show ?thesis using assms root_owned [OF assms] by (auto simp: clean_def leaf_is_def)
qed

lemma rep_yield:
  assumes "clean w0 w (h # is) (s # ss)" and "frame w h = Some p" and "pr_link q = pr_link p"
  shows "gen_rep w0 (Stopped Suspended, on_frame h (\<lambda>p. p\<lparr>pr_state := s'\<rparr>) (yield_value h v q w)) (RYield v (s' # ss))"
proof -
  have link: "pr_link q = length w0" using assms(3) clean_head(4) [OF assms(1,2)] by simp
  have "\<exists>r. frame w (length w0) = Some r" using assms(1) by (auto simp: clean_def leaf_is_def)
  then have "it_deref (length w0) (on_frame h (\<lambda>p. p\<lparr>pr_state := s'\<rparr>) (yield_value h v q w)) = Some v"
    by (auto simp: it_deref_def yield_value_def link)
  with clean_state [OF clean_value [OF assms(1)]] show ?thesis by (auto simp: yield_value_def link)
qed

lemma rep_nest:
  assumes cl: "clean w0 w (h # is) (s # ss)" and p: "frame w h = Some p" and q: "pr_link q = pr_link p"
    and w1_def: "w1 = on_frame h (\<lambda>p. p\<lparr>pr_state := s', pr_awaiter := Some (length w, None)\<rparr>) (snd (gen_call s0 w))"
  shows "gen_rep w0 (Running (length w), sequence_suspend h (length w) q w1) (RRun (s0 # s' # ss) None)"
proof -
  let ?n = "length w" and ?r = "length w0"
  let ?w = "sequence_suspend h ?n q w1"
  have link: "pr_link q = ?r" using q clean_head(4) [OF cl p] by simp
  have dist: "h \<notin> set is" "distinct is" using cl by (simp_all add: clean_def)
  have own: "owned w0 w (insert h (set is))" using cl by (simp add: clean_def)
  then have old: "i < ?n" if "i \<in> insert h (set is)" for i using that by (auto simp: owned_def)
  have r: "?r < ?n" using own by (simp add: owned_def)
  have new: "frame ?w ?n = Some \<lparr>pr_link = ?r, pr_parent = Some h, pr_exception = Some h, pr_value = None,
      pr_state = s0, pr_done = False, pr_awaiter = None\<rparr>"
    using old [of h] r by (simp add: sequence_suspend_def w1_def gen_call_def link Let_def)
  have other: "frame ?w i = map_option (\<lambda>x. (if i = ?r then (\<lambda>x. x\<lparr>pr_link := ?n\<rparr>) else id)
      ((if i = h then (\<lambda>x. x\<lparr>pr_state := s', pr_awaiter := Some (?n, None)\<rparr>) else id) x)) (frame w i)" if "i \<noteq> ?n" for i
    using that by (cases "frame w i") (auto simp: sequence_suspend_def w1_def gen_call_def link Let_def)
  have "chain ?w ?r (Some (?n, None)) (h # is) (s' # ss)"
  proof (cases "is = []")
    case True
    with clean_head(1,2,3,5) [OF cl p] p other [of h] old [of h] r show ?thesis by auto
  next
    case False
    from clean_head(6) [OF cl p this] have tl: "chain w ?r (Some (h, None)) is ss" and hr: "h \<noteq> ?r" by auto
    from tl have "chain ?w ?r (Some (h, None)) is ss"
    proof (rule chain_alike)
      fix i x assume "i \<in> set is" "frame w i = Some x"
      then show "\<exists>y. frame ?w i = Some y \<and> alike ?r i x y"
        using dist(1) old [of i] other [of i] by (auto simp: alike_def)
    qed
    with False clean_head(1,2,4,6) [OF cl p] p other [of h] old [of h] hr show ?thesis by auto
  qed
  then have "chain ?w ?r None (?n # h # is) (s0 # s' # ss)" using new r by auto
  moreover have "distinct (?n # h # is)" using dist old by auto
  moreover have "owned w0 ?w (insert ?n (insert h (set is)))"
    unfolding owned_def
  proof (intro conjI allI)
    have len: "length ?w = Suc ?n" by (simp add: sequence_suspend_def w1_def gen_call_def Let_def)
    then show "?r < length ?w" using r by simp
    show "insert ?n (insert h (set is)) \<subseteq> {?r..<length ?w}"
      using len own r by (auto simp: owned_def)
    fix i
    have "h \<ge> ?r" using own by (simp add: owned_def)
    then show "if i < ?r then frame ?w i = frame w0 i
          else i \<notin> insert ?n (insert h (set is)) \<longrightarrow> frame ?w i = None"
      using own r other [of i] by (cases "i < ?r") (auto simp: owned_def option.map_ident)
  qed
  moreover have "leaf_is ?w ?r ?n"
    using cl other [of ?r] r by (auto simp: clean_def leaf_is_def)
  ultimately have "clean w0 ?w (?n # h # is) (s0 # s' # ss)" by (simp add: clean_def)
  then show ?thesis by (auto intro!: exI [of _ "?n # h # is"])
qed

text \<open>The innermost coroutine ends, with the exception that its parent's awaiter was given.\<close>

lemma rep_end_root:
  assumes cl: "clean w0 w [h] ss" and p: "frame w h = Some p"
  shows "ended w0 (on_frame h (\<lambda>p. p\<lparr>pr_done := True\<rparr>) w)"
proof -
  obtain s ss' where ss: "ss = s # ss'" using cl by (rule clean_split) simp
  have "h = length w0" "pr_awaiter p = None" using clean_head(3,5) [OF cl [unfolded ss] p] by simp_all
  with cl p show ?thesis by (auto simp: clean_def ended_def)
qed

lemma rep_end_nested:
  assumes cl: "clean w0 w (h # j # js) (s # ss)" and p: "frame w h = Some p"
    and w1: "w1 = on_frame j (\<lambda>q. q\<lparr>pr_awaiter := Some (h, exn)\<rparr>) w"
    and w2: "w2 = on_frame (length w0) (\<lambda>r. r\<lparr>pr_link := j\<rparr>) (on_frame h (\<lambda>p. p\<lparr>pr_done := True\<rparr>) w1)"
  shows "gen_rep w0 (Running j, w2) (RRun ss exn)"
proof -
  let ?r = "length w0"
  have dist: "h \<noteq> j" "h \<notin> set js" "distinct (j # js)" "j \<notin> set js" using cl by (simp_all add: clean_def)
  note head = clean_head [OF cl p]
  from head(6) have tl: "chain w ?r (Some (h, None)) (j # js) ss" and hr: "h \<noteq> ?r" by auto
  obtain s' ss' where ss: "ss = s' # ss'" using chain_lengths [OF tl] by (cases ss) auto
  have other: "frame w2 i = map_option (\<lambda>x. (if i = ?r then (\<lambda>x. x\<lparr>pr_link := j\<rparr>) else id)
      ((if i = h then (\<lambda>x. x\<lparr>pr_done := True\<rparr>) else id)
       ((if i = j then (\<lambda>x. x\<lparr>pr_awaiter := Some (h, exn)\<rparr>) else id) x))) (frame w i)" for i
    by (cases "frame w i") (auto simp: w1 w2)
  have "chain w2 ?r (Some (h, exn)) (j # js) ss"
  proof (cases "js = []")
    case True
    with tl ss dist other [of j] show ?thesis by auto
  next
    case False
    with tl ss have "chain w ?r (Some (j, None)) js ss'" by auto
    then have "chain w2 ?r (Some (j, None)) js ss'"
    proof (rule chain_alike)
      fix i x assume "i \<in> set js" "frame w i = Some x"
      then show "\<exists>y. frame w2 i = Some y \<and> alike ?r i x y"
        using dist other [of i] by (auto simp: alike_def)
    qed
    with False tl ss dist other [of j] show ?thesis by auto
  qed
  moreover have "owned w0 w2 (insert h (set (j # js)))"
    using cl other by (auto simp: clean_def owned_def w1 w2)
  moreover have "leaf_is w2 ?r j"
    using cl other [of ?r] hr by (auto simp: clean_def leaf_is_def)
  moreover have "\<exists>q. frame w2 h = Some q \<and> pr_awaiter q = None"
    using other [of h] head(3) p hr dist by simp
  ultimately have "handed_back w0 w2 (j # js) ss exn"
    unfolding handed_back_def using dist by auto
  then show ?thesis by (auto intro!: exI [of _ "j # js"])
qed

lemma on_frame_same: "frame w h = Some p \<Longrightarrow> f p = p \<Longrightarrow> on_frame h f w = w"
  by (intro frame_eqI) auto

lemma rep_return:
  assumes cl: "clean w0 w (h # is) (s # ss)" and p: "frame w h = Some p"
    and q: "pr_link q = pr_link p" "pr_parent q = pr_parent p"
  shows "gen_rep w0 (final_suspend h q w) (if ss = [] then RFinished else RRun ss None)"
proof (cases "is")
  case Nil
  have "ss = []" using clean_head(5) [OF cl p] Nil by simp
  with rep_end_root [OF cl [unfolded Nil] p] clean_head(5) [OF cl p] Nil q show ?thesis
    by (simp add: final_suspend_def)
next
  case (Cons j js)
  note head = clean_head [OF cl p]
  have tl: "chain w (length w0) (Some (h, None)) (j # js) ss" using head(6) Cons by simp
  then have ss: "ss \<noteq> []" using chain_lengths by metis
  from tl obtain b where b: "frame w j = Some b" "pr_awaiter b = Some (h, None)"
    by (cases ss) auto
  have same: "on_frame j (\<lambda>q. q\<lparr>pr_awaiter := Some (h, None)\<rparr>) w = w"
    by (rule on_frame_same [OF b(1)]) (use b(2) in \<open>simp add: promise.defs\<close>)
  have "gen_rep w0 (Running j, on_frame (length w0) (\<lambda>r. r\<lparr>pr_link := j\<rparr>)
      (on_frame h (\<lambda>p. p\<lparr>pr_done := True\<rparr>) w)) (RRun ss None)"
    by (rule rep_end_nested [OF cl [unfolded Cons] p, where exn = None and ?w1.0 = w]) (simp_all add: same)
  with ss head(4,6) Cons q show ?thesis by (simp add: final_suspend_def Let_def)
qed

lemma rep_throw:
  assumes cl: "clean w0 w (h # is) (s # ss)" and p: "frame w h = Some p"
    and q: "pr_link q = pr_link p" "pr_parent q = pr_parent p" "pr_exception q = pr_exception p"
  shows "gen_rep w0 (unhandled_exception h e q w) (if ss = [] then RRaised e else RRun ss (Some e))"
proof (cases "is")
  case Nil
  have "ss = []" using clean_head(5) [OF cl p] Nil by simp
  with rep_end_root [OF cl [unfolded Nil] p] clean_head(5) [OF cl p] Nil q show ?thesis
    by (simp add: unhandled_exception_def)
next
  case (Cons j js)
  note head = clean_head [OF cl p]
  have tl: "chain w (length w0) (Some (h, None)) (j # js) ss" using head(6) Cons by simp
  then have ss: "ss \<noteq> []" using chain_lengths by metis
  from tl obtain b where b: "frame w j = Some b" "pr_awaiter b = Some (h, None)"
    by (cases ss) auto
  have same: "on_frame j (\<lambda>q. q\<lparr>pr_awaiter := map_option (\<lambda>(n, _). (n, Some e)) (pr_awaiter q)\<rparr>) w
      = on_frame j (\<lambda>q. q\<lparr>pr_awaiter := Some (h, Some e)\<rparr>) w"
    by (rule frame_eqI) (simp_all add: b)
  have "gen_rep w0 (Running j, on_frame (length w0) (\<lambda>r. r\<lparr>pr_link := j\<rparr>)
      (on_frame h (\<lambda>p. p\<lparr>pr_done := True\<rparr>) (on_frame j (\<lambda>q. q\<lparr>pr_awaiter := Some (h, Some e)\<rparr>) w))) (RRun ss (Some e))"
    by (rule rep_end_nested [OF cl [unfolded Cons] p refl refl])
  with ss head(4,6) Cons q show ?thesis
    by (simp add: unhandled_exception_def final_suspend_def same Let_def)
qed

text \<open>Resumption in an awaiter: the nested frame goes, and the coroutine is on top again.\<close>

lemma rep_await:
  assumes "gen_rep w0 (Running h, w) (RRun ss exn)" and "frame w h = Some p"
  shows "\<not> pr_done p" and "\<exists>is ss'. ss = pr_state p # ss' \<and> fst (await_resume h p w) = exn
     \<and> clean w0 (snd (await_resume h p w)) (h # is) ss
     \<and> frame (snd (await_resume h p w)) h = Some (p\<lparr>pr_awaiter := None\<rparr>)"
proof -
  from assms(1) obtain ids where h: "h = hd ids"
    and or: "exn = None \<and> clean w0 w ids ss \<or> handed_back w0 w ids ss exn" by auto
  from or have "\<not> pr_done p \<and> (\<exists>is ss'. ss = pr_state p # ss' \<and> fst (await_resume h p w) = exn
     \<and> clean w0 (snd (await_resume h p w)) (h # is) ss
     \<and> frame (snd (await_resume h p w)) h = Some (p\<lparr>pr_awaiter := None\<rparr>))"
  proof
    assume l: "exn = None \<and> clean w0 w ids ss"
    then have cl: "clean w0 w ids ss" by simp
    obtain "is" s ss' where ids: "ids = h # is" and ss: "ss = s # ss'"
      using h by (rule_tac clean_split [OF cl]) simp
    from clean_head [OF cl [unfolded ids ss] assms(2)]
    show ?thesis using l ids ss assms(2) by (auto simp: await_resume_def promise.defs)
  next
    let ?r = "length w0"
    assume "handed_back w0 w ids ss exn"
    then obtain n q where ch: "chain w ?r (Some (n, exn)) ids ss" and dist: "distinct ids" "n \<notin> set ids"
      and q: "frame w n = Some q" "pr_awaiter q = None"
      and own: "owned w0 w (insert n (set ids))" and lf: "leaf_is w ?r (hd ids)"
      unfolding handed_back_def by blast
    from ch h obtain "is" s ss' where ids: "ids = h # is" and ss: "ss = s # ss'"
      by (cases ids; cases ss) auto
    have p: "pr_awaiter p = Some (n, exn)" "pr_state p = s" "\<not> pr_done p" using ch assms(2) by (auto simp: ids ss)
    have nh: "n \<noteq> h" "h \<notin> set is" "n \<notin> set is" using dist by (simp_all add: ids)
    let ?w = "(on_frame h (\<lambda>p. p\<lparr>pr_awaiter := None\<rparr>) w)[n := None]"
    have aw: "await_resume h p w = (exn, ?w)"
      using p q nh by (simp add: await_resume_def destroy_leaf)
    have rn: "?r \<noteq> n" using chain_root_in [OF ch] dist(2) by auto
    have "chain ?w ?r None (h # is) (s # ss')"
    proof (cases "is = []")
      case True
      with ch assms(2) nh show ?thesis by (auto simp: ids ss)
    next
      case False
      with ch have "chain w ?r (Some (h, None)) is ss'" by (auto simp: ids ss)
      then have "chain ?w ?r (Some (h, None)) is ss'"
      proof (rule chain_alike)
        fix i x assume "i \<in> set is" "frame w i = Some x"
        then show "\<exists>y. frame ?w i = Some y \<and> alike ?r i x y" using nh by auto
      qed
      with False ch assms(2) nh show ?thesis by (auto simp: ids ss)
    qed
    moreover have "owned w0 ?w (set ids)"
      using own nh by (auto simp: owned_def ids)
    moreover have "leaf_is ?w ?r h" using lf rn by (auto simp: leaf_is_def ids)
    ultimately have "clean w0 ?w (h # is) ss" using dist(1) by (simp add: clean_def ids ss)
    with aw p ss assms(2) nh show ?thesis by auto
  qed
  then show "\<not> pr_done p" and "\<exists>is ss'. ss = pr_state p # ss' \<and> fst (await_resume h p w) = exn
     \<and> clean w0 (snd (await_resume h p w)) (h # is) ss
     \<and> frame (snd (await_resume h p w)) h = Some (p\<lparr>pr_awaiter := None\<rparr>)" by blast+
qed

lemma rep_step:
  assumes "gen_rep w0 (c, w) t" and "is_running (c, w)"
  shows "gen_rep w0 (gen_step prog (c, w)) (stack_step prog t)"
proof -
  from assms(2) obtain h where c: "c = Running h" by (cases c) (simp_all add: is_running_def)
  with assms(1) obtain ss exn where t: "t = RRun ss exn" by (cases t) auto
  note rep = assms(1) [unfolded c t]
  have "\<exists>p. frame w h = Some p"
    using rep by (auto simp: clean_def handed_back_def dest: chain_hd)
  then obtain p where p: "frame w h = Some p" by blast
  obtain exn' w' where aw: "await_resume h p w = (exn', w')" by fastforce
  from rep_await [OF rep p] aw obtain "is" ss' where nd: "\<not> pr_done p" and ss: "ss = pr_state p # ss'"
    and exn: "exn' = exn" and cl: "clean w0 w' (h # is) (pr_state p # ss')"
    and fr: "frame w' h = Some (p\<lparr>pr_awaiter := None\<rparr>)" by auto
  have step: "gen_step prog (c, w) = gen_perform prog h p w"
    using p nd by (simp add: gen_step_def c)
  show ?thesis
  proof (cases "prog (pr_state p) exn")
    case (GYield v s')
    with rep_yield [OF cl fr, of p s' v] show ?thesis by (simp add: step gen_perform_def aw exn t ss)
  next
    case (GNest x s')
    show ?thesis
    proof (cases x)
      case None
      with GNest clean_state [OF cl, of s'] show ?thesis
        by (auto simp: step gen_perform_def aw exn t ss intro!: exI [of _ "h # is"])
    next
      case (Some s0)
      with GNest rep_nest [OF cl fr, of p _ s' s0] show ?thesis
        by (simp add: step gen_perform_def aw exn t ss gen_call_def)
    qed
  next
    case GReturn
    with rep_return [OF cl fr, of p] show ?thesis by (simp add: step gen_perform_def aw exn t ss)
  next
    case (GThrow e)
    with rep_throw [OF cl fr, of p e] show ?thesis by (simp add: step gen_perform_def aw exn t ss)
  qed
qed

lemma rep_guard: "gen_rep w0 s t \<Longrightarrow> is_running s = is_RRun t"
  by (cases "(w0, s, t)" rule: gen_rep.cases) (auto simp: is_running_def is_RRun_def)

lemma resume_rep:
  assumes "gen_rep w0 (Running h, w) (RRun ss None)"
  shows "rel_option (\<lambda>s t. gen_rep w0 s t \<and> \<not> is_running s) (gen_resume prog h w) (stack_resume prog ss)"
proof -
  have "rel_option (gen_rep w0) (gen_resume prog h w) (stack_resume prog ss)"
    unfolding gen_resume_def stack_resume_def
    by (rule while_option_simulation [where R = "gen_rep w0"]) (use assms in \<open>auto dest: rep_guard intro: rep_step\<close>)
  moreover have "\<not> is_running s" if "gen_resume prog h w = Some s" for s
    using while_option_stop [OF that [unfolded gen_resume_def]] .
  ultimately show ?thesis by (auto simp: option_rel_Some1 rel_option_iff split: option.splits)
qed

subsection \<open>The destructor\<close>

lemma chain_awaiters:
  "chain w r aw ids ss \<Longrightarrow> m < length ids \<Longrightarrow>
     \<exists>p. frame w (ids ! m) = Some p \<and> pr_awaiter p = (if m = 0 then aw else Some (ids ! (m - 1), None))"
proof (induction w r aw ids ss arbitrary: m rule: chain.induct)
  case (1 w r aw i "is" s ss)
  show ?case
  proof (cases m)
    case (Suc k)
    with "1.prems" have ne: "is \<noteq> []" and k: "k < length is" by auto
    with "1.prems"(1) have "chain w r (Some (i, None)) is ss" by auto
    from "1.IH" [OF ne this k] Suc show ?thesis by (cases k) auto
  qed (use "1.prems" in auto)
qed auto

lemma destroy_chain:
  assumes "distinct ids" and "k < length ids"
    and "\<And>m. m \<le> k \<Longrightarrow> \<exists>p e. frame w (ids ! m) = Some p
           \<and> pr_awaiter p = (if m = 0 then None else Some (ids ! (m - 1), e))"
  shows "frame (gen_destroy (ids ! k) w) j = (if j \<in> set (take (Suc k) ids) then None else frame w j)"
  using assms(2,3)
proof (induction k arbitrary: w)
  case 0
  then show ?case using "0.prems"(2) [of 0] by (auto simp: destroy_leaf take_Suc_conv_app_nth)
next
  case (Suc k)
  obtain p e where p: "frame w (ids ! Suc k) = Some p" "pr_awaiter p = Some (ids ! k, e)"
    using Suc.prems(2) [of "Suc k"] by auto
  have "\<exists>p e. frame (w[ids ! Suc k := None]) (ids ! m) = Some p
           \<and> pr_awaiter p = (if m = 0 then None else Some (ids ! (m - 1), e))" if "m \<le> k" for m
    using Suc.prems(2) [of m] that assms(1) Suc.prems(1) by (simp add: nth_eq_iff_index_eq)
  from Suc.IH [OF _ this] Suc.prems(1) p show ?case
    by (simp add: gen_destroy.simps [of "ids ! Suc k"] take_Suc_conv_app_nth [of "Suc k"])
qed

lemma destroyed_heap:
  assumes "owned w0 w A" and "\<And>j. frame w' j = (if j \<in> A then None else frame w j)" and "length w' = length w"
  shows "w' = w0 @ replicate (length w - length w0) None"
proof (rule frame_eqI)
  show "length w' = length (w0 @ replicate (length w - length w0) None)"
    using assms(1,3) by (simp add: owned_def)
  fix i
  have "frame (w0 @ replicate (length w - length w0) None) i = (if i < length w0 then frame w0 i else None)"
    by (simp add: frame_def nth_append)
  moreover have "frame w' i = (if i < length w0 then frame w0 i else None)"
    using assms(1,2) by (auto simp: owned_def)
  ultimately show "frame w' i = frame (w0 @ replicate (length w - length w0) None) i" by simp
qed

definition freed :: "('v, 'e, 's) gen_heap \<Rightarrow> ('v, 'e, 's) gen_heap \<Rightarrow> bool" where
  "freed w0 w \<longleftrightarrow> gen_dtor (Some (length w0)) w = w0 @ replicate (length w - length w0) None"

lemma clean_freed:
  assumes "clean w0 w ids ss"
  shows "freed w0 w"
proof -
  from assms have ch: "chain w (length w0) None ids ss" and dist: "distinct ids" and own: "owned w0 w (set ids)"
    by (simp_all add: clean_def)
  have ne: "ids \<noteq> []" and last: "ids ! (length ids - 1) = length w0"
    using chain_lengths [OF ch] by (auto simp: last_conv_nth)
  have "\<exists>p e. frame w (ids ! m) = Some p \<and> pr_awaiter p = (if m = 0 then None else Some (ids ! (m - 1), e))"
    if "m \<le> length ids - 1" for m
  proof -
    have "m < length ids" using that ne by (cases ids) auto
    from chain_awaiters [OF ch this] show ?thesis by blast
  qed
  from destroy_chain [OF dist _ this, of "length ids - 1"]
  have "frame (gen_destroy (length w0) w) j = (if j \<in> set ids then None else frame w j)" for j
    using ne last by simp
  with own show ?thesis unfolding freed_def gen_dtor_def by (intro destroyed_heap) simp_all
qed

lemma ended_freed:
  assumes "ended w0 w"
  shows "freed w0 w"
proof -
  from assms obtain p where p: "frame w (length w0) = Some p" "pr_awaiter p = None"
    and own: "owned w0 w {length w0}" by (auto simp: ended_def)
  show ?thesis unfolding freed_def gen_dtor_def option.case destroy_leaf [OF p]
    by (rule destroyed_heap [OF own]) simp_all
qed

lemma clean_not_done: "clean w0 w ids ss \<Longrightarrow> frame w (length w0) = Some p \<Longrightarrow> \<not> pr_done p"
  using chain_frames [OF _ chain_root_in] unfolding clean_def by fastforce

subsection \<open>The loop\<close>

lemma it_next_eq: "frame w r = Some p \<Longrightarrow> it_next prog r w = gen_resume prog (pr_link p) w"
  by (simp add: it_next_def)

lemma loop_rep:
  assumes "gen_rep w0 (c, w) t" and "\<not> is_running (c, w)"
  shows "rel_option (\<lambda>(vs, e, w') (vs', e'). vs = vs' \<and> e = e' \<and> e \<noteq> Broken \<and> freed w0 w')
           (gen_loop prog (length w0) n (c, w)) (stack_loop prog n t)"
  using assms
proof (induction n arbitrary: c w t)
  case 0
  from "0" show ?case
    by (cases "(w0, (c, w), t)" rule: gen_rep.cases)
      (auto simp: is_running_def it_at_end_def clean_freed ended_freed ended_def it_deref_def split: option.splits
        dest: clean_freed clean_not_done)
next
  case (Suc n)
  show ?case
  proof (cases "\<exists>v ss. t = RYield v ss")
    case False
    with Suc.prems show ?thesis
      by (cases "(w0, (c, w), t)" rule: gen_rep.cases)
        (auto simp: is_running_def it_at_end_def ended_def ended_freed split: option.splits)
  next
    case True
    then obtain v ss where t: "t = RYield v ss" by blast
    with Suc.prems obtain ids where c: "c = Stopped Suspended" and cl: "clean w0 w ids ss"
      and v: "it_deref (length w0) w = Some v"
      by (cases "(w0, (c, w), t)" rule: gen_rep.cases) auto
    from cl have ch: "chain w (length w0) None ids ss" and lf: "leaf_is w (length w0) (hd ids)"
      by (simp_all add: clean_def)
    obtain p where p: "frame w (length w0) = Some p" "\<not> pr_done p" "pr_link p = hd ids"
      using chain_frames [OF ch chain_root_in [OF ch]] lf by (auto simp: leaf_is_def)
    have "gen_rep w0 (Running (hd ids), w) (RRun ss None)" using cl by auto
    note resumed = resume_rep [OF this, where prog = prog]
    show ?thesis
    proof (cases "gen_resume prog (hd ids) w")
      case None
      with resumed have "stack_resume prog ss = None" by simp
      with None p v c t show ?thesis by (simp add: it_at_end_def it_next_eq)
    next
      case (Some s)
      with resumed obtain t' where t': "stack_resume prog ss = Some t'" and rep: "gen_rep w0 s t'" "\<not> is_running s"
        by (auto simp: option_rel_Some1)
      obtain c' w' where s: "s = (c', w')" by fastforce
      from Suc.IH [OF rep [unfolded s]] Some t' p v c t s show ?thesis
        by (auto simp: it_at_end_def it_next_eq option.rel_map elim!: option.rel_mono_strong)
    qed
  qed
qed

lemma call_rep: "gen_rep w0 (Running (length w0), snd (gen_call s w0)) (RRun [s] None)"
proof -
  have "clean w0 (snd (gen_call s w0)) [length w0] [s]"
    by (simp add: gen_call_def clean_def owned_def leaf_is_def frame_beyond)
  then have "length w0 = hd [length w0] \<and> (None = None \<and> clean w0 (snd (gen_call s w0)) [length w0] [s]
      \<or> handed_back w0 (snd (gen_call s w0)) [length w0] [s] None)" by simp
  then show ?thesis unfolding gen_rep.simps by blast
qed

lemma take_rep:
  "rel_option (\<lambda>(vs, e, w') (vs', e'). vs = vs' \<and> e = e' \<and> e \<noteq> Broken \<and> freed w0 w')
     (gen_take prog n s w0) (stack_take prog n s)"
proof (cases "gen_resume prog (length w0) (snd (gen_call s w0))")
  case None
  with resume_rep [OF call_rep [of w0 s], where prog = prog] have "stack_resume prog [s] = None"
    by (cases "stack_resume prog [s]") simp_all
  with None show ?thesis by (simp add: gen_take_def stack_take_def gen_call_def gen_begin_def)
next
  case (Some x)
  with resume_rep [OF call_rep [of w0 s], where prog = prog] obtain t where t: "stack_resume prog [s] = Some t"
    and rep: "gen_rep w0 x t" "\<not> is_running x" by (auto simp: option_rel_Some1)
  obtain c w where x: "x = (c, w)" by fastforce
  have "gen_take prog n s w0 = gen_loop prog (length w0) n x"
    using Some by (simp add: gen_take_def gen_begin_def gen_call_def)
  moreover have "stack_take prog n s = stack_loop prog n t"
    using t by (simp add: stack_take_def)
  ultimately show ?thesis unfolding x by (simp only: loop_rep [OF rep [unfolded x]])
qed

subsection \<open>Delegating bodies\<close>

text \<open>
  Bodies that are written out: a sequence of values and of generators to delegate to, which may
  delegate in turn. Their flattening is what a consumer should see.
\<close>

datatype 'v gen_item = Val 'v | Sub "'v gen_item list"

fun item_prog :: "('v, unit, 'v gen_item list) gen_prog" where
  "item_prog (Val v # xs) exn = GYield v xs"
| "item_prog (Sub ys # xs) exn = GNest (Some ys) xs"
| "item_prog [] exn = GReturn"

fun flatten_item :: "'v gen_item \<Rightarrow> 'v list" where
  "flatten_item (Val v) = [v]"
| "flatten_item (Sub ys) = concat (map flatten_item ys)"

definition flatten :: "'v gen_item list \<Rightarrow> 'v list" where
  "flatten xs = concat (map flatten_item xs)"

lemma flatten_simps [simp]:
  "flatten [] = []" "flatten (Val v # xs) = v # flatten xs" "flatten (Sub ys # xs) = flatten ys @ flatten xs"
  by (simp_all add: flatten_def)

definition stack_size :: "'v gen_item list list \<Rightarrow> nat" where
  "stack_size ss = sum_list (map (\<lambda>xs. Suc (2 * size_list size xs)) ss)"

lemma stack_resume_step:
  "stack_step prog (RRun ss None) = t \<Longrightarrow> while_option is_RRun (stack_step prog) (RRun ss None)
     = while_option is_RRun (stack_step prog) t"
  by (subst while_option_unfold) (simp add: is_RRun_def)

lemma item_resume:
  assumes "ss \<noteq> []"
  shows "\<exists>ss'. ss' \<noteq> [] \<and> stack_resume item_prog ss =
      Some (case concat (map flatten ss) of [] \<Rightarrow> RFinished | v # vs \<Rightarrow> RYield v ss')
    \<and> concat (map flatten ss') = tl (concat (map flatten ss))"
  using assms
proof (induction ss rule: measure_induct_rule [where f = stack_size])
  case (less ss)
  then obtain xs ts where ss: "ss = xs # ts" by (cases ss) auto
  note unfold = stack_resume_def stack_resume_step [where prog = item_prog]
  show ?case
  proof (cases xs)
    case Nil
    show ?thesis
    proof (cases "ts = []")
      case True
      with Nil ss show ?thesis
        by (simp add: stack_resume_def stack_resume_step while_option_unfold is_RRun_def exI [of _ "[[]]"])
    next
      case False
      have "stack_size ts < stack_size ss" by (simp add: ss stack_size_def)
      from less.IH [OF this False] False Nil ss show ?thesis
        by (simp add: stack_resume_def stack_resume_step)
    qed
  next
    case (Cons x ys)
    show ?thesis
    proof (cases x)
      case (Val v)
      with Cons ss show ?thesis
        by (simp add: stack_resume_def stack_resume_step while_option_unfold is_RRun_def exI [of _ "ys # ts"])
    next
      case (Sub zs)
      have "stack_size (zs # ys # ts) < stack_size ss" by (simp add: ss Cons Sub stack_size_def)
      from less.IH [OF this] Cons Sub ss show ?thesis
        by (simp add: stack_resume_def stack_resume_step)
    qed
  qed
qed

lemma item_loop:
  assumes "ss \<noteq> []"
  shows "Option.bind (stack_resume item_prog ss) (stack_loop item_prog n) =
    Some (map Some (take n (concat (map flatten ss))),
          if length (concat (map flatten ss)) \<le> n then Exhausted else Stopped_early)"
  using assms
proof (induction n arbitrary: ss)
  case 0
  obtain ss' where "stack_resume item_prog ss =
      Some (case concat (map flatten ss) of [] \<Rightarrow> RFinished | v # vs \<Rightarrow> RYield v ss')"
    using item_resume [OF "0"] by blast
  then show ?case by (cases "concat (map flatten ss)") simp_all
next
  case (Suc n)
  obtain ss' where "ss' \<noteq> []" and r: "stack_resume item_prog ss =
      Some (case concat (map flatten ss) of [] \<Rightarrow> RFinished | v # vs \<Rightarrow> RYield v ss')"
    and tl: "concat (map flatten ss') = tl (concat (map flatten ss))"
    using item_resume [OF Suc.prems] by blast
  define L where "L = concat (map flatten ss)"
  from Suc.IH [OF \<open>ss' \<noteq> []\<close>] r tl show ?case unfolding L_def [symmetric] by (cases L) auto
qed

subsection \<open>Properties\<close>

text \<open>
  Property C5: the linked promises implement a stack. For any bodies, a loop over a generator that
  reads up to \<open>n\<close> values sees the values, and the end or exception, that a plain stack of bodies
  gives, and it fails to come back exactly when the stack does; no dangling frame or finished
  coroutine is ever resumed, however deep the nesting and wherever exceptions go.
\<close>

theorem generator_implements_stack:
  "map_option (\<lambda>(vs, e, w'). (vs, e)) (gen_take prog n s w) = stack_take prog n s
   \<and> (\<forall>vs w'. gen_take prog n s w \<noteq> Some (vs, Broken, w'))"
proof (cases "gen_take prog n s w")
  case None
  with take_rep [of w prog n s] show ?thesis by (cases "stack_take prog n s") simp_all
next
  case (Some r)
  with take_rep [of w prog n s] show ?thesis
    by (cases "stack_take prog n s") (auto split: prod.splits)
qed

theorem generator_implements_stack_witness:
  "map_option (\<lambda>(vs, e, w'). (vs, e)) (gen_take item_prog 9 [Val (1::nat), Sub [Val 2]] [])
     = stack_take item_prog 9 [Val 1, Sub [Val 2]]"
  using generator_implements_stack [of item_prog 9 "[Val (1::nat), Sub [Val 2]]" "[]"] by blast

text \<open>
  Property C29: a generator owns its frames. However many values were read, and whether the loop ran
  to the end, stopped in the middle of a nested sequence or was left by an exception, the
  destructor of the generator gives back every frame that was created and touches no other.
\<close>

theorem generator_frees_its_frames:
  assumes "gen_take prog n s w = Some (vs, e, w')"
  shows "gen_dtor (Some (length w)) w' = w @ replicate (length w' - length w) None"
  using take_rep [of w prog n s] assms by (auto simp: option_rel_Some1 freed_def)

text \<open>
  Delegation is inlining, and it terminates. A generator that yields values and
  delegates to generators that do the same, to any depth, is read as the flattened sequence, its
  first \<open>n\<close> values, and is at its end exactly when there are no more.
\<close>

theorem delegation_is_flattening:
  "\<exists>w'. gen_take item_prog n xs w =
     Some (map Some (take n (flatten xs)), if length (flatten xs) \<le> n then Exhausted else Stopped_early, w')"
proof -
  have "stack_take item_prog n xs =
      Some (map Some (take n (flatten xs)), if length (flatten xs) \<le> n then Exhausted else Stopped_early)"
    using item_loop [of "[xs]" n] by (simp add: stack_take_def)
  with take_rep [of w item_prog n xs] show ?thesis by (auto simp: option_rel_Some2)
qed

theorem generator_frees_its_frames_witness:
  "\<exists>vs e w'. gen_take item_prog 2 [Val ''a'', Sub [Val ''b'', Val ''c'']] [] = Some (vs, e, w')
     \<and> gen_dtor (Some 0) w' = replicate (length w') None"
proof -
  have "gen_take item_prog 2 [Val ''a'', Sub [Val ''b'', Val ''c'']] [] \<noteq> None"
    using take_rep [of "[]" item_prog 2 "[Val ''a'', Sub [Val ''b'', Val ''c'']]"] item_loop [of "[[Val ''a'', Sub [Val ''b'', Val ''c'']]]" 2]
    by (auto simp: stack_take_def option_rel_Some2)
  then obtain vs e w' where "gen_take item_prog 2 [Val ''a'', Sub [Val ''b'', Val ''c'']] [] = Some (vs, e, w')"
    by (cases "gen_take item_prog 2 [Val ''a'', Sub [Val ''b'', Val ''c'']] []") auto
  with generator_frees_its_frames [OF this] show ?thesis by auto
qed

end
