(* ===== verification/Async_Logger.thy ===== *)
theory Async_Logger
  imports Static_Buffer "HOL-Library.Sublist"
begin

section \<open>The asynchronous logger (utils/async_logger.h)\<close>

text \<open>
  Threads append messages to a current buffer; full buffers move to a list that a background
  thread takes, writes to the file and recycles. The critical sections of both sides are the
  steps; a buffer is a \<^verbatim>\<open>LargeBuffer\<close>, a null \<^verbatim>\<open>unique_ptr\<close> is \<open>None\<close>, and what
  dereferences one, or takes the last of an empty vector, is undefined: \<open>None\<close> for the
  operation. The wait of the background thread ends on a notification, after three seconds or
  for no reason, so that it may end at any time. A file is the text written to it.
\<close>

type_synonym buffer_ptr = "static_buffer option"

datatype bg_pc = BgTop | BgWaiting | BgPrinting | BgCheck | BgExited

record alog =
  al_file_id :: size_t
  al_stop :: bool
  al_current :: buffer_ptr
  al_next :: buffer_ptr
  al_ready :: "buffer_ptr list"
  al_cur_alt :: buffer_ptr
  al_next_alt :: buffer_ptr
  al_print :: "buffer_ptr list"
  al_pc :: bg_pc
  al_files :: "string list"

definition make_buffer :: static_buffer where
  "make_buffer = \<lparr>sb_buf = replicate kLargeBufferSize (CHR 0x00), sb_size = 0\<rparr>"

text \<open>The constructor, with what the background thread does before its loop.\<close>

definition open_log :: "alog \<Rightarrow> alog" where
  "open_log s = s\<lparr>al_file_id := al_file_id s + 1, al_files := al_files s @ [[]]\<rparr>"

definition alog_new :: alog where
  "alog_new = open_log
     \<lparr>al_file_id = 0, al_stop = False, al_current = Some make_buffer, al_next = Some make_buffer,
      al_ready = [], al_cur_alt = Some make_buffer, al_next_alt = Some make_buffer, al_print = [],
      al_pc = BgTop, al_files = []\<rparr>"

subsection \<open>Writing\<close>

definition append_to :: "string \<Rightarrow> alog \<Rightarrow> alog option" where
  "append_to msg s =
     (case al_current s of
        None \<Rightarrow> None
      | Some b \<Rightarrow> map_option (\<lambda>(n, b'). s\<lparr>al_current := Some b'\<rparr>) (sb_append kLargeBufferSize msg b))"

definition write_impl :: "string \<Rightarrow> alog \<Rightarrow> alog option" where
  "write_impl msg s =
     (case al_current s of
        None \<Rightarrow> None
      | Some b \<Rightarrow>
          if sb_rest kLargeBufferSize b > of_nat (length msg) then append_to msg s
          else (let s = s\<lparr>al_ready := al_ready s @ [al_current s], al_current := None\<rparr>;
                    s = (if al_next s = None then s\<lparr>al_next := Some make_buffer\<rparr> else s);
                    s = s\<lparr>al_current := al_next s, al_next := al_current s\<rparr>
                in append_to msg s))"

text \<open>
  \<^verbatim>\<open>AsyncLogger::write\<close>: the message is formatted into the thread's own small buffer. A buffer that claims more
  characters than its array has hands on a view that ends outside it; \<^verbatim>\<open>write_impl\<close> copies all of such a
  view, as far as a large buffer has room, which is always more than the small array.
\<close>

definition sb_view :: "static_buffer \<Rightarrow> string option" where
  "sb_view b = (if unat (sb_size b) \<le> length (sb_buf b) then Some (sb_slice b) else None)"

definition async_write ::
  "'args formatter \<Rightarrow> string \<Rightarrow> 'args \<Rightarrow> static_buffer \<Rightarrow> alog \<Rightarrow> (static_buffer \<times> alog) option" where
  "async_write vformat_to_n fmt args local s =
     (case sb_append_format vformat_to_n kSmallBufferSize fmt args (sb_clear local) of
        None \<Rightarrow> None
      | Some (n, local) \<Rightarrow> Option.bind (sb_view local) (\<lambda>msg. map_option (\<lambda>s. (local, s)) (write_impl msg s)))"

text \<open>\<^verbatim>\<open>~AsyncLogger\<close> up to the join.\<close>

definition alog_stop :: "alog \<Rightarrow> alog" where
  "alog_stop s = s\<lparr>al_stop := True\<rparr>"

subsection \<open>The background thread\<close>

text \<open>The section under the lock, once the wait is over.\<close>

definition bg_take :: "alog \<Rightarrow> alog option" where
  "bg_take s =
     (let s' = (if al_ready s = []
                then (case al_current s of
                        None \<Rightarrow> None
                      | Some b \<Rightarrow> Some (if sb_size b \<noteq> 0
                          then s\<lparr>al_print := al_print s @ [al_current s],
                                 al_current := al_cur_alt s, al_cur_alt := None\<rparr>
                          else s))
                else Some (s\<lparr>al_print := al_ready s, al_ready := al_print s\<rparr>))
      in map_option (\<lambda>s. if al_next s = None
            then s\<lparr>al_next := al_next_alt s, al_next_alt := None, al_pc := BgPrinting\<rparr>
            else s\<lparr>al_pc := BgPrinting\<rparr>) s')"

text \<open>
  \<^verbatim>\<open>file.write\<close> of a buffer and \<^verbatim>\<open>clear\<close>, for each buffer in turn. How much of a buffer the system takes is up to
  it, and the source ignores what the write returns: \<open>ns\<close> are the numbers of characters that it takes, in order;
  the writes beyond the list are complete. (\<^verbatim>\<open>fmt::file\<close> throws if a write fails, which ends the process: a run
  is one before that.)
\<close>

definition wrote :: "nat list \<Rightarrow> string \<Rightarrow> string" where
  "wrote ns txt = (case ns of [] \<Rightarrow> txt | n # _ \<Rightarrow> take n txt)"

fun print_buffers :: "nat list \<Rightarrow> buffer_ptr list \<Rightarrow> (string \<times> buffer_ptr list) option" where
  "print_buffers ns [] = Some ([], [])"
| "print_buffers ns (None # bs) = None"
| "print_buffers ns (Some b # bs) =
     map_option (\<lambda>(txt, bs'). (wrote ns (sb_slice b) @ txt, Some (sb_clear b) # bs')) (print_buffers (tl ns) bs)"

definition refill :: "buffer_ptr \<Rightarrow> buffer_ptr list \<Rightarrow> (buffer_ptr \<times> buffer_ptr list) option" where
  "refill alt bs =
     (if alt \<noteq> None then Some (alt, bs)
      else if bs = [] then None else Some (last bs, butlast bs))"

definition write_file :: "string \<Rightarrow> string list \<Rightarrow> string list" where
  "write_file txt files = butlast files @ [last files @ txt]"

definition bg_flush :: "nat list \<Rightarrow> alog \<Rightarrow> alog option" where
  "bg_flush ns s =
     (case print_buffers ns (al_print s) of
        None \<Rightarrow> None
      | Some (txt, bs) \<Rightarrow>
          (case refill (al_cur_alt s) bs of
             None \<Rightarrow> None
           | Some (cur_alt, bs) \<Rightarrow>
               map_option (\<lambda>(next_alt, bs). s\<lparr>al_files := write_file txt (al_files s), al_cur_alt := cur_alt,
                   al_next_alt := next_alt, al_print := bs, al_pc := BgCheck\<rparr>) (refill (al_next_alt s) bs)))"

text \<open>
  One step of \<^verbatim>\<open>run_in_background\<close>; \<open>one_day\<close> is whether a day has passed since the file
  was opened, \<open>ns\<close> what the system takes of the writes.
\<close>

definition bg_step :: "bool \<Rightarrow> nat list \<Rightarrow> alog \<Rightarrow> alog option" where
  "bg_step one_day ns s =
     (case al_pc s of
        BgTop \<Rightarrow> Some ((if one_day then open_log s else s)\<lparr>al_print := [], al_pc := BgWaiting\<rparr>)
      | BgWaiting \<Rightarrow> bg_take s
      | BgPrinting \<Rightarrow> bg_flush ns s
      | BgCheck \<Rightarrow> Some (s\<lparr>al_pc := if al_stop s then BgExited else BgTop\<rparr>)
      | BgExited \<Rightarrow> Some s)"

inductive alog_step :: "alog \<Rightarrow> alog \<Rightarrow> bool" where
  message: "length msg \<le> kSmallBufferSize \<Longrightarrow> write_impl msg s = Some t \<Longrightarrow> alog_step s t"
| stop: "alog_step s (alog_stop s)"
| background: "bg_step one_day ns s = Some t \<Longrightarrow> alog_step s t"

subsection \<open>The invariant\<close>

abbreviation buf_ok :: "static_buffer \<Rightarrow> bool" where
  "buf_ok \<equiv> sb_wf kLargeBufferSize"

definition is_buf :: "buffer_ptr \<Rightarrow> bool" where
  "is_buf x \<longleftrightarrow> (\<exists>b. x = Some b \<and> buf_ok b)"

definition is_clean :: "buffer_ptr \<Rightarrow> bool" where
  "is_clean x \<longleftrightarrow> (\<exists>b. x = Some b \<and> buf_ok b \<and> sb_size b = 0)"

definition text_of :: "buffer_ptr \<Rightarrow> string" where
  "text_of x = (case x of Some b \<Rightarrow> sb_slice b | None \<Rightarrow> [])"

definition texts :: "buffer_ptr list \<Rightarrow> string" where
  "texts xs = concat (map text_of xs)"

definition alts_ok :: "alog \<Rightarrow> bool" where
  "alts_ok s \<longleftrightarrow>
     (if al_pc s = BgPrinting
      then (\<forall>x \<in> set (al_print s). is_buf x)
         \<and> (al_cur_alt s = None \<or> is_clean (al_cur_alt s)) \<and> (al_next_alt s = None \<or> is_clean (al_next_alt s))
         \<and> (al_cur_alt s = None \<or> al_next_alt s = None \<longrightarrow> al_print s \<noteq> [])
         \<and> (al_cur_alt s \<noteq> None \<or> al_next_alt s \<noteq> None)
      else is_clean (al_cur_alt s) \<and> is_clean (al_next_alt s))
   \<and> (al_pc s = BgWaiting \<longrightarrow> al_print s = [])"

definition being_printed :: "alog \<Rightarrow> string" where
  "being_printed s = (if al_pc s = BgPrinting then texts (al_print s) else [])"

definition alog_inv :: "alog \<Rightarrow> bool" where
  "alog_inv s \<longleftrightarrow> is_buf (al_current s) \<and> (\<forall>x \<in> set (al_ready s). is_buf x)
     \<and> (if al_next s = None then al_ready s \<noteq> [] else is_clean (al_next s))
     \<and> alts_ok s \<and> al_files s \<noteq> []"

text \<open>The text in the files, in what is being printed, in the full buffers and in the current one.\<close>

definition stored :: "alog \<Rightarrow> string" where
  "stored s = concat (al_files s) @ being_printed s @ texts (al_ready s) @ text_of (al_current s)"

text \<open>Writes that are complete: they take as much as a buffer can hold.\<close>

definition complete_counts :: "nat list \<Rightarrow> bool" where
  "complete_counts ns \<longleftrightarrow> (\<forall>n \<in> set ns. kLargeBufferSize \<le> n)"

lemma texts_simps [simp]: "texts [] = []" "texts (x # xs) = text_of x @ texts xs" "texts (xs @ ys) = texts xs @ texts ys"
  by (simp_all add: texts_def)

lemma text_of_clean: "is_clean x \<Longrightarrow> text_of x = []"
  by (auto simp: is_clean_def text_of_def sb_slice_def)

lemma clean_is_buf: "is_clean x \<Longrightarrow> is_buf x"
  by (auto simp: is_clean_def is_buf_def)

lemma make_buffer_clean: "is_clean (Some make_buffer)"
  by (simp add: is_clean_def make_buffer_def sb_wf_def kLargeBufferSize_def)

lemma append_to_spec:
  assumes cur: "al_current s = Some b" "buf_ok b" and room: "unat (sb_size b) + length msg \<le> kLargeBufferSize"
  shows "\<exists>b'. append_to msg s = Some (s\<lparr>al_current := Some b'\<rparr>) \<and> buf_ok b' \<and> sb_slice b' = sb_slice b @ msg"
  using sb_append_fits [OF cur(2) room] cur(1) by (auto simp: append_to_def)

lemma room_left:
  assumes "buf_ok b" and "sb_rest kLargeBufferSize b > of_nat (length msg)" and "length msg \<le> kSmallBufferSize"
  shows "unat (sb_size b) + length msg \<le> kLargeBufferSize"
proof -
  have "unat (of_nat (length msg) :: size_t) = length msg"
    using assms(3) by (intro unat_of_nat_size_t) (simp add: kSmallBufferSize_def)
  then have "length msg < unat (sb_rest kLargeBufferSize b)" using assms(2) by (simp add: word_less_nat_alt)
  with unat_sb_rest [OF assms(1)] show ?thesis by simp
qed

lemma write_inv:
  assumes inv: "alog_inv s" and len: "length msg \<le> kSmallBufferSize"
  shows "\<exists>t. write_impl msg s = Some t \<and> alog_inv t \<and> stored t = stored s @ msg"
proof -
  from inv obtain b where b: "al_current s = Some b" "buf_ok b" by (auto simp: alog_inv_def is_buf_def)
  show ?thesis
  proof (cases "sb_rest kLargeBufferSize b > of_nat (length msg)")
    case True
    with append_to_spec [OF b room_left [OF b(2) True len]] inv b show ?thesis
      by (auto simp: write_impl_def alog_inv_def is_buf_def text_of_def alts_ok_def being_printed_def stored_def)
  next
    case False
    define u where "u = s\<lparr>al_ready := al_ready s @ [al_current s],
      al_current := (if al_next s = None then Some make_buffer else al_next s), al_next := None\<rparr>"
    have w: "write_impl msg s = append_to msg u"
      using False b by (simp add: write_impl_def u_def Let_def)
    have cl: "is_clean (al_current u)"
      using inv make_buffer_clean by (simp add: alog_inv_def u_def)
    then obtain c where c: "al_current u = Some c" "buf_ok c" "sb_size c = 0" by (auto simp: is_clean_def)
    have "unat (sb_size c) + length msg \<le> kLargeBufferSize"
      using c(3) len by (simp add: kSmallBufferSize_def kLargeBufferSize_def)
    from append_to_spec [OF c(1,2) this] obtain b' where
      b': "write_impl msg s = Some (u\<lparr>al_current := Some b'\<rparr>)"
      "buf_ok b'" "sb_slice b' = msg" using c(3) by (auto simp: w sb_slice_def)
    have "alog_inv (u\<lparr>al_current := Some b'\<rparr>)"
      using inv b b'(2,3) by (auto simp: alog_inv_def u_def is_buf_def text_of_def alts_ok_def)
    moreover have "stored (u\<lparr>al_current := Some b'\<rparr>) = stored s @ msg"
      using b b'(3) by (simp add: stored_def u_def being_printed_def text_of_def)
    ultimately show ?thesis using b'(1) by blast
  qed
qed

lemma wrote_part:
  "subseq (wrote ns txt) txt" "complete_counts ns \<Longrightarrow> length txt \<le> kLargeBufferSize \<Longrightarrow> wrote ns txt = txt"
  by (cases ns; simp add: wrote_def complete_counts_def prefix_imp_subseq take_is_prefix)+

lemma print_buffers_spec:
  "\<forall>x \<in> set bs. is_buf x \<Longrightarrow>
     \<exists>txt bs'. print_buffers ns bs = Some (txt, bs') \<and> subseq txt (texts bs) \<and> (complete_counts ns \<longrightarrow> txt = texts bs)
       \<and> length bs' = length bs \<and> (\<forall>x \<in> set bs'. is_clean x)"
proof (induction bs arbitrary: ns)
  case (Cons x bs)
  then obtain b where b: "x = Some b" "buf_ok b" by (auto simp: is_buf_def)
  from Cons obtain out bs' where p: "print_buffers (tl ns) bs = Some (out, bs')" "subseq out (texts bs)"
    "complete_counts (tl ns) \<longrightarrow> out = texts bs" "length bs' = length bs" "\<forall>x \<in> set bs'. is_clean x"
    by (metis list.set_intros(2))
  have "length (sb_slice b) \<le> kLargeBufferSize" using b(2) by (simp add: sb_slice_def sb_wf_def)
  then have "complete_counts ns \<longrightarrow> wrote ns (sb_slice b) = sb_slice b" using wrote_part(2) by blast
  moreover have "complete_counts ns \<Longrightarrow> complete_counts (tl ns)" by (cases ns) (simp_all add: complete_counts_def)
  moreover have "subseq (wrote ns (sb_slice b) @ out) (sb_slice b @ texts bs)"
    by (intro list_emb_append_mono wrote_part(1) p(2))
  moreover have "is_clean (Some (sb_clear b))" using sb_wf_clear [OF b(2)] by (simp add: is_clean_def sb_clear_def)
  ultimately show ?case using b(1) p by (simp add: text_of_def)
qed simp

lemma refill_spec:
  assumes "alt = None \<longrightarrow> bs \<noteq> []" and "alt = None \<or> is_clean alt" and "\<forall>x \<in> set bs. is_clean x"
  shows "\<exists>alt' bs'. refill alt bs = Some (alt', bs') \<and> is_clean alt' \<and> (\<forall>x \<in> set bs'. is_clean x)
     \<and> length bs' = (if alt = None then length bs - 1 else length bs)"
  using assms last_in_set [of bs] by (auto simp: refill_def dest: in_set_butlastD)

lemma concat_write_file: "files \<noteq> [] \<Longrightarrow> concat (write_file txt files) = concat files @ txt"
  by (cases files rule: rev_cases) (simp_all add: write_file_def)

lemma flush_inv:
  assumes inv: "alog_inv s" and pc: "al_pc s = BgPrinting"
  shows "\<exists>t. bg_flush ns s = Some t \<and> alog_inv t \<and> al_pc t = BgCheck \<and> subseq (stored t) (stored s)
    \<and> (complete_counts ns \<longrightarrow> stored t = stored s)
    \<and> al_stop t = al_stop s \<and> al_ready t = al_ready s \<and> al_current t = al_current s"
proof -
  have alts: "\<forall>x \<in> set (al_print s). is_buf x"
    "al_cur_alt s = None \<or> is_clean (al_cur_alt s)" "al_next_alt s = None \<or> is_clean (al_next_alt s)"
    "al_cur_alt s = None \<or> al_next_alt s = None \<longrightarrow> al_print s \<noteq> []"
    "al_cur_alt s \<noteq> None \<or> al_next_alt s \<noteq> None"
    using inv pc by (simp_all add: alog_inv_def alts_ok_def)
  from print_buffers_spec [OF alts(1), of ns] obtain out bs where
    bs: "print_buffers ns (al_print s) = Some (out, bs)" "subseq out (texts (al_print s))"
    "complete_counts ns \<longrightarrow> out = texts (al_print s)" "length bs = length (al_print s)"
    "\<forall>x \<in> set bs. is_clean x" by blast
  have "al_cur_alt s = None \<longrightarrow> bs \<noteq> []" using alts(4) bs(4) by auto
  from refill_spec [OF this alts(2) bs(5)] obtain c bs1 where
    c: "refill (al_cur_alt s) bs = Some (c, bs1)" "is_clean c" "\<forall>x \<in> set bs1. is_clean x"
    "length bs1 = (if al_cur_alt s = None then length bs - 1 else length bs)" by blast
  have "al_next_alt s = None \<longrightarrow> bs1 \<noteq> []" using alts(4,5) bs(4) c(4) by auto
  from refill_spec [OF this alts(3) c(3)] obtain d bs2 where
    d: "refill (al_next_alt s) bs1 = Some (d, bs2)" "is_clean d" by blast
  let ?t = "s\<lparr>al_files := write_file out (al_files s), al_cur_alt := c, al_next_alt := d, al_print := bs2, al_pc := BgCheck\<rparr>"
  have "bg_flush ns s = Some ?t" using bs(1) c(1) d(1) by (simp add: bg_flush_def)
  moreover have "alog_inv ?t"
    using inv pc c(2) d(2) by (simp add: alog_inv_def alts_ok_def write_file_def)
  moreover have ne: "al_files s \<noteq> []" using inv by (simp add: alog_inv_def)
  then have "stored ?t = concat (al_files s) @ out @ texts (al_ready s) @ text_of (al_current s)"
    by (simp add: stored_def being_printed_def concat_write_file)
  then have "subseq (stored ?t) (stored s)" "complete_counts ns \<longrightarrow> stored ?t = stored s"
    using bs(2,3) pc by (auto simp: stored_def being_printed_def intro!: list_emb_append_mono)
  ultimately show ?thesis by (intro exI [of _ ?t]) simp
qed

lemma take_inv:
  assumes inv: "alog_inv s" and pc: "al_pc s = BgWaiting"
  shows "\<exists>t. bg_take s = Some t \<and> alog_inv t \<and> al_pc t = BgPrinting \<and> al_stop t = al_stop s
    \<and> stored t = stored s \<and> al_ready t = []
    \<and> (if al_ready s = [] then text_of (al_current t) = [] else al_current t = al_current s)"
proof -
  from inv obtain b where b: "al_current s = Some b" "buf_ok b" by (auto simp: alog_inv_def is_buf_def)
  have alts: "is_clean (al_cur_alt s)" "is_clean (al_next_alt s)" "al_print s = []"
    using inv pc by (simp_all add: alog_inv_def alts_ok_def)
  then have ne: "al_cur_alt s \<noteq> None" "al_next_alt s \<noteq> None" by (auto simp: is_clean_def)
  have emp: "sb_size b = 0 \<Longrightarrow> text_of (al_current s) = []" using b by (simp add: text_of_def sb_slice_def)
  show ?thesis
  proof (cases "al_ready s = []")
    case True
    then have nx: "al_next s \<noteq> None" using inv by (auto simp: alog_inv_def split: if_splits)
    show ?thesis
      using inv pc b alts ne nx True emp text_of_clean [OF alts(1)] clean_is_buf [OF alts(1)]
      by (cases "sb_size b = 0") (auto simp: bg_take_def alog_inv_def alts_ok_def being_printed_def is_buf_def stored_def)
  next
    case False
    then show ?thesis
      using inv pc b alts ne
      by (cases "al_next s = None") (auto simp: bg_take_def alog_inv_def alts_ok_def being_printed_def stored_def)
  qed
qed

lemma bg_inv:
  assumes inv: "alog_inv s"
  shows "\<exists>t. bg_step one_day ns s = Some t \<and> alog_inv t \<and> subseq (stored t) (stored s)
    \<and> (complete_counts ns \<longrightarrow> stored t = stored s)"
proof (cases "al_pc s")
  case BgPrinting
  from flush_inv [OF inv this, of ns] BgPrinting show ?thesis
    by (auto simp: bg_step_def)
next
  case BgWaiting
  with take_inv [OF inv this] show ?thesis by (auto simp: bg_step_def)
qed (use inv in \<open>auto simp: bg_step_def alog_inv_def alts_ok_def being_printed_def open_log_def stored_def\<close>)

lemma alog_inv_new: "alog_inv alog_new"
  using make_buffer_clean clean_is_buf [OF make_buffer_clean] text_of_clean [OF make_buffer_clean]
  by (simp add: alog_inv_def alog_new_def open_log_def alts_ok_def is_buf_def)

interpretation al: transition_system "\<lambda>s. s = alog_new" alog_step alog_inv
proof
  fix s t
  show "s = alog_new \<Longrightarrow> alog_inv s" using alog_inv_new by simp
  assume inv: "alog_inv s" and "alog_step s t"
  from this(2) show "alog_inv t"
  proof cases
    case (message msg)
    then show ?thesis using write_inv [OF inv] by fastforce
  next
    case stop
    then show ?thesis using inv
      by (cases "al_pc s = BgPrinting") (simp_all add: alog_stop_def alog_inv_def alts_ok_def)
  next
    case (background one_day ns)
    then show ?thesis using bg_inv [OF inv, of one_day ns] by auto
  qed
qed

subsection \<open>Runs\<close>

text \<open>
  A run is a list of what happens: a message of some thread, the destructor, a step of the
  background thread.
\<close>

datatype alog_cmd = Message string | Stop | Background bool "nat list"

fun alog_exec :: "alog_cmd \<Rightarrow> alog \<Rightarrow> alog option" where
  "alog_exec (Message msg) s = write_impl msg s"
| "alog_exec Stop s = Some (alog_stop s)"
| "alog_exec (Background one_day ns) s = bg_step one_day ns s"

fun alog_run :: "alog_cmd list \<Rightarrow> alog \<Rightarrow> alog option" where
  "alog_run [] s = Some s"
| "alog_run (c # cs) s = Option.bind (alog_exec c s) (alog_run cs)"

fun messages :: "alog_cmd list \<Rightarrow> string" where
  "messages [] = []"
| "messages (Message msg # cs) = msg @ messages cs"
| "messages (c # cs) = messages cs"

definition small_messages :: "alog_cmd list \<Rightarrow> bool" where
  "small_messages cs \<longleftrightarrow> list_all (\<lambda>c. case c of Message msg \<Rightarrow> length msg \<le> kSmallBufferSize | _ \<Rightarrow> True) cs"

definition complete_writes :: "alog_cmd list \<Rightarrow> bool" where
  "complete_writes cs \<longleftrightarrow> list_all (\<lambda>c. case c of Background one_day ns \<Rightarrow> complete_counts ns | _ \<Rightarrow> True) cs"

lemma alog_run_append: "alog_run (as @ bs) s = Option.bind (alog_run as s) (alog_run bs)"
  by (induction as arbitrary: s) (auto split: bind_splits)

lemma stored_stop [simp]: "stored (alog_stop s) = stored s"
  by (simp add: stored_def alog_stop_def being_printed_def)

lemma log_run_inv:
  "alog_inv s \<Longrightarrow> small_messages cs \<Longrightarrow> \<exists>t. alog_run cs s = Some t \<and> alog_inv t
     \<and> subseq (stored t) (stored s @ messages cs) \<and> (complete_writes cs \<longrightarrow> stored t = stored s @ messages cs)"
proof (induction cs arbitrary: s)
  case (Cons c cs)
  have small: "small_messages cs" using Cons.prems(2) by (simp add: small_messages_def)
  have "\<exists>u. alog_exec c s = Some u \<and> alog_inv u \<and> subseq (stored u) (stored s @ messages [c])
      \<and> (complete_writes [c] \<longrightarrow> stored u = stored s @ messages [c])"
  proof (cases c)
    case (Message msg)
    with write_inv [OF Cons.prems(1), of msg] Cons.prems(2) show ?thesis by (auto simp: small_messages_def)
  next
    case Stop
    with al.inv_step [OF Cons.prems(1) alog_step.stop] show ?thesis by simp
  next
    case (Background one_day ns)
    with bg_inv [OF Cons.prems(1), of one_day ns] show ?thesis by (auto simp: complete_writes_def)
  qed
  then obtain u where u: "alog_exec c s = Some u" "alog_inv u" "subseq (stored u) (stored s @ messages [c])"
    "complete_writes [c] \<longrightarrow> stored u = stored s @ messages [c]" by blast
  from Cons.IH [OF u(2) small] obtain t where t: "alog_run cs u = Some t" "alog_inv t"
    "subseq (stored t) (stored u @ messages cs)" "complete_writes cs \<longrightarrow> stored t = stored u @ messages cs" by blast
  have all: "messages (c # cs) = messages [c] @ messages cs" by (cases c) simp_all
  have "subseq (stored u @ messages cs) (stored s @ messages (c # cs))"
    using list_emb_append_mono [OF u(3), of "messages cs" "messages cs"] by (simp add: all)
  then have "subseq (stored t) (stored s @ messages (c # cs))" using t(3) subseq_order.order_trans by blast
  moreover have "complete_writes (c # cs) \<longrightarrow> stored t = stored s @ messages (c # cs)"
    using u(4) t(4) by (simp add: all complete_writes_def)
  ultimately show ?case using u(1) t(1,2) by simp
qed (simp add: complete_writes_def)

lemma stored_new [simp]: "stored alog_new = []"
  using text_of_clean [OF make_buffer_clean] by (simp add: stored_def alog_new_def open_log_def being_printed_def)

lemma run_new:
  assumes "small_messages cs"
  shows "\<exists>s. alog_run cs alog_new = Some s \<and> alog_inv s \<and> subseq (stored s) (messages cs)
    \<and> (complete_writes cs \<longrightarrow> stored s = messages cs)"
  using log_run_inv [OF alog_inv_new assms] by simp

text \<open>The small buffer of a thread passes the formatted message on as it is, when it fits.\<close>

lemma async_write_eq:
  assumes "sb_wf kSmallBufferSize local" and "format_to_n_spec vformat_to_n full"
    and "length (full fmt args) \<le> kSmallBufferSize"
  shows "\<exists>local'. sb_wf kSmallBufferSize local'
    \<and> async_write vformat_to_n fmt args local s = map_option (\<lambda>s. (local', s)) (write_impl (full fmt args) s)"
proof -
  have wf: "sb_wf kSmallBufferSize (sb_clear local)" by (rule sb_wf_clear [OF assms(1)])
  have z: "unat (sb_size (sb_clear local)) = 0" by (simp add: sb_clear_def)
  obtain b where "sb_append kSmallBufferSize (full fmt args) (sb_clear local) = Some (of_nat (length (full fmt args)), b)"
    "sb_slice b = full fmt args" "sb_wf kSmallBufferSize b"
    using sb_append_fits [OF wf, of "full fmt args"] assms(3) z by auto
  with sb_append_format_fits [OF wf assms(2), of fmt args] assms(3) z show ?thesis
    by (auto simp: async_write_def sb_view_def sb_wf_def)
qed

text \<open>A longer message leads outside the buffer.\<close>

lemma async_write_overrun:
  assumes "sb_wf kSmallBufferSize local" and "format_to_n_spec vformat_to_n full"
    and "kSmallBufferSize < length (full fmt args)" and "length (full fmt args) < 2 ^ 64"
  shows "async_write vformat_to_n fmt args local s = None"
proof -
  have z: "unat (sb_size (sb_clear local)) = 0" by (simp add: sb_clear_def)
  show ?thesis
    using sb_append_format_overflow [OF sb_wf_clear [OF assms(1)] assms(2), of fmt args] assms(3,4) z
    by (auto simp: async_write_def sb_view_def)
qed

subsection \<open>The background thread catches up\<close>

definition going :: "alog \<Rightarrow> bool" where
  "going s \<longleftrightarrow> alog_inv s \<and> \<not> al_stop s \<and> al_pc s \<noteq> BgExited"

text \<open>A step of the thread with complete writes, in the middle of a day or at its end.\<close>

abbreviation background :: "bool list \<Rightarrow> alog_cmd list" where
  "background ds \<equiv> map (\<lambda>one_day. Background one_day []) ds"

lemma complete_nil [simp]: "complete_counts []"
  by (simp add: complete_counts_def)

text \<open>From a wait through the next one.\<close>

lemma flush_round:
  assumes "going s" and "al_pc s = BgPrinting"
  shows "\<exists>t. alog_run (background [False, False, False]) s = Some t \<and> going t \<and> al_pc t = BgWaiting
    \<and> al_ready t = al_ready s \<and> al_current t = al_current s \<and> stored t = stored s"
proof -
  from assms(1) have inv: "alog_inv s" and st: "\<not> al_stop s" by (simp_all add: going_def)
  from flush_inv [OF inv assms(2), of "[]"] obtain u where u: "bg_flush [] s = Some u" "alog_inv u" "al_pc u = BgCheck"
    "stored u = stored s" "al_stop u = al_stop s" "al_ready u = al_ready s" "al_current u = al_current s" by auto
  let ?t = "u\<lparr>al_print := [], al_pc := BgWaiting\<rparr>"
  have "alog_inv ?t" using u(2,3) by (simp add: alog_inv_def alts_ok_def)
  moreover have "stored ?t = stored u" using u(3) by (simp add: stored_def being_printed_def)
  ultimately show ?thesis using u st assms(2)
    by (auto simp: bg_step_def going_def)
qed

lemma to_waiting:
  assumes "going s"
  shows "\<exists>ds t. alog_run (background ds) s = Some t \<and> going t \<and> al_pc t = BgWaiting \<and> stored t = stored s"
proof -
  from assms have inv: "alog_inv s" and st: "\<not> al_stop s" by (simp_all add: going_def)
  let ?t = "s\<lparr>al_print := [], al_pc := BgWaiting\<rparr>"
  have t: "alog_inv ?t \<and> stored ?t = stored s" if "al_pc s = BgTop \<or> al_pc s = BgCheck"
    using inv that by (auto simp: alog_inv_def alts_ok_def being_printed_def stored_def)
  show ?thesis
  proof (cases "al_pc s")
    case BgTop
    with t st show ?thesis by (intro exI [of _ "[False]"] exI [of _ ?t]) (simp add: bg_step_def going_def)
  next
    case BgWaiting
    with assms show ?thesis by (intro exI [of _ "[]"] exI [of _ s]) simp
  next
    case BgPrinting
    from flush_round [OF assms this] show ?thesis by blast
  next
    case BgCheck
    with t st show ?thesis by (intro exI [of _ "[False, False]"] exI [of _ ?t]) (simp add: bg_step_def going_def)
  next
    case BgExited
    with assms show ?thesis by (simp add: going_def)
  qed
qed

lemma waiting_round:
  assumes "going s" and "al_pc s = BgWaiting"
  shows "\<exists>t. alog_run (background [False, False, False, False]) s = Some t \<and> going t \<and> al_pc t = BgWaiting
    \<and> stored t = stored s \<and> al_ready t = []
    \<and> (if al_ready s = [] then text_of (al_current t) = [] else al_current t = al_current s)"
proof -
  from assms(1) have inv: "alog_inv s" and st: "\<not> al_stop s" by (simp_all add: going_def)
  from take_inv [OF inv assms(2)] obtain u where u: "bg_take s = Some u" "alog_inv u" "al_pc u = BgPrinting"
    "al_stop u = al_stop s" "stored u = stored s" "al_ready u = []"
    "if al_ready s = [] then text_of (al_current u) = [] else al_current u = al_current s" by blast
  have "going u" using u st by (simp add: going_def)
  from flush_round [OF this u(3)] obtain t where
    "alog_run (background [False, False, False]) u = Some t" "going t" "al_pc t = BgWaiting"
    "al_ready t = al_ready u" "al_current t = al_current u" "stored t = stored u" by blast
  moreover from this(1) u(1) assms(2)
  have "alog_run (background [False, False, False, False]) s = Some t" by (simp add: bg_step_def)
  ultimately show ?thesis using u(5-7) by (intro exI [of _ t]) auto
qed

lemma catches_up:
  assumes "going s"
  shows "\<exists>ds t. alog_run (background ds) s = Some t \<and> concat (al_files t) = stored s"
proof -
  obtain d1 t1 where 1: "alog_run (background d1) s = Some t1" "going t1" "al_pc t1 = BgWaiting"
    "stored t1 = stored s" using to_waiting [OF assms] by blast
  define r where "r = [False, False, False, False]"
  from waiting_round [OF 1(2,3)] obtain t2 where 2: "alog_run (background r) t1 = Some t2" "going t2"
    "al_pc t2 = BgWaiting" "stored t2 = stored t1" "al_ready t2 = []" unfolding r_def by blast
  from waiting_round [OF 2(2,3)] 2(5) obtain t3 where 3: "alog_run (background r) t2 = Some t3" "going t3"
    "al_pc t3 = BgWaiting" "stored t3 = stored t2" "al_ready t3 = []" "text_of (al_current t3) = []"
    unfolding r_def by auto
  have "alog_run (background (d1 @ r @ r)) s = Some t3" using 1(1) 2(1) 3(1) by (simp add: alog_run_append)
  moreover have "concat (al_files t3) = stored t3" using 3(3,5,6) by (simp add: stored_def being_printed_def)
  then have "concat (al_files t3) = stored s" using 3(4) 2(4) 1(4) by simp
  ultimately show ?thesis by blast
qed

subsection \<open>Properties\<close>

text \<open>
  Property C13: the logger is a queue of text. Whatever threads log, messages that fit a small buffer, in any
  interleaving with the background thread and the destructor, and whatever the system takes of the writes, no null
  buffer is dereferenced and no vector is popped empty; the files, what is being printed, the full buffers and the
  current buffer, in this order, hold a subsequence of the messages in the order they were logged; and if the
  writes to the files are complete, exactly the messages, each once. (The condition is needed: what a write returns is
  ignored.)
\<close>

theorem async_log_in_order:
  assumes "small_messages cs"
  shows "\<exists>s. alog_run cs alog_new = Some s \<and> subseq (stored s) (messages cs)
    \<and> (complete_writes cs \<longrightarrow>
        messages cs = concat (al_files s) @ being_printed s @ texts (al_ready s) @ text_of (al_current s))"
  using run_new [OF assms] by (auto simp: stored_def)

theorem async_log_in_order_witness:
  "\<exists>s. alog_run [Message ''one'', Background True [], Message ''two'', Background False [4000000, 4000000]] alog_new = Some s
    \<and> ''onetwo'' = concat (al_files s) @ being_printed s @ texts (al_ready s) @ text_of (al_current s)"
proof -
  let ?cs = "[Message ''one'', Background True [], Message ''two'', Background False [4000000, 4000000]]"
  have "small_messages ?cs" "complete_writes ?cs" "messages ?cs = ''onetwo''"
    by (simp_all add: small_messages_def kSmallBufferSize_def complete_writes_def complete_counts_def kLargeBufferSize_def)
  with async_log_in_order [of ?cs] show ?thesis by auto
qed

text \<open>
  While it is not stopped the background thread catches up. From any state a run
  leads to, its own steps alone, with complete writes, bring all the text that is there into the files, which is
  every message logged so far if the writes have been complete before.
\<close>

theorem async_log_reaches_the_file:
  assumes "small_messages cs" and "alog_run cs alog_new = Some s" and "\<not> al_stop s" and "al_pc s \<noteq> BgExited"
  shows "\<exists>ds t. alog_run (background ds) s = Some t \<and> concat (al_files t) = stored s
    \<and> (complete_writes cs \<longrightarrow> concat (al_files t) = messages cs)"
proof -
  from run_new [OF assms(1)] assms(2) have s: "alog_inv s" "complete_writes cs \<longrightarrow> stored s = messages cs" by auto
  then obtain ds t where "alog_run (background ds) s = Some t" "concat (al_files t) = stored s"
    using catches_up [of s] assms(3,4) by (auto simp: going_def)
  with s(2) show ?thesis by (intro exI [of _ ds] exI [of _ t]) simp
qed

theorem async_log_reaches_the_file_witness:
  "\<exists>ds s t. alog_run [Message ''hello''] alog_new = Some s \<and> alog_run (background ds) s = Some t
    \<and> concat (al_files t) = ''hello''"
proof -
  have small: "small_messages [Message ''hello'']" "complete_writes [Message ''hello'']"
    by (simp_all add: small_messages_def kSmallBufferSize_def complete_writes_def)
  obtain b where b: "alog_run [Message ''hello''] alog_new = Some (alog_new\<lparr>al_current := Some b\<rparr>)"
    using append_to_spec [of alog_new make_buffer "''hello''"] make_buffer_clean
    by (auto simp: write_impl_def alog_new_def open_log_def is_clean_def make_buffer_def sb_rest_def
        kLargeBufferSize_def)
  from async_log_reaches_the_file [OF small(1)] small(2) b show ?thesis
    by (auto simp: alog_new_def open_log_def)
qed

text \<open>A message is appended to a new logger's first buffer.\<close>

lemma first_message:
  assumes "length msg \<le> kSmallBufferSize" and "al_current u = Some make_buffer"
  shows "\<exists>b. alog_exec (Message msg) u = Some (u\<lparr>al_current := Some b\<rparr>) \<and> buf_ok b \<and> sb_slice b = msg"
proof -
  have cur: "buf_ok make_buffer" "sb_size make_buffer = 0" "sb_slice make_buffer = []"
    using make_buffer_clean by (auto simp: is_clean_def sb_slice_def)
  have len: "unat (of_nat (length msg) :: size_t) = length msg"
    using assms(1) by (intro unat_of_nat_size_t) (simp add: kSmallBufferSize_def)
  then have "sb_rest kLargeBufferSize make_buffer > of_nat (length msg)"
    using assms(1) unat_sb_rest [OF cur(1)] cur(2)
    by (simp add: word_less_nat_alt kSmallBufferSize_def kLargeBufferSize_def)
  then have "write_impl msg u = append_to msg u" using assms(2) by (simp add: write_impl_def)
  with append_to_spec [OF assms(2) cur(1), of msg] assms(1) cur(2,3) show ?thesis
    by (auto simp: kSmallBufferSize_def kLargeBufferSize_def)
qed

text \<open>
  The last messages can be lost. A message that is logged, and whose logging has
  returned, before the destructor asks the thread to stop, is never written when the thread was
  past its last look at the buffers: the destructor returns with the message still in memory.
\<close>

theorem async_log_loses_last_messages:
  assumes "msg \<noteq> []" and "length msg \<le> kSmallBufferSize"
  shows "\<exists>s. alog_run (background [False, False, False] @ [Message msg, Stop] @ background [False]) alog_new = Some s
    \<and> al_pc s = BgExited \<and> concat (al_files s) = [] \<and> text_of (al_current s) = msg"
proof -
  define u where "u = alog_new\<lparr>al_files := write_file [] (al_files alog_new), al_print := [], al_pc := BgCheck\<rparr>"
  have u: "alog_run (background [False, False, False]) alog_new = Some u"
    by (simp add: alog_new_def open_log_def bg_step_def bg_take_def bg_flush_def make_buffer_def refill_def u_def)
  have cur: "al_current u = Some make_buffer" by (simp add: u_def alog_new_def open_log_def)
  obtain b where m: "alog_exec (Message msg) u = Some (u\<lparr>al_current := Some b\<rparr>)" "sb_slice b = msg"
    using first_message [OF assms(2) cur] by blast
  let ?t = "u\<lparr>al_current := Some b, al_stop := True, al_pc := BgExited\<rparr>"
  have "alog_run ([Message msg, Stop] @ background [False]) u = Some ?t"
    using m(1) by (simp add: alog_stop_def bg_step_def u_def)
  with u have "alog_run (background [False, False, False] @ [Message msg, Stop] @ background [False]) alog_new = Some ?t"
    by (simp only: alog_run_append bind.simps)
  moreover have "al_pc ?t = BgExited \<and> concat (al_files ?t) = [] \<and> text_of (al_current ?t) = msg"
    using m(2) by (simp add: u_def alog_new_def open_log_def write_file_def text_of_def)
  ultimately show ?thesis by blast
qed

theorem async_log_loses_last_messages_witness:
  "\<exists>s. alog_run (background [False, False, False] @ [Message ''bye'', Stop] @ background [False]) alog_new = Some s
    \<and> al_pc s = BgExited \<and> concat (al_files s) = [] \<and> text_of (al_current s) = ''bye''"
  using async_log_loses_last_messages [of "''bye''"] by (simp add: kSmallBufferSize_def)

text \<open>And so can what a write does not take: of a message the file gets the beginning, and the rest is gone.\<close>

lemma short_log_write_loses_text:
  assumes "msg \<noteq> []" and "length msg \<le> kSmallBufferSize"
  shows "\<exists>s. alog_run [Message msg, Background False [], Background False [], Background False [n]] alog_new = Some s
    \<and> stored s = take n msg \<and> concat (al_files s) = take n msg"
proof -
  have cur: "al_current alog_new = Some make_buffer" by (simp add: alog_new_def open_log_def)
  obtain b where m: "alog_exec (Message msg) alog_new = Some (alog_new\<lparr>al_current := Some b\<rparr>)" "buf_ok b" "sb_slice b = msg"
    using first_message [OF assms(2) cur] by blast
  have "sb_size b \<noteq> 0" using m(3) assms(1) by (auto simp: sb_slice_def)
  then show ?thesis using m
    by (simp add: alog_new_def open_log_def bg_step_def bg_take_def bg_flush_def refill_def wrote_def write_file_def
        stored_def being_printed_def text_of_clean [OF make_buffer_clean])
qed

end
