(* ===== verification/Line_Logger.thy ===== *)
theory Line_Logger
  imports Static_Buffer
begin

section \<open>The logger (utils/logger.h)\<close>

text \<open>
  \<^verbatim>\<open>Logger::write\<close> drops what is below the level, builds a format string in a thread-local
  \<^verbatim>\<open>FormatBuffer\<close> out of the parts the pattern asks for, and hands it to the output function
  with the arguments. \<^verbatim>\<open>fmt\<close> and the clock are outside: the formatter of the buffer and the
  local time are arguments. What leaves the buffer's array is undefined, \<open>None\<close>.
\<close>

unbundle bit_operations_syntax

datatype log_level = LvTrace | LvDebug | LvInfo | LvWarn | LvError | LvFatal | LvOff

fun level_num :: "log_level \<Rightarrow> int" where
  "level_num LvTrace = 0" | "level_num LvDebug = 1" | "level_num LvInfo = 2" | "level_num LvWarn = 3"
| "level_num LvError = 4" | "level_num LvFatal = 5" | "level_num LvOff = 6"

definition PatLevel :: int where "PatLevel = 1"
definition PatDate :: int where "PatDate = 2"
definition PatTime :: int where "PatTime = 4"
definition PatFile :: int where "PatFile = 8"
definition PatLine :: int where "PatLine = 16"
definition PatThreadId :: int where "PatThreadId = 32"

record logger =
  lg_level :: log_level
  lg_pattern :: int

definition logger_new :: logger where
  "logger_new = \<lparr>lg_level = LvDebug,
     lg_pattern = PatLevel OR PatDate OR PatTime OR PatFile OR PatLine OR PatThreadId\<rparr>"

definition logger_set_level :: "log_level \<Rightarrow> logger \<Rightarrow> logger" where
  "logger_set_level level lg = lg\<lparr>lg_level := level\<rparr>"

definition logger_set_pattern :: "int \<Rightarrow> logger \<Rightarrow> logger" where
  "logger_set_pattern pattern lg = lg\<lparr>lg_pattern := pattern\<rparr>"

text \<open>\<^verbatim>\<open>std::to_string\<close> of a natural number and of an \<^verbatim>\<open>int\<close>.\<close>

fun nat_digits :: "nat \<Rightarrow> string" where
  "nat_digits n = (if n < 10 then [char_of (48 + n)] else nat_digits (n div 10) @ [char_of (48 + n mod 10)])"

declare nat_digits.simps [simp del]

definition int_digits :: "int \<Rightarrow> string" where
  "int_digits i = (if i < 0 then CHR ''-'' # nat_digits (nat (- i)) else nat_digits (nat i))"

subsection \<open>Building the format string\<close>

fun level_name :: "log_level \<Rightarrow> string option" where
  "level_name LvTrace = Some ''trace ''" | "level_name LvDebug = Some ''debug ''"
| "level_name LvInfo = Some ''info ''" | "level_name LvWarn = Some ''warn ''"
| "level_name LvError = Some ''error ''" | "level_name LvFatal = Some ''fatal ''"
| "level_name LvOff = None"

definition put_text :: "string \<Rightarrow> static_buffer \<Rightarrow> static_buffer option" where
  "put_text msg b = map_option snd (sb_append kFormatBufferSize msg b)"

definition put_format :: "'t formatter \<Rightarrow> string \<Rightarrow> 't \<Rightarrow> static_buffer \<Rightarrow> static_buffer option" where
  "put_format vformat_to_n fmt now b = map_option snd (sb_append_format vformat_to_n kFormatBufferSize fmt now b)"

definition put_if :: "bool \<Rightarrow> (static_buffer \<Rightarrow> static_buffer option) \<Rightarrow> static_buffer option \<Rightarrow> static_buffer option" where
  "put_if c f b = (if c then Option.bind b f else b)"

text \<open>\<^verbatim>\<open>Logger::build_fmt_str\<close>, part by part.\<close>

definition put_level :: "log_level \<Rightarrow> static_buffer \<Rightarrow> static_buffer option" where
  "put_level level b = (case level_name level of Some txt \<Rightarrow> put_text txt b | None \<Rightarrow> Some b)"

definition put_field :: "string \<Rightarrow> string \<Rightarrow> static_buffer \<Rightarrow> static_buffer option" where
  "put_field tag txt b = Option.bind (Option.bind (put_text tag b) (put_text txt)) (put_text '' '')"

definition build_fmt_str ::
  "'t formatter \<Rightarrow> 't \<Rightarrow> size_t \<Rightarrow> int \<Rightarrow> string \<Rightarrow> int \<Rightarrow> log_level \<Rightarrow> string \<Rightarrow> static_buffer \<Rightarrow> static_buffer option" where
  "build_fmt_str vformat_to_n now thread pattern src line level fmt local_fmt =
     (let b = Some (sb_clear local_fmt);
          b = put_if (pattern AND PatLevel \<noteq> 0) (put_level level) b;
          b = put_if (pattern AND PatDate \<noteq> 0) (put_format vformat_to_n ''{:%Y-%m-%d} '' now) b;
          b = put_if (pattern AND PatTime \<noteq> 0) (put_format vformat_to_n ''{:%H:%M:%S} '' now) b;
          b = put_if (pattern AND PatFile \<noteq> 0) (put_field ''f:'' src) b;
          b = put_if (pattern AND PatLine \<noteq> 0) (put_field ''l:'' (int_digits line)) b;
          b = put_if (pattern AND PatThreadId \<noteq> 0) (put_field ''id:'' (nat_digits (unat thread))) b
      in Option.bind (Option.bind b (put_text fmt)) (put_text ''\<newline>''))"

text \<open>
  \<^verbatim>\<open>Logger::write\<close> and \<^verbatim>\<open>console_write\<close>: what goes to the output function, if anything does,
  and the thread's buffer.
\<close>

definition logger_write ::
  "'t formatter \<Rightarrow> 't \<Rightarrow> size_t \<Rightarrow> logger \<Rightarrow> string \<Rightarrow> int \<Rightarrow> log_level \<Rightarrow> string \<Rightarrow> 'args \<Rightarrow> static_buffer
     \<Rightarrow> ((string \<times> 'args) option \<times> static_buffer) option" where
  "logger_write vformat_to_n now thread lg src line level fmt args local_fmt =
     (if level_num (lg_level lg) > level_num level then Some (None, local_fmt)
      else map_option (\<lambda>b. (Some (sb_slice b, args), b))
             (build_fmt_str vformat_to_n now thread (lg_pattern lg) src line level fmt local_fmt))"

subsection \<open>What the line should be\<close>

definition part :: "bool \<Rightarrow> string \<Rightarrow> string" where
  "part c txt = (if c then txt else [])"

definition level_text :: "log_level \<Rightarrow> string" where
  "level_text level = (case level_name level of Some txt \<Rightarrow> txt | None \<Rightarrow> [])"

definition head_text :: "(string \<Rightarrow> 't \<Rightarrow> string) \<Rightarrow> 't \<Rightarrow> int \<Rightarrow> log_level \<Rightarrow> string" where
  "head_text full now pattern level =
     part (pattern AND PatLevel \<noteq> 0) (level_text level)
     @ part (pattern AND PatDate \<noteq> 0) (full ''{:%Y-%m-%d} '' now)
     @ part (pattern AND PatTime \<noteq> 0) (full ''{:%H:%M:%S} '' now)"

definition log_line :: "(string \<Rightarrow> 't \<Rightarrow> string) \<Rightarrow> 't \<Rightarrow> size_t \<Rightarrow> int \<Rightarrow> string \<Rightarrow> int \<Rightarrow> log_level \<Rightarrow> string \<Rightarrow> string" where
  "log_line full now thread pattern src line level fmt =
     head_text full now pattern level
     @ part (pattern AND PatFile \<noteq> 0) (''f:'' @ src @ '' '')
     @ part (pattern AND PatLine \<noteq> 0) (''l:'' @ int_digits line @ '' '')
     @ part (pattern AND PatThreadId \<noteq> 0) (''id:'' @ nat_digits (unat thread) @ '' '')
     @ fmt @ ''\<newline>''"

text \<open>A buffer that holds a text as far as it has room.\<close>

definition holds :: "string \<Rightarrow> static_buffer option \<Rightarrow> bool" where
  "holds txt x \<longleftrightarrow> (\<exists>b. x = Some b \<and> sb_wf kFormatBufferSize b \<and> sb_slice b = take kFormatBufferSize txt)"

lemma holds_clear: "sb_wf kFormatBufferSize b \<Longrightarrow> holds [] (Some (sb_clear b))"
  by (simp add: holds_def sb_wf_clear)

lemma holds_size: "sb_wf cap b \<Longrightarrow> sb_slice b = take cap txt \<Longrightarrow> unat (sb_size b) = min (length txt) cap"
  using length_sb_slice [of cap b] by simp

lemma holds_put:
  assumes "holds txt x" and "length msg < 2 ^ 64"
  shows "holds (txt @ msg) (Option.bind x (put_text msg))"
proof -
  from assms(1) obtain b where b: "x = Some b" "sb_wf kFormatBufferSize b" "sb_slice b = take kFormatBufferSize txt"
    by (auto simp: holds_def)
  note size = holds_size [OF b(2,3)]
  from sb_append_spec [OF b(2) assms(2)] obtain n b' where
    b': "sb_append kFormatBufferSize msg b = Some (n, b')" "sb_wf kFormatBufferSize b'"
    "sb_slice b' = sb_slice b @ take (min (kFormatBufferSize - unat (sb_size b)) (length msg)) msg" by blast
  have "sb_slice b' = take kFormatBufferSize (txt @ msg)"
    unfolding b'(3) b(3) size by (cases "length txt \<le> kFormatBufferSize") (simp_all add: min_def)
  with b(1) b'(1,2) show ?thesis by (simp add: holds_def put_text_def)
qed

lemma holds_format:
  assumes "holds txt x" and "format_to_n_spec vformat_to_n full"
    and "length txt + length (full fmt now) \<le> kFormatBufferSize"
  shows "holds (txt @ full fmt now) (Option.bind x (put_format vformat_to_n fmt now))"
proof -
  from assms(1) obtain b where b: "x = Some b" "sb_wf kFormatBufferSize b" "sb_slice b = take kFormatBufferSize txt"
    by (auto simp: holds_def)
  have "unat (sb_size b) + length (full fmt now) \<le> kFormatBufferSize"
    using holds_size [OF b(2,3)] assms(3) by simp
  from sb_append_format_fits [OF b(2) assms(2) this]
  have "Option.bind x (put_format vformat_to_n fmt now) = Option.bind x (put_text (full fmt now))"
    using b(1) by (simp add: put_format_def put_text_def)
  moreover have "length (full fmt now) < 2 ^ 64" using assms(3) by (simp add: kFormatBufferSize_def)
  ultimately show ?thesis using holds_put [OF assms(1)] by simp
qed

lemma holds_if:
  "holds txt x \<Longrightarrow> (c \<Longrightarrow> holds (txt @ msg) (Option.bind x f)) \<Longrightarrow> holds (txt @ part c msg) (put_if c f x)"
  by (simp add: put_if_def part_def)

lemma holds_level: "holds txt x \<Longrightarrow> holds (txt @ level_text level) (Option.bind x (put_level level))"
  using holds_put [of "txt" x "level_text level"]
  by (cases level) (auto simp: put_level_def level_text_def holds_def split: bind_splits)

lemma holds_field:
  assumes "holds txt x" and "length tag < 2 ^ 64" and "length msg < 2 ^ 64"
  shows "holds (txt @ tag @ msg @ '' '') (Option.bind x (put_field tag msg))"
proof -
  have "Option.bind x (put_field tag msg) = Option.bind (Option.bind (Option.bind x (put_text tag)) (put_text msg)) (put_text '' '')"
    by (cases x) (simp_all add: put_field_def)
  with holds_put [OF holds_put [OF holds_put [OF assms(1,2)] assms(3)], of "'' ''"] show ?thesis by simp
qed

lemma length_nat_digits: "length (nat_digits n) \<le> Suc n"
proof (induction n rule: nat_digits.induct)
  case (1 n)
  have "n div 10 < n" if "\<not> n < 10" using that by simp
  with "1" show ?case by (subst nat_digits.simps) auto
qed

lemma nat_digits_short: "length (nat_digits n) \<le> Suc k" if "n < 10 ^ Suc k"
  using that
proof (induction k arbitrary: n)
  case 0
  then show ?case by (subst nat_digits.simps) simp
next
  case (Suc k)
  then have "n div 10 < 10 ^ Suc k" by (simp add: less_mult_imp_div_less)
  from Suc.IH [OF this] show ?case by (subst nat_digits.simps) simp
qed

lemma nat_digits_word: "length (nat_digits (unat (w :: size_t))) < 2 ^ 64"
  using nat_digits_short [of "unat w" 19] unat_size_t_bound [of w] by simp

lemma int_digits_int:
  assumes "- (2 ^ 31) \<le> i" and "i < 2 ^ 31"
  shows "length (int_digits i) < 2 ^ 64"
proof -
  have "nat i < 10 ^ Suc 9" "nat (- i) < 10 ^ Suc 9" using assms by simp_all
  from this [THEN nat_digits_short] show ?thesis by (simp add: int_digits_def)
qed

text \<open>
  The date and the time have some twenty characters; any texts up to a thousand leave the head of the line inside
  the buffer.
\<close>

definition dates_fit :: "(string \<Rightarrow> 't \<Rightarrow> string) \<Rightarrow> bool" where
  "dates_fit full \<longleftrightarrow> (\<forall>now. length (full ''{:%Y-%m-%d} '' now) \<le> 1000 \<and> length (full ''{:%H:%M:%S} '' now) \<le> 1000)"

lemma head_fits:
  assumes "dates_fit full"
  shows "length (head_text full now pattern level) \<le> kFormatBufferSize"
proof -
  have cut: "length xs \<le> n \<Longrightarrow> length (part c xs) \<le> n" for c xs n by (simp add: part_def)
  have "length (level_text level) \<le> 6" by (cases level) (simp_all add: level_text_def)
  moreover have "length (full ''{:%Y-%m-%d} '' now) \<le> 1000" "length (full ''{:%H:%M:%S} '' now) \<le> 1000"
    using assms by (simp_all add: dates_fit_def)
  ultimately have "length (part (pattern AND PatLevel \<noteq> 0) (level_text level)) \<le> 6"
    "length (part (pattern AND PatDate \<noteq> 0) (full ''{:%Y-%m-%d} '' now)) \<le> 1000"
    "length (part (pattern AND PatTime \<noteq> 0) (full ''{:%H:%M:%S} '' now)) \<le> 1000"
    by (blast intro: cut)+
  then show ?thesis by (simp add: head_text_def kFormatBufferSize_def)
qed

text \<open>The whole format string, cut at the size of the buffer.\<close>

lemma build_fmt_str_holds:
  assumes "sb_wf kFormatBufferSize local_fmt" and "format_to_n_spec vformat_to_n full"
    and "length (head_text full now pattern level) \<le> kFormatBufferSize"
    and "length src < 2 ^ 64" and "length (int_digits line) < 2 ^ 64" and "length fmt < 2 ^ 64"
  shows "holds (log_line full now thread pattern src line level fmt)
    (build_fmt_str vformat_to_n now thread pattern src line level fmt local_fmt)"
proof -
  let ?t1 = "part (pattern AND PatLevel \<noteq> 0) (level_text level)"
  let ?t2 = "part (pattern AND PatDate \<noteq> 0) (full ''{:%Y-%m-%d} '' now)"
  let ?t3 = "part (pattern AND PatTime \<noteq> 0) (full ''{:%H:%M:%S} '' now)"
  define b0 where "b0 = Some (sb_clear local_fmt)"
  define b1 where "b1 = put_if (pattern AND PatLevel \<noteq> 0) (put_level level) b0"
  define b2 where "b2 = put_if (pattern AND PatDate \<noteq> 0) (put_format vformat_to_n ''{:%Y-%m-%d} '' now) b1"
  define b3 where "b3 = put_if (pattern AND PatTime \<noteq> 0) (put_format vformat_to_n ''{:%H:%M:%S} '' now) b2"
  define b4 where "b4 = put_if (pattern AND PatFile \<noteq> 0) (put_field ''f:'' src) b3"
  define b5 where "b5 = put_if (pattern AND PatLine \<noteq> 0) (put_field ''l:'' (int_digits line)) b4"
  define b6 where "b6 = put_if (pattern AND PatThreadId \<noteq> 0) (put_field ''id:'' (nat_digits (unat thread))) b5"
  have len: "length (?t1 @ ?t2 @ ?t3) \<le> kFormatBufferSize" using assms(3) by (simp add: head_text_def)
  have "holds ([] @ ?t1) b1"
    unfolding b1_def b0_def by (rule holds_if [OF holds_clear holds_level [OF holds_clear]]) (simp_all add: assms(1))
  then have h1: "holds ?t1 b1" by simp
  have h2: "holds (?t1 @ ?t2) b2"
    unfolding b2_def using len
    by (intro holds_if [OF h1] holds_format [OF h1 assms(2)]) (simp add: part_def)
  have "holds ((?t1 @ ?t2) @ ?t3) b3"
    unfolding b3_def using len
    by (intro holds_if [OF h2] holds_format [OF h2 assms(2)]) (simp add: part_def)
  then have h3: "holds (head_text full now pattern level) b3" by (simp add: head_text_def)
  have field: "length ''f:'' < 2 ^ 64" "length ''l:'' < 2 ^ 64" "length ''id:'' < 2 ^ 64" by simp_all
  note h4 = holds_if [OF h3 holds_field [OF h3 field(1) assms(4)], of "pattern AND PatFile \<noteq> 0", folded b4_def]
  note h5 = holds_if [OF h4 holds_field [OF h4 field(2) assms(5)], of "pattern AND PatLine \<noteq> 0", folded b5_def]
  note h6 = holds_if [OF h5 holds_field [OF h5 field(3) nat_digits_word], of "pattern AND PatThreadId \<noteq> 0" thread, folded b6_def]
  note h7 = holds_put [OF h6 assms(6)]
  show ?thesis
    using holds_put [OF h7, of "''\<newline>''"]
    by (simp add: build_fmt_str_def log_line_def b0_def b1_def b2_def b3_def b4_def b5_def b6_def Let_def)
qed

subsection \<open>Property\<close>

text \<open>
  The logger writes what the pattern asks for. A message below the level writes
  nothing and leaves the buffer alone; any other gives its output the level, date, time, file, line
  and thread that the pattern selects, in this order, and then the message's own format with a
  newline, cut at the 4000 characters of the buffer, and never a character outside it.
\<close>

theorem logger_writes_the_line:
  assumes "sb_wf kFormatBufferSize local_fmt" and "format_to_n_spec vformat_to_n full"
    and "length (head_text full now (lg_pattern lg) level) \<le> kFormatBufferSize"
    and "length src < 2 ^ 64" and "length (int_digits line) < 2 ^ 64" and "length fmt < 2 ^ 64"
  shows "\<exists>b. logger_write vformat_to_n now thread lg src line level fmt args local_fmt =
      Some (if level_num level < level_num (lg_level lg) then (None, local_fmt)
            else (Some (take kFormatBufferSize (log_line full now thread (lg_pattern lg) src line level fmt), args), b))"
  using build_fmt_str_holds [OF assms, of thread] by (auto simp: logger_write_def holds_def)

theorem logger_writes_the_line_witness:
  "\<exists>b. logger_write (\<lambda>n fmt now. (take n now, of_nat (length now))) ''2024-01-01 '' 3
      (logger_set_pattern (PatLevel OR PatDate OR PatLine) logger_new) ''main.cpp'' 7 LvWarn ''hi {}'' (42 :: nat)
      \<lparr>sb_buf = replicate kFormatBufferSize (CHR ''x''), sb_size = 0\<rparr>
    = Some (Some (''warn 2024-01-01 l:7 hi {}\<newline>'', 42), b)"
proof -
  let ?f = "\<lambda>n fmt now. (take n now, of_nat (length now))"
  let ?lg = "logger_set_pattern (PatLevel OR PatDate OR PatLine) logger_new"
  have wf: "sb_wf kFormatBufferSize \<lparr>sb_buf = replicate kFormatBufferSize (CHR ''x''), sb_size = 0\<rparr>"
    by (simp add: sb_wf_def kFormatBufferSize_def)
  have spec: "format_to_n_spec ?f (\<lambda>fmt now. now)" by (simp add: format_to_n_spec_def)
  have pats: "lg_pattern ?lg = 19" "lg_level ?lg = LvDebug"
    by (simp_all add: logger_set_pattern_def logger_new_def PatLevel_def PatDate_def PatLine_def)
  have "char_of (55 :: nat) = CHR ''7''" by code_simp
  then have digits: "int_digits 7 = ''7''" by (simp add: int_digits_def nat_digits.simps)
  have head: "head_text (\<lambda>fmt now. now) ''2024-01-01 '' 19 LvWarn = ''warn 2024-01-01 ''"
    by (simp add: head_text_def part_def level_text_def PatLevel_def PatDate_def PatTime_def)
  have line: "log_line (\<lambda>fmt now. now) ''2024-01-01 '' 3 19 ''main.cpp'' 7 LvWarn ''hi {}''
      = ''warn 2024-01-01 l:7 hi {}\<newline>''"
    by (simp add: log_line_def head part_def digits PatFile_def PatLine_def PatThreadId_def)
  show ?thesis
    using logger_writes_the_line [OF wf spec, of "''2024-01-01 ''" ?lg LvWarn "''main.cpp''" 7 "''hi {}''" 3 42]
    by (simp add: pats head line digits kFormatBufferSize_def)
qed

end
