(* ===== verification/Iocp.thy ===== *)
theory Iocp
  imports Io_Service "HOL-Library.Multiset"
begin

section \<open>The completion port service (net/iocp.h, net/iocp.cpp)\<close>

text \<open>
  \<^verbatim>\<open>IoCompletionPort\<close> starts each operation at once and takes the completions from the port
  in \<^verbatim>\<open>poll\<close>. Windows is the environment: a call that starts an operation either takes it
  (the completion is queued later, also when the call returned success) or fails with an error
  other than \<^verbatim>\<open>ERROR_IO_PENDING\<close>, and then queues nothing; the error is an argument of the
  operation, \<open>None\<close> when it was taken. \<^verbatim>\<open>DWORD\<close> and \<^verbatim>\<open>ULONG\<close> have 32 bits.
\<close>

type_synonym dword = "32 word"

definition ulong_max :: dword where
  "ulong_max = - 1"

text \<open>The \<^verbatim>\<open>OVERLAPPED\<close> of a file operation holds the offset in two halves.\<close>

record overlapped =
  ov_offset :: dword
  ov_offset_high :: dword

definition zero_overlapped :: overlapped where
  "zero_overlapped = \<lparr>ov_offset = 0, ov_offset_high = 0\<rparr>"

definition file_position :: "overlapped \<Rightarrow> nat" where
  "file_position ov = unat (ov_offset_high ov) * 2 ^ 32 + unat (ov_offset ov)"

datatype port_op =
  PortWrite int nat nat overlapped | PortRead int nat nat overlapped | PortAccept int int | PortConnect int
| PortSend int nat nat | PortRecv int nat nat | PortSendTo int nat nat | PortRecvFrom int nat nat

record port_req =
  po_op :: port_op
  po_ctx :: nat

text \<open>
  A packet of the port: the bytes transferred, the context (null for a wake-up) and the error when
  the operation failed.
\<close>

record port_packet =
  pk_bytes :: dword
  pk_ctx :: "nat option"
  pk_err :: "int option"

record 'p port_call =
  pc_ec :: error_code
  pc_ctx :: nat
  pc_op :: operation
  pc_ptr :: "'p io_ptr"
  pc_res :: "64 word"

text \<open>
  The state: what Windows has taken, the port's queue, \<^verbatim>\<open>io_num\<close>, the buffers of 128 bytes
  and the sockets that \<^verbatim>\<open>accept\<close> created and that are still its own, and the callbacks that
  ran. \<open>pt_failed\<close> counts the operations that failed when they were started, and \<open>pt_swallowed\<close> lists the
  operations whose completion was taken for a wake-up.
\<close>

record 'p port = "'p io_heap" +
  pt_kernel :: "port_req list"
  pt_queue :: "port_packet list"
  pt_io_num :: size_t
  pt_bufs :: "nat set"
  pt_socks :: "int list"
  pt_calls :: "'p port_call list"
  pt_failed :: nat
  pt_swallowed :: "nat list"

definition port_new :: "'p port" where
  "port_new = \<lparr>ih_ctx = Map.empty, ih_msg = Map.empty, ih_next = 0, ih_issued = [], ih_user = Map.empty,
     pt_kernel = [], pt_queue = [], pt_io_num = 0, pt_bufs = {}, pt_socks = [], pt_calls = [], pt_failed = 0,
     pt_swallowed = []\<rparr>"

text \<open>
  The constructor: a socket to ask for the three extension functions, and the port's own handle; the
  process ends when one of the calls fails. The results of the calls are arguments.
\<close>

definition port_init :: "error_code \<Rightarrow> int \<Rightarrow> int \<Rightarrow> int \<Rightarrow> bool \<Rightarrow> 'p port checked" where
  "port_init socket_ec accept_ret connect_ret addr_ret handle =
     (if is_error socket_ec then Inl (Fatal ''Failed to open a socket in iocp'')
      else if accept_ret \<noteq> 0 then Inl (Fatal ''Failed to get accept func'')
      else if connect_ret \<noteq> 0 then Inl (Fatal ''Failed to get connect func'')
      else if addr_ret \<noteq> 0 then Inl (Fatal ''Failed to get sock addr func'')
      else if \<not> handle then Inl (Fatal ''Failed to create iocp handle'')
      else Inr port_new)"

text \<open>
  \<^verbatim>\<open>WebSocket::init\<close>, which the constructor calls first: a static object whose destructor calls \<^verbatim>\<open>WSACleanup\<close> at
  the end of the process, and a \<^verbatim>\<open>WSAStartup\<close> with every call. Windows counts these.
\<close>

record winsock =
  ws_static :: bool
  ws_started :: int

definition web_socket_init :: "int \<Rightarrow> winsock \<Rightarrow> winsock checked" where
  "web_socket_init ret s =
     (let s = s\<lparr>ws_static := True\<rparr>
      in if 0 \<noteq> ret then Inl (Fatal ''failed to start wsa'') else Inr (s\<lparr>ws_started := ws_started s + 1\<rparr>))"

definition web_socket_dtor :: "winsock \<Rightarrow> winsock" where
  "web_socket_dtor s = (if ws_static s then s\<lparr>ws_started := ws_started s - 1\<rparr> else s)"

fun web_socket_inits :: "nat \<Rightarrow> winsock \<Rightarrow> winsock checked" where
  "web_socket_inits 0 s = Inr s"
| "web_socket_inits (Suc n) s = bind_checked (web_socket_init 0 s) (web_socket_inits n)"

text \<open>With more than one service the library is not unloaded: all but one \<^verbatim>\<open>WSAStartup\<close> have no \<^verbatim>\<open>WSACleanup\<close>.\<close>

lemma winsock_stays_loaded:
  "web_socket_inits n s = Inr t \<Longrightarrow> 0 < n \<Longrightarrow> ws_started (web_socket_dtor t) = ws_started s + int n - 1"
proof -
  have "web_socket_inits n s = Inr t \<Longrightarrow> ws_started t = ws_started s + int n \<and> (0 < n \<or> ws_static s \<longrightarrow> ws_static t)" for t
  proof (induction n arbitrary: s)
    case (Suc n)
    then show ?case using Suc.IH [of "s\<lparr>ws_static := True, ws_started := ws_started s + 1\<rparr>"]
      by (simp add: web_socket_init_def)
  qed simp
  then show "web_socket_inits n s = Inr t \<Longrightarrow> 0 < n \<Longrightarrow> ws_started (web_socket_dtor t) = ws_started s + int n - 1"
    by (simp add: web_socket_dtor_def)
qed

text \<open>The destructor closes the port: nothing is taken from it any more.\<close>

definition port_dtor :: "'p port \<Rightarrow> 'p port" where
  "port_dtor s = s\<lparr>pt_queue := []\<rparr>"

definition port_ctx :: "nat \<Rightarrow> 'p port \<Rightarrow> 'p io_ctx" where
  "port_ctx ioc s = the (ih_ctx s ioc)"

definition port_count :: "'p port \<Rightarrow> 'p port" where
  "port_count s = s\<lparr>pt_io_num := pt_io_num s + 1\<rparr>"

text \<open>\<^verbatim>\<open>ioc->cb\<close>: the user's callback, which deletes the context.\<close>

definition port_cb :: "error_code \<Rightarrow> nat \<Rightarrow> 'p port \<Rightarrow> 'p port" where
  "port_cb ec ioc s =
     s\<lparr>pt_calls := pt_calls s @ [\<lparr>pc_ec = ec, pc_ctx = ioc, pc_op = ic_op (port_ctx ioc s),
            pc_ptr = ic_ptr (port_ctx ioc s), pc_res = ic_res (port_ctx ioc s)\<rparr>],
       ih_ctx := (ih_ctx s)(ioc := None)\<rparr>"

definition port_start :: "port_op \<Rightarrow> int option \<Rightarrow> nat \<Rightarrow> 'p port \<Rightarrow> 'p port" where
  "port_start op err ioc s =
     (case err of
        None \<Rightarrow> s\<lparr>pt_kernel := pt_kernel s @ [\<lparr>po_op = op, po_ctx = ioc\<rparr>]\<rparr>
      | Some e \<Rightarrow> port_cb (make_system_error_code e) ioc (s\<lparr>pt_failed := Suc (pt_failed s)\<rparr>))"

subsection \<open>Operations\<close>

definition port_write_file :: "int \<Rightarrow> nat \<Rightarrow> int option \<Rightarrow> nat \<Rightarrow> 'p port \<Rightarrow> 'p port" where
  "port_write_file fd offset err ioc s =
     port_start (PortWrite fd (ic_buf (port_ctx ioc s)) (ic_len (port_ctx ioc s))
                   (zero_overlapped\<lparr>ov_offset := of_nat offset\<rparr>)) err ioc (port_count s)"

definition port_read_file :: "int \<Rightarrow> nat \<Rightarrow> int option \<Rightarrow> nat \<Rightarrow> 'p port \<Rightarrow> 'p port" where
  "port_read_file fd offset err ioc s =
     port_start (PortRead fd (ic_buf (port_ctx ioc s)) (ic_len (port_ctx ioc s))
                   (zero_overlapped\<lparr>ov_offset := of_nat offset\<rparr>)) err ioc (port_count s)"

text \<open>\<open>opened\<close> is what \<^verbatim>\<open>detail::open_socket\<close> returns for the new connection.\<close>

definition port_accept :: "int \<Rightarrow> int \<times> error_code \<Rightarrow> int option \<Rightarrow> nat \<Rightarrow> 'p port \<Rightarrow> 'p port" where
  "port_accept listener opened err ioc s =
     (let s = port_count s; (sock, ec) = opened
      in if is_error ec then port_cb ec ioc (s\<lparr>pt_failed := Suc (pt_failed s)\<rparr>)
         else (let buf = ih_next s;
                   s = s\<lparr>pt_socks := sock # pt_socks s, pt_bufs := insert buf (pt_bufs s), ih_next := Suc buf,
                         ih_ctx := (ih_ctx s)(ioc \<mapsto> (port_ctx ioc s)\<lparr>ic_res := word_of_int sock,
                                       ic_buf := buf, ic_len := 128\<rparr>)\<rparr>
               in if err = None then port_start (PortAccept listener sock) err ioc s
                  else port_start (PortAccept listener sock) err ioc
                         (s\<lparr>pt_socks := remove1 sock (pt_socks s), pt_bufs := pt_bufs s - {buf}\<rparr>)))"

definition port_connect :: "int \<Rightarrow> int option \<Rightarrow> nat \<Rightarrow> 'p port \<Rightarrow> 'p port" where
  "port_connect sock err ioc s =
     (let s = port_count s
      in port_start (PortConnect sock) err ioc
           (s\<lparr>ih_ctx := (ih_ctx s)(ioc \<mapsto> (port_ctx ioc s)\<lparr>ic_res := word_of_int sock\<rparr>)\<rparr>))"

definition port_send :: "int \<Rightarrow> int option \<Rightarrow> nat \<Rightarrow> 'p port \<Rightarrow> 'p port" where
  "port_send sock err ioc s =
     port_start (PortSend sock (ic_buf (port_ctx ioc s)) (ic_len (port_ctx ioc s))) err ioc (port_count s)"

definition port_receive :: "int \<Rightarrow> int option \<Rightarrow> nat \<Rightarrow> 'p port \<Rightarrow> 'p port" where
  "port_receive sock err ioc s =
     port_start (PortRecv sock (ic_buf (port_ctx ioc s)) (ic_len (port_ctx ioc s))) err ioc (port_count s)"

definition port_send_to :: "int \<Rightarrow> int option \<Rightarrow> nat \<Rightarrow> 'p port \<Rightarrow> 'p port" where
  "port_send_to sock err ioc s =
     port_start (PortSendTo sock (ic_buf (port_ctx ioc s)) (ic_len (port_ctx ioc s))) err ioc (port_count s)"

definition port_receive_from :: "int \<Rightarrow> int option \<Rightarrow> nat \<Rightarrow> 'p port \<Rightarrow> 'p port" where
  "port_receive_from sock err ioc s =
     port_start (PortRecvFrom sock (ic_buf (port_ctx ioc s)) (ic_len (port_ctx ioc s))) err ioc (port_count s)"

definition port_wake_up :: "'p port \<Rightarrow> 'p port" where
  "port_wake_up s = s\<lparr>pt_queue := pt_queue s @ [\<lparr>pk_bytes = ulong_max, pk_ctx = None, pk_err = None\<rparr>]\<rparr>"

text \<open>\<^verbatim>\<open>attach\<close>: \<open>err\<close> is the error when \<^verbatim>\<open>CreateIoCompletionPort\<close> returns null.\<close>

definition port_attach :: "int option \<Rightarrow> error_code \<Rightarrow> 'p port \<Rightarrow> error_code \<times> 'p port" where
  "port_attach err ec s = (case err of None \<Rightarrow> (ec, s) | Some e \<Rightarrow> (make_system_error_code e, s))"

text \<open>
  The service's side on Windows: \<^verbatim>\<open>io_buf\<close> casts the length to \<^verbatim>\<open>ULONG\<close>, and the two message
  operations carry the user's pointer as it is.
\<close>

definition io_buf_win :: "nat \<Rightarrow> nat \<Rightarrow> 'p io_ctx \<Rightarrow> 'p io_ctx" where
  "io_buf_win buf len c = c\<lparr>ic_buf := buf, ic_len := unat (of_nat len :: dword)\<rparr>"

definition svc_send_to_win where
  "svc_send_to_win impl remote buf len user_ptr h =
     (let (ioc, h) = new_ctx user_ptr ((io_buf_win buf len (blank_ctx OpSendTo (UserPtr user_ptr) UserCb))
            \<lparr>ic_addr_len := length remote, ic_addr := remote\<rparr>) h
      in impl ioc h)"

definition svc_receive_from_win where
  "svc_receive_from_win impl buf len user_ptr h =
     (let (ioc, h) = new_ctx user_ptr ((io_buf_win buf len (blank_ctx OpReceiveFrom (UserPtr user_ptr) UserCb))
            \<lparr>ic_addr_len := sockaddr_in6_size\<rparr>) h
      in impl ioc h)"

definition ulong :: "nat \<Rightarrow> nat" where
  "ulong len = unat (of_nat len :: dword)"

datatype port_request =
  PWriteFile int nat nat nat | PReadFile int nat nat nat | PAccept int "int \<times> error_code"
| PConnect int "byte list" | PSend int nat nat | PReceive int nat nat
| PSendTo int "byte list" nat nat | PReceiveFrom int nat nat

fun port_issue :: "port_request \<Rightarrow> int option \<Rightarrow> 'p \<Rightarrow> 'p port \<Rightarrow> 'p port" where
  "port_issue (PWriteFile fd b n off) err p s = svc_write_file (port_write_file fd off err) b (ulong n) p s"
| "port_issue (PReadFile fd b n off) err p s = svc_read_file (port_read_file fd off err) b (ulong n) p s"
| "port_issue (PAccept fd opened) err p s = svc_accept (port_accept fd opened err) p s"
| "port_issue (PConnect fd a) err p s = svc_connect (port_connect fd err) a p s"
| "port_issue (PSend fd b n) err p s = svc_send (port_send fd err) b (ulong n) p s"
| "port_issue (PReceive fd b n) err p s = svc_receive (port_receive fd err) b (ulong n) p s"
| "port_issue (PSendTo fd a b n) err p s = svc_send_to_win (port_send_to fd err) a b n p s"
| "port_issue (PReceiveFrom fd b n) err p s = svc_receive_from_win (port_receive_from fd err) b n p s"

subsection \<open>Completions\<close>

text \<open>
  One packet in \<^verbatim>\<open>poll\<close>, up to the callback: the \<^verbatim>\<open>switch\<close> on the operation. \<open>peer\<close> is the
  remote address that \<^verbatim>\<open>GetAcceptExSockaddrs\<close> finds in the buffer.
\<close>

definition port_finish :: "(nat \<Rightarrow> byte list) \<Rightarrow> dword \<Rightarrow> int option \<Rightarrow> nat \<Rightarrow> 'p port \<Rightarrow> 'p port" where
  "port_finish peer bytes err ioc s =
     (let c = port_ctx ioc s
      in case ic_op c of
           OpAccept \<Rightarrow>
             (if err = None
              then s\<lparr>ih_ctx := (ih_ctx s)(ioc \<mapsto> c\<lparr>ic_addr := peer (ic_buf c), ic_addr_len := length (peer (ic_buf c))\<rparr>),
                     pt_bufs := pt_bufs s - {ic_buf c}\<rparr>
              else s\<lparr>pt_socks := remove1 (uint (ic_res c)) (pt_socks s), pt_bufs := pt_bufs s - {ic_buf c}\<rparr>)
         | OpConnect \<Rightarrow> s
         | OpNoop \<Rightarrow> s
         | _ \<Rightarrow> s\<lparr>ih_ctx := (ih_ctx s)(ioc \<mapsto> c\<lparr>ic_res := ucast bytes\<rparr>)\<rparr>)"

definition port_error :: "int option \<Rightarrow> error_code" where
  "port_error err = (case err of None \<Rightarrow> no_error | Some e \<Rightarrow> make_system_error_code e)"

text \<open>
  An iteration of the loop. The port's queue empty is \<^verbatim>\<open>WAIT_TIMEOUT\<close>; a packet that transferred
  \<^verbatim>\<open>ULONG_MAX\<close> bytes is taken for a wake-up.
\<close>

datatype port_round = RoundReturn int error_code | RoundContinue

definition port_take :: "(nat \<Rightarrow> byte list) \<Rightarrow> error_code \<Rightarrow> 'p port \<Rightarrow> port_round \<times> 'p port" where
  "port_take peer ec s =
     (case pt_queue s of
        [] \<Rightarrow> (RoundReturn 0 ec, s)
      | pk # pks \<Rightarrow>
          (let s = s\<lparr>pt_queue := pks\<rparr>
           in if pk_bytes pk = ulong_max
              then (RoundContinue, s\<lparr>pt_swallowed := pt_swallowed s @ (case pk_ctx pk of None \<Rightarrow> [] | Some ioc \<Rightarrow> [ioc])\<rparr>)
              else (case pk_ctx pk of
                      None \<Rightarrow> (RoundReturn (-1) (port_error (pk_err pk)), s)
                    | Some ioc \<Rightarrow>
                        (let s = s\<lparr>pt_io_num := pt_io_num s - 1\<rparr>
                         in (RoundContinue, port_cb (port_error (pk_err pk)) ioc
                               (port_finish peer (pk_bytes pk) (pk_err pk) ioc s))))))"

fun port_loop :: "nat \<Rightarrow> (nat \<Rightarrow> byte list) \<Rightarrow> error_code \<Rightarrow> 'p port \<Rightarrow> (int \<times> error_code) \<times> 'p port" where
  "port_loop 0 peer ec s = ((1, ec), s)"
| "port_loop (Suc i) peer ec s =
     (case port_take peer ec s of
        (RoundReturn r ec', s) \<Rightarrow> ((r, ec'), s)
      | (RoundContinue, s) \<Rightarrow> port_loop i peer ec s)"

definition port_poll :: "(nat \<Rightarrow> byte list) \<Rightarrow> nat \<Rightarrow> error_code \<Rightarrow> 'p port \<Rightarrow> (int \<times> error_code) \<times> 'p port" where
  "port_poll peer nanosec ec s =
     (if nanosec = 0 \<and> pt_io_num s = 0 then ((0, ec), s) else port_loop 1024 peer ec s)"

text \<open>
  The steps: an operation, a wake-up, a completion by Windows, with any number of bytes, and an iteration of
  the loop.
\<close>

inductive port_step :: "(nat \<Rightarrow> byte list) \<Rightarrow> 'p port \<Rightarrow> 'p port \<Rightarrow> bool" for peer where
  issue: "port_step peer s (port_issue req err p s)"
| wake: "port_step peer s (port_wake_up s)"
| complete: "pt_kernel s = xs @ r # ys \<Longrightarrow>
    port_step peer s (s\<lparr>pt_kernel := xs @ ys,
      pt_queue := pt_queue s @ [\<lparr>pk_bytes = bytes, pk_ctx = Some (po_ctx r), pk_err = err\<rparr>]\<rparr>)"
| deliver: "port_step peer s (snd (port_take peer ec s))"

subsection \<open>The invariant\<close>

definition port_pending :: "'p port \<Rightarrow> nat multiset" where
  "port_pending s = mset (map po_ctx (pt_kernel s)) + mset (List.map_filter pk_ctx (pt_queue s))"

definition port_called :: "'p port \<Rightarrow> nat multiset" where
  "port_called s = mset (map pc_ctx (pt_calls s))"

definition port_inv :: "'p port \<Rightarrow> bool" where
  "port_inv s \<longleftrightarrow>
     (\<forall>i \<in># port_pending s. \<exists>c p. ih_ctx s i = Some c \<and> ic_ptr c = UserPtr p \<and> ih_user s i = Some p)
   \<and> port_pending s + port_called s + mset (pt_swallowed s) = mset (ih_issued s)
   \<and> distinct (ih_issued s) \<and> (\<forall>i \<in> set (ih_issued s). i < ih_next s)
   \<and> (\<forall>k \<in> set (pt_calls s). \<exists>p. ih_user s (pc_ctx k) = Some p \<and> pc_ptr k = UserPtr p)
   \<and> pt_io_num s = of_nat (size (port_pending s) + pt_failed s + length (pt_swallowed s))
   \<and> (\<forall>k \<in> set (pt_queue s). pk_ctx k = None \<longrightarrow> pk_bytes k = ulong_max)"

lemma port_invD:
  assumes "port_inv s"
  shows "i \<in># port_pending s \<Longrightarrow> \<exists>c p. ih_ctx s i = Some c \<and> ic_ptr c = UserPtr p \<and> ih_user s i = Some p"
    and "port_pending s + port_called s + mset (pt_swallowed s) = mset (ih_issued s)"
    and "distinct (ih_issued s)" and "i \<in> set (ih_issued s) \<Longrightarrow> i < ih_next s"
    and "k \<in> set (pt_calls s) \<Longrightarrow> \<exists>p. ih_user s (pc_ctx k) = Some p \<and> pc_ptr k = UserPtr p"
    and "pt_io_num s = of_nat (size (port_pending s) + pt_failed s + length (pt_swallowed s))"
    and "pk \<in> set (pt_queue s) \<Longrightarrow> pk_ctx pk = None \<Longrightarrow> pk_bytes pk = ulong_max"
  using assms unfolding port_inv_def by blast+

text \<open>Each operation is in one place.\<close>

lemma port_once:
  assumes "port_inv t" and "a \<in># port_pending t"
  shows "count (port_pending t) a = 1" and "a \<in> set (ih_issued t)" and "a \<notin># port_called t" and "a \<notin> set (pt_swallowed t)"
proof -
  have sum: "count (mset (ih_issued t)) a = count (port_pending t) a + count (port_called t) a + count (mset (pt_swallowed t)) a"
    using port_invD(2) [OF assms(1)] by (metis count_union)
  moreover have "count (mset (ih_issued t)) a \<le> 1"
    using port_invD(3) [OF assms(1)] by (simp add: distinct_count_atmost_1)
  moreover have "0 < count (port_pending t) a" using assms(2) by (simp only: count_greater_zero_iff)
  ultimately have n: "count (port_pending t) a = 1" "count (port_called t) a = 0" "count (mset (pt_swallowed t)) a = 0"
    "0 < count (mset (ih_issued t)) a" by linarith+
  then show "count (port_pending t) a = 1" by simp
  show "a \<in> set (ih_issued t)" using n(4) by (simp only: count_greater_zero_iff set_mset_mset)
  show "a \<notin># port_called t" using n(2) by (simp only: not_in_iff)
  show "a \<notin> set (pt_swallowed t)" using n(3) by (simp only: not_in_iff set_mset_mset [symmetric])
qed

lemmas port_op_defs = port_write_file_def port_read_file_def port_accept_def port_connect_def port_send_def
  port_receive_def port_send_to_def port_receive_from_def port_start_def port_count_def port_ctx_def port_cb_def

text \<open>What starting an operation does: it is pending, or its callback has already run.\<close>

definition started :: "'p \<Rightarrow> 'p port \<Rightarrow> 'p port \<Rightarrow> bool" where
  "started p s t \<longleftrightarrow>
     ih_issued t = ih_issued s @ [ih_next s] \<and> ih_user t = (ih_user s)(ih_next s \<mapsto> p) \<and> ih_next s < ih_next t
   \<and> (\<forall>j. j \<noteq> ih_next s \<longrightarrow> ih_ctx t j = ih_ctx s j) \<and> pt_queue t = pt_queue s \<and> pt_io_num t = pt_io_num s + 1
   \<and> pt_swallowed t = pt_swallowed s
   \<and> ((\<exists>c op. pt_kernel t = pt_kernel s @ [\<lparr>po_op = op, po_ctx = ih_next s\<rparr>] \<and> pt_calls t = pt_calls s
          \<and> pt_failed t = pt_failed s \<and> ih_ctx t (ih_next s) = Some c \<and> ic_ptr c = UserPtr p)
    \<or> (\<exists>k. pt_kernel t = pt_kernel s \<and> pt_calls t = pt_calls s @ [k] \<and> pt_failed t = Suc (pt_failed s)
          \<and> pc_ctx k = ih_next s \<and> pc_ptr k = UserPtr p))"

lemma issue_started: "started p s (port_issue req err p s)"
proof (cases req)
  case (PAccept fd opened)
  then show ?thesis
    by (cases opened; cases err)
      (auto simp: started_def svc_accept_def new_ctx_def blank_ctx_def port_op_defs Let_def)
qed (cases err; simp add: started_def svc_defs svc_send_to_win_def svc_receive_from_win_def new_ctx_def
      blank_ctx_def io_buf_def io_buf_win_def port_op_defs Let_def)+

lemma inv_started:
  assumes inv: "port_inv s" and st: "started p s t"
  shows "port_inv t"
proof -
  let ?i = "ih_next s"
  note D = port_invD [OF inv]
  from st have eqs: "ih_issued t = ih_issued s @ [?i]" "ih_user t = (ih_user s)(?i \<mapsto> p)" "?i < ih_next t"
    "pt_queue t = pt_queue s" "pt_io_num t = pt_io_num s + 1" "pt_swallowed t = pt_swallowed s"
    and other: "\<And>j. j \<noteq> ?i \<Longrightarrow> ih_ctx t j = ih_ctx s j" by (simp_all add: started_def)
  have fresh: "?i \<notin> set (ih_issued s)" using D(4) [of ?i] by auto
  then have new: "?i \<notin># port_pending s" "?i \<notin># port_called s"
    using D(2) by (metis set_mset_mset union_iff)+
  have pend: "\<exists>c q. ih_ctx t j = Some c \<and> ic_ptr c = UserPtr q \<and> ih_user t j = Some q"
    if "j \<in># port_pending s" for j
    using D(1) [OF that] that new(1) other [of j] eqs(2) by (cases "j = ?i") auto
  have calls: "\<exists>q. ih_user t (pc_ctx k) = Some q \<and> pc_ptr k = UserPtr q" if "k \<in> set (pt_calls s)" for k
  proof -
    have "pc_ctx k \<in># port_called s" using that by (auto simp: port_called_def)
    then have "pc_ctx k \<noteq> ?i" using new(2) by auto
    then show ?thesis using D(5) [OF that] eqs(2) by simp
  qed
  have issued: "distinct (ih_issued t)" "\<forall>i \<in> set (ih_issued t). i < ih_next t"
    using D(3,4) fresh eqs(1,3) by (auto dest!: D(4))
  consider (a) c op where "pt_kernel t = pt_kernel s @ [\<lparr>po_op = op, po_ctx = ?i\<rparr>]" "pt_calls t = pt_calls s"
      "pt_failed t = pt_failed s" "ih_ctx t ?i = Some c" "ic_ptr c = UserPtr p"
    | (b) k where "pt_kernel t = pt_kernel s" "pt_calls t = pt_calls s @ [k]" "pt_failed t = Suc (pt_failed s)"
      "pc_ctx k = ?i" "pc_ptr k = UserPtr p"
    using st unfolding started_def by blast
  then show ?thesis
  proof cases
    case a
    have p: "port_pending t = add_mset ?i (port_pending s)" "port_called t = port_called s"
      using a eqs(4) by (simp_all add: port_pending_def port_called_def)
    show ?thesis
      unfolding port_inv_def
      using pend calls issued D(2,6,7) a p eqs by (auto simp: add.commute)
  next
    case b
    have p: "port_pending t = port_pending s" "port_called t = add_mset ?i (port_called s)"
      using b eqs(4) by (simp_all add: port_pending_def port_called_def)
    show ?thesis
      unfolding port_inv_def
      using pend calls issued D(2,6,7) b p eqs by (auto simp: add.commute)
  qed
qed

lemma finish_frame:
  assumes "ih_ctx s ioc = Some c"
  shows "\<exists>c'. ih_ctx (port_finish peer bytes err ioc s) = (ih_ctx s)(ioc \<mapsto> c') \<and> ic_ptr c' = ic_ptr c
      \<and> ic_op c' = ic_op c"
    and "ih_issued (port_finish peer bytes err ioc s) = ih_issued s" "ih_user (port_finish peer bytes err ioc s) = ih_user s"
    and "ih_next (port_finish peer bytes err ioc s) = ih_next s" "pt_kernel (port_finish peer bytes err ioc s) = pt_kernel s"
    and "pt_queue (port_finish peer bytes err ioc s) = pt_queue s" "pt_io_num (port_finish peer bytes err ioc s) = pt_io_num s"
    and "pt_calls (port_finish peer bytes err ioc s) = pt_calls s" "pt_failed (port_finish peer bytes err ioc s) = pt_failed s"
    and "pt_swallowed (port_finish peer bytes err ioc s) = pt_swallowed s"
  using assms fun_upd_triv [of "ih_ctx s" ioc]
  by (cases "ic_op c"; cases err; force simp: port_finish_def port_ctx_def Let_def)+

lemma inv_deliver:
  assumes inv: "port_inv s" and q: "pt_queue s = pk # pks" and u: "pk_ctx pk = Some ioc"
  defines "s1 \<equiv> s\<lparr>pt_queue := pks, pt_io_num := pt_io_num s - 1\<rparr>"
  shows "port_inv (port_cb ec ioc (port_finish peer bytes err ioc s1))"
proof -
  let ?f = "port_finish peer bytes err ioc s1" and ?t = "port_cb ec ioc (port_finish peer bytes err ioc s1)"
  note D = port_invD [OF inv]
  have pend: "port_pending s = add_mset ioc (port_pending s1)"
    using q u by (simp add: port_pending_def s1_def List.map_filter_simps)
  then obtain c p where c: "ih_ctx s ioc = Some c" "ic_ptr c = UserPtr p" "ih_user s ioc = Some p" using D(1) [of ioc] by auto
  then have "ih_ctx s1 ioc = Some c" by (simp add: s1_def)
  note F = finish_frame [OF this, of peer bytes err]
  from F(1) obtain c' where c': "ih_ctx ?f = (ih_ctx s)(ioc \<mapsto> c')" "ic_ptr c' = ic_ptr c" by (auto simp: s1_def)
  have "ioc \<in># port_pending s" using pend by simp
  from port_once(1) [OF inv this] have once: "ioc \<notin># port_pending s1" using pend by (simp add: not_in_iff)
  have p: "port_pending ?t = port_pending s1" "port_called ?t = add_mset ioc (port_called s)"
    using F by (simp_all add: port_pending_def port_called_def port_cb_def s1_def)
  have "pt_io_num s - 1 = of_nat (size (port_pending s1) + pt_failed s + length (pt_swallowed s))" using D(6) pend by simp
  then show ?thesis
    unfolding port_inv_def p
    using D(2-5,7) pend once c c' F q D(1)
    by (auto simp: port_cb_def s1_def port_ctx_def)
qed

lemma inv_round:
  assumes inv: "port_inv s"
  shows "port_inv (snd (port_take peer ec s))"
proof (cases "pt_queue s")
  case Nil
  then show ?thesis using inv by (simp add: port_take_def)
next
  case (Cons pk pks)
  show ?thesis
  proof (cases "pk_bytes pk = ulong_max")
    case True
    with Cons inv show ?thesis
      by (cases "pk_ctx pk")
        (auto simp: port_take_def port_inv_def port_pending_def port_called_def List.map_filter_simps)
  next
    case False
    then obtain ioc where ioc: "pk_ctx pk = Some ioc" using Cons port_invD(7) [OF inv, of pk] by auto
    with Cons False inv_deliver [OF inv Cons ioc] show ?thesis by (simp add: port_take_def Let_def)
  qed
qed

lemma port_inv_new: "port_inv port_new"
  by (simp add: port_inv_def port_new_def port_pending_def port_called_def List.map_filter_simps)

lemma port_inv_init: "port_init ec a c g h = Inr s \<Longrightarrow> port_inv s"
  using port_inv_new by (auto simp: port_init_def split: if_splits)

interpretation pt: transition_system "\<lambda>s. port_init ec a c g h = Inr s" "port_step peer" port_inv for ec a c g h peer
proof
  fix s t :: "'p port"
  show "port_init ec a c g h = Inr s \<Longrightarrow> port_inv s" by (rule port_inv_init)
  assume inv: "port_inv s" and "port_step peer s t"
  from this(2) show "port_inv t"
  proof cases
    case (issue req err p)
    then show ?thesis using inv_started [OF inv issue_started] by simp
  next
    case wake
    then show ?thesis using inv
      by (auto simp: port_wake_up_def port_inv_def port_pending_def port_called_def List.map_filter_simps)
  next
    case (complete xs r ys bytes err)
    then have "port_pending t = port_pending s" "port_called t = port_called s"
      by (simp_all add: port_pending_def port_called_def List.map_filter_simps)
    with complete inv show ?thesis by (auto simp: port_inv_def)
  next
    case (deliver ec)
    then show ?thesis using inv_round [OF inv] by simp
  qed
qed

text \<open>Like the other service's, the destructor leaves the contexts of the pending operations behind.\<close>

lemma port_dtor_leaks_pending:
  assumes "port_init ec a c g h = Inr s0" and "(port_step peer)\<^sup>*\<^sup>* s0 s" and "i \<in># port_pending s"
  shows "i \<in> dom (ih_ctx (port_dtor s)) \<and> pt_queue (port_dtor s) = []"
  using port_invD(1) [OF pt.reachable_inv [OF assms(1,2)] assms(3)] by (auto simp: port_dtor_def)

subsection \<open>A whole poll\<close>

text \<open>The context that a packet is delivered to: none when it is taken for a wake-up.\<close>

definition pk_callee :: "port_packet \<Rightarrow> nat option" where
  "pk_callee pk = (if pk_bytes pk = ulong_max then None else pk_ctx pk)"

lemma round_delivers:
  assumes inv: "port_inv s" and q: "pt_queue s = pk # pks"
  shows "fst (port_take peer ec s) = RoundContinue" and "pt_queue (snd (port_take peer ec s)) = pks"
    and "map pc_ctx (pt_calls (snd (port_take peer ec s)))
       = map pc_ctx (pt_calls s) @ List.map_filter pk_callee [pk]"
    and "pt_kernel (snd (port_take peer ec s)) = pt_kernel s"
proof -
  have "fst (port_take peer ec s) = RoundContinue \<and> pt_queue (snd (port_take peer ec s)) = pks
    \<and> map pc_ctx (pt_calls (snd (port_take peer ec s))) = map pc_ctx (pt_calls s) @ List.map_filter pk_callee [pk]
    \<and> pt_kernel (snd (port_take peer ec s)) = pt_kernel s"
  proof (cases "pk_bytes pk = ulong_max")
    case True
    with q show ?thesis by (simp add: port_take_def pk_callee_def List.map_filter_simps)
  next
    case False
    then obtain ioc where ioc: "pk_ctx pk = Some ioc" using q port_invD(7) [OF inv, of pk] by auto
    have "ioc \<in># port_pending s" using q ioc by (simp add: port_pending_def List.map_filter_simps)
    then obtain c where "ih_ctx s ioc = Some c" using port_invD(1) [OF inv] by blast
    then have "ih_ctx (s\<lparr>pt_queue := pks, pt_io_num := pt_io_num s - 1\<rparr>) ioc = Some c" by simp
    from finish_frame [OF this] q ioc False show ?thesis
      by (simp add: port_take_def Let_def port_cb_def pk_callee_def List.map_filter_simps)
  qed
  then show "fst (port_take peer ec s) = RoundContinue" "pt_queue (snd (port_take peer ec s)) = pks"
    "map pc_ctx (pt_calls (snd (port_take peer ec s))) = map pc_ctx (pt_calls s) @ List.map_filter pk_callee [pk]"
    "pt_kernel (snd (port_take peer ec s)) = pt_kernel s" by blast+
qed

lemma loop_delivers:
  assumes "port_inv s"
  shows "\<exists>t. port_loop i peer ec s = ((if length (pt_queue s) < i then 0 else 1, ec), t) \<and> port_inv t
     \<and> pt_queue t = drop i (pt_queue s) \<and> pt_kernel t = pt_kernel s
     \<and> map pc_ctx (pt_calls t) = map pc_ctx (pt_calls s) @ List.map_filter pk_callee (take i (pt_queue s))"
  using assms
proof (induction i arbitrary: s)
  case 0
  then show ?case by (simp add: List.map_filter_simps)
next
  case (Suc i)
  show ?case
  proof (cases "pt_queue s")
    case Nil
    with Suc.prems show ?thesis by (simp add: port_take_def List.map_filter_simps)
  next
    case (Cons pk pks)
    note R = round_delivers [OF Suc.prems Cons, of peer ec]
    obtain u where u: "port_take peer ec s = (RoundContinue, u)" using R(1) by (cases "port_take peer ec s") auto
    from Suc.IH [OF inv_round [OF Suc.prems, of peer ec]] u R Cons show ?thesis
      by (auto simp: List.map_filter_simps split: option.splits)
  qed
qed

subsection \<open>Properties\<close>

text \<open>
  On Windows, too, no completion is doubled, and none gets a wrong pointer. Every operation that was issued is
  pending in exactly one place (taken by Windows or in the port's queue), or its callback has run, once, with the
  user's own pointer, or it has transferred \<^verbatim>\<open>ULONG_MAX\<close> bytes and was taken for a wake-up; \<^verbatim>\<open>io_num\<close> is the
  number of the pending ones plus that of all operations that ever failed when they were started or were
  swallowed, so that it never comes back to zero after one of these.
\<close>

theorem port_completes_each_operation_once:
  assumes "port_init socket_ec a c g h = Inr s0" and "(port_step peer)\<^sup>*\<^sup>* s0 s"
  shows "count (port_pending s) i + count (port_called s) i + count (mset (pt_swallowed s)) i = (if i \<in> set (ih_issued s) then 1 else 0)
    \<and> (\<forall>k \<in> set (pt_calls s). ih_user s (pc_ctx k) \<noteq> None \<and> pc_ptr k = UserPtr (the (ih_user s (pc_ctx k))))
    \<and> pt_io_num s = of_nat (size (port_pending s) + pt_failed s + length (pt_swallowed s))"
proof -
  note D = port_invD [OF pt.reachable_inv [OF assms]]
  have "count (port_pending s) i + count (port_called s) i + count (mset (pt_swallowed s)) i = count (mset (ih_issued s)) i"
    using D(2) by (metis count_union)
  also have "\<dots> = (if i \<in> set (ih_issued s) then 1 else 0)" using D(3) by (metis count_mset distinct_count_atmost_1)
  finally show ?thesis using D(5,6) by fastforce
qed

lemma port_init_new: "port_init no_error 0 0 0 True = Inr port_new"
  by (simp add: port_init_def)

definition failed_port :: "string port" where
  "failed_port = port_issue (PReadFile 4 100 8 0) (Some 5) ''coroutine'' port_new"

theorem port_completes_each_operation_once_witness:
  "map pc_ptr (pt_calls failed_port) = [UserPtr ''coroutine''] \<and> port_pending failed_port = {#}
   \<and> pt_io_num failed_port = 1 \<and> count (port_called failed_port) 0 = 1"
proof -
  have st: "(port_step (\<lambda>_. []))\<^sup>*\<^sup>* port_new failed_port"
    unfolding failed_port_def by (rule r_into_rtranclp) (rule port_step.issue)
  have "ih_issued failed_port = [0]" "pt_calls failed_port \<noteq> []" "port_pending failed_port = {#}"
    "map pc_ptr (pt_calls failed_port) = [UserPtr ''coroutine'']" "pt_failed failed_port = 1" "pt_swallowed failed_port = []"
    by (simp_all add: failed_port_def port_new_def svc_read_file_def new_ctx_def io_buf_def blank_ctx_def
        port_op_defs port_pending_def List.map_filter_simps)
  with port_completes_each_operation_once [OF port_init_new st, of 0] show ?thesis by simp
qed

text \<open>
  A poll takes what the port has. In a reachable state one call of \<^verbatim>\<open>poll\<close> that does
  not return at once runs the callbacks of those of the first 1024 packets that are not taken for a wake-up, in
  the order of the queue, leaves
  the rest, and reports a timeout exactly when it emptied the queue before it ran out of rounds.
\<close>

theorem port_poll_delivers_the_queue:
  assumes "port_init socket_ec a c g h = Inr s0" and "(port_step peer)\<^sup>*\<^sup>* s0 s" and "nanosec \<noteq> 0 \<or> pt_io_num s \<noteq> 0"
  shows "\<exists>t. port_poll peer nanosec ec s = ((if length (pt_queue s) < 1024 then 0 else 1, ec), t)
    \<and> pt_queue t = drop 1024 (pt_queue s) \<and> pt_kernel t = pt_kernel s
    \<and> map pc_ctx (pt_calls t) = map pc_ctx (pt_calls s) @ List.map_filter pk_callee (take 1024 (pt_queue s))"
  using loop_delivers [OF pt.reachable_inv [OF assms(1,2)], of 1024 peer ec] assms(3)
  by (auto simp: port_poll_def)

theorem port_poll_delivers_the_queue_witness:
  "\<exists>t. port_poll (\<lambda>_. []) 5 no_error (port_wake_up failed_port) = ((0, no_error), t) \<and> pt_queue t = []"
proof -
  have st: "(port_step (\<lambda>_. []))\<^sup>*\<^sup>* port_new (port_wake_up failed_port)"
    unfolding failed_port_def
    by (rule rtranclp.rtrancl_into_rtrancl [OF r_into_rtranclp]) (rule port_step.issue, rule port_step.wake)
  have "length (pt_queue (port_wake_up failed_port)) = 1"
    by (simp add: failed_port_def port_wake_up_def port_new_def svc_read_file_def new_ctx_def io_buf_def blank_ctx_def
        port_op_defs)
  with port_poll_delivers_the_queue [OF port_init_new st, of 5 no_error] show ?thesis by auto
qed

end
