(* ===== verification/Service_Backends.thy ===== *)
theory Service_Backends
  imports Io_Uring Iocp
begin

section \<open>The two services compared (net/io_uring.cpp, net/iocp.cpp)\<close>

text \<open>
  \<^verbatim>\<open>IoServiceInterface\<close> has one implementation for Linux and one for Windows. The classes
  above them are written once, so the two should tell a caller the same thing. This theory says
  where they do.
\<close>

subsection \<open>What a callback is told\<close>

definition ring_view :: "'p io_call \<Rightarrow> error_code \<times> operation \<times> 'p io_ptr \<times> 64 word" where
  "ring_view k = (ca_ec k, ca_op k, ca_ptr k, ca_res k)"

definition port_view :: "'p port_call \<Rightarrow> error_code \<times> operation \<times> 'p io_ptr \<times> 64 word" where
  "port_view k = (pc_ec k, pc_op k, pc_ptr k, pc_res k)"

definition transfers :: "operation \<Rightarrow> bool" where
  "transfers op \<longleftrightarrow> op \<notin> {OpNoop, OpAccept, OpConnect}"

text \<open>A context of the same operation and the same user in both services.\<close>

definition same_operation :: "operation \<Rightarrow> 'p \<Rightarrow> nat \<Rightarrow> 'p ring \<Rightarrow> nat \<Rightarrow> 'p port \<Rightarrow> bool" where
  "same_operation op p i r j s \<longleftrightarrow>
     (\<exists>c d. ih_ctx r i = Some c \<and> ic_op c = op \<and> ic_cb c = UserCb
        \<and> (if is_msg_op op then \<exists>m rwm. ic_ptr c = MsgPtr m \<and> ih_msg r m = Some rwm \<and> rm_ptr rwm = p
           else ic_ptr c = UserPtr p)
        \<and> ih_ctx s j = Some d \<and> ic_op d = op \<and> ic_ptr d = UserPtr p)"

text \<open>The outcome of an operation: bytes or an error number, in the form each system gives it.\<close>

definition ring_completion :: "nat \<Rightarrow> int + nat \<Rightarrow> cqe" where
  "ring_completion i out = \<lparr>cq_data = i, cq_res = (case out of Inl e \<Rightarrow> - e | Inr n \<Rightarrow> int n)\<rparr>"

definition port_completion :: "nat \<Rightarrow> int + nat \<Rightarrow> port_packet" where
  "port_completion j out = (case out of
     Inl e \<Rightarrow> \<lparr>pk_bytes = 0, pk_ctx = Some j, pk_err = Some e\<rparr>
   | Inr n \<Rightarrow> \<lparr>pk_bytes = of_nat n, pk_ctx = Some j, pk_err = None\<rparr>)"

lemma ring_success:
  assumes "ih_ctx r i = Some c" "ic_op c = op" "ic_cb c = UserCb" "transfers op"
    "if is_msg_op op then \<exists>m rwm. ic_ptr c = MsgPtr m \<and> ih_msg r m = Some rwm \<and> rm_ptr rwm = p
     else ic_ptr c = UserPtr p"
  shows "\<exists>r'. handle_cqe peername \<lparr>cq_data = i, cq_res = int n\<rparr> r = Some r'
    \<and> ring_view (last (rg_calls r')) = (no_error, op, UserPtr p, word_of_int (int n))"
  using assms
  by (cases op) (auto simp: handle_cqe_def uncount_io_def finish_ctx_def invoke_cb_def the_ctx_def the_msg_def
      ring_view_def transfers_def is_msg_op_def Let_def)

lemma ring_failure:
  assumes "ih_ctx r i = Some c" "ic_op c = op" "ic_cb c = UserCb" "0 < e"
  shows "\<exists>r'. handle_cqe peername \<lparr>cq_data = i, cq_res = - e\<rparr> r = Some r'
    \<and> ring_view (last (rg_calls r')) = (make_system_error_code e, op, ic_ptr c, 0)"
  using assms
  by (auto simp: handle_cqe_def uncount_io_def finish_ctx_def invoke_cb_def the_ctx_def ring_view_def Let_def)

lemma port_outcome:
  assumes "ih_ctx s j = Some d" "ic_op d = op" "ic_ptr d = UserPtr p" "transfers op" "bytes \<noteq> ulong_max"
  shows "port_view (last (pt_calls (snd (port_take peer ec
      (s\<lparr>pt_queue := \<lparr>pk_bytes = bytes, pk_ctx = Some j, pk_err = err\<rparr> # pks\<rparr>)))))
    = (port_error err, op, UserPtr p, ucast bytes)"
  using assms
  by (cases op) (simp_all add: port_take_def port_finish_def port_cb_def port_ctx_def port_view_def transfers_def Let_def)

subsection \<open>Properties\<close>

text \<open>
  The two services complete an operation alike, with one exception. For every operation
  that transfers bytes, of fewer than 2 GiB, the callback is told the same error, operation, pointer and
  result by both, unless it is a \<^verbatim>\<open>send_to\<close> or \<^verbatim>\<open>receive_from\<close> that failed: there the one on
  Linux is given a pointer that is not the user's.
\<close>

theorem backends_complete_alike:
  assumes "same_operation op p i r j s" and "transfers op"
    and "case out of Inl e \<Rightarrow> 0 < e | Inr n \<Rightarrow> n < 2 ^ 31"
  shows "\<exists>r'. handle_cqe peername (ring_completion i out) r = Some r'
    \<and> (ring_view (last (rg_calls r'))
         = port_view (last (pt_calls (snd (port_take peer ec (s\<lparr>pt_queue := [port_completion j out]\<rparr>)))))
       \<longleftrightarrow> \<not> (is_msg_op op \<and> isl out))"
proof -
  obtain c d where c: "ih_ctx r i = Some c" "ic_op c = op" "ic_cb c = UserCb"
    and ptr: "if is_msg_op op then \<exists>m rwm. ic_ptr c = MsgPtr m \<and> ih_msg r m = Some rwm \<and> rm_ptr rwm = p
      else ic_ptr c = UserPtr p"
    and d: "ih_ctx s j = Some d" "ic_op d = op" "ic_ptr d = UserPtr p"
    using assms(1) unfolding same_operation_def by blast
  show ?thesis
  proof (cases out)
    case (Inr n)
    then have n: "n < 2 ^ 31" using assms(3) by simp
    then have un: "unat (of_nat n :: dword) = n" by (simp add: unat_of_nat)
    have "unat ulong_max = 2 ^ 32 - 1" 
      by (simp add: ulong_max_def unsigned_minus_1_eq_mask mask_eq_exp_minus_1)
    with un n have nm: "(of_nat n :: dword) \<noteq> ulong_max" by auto
    have "ucast (of_nat n :: dword) = (of_nat (unat (of_nat n :: dword)) :: 64 word)" by (simp only: of_nat_unat)
    then have "ucast (of_nat n :: dword) = (word_of_int (int n) :: 64 word)" by (simp add: un)
    with port_outcome [OF d assms(2) nm, of peer ec None "[]"] ring_success [OF c assms(2) ptr, of peername n] Inr
    show ?thesis by (auto simp: ring_completion_def port_completion_def port_error_def)
  next
    case (Inl e)
    then have e: "0 < e" using assms(3) by simp
    have "(0 :: dword) \<noteq> ulong_max" by (simp add: ulong_max_def)
    from port_outcome [OF d assms(2) this, of peer ec "Some e" "[]"] ring_failure [OF c e, of peername] Inl ptr
    show ?thesis by (auto simp: ring_completion_def port_completion_def port_error_def split: if_splits)
  qed
qed

theorem backends_complete_alike_witness:
  "\<exists>r'. handle_cqe (\<lambda>_. []) (ring_completion 5 (Inr 8))
       (demo_ring\<lparr>ih_ctx := [5 \<mapsto> blank_ctx OpReadFile (UserPtr ''c'') UserCb]\<rparr>) = Some r'
    \<and> ring_view (last (rg_calls r')) = port_view (last (pt_calls (snd (port_take (\<lambda>_. []) no_error
        (port_new\<lparr>ih_ctx := [7 \<mapsto> blank_ctx OpReadFile (UserPtr ''c'') UserCb], pt_queue := [port_completion 7 (Inr 8)]\<rparr>)))))"
proof -
  have "same_operation OpReadFile ''c'' 5 (demo_ring\<lparr>ih_ctx := [5 \<mapsto> blank_ctx OpReadFile (UserPtr ''c'') UserCb]\<rparr>)
      7 (port_new\<lparr>ih_ctx := [7 \<mapsto> blank_ctx OpReadFile (UserPtr ''c'') UserCb]\<rparr>)"
    by (simp add: same_operation_def blank_ctx_def is_msg_op_def)
  from backends_complete_alike [OF this, of "Inr 8" "\<lambda>_. []" "\<lambda>_. []" no_error] show ?thesis
    by (simp add: transfers_def is_msg_op_def)
qed

text \<open>
  The two services do not address the same bytes of a file. The offset a read or write
  is issued with on Linux is the one that was asked for; on Windows the upper half of the offset is
  lost, and the operation goes to the offset modulo 4 GiB, the same place exactly below 4 GiB.
\<close>

theorem backends_file_offsets:
  assumes "ring_read_file fd off i r = Some r'"
  shows "\<exists>buf len ov buf' len'. last (rg_sq r') = \<lparr>sq_prep = PrepRead fd buf len off, sq_data = i\<rparr>
    \<and> last (pt_kernel (port_read_file fd off None j s)) = \<lparr>po_op = PortRead fd buf' len' ov, po_ctx = j\<rparr>
    \<and> file_position ov = off mod 2 ^ 32 \<and> (file_position ov = off \<longleftrightarrow> off < 2 ^ 32)"
proof -
  have "off mod 2 ^ 32 = off \<longleftrightarrow> off < 2 ^ 32"
    by (metis mod_less mod_less_divisor zero_less_numeral zero_less_power)
  with assms show ?thesis
    by (auto simp: ring_read_file_def put_sqe_def port_read_file_def port_start_def file_position_def
        zero_overlapped_def unat_of_nat count_io_def split: if_splits)
qed

theorem backends_file_offsets_witness:
  "\<exists>r' buf len ov. ring_read_file 3 4294967300 (Suc 0) demo_ring = Some r'
    \<and> last (pt_kernel (port_read_file 3 4294967300 None 0 (port_new :: string port)))
        = \<lparr>po_op = PortRead 3 buf len ov, po_ctx = 0\<rparr>
    \<and> file_position ov = 4"
proof -
  obtain r' where r: "ring_read_file 3 4294967300 (Suc 0) demo_ring = Some r'"
    by (simp add: ring_read_file_def put_sqe_def count_io_def demo_ring_def)
  from backends_file_offsets [OF r, of 0 port_new] r show ?thesis by fastforce
qed

end
