(* ===== verification/Coro_Frames.thy ===== *)
theory Coro_Frames
  imports Magio_Prelude
begin

section \<open>Coroutine frames (core/coro.h, core/coro_context.h)\<close>

text \<open>
  A \<^verbatim>\<open>Coro\<close> owns its frame until it is launched; from then on the frame owns itself: it is
  queued in the context, runs, and destroys itself in \<^verbatim>\<open>FinalSuspend\<close> after it has resumed its
  awaiter or called its completion handler. This theory models one context's thread: the frames on
  a heap (a list, destroyed frames \<open>None\<close>), the context's queue, and the call stack that the nested
  resumptions build.

  The bodies are the user's code, an argument: from its local state and what it was resumed with, a
  body goes on to its next action. A coroutine can \<^verbatim>\<open>co_await\<close> a call (the \<^verbatim>\<open>Coro\<close> is a
  temporary of the expression), spawn one, yield, or give its handle away with
  \<^verbatim>\<open>GetCoroutineHandle\<close>; it can also keep \<^verbatim>\<open>Coro\<close> objects of its own, as \<^verbatim>\<open>join\<close> and
  \<^verbatim>\<open>series\<close> keep their arguments, and await them or move them into \<^verbatim>\<open>spawn\<close>. These objects live as
  long as the frame.
\<close>

datatype ('v, 'e, 's, 'h) co_act =
  CoAwait 's 's | CoSpawn 's "'h option" 's | CoYield 's | CoSuspend 's | CoReturn 'v | CoThrow 'e
| CoCreate 's 's | CoAwaitOwn nat 's | CoSpawnOwn nat "'h option" 's

type_synonym ('v, 'e, 's, 'h) co_prog = "'s \<Rightarrow> 'v option \<Rightarrow> ('v, 'e, 's, 'h) co_act"

text \<open>\<^verbatim>\<open>promise_type::storage\<close>.\<close>

datatype ('v, 'e) storage = Monostate | Value 'v | Exn 'e

text \<open>
  The promise and the rest of the frame: the local state, the \<^verbatim>\<open>Awaitable\<close> it is suspended in
  (the awaited coroutine, and whether its \<^verbatim>\<open>Coro\<close> is a temporary of the expression), the
  \<^verbatim>\<open>Coro\<close> objects it owns, and the mark of the final suspension.
\<close>

record ('v, 'e, 's, 'h) co_frame =
  cf_launched :: bool
  cf_prev :: "nat option"
  cf_storage :: "('v, 'e) storage"
  cf_callback :: "'h option"
  cf_state :: 's
  cf_wait :: "(nat \<times> bool) option"
  cf_own :: "nat option list"
  cf_final :: bool

datatype co_cont = KRun nat | KDestroy nat

text \<open>
  \<open>cm_held\<close> are the handles that somebody will resume later; \<open>cm_done\<close> are the calls of completion
  handlers; \<open>cm_num\<close> is \<^verbatim>\<open>detail::CoroNum\<close>.
\<close>

record ('v, 'e, 's, 'h) co_machine =
  cm_frames :: "('v, 'e, 's, 'h) co_frame option list"
  cm_pending :: "nat list"
  cm_held :: "nat list"
  cm_stack :: "co_cont list"
  cm_num :: size_t
  cm_done :: "('h \<times> ('v, 'e) storage) list"

text \<open>
  What goes wrong: a destroyed frame is used, the process is ended, or a \<^verbatim>\<open>Coro\<close> that was moved from
  is launched.
\<close>

datatype co_fault = UseAfterFree | Terminate | NullHandle

definition coro_at :: "('v, 'e, 's, 'h) co_machine \<Rightarrow> nat \<Rightarrow> ('v, 'e, 's, 'h) co_frame option" where
  "coro_at m h = (if h < length (cm_frames m) then cm_frames m ! h else None)"

definition set_frame ::
  "nat \<Rightarrow> ('v, 'e, 's, 'h) co_frame option \<Rightarrow> ('v, 'e, 's, 'h) co_machine \<Rightarrow> ('v, 'e, 's, 'h) co_machine" where
  "set_frame h p m = m\<lparr>cm_frames := (cm_frames m)[h := p]\<rparr>"

text \<open>A call: \<^verbatim>\<open>get_return_object\<close> and \<^verbatim>\<open>initial_suspend\<close>.\<close>

definition co_call :: "'s \<Rightarrow> ('v, 'e, 's, 'h) co_machine \<Rightarrow> nat \<times> ('v, 'e, 's, 'h) co_machine" where
  "co_call s m =
     (length (cm_frames m),
      m\<lparr>cm_frames := cm_frames m @ [Some \<lparr>cf_launched = False, cf_prev = None, cf_storage = Monostate,
            cf_callback = None, cf_state = s, cf_wait = None, cf_own = [], cf_final = False\<rparr>],
        cm_num := cm_num m + 1\<rparr>)"

lemma length_filter_kill:
  assumes "c < length w" and "w ! c \<noteq> None"
  shows "length (filter (\<lambda>x. x \<noteq> None) (w[c := None])) < length (filter (\<lambda>x. x \<noteq> None) w)"
  using length_filter_update [of c w "\<lambda>x. x \<noteq> None" None] assms by simp

text \<open>
  \<^verbatim>\<open>Coro::~Coro\<close> of some objects in turn; destroying a frame destroys the objects it owns. Reading the
  promise of a destroyed frame is a use after free.
\<close>

function coro_dtors ::
  "nat option list \<Rightarrow> ('v, 'e, 's, 'h) co_machine \<Rightarrow> co_fault + ('v, 'e, 's, 'h) co_machine" where
  "coro_dtors [] m = Inr m"
| "coro_dtors (None # cs) m = coro_dtors cs m"
| "coro_dtors (Some c # cs) m =
     (case coro_at m c of
        None \<Rightarrow> Inl UseAfterFree
      | Some p \<Rightarrow> if cf_launched p then coro_dtors cs m
                  else coro_dtors (cf_own p @ cs) (set_frame c None (m\<lparr>cm_num := cm_num m - 1\<rparr>)))"
  by pat_completeness auto

termination
proof (relation "measures [\<lambda>(cs, m). length (filter (\<lambda>x. x \<noteq> None) (cm_frames m)), \<lambda>(cs, m). length cs]")
  fix c cs p and m :: "('v, 'e, 's, 'h) co_machine"
  assume "coro_at m c = Some p"
  then have "c < length (cm_frames m)" "cm_frames m ! c \<noteq> None" by (auto simp: coro_at_def split: if_splits)
  from length_filter_kill [OF this]
  show "((cf_own p @ cs, set_frame c None (m\<lparr>cm_num := cm_num m - 1\<rparr>)), Some c # cs, m)
      \<in> measures [\<lambda>(cs, m). length (filter (\<lambda>x. x \<noteq> None) (cm_frames m)), \<lambda>(cs, m). length cs]"
    by (simp add: set_frame_def)
qed simp_all

subsection \<open>Suspension and resumption\<close>

text \<open>
  \<^verbatim>\<open>Awaitable::await_suspend\<close>: launch, remember the awaiter, queue. \<^verbatim>\<open>CoroContext::spawn\<close>: launch,
  set the handler, queue; its parameter's destructor then reads the promise again.
\<close>

definition co_queue :: "nat \<Rightarrow> ('v, 'e, 's, 'h) co_machine \<Rightarrow> ('v, 'e, 's, 'h) co_machine" where
  "co_queue h m = m\<lparr>cm_pending := cm_pending m @ [h]\<rparr>"

definition await_suspend ::
  "nat \<Rightarrow> nat \<Rightarrow> ('v, 'e, 's, 'h) co_machine \<Rightarrow> co_fault + ('v, 'e, 's, 'h) co_machine" where
  "await_suspend c prev_h m =
     (case coro_at m c of
        None \<Rightarrow> Inl UseAfterFree
      | Some p \<Rightarrow> Inr (co_queue c (set_frame c (Some (p\<lparr>cf_launched := True, cf_prev := Some prev_h\<rparr>)) m)))"

definition ctx_spawn ::
  "nat \<Rightarrow> 'h option \<Rightarrow> ('v, 'e, 's, 'h) co_machine \<Rightarrow> co_fault + ('v, 'e, 's, 'h) co_machine" where
  "ctx_spawn c handler m =
     (case coro_at m c of
        None \<Rightarrow> Inl UseAfterFree
      | Some p \<Rightarrow> coro_dtors [Some c]
          (co_queue c (set_frame c (Some (p\<lparr>cf_launched := True,
              cf_callback := (if handler = None then cf_callback p else handler)\<rparr>)) m)))"

text \<open>
  \<^verbatim>\<open>Awaitable::await_resume\<close> is \<^verbatim>\<open>noexcept\<close>, so that rethrowing, or \<^verbatim>\<open>std::get\<close> without a value,
  ends the process. (In a \<^verbatim>\<open>Coro<void>\<close> a normal end is \<open>Value ()\<close>.) It reads the
  awaited coroutine's promise; the temporary \<^verbatim>\<open>Coro\<close> is destroyed at the end of the expression.
\<close>

definition co_await_resume ::
  "('v, 'e, 's, 'h) co_frame \<Rightarrow> ('v, 'e, 's, 'h) co_machine \<Rightarrow> co_fault + 'v option \<times> ('v, 'e, 's, 'h) co_machine" where
  "co_await_resume p m =
     (case cf_wait p of
        None \<Rightarrow> Inr (None, m)
      | Some (c, temporary) \<Rightarrow>
          (case coro_at m c of
             None \<Rightarrow> Inl UseAfterFree
           | Some q \<Rightarrow>
               (case cf_storage q of
                  Exn e \<Rightarrow> Inl Terminate
                | Monostate \<Rightarrow> Inl Terminate
                | Value v \<Rightarrow> map_sum id (Pair (Some v)) (coro_dtors (if temporary then [Some c] else []) m))))"

text \<open>\<^verbatim>\<open>FinalSuspend::await_suspend\<close>: the awaiter is resumed, or the handler called, before the frame goes.\<close>

definition co_final ::
  "nat \<Rightarrow> ('v, 'e, 's, 'h) co_frame \<Rightarrow> ('v, 'e) storage \<Rightarrow> co_cont list \<Rightarrow> ('v, 'e, 's, 'h) co_machine
     \<Rightarrow> ('v, 'e, 's, 'h) co_machine" where
  "co_final h p r ks m =
     (let m = set_frame h (Some (p\<lparr>cf_storage := r, cf_final := True\<rparr>)) m
      in case cf_prev p of
           Some prev \<Rightarrow> m\<lparr>cm_stack := KRun prev # KDestroy h # ks\<rparr>
         | None \<Rightarrow> (case cf_callback p of
               Some cb \<Rightarrow> m\<lparr>cm_done := cm_done m @ [(cb, r)], cm_stack := KDestroy h # ks\<rparr>
             | None \<Rightarrow> m\<lparr>cm_stack := KDestroy h # ks\<rparr>))"

definition co_destroy ::
  "nat \<Rightarrow> co_cont list \<Rightarrow> ('v, 'e, 's, 'h) co_machine \<Rightarrow> co_fault + ('v, 'e, 's, 'h) co_machine" where
  "co_destroy h ks m =
     (case coro_at m h of
        None \<Rightarrow> Inl UseAfterFree
      | Some p \<Rightarrow> coro_dtors (cf_own p) (set_frame h None (m\<lparr>cm_num := cm_num m - 1, cm_stack := ks\<rparr>)))"

text \<open>The action of the running coroutine \<open>h\<close>, whose frame is \<open>p\<close>, below it the stack \<open>ks\<close>.\<close>

definition own_coro :: "nat \<Rightarrow> ('v, 'e, 's, 'h) co_frame \<Rightarrow> nat option" where
  "own_coro k p = (if k < length (cf_own p) then cf_own p ! k else None)"

fun co_act_step ::
  "nat \<Rightarrow> ('v, 'e, 's, 'h) co_frame \<Rightarrow> co_cont list \<Rightarrow> ('v, 'e, 's, 'h) co_act \<Rightarrow> ('v, 'e, 's, 'h) co_machine
     \<Rightarrow> co_fault + ('v, 'e, 's, 'h) co_machine" where
  "co_act_step h p ks (CoAwait s' s) m =
     (let (c, m) = co_call s' m
      in await_suspend c h (set_frame h (Some (p\<lparr>cf_state := s, cf_wait := Some (c, True)\<rparr>)) (m\<lparr>cm_stack := ks\<rparr>)))"
| "co_act_step h p ks (CoSpawn s' handler s) m =
     (let (c, m) = co_call s' m
      in ctx_spawn c handler (set_frame h (Some (p\<lparr>cf_state := s, cf_wait := None\<rparr>)) (m\<lparr>cm_stack := KRun h # ks\<rparr>)))"
| "co_act_step h p ks (CoYield s) m =
     Inr (co_queue h (set_frame h (Some (p\<lparr>cf_state := s, cf_wait := None\<rparr>)) (m\<lparr>cm_stack := ks\<rparr>)))"
| "co_act_step h p ks (CoSuspend s) m =
     Inr (set_frame h (Some (p\<lparr>cf_state := s, cf_wait := None\<rparr>)) (m\<lparr>cm_stack := ks, cm_held := cm_held m @ [h]\<rparr>))"
| "co_act_step h p ks (CoReturn v) m = Inr (co_final h p (Value v) ks m)"
| "co_act_step h p ks (CoThrow e) m = Inr (co_final h p (Exn e) ks m)"
| "co_act_step h p ks (CoCreate s' s) m =
     (let (c, m) = co_call s' m
      in Inr (set_frame h (Some (p\<lparr>cf_state := s, cf_wait := None, cf_own := cf_own p @ [Some c]\<rparr>))
           (m\<lparr>cm_stack := KRun h # ks\<rparr>)))"
| "co_act_step h p ks (CoAwaitOwn k s) m =
     (case own_coro k p of
        None \<Rightarrow> Inl NullHandle
      | Some c \<Rightarrow> await_suspend c h (set_frame h (Some (p\<lparr>cf_state := s, cf_wait := Some (c, False)\<rparr>)) (m\<lparr>cm_stack := ks\<rparr>)))"
| "co_act_step h p ks (CoSpawnOwn k handler s) m =
     (case own_coro k p of
        None \<Rightarrow> Inl NullHandle
      | Some c \<Rightarrow> ctx_spawn c handler (set_frame h (Some (p\<lparr>cf_state := s, cf_wait := None, cf_own := (cf_own p)[k := None]\<rparr>))
           (m\<lparr>cm_stack := KRun h # ks\<rparr>)))"

definition co_step ::
  "('v, 'e, 's, 'h) co_prog \<Rightarrow> ('v, 'e, 's, 'h) co_machine \<Rightarrow> co_fault + ('v, 'e, 's, 'h) co_machine" where
  "co_step prog m =
     (case cm_stack m of
        [] \<Rightarrow> (case cm_pending m of
                 [] \<Rightarrow> Inr m
               | h # hs \<Rightarrow> Inr (m\<lparr>cm_pending := hs, cm_stack := [KRun h]\<rparr>))
      | KDestroy h # ks \<Rightarrow> co_destroy h ks m
      | KRun h # ks \<Rightarrow>
          (case coro_at m h of
             None \<Rightarrow> Inl UseAfterFree
           | Some p \<Rightarrow>
               if cf_final p then Inl UseAfterFree
               else (case co_await_resume p m of
                       Inl f \<Rightarrow> Inl f
                     | Inr (x, m) \<Rightarrow> co_act_step h p ks (prog (cf_state p) x) m)))"

text \<open>
  What happens: the thread's own steps; somebody resumes a handle it was given, through the context's
  queue, or on the spot from a task or from a completion handler (between the end of a coroutine and the
  destruction of its frame); a coroutine is spawned from outside, from \<^verbatim>\<open>main\<close> or a callback.
\<close>

inductive co_any :: "('v, 'e, 's, 'h) co_prog \<Rightarrow> ('v, 'e, 's, 'h) co_machine \<Rightarrow> ('v, 'e, 's, 'h) co_machine \<Rightarrow> bool"
  for prog where
  own: "co_step prog m = Inr m' \<Longrightarrow> co_any prog m m'"
| release: "h \<in> set (cm_held m) \<Longrightarrow> co_any prog m (co_queue h (m\<lparr>cm_held := remove1 h (cm_held m)\<rparr>))"
| resume: "h \<in> set (cm_held m) \<Longrightarrow> cm_stack m = map KDestroy ds \<Longrightarrow>
    co_any prog m (m\<lparr>cm_held := remove1 h (cm_held m), cm_stack := KRun h # cm_stack m\<rparr>)"
| spawn: "ctx_spawn (fst (co_call s m)) handler (snd (co_call s m)) = Inr m' \<Longrightarrow> co_any prog m m'"

definition machine_new :: "('v, 'e, 's, 'h) co_machine" where
  "machine_new = \<lparr>cm_frames = [], cm_pending = [], cm_held = [], cm_stack = [], cm_num = 0, cm_done = []\<rparr>"

end
