(* ===== verification/Coro_Lifetime.thy ===== *)
theory Coro_Lifetime
  imports Coro_Frames "HOL-Library.Multiset"
begin

section \<open>Lifetime of coroutine frames\<close>

text \<open>
  The invariant of the machine of \<open>Coro_Frames\<close>, that every step keeps it, and what follows: no frame
  is used after it was destroyed, and no coroutine is forgotten. Two further properties show what the
  code does outside these bounds: an exception that reaches an awaiting coroutine, and \<^verbatim>\<open>Coro\<close>
  objects that outlive the \<^verbatim>\<open>co_await\<close>.
\<close>

subsection \<open>Who refers to a frame\<close>

text \<open>
  The frames \<open>F\<close>, the handles \<open>P\<close> that are queued or held, the running coroutine \<open>rs\<close> (none or one)
  and the frames \<open>ds\<close> whose final suspension is still on the stack. A launched frame is in exactly one
  of these places, or suspended in the \<^verbatim>\<open>co_await\<close> of a younger one that knows it; a frame that is
  not launched is owned by exactly one object.
\<close>

type_synonym ('v, 'e, 's, 'h) co_heap = "nat \<Rightarrow> ('v, 'e, 's, 'h) co_frame option"

definition active :: "('v, 'e, 's, 'h) co_frame \<Rightarrow> bool" where
  "active p \<longleftrightarrow> cf_launched p \<and> \<not> cf_final p"

definition tokens_ok :: "('v, 'e, 's, 'h) co_heap \<Rightarrow> nat list \<Rightarrow> nat list \<Rightarrow> bool" where
  "tokens_ok F P rs \<longleftrightarrow> distinct (P @ rs) \<and> (\<forall>h\<in>set (P @ rs). \<exists>p. F h = Some p \<and> active p)"

definition finals_ok :: "('v, 'e, 's, 'h) co_heap \<Rightarrow> nat list \<Rightarrow> bool" where
  "finals_ok F ds \<longleftrightarrow> distinct ds \<and> (\<forall>h. h \<in> set ds \<longleftrightarrow> (\<exists>p. F h = Some p \<and> cf_final p))"

definition fresh_ok :: "('v, 'e, 's, 'h) co_heap \<Rightarrow> bool" where
  "fresh_ok F \<longleftrightarrow> (\<forall>h p. F h = Some p \<longrightarrow> \<not> cf_launched p \<longrightarrow>
     cf_own p = [] \<and> cf_wait p = None \<and> cf_prev p = None \<and> \<not> cf_final p)"

definition resumed_ok :: "('v, 'e, 's, 'h) co_heap \<Rightarrow> nat list \<Rightarrow> nat list \<Rightarrow> bool" where
  "resumed_ok F P rs \<longleftrightarrow> (\<forall>h p c t. F h = Some p \<longrightarrow> h \<in> set (P @ rs) \<longrightarrow> cf_wait p = Some (c, t) \<longrightarrow>
     t \<and> h \<in> set rs \<and> (\<exists>q. F c = Some q \<and> cf_launched q \<and> cf_final q \<and> cf_storage q \<noteq> Monostate))"

definition waits_ok :: "('v, 'e, 's, 'h) co_heap \<Rightarrow> nat list \<Rightarrow> nat list \<Rightarrow> bool" where
  "waits_ok F P rs \<longleftrightarrow> (\<forall>h p. F h = Some p \<longrightarrow> active p \<longrightarrow> h \<notin> set (P @ rs) \<longrightarrow>
     (\<exists>c q. cf_wait p = Some (c, True) \<and> h < c \<and> F c = Some q \<and> active q \<and> cf_prev q = Some h))"

definition prevs_ok :: "('v, 'e, 's, 'h) co_heap \<Rightarrow> nat list \<Rightarrow> nat list \<Rightarrow> bool" where
  "prevs_ok F P rs \<longleftrightarrow> (\<forall>c q h. F c = Some q \<longrightarrow> active q \<longrightarrow> cf_prev q = Some h \<longrightarrow>
     h \<notin> set (P @ rs) \<and> (\<exists>p. F h = Some p \<and> active p \<and> cf_wait p = Some (c, True)))"

definition owned_coros :: "nat option list \<Rightarrow> nat set" where
  "owned_coros cs = {c. Some c \<in> set cs}"

definition own_view :: "('v, 'e, 's, 'h) co_heap \<Rightarrow> nat \<Rightarrow> (bool \<times> nat option list) option" where
  "own_view F h = map_option (\<lambda>p. (cf_launched p, cf_own p)) (F h)"

definition owner_of :: "(nat \<Rightarrow> (bool \<times> nat option list) option) \<Rightarrow> nat \<Rightarrow> nat \<Rightarrow> bool" where
  "owner_of W h c \<longleftrightarrow> (\<exists>l cs. W h = Some (l, cs) \<and> c \<in> owned_coros cs)"

definition unlaunched :: "(nat \<Rightarrow> (bool \<times> nat option list) option) \<Rightarrow> nat \<Rightarrow> bool" where
  "unlaunched W c \<longleftrightarrow> (\<exists>cs. W c = Some (False, cs))"

definition owners_ok :: "(nat \<Rightarrow> (bool \<times> nat option list) option) \<Rightarrow> bool" where
  "owners_ok W \<longleftrightarrow>
     (\<forall>h l cs. W h = Some (l, cs) \<longrightarrow> distinct (filter (\<lambda>x. x \<noteq> None) cs)) \<and>
     (\<forall>c. unlaunched W c \<longleftrightarrow> (\<exists>h. owner_of W h c)) \<and>
     (\<forall>c h h'. owner_of W h c \<longrightarrow> owner_of W h' c \<longrightarrow> h = h')"

definition flow_ok :: "('v, 'e, 's, 'h) co_heap \<Rightarrow> nat list \<Rightarrow> nat list \<Rightarrow> nat list \<Rightarrow> bool" where
  "flow_ok F P rs ds \<longleftrightarrow> length rs \<le> 1 \<and> tokens_ok F P rs \<and> finals_ok F ds \<and> fresh_ok F
     \<and> resumed_ok F P rs \<and> waits_ok F P rs \<and> prevs_ok F P rs"

definition co_ok :: "('v, 'e, 's, 'h) co_heap \<Rightarrow> nat list \<Rightarrow> nat list \<Rightarrow> nat list \<Rightarrow> bool" where
  "co_ok F P rs ds \<longleftrightarrow> flow_ok F P rs ds \<and> owners_ok (own_view F)"

lemmas flow_defs = flow_ok_def tokens_ok_def finals_ok_def fresh_ok_def resumed_ok_def waits_ok_def
  prevs_ok_def active_def

lemma flow_okI:
  assumes "length rs \<le> 1" "tokens_ok F P rs" "finals_ok F ds" "fresh_ok F" "resumed_ok F P rs" "waits_ok F P rs"
    "prevs_ok F P rs"
  shows "flow_ok F P rs ds"
  using assms by (simp add: flow_ok_def)

lemma flow_okD:
  assumes "flow_ok F P rs ds"
  shows "length rs \<le> 1" "tokens_ok F P rs" "finals_ok F ds" "fresh_ok F" "resumed_ok F P rs" "waits_ok F P rs"
    "prevs_ok F P rs"
  using assms by (simp_all add: flow_ok_def)

lemma tokenD: "tokens_ok F P rs \<Longrightarrow> h \<in> set P \<or> h \<in> set rs \<Longrightarrow> F h = Some p \<Longrightarrow> active p"
  unfolding tokens_ok_def by (metis Un_iff option.inject set_append)

lemma token_None: "tokens_ok F P rs \<Longrightarrow> h \<in> set P \<or> h \<in> set rs \<Longrightarrow> F h = None \<Longrightarrow> False"
  unfolding tokens_ok_def by (metis Un_iff option.distinct(1) set_append)

lemma waitsD:
  assumes "waits_ok F P rs" "F h = Some p" "active p" "h \<notin> set P" "h \<notin> set rs"
  obtains c q where "cf_wait p = Some (c, True)" "h < c" "F c = Some q" "active q" "cf_prev q = Some h"
  using assms unfolding waits_ok_def set_append Un_iff by blast

lemma prevsD:
  assumes "prevs_ok F P rs" "F c = Some q" "active q" "cf_prev q = Some h"
  obtains p where "h \<notin> set P" "h \<notin> set rs" "F h = Some p" "active p" "cf_wait p = Some (c, True)"
  using assms unfolding prevs_ok_def set_append Un_iff by blast

lemma resumedD:
  assumes "resumed_ok F P rs" "F h = Some p" "h \<in> set P \<or> h \<in> set rs" "cf_wait p = Some (c, t)"
  obtains q where "t" "h \<in> set rs" "F c = Some q" "cf_launched q" "cf_final q" "cf_storage q \<noteq> Monostate"
  using assms unfolding resumed_ok_def set_append Un_iff by blast

lemma resumed_okI:
  assumes "\<And>h p c t. F h = Some p \<Longrightarrow> h \<in> set P \<or> h \<in> set rs \<Longrightarrow> cf_wait p = Some (c, t)
    \<Longrightarrow> t \<and> h \<in> set rs \<and> (\<exists>q. F c = Some q \<and> cf_launched q \<and> cf_final q \<and> cf_storage q \<noteq> Monostate)"
  shows "resumed_ok F P rs"
  using assms unfolding resumed_ok_def set_append Un_iff by blast

lemma waits_okI:
  assumes "\<And>h p. F h = Some p \<Longrightarrow> active p \<Longrightarrow> h \<notin> set P \<Longrightarrow> h \<notin> set rs
    \<Longrightarrow> \<exists>c q. cf_wait p = Some (c, True) \<and> h < c \<and> F c = Some q \<and> active q \<and> cf_prev q = Some h"
  shows "waits_ok F P rs"
  using assms by (simp add: waits_ok_def)

lemma prevs_okI:
  assumes "\<And>c q h. F c = Some q \<Longrightarrow> active q \<Longrightarrow> cf_prev q = Some h
    \<Longrightarrow> h \<notin> set P \<and> h \<notin> set rs \<and> (\<exists>p. F h = Some p \<and> active p \<and> cf_wait p = Some (c, True))"
  shows "prevs_ok F P rs"
  using assms by (simp add: prevs_ok_def)

lemma flow_ok_perm:
  assumes "mset P = mset P'"
  shows "flow_ok F P rs ds = flow_ok F P' rs ds"
  using mset_eq_setD [OF assms] mset_eq_imp_distinct_iff [OF assms]
  by (simp add: flow_ok_def tokens_ok_def resumed_ok_def waits_ok_def prevs_ok_def)

lemma own_view_same:
  assumes "F h = Some p" and "cf_own p' = cf_own p" and "cf_launched p' = cf_launched p"
  shows "own_view (F(h \<mapsto> p')) = own_view F"
  using assms by (auto simp: own_view_def fun_eq_iff)

lemma own_view_upd: "own_view (F(h \<mapsto> p)) = (own_view F)(h \<mapsto> (cf_launched p, cf_own p))"
  by (simp add: own_view_def fun_eq_iff)

lemma owned_simps [simp]: "owned_coros [] = {}" "owned_coros (None # cs) = owned_coros cs" "owned_coros (Some c # cs) = insert c (owned_coros cs)"
  "owned_coros (cs @ ds) = owned_coros cs \<union> owned_coros ds"
  by (auto simp: owned_coros_def)

lemma owners_launched:
  assumes "owners_ok W" and "W c = None"
  shows "owners_ok (W(c \<mapsto> (True, [])))"
proof -
  have "owner_of (W(c \<mapsto> (True, []))) = owner_of W" "unlaunched (W(c \<mapsto> (True, []))) = unlaunched W"
    using assms(2) by (auto simp: owner_of_def unlaunched_def fun_eq_iff)
  then show ?thesis using assms(1) unfolding owners_ok_def by auto
qed

lemma owners_created:
  assumes "owners_ok W" and "W h = Some (l, cs)" and "W c = None"
  shows "owners_ok (W(h \<mapsto> (l, cs @ [Some c]), c \<mapsto> (False, [])))" (is "owners_ok ?W")
proof -
  have o: "owner_of ?W h' c' \<longleftrightarrow> owner_of W h' c' \<or> h' = h \<and> c' = c" for h' c'
    using assms(2,3) by (auto simp: owner_of_def)
  have u: "unlaunched ?W c' \<longleftrightarrow> unlaunched W c' \<or> c' = c" for c'
    using assms(2,3) by (auto simp: unlaunched_def)
  have c: "\<not> owner_of W h' c" for h' 
  proof
    assume "owner_of W h' c"
    then have "unlaunched W c" using assms(1) by (auto simp: owners_ok_def)
    then show False using assms(3) by (simp add: unlaunched_def)
  qed
  then have n: "Some c \<notin> set cs" using assms(2) by (auto simp: owner_of_def owned_coros_def)
  show ?thesis using assms n c unfolding owners_ok_def o u by auto
qed

lemma owned_given:
  assumes "distinct (filter (\<lambda>x. x \<noteq> None) cs)" and "k < length cs" and "cs ! k = Some c"
  shows "owned_coros (cs[k := None]) = owned_coros cs - {c}" "distinct (filter (\<lambda>x. x \<noteq> None) (cs[k := None]))"
proof -
  define xs where "xs = take k cs"
  define ys where "ys = drop (Suc k) cs"
  have e: "cs = xs @ Some c # ys" using id_take_nth_drop [OF assms(2)] assms(3) by (simp add: xs_def ys_def)
  have u: "cs[k := None] = xs @ None # ys" using assms(2) by (simp add: upd_conv_take_nth_drop xs_def ys_def)
  have n: "Some c \<notin> set xs" "Some c \<notin> set ys" using assms(1) unfolding e by auto
  show "owned_coros (cs[k := None]) = owned_coros cs - {c}" unfolding u unfolding e using n by (auto simp: owned_coros_def)
  show "distinct (filter (\<lambda>x. x \<noteq> None) (cs[k := None]))" unfolding u using assms(1) unfolding e by auto
qed

lemma owners_given:
  assumes "owners_ok W" and "W h = Some (l, cs)" and "k < length cs" and "cs ! k = Some c"
    and "W c = Some (False, [])"
  shows "owners_ok (W(h \<mapsto> (l, cs[k := None]), c \<mapsto> (True, [])))" (is "owners_ok ?W")
proof -
  have d: "distinct (filter (\<lambda>x. x \<noteq> None) cs)" using assms(1,2) by (auto simp: owners_ok_def)
  have hc: "owner_of W h c" using assms(2,3,4) by (auto simp: owner_of_def owned_coros_def) (metis nth_mem)
  have ne: "h \<noteq> c" using hc assms(5) by (auto simp: owner_of_def)
  have only: "owner_of W h' c \<Longrightarrow> h' = h" for h' using hc assms(1) by (auto simp: owners_ok_def)
  have o: "owner_of ?W h' c' \<longleftrightarrow> owner_of W h' c' \<and> c' \<noteq> c" for h' c'
    using assms(2,5) only ne owned_given(1) [OF d assms(3,4)] by (auto simp: owner_of_def)
  have u: "unlaunched ?W c' \<longleftrightarrow> unlaunched W c' \<and> c' \<noteq> c" for c'
    using assms(2) ne by (auto simp: unlaunched_def)
  show ?thesis using assms(1) owned_given(2) [OF d assms(3,4)] unfolding owners_ok_def o u by auto
qed

lemma owners_destroyed:
  assumes "owners_ok W" and "W h = Some (True, cs)" and "\<And>c cs'. W c = Some (False, cs') \<Longrightarrow> cs' = []"
  shows "owners_ok (\<lambda>k. if k = h \<or> k \<in> owned_coros cs then None else W k)" (is "owners_ok ?W")
proof -
  have f: "unlaunched W c" if "c \<in> owned_coros cs" for c using that assms(1,2) by (auto simp: owners_ok_def owner_of_def)
  have o: "owner_of ?W h' c' \<longleftrightarrow> owner_of W h' c' \<and> h' \<noteq> h" for h' c'
    using f assms(3) by (auto simp: owner_of_def unlaunched_def) fastforce
  have hc: "owner_of W h c' \<longleftrightarrow> c' \<in> owned_coros cs" for c' using assms(2) by (auto simp: owner_of_def)
  have u: "unlaunched ?W c' \<longleftrightarrow> unlaunched W c' \<and> c' \<notin> owned_coros cs" for c'
    using assms(2) by (auto simp: unlaunched_def)
  show ?thesis using assms(1) unfolding owners_ok_def o u by (auto simp: hc split: if_splits)
qed

subsection \<open>Every step keeps it\<close>

lemma flow_pop:
  assumes ok: "flow_ok F (h # P) [] ds"
  shows "flow_ok F P [h] ds"
proof (rule flow_okI)
  note ok = flow_okD [OF ok]
  show "tokens_ok F P [h]" using ok(2) by (auto simp: tokens_ok_def)
  show "resumed_ok F P [h]" using ok(5) by (auto simp: resumed_ok_def)
  show "waits_ok F P [h]" using ok(6) by (auto simp: waits_ok_def)
  show "prevs_ok F P [h]" using ok(7) by (auto simp: prevs_ok_def)
qed (use flow_okD [OF ok] in simp_all)

lemma flow_suspend:
  assumes ok: "flow_ok F P [h] ds" and F: "F h = Some p" and w: "cf_wait p = None"
  shows "flow_ok F (h # P) [] ds"
proof (rule flow_okI)
  note ok = flow_okD [OF ok]
  show "tokens_ok F (h # P) []" using ok(2) by (auto simp: tokens_ok_def)
  show "resumed_ok F (h # P) []" using ok(5) F w by (auto simp: resumed_ok_def)
  show "waits_ok F (h # P) []" using ok(6) by (auto simp: waits_ok_def)
  show "prevs_ok F (h # P) []" using ok(7) by (auto simp: prevs_ok_def)
qed (use flow_okD [OF ok] in simp_all)

lemma flow_run:
  assumes ok: "flow_ok F P [h] ds" and F: "F h = Some p"
    and p': "cf_launched p' = cf_launched p" "cf_final p' = cf_final p" "cf_prev p' = cf_prev p" "cf_wait p' = None"
  shows "flow_ok (F(h \<mapsto> p')) P [h] ds"
proof (rule flow_okI)
  note ok = flow_okD [OF ok]
  have a: "active p" "active p'" using tokenD [OF ok(2) _ F] p' by (auto simp: active_def)
  show "tokens_ok (F(h \<mapsto> p')) P [h]" using ok(2) a by (simp add: tokens_ok_def)
  show "finals_ok (F(h \<mapsto> p')) ds" using ok(3) F p' by (auto simp: finals_ok_def)
  show "fresh_ok (F(h \<mapsto> p'))" using ok(4) F a by (auto simp: fresh_ok_def active_def)
  show "resumed_ok (F(h \<mapsto> p')) P [h]" using ok(5) F p' a
    by (auto simp: resumed_ok_def active_def)
  show "waits_ok (F(h \<mapsto> p')) P [h]"
  proof (rule waits_okI)
    fix k r assume "(F(h \<mapsto> p')) k = Some r" "active r" and k: "k \<notin> set P" "k \<notin> set [h]"
    then have "F k = Some r" "active r" by auto
    from waitsD [OF ok(6) this k] obtain c q where c: "cf_wait r = Some (c, True)" "k < c" "F c = Some q" "active q" "cf_prev q = Some k" .
    have "(F(h \<mapsto> p')) c = Some q \<or> (F(h \<mapsto> p')) c = Some p' \<and> cf_prev p' = Some k" using c(3,5) F p' by auto
    then show "\<exists>c q. cf_wait r = Some (c, True) \<and> k < c \<and> (F(h \<mapsto> p')) c = Some q \<and> active q \<and> cf_prev q = Some k"
      using c a by blast
  qed
  show "prevs_ok (F(h \<mapsto> p')) P [h]"
  proof (rule prevs_okI)
    fix c q j assume "(F(h \<mapsto> p')) c = Some q" "active q" "cf_prev q = Some j"
    then obtain q' where "F c = Some q'" "active q'" "cf_prev q' = Some j" using F p' a by (cases "c = h") auto
    from prevsD [OF ok(7) this] show "j \<notin> set P \<and> j \<notin> set [h]
        \<and> (\<exists>p. (F(h \<mapsto> p')) j = Some p \<and> active p \<and> cf_wait p = Some (c, True))" by auto
  qed
qed simp

lemma flow_fresh:
  assumes ok: "flow_ok F P rs ds" and F: "F c = None \<or> (\<exists>q. F c = Some q \<and> \<not> cf_launched q)"
    and q: "\<not> cf_final q" "cf_own q = []" "cf_wait q = None" "cf_prev q = None"
    and P': "P' = (if cf_launched q then c # P else P)"
  shows "flow_ok (F(c \<mapsto> q)) P' rs ds"
proof (rule flow_okI)
  note ok = flow_okD [OF ok]
  have c: "c \<notin> set P" "c \<notin> set rs" using tokenD [OF ok(2)] token_None [OF ok(2)] F
    by (metis active_def)+
  have other: "F k = Some r \<Longrightarrow> active r \<Longrightarrow> (F(c \<mapsto> q)) k = Some r" for k r using F by (auto simp: active_def)
  have old: "(F(c \<mapsto> q)) k = Some r \<Longrightarrow> k \<noteq> c \<Longrightarrow> F k = Some r" for k r by simp
  show "tokens_ok (F(c \<mapsto> q)) P' rs" using ok(2) c q P' by (auto simp: tokens_ok_def active_def)
  show "finals_ok (F(c \<mapsto> q)) ds" using ok(3,4) F q by (auto simp: finals_ok_def fresh_ok_def)
  show "fresh_ok (F(c \<mapsto> q))" using ok(4) q by (auto simp: fresh_ok_def)
  show "resumed_ok (F(c \<mapsto> q)) P' rs" 
  proof (rule resumed_okI)
    fix k r d t assume k: "(F(c \<mapsto> q)) k = Some r" "k \<in> set P' \<or> k \<in> set rs" "cf_wait r = Some (d, t)"
    then have "k \<noteq> c" using q by auto
    with k P' have "F k = Some r" "k \<in> set P \<or> k \<in> set rs" by (auto split: if_splits)
    from resumedD [OF ok(5) this k(3)] obtain q' where
      d: "t" "k \<in> set rs" "F d = Some q'" "cf_launched q'" "cf_final q'" "cf_storage q' \<noteq> Monostate" .
    then have "d \<noteq> c" using F by auto
    then show "t \<and> k \<in> set rs \<and> (\<exists>q'. (F(c \<mapsto> q)) d = Some q' \<and> cf_launched q' \<and> cf_final q' \<and> cf_storage q' \<noteq> Monostate)"
      using d by simp
  qed
  show "waits_ok (F(c \<mapsto> q)) P' rs"
  proof (rule waits_okI)
    fix k r assume k: "(F(c \<mapsto> q)) k = Some r" "active r" "k \<notin> set P'" "k \<notin> set rs"
    then have "k \<noteq> c" "k \<notin> set P" using P' by (auto simp: active_def split: if_splits)
    with k waitsD [OF ok(6) _ k(2) _ k(4)] other
    show "\<exists>d r'. cf_wait r = Some (d, True) \<and> k < d \<and> (F(c \<mapsto> q)) d = Some r' \<and> active r' \<and> cf_prev r' = Some k"
      by (metis old)
  qed
  show "prevs_ok (F(c \<mapsto> q)) P' rs"
  proof (rule prevs_okI)
    fix d r j assume d: "(F(c \<mapsto> q)) d = Some r" "active r" "cf_prev r = Some j"
    then have "F d = Some r" using q by (auto split: if_splits)
    from prevsD [OF ok(7) this d(2,3)] obtain p where p: "j \<notin> set P" "j \<notin> set rs" "F j = Some p" "active p" "cf_wait p = Some (d, True)" .
    moreover have "j \<noteq> c" using p F by (auto simp: active_def)
    ultimately show "j \<notin> set P' \<and> j \<notin> set rs \<and> (\<exists>p. (F(c \<mapsto> q)) j = Some p \<and> active p \<and> cf_wait p = Some (d, True))"
      using P' by auto
  qed
qed (use flow_okD [OF ok] in simp)

lemma flow_await:
  assumes ok: "flow_ok F P [h] ds" and F: "F h = Some p" "F c = None" and hc: "h < c"
    and p': "cf_launched p' = cf_launched p" "cf_final p' = cf_final p" "cf_prev p' = cf_prev p" "cf_wait p' = Some (c, True)"
    and q: "cf_launched q" "\<not> cf_final q" "cf_wait q = None" "cf_prev q = Some h"
  shows "flow_ok (F(h \<mapsto> p', c \<mapsto> q)) (c # P) [] ds" (is "flow_ok ?F _ _ _")
proof (rule flow_okI)
  note ok = flow_okD [OF ok]
  have a: "active p" "active p'" "active q" using tokenD [OF ok(2) _ F(1)] p' q by (auto simp: active_def)
  have c: "c \<notin> set P" "c \<noteq> h" using token_None [OF ok(2)] F(2) hc by auto
  show "tokens_ok ?F (c # P) []" using ok(2) a c by (auto simp: tokens_ok_def)
  show "finals_ok ?F ds" using ok(3) F p' q by (auto simp: finals_ok_def)
  show "fresh_ok ?F" using ok(4) a by (auto simp: fresh_ok_def active_def)
  show "resumed_ok ?F (c # P) []" using ok(2,5) q c by (auto simp: resumed_ok_def tokens_ok_def)
  show "waits_ok ?F (c # P) []"
  proof (rule waits_okI)
    fix k r assume k: "?F k = Some r" "active r" "k \<notin> set (c # P)"
    show "\<exists>d r'. cf_wait r = Some (d, True) \<and> k < d \<and> ?F d = Some r' \<and> active r' \<and> cf_prev r' = Some k"
    proof (cases "k = h")
      case True then show ?thesis using k p' q hc a by auto
    next
      case False
      with k have "F k = Some r" "k \<notin> set P" "k \<notin> set [h]" by auto
      from waitsD [OF ok(6) this(1) k(2) this(2,3)] obtain d r' where
        d: "cf_wait r = Some (d, True)" "k < d" "F d = Some r'" "active r'" "cf_prev r' = Some k" .
      then have "?F d = Some r' \<or> ?F d = Some p' \<and> cf_prev p' = Some k" using F p' by auto
      with d a show ?thesis by blast
    qed
  qed
  show "prevs_ok ?F (c # P) []"
  proof (rule prevs_okI)
    fix d r j assume d: "?F d = Some r" "active r" "cf_prev r = Some j"
    show "j \<notin> set (c # P) \<and> j \<notin> set [] \<and> (\<exists>p. ?F j = Some p \<and> active p \<and> cf_wait p = Some (d, True))"
    proof (cases "d = c")
      case True then show ?thesis using d q p' a c ok(2) by (auto simp: tokens_ok_def)
    next
      case False
      then obtain r' where "F d = Some r'" "active r'" "cf_prev r' = Some j" using d F p' a by (cases "d = h") auto
      from prevsD [OF ok(7) this] obtain pj where
        "j \<notin> set P" "j \<notin> set [h]" "F j = Some pj" "active pj" "cf_wait pj = Some (d, True)" .
      then show ?thesis using F(2) by auto
    qed
  qed
qed simp

text \<open>The final suspension of the running coroutine, without and with an awaiter.\<close>

lemma flow_final:
  assumes ok: "flow_ok F P [h] ds" and F: "F h = Some p"
    and p': "cf_launched p'" "cf_final p'" "cf_storage p' \<noteq> Monostate"
    and rs: "rs = (case cf_prev p of None \<Rightarrow> [] | Some j \<Rightarrow> [j])"
  shows "flow_ok (F(h \<mapsto> p')) P rs (h # ds)" (is "flow_ok ?F _ _ _")
proof (rule flow_okI)
  note ok = flow_okD [OF ok]
  have a: "active p" "\<not> active p'" using tokenD [OF ok(2) _ F] p' by (auto simp: active_def)
  have j: "\<exists>pj. j \<notin> set P \<and> j \<noteq> h \<and> F j = Some pj \<and> active pj \<and> cf_wait pj = Some (h, True)" if "j \<in> set rs" for j
  proof -
    from that have "cf_prev p = Some j" using rs by (simp split: option.splits)
    from prevsD [OF ok(7) F a(1) this] show ?thesis by auto
  qed
  have d: "distinct rs" "length rs \<le> 1" using rs by (auto split: option.splits)
  then show "length rs \<le> 1" by simp
  show "tokens_ok ?F P rs"
  proof -
    have "set P \<inter> set rs = {}" using j by blast
    moreover have "k \<in> set rs \<Longrightarrow> \<exists>r. ?F k = Some r \<and> active r" for k using j [of k] by auto
    moreover have "k \<in> set P \<Longrightarrow> \<exists>r. ?F k = Some r \<and> active r" for k using ok(2) by (auto simp: tokens_ok_def)
    ultimately show ?thesis using ok(2) d unfolding tokens_ok_def set_append Un_iff distinct_append by blast
  qed
  show "finals_ok ?F (h # ds)" using ok(3) F p' a by (auto simp: finals_ok_def active_def)
  show "fresh_ok ?F" using ok(4) p' by (auto simp: fresh_ok_def)
  show "resumed_ok ?F P rs"
  proof (rule resumed_okI)
    fix k r c t assume k: "?F k = Some r" "k \<in> set P \<or> k \<in> set rs" "cf_wait r = Some (c, t)"
    then have "k \<noteq> h" using ok(2) j by (auto simp: tokens_ok_def)
    with k have Fk: "F k = Some r" by simp
    show "t \<and> k \<in> set rs \<and> (\<exists>q. ?F c = Some q \<and> cf_launched q \<and> cf_final q \<and> cf_storage q \<noteq> Monostate)"
    proof (cases "k \<in> set rs")
      case True
      then obtain pj where "F k = Some pj" "cf_wait pj = Some (h, True)" using j by blast
      then have "c = h" "t" using Fk k(3) by simp_all
      then show ?thesis using True p' by simp
    next
      case False
      then have "k \<in> set P \<or> k \<in> set [h]" using k(2) by simp
      from resumedD [OF ok(5) Fk this k(3)] have "k \<in> set [h]" .
      then show ?thesis using \<open>k \<noteq> h\<close> by simp
    qed
  qed
  show "waits_ok ?F P rs"
  proof (rule waits_okI)
    fix k r assume k: "?F k = Some r" "active r" "k \<notin> set P" "k \<notin> set rs"
    then have "k \<notin> set [h]" "F k = Some r" using a by (auto split: if_splits)
    from waitsD [OF ok(6) this(2) k(2,3) this(1)] obtain d q where
      d: "cf_wait r = Some (d, True)" "k < d" "F d = Some q" "active q" "cf_prev q = Some k" .
    then have "d \<noteq> h" using F k(4) rs by auto
    with d show "\<exists>c q. cf_wait r = Some (c, True) \<and> k < c \<and> ?F c = Some q \<and> active q \<and> cf_prev q = Some k" by auto
  qed
  show "prevs_ok ?F P rs"
  proof (rule prevs_okI)
    fix c q i assume c: "?F c = Some q" "active q" "cf_prev q = Some i"
    then have "c \<noteq> h" "F c = Some q" using a by (auto split: if_splits)
    from prevsD [OF ok(7) this(2) c(2,3)] obtain r where
      r: "i \<notin> set P" "i \<notin> set [h]" "F i = Some r" "active r" "cf_wait r = Some (c, True)" .
    have "i \<notin> set rs"
    proof
      assume "i \<in> set rs"
      then obtain pi where "F i = Some pi" "cf_wait pi = Some (h, True)" using j by blast
      then show False using r \<open>c \<noteq> h\<close> by simp
    qed
    with r show "i \<notin> set P \<and> i \<notin> set rs \<and> (\<exists>p. ?F i = Some p \<and> active p \<and> cf_wait p = Some (c, True))" by auto
  qed
qed

lemma flow_destroy:
  assumes ok: "flow_ok F P [] (h # ds)" and X: "\<And>k. k \<in> X \<Longrightarrow> \<exists>q. F k = Some q \<and> \<not> cf_launched q"
  shows "flow_ok (\<lambda>k. if k = h \<or> k \<in> X then None else F k) P [] ds" (is "flow_ok ?F _ _ _")
proof (rule flow_okI)
  note ok = flow_okD [OF ok]
  have "\<exists>p. F h = Some p \<and> cf_final p" using ok(3) by (auto simp: finals_ok_def)
  then have keep: "F k = Some r \<Longrightarrow> active r \<Longrightarrow> ?F k = Some r" for k r using X by (fastforce simp: active_def)
  have old: "?F k = Some r \<Longrightarrow> F k = Some r" for k r by (simp split: if_splits)
  show "tokens_ok ?F P []" using ok(2) keep unfolding tokens_ok_def by fast
  have "k \<notin> X" if "F k = Some r" "cf_final r" for k r
  proof
    assume "k \<in> X"
    then show False using X [of k] that ok(4) by (auto simp: fresh_ok_def)
  qed
  then have "(\<exists>p. ?F k = Some p \<and> cf_final p) \<longleftrightarrow> k \<noteq> h \<and> (\<exists>p. F k = Some p \<and> cf_final p)" for k
    by (cases "k \<in> X") auto
  then show "finals_ok ?F ds" using ok(3) by (auto simp: finals_ok_def)
  show "fresh_ok ?F" using ok(4) by (auto simp: fresh_ok_def)
  show "resumed_ok ?F P []" using ok(5) old by (auto simp: resumed_ok_def)
  show "waits_ok ?F P []"
  proof (rule waits_okI)
    fix k r assume k: "?F k = Some r" "active r" "k \<notin> set P" "k \<notin> set []"
    from waitsD [OF ok(6) old [OF k(1)] k(2-4)] obtain c q where
      c: "cf_wait r = Some (c, True)" "k < c" "F c = Some q" "active q" "cf_prev q = Some k" .
    from keep [OF c(3,4)] c
    show "\<exists>c q. cf_wait r = Some (c, True) \<and> k < c \<and> ?F c = Some q \<and> active q \<and> cf_prev q = Some k" by blast
  qed
  show "prevs_ok ?F P []"
  proof (rule prevs_okI)
    fix c q j assume c: "?F c = Some q" "active q" "cf_prev q = Some j"
    from prevsD [OF ok(7) old [OF c(1)] c(2,3)] obtain p where
      p: "j \<notin> set P" "j \<notin> set []" "F j = Some p" "active p" "cf_wait p = Some (c, True)" .
    from keep [OF p(3,4)] p
    show "j \<notin> set P \<and> j \<notin> set [] \<and> (\<exists>p. ?F j = Some p \<and> active p \<and> cf_wait p = Some (c, True))" by blast
  qed
qed simp

subsection \<open>The machine\<close>

definition live_frames :: "('v, 'e, 's, 'h) co_machine \<Rightarrow> nat" where
  "live_frames m = length (filter (\<lambda>x. x \<noteq> None) (cm_frames m))"

definition num_ok :: "('v, 'e, 's, 'h) co_machine \<Rightarrow> bool" where
  "num_ok m \<longleftrightarrow> cm_num m = of_nat (live_frames m)"

definition machine_ok :: "('v, 'e, 's, 'h) co_machine \<Rightarrow> nat list \<Rightarrow> nat list \<Rightarrow> bool" where
  "machine_ok m rs ds \<longleftrightarrow> cm_stack m = map KRun rs @ map KDestroy ds
     \<and> co_ok (coro_at m) (cm_pending m @ cm_held m) rs ds \<and> num_ok m"

lemma coro_at_frames [simp]:
  "coro_at (m\<lparr>cm_pending := a\<rparr>) = coro_at m" "coro_at (m\<lparr>cm_held := a\<rparr>) = coro_at m"
  "coro_at (m\<lparr>cm_stack := ks\<rparr>) = coro_at m" "coro_at (m\<lparr>cm_num := n\<rparr>) = coro_at m"
  "coro_at (m\<lparr>cm_done := d\<rparr>) = coro_at m" "coro_at (co_queue h m) = coro_at m"
  by (simp_all add: coro_at_def co_queue_def fun_eq_iff)

lemma coro_at_set [simp]: "coro_at m h \<noteq> None \<Longrightarrow> coro_at (set_frame h x m) = (coro_at m)(h := x)"
  by (auto simp: coro_at_def set_frame_def fun_eq_iff split: if_splits)

lemma set_frame_fields [simp]:
  "cm_pending (set_frame h x m) = cm_pending m" "cm_held (set_frame h x m) = cm_held m"
  "cm_stack (set_frame h x m) = cm_stack m" "cm_num (set_frame h x m) = cm_num m"
  "cm_done (set_frame h x m) = cm_done m" "length (cm_frames (set_frame h x m)) = length (cm_frames m)"
  by (simp_all add: set_frame_def)

lemma queue_fields [simp]:
  "cm_pending (co_queue h m) = cm_pending m @ [h]" "cm_held (co_queue h m) = cm_held m"
  "cm_stack (co_queue h m) = cm_stack m" "cm_num (co_queue h m) = cm_num m" "cm_frames (co_queue h m) = cm_frames m"
  by (simp_all add: co_queue_def)

lemma length_filter_upd:
  assumes "c < length w" and "w ! c \<noteq> None"
  shows "x \<noteq> None \<Longrightarrow> length (filter (\<lambda>x. x \<noteq> None) (w[c := x])) = length (filter (\<lambda>x. x \<noteq> None) w)"
    and "Suc (length (filter (\<lambda>x. x \<noteq> None) (w[c := None]))) = length (filter (\<lambda>x. x \<noteq> None) w)"
  using length_filter_update [OF assms(1), of "\<lambda>x. x \<noteq> None" x]
    length_filter_update [OF assms(1), of "\<lambda>x. x \<noteq> None" None] assms(2) by simp_all

lemma num_ok_set:
  assumes "coro_at m h \<noteq> None"
  shows "num_ok (set_frame h (Some x) m) = num_ok m"
    and "num_ok (set_frame h None m\<lparr>cm_num := cm_num m - 1\<rparr>) = num_ok m"
proof -
  have h: "h < length (cm_frames m)" "cm_frames m ! h \<noteq> None" using assms by (auto simp: coro_at_def split: if_splits)
  show "num_ok (set_frame h (Some x) m) = num_ok m"
    using length_filter_upd(1) [OF h, of "Some x"] by (simp add: num_ok_def live_frames_def set_frame_def)
  have "live_frames m = Suc (live_frames (set_frame h None m))"
    using length_filter_upd(2) [OF h] by (simp add: live_frames_def set_frame_def)
  then show "num_ok (set_frame h None m\<lparr>cm_num := cm_num m - 1\<rparr>) = num_ok m"
    by (auto simp: num_ok_def live_frames_def algebra_simps)
qed

lemma num_ok_simps [simp]:
  "num_ok (m\<lparr>cm_pending := a\<rparr>) = num_ok m" "num_ok (m\<lparr>cm_held := a\<rparr>) = num_ok m"
  "num_ok (m\<lparr>cm_stack := ks\<rparr>) = num_ok m" "num_ok (m\<lparr>cm_done := d\<rparr>) = num_ok m" "num_ok (co_queue h m) = num_ok m"
  by (simp_all add: num_ok_def live_frames_def co_queue_def)

text \<open>A call appends a frame that nobody knows yet.\<close>

definition new_frame :: "'s \<Rightarrow> ('v, 'e, 's, 'h) co_frame" where
  "new_frame s = \<lparr>cf_launched = False, cf_prev = None, cf_storage = Monostate, cf_callback = None,
     cf_state = s, cf_wait = None, cf_own = [], cf_final = False\<rparr>"

lemma new_frame_fields [simp]:
  "cf_launched (new_frame s) = False" "cf_prev (new_frame s) = None" "cf_storage (new_frame s) = Monostate"
  "cf_callback (new_frame s) = None" "cf_state (new_frame s) = s" "cf_wait (new_frame s) = None"
  "cf_own (new_frame s) = []" "cf_final (new_frame s) = False"
  by (simp_all add: new_frame_def)

lemma co_call_new:
  assumes "co_call s m = (c, m')"
  shows "coro_at m c = None" "coro_at m' = (coro_at m)(c \<mapsto> new_frame s)" "\<And>h p. coro_at m h = Some p \<Longrightarrow> h < c"
    "cm_pending m' = cm_pending m" "cm_held m' = cm_held m" "cm_stack m' = cm_stack m" "num_ok m' = num_ok m"
  using assms
  by (auto simp: co_call_def coro_at_def new_frame_def fun_eq_iff nth_append num_ok_def live_frames_def split: if_splits)

text \<open>Destroying objects whose coroutines were never started.\<close>

lemma coro_dtors_fresh:
  assumes "distinct (filter (\<lambda>x. x \<noteq> None) cs)"
    and "\<And>c. c \<in> owned_coros cs \<Longrightarrow> \<exists>q. coro_at m c = Some q \<and> \<not> cf_launched q \<and> cf_own q = []"
    and "num_ok m"
  shows "\<exists>m'. coro_dtors cs m = Inr m' \<and> coro_at m' = (\<lambda>k. if k \<in> owned_coros cs then None else coro_at m k)
     \<and> cm_pending m' = cm_pending m \<and> cm_held m' = cm_held m \<and> cm_stack m' = cm_stack m \<and> num_ok m'"
  using assms
proof (induction cs arbitrary: m)
  case Nil then show ?case by simp
next
  case (Cons x cs)
  show ?case
  proof (cases x)
    case None then show ?thesis using Cons by simp
  next
    case (Some c)
    obtain q where q: "coro_at m c = Some q" "\<not> cf_launched q" "cf_own q = []" using Cons.prems(2) [of c] Some by auto
    let ?m = "set_frame c None (m\<lparr>cm_num := cm_num m - 1\<rparr>)"
    have e: "?m = set_frame c None m\<lparr>cm_num := cm_num m - 1\<rparr>" by (simp add: set_frame_def)
    have n: "c \<notin> owned_coros cs" using Cons.prems(1) Some by (auto simp: owned_coros_def)
    have at: "coro_at ?m = (coro_at m)(c := None)" using q by simp
    have num: "num_ok ?m" unfolding e using num_ok_set(2) [of m c] q Cons.prems(3) by simp
    have "\<exists>m'. coro_dtors cs ?m = Inr m' \<and> coro_at m' = (\<lambda>k. if k \<in> owned_coros cs then None else coro_at ?m k)
       \<and> cm_pending m' = cm_pending ?m \<and> cm_held m' = cm_held ?m \<and> cm_stack m' = cm_stack ?m \<and> num_ok m'"
    proof (rule Cons.IH)
      show "distinct (filter (\<lambda>x. x \<noteq> None) cs)" using Cons.prems(1) by (auto split: if_splits)
      show "\<exists>q. coro_at ?m d = Some q \<and> \<not> cf_launched q \<and> cf_own q = []" if "d \<in> owned_coros cs" for d
        using Cons.prems(2) [of d] that n Some at by auto
    qed (rule num)
    then show ?thesis using q Some by (auto simp: at fun_eq_iff)
  qed
qed

text \<open>The steps of the owner relation and of the flow together.\<close>

lemma co_ok_perm:
  assumes "co_ok F P rs ds" and "mset P = mset P'"
  shows "co_ok F P' rs ds"
  using assms flow_ok_perm [OF assms(2), of F rs ds] by (simp add: co_ok_def)

lemma co_ok_run:
  assumes "co_ok F P [h] ds" and "F h = Some p"
  shows "co_ok (F(h \<mapsto> p\<lparr>cf_state := s, cf_wait := None\<rparr>)) P [h] ds"
proof -
  have "own_view (F(h \<mapsto> p\<lparr>cf_state := s, cf_wait := None\<rparr>)) = own_view F"
    using assms(2) by (rule own_view_same) simp_all
  with assms show ?thesis by (simp add: co_ok_def flow_run)
qed

lemma co_ok_spawn:
  assumes "co_ok F P rs ds" and "F c = None"
    and q: "cf_launched q" "\<not> cf_final q" "cf_own q = []" "cf_wait q = None" "cf_prev q = None"
  shows "co_ok (F(c \<mapsto> q)) (c # P) rs ds"
proof -
  have "owners_ok (own_view (F(c \<mapsto> q)))"
    using assms owners_launched [of "own_view F" c] by (auto simp: own_view_upd co_ok_def own_view_def)
  moreover have "flow_ok (F(c \<mapsto> q)) (c # P) rs ds"
    by (rule flow_fresh [where P = P]) (use assms in \<open>auto simp: co_ok_def\<close>)
  ultimately show ?thesis by (simp add: co_ok_def)
qed

lemma co_ok_await:
  assumes "co_ok F P [h] ds" and F: "F h = Some p" "F c = None" and "h < c"
    and q: "cf_launched q" "\<not> cf_final q" "cf_own q = []" "cf_wait q = None" "cf_prev q = Some h"
  shows "co_ok (F(h \<mapsto> p\<lparr>cf_state := s, cf_wait := Some (c, True)\<rparr>, c \<mapsto> q)) (c # P) [] ds" (is "co_ok ?F _ _ _")
proof -
  have "own_view (F(h \<mapsto> p\<lparr>cf_state := s, cf_wait := Some (c, True)\<rparr>)) = own_view F"
    using F(1) by (rule own_view_same) simp_all
  then have "owners_ok (own_view ?F)"
    using assms owners_launched [of "own_view F" c] by (auto simp: own_view_upd co_ok_def own_view_def)
  moreover have "flow_ok ?F (c # P) [] ds"
    by (rule flow_await) (use assms in \<open>auto simp: co_ok_def\<close>)
  ultimately show ?thesis by (simp add: co_ok_def)
qed

lemma co_ok_create:
  assumes "co_ok F P [h] ds" and F: "F h = Some p" "F c = None"
    and q: "\<not> cf_launched q" "\<not> cf_final q" "cf_own q = []" "cf_wait q = None" "cf_prev q = None"
  shows "co_ok (F(h \<mapsto> p\<lparr>cf_state := s, cf_wait := None, cf_own := cf_own p @ [Some c]\<rparr>, c \<mapsto> q)) P [h] ds"
    (is "co_ok ?F _ _ _")
proof -
  have ne: "h \<noteq> c" using F by auto
  have "owners_ok (own_view ?F)"
    using assms ne owners_created [of "own_view F" h "cf_launched p" "cf_own p" c]
    by (auto simp: own_view_upd co_ok_def own_view_def)
  moreover have "flow_ok (F(h \<mapsto> p\<lparr>cf_state := s, cf_wait := None, cf_own := cf_own p @ [Some c]\<rparr>)) P [h] ds"
    by (rule flow_run) (use assms in \<open>auto simp: co_ok_def\<close>)
  then have "flow_ok ?F P [h] ds"
    by (rule flow_fresh) (use ne F q in auto)
  ultimately show ?thesis by (simp add: co_ok_def)
qed

lemma co_ok_spawn_own:
  assumes ok: "co_ok F P [h] ds" and F: "F h = Some p" and k: "own_coro k p = Some c"
  obtains q where "F c = Some q" "c \<noteq> h"
    "\<And>s cb. co_ok (F(h \<mapsto> p\<lparr>cf_state := s, cf_wait := None, cf_own := (cf_own p)[k := None]\<rparr>,
               c \<mapsto> q\<lparr>cf_launched := True, cf_callback := cb\<rparr>)) (c # P) [h] ds"
proof -
  have k: "k < length (cf_own p)" "cf_own p ! k = Some c" using k by (auto simp: own_coro_def split: if_splits)
  have "owner_of (own_view F) h c"
    using k F unfolding owner_of_def own_view_def owned_coros_def by (auto intro: nth_mem) (metis nth_mem)
  then have "unlaunched (own_view F) c" using ok by (auto simp: co_ok_def owners_ok_def)
  then obtain q where q: "F c = Some q" "\<not> cf_launched q" by (auto simp: unlaunched_def own_view_def)
  then have q': "cf_own q = []" "cf_wait q = None" "cf_prev q = None" "\<not> cf_final q"
    using ok by (auto simp: co_ok_def flow_ok_def fresh_ok_def)
  have "active p" using ok F tokenD [of F P "[h]" h p] by (simp add: co_ok_def flow_ok_def)
  then have ne: "c \<noteq> h" using F q by (auto simp: active_def)
  show ?thesis
  proof (rule that [OF q(1) ne])
    fix s cb
    let ?p = "p\<lparr>cf_state := s, cf_wait := None, cf_own := (cf_own p)[k := None]\<rparr>"
    let ?q = "q\<lparr>cf_launched := True, cf_callback := cb\<rparr>"
    have "flow_ok (F(h \<mapsto> ?p)) P [h] ds"
      by (rule flow_run) (use ok F in \<open>auto simp: co_ok_def\<close>)
    then have "flow_ok (F(h \<mapsto> ?p, c \<mapsto> ?q)) (c # P) [h] ds"
      by (rule flow_fresh) (use ne q q' in auto)
    moreover have "owners_ok (own_view (F(h \<mapsto> ?p, c \<mapsto> ?q)))"
      using owners_given [of "own_view F" h "cf_launched p" "cf_own p" k c] ok F k q q'
      by (simp add: own_view_upd co_ok_def own_view_def)
    ultimately show "co_ok (F(h \<mapsto> ?p, c \<mapsto> ?q)) (c # P) [h] ds" by (simp add: co_ok_def)
  qed
qed

lemma co_ok_final:
  assumes "co_ok F P [h] ds" and "F h = Some p" and "r \<noteq> Monostate"
    and "rs = (case cf_prev p of None \<Rightarrow> [] | Some j \<Rightarrow> [j])"
  shows "co_ok (F(h \<mapsto> p\<lparr>cf_storage := r, cf_final := True\<rparr>)) P rs (h # ds)" (is "co_ok ?F _ _ _")
proof -
  have "own_view ?F = own_view F" using assms(2) by (rule own_view_same) simp_all
  moreover have "active p" using assms tokenD [of F P "[h]" h p] by (simp add: co_ok_def flow_ok_def)
  then have "flow_ok ?F P rs (h # ds)"
    by (intro flow_final [where p = p]) (use assms in \<open>auto simp: co_ok_def active_def\<close>)
  ultimately show ?thesis using assms by (simp add: co_ok_def)
qed

lemma co_ok_destroy:
  assumes ok: "co_ok F P [] (h # ds)"
  obtains p where "F h = Some p" "distinct (filter (\<lambda>x. x \<noteq> None) (cf_own p))" "h \<notin> owned_coros (cf_own p)"
    "\<And>c. c \<in> owned_coros (cf_own p) \<Longrightarrow> \<exists>q. F c = Some q \<and> \<not> cf_launched q \<and> cf_own q = []"
    "co_ok (\<lambda>k. if k = h \<or> k \<in> owned_coros (cf_own p) then None else F k) P [] ds"
proof -
  obtain p where p: "F h = Some p" "cf_final p" using ok by (auto simp: co_ok_def flow_ok_def finals_ok_def)
  have f: "cf_own q = []" if "F k = Some q" "\<not> cf_launched q" for k q
    using ok that by (auto simp: co_ok_def flow_ok_def fresh_ok_def)
  have l: "cf_launched p" using ok p by (auto simp: co_ok_def flow_ok_def fresh_ok_def)
  have X: "\<exists>q. F c = Some q \<and> \<not> cf_launched q \<and> cf_own q = []" if "c \<in> owned_coros (cf_own p)" for c
  proof -
    have "owner_of (own_view F) h c" using that p by (auto simp: owner_of_def own_view_def)
    then have "unlaunched (own_view F) c" using ok by (auto simp: co_ok_def owners_ok_def)
    with f show ?thesis by (auto simp: unlaunched_def own_view_def)
  qed
  let ?F = "\<lambda>k. if k = h \<or> k \<in> owned_coros (cf_own p) then None else F k"
  have "own_view ?F = (\<lambda>k. if k = h \<or> k \<in> owned_coros (cf_own p) then None else own_view F k)"
    by (simp add: own_view_def fun_eq_iff)
  then have "owners_ok (own_view ?F)"
    using owners_destroyed [of "own_view F" h "cf_own p"] ok p l f by (fastforce simp: co_ok_def own_view_def)
  moreover have "flow_ok ?F P [] ds"
    by (rule flow_destroy) (use ok X in \<open>auto simp: co_ok_def\<close>)
  moreover have "distinct (filter (\<lambda>x. x \<noteq> None) (cf_own p))"
    using ok p by (fastforce simp: co_ok_def owners_ok_def own_view_def)
  moreover have "h \<notin> owned_coros (cf_own p)" using X p l by fastforce
  ultimately show ?thesis using that p X by (auto simp: co_ok_def)
qed

text \<open>\<^verbatim>\<open>await_resume\<close> of the running coroutine changes nothing: what it awaited destroys itself.\<close>

lemma await_resume_ok:
  assumes "machine_ok m [h] ds" and "coro_at m h = Some p"
  shows "co_await_resume p m = Inl Terminate \<or> (\<exists>x. co_await_resume p m = Inr (x, m))"
proof (cases "cf_wait p")
  case None then show ?thesis by (simp add: co_await_resume_def)
next
  case (Some ct)
  then obtain c t where w: "cf_wait p = Some (c, t)" by (cases ct) auto
  have "resumed_ok (coro_at m) (cm_pending m @ cm_held m) [h]"
    using assms(1) by (simp add: machine_ok_def co_ok_def flow_ok_def)
  from resumedD [OF this assms(2) _ w] obtain q where
    "coro_at m c = Some q" "cf_launched q" "cf_storage q \<noteq> Monostate" by auto
  then show ?thesis by (simp add: co_await_resume_def w split: storage.splits)
qed

lemma machine_okI:
  assumes "cm_stack m = map KRun rs @ map KDestroy ds" and "coro_at m = F" and "co_ok F P rs ds"
    and "mset P = mset (cm_pending m @ cm_held m)" and "num_ok m"
  shows "machine_ok m rs ds"
  using assms co_ok_perm [of F P rs ds] by (simp add: machine_ok_def)

lemma await_step_ok:
  assumes ok: "machine_ok m [h] ds" and h: "coro_at m h = Some p"
  shows "\<exists>m'. co_act_step h p (map KDestroy ds) (CoAwait s' s) m = Inr m' \<and> machine_ok m' [] ds"
proof -
  obtain c m1 where c: "co_call s' m = (c, m1)" by fastforce
  note n = co_call_new [OF c]
  have hc: "h < c" using n(3) h by blast
  let ?p = "p\<lparr>cf_state := s, cf_wait := Some (c, True)\<rparr>"
  let ?q = "(new_frame s')\<lparr>cf_launched := True, cf_prev := Some h\<rparr>"
  let ?m = "set_frame h (Some ?p) (m1\<lparr>cm_stack := map KDestroy ds\<rparr>)"
  have at: "coro_at ?m = (coro_at m)(c \<mapsto> new_frame s', h \<mapsto> ?p)" using n(2) h hc by simp
  have e: "co_act_step h p (map KDestroy ds) (CoAwait s' s) m = Inr (co_queue c (set_frame c (Some ?q) ?m))"
    using hc by (simp add: c await_suspend_def at)
  have "machine_ok (co_queue c (set_frame c (Some ?q) ?m)) [] ds"
  proof (rule machine_okI)
    show "co_ok ((coro_at m)(h \<mapsto> ?p, c \<mapsto> ?q)) (c # cm_pending m @ cm_held m) [] ds"
      by (rule co_ok_await) (use ok h n(1) hc in \<open>auto simp: machine_ok_def\<close>)
    show "coro_at (co_queue c (set_frame c (Some ?q) ?m)) = (coro_at m)(h \<mapsto> ?p, c \<mapsto> ?q)"
      using hc by (simp add: at fun_eq_iff)
    show "num_ok (co_queue c (set_frame c (Some ?q) ?m))"
      using ok n(2,7) h hc by (simp add: num_ok_set(1) at machine_ok_def)
  qed (use n in simp_all)
  with e show ?thesis by blast
qed

lemma spawn_step_ok:
  assumes ok: "machine_ok m [h] ds" and h: "coro_at m h = Some p"
  shows "\<exists>m'. co_act_step h p (map KDestroy ds) (CoSpawn s' handler s) m = Inr m' \<and> machine_ok m' [h] ds"
proof -
  obtain c m1 where c: "co_call s' m = (c, m1)" by fastforce
  note n = co_call_new [OF c]
  have hc: "h < c" using n(3) h by blast
  let ?p = "p\<lparr>cf_state := s, cf_wait := None\<rparr>"
  let ?q = "(new_frame s')\<lparr>cf_launched := True, cf_callback := handler\<rparr>"
  let ?m = "set_frame h (Some ?p) (m1\<lparr>cm_stack := KRun h # map KDestroy ds\<rparr>)"
  have at: "coro_at ?m = (coro_at m)(c \<mapsto> new_frame s', h \<mapsto> ?p)" using n(2) h hc by simp
  have e: "co_act_step h p (map KDestroy ds) (CoSpawn s' handler s) m = Inr (co_queue c (set_frame c (Some ?q) ?m))"
    using hc by (simp add: c ctx_spawn_def at)
  have "machine_ok (co_queue c (set_frame c (Some ?q) ?m)) [h] ds"
  proof (rule machine_okI)
    show "co_ok ((coro_at m)(h \<mapsto> ?p, c \<mapsto> ?q)) (c # cm_pending m @ cm_held m) [h] ds"
      by (intro co_ok_spawn co_ok_run) (use ok h n(1) hc in \<open>auto simp: machine_ok_def\<close>)
    show "coro_at (co_queue c (set_frame c (Some ?q) ?m)) = (coro_at m)(h \<mapsto> ?p, c \<mapsto> ?q)"
      using hc by (simp add: at fun_eq_iff)
    show "num_ok (co_queue c (set_frame c (Some ?q) ?m))"
      using ok n(2,7) h hc by (simp add: num_ok_set(1) at machine_ok_def)
  qed (use n in simp_all)
  with e show ?thesis by blast
qed

lemma create_step_ok:
  assumes ok: "machine_ok m [h] ds" and h: "coro_at m h = Some p"
  shows "\<exists>m'. co_act_step h p (map KDestroy ds) (CoCreate s' s) m = Inr m' \<and> machine_ok m' [h] ds"
proof -
  obtain c m1 where c: "co_call s' m = (c, m1)" by fastforce
  note n = co_call_new [OF c]
  have hc: "h < c" using n(3) h by blast
  let ?p = "p\<lparr>cf_state := s, cf_wait := None, cf_own := cf_own p @ [Some c]\<rparr>"
  let ?m = "set_frame h (Some ?p) (m1\<lparr>cm_stack := KRun h # map KDestroy ds\<rparr>)"
  have "machine_ok ?m [h] ds"
  proof (rule machine_okI)
    show "co_ok ((coro_at m)(h \<mapsto> ?p, c \<mapsto> new_frame s')) (cm_pending m @ cm_held m) [h] ds"
      by (rule co_ok_create) (use ok h n(1) in \<open>auto simp: machine_ok_def\<close>)
    show "coro_at ?m = (coro_at m)(h \<mapsto> ?p, c \<mapsto> new_frame s')" using n(2) h hc by (simp add: fun_eq_iff)
    show "num_ok ?m" using ok n(2,7) h hc by (simp add: num_ok_set(1) machine_ok_def)
  qed (use n in simp_all)
  then show ?thesis by (simp add: c)
qed

lemma yield_step_ok:
  assumes ok: "machine_ok m [h] ds" and h: "coro_at m h = Some p" and a: "a = CoYield s \<or> a = CoSuspend s"
  shows "\<exists>m'. co_act_step h p (map KDestroy ds) a m = Inr m' \<and> machine_ok m' [] ds"
proof -
  let ?p = "p\<lparr>cf_state := s, cf_wait := None\<rparr>"
  let ?F = "(coro_at m)(h \<mapsto> ?p)" and ?P = "cm_pending m @ cm_held m"
  have "co_ok ?F ?P [h] ds" by (rule co_ok_run) (use ok h in \<open>auto simp: machine_ok_def\<close>)
  moreover then have "flow_ok ?F (h # ?P) [] ds" by (intro flow_suspend [where p = ?p]) (auto simp: co_ok_def)
  ultimately have c: "co_ok ?F (h # ?P) [] ds" by (simp add: co_ok_def)
  show ?thesis using a
  proof
    assume "a = CoYield s"
    moreover have "machine_ok (co_queue h (set_frame h (Some ?p) (m\<lparr>cm_stack := map KDestroy ds\<rparr>))) [] ds"
      by (rule machine_okI [OF _ _ c]) (use ok h in \<open>auto simp: num_ok_set(1) machine_ok_def\<close>)
    ultimately show ?thesis by simp
  next
    assume "a = CoSuspend s"
    moreover have "machine_ok (set_frame h (Some ?p) (m\<lparr>cm_stack := map KDestroy ds, cm_held := cm_held m @ [h]\<rparr>)) [] ds"
      by (rule machine_okI [OF _ _ c]) (use ok h in \<open>auto simp: num_ok_set(1) machine_ok_def\<close>)
    ultimately show ?thesis by simp
  qed
qed

lemma final_step_ok:
  assumes ok: "machine_ok m [h] ds" and h: "coro_at m h = Some p" and r: "r \<noteq> Monostate"
  shows "\<exists>rs. machine_ok (co_final h p r (map KDestroy ds) m) rs (h # ds)"
proof -
  let ?p = "p\<lparr>cf_storage := r, cf_final := True\<rparr>"
  let ?rs = "case cf_prev p of None \<Rightarrow> [] | Some j \<Rightarrow> [j]"
  have c: "co_ok ((coro_at m)(h \<mapsto> ?p)) (cm_pending m @ cm_held m) ?rs (h # ds)"
    by (rule co_ok_final) (use ok h r in \<open>auto simp: machine_ok_def\<close>)
  have "machine_ok (co_final h p r (map KDestroy ds) m) ?rs (h # ds)"
    by (rule machine_okI [OF _ _ c])
      (use ok h in \<open>auto simp: co_final_def Let_def num_ok_set(1) machine_ok_def split: option.splits\<close>)
  then show ?thesis by blast
qed

lemma spawn_own_step_ok:
  assumes ok: "machine_ok m [h] ds" and h: "coro_at m h = Some p" and k: "own_coro k p = Some c"
  shows "\<exists>m'. co_act_step h p (map KDestroy ds) (CoSpawnOwn k handler s) m = Inr m' \<and> machine_ok m' [h] ds"
proof -
  let ?P = "cm_pending m @ cm_held m"
  obtain q where q: "coro_at m c = Some q" "c \<noteq> h"
    "\<And>s cb. co_ok ((coro_at m)(h \<mapsto> p\<lparr>cf_state := s, cf_wait := None, cf_own := (cf_own p)[k := None]\<rparr>,
               c \<mapsto> q\<lparr>cf_launched := True, cf_callback := cb\<rparr>)) (c # ?P) [h] ds"
    using co_ok_spawn_own [of "coro_at m" ?P h ds p k c] ok h k unfolding machine_ok_def by blast
  let ?p = "p\<lparr>cf_state := s, cf_wait := None, cf_own := (cf_own p)[k := None]\<rparr>"
  let ?q = "q\<lparr>cf_launched := True, cf_callback := (if handler = None then cf_callback q else handler)\<rparr>"
  let ?m = "set_frame h (Some ?p) (m\<lparr>cm_stack := KRun h # map KDestroy ds\<rparr>)"
  have at: "coro_at ?m = (coro_at m)(h \<mapsto> ?p)" using h by simp
  have e: "co_act_step h p (map KDestroy ds) (CoSpawnOwn k handler s) m = Inr (co_queue c (set_frame c (Some ?q) ?m))"
    using q(1,2) by (simp add: k ctx_spawn_def at)
  have "machine_ok (co_queue c (set_frame c (Some ?q) ?m)) [h] ds"
  proof (rule machine_okI)
    show "co_ok ((coro_at m)(h \<mapsto> ?p, c \<mapsto> ?q)) (c # ?P) [h] ds" by (rule q(3))
    show "coro_at (co_queue c (set_frame c (Some ?q) ?m)) = (coro_at m)(h \<mapsto> ?p, c \<mapsto> ?q)"
      using q(1,2) by (simp add: at)
    show "num_ok (co_queue c (set_frame c (Some ?q) ?m))"
      using ok q(1,2) h by (simp add: num_ok_set(1) at machine_ok_def)
  qed simp_all
  with e show ?thesis by blast
qed

lemma act_step_ok:
  assumes ok: "machine_ok m [h] ds" and h: "coro_at m h = Some p" and a: "\<And>k s. a \<noteq> CoAwaitOwn k s"
  shows "co_act_step h p (map KDestroy ds) a m = Inl NullHandle
     \<or> (\<exists>m' rs' ds'. co_act_step h p (map KDestroy ds) a m = Inr m' \<and> machine_ok m' rs' ds')"
proof (cases a)
  case (CoAwait s' s) then show ?thesis using await_step_ok [OF ok h] by blast
next
  case (CoSpawn s' handler s) then show ?thesis using spawn_step_ok [OF ok h] by blast
next
  case (CoYield s) then show ?thesis using yield_step_ok [OF ok h] by blast
next
  case (CoSuspend s) then show ?thesis using yield_step_ok [OF ok h] by blast
next
  case (CoReturn v) then show ?thesis using final_step_ok [OF ok h, of "Value v"] by auto
next
  case (CoThrow e) then show ?thesis using final_step_ok [OF ok h, of "Exn e"] by auto
next
  case (CoCreate s' s) then show ?thesis using create_step_ok [OF ok h] by blast
next
  case (CoSpawnOwn k handler s)
  show ?thesis
  proof (cases "own_coro k p")
    case None then show ?thesis using CoSpawnOwn by simp
  next
    case (Some c) then show ?thesis using spawn_own_step_ok [OF ok h Some] CoSpawnOwn by blast
  qed
qed (use a in simp)

lemma destroy_ok:
  assumes ok: "machine_ok m [] (h # ds)"
  shows "\<exists>m'. co_destroy h (map KDestroy ds) m = Inr m' \<and> machine_ok m' [] ds"
proof -
  let ?P = "cm_pending m @ cm_held m"
  have "co_ok (coro_at m) ?P [] (h # ds)" using ok by (simp add: machine_ok_def)
  then obtain p where p: "coro_at m h = Some p" "distinct (filter (\<lambda>x. x \<noteq> None) (cf_own p))" "h \<notin> owned_coros (cf_own p)"
    "\<And>c. c \<in> owned_coros (cf_own p) \<Longrightarrow> \<exists>q. coro_at m c = Some q \<and> \<not> cf_launched q \<and> cf_own q = []"
    "co_ok (\<lambda>k. if k = h \<or> k \<in> owned_coros (cf_own p) then None else coro_at m k) ?P [] ds"
    by (rule co_ok_destroy) blast
  let ?m = "set_frame h None (m\<lparr>cm_num := cm_num m - 1, cm_stack := map KDestroy ds\<rparr>)"
  have at: "coro_at ?m = (coro_at m)(h := None)" using p(1) by simp
  have e: "?m = (set_frame h None m\<lparr>cm_num := cm_num m - 1\<rparr>)\<lparr>cm_stack := map KDestroy ds\<rparr>"
    by (simp add: set_frame_def)
  have "num_ok ?m" unfolding e using num_ok_set(2) [of m h] p(1) ok by (simp add: machine_ok_def)
  then have "\<exists>m'. coro_dtors (cf_own p) ?m = Inr m' \<and> coro_at m' = (\<lambda>k. if k \<in> owned_coros (cf_own p) then None else coro_at ?m k)
     \<and> cm_pending m' = cm_pending ?m \<and> cm_held m' = cm_held ?m \<and> cm_stack m' = cm_stack ?m \<and> num_ok m'"
    by (intro coro_dtors_fresh [OF p(2)]) (use p(3,4) at in auto)
  then obtain m' where m': "coro_dtors (cf_own p) ?m = Inr m'"
    "coro_at m' = (\<lambda>k. if k \<in> owned_coros (cf_own p) then None else coro_at ?m k)"
    "cm_pending m' = cm_pending m" "cm_held m' = cm_held m" "cm_stack m' = map KDestroy ds" "num_ok m'" by auto
  have "machine_ok m' [] ds"
    by (rule machine_okI [OF _ _ p(5)]) (use m' at in \<open>auto simp: fun_eq_iff\<close>)
  with m'(1) p(1) show ?thesis by (auto simp: co_destroy_def)
qed

text \<open>Every step of the machine, and everything that happens from the outside.\<close>

definition well_behaved :: "('v, 'e, 's, 'h) co_prog \<Rightarrow> bool" where
  "well_behaved prog \<longleftrightarrow> (\<forall>s x k s'. prog s x \<noteq> CoAwaitOwn k s')"

lemma co_step_ok:
  assumes w: "well_behaved prog" and ok: "machine_ok m rs ds"
  shows "co_step prog m \<noteq> Inl UseAfterFree
    \<and> (\<forall>m'. co_step prog m = Inr m' \<longrightarrow> (\<exists>rs' ds'. machine_ok m' rs' ds'))"
proof (cases rs)
  case (Cons h rs')
  have "rs' = []" using ok Cons by (simp add: machine_ok_def co_ok_def flow_ok_def)
  with Cons ok have ok: "machine_ok m [h] ds" and st: "cm_stack m = KRun h # map KDestroy ds" by (simp_all add: machine_ok_def)
  have "tokens_ok (coro_at m) (cm_pending m @ cm_held m) [h]" using ok by (simp add: machine_ok_def co_ok_def flow_ok_def)
  then obtain p where p: "coro_at m h = Some p" "\<not> cf_final p" by (auto simp: tokens_ok_def active_def)
  show ?thesis
  proof (cases "co_await_resume p m = Inl Terminate")
    case True then show ?thesis using p by (simp add: co_step_def st)
  next
    case False
    then obtain x where x: "co_await_resume p m = Inr (x, m)" using await_resume_ok [OF ok p(1)] by blast
    have "co_step prog m = co_act_step h p (map KDestroy ds) (prog (cf_state p) x) m"
      using p by (simp add: co_step_def st x)
    moreover have "\<And>k s. prog (cf_state p) x \<noteq> CoAwaitOwn k s" using w by (simp add: well_behaved_def)
    from act_step_ok [OF ok p(1) this]
    have "co_act_step h p (map KDestroy ds) (prog (cf_state p) x) m = Inl NullHandle
       \<or> (\<exists>m' rs' ds'. co_act_step h p (map KDestroy ds) (prog (cf_state p) x) m = Inr m' \<and> machine_ok m' rs' ds')" .
    ultimately show ?thesis by (metis Inl_Inr_False co_fault.distinct(4) old.sum.inject)
  qed
next
  case rs: Nil
  show ?thesis
  proof (cases ds)
    case (Cons h ds')
    then have st: "cm_stack m = KDestroy h # map KDestroy ds'" using ok rs by (simp add: machine_ok_def)
    obtain m' where "co_destroy h (map KDestroy ds') m = Inr m'" "machine_ok m' [] ds'"
      using destroy_ok ok rs Cons by blast
    then show ?thesis using st by (auto simp: co_step_def)
  next
    case Nil
    then have st: "cm_stack m = []" using ok rs by (simp add: machine_ok_def)
    show ?thesis
    proof (cases "cm_pending m")
      case p: Nil then show ?thesis using ok by (auto simp: co_step_def st)
    next
      case p: (Cons h hs)
      have "flow_ok (coro_at m) (hs @ cm_held m) [h] ds"
        by (rule flow_pop) (use ok rs p in \<open>simp add: machine_ok_def co_ok_def\<close>)
      then have "machine_ok (m\<lparr>cm_pending := hs, cm_stack := [KRun h]\<rparr>) [h] ds"
        using ok Nil by (simp add: machine_ok_def co_ok_def)
      then show ?thesis using st p by (auto simp: co_step_def)
    qed
  qed
qed

lemma co_any_ok:
  assumes w: "well_behaved prog" and "co_any prog m m'" and ok: "machine_ok m rs ds"
  shows "\<exists>rs' ds'. machine_ok m' rs' ds'"
  using assms(2)
proof cases
  case own then show ?thesis using co_step_ok [OF w ok] by blast
next
  case (release h)
  have "machine_ok m' rs ds"
    unfolding release(1)
  proof (rule machine_okI)
    show "co_ok (coro_at m) (cm_pending m @ cm_held m) rs ds" using ok by (simp add: machine_ok_def)
  qed (use ok release(2) in \<open>auto simp: machine_ok_def\<close>)
  then show ?thesis by blast
next
  case (resume h ds')
  have rs: "rs = []" "ds = ds'" using ok resume(3) by (cases rs; cases ds'; auto simp: machine_ok_def inj_map_eq_map inj_def)+
  have "co_ok (coro_at m) (h # cm_pending m @ remove1 h (cm_held m)) [] ds"
    by (rule co_ok_perm [where P = "cm_pending m @ cm_held m"]) (use ok rs resume(2) in \<open>auto simp: machine_ok_def\<close>)
  then have c: "co_ok (coro_at m) (cm_pending m @ remove1 h (cm_held m)) [h] ds" by (simp add: co_ok_def flow_pop)
  have "machine_ok m' [h] ds"
    unfolding resume(1) by (rule machine_okI [OF _ _ c]) (use ok rs resume(3) in \<open>auto simp: machine_ok_def\<close>)
  then show ?thesis by blast
next
  case (spawn s handler)
  obtain c m1 where c: "co_call s m = (c, m1)" by fastforce
  note n = co_call_new [OF c]
  let ?q = "(new_frame s)\<lparr>cf_launched := True, cf_callback := handler\<rparr>"
  have m': "m' = co_queue c (set_frame c (Some ?q) m1)" using spawn n by (cases handler) (simp_all add: c ctx_spawn_def)
  have "machine_ok m' rs ds"
    unfolding m'
  proof (rule machine_okI)
    show "co_ok ((coro_at m)(c \<mapsto> ?q)) (c # cm_pending m @ cm_held m) rs ds"
      by (rule co_ok_spawn) (use ok n(1) in \<open>auto simp: machine_ok_def\<close>)
    show "num_ok (co_queue c (set_frame c (Some ?q) m1))" using n(2,7) ok by (simp add: num_ok_set(1) machine_ok_def)
  qed (use n ok in \<open>simp_all add: machine_ok_def\<close>)
  then show ?thesis by blast
qed

lemma machine_new_ok: "machine_ok machine_new [] []"
  by (simp add: machine_ok_def machine_new_def co_ok_def flow_defs owners_ok_def owner_of_def unlaunched_def
      own_view_def coro_at_def num_ok_def live_frames_def)

interpretation cl: transition_system "\<lambda>m. m = machine_new" "co_any prog"
    "\<lambda>m. well_behaved prog \<longrightarrow> (\<exists>rs ds. machine_ok m rs ds)" for prog
  using machine_new_ok co_any_ok by unfold_locales blast+

lemma co_reachable_ok:
  assumes "well_behaved prog" and "(co_any prog)\<^sup>*\<^sup>* machine_new m"
  shows "\<exists>rs ds. machine_ok m rs ds"
  using cl.reachable_inv [OF refl assms(2)] assms(1) by blast

subsection \<open>Properties\<close>

text \<open>
  Property C1: no coroutine frame is used after it was destroyed, and \<^verbatim>\<open>CoroNum\<close> counts the frames that
  exist. Whatever the bodies do, as long as none awaits a \<^verbatim>\<open>Coro\<close> object that outlives the
  \<^verbatim>\<open>co_await\<close>, and whenever coroutines are spawned or handles that were given away are resumed, no
  step reads a destroyed promise, resumes a destroyed frame or destroys one twice.
\<close>

theorem coro_memory_safe:
  assumes "well_behaved prog" and "(co_any prog)\<^sup>*\<^sup>* machine_new m"
  shows "co_step prog m \<noteq> Inl UseAfterFree \<and> cm_num m = of_nat (live_frames m)"
proof -
  obtain rs ds where ok: "machine_ok m rs ds" using co_reachable_ok [OF assms] by blast
  then show ?thesis using co_step_ok [OF assms(1) ok] by (simp add: machine_ok_def num_ok_def)
qed

text \<open>
  A program used in the examples: coroutine 0 awaits coroutine 1, which yields and returns 5; coroutine
  3 throws; coroutine 4 awaits it.
\<close>

definition example_prog :: "(nat, nat, nat \<times> nat, nat) co_prog" where
  "example_prog s x =
     (if s = (0, 0) then CoAwait (1, 0) (0, 1)
      else if s = (1, 0) then CoYield (1, 1)
      else if s = (1, 1) then CoReturn 5
      else if s = (3, 0) then CoThrow 404
      else if s = (4, 0) then CoAwait (3, 0) (4, 1)
      else CoReturn (case x of None \<Rightarrow> 0 | Some v \<Rightarrow> v + 1))"

fun co_run ::
  "('v, 'e, 's, 'h) co_prog \<Rightarrow> nat \<Rightarrow> ('v, 'e, 's, 'h) co_machine \<Rightarrow> co_fault + ('v, 'e, 's, 'h) co_machine" where
  "co_run prog 0 m = Inr m"
| "co_run prog (Suc n) m = (case co_step prog m of Inl f \<Rightarrow> Inl f | Inr m' \<Rightarrow> co_run prog n m')"

lemma co_run_reachable: "co_run prog n m = Inr m' \<Longrightarrow> (co_any prog)\<^sup>*\<^sup>* m m'"
proof (induction n arbitrary: m)
  case (Suc n)
  then obtain m1 where "co_step prog m = Inr m1" "co_run prog n m1 = Inr m'" by (auto split: sum.splits)
  then show ?case using Suc.IH co_any.own by (metis converse_rtranclp_into_rtranclp)
qed simp

definition co_spawned :: "'s \<Rightarrow> 'h \<Rightarrow> ('v, 'e, 's, 'h) co_machine" where
  "co_spawned s handler =
     machine_new\<lparr>cm_frames := [Some ((new_frame s)\<lparr>cf_launched := True, cf_callback := Some handler\<rparr>)],
       cm_pending := [0], cm_num := 1\<rparr>"

lemma example_well_behaved: "well_behaved example_prog"
  by (simp add: well_behaved_def example_prog_def)

lemma co_spawned_reachable: "(co_any prog)\<^sup>*\<^sup>* machine_new (co_spawned s handler)"
proof (rule r_into_rtranclp, rule co_any.spawn)
  show "ctx_spawn (fst (co_call s machine_new)) (Some handler) (snd (co_call s machine_new)) = Inr (co_spawned s handler)"
    by (simp add: co_spawned_def co_call_def new_frame_def ctx_spawn_def coro_at_def machine_new_def set_frame_def co_queue_def)
qed

lemma coro_memory_safe_witness:
  "co_step example_prog (co_spawned (0, 0) 7) \<noteq> Inl UseAfterFree
     \<and> cm_num (co_spawned (0, 0) 7 :: (nat, nat, nat \<times> nat, nat) co_machine) = 1"
  using coro_memory_safe [OF example_well_behaved co_spawned_reachable [of example_prog "(0, 0)" 7]]
  by (simp add: live_frames_def co_spawned_def)

text \<open>
  Property C6: no coroutine is forgotten. When the context has nothing left to run and nobody holds a
  handle, every frame has been destroyed: each coroutine has ended, has resumed its awaiter or been
  handed to its completion handler, and \<^verbatim>\<open>CoroNum\<close> is 0 again.
\<close>

theorem coro_none_forgotten:
  assumes "well_behaved prog" and "(co_any prog)\<^sup>*\<^sup>* machine_new m"
    and "cm_stack m = []" and "cm_pending m = []" and "cm_held m = []"
  shows "cm_num m = 0 \<and> (\<forall>h. coro_at m h = None)"
proof -
  obtain rs ds where ok: "machine_ok m rs ds" using co_reachable_ok [OF assms(1,2)] by blast
  then have e: "rs = []" "ds = []" using assms(3) by (simp_all add: machine_ok_def)
  then have ok': "co_ok (coro_at m) [] [] []" using ok assms(4,5) by (simp add: machine_ok_def)
  have none: "coro_at m h = None \<or> \<not> cf_launched (the (coro_at m h))" for h
  proof (induction "length (cm_frames m) - h" arbitrary: h rule: less_induct)
    case less
    show ?case
    proof (rule ccontr)
      assume a: "\<not> ?case"
      then obtain p where p: "coro_at m h = Some p" "cf_launched p" by auto
      then have "active p" using ok' by (auto simp: co_ok_def flow_ok_def finals_ok_def active_def)
      have "waits_ok (coro_at m) [] []" using ok' by (simp add: co_ok_def flow_ok_def)
      then obtain c q where c: "h < c" "coro_at m c = Some q" "active q"
        by (rule waitsD [of "coro_at m" "[]" "[]" h p]) (use p \<open>active p\<close> in simp_all)
      have "c < length (cm_frames m)" using c(2) by (simp add: coro_at_def split: if_splits)
      with c have "length (cm_frames m) - c < length (cm_frames m) - h" by linarith
      with c less [of c] show False by (auto simp: active_def)
    qed
  qed
  have all: "coro_at m h = None" for h
  proof (rule ccontr)
    assume "coro_at m h \<noteq> None"
    with none [of h] have "unlaunched (own_view (coro_at m)) h" by (auto simp: unlaunched_def own_view_def)
    then obtain k where "owner_of (own_view (coro_at m)) k h" using ok' by (auto simp: co_ok_def owners_ok_def)
    then obtain p where "coro_at m k = Some p" "cf_own p \<noteq> []"
      by (force simp: owner_of_def own_view_def)
    then show False using none [of k] ok' by (auto simp: co_ok_def flow_ok_def fresh_ok_def)
  qed
  then have "\<forall>x\<in>set (cm_frames m). x = None" by (metis coro_at_def in_set_conv_nth)
  then have "live_frames m = 0" by (simp add: live_frames_def filter_empty_conv)
  then show ?thesis using ok all by (simp add: machine_ok_def num_ok_def)
qed

definition example_end :: "(nat, nat, nat \<times> nat, nat) co_machine" where
  "example_end = \<lparr>cm_frames = [None, None], cm_pending = [], cm_held = [], cm_stack = [], cm_num = 0,
     cm_done = [(7, Value 6)]\<rparr>"

lemma example_run: "co_run example_prog 9 (co_spawned (0, 0) 7) = Inr example_end"
  by code_simp

lemma coro_none_forgotten_witness:
  "cm_num example_end = 0 \<and> (\<forall>h. coro_at example_end h = None)"
  using coro_none_forgotten [OF example_well_behaved
      rtranclp_trans [OF co_spawned_reachable co_run_reachable [OF example_run]]]
  by (simp add: example_end_def)

text \<open>
  Property C40: an exception that reaches an awaiting coroutine ends the process. When a coroutine that
  another one awaits throws, the very next step after its final suspension is the rethrow in
  \<^verbatim>\<open>Awaitable::await_resume\<close>, which is \<^verbatim>\<open>noexcept\<close>; the awaiting coroutine has no chance to catch it.
\<close>

theorem awaited_exception_terminates:
  assumes "well_behaved prog" and "(co_any prog)\<^sup>*\<^sup>* machine_new m"
    and "cm_stack m = KRun c # ks" and "coro_at m c = Some p" and "cf_prev p = Some h"
    and "co_await_resume p m = Inr (x, m)" and "prog (cf_state p) x = CoThrow e"
  shows "\<exists>m'. co_step prog m = Inr m' \<and> co_step prog m' = Inl Terminate"
proof -
  obtain rs ds where ok: "machine_ok m rs ds" using co_reachable_ok [OF assms(1,2)] by blast
  then have c: "c \<in> set rs" using assms(3) by (cases rs; cases ds) (auto simp: machine_ok_def)
  have fl: "flow_ok (coro_at m) (cm_pending m @ cm_held m) rs ds" using ok by (simp add: machine_ok_def co_ok_def)
  then have a: "active p" using tokenD c assms(4) by (metis flow_okD(2))
  obtain q where q: "h \<notin> set rs" "coro_at m h = Some q" "active q" "cf_wait q = Some (c, True)"
    using prevsD [OF flow_okD(7) [OF fl] assms(4) a assms(5)] by blast
  have ne: "h \<noteq> c" using q(1) c by blast
  let ?m = "set_frame c (Some (p\<lparr>cf_storage := Exn e, cf_final := True\<rparr>)) m\<lparr>cm_stack := KRun h # KDestroy c # ks\<rparr>"
  have "co_step prog m = Inr ?m"
    using assms a by (simp add: co_step_def co_final_def active_def)
  moreover have "co_step prog ?m = Inl Terminate"
    using q ne assms(4) by (simp add: co_step_def co_await_resume_def active_def)
  ultimately show ?thesis by blast
qed

definition example_throwing :: "(nat, nat, nat \<times> nat, nat) co_machine" where
  "example_throwing = (case co_run example_prog 3 (co_spawned (4, 0) 7) of Inr m \<Rightarrow> m | Inl _ \<Rightarrow> machine_new)"

lemma example_throws: "co_run example_prog 3 (co_spawned (4, 0) 7) = Inr example_throwing"
  unfolding example_throwing_def by code_simp

lemma awaited_exception_terminates_witness:
  "\<exists>m'. co_step example_prog example_throwing = Inr m' \<and> co_step example_prog m' = Inl Terminate"
proof (rule awaited_exception_terminates [where c = 1 and h = 0 and e = 404 and x = None and ks = "[]"
    and p = "the (coro_at example_throwing 1)"])
  show "(co_any example_prog)\<^sup>*\<^sup>* machine_new example_throwing"
    by (rule rtranclp_trans [OF co_spawned_reachable co_run_reachable [OF example_throws]])
qed ((rule example_well_behaved) | code_simp)+

text \<open>
  Property C39: a coroutine that keeps two \<^verbatim>\<open>Coro\<close> objects and awaits them in turn reads freed memory,
  as \<^verbatim>\<open>series\<close> does with its parameters (it awaits each through one more coroutine). Each destroys its
  own frame at its final suspension, and when the coroutine that keeps them is destroyed, the destructor
  of the first object reads \<^verbatim>\<open>is_launched\<close> in a promise that is gone. This is what the condition of the
  memory safety excludes.
\<close>

theorem series_reads_freed_frame:
  assumes "\<And>x. prog s x = CoCreate a s1" and "\<And>x. prog s1 x = CoCreate b s2"
    and "\<And>x. prog s2 x = CoAwaitOwn 0 s3" and "prog s3 (Some v) = CoAwaitOwn 1 s4"
    and "prog s4 (Some w) = CoReturn r" and "\<And>x. prog a x = CoReturn v" and "\<And>x. prog b x = CoReturn w"
  shows "co_run prog 12 (co_spawned s handler) = Inl UseAfterFree"
  using assms
  by (simp add: eval_nat_numeral co_step_def co_spawned_def machine_new_def new_frame_def coro_at_def co_await_resume_def
      co_call_def set_frame_def own_coro_def await_suspend_def co_queue_def co_final_def co_destroy_def Let_def)

definition series_prog :: "(nat, nat, nat, nat) co_prog" where
  "series_prog s x = (if s = 0 then CoCreate 5 1 else if s = 1 then CoCreate 6 2 else if s = 2 then CoAwaitOwn 0 3
     else if s = 3 then CoAwaitOwn 1 4 else CoReturn s)"

lemma series_reads_freed_frame_witness: "co_run series_prog 12 (co_spawned 0 7) = Inl UseAfterFree"
  by (rule series_reads_freed_frame [where ?s1.0 = 1 and ?s2.0 = 2 and ?s3.0 = 3 and ?s4.0 = 4 and a = 5 and b = 6
      and v = 5 and w = 6 and r = 4]) (simp_all add: series_prog_def)

text \<open>
  \<^verbatim>\<open>this_context::spawn(coro, use_coro)\<close> keeps one \<^verbatim>\<open>Coro\<close>, too, and awaits it. It is safe: it ends, and is
  destroyed, while the awaited coroutine is still inside its final suspension, so that the parameter's
  destructor finds the promise. The caller makes the coroutine for the parameter, which the first action here is.
\<close>

datatype 's use_state = UseCoro 's | UseAwait | UseReturn | Body 's

definition use_coro :: "('v, 'e, 's, 'h) co_prog \<Rightarrow> ('v, 'e, 's use_state, 'h) co_prog" where
  "use_coro prog s x =
     (case s of
        UseCoro s' \<Rightarrow> CoCreate (Body s') UseAwait
      | UseAwait \<Rightarrow> CoAwaitOwn 0 UseReturn
      | UseReturn \<Rightarrow> CoReturn (the x)
      | Body s' \<Rightarrow> map_co_act id id Body id (prog s' x))"

lemma use_coro_hands_on_the_value:
  assumes "prog s None = CoReturn v"
  shows "\<exists>m. co_run (use_coro prog) 8 (co_spawned (UseCoro s) handler) = Inr m
     \<and> cm_done m = [(handler, Value v)] \<and> cm_frames m = [None, None] \<and> cm_num m = 0 \<and> cm_stack m = []"
  using assms
  by (simp add: eval_nat_numeral use_coro_def co_step_def co_spawned_def machine_new_def new_frame_def coro_at_def
      co_await_resume_def co_call_def set_frame_def own_coro_def await_suspend_def co_queue_def co_final_def co_destroy_def
      Let_def)

end
