(* ===== verification/Coro_Join.thy ===== *)
theory Coro_Join
  imports Type_Traits
begin

section \<open>Joining coroutines (core/impl/coro.hpp)\<close>

text \<open>
  \<^verbatim>\<open>join\<close> spawns its arguments with completion handlers that share a counter and refer to two
  variables of its frame, the exception and the tuple of results; a handler resumes \<^verbatim>\<open>join\<close> when the
  last coroutine has ended or as soon as one has failed. Resumed, \<^verbatim>\<open>join\<close> runs to its end and its frame
  is gone, so that a handler that runs later must not touch these variables: an access then is the
  result \<open>None\<close>. \<^verbatim>\<open>series\<close> awaits its arguments in turn; \<^verbatim>\<open>select\<close> is resumed by the first that ends.
\<close>

record ('v, 'e) join_state =
  jn_count :: size_t
  jn_eptr :: "'e option"
  jn_result :: "'v list"
  jn_alive :: bool
  jn_resumed :: nat

definition join_new :: "'k cpp_type list \<Rightarrow> 'v list \<Rightarrow> ('v, 'e) join_state" where
  "join_new ts defaults =
     \<lparr>jn_count = of_nat (length ts), jn_eptr = None, jn_result = defaults, jn_alive = True, jn_resumed = 0\<rparr>"

text \<open>\<^verbatim>\<open>h.resume()\<close>.\<close>

definition join_resume :: "('v, 'e) join_state \<Rightarrow> ('v, 'e) join_state" where
  "join_resume j = j\<lparr>jn_alive := False, jn_resumed := jn_resumed j + 1\<rparr>"

text \<open>
  The handler of the coroutine whose result goes to the place \<open>idx\<close>, called with an exception
  (\<open>Inl\<close>) or with a value (a unit for a \<^verbatim>\<open>void\<close> coroutine, which is not stored).
\<close>

definition join_callback :: "size_t \<Rightarrow> 'e + 'v \<Rightarrow> ('v, 'e) join_state \<Rightarrow> ('v, 'e) join_state option" where
  "join_callback idx r j =
     (if jn_count j = 0 then Some j
      else let j = j\<lparr>jn_count := jn_count j - 1\<rparr>
           in case r of
                Inl e \<Rightarrow> if jn_alive j then Some (join_resume (j\<lparr>jn_eptr := Some e, jn_count := 0\<rparr>)) else None
              | Inr v \<Rightarrow>
                  if idx \<noteq> - 1 \<and> \<not> jn_alive j then None
                  else let j = (if idx \<noteq> - 1 then j\<lparr>jn_result := (jn_result j)[unat idx := v]\<rparr> else j)
                       in Some (if jn_count j = 0 then join_resume j else j))"

text \<open>The coroutines end in some order: the position of each, and how it ended.\<close>

fun join_run ::
  "'k cpp_type list \<Rightarrow> (nat \<times> ('e + 'v)) list \<Rightarrow> ('v, 'e) join_state \<Rightarrow> ('v, 'e) join_state option" where
  "join_run ts [] j = Some j"
| "join_run ts ((i, r) # evs) j =
     (case join_callback (non_void_place_sequence ts ! i) r j of None \<Rightarrow> None | Some j' \<Rightarrow> join_run ts evs j')"

text \<open>What \<^verbatim>\<open>join\<close> does when it is resumed: rethrow or return.\<close>

definition join_outcome :: "('v, 'e) join_state \<Rightarrow> 'e + 'v list" where
  "join_outcome j = (case jn_eptr j of Some e \<Rightarrow> Inl e | None \<Rightarrow> Inr (jn_result j))"

subsection \<open>The state after some of the coroutines have ended\<close>

fun first_error :: "(nat \<times> ('e + 'v)) list \<Rightarrow> 'e option" where
  "first_error [] = None"
| "first_error ((i, Inl e) # evs) = Some e"
| "first_error ((i, Inr v) # evs) = first_error evs"

lemma first_error_snoc [simp]:
  "first_error (evs @ [(i, Inl e)]) = (case first_error evs of None \<Rightarrow> Some e | Some e' \<Rightarrow> Some e')"
  "first_error (evs @ [(i, Inr v)]) = first_error evs"
  by (induction evs rule: first_error.induct) simp_all

lemma join_run_snoc:
  "join_run ts (evs @ [(i, r)]) j =
     (case join_run ts evs j of None \<Rightarrow> None | Some j' \<Rightarrow> join_callback (non_void_place_sequence ts ! i) r j')"
  by (induction ts evs j rule: join_run.induct) (simp_all split: option.splits)

definition join_ok :: "'k cpp_type list \<Rightarrow> (nat \<times> ('e + 'v)) list \<Rightarrow> ('v, 'e) join_state \<Rightarrow> bool" where
  "join_ok ts evs j \<longleftrightarrow> length (jn_result j) = length (remove_void_tuple ts) \<and>
     (case first_error evs of
        Some e \<Rightarrow> jn_count j = 0 \<and> jn_eptr j = Some e \<and> jn_resumed j = 1 \<and> \<not> jn_alive j
      | None \<Rightarrow> jn_count j = of_nat (length ts - length evs) \<and> jn_eptr j = None
          \<and> jn_alive j = (length evs < length ts) \<and> jn_resumed j = of_bool (length evs = length ts)
          \<and> (\<forall>i v. (i, Inr v) \<in> set evs \<longrightarrow> ts ! i \<noteq> Void \<longrightarrow>
               jn_result j ! unat (non_void_place_sequence ts ! i) = v))"

definition ended_once :: "'k cpp_type list \<Rightarrow> (nat \<times> ('e + 'v)) list \<Rightarrow> bool" where
  "ended_once ts evs \<longleftrightarrow> distinct (map fst evs) \<and> (\<forall>i\<in>set (map fst evs). i < length ts)"

lemma ended_once_snoc:
  assumes "ended_once ts (evs @ [(i, r)])"
  shows "ended_once ts evs" "i < length ts" "\<forall>r. (i, r) \<notin> set evs" "length evs < length ts"
proof -
  show "ended_once ts evs" "i < length ts" "\<forall>r. (i, r) \<notin> set evs" using assms by (force simp: ended_once_def)+
  have "set (map fst (evs @ [(i, r)])) \<subseteq> {..<length ts}" using assms by (auto simp: ended_once_def)
  then have "length (map fst (evs @ [(i, r)])) \<le> card {..<length ts}"
    using assms by (metis ended_once_def distinct_card card_mono finite_lessThan)
  then show "length evs < length ts" by simp
qed

text \<open>Different coroutines write different components.\<close>

lemma places_differ:
  assumes len: "length ts < 2 ^ 64 - 1" and "i < length ts" "j < length ts" "i \<noteq> j" "ts ! i \<noteq> Void" "ts ! j \<noteq> Void"
  shows "unat (non_void_place_sequence ts ! i) \<noteq> unat (non_void_place_sequence ts ! j)"
proof -
  obtain k l where k: "ts ! i = Ty k" and l: "ts ! j = Ty l" using assms(5,6) by (cases "ts ! i"; cases "ts ! j") auto
  show ?thesis
    using place_nth(2) [OF len assms(2) k] place_nth(2) [OF len assms(3) l] filter_take_less [of i j ts is_ty]
      filter_take_less [of j i ts is_ty] assms by (cases i j rule: linorder_cases) (simp_all add: is_ty_def)
qed

lemma place_bound:
  assumes len: "length ts < 2 ^ 64 - 1" and i: "i < length ts" and "ts ! i \<noteq> Void"
  shows "unat (non_void_place_sequence ts ! i) < length (remove_void_tuple ts)"
proof -
  obtain k where k: "ts ! i = Ty k" using assms(3) by (cases "ts ! i") auto
  show ?thesis using place_nth(2) [OF len i k] remove_void_tuple_nth [OF i k] by simp
qed

text \<open>One handler.\<close>

lemma join_ok_step:
  assumes len: "length ts < 2 ^ 64 - 1" and e: "ended_once ts (evs @ [(i, r)])" and ok: "join_ok ts evs j"
  shows "\<exists>j'. join_callback (non_void_place_sequence ts ! i) r j = Some j' \<and> join_ok ts (evs @ [(i, r)]) j'"
proof (cases "first_error evs")
  case (Some e')
  then show ?thesis using ok by (cases r) (simp_all add: join_callback_def join_ok_def)
next
  case None
  note en = ended_once_snoc [OF e]
  have c: "jn_count j = of_nat (length ts - length evs)" "jn_alive j" using ok None en(4) by (simp_all add: join_ok_def)
  have u: "unat (jn_count j) = length ts - length evs" unfolding c(1) by (rule unat_of_nat_size_t) (use len in simp)
  then have c0: "jn_count j \<noteq> 0" using en(4) by auto
  have u1: "jn_count j - 1 = of_nat (length ts - Suc (length evs))" using c(1) en(4) by (simp add: of_nat_diff Suc_leI)
  have z: "jn_count j - 1 = 0 \<longleftrightarrow> Suc (length evs) = length ts"
  proof -
    have "unat (jn_count j - 1) = length ts - Suc (length evs)" unfolding u1 by (rule unat_of_nat_size_t) (use len in simp)
    then have "jn_count j - 1 = 0 \<longleftrightarrow> length ts - Suc (length evs) = 0" by (metis unat_eq_zero)
    then show ?thesis using en(4) by linarith
  qed
  show ?thesis
  proof (cases r)
    case (Inl e')
    then show ?thesis using ok None c c0 by (simp add: join_callback_def join_ok_def join_resume_def Let_def)
  next
    case (Inr v)
    let ?idx = "non_void_place_sequence ts ! i"
    define res where "res = (if ?idx \<noteq> - 1 then (jn_result j)[unat ?idx := v] else jn_result j)"
    define j1 where "j1 = j\<lparr>jn_count := jn_count j - 1, jn_result := res\<rparr>"
    have cb: "join_callback ?idx r j = Some (if Suc (length evs) = length ts then join_resume j1 else j1)"
      using c0 c(2) z by (simp add: join_callback_def Inr Let_def j1_def res_def join_resume_def)
    have stored: "res ! unat (non_void_place_sequence ts ! k) = w"
      if k: "(k, Inr w) \<in> set (evs @ [(i, r)])" "ts ! k \<noteq> Void" for k w
    proof (cases "k = i")
      case True
      then have "w = v" using k en(3) Inr by auto
      then show ?thesis using True k(2) place_bound [OF len en(2)] place_not_sentinel [OF len en(2)] ok
        by (simp add: res_def join_ok_def)
    next
      case False
      then have "(k, Inr w) \<in> set evs" using k by auto
      moreover from this have "k < length ts" using en(1) by (force simp: ended_once_def)
      ultimately have old: "jn_result j ! unat (non_void_place_sequence ts ! k) = w" using ok None k(2) by (simp add: join_ok_def)
      show ?thesis
      proof (cases "ts ! i = Void")
        case True then show ?thesis using old place_nth(1) [OF len en(2)] by (simp add: res_def)
      next
        case v: False
        from places_differ [OF len \<open>k < length ts\<close> en(2) False k(2) v] show ?thesis using old by (simp add: res_def)
      qed
    qed
    have "jn_count j1 = of_nat (length ts - Suc (length evs))" by (simp add: j1_def u1)
    then have "join_ok ts (evs @ [(i, r)]) (if Suc (length evs) = length ts then join_resume j1 else j1)"
      using ok None c(2) stored en(4) Inr by (simp add: join_ok_def j1_def res_def join_resume_def Suc_lessI)
    with cb show ?thesis by simp
  qed
qed

lemma join_run_ok:
  assumes "length ts < 2 ^ 64 - 1" and "ts \<noteq> []" and "length defaults = length (remove_void_tuple ts)"
    and "ended_once ts evs"
  shows "\<exists>j. join_run ts evs (join_new ts defaults) = Some j \<and> join_ok ts evs j"
  using assms(4)
proof (induction evs rule: rev_induct)
  case Nil then show ?case using assms(2,3) by (simp add: join_ok_def join_new_def)
next
  case (snoc ev evs)
  obtain i r where ev: "ev = (i, r)" by fastforce
  with snoc obtain j where "join_run ts evs (join_new ts defaults) = Some j" "join_ok ts evs j"
    using ended_once_snoc(1) by blast
  then show ?case using join_ok_step [OF assms(1)] snoc.prems ev by (simp add: join_run_snoc)
qed

subsection \<open>One after the other\<close>

text \<open>
  \<^verbatim>\<open>series\<close> awaits its arguments in order, each inside a coroutine of its own, and stores the values. An
  exception reaches \<^verbatim>\<open>await_resume\<close>, which is \<^verbatim>\<open>noexcept\<close>: \<open>None\<close>, the process is ended.
\<close>

fun series_from :: "size_t list \<Rightarrow> ('e + 'v) list \<Rightarrow> 'v list \<Rightarrow> 'v list option" where
  "series_from (idx # places) (Inr v # rs) result =
     series_from places rs (if idx \<noteq> - 1 then result[unat idx := v] else result)"
| "series_from (idx # places) (Inl e # rs) result = None"
| "series_from _ _ result = Some result"

definition series :: "'k cpp_type list \<Rightarrow> 'v list \<Rightarrow> ('e + 'v) list \<Rightarrow> 'v list option" where
  "series ts defaults rs = series_from (non_void_place_sequence ts) rs defaults"

lemma series_from_append:
  "length places = length rs \<Longrightarrow> series_from (places @ ps) (rs @ qs) result =
     (case series_from places rs result of None \<Rightarrow> None | Some res \<Rightarrow> series_from ps qs res)"
  by (induction places rs result rule: series_from.induct) auto

lemma length_places [simp]: "length (non_void_place_sequence ts) = length ts"
  by (simp add: non_void_place_sequence_eq)

text \<open>The events of a run in which the coroutines end in the order of the arguments.\<close>

definition in_turn :: "('e + 'v) list \<Rightarrow> (nat \<times> ('e + 'v)) list" where
  "in_turn rs = zip [0..<length rs] rs"

lemma in_turn_snoc [simp]: "in_turn (rs @ [r]) = in_turn rs @ [(length rs, r)]" "in_turn [] = []"
  by (simp_all add: in_turn_def)

lemma length_in_turn [simp]: "length (in_turn rs) = length rs"
  by (simp add: in_turn_def)

lemma ended_in_turn: "length rs \<le> length ts \<Longrightarrow> ended_once ts (in_turn rs)"
  by (auto simp: ended_once_def in_turn_def dest: set_zip_leftD)

lemma series_tracks_join:
  assumes len: "length ts < 2 ^ 64 - 1" "ts \<noteq> []" and d: "length defaults = length (remove_void_tuple ts)"
  shows "length rs \<le> length ts \<Longrightarrow> join_run ts (in_turn rs) (join_new ts defaults) = Some j \<Longrightarrow>
    series_from (take (length rs) (non_void_place_sequence ts)) rs defaults =
      (if first_error (in_turn rs) = None then Some (jn_result j) else None)"
proof (induction rs arbitrary: j rule: rev_induct)
  case Nil then show ?case by (auto simp: join_new_def)
next
  case (snoc r rs)
  let ?idx = "non_void_place_sequence ts ! length rs"
  obtain k where k: "join_run ts (in_turn rs) (join_new ts defaults) = Some k" "join_ok ts (in_turn rs) k"
    using join_run_ok [OF len d ended_in_turn [of rs]] snoc.prems(1) by auto
  have IH: "series_from (take (length rs) (non_void_place_sequence ts)) rs defaults =
      (if first_error (in_turn rs) = None then Some (jn_result k) else None)"
    using snoc.IH [OF _ k(1)] snoc.prems(1) by simp
  have t: "take (Suc (length rs)) (non_void_place_sequence ts) = take (length rs) (non_void_place_sequence ts) @ [?idx]"
    using snoc.prems(1) by (simp add: take_Suc_conv_app_nth)
  have split: "series_from (take (length (rs @ [r])) (non_void_place_sequence ts)) (rs @ [r]) defaults =
      (case series_from (take (length rs) (non_void_place_sequence ts)) rs defaults of None \<Rightarrow> None
       | Some res \<Rightarrow> series_from [?idx] [r] res)"
    using series_from_append [of "take (length rs) (non_void_place_sequence ts)" rs "[?idx]" "[r]" defaults] t snoc.prems(1) by simp
  show ?case
  proof (cases "first_error (in_turn rs)")
    case (Some e) then show ?thesis using split IH by (cases r) simp_all
  next
    case None
    have c: "jn_count k = of_nat (length ts - length rs)" "jn_alive k" using k(2) None snoc.prems(1) by (simp_all add: join_ok_def)
    have "unat (jn_count k) = length ts - length rs" unfolding c(1) by (rule unat_of_nat_size_t) (use len in simp)
    then have "jn_count k \<noteq> 0" using snoc.prems(1) by auto
    then show ?thesis using split IH None snoc.prems(2) c(2) k(1)
      by (cases r) (auto simp: join_run_snoc join_callback_def join_resume_def Let_def split: if_splits)
  qed
qed

text \<open>
  Without exceptions the two return the same tuple when \<^verbatim>\<open>join\<close>'s coroutines end in order; where \<^verbatim>\<open>join\<close>
  rethrows, \<^verbatim>\<open>series\<close> ends the process.
\<close>

theorem series_is_join_in_turn:
  assumes "length ts < 2 ^ 64 - 1" and "ts \<noteq> []" and "length defaults = length (remove_void_tuple ts)" and "length rs = length ts"
  shows "\<exists>j. join_run ts (in_turn rs) (join_new ts defaults) = Some j
    \<and> (case series ts defaults rs of Some res \<Rightarrow> join_outcome j = Inr res | None \<Rightarrow> \<exists>e. join_outcome j = Inl e)"
proof -
  have le: "length rs \<le> length ts" using assms(4) by simp
  obtain j where j: "join_run ts (in_turn rs) (join_new ts defaults) = Some j" "join_ok ts (in_turn rs) j"
    using join_run_ok [OF assms(1-3) ended_in_turn [OF le]] by blast
  have "series ts defaults rs = (if first_error (in_turn rs) = None then Some (jn_result j) else None)"
    using series_tracks_join [OF assms(1-3) le j(1)] assms(4) by (simp add: series_def)
  then show ?thesis using j by (cases "first_error (in_turn rs)") (auto simp: join_ok_def join_outcome_def)
qed

subsection \<open>The first of several\<close>

text \<open>
  \<^verbatim>\<open>select\<close> as it is written; since it hands its move-only parameters on as lvalues, no call of it compiles. Its
  handlers share a flag, and the first to run stores its exception in the frame and resumes it. An access to the
  frame after it is gone is \<open>None\<close>, as for \<^verbatim>\<open>join\<close>.
\<close>

record 'e select_state =
  sl_flag :: bool
  sl_eptr :: "'e option"
  sl_alive :: bool
  sl_resumed :: nat

definition select_new :: "'e select_state" where
  "select_new = \<lparr>sl_flag = False, sl_eptr = None, sl_alive = True, sl_resumed = 0\<rparr>"

definition select_callback :: "'e + 'v \<Rightarrow> 'e select_state \<Rightarrow> 'e select_state option" where
  "select_callback r s =
     (if sl_flag s then Some s
      else let s = s\<lparr>sl_flag := True\<rparr>
           in case (case r of Inl e \<Rightarrow> if sl_alive s then Some (s\<lparr>sl_eptr := Some e\<rparr>) else None | Inr v \<Rightarrow> Some s) of
                None \<Rightarrow> None
              | Some s \<Rightarrow> Some (s\<lparr>sl_alive := False, sl_resumed := sl_resumed s + 1\<rparr>))"

fun select_run :: "('e + 'v) list \<Rightarrow> 'e select_state \<Rightarrow> 'e select_state option" where
  "select_run [] s = Some s"
| "select_run (r # rs) s = (case select_callback r s of None \<Rightarrow> None | Some t \<Rightarrow> select_run rs t)"

lemma select_run_flag: "sl_flag s \<Longrightarrow> select_run rs s = Some s"
  by (induction rs) (simp_all add: select_callback_def)

text \<open>It is resumed once, by the first coroutine that ends, with its exception; the later ones do nothing.\<close>

lemma select_takes_the_first:
  "\<exists>s. select_run (r # rs) select_new = Some s \<and> sl_resumed s = 1
     \<and> sl_eptr s = (case r of Inl e \<Rightarrow> Some e | Inr v \<Rightarrow> None)"
  by (cases r) (simp_all add: select_callback_def select_new_def select_run_flag)

subsection \<open>Properties\<close>

text \<open>
  Property C16: \<^verbatim>\<open>join\<close> of at least one coroutine works for every order in which its coroutines end. It is
  resumed exactly once: when the first of them fails, with that exception, or else when the last one
  ends, with the value of every non-void coroutine in its component of the tuple. Handlers that run after
  that never touch the frame of \<^verbatim>\<open>join\<close>, which is gone.
\<close>

theorem join_resumes_once_with_results:
  assumes "length ts < 2 ^ 64 - 1" and "ts \<noteq> []" and "length defaults = length (remove_void_tuple ts)"
    and "ended_once ts evs"
  shows "\<exists>j. join_run ts evs (join_new ts defaults) = Some j
    \<and> jn_resumed j = of_bool (first_error evs \<noteq> None \<or> length evs = length ts)
    \<and> (case first_error evs of
         Some e \<Rightarrow> join_outcome j = Inl e
       | None \<Rightarrow> \<exists>res. join_outcome j = Inr res \<and> length res = length (remove_void_tuple ts)
           \<and> (\<forall>i v. (i, Inr v) \<in> set evs \<longrightarrow> ts ! i \<noteq> Void \<longrightarrow> res ! unat (non_void_place_sequence ts ! i) = v))"
proof -
  obtain j where "join_run ts evs (join_new ts defaults) = Some j" "join_ok ts evs j"
    using join_run_ok [OF assms] by blast
  then show ?thesis
    by (cases "first_error evs") (simp_all add: join_ok_def join_outcome_def)
qed

lemma join_resumes_once_with_results_witness:
  "\<exists>j :: (nat, nat) join_state.
     join_run [Ty (), Void, Ty ()] [(2, Inr 7), (0, Inr 3), (1, Inr 0)] (join_new [Ty (), Void, Ty ()] [0, 0]) = Some j
     \<and> jn_resumed j = 1 \<and> (\<exists>res. join_outcome j = Inr res \<and> res ! 0 = 3 \<and> res ! 1 = 7)"
proof -
  let ?ts = "[Ty (), Void, Ty ()]"
  let ?evs = "[(2, Inr 7), (0, Inr 3), (1, Inr 0)] :: (nat \<times> (nat + nat)) list"
  have p: "unat (non_void_place_sequence ?ts ! 0) = 0" "unat (non_void_place_sequence ?ts ! 2) = 1"
    by (simp_all add: non_void_place_sequence_def)
  have "\<exists>j. join_run ?ts ?evs (join_new ?ts [0, 0]) = Some j
    \<and> jn_resumed j = of_bool (first_error ?evs \<noteq> None \<or> length ?evs = length ?ts)
    \<and> (case first_error ?evs of
         Some e \<Rightarrow> join_outcome j = Inl e
       | None \<Rightarrow> \<exists>res. join_outcome j = Inr res \<and> length res = length (remove_void_tuple ?ts)
           \<and> (\<forall>i v. (i, Inr v) \<in> set ?evs \<longrightarrow> ?ts ! i \<noteq> Void \<longrightarrow> res ! unat (non_void_place_sequence ?ts ! i) = v))"
    by (rule join_resumes_once_with_results) (simp_all add: ended_once_def)
  then obtain j res where j: "join_run ?ts ?evs (join_new ?ts [0, 0]) = Some j" "jn_resumed j = 1"
    "join_outcome j = Inr res"
    and r: "res ! unat (non_void_place_sequence ?ts ! 0) = 3" "res ! unat (non_void_place_sequence ?ts ! 2) = 7"
    by (auto simp del: join_run.simps)
  have "res ! 0 = 3" "res ! 1 = 7" using r unfolding p by simp_all
  with j show ?thesis by blast
qed

end
