(* ===== verification/Context_Pool.thy ===== *)
theory Context_Pool
  imports Magio_Prelude
begin

section \<open>Wait groups and the pool of contexts (utils/wait_group.h, core/coro_context_pool.cpp)\<close>

text \<open>
  \<^verbatim>\<open>WaitGroup\<close> is a counter that threads wait for. \<^verbatim>\<open>CoroContextPool\<close> uses one so that its constructor
  returns only when every thread has built its context, and one so that no thread starts its loop before
  \<^verbatim>\<open>start_all\<close>. The pool is modelled as the interleaving of the owner's thread and the background
  threads, each step one critical section or one call; a step that would block is not possible
  (\<open>None\<close>). The loops of the contexts are modelled elsewhere: here a loop runs until it meets the task
  that stops it.
\<close>

text \<open>\<^verbatim>\<open>WaitGroup::done\<close>: the new count, and whether the waiting threads are notified.\<close>

definition wg_done :: "size_t \<Rightarrow> size_t \<times> bool" where
  "wg_done n = (if n = 0 then (n, False) else (n - 1, n - 1 = 0))"

text \<open>The condition \<^verbatim>\<open>WaitGroup::wait\<close> waits for.\<close>

definition wg_ready :: "size_t \<Rightarrow> bool" where
  "wg_ready n \<longleftrightarrow> n = 0"

datatype cpool_state = CtxStopping | CtxRunning | CtxPendingDestroy

text \<open>
  Where the owner is: in the constructor, outside, in the loop of its own context, in the destructor
  (posting the stop to a context, joining a thread), done, or ended by \<^verbatim>\<open>M_FATAL\<close>.
\<close>

datatype cpool_owner = Constructing | Outside | InLoop | Posting nat | Joining nat | Destroyed | Aborted

datatype cpool_worker = Building | Announcing | Waiting | Looping | Exited

record cpool =
  po_state :: cpool_state
  po_next_idx :: size_t
  po_build :: size_t
  po_start :: size_t
  po_contexts :: "bool list"
  po_posted :: "bool list"
  po_threads :: "cpool_worker list"
  po_owner :: cpool_owner

text \<open>The constructor up to its loop; \<^verbatim>\<open>contexts_\<close> holds null pointers (\<open>False\<close>) but for the owner's.\<close>

definition cpool_init :: "size_t \<Rightarrow> cpool option" where
  "cpool_init num =
     (if num < 1 then None
      else Some \<lparr>po_state = CtxStopping, po_next_idx = 0, po_build = num - 1, po_start = 1,
        po_contexts = (replicate (unat num) False)[0 := True], po_posted = replicate (unat num) False,
        po_threads = [], po_owner = Constructing\<rparr>)"

text \<open>\<^verbatim>\<open>next_context\<close> and \<^verbatim>\<open>get\<close>: the index of the context they return.\<close>

definition cpool_next_context :: "cpool \<Rightarrow> nat \<times> cpool" where
  "cpool_next_context p =
     (unat (po_next_idx p), p\<lparr>po_next_idx := (po_next_idx p + 1) mod of_nat (length (po_contexts p))\<rparr>)"

definition cpool_get :: "size_t \<Rightarrow> cpool \<Rightarrow> nat" where
  "cpool_get i p = unat (i mod of_nat (length (po_contexts p)))"

definition cpool_start_all :: "bool \<Rightarrow> cpool \<Rightarrow> cpool" where
  "cpool_start_all in_self_thread p =
     (if \<not> in_self_thread then p\<lparr>po_owner := Aborted\<rparr>
      else if po_state p \<noteq> CtxStopping then p\<lparr>po_owner := Aborted\<rparr>
      else p\<lparr>po_state := CtxRunning, po_start := fst (wg_done (po_start p)), po_owner := InLoop\<rparr>)"

text \<open>\<^verbatim>\<open>run_in_background\<close> of the thread \<open>i\<close>, whose context has the index \<open>i + 1\<close>.\<close>

definition cpool_run :: "nat \<Rightarrow> cpool \<Rightarrow> cpool option" where
  "cpool_run i p =
     (if i < length (po_threads p) then
        (case po_threads p ! i of
           Building \<Rightarrow> Some (p\<lparr>po_contexts := (po_contexts p)[Suc i := True], po_threads := (po_threads p)[i := Announcing]\<rparr>)
         | Announcing \<Rightarrow> Some (p\<lparr>po_build := fst (wg_done (po_build p)), po_threads := (po_threads p)[i := Waiting]\<rparr>)
         | Waiting \<Rightarrow> if wg_ready (po_start p) then Some (p\<lparr>po_threads := (po_threads p)[i := Looping]\<rparr>) else None
         | Looping \<Rightarrow> if po_posted p ! Suc i then Some (p\<lparr>po_threads := (po_threads p)[i := Exited]\<rparr>) else None
         | Exited \<Rightarrow> None)
      else None)"

text \<open>The owner's constructor and destructor.\<close>

definition cpool_ctor :: "cpool \<Rightarrow> cpool option" where
  "cpool_ctor p =
     (if po_owner p \<noteq> Constructing then None
      else if Suc (length (po_threads p)) < length (po_contexts p) then Some (p\<lparr>po_threads := po_threads p @ [Building]\<rparr>)
      else if wg_ready (po_build p) then Some (p\<lparr>po_owner := Outside\<rparr>) else None)"

definition cpool_dtor :: "cpool \<Rightarrow> cpool option" where
  "cpool_dtor p =
     (case po_owner p of
        Outside \<Rightarrow> Some (p\<lparr>po_state := CtxPendingDestroy, po_owner := Posting 1\<rparr>)
      | Posting i \<Rightarrow> if i < length (po_contexts p) then Some (p\<lparr>po_posted := (po_posted p)[i := True], po_owner := Posting (Suc i)\<rparr>)
                     else Some (p\<lparr>po_owner := Joining 0\<rparr>)
      | Joining i \<Rightarrow> if i < length (po_threads p)
                     then if po_threads p ! i = Exited then Some (p\<lparr>po_owner := Joining (Suc i)\<rparr>) else None
                     else Some (p\<lparr>po_owner := Destroyed\<rparr>)
      | _ \<Rightarrow> None)"

text \<open>
  The steps: the constructor, the threads, and what the user does once the constructor has returned:
  \<^verbatim>\<open>start_all\<close>, \<^verbatim>\<open>next_context\<close>, stopping a context (the owner's, or a background one), and destruction.
\<close>

inductive cpool_step :: "cpool \<Rightarrow> cpool \<Rightarrow> bool" where
  ctor: "cpool_ctor p = Some p' \<Longrightarrow> cpool_step p p'"
| run: "cpool_run i p = Some p' \<Longrightarrow> cpool_step p p'"
| start: "po_owner p = Outside \<Longrightarrow> cpool_step p (cpool_start_all self p)"
| returns: "po_owner p = InLoop \<Longrightarrow> cpool_step p (p\<lparr>po_owner := Outside\<rparr>)"
| stop: "po_owner p = Outside \<or> po_owner p = InLoop \<Longrightarrow> Suc i < length (po_contexts p) \<Longrightarrow>
    cpool_step p (p\<lparr>po_posted := (po_posted p)[Suc i := True]\<rparr>)"
| "next": "po_owner p = Outside \<or> po_owner p = InLoop \<Longrightarrow> cpool_step p (snd (cpool_next_context p))"
| dtor: "cpool_dtor p = Some p' \<Longrightarrow> cpool_step p p'"

subsection \<open>The invariant\<close>

definition past_done :: "cpool_worker \<Rightarrow> bool" where
  "past_done w \<longleftrightarrow> w \<in> {Waiting, Looping, Exited}"

definition announced :: "cpool_worker list \<Rightarrow> nat" where
  "announced ws = length (filter past_done ws)"

lemma announced_upd:
  assumes "i < length ws"
  shows "announced (ws[i := w]) + of_bool (past_done (ws ! i)) = announced ws + of_bool (past_done w)"
  unfolding announced_def by (rule length_filter_update [OF assms])

lemma announced_less:
  assumes "i < length ws" and "\<not> past_done (ws ! i)"
  shows "announced ws < length ws"
proof -
  have "announced (ws[i := Waiting]) \<le> length (ws[i := Waiting])" unfolding announced_def by (rule length_filter_le)
  with announced_upd [OF assms(1), of Waiting] assms(2) show ?thesis by (simp add: past_done_def)
qed

definition cpool_ok :: "size_t \<Rightarrow> cpool \<Rightarrow> bool" where
  "cpool_ok num p \<longleftrightarrow> num \<noteq> 0 \<and> length (po_contexts p) = unat num \<and> length (po_posted p) = unat num
     \<and> po_contexts p ! 0 \<and> length (po_threads p) < unat num
     \<and> unat (po_build p) + announced (po_threads p) = unat num - 1
     \<and> (\<forall>i<length (po_threads p). po_threads p ! i \<noteq> Building \<longrightarrow> po_contexts p ! Suc i)
     \<and> (po_owner p \<noteq> Constructing \<longrightarrow> announced (po_threads p) = unat num - 1)
     \<and> po_next_idx p < num"

lemma wg_done_unat: "n \<noteq> 0 \<Longrightarrow> Suc (unat (fst (wg_done n))) = unat n"
  by (simp add: wg_done_def unat_minus_one) (metis Suc_pred unat_gt_0)

lemma cpool_ok_init: "cpool_init num = Some p \<Longrightarrow> cpool_ok num p"
  by (auto simp: cpool_init_def cpool_ok_def announced_def unat_minus_one unat_gt_0 word_gt_0 less_one split: if_splits)

lemma cpool_ok_update:
  assumes ok: "cpool_ok num p" and i: "i < length (po_threads p)" and w: "w \<noteq> Building"
    and c: "length cs = unat num" "\<forall>j. po_contexts p ! j \<longrightarrow> cs ! j" "cs ! Suc i"
    and n: "unat b + of_bool (past_done w) = unat (po_build p) + of_bool (past_done (po_threads p ! i))"
    and d: "past_done (po_threads p ! i) \<longrightarrow> past_done w"
  shows "cpool_ok num (p\<lparr>po_contexts := cs, po_build := b, po_threads := (po_threads p)[i := w]\<rparr>)"
proof -
  note u = announced_upd [OF i, of w]
  have a: "announced (po_threads p) = unat num - 1 \<Longrightarrow> announced ((po_threads p)[i := w]) = unat num - 1"
    using u d announced_less [OF i] ok by (cases "past_done (po_threads p ! i)") (auto simp: cpool_ok_def)
  have "\<forall>j<length (po_threads p). (po_threads p)[i := w] ! j \<noteq> Building \<longrightarrow> cs ! Suc j"
  proof (intro allI impI)
    fix j assume "j < length (po_threads p)" "(po_threads p)[i := w] ! j \<noteq> Building"
    then show "cs ! Suc j" using ok c by (cases "i = j") (auto simp: cpool_ok_def)
  qed
  then show ?thesis using ok a c n u unfolding cpool_ok_def by auto
qed

lemma cpool_ok_run:
  assumes ok: "cpool_ok num p" and r: "cpool_run i p = Some p'"
  shows "cpool_ok num p'"
proof -
  have i: "i < length (po_threads p)" using r by (simp add: cpool_run_def split: if_splits)
  have c: "po_threads p ! i \<noteq> Building \<Longrightarrow> po_contexts p ! Suc i" and l: "length (po_contexts p) = unat num"
    "Suc i < unat num" using ok i by (auto simp: cpool_ok_def)
  note upd = cpool_ok_update [OF ok i]
  show ?thesis
  proof (cases "po_threads p ! i")
    case Building
    then show ?thesis using upd [of Announcing "(po_contexts p)[Suc i := True]" "po_build p"] r i l
      by (auto simp: cpool_run_def past_done_def nth_list_update)
  next
    case Announcing
    then have "unat (po_build p) \<noteq> 0" using announced_less [OF i] ok by (auto simp: cpool_ok_def past_done_def)
    then have "Suc (unat (fst (wg_done (po_build p)))) = unat (po_build p)" by (intro wg_done_unat) auto
    then show ?thesis using upd [of Waiting "po_contexts p" "fst (wg_done (po_build p))"] r i l c Announcing
      by (simp add: cpool_run_def past_done_def)
  next
    case Waiting
    then show ?thesis using upd [of Looping "po_contexts p" "po_build p"] r i l c
      by (simp add: cpool_run_def past_done_def split: if_splits)
  next
    case Looping
    then show ?thesis using upd [of Exited "po_contexts p" "po_build p"] r i l c
      by (simp add: cpool_run_def past_done_def split: if_splits)
  qed (use r i in \<open>simp add: cpool_run_def\<close>)
qed

lemma cpool_ok_ctor:
  assumes "cpool_ok num p" and "cpool_ctor p = Some p'"
  shows "cpool_ok num p'"
  using assms
  by (auto simp: cpool_ctor_def cpool_ok_def announced_def past_done_def wg_ready_def nth_append less_Suc_eq split: if_splits)

lemma word_mod_less: "n \<noteq> 0 \<Longrightarrow> x mod n < n" for n :: size_t
  by (simp add: word_mod_less_divisor word_gt_0)

lemma cpool_ok_step:
  assumes ok: "cpool_ok num p" and "cpool_step p p'"
  shows "cpool_ok num p'"
  using assms(2)
proof cases
  case ctor then show ?thesis using cpool_ok_ctor [OF ok] by blast
next
  case (run i) then show ?thesis using cpool_ok_run [OF ok] by blast
next
  case (start self) then show ?thesis using ok by (auto simp: cpool_start_all_def cpool_ok_def)
next
  case returns then show ?thesis using ok by (auto simp: cpool_ok_def)
next
  case (stop i) then show ?thesis using ok by (auto simp: cpool_ok_def)
next
  case "next" then show ?thesis using ok by (auto simp: cpool_ok_def cpool_next_context_def word_mod_less)
next
  case dtor then show ?thesis using ok by (auto simp: cpool_dtor_def cpool_ok_def split: cpool_owner.splits if_splits)
qed

interpretation pl: transition_system "\<lambda>p. cpool_init num = Some p" cpool_step "cpool_ok num" for num
  by unfold_locales (auto intro: cpool_ok_init cpool_ok_step)

lemma announced_all: "announced ws = length ws \<Longrightarrow> w \<in> set ws \<Longrightarrow> past_done w"
  unfolding announced_def using filter_id_conv [of past_done ws] by (metis length_filter_less less_irrefl)

lemma cpool_all_built:
  assumes ok: "cpool_ok num p" and "po_owner p \<noteq> Constructing" and i: "i < unat num"
  shows "po_contexts p ! i"
proof (cases i)
  case 0 then show ?thesis using ok by (simp add: cpool_ok_def)
next
  case (Suc j)
  have "announced (po_threads p) \<le> length (po_threads p)" unfolding announced_def by (rule length_filter_le)
  then have l: "announced (po_threads p) = length (po_threads p)" "length (po_threads p) = unat num - 1"
    using ok assms(2) by (auto simp: cpool_ok_def)
  then have "j < length (po_threads p)" using i Suc by simp
  moreover from this have "past_done (po_threads p ! j)" by (intro announced_all [OF l(1)]) simp
  ultimately show ?thesis using ok Suc by (auto simp: cpool_ok_def past_done_def)
qed

subsection \<open>Properties\<close>

text \<open>
  Once the constructor has returned, every context of the pool exists, so that
  \<^verbatim>\<open>next_context\<close> and \<^verbatim>\<open>get\<close> never go through a null pointer, whatever the threads do and however far
  they got.
\<close>

theorem pool_contexts_exist:
  assumes "cpool_init num = Some p0" and "cpool_step\<^sup>*\<^sup>* p0 p" and "po_owner p \<noteq> Constructing"
  shows "fst (cpool_next_context p) < length (po_contexts p) \<and> po_contexts p ! fst (cpool_next_context p)
     \<and> cpool_get i p < length (po_contexts p) \<and> po_contexts p ! cpool_get i p"
proof -
  have ok: "cpool_ok num p" using pl.reachable_inv [OF assms(1,2)] .
  then have "unat (po_next_idx p) < unat num" "unat (i mod num) < unat num"
    using word_mod_less [of num i] by (simp_all add: cpool_ok_def word_less_nat_alt)
  then show ?thesis using cpool_all_built [OF ok assms(3)] ok
    by (auto simp: cpool_next_context_def cpool_get_def cpool_ok_def)
qed

text \<open>A pool of two contexts after its constructor, started, and at the end of its destructor.\<close>

definition cpool_two :: "cpool_worker \<Rightarrow> cpool_owner \<Rightarrow> cpool" where
  "cpool_two w ow = \<lparr>po_state = CtxStopping, po_next_idx = 0, po_build = 0, po_start = 1, po_contexts = [True, True],
     po_posted = [False, False], po_threads = [w], po_owner = ow\<rparr>"

fun cpool_exec :: "(cpool \<Rightarrow> cpool option) list \<Rightarrow> cpool \<Rightarrow> cpool option" where
  "cpool_exec [] p = Some p"
| "cpool_exec (f # fs) p = (case f p of None \<Rightarrow> None | Some p' \<Rightarrow> cpool_exec fs p')"

definition cpool_two_new :: cpool where
  "cpool_two_new = \<lparr>po_state = CtxStopping, po_next_idx = 0, po_build = 1, po_start = 1, po_contexts = [True, False],
     po_posted = [False, False], po_threads = [], po_owner = Constructing\<rparr>"

lemma cpool_two_init: "cpool_init 2 = Some cpool_two_new"
  by (simp add: cpool_init_def cpool_two_new_def) (simp add: numeral_2_eq_2)

lemma cpool_two_steps: "cpool_step\<^sup>*\<^sup>* cpool_two_new (cpool_two Waiting Outside)"
proof -
  have "cpool_exec [cpool_ctor, cpool_run 0, cpool_run 0, cpool_ctor] cpool_two_new = Some (cpool_two Waiting Outside)"
    by (simp add: cpool_ctor_def cpool_run_def cpool_two_new_def cpool_two_def wg_done_def wg_ready_def)
  then show ?thesis
    by (auto split: option.splits dest!: cpool_step.ctor cpool_step.run)
qed

lemma pool_contexts_exist_witness:
  "fst (cpool_next_context (cpool_two Waiting Outside)) < 2 \<and> cpool_get 5 (cpool_two Waiting Outside) < 2"
  using pool_contexts_exist [OF cpool_two_init cpool_two_steps, of 5] by (simp add: cpool_two_def)

text \<open>
  \<^verbatim>\<open>next_context\<close> goes round: the contexts it returns from any point on are the next ones in
  order, starting over after the last, without overflow of the index. So any \<open>num\<close> calls in a row return
  each context exactly once.
\<close>

fun cpool_take :: "nat \<Rightarrow> cpool \<Rightarrow> nat list" where
  "cpool_take 0 p = []"
| "cpool_take (Suc n) p = (case cpool_next_context p of (i, p') \<Rightarrow> i # cpool_take n p')"

lemma cpool_take_conv:
  assumes "length (po_contexts p) = unat num" and "po_next_idx p < num"
  shows "cpool_take n p = map (\<lambda>k. (unat (po_next_idx p) + k) mod unat num) [0..<n]"
  using assms(2,1)
proof (induction n arbitrary: p)
  case (Suc n)
  let ?i = "po_next_idx p"
  have l: "unat ?i < unat num" using Suc.prems by (simp add: word_less_nat_alt)
  have "unat num < 2 ^ 64" by (rule unat_size_t_bound)
  with l have "unat (?i + 1) = unat ?i + 1" by (simp add: unat_word_ariths)
  then have u: "unat ((?i + 1) mod num) = (unat ?i + 1) mod unat num" by (simp add: unat_mod_distrib)
  let ?p = "p\<lparr>po_next_idx := (?i + 1) mod num\<rparr>"
  have "cpool_take n ?p = map (\<lambda>k. (unat (po_next_idx ?p) + k) mod unat num) [0..<n]"
  proof (rule Suc.IH)
    have "num \<noteq> 0" using l by auto
    then show "po_next_idx ?p < num" by (simp add: word_mod_less)
  qed (use Suc.prems in simp)
  also have "\<dots> = map (\<lambda>k. (unat ?i + Suc k) mod unat num) [0..<n]"
  proof (rule map_cong [OF refl])
    fix k
    show "(unat (po_next_idx ?p) + k) mod unat num = (unat ?i + Suc k) mod unat num"
      using mod_add_left_eq [of "unat ?i + 1" "unat num" k] by (simp add: u)
  qed
  finally have "cpool_take (Suc n) p = unat ?i # map (\<lambda>k. (unat ?i + Suc k) mod unat num) [0..<n]"
    using Suc.prems by (simp add: cpool_next_context_def)
  also have "\<dots> = map (\<lambda>k. (unat ?i + k) mod unat num) (0 # map Suc [0..<n])" using l by simp
  also have "0 # map Suc [0..<n] = [0..<Suc n]" by (simp add: map_Suc_upt upt_conv_Cons del: upt_Suc)
  finally show ?case .
qed simp

theorem next_context_goes_round:
  assumes "cpool_init num = Some p0" and "cpool_step\<^sup>*\<^sup>* p0 p"
  shows "cpool_take n p = map (\<lambda>k. (unat (po_next_idx p) + k) mod unat num) [0..<n]"
proof -
  have "cpool_ok num p" using pl.reachable_inv [OF assms(1,2)] .
  then show ?thesis by (intro cpool_take_conv) (simp_all add: cpool_ok_def)
qed

lemma next_context_goes_round_witness: "cpool_take 5 (cpool_two Waiting Outside) = [0, 1, 0, 1, 0]"
  using next_context_goes_round [OF cpool_two_init cpool_two_steps, of 5]
  by (simp add: cpool_two_def upt_conv_Cons)

text \<open>
  The destructor. Its steps and those of the threads that end their loops; a step of a thread makes
  progress towards its exit.
\<close>

definition worker_left :: "cpool_worker \<Rightarrow> nat" where
  "worker_left w = (case w of Building \<Rightarrow> 4 | Announcing \<Rightarrow> 3 | Waiting \<Rightarrow> 2 | Looping \<Rightarrow> 1 | Exited \<Rightarrow> 0)"

definition owner_left :: "nat \<Rightarrow> cpool_owner \<Rightarrow> nat" where
  "owner_left n ow = (case ow of Posting i \<Rightarrow> 3 * n + 3 - i | Joining i \<Rightarrow> n + 1 - i | _ \<Rightarrow> 0)"

definition cpool_left :: "cpool \<Rightarrow> nat" where
  "cpool_left p = sum_list (map worker_left (po_threads p)) + owner_left (length (po_contexts p)) (po_owner p)"

definition destroying :: "cpool \<Rightarrow> bool" where
  "destroying p \<longleftrightarrow> (\<exists>i. po_owner p = Posting i \<or> po_owner p = Joining i)"

definition shut_ok :: "cpool \<Rightarrow> bool" where
  "shut_ok p \<longleftrightarrow>
     (\<forall>i. po_owner p = Posting i \<longrightarrow> 1 \<le> i \<and> i \<le> length (po_contexts p) \<and> (\<forall>j. 1 \<le> j \<longrightarrow> j < i \<longrightarrow> po_posted p ! j)) \<and>
     (\<forall>i. po_owner p = Joining i \<longrightarrow> i \<le> length (po_threads p)
        \<and> (\<forall>j. 1 \<le> j \<longrightarrow> j < length (po_contexts p) \<longrightarrow> po_posted p ! j)) \<and>
     (po_start p = 0 \<or> po_start p = 1 \<and> set (po_threads p) \<subseteq> {Building, Announcing, Waiting})"

lemma run_keeps:
  "cpool_run i p = Some p' \<Longrightarrow> po_owner p' = po_owner p \<and> po_posted p' = po_posted p \<and> po_start p' = po_start p
     \<and> length (po_contexts p') = length (po_contexts p) \<and> length (po_threads p') = length (po_threads p)"
  by (auto simp: cpool_run_def split: cpool_worker.splits if_splits)

lemma run_threads:
  assumes "cpool_run i p = Some p'" and "po_start p \<noteq> 0" and "set (po_threads p) \<subseteq> {Building, Announcing, Waiting}"
  shows "set (po_threads p') \<subseteq> {Building, Announcing, Waiting}"
proof -
  have i: "i < length (po_threads p)" using assms(1) by (simp add: cpool_run_def split: if_splits)
  then have "po_threads p ! i \<in> {Building, Announcing, Waiting}" using assms(3) nth_mem by blast
  then have "\<exists>w\<in>{Announcing, Waiting}. po_threads p' = (po_threads p)[i := w]"
    using assms(1,2) i by (elim insertE emptyE) (auto simp: cpool_run_def wg_ready_def)
  then show ?thesis using set_update_subset_insert [of "po_threads p" i] assms(3) by fastforce
qed

lemma shut_ok_run: "shut_ok p \<Longrightarrow> cpool_run i p = Some p' \<Longrightarrow> shut_ok p'"
proof -
  assume s: "shut_ok p" and r: "cpool_run i p = Some p'"
  note k = run_keeps [OF r]
  show "shut_ok p'"
  proof (cases "po_start p = 0")
    case True then show ?thesis using s k by (simp add: shut_ok_def)
  next
    case False then show ?thesis using s k run_threads [OF r] by (simp add: shut_ok_def)
  qed
qed

lemma shut_ok_step:
  assumes ok: "cpool_ok num p" and s: "shut_ok p" and "cpool_step p p'"
  shows "shut_ok p'"
  using assms(3)
proof cases
  case ctor then show ?thesis using s by (auto simp: shut_ok_def cpool_ctor_def split: if_splits)
next
  case (run i) then show ?thesis using shut_ok_run [OF s] by blast
next
  case (start self) then show ?thesis using s by (auto simp: shut_ok_def cpool_start_all_def wg_done_def)
next
  case returns then show ?thesis using s by (auto simp: shut_ok_def)
next
  case (stop i) then show ?thesis using s by (auto simp: shut_ok_def)
next
  case "next" then show ?thesis using s by (auto simp: shut_ok_def cpool_next_context_def)
next
  case dtor
  then show ?thesis
  proof (cases "po_owner p")
    case (Posting i)
    then show ?thesis using dtor s ok
      by (auto simp: shut_ok_def cpool_dtor_def cpool_ok_def nth_list_update less_Suc_eq split: if_splits)
  next
    case (Joining i)
    then show ?thesis using dtor s by (auto simp: shut_ok_def cpool_dtor_def split: if_splits)
  qed (use dtor s ok in \<open>auto simp: shut_ok_def cpool_dtor_def cpool_ok_def Suc_le_eq unat_gt_0\<close>)
qed

lemma cpool_reachable_ok:
  assumes "cpool_init num = Some p0" and "cpool_step\<^sup>*\<^sup>* p0 p"
  shows "cpool_ok num p \<and> shut_ok p"
  using assms(2)
proof induction
  case base
  show ?case using cpool_ok_init [OF assms(1)] assms(1)
    by (auto simp: cpool_init_def shut_ok_def split: if_splits)
next
  case (step p p') then show ?case using cpool_ok_step shut_ok_step by blast
qed

lemma left_run:
  assumes "cpool_run i p = Some p'"
  shows "cpool_left p' < cpool_left p \<and> po_owner p' = po_owner p \<and> po_start p' = po_start p"
proof -
  have i: "i < length (po_threads p)" using assms by (simp add: cpool_run_def split: if_splits)
  have "worker_left (po_threads p ! i) \<le> sum_list (map worker_left (po_threads p))"
    using i by (intro member_le_sum_list) simp_all
  then have u: "sum_list (map worker_left ((po_threads p)[i := w]))
     = sum_list (map worker_left (po_threads p)) + worker_left w - worker_left (po_threads p ! i)" for w
    using i by (simp add: map_update sum_list_update)
  have "worker_left (po_threads p ! i) \<le> sum_list (map worker_left (po_threads p))"
    using i by (intro member_le_sum_list) simp_all
  then show ?thesis using assms i
    by (cases "po_threads p ! i") (auto simp: cpool_run_def cpool_left_def u worker_left_def split: if_splits)
qed

lemma left_dtor:
  assumes "cpool_ok num p" and "shut_ok p" and "destroying p" and "cpool_dtor p = Some p'"
  shows "cpool_left p' < cpool_left p \<and> (destroying p' \<or> po_owner p' = Destroyed) \<and> po_start p' = po_start p"
  using assms
  by (auto simp: cpool_dtor_def destroying_def cpool_left_def owner_left_def cpool_ok_def shut_ok_def split: if_splits)

text \<open>
  Property C30: the destructor of a pool that was started ends. In every state it can be in, some thread
  can go on, and every step that is possible makes progress: a measure of the state gets smaller, and
  the pool is still being destroyed or is destroyed. So on every schedule the destructor returns, after
  at most \<open>cpool_left\<close> steps; every background thread has left its loop and was joined.
\<close>

theorem started_pool_is_destroyed:
  assumes "cpool_init num = Some p0" and "cpool_step\<^sup>*\<^sup>* p0 p" and "destroying p" and "po_start p = 0"
  shows "(\<exists>p'. cpool_step p p') \<and> (\<forall>p'. cpool_step p p' \<longrightarrow> cpool_left p' < cpool_left p
     \<and> (destroying p' \<or> po_owner p' = Destroyed) \<and> po_start p' = 0)"
proof
  have ok: "cpool_ok num p" and s: "shut_ok p" using cpool_reachable_ok [OF assms(1,2)] by simp_all
  show "\<forall>p'. cpool_step p p' \<longrightarrow> cpool_left p' < cpool_left p \<and> (destroying p' \<or> po_owner p' = Destroyed) \<and> po_start p' = 0"
  proof (intro allI impI)
    fix p' assume "cpool_step p p'"
    then show "cpool_left p' < cpool_left p \<and> (destroying p' \<or> po_owner p' = Destroyed) \<and> po_start p' = 0"
    proof cases
      case (run i)
      from left_run [OF this] show ?thesis using assms(3,4) by (simp add: destroying_def)
    next
      case dtor
      from left_dtor [OF ok s assms(3) this] show ?thesis using assms(4) by simp
    qed (use assms(3) in \<open>auto simp: destroying_def cpool_ctor_def\<close>)
  qed
  show "\<exists>p'. cpool_step p p'"
  proof (cases "cpool_dtor p")
    case (Some p') then show ?thesis using cpool_step.dtor by blast
  next
    case None
    then obtain i where i: "po_owner p = Joining i" "i < length (po_threads p)" "po_threads p ! i \<noteq> Exited"
      using assms(3) by (auto simp: cpool_dtor_def destroying_def split: if_splits)
    have "po_posted p ! Suc i" using s i ok by (auto simp: shut_ok_def cpool_ok_def)
    then have "cpool_run i p \<noteq> None" using i assms(4)
      by (cases "po_threads p ! i") (auto simp: cpool_run_def wg_ready_def)
    then show ?thesis using cpool_step.run by blast
  qed
qed

definition cpool_two_leaving :: cpool where
  "cpool_two_leaving = \<lparr>po_state = CtxPendingDestroy, po_next_idx = 0, po_build = 0, po_start = 0,
     po_contexts = [True, True], po_posted = [False, False], po_threads = [Waiting], po_owner = Posting 1\<rparr>"

lemma cpool_two_leaves: "cpool_step\<^sup>*\<^sup>* cpool_two_new cpool_two_leaving"
proof -
  let ?p = "cpool_two Waiting Outside"
  have "cpool_step ?p (cpool_start_all True ?p)" by (rule cpool_step.start) (simp add: cpool_two_def)
  moreover have "cpool_step (cpool_start_all True ?p) (cpool_start_all True ?p\<lparr>po_owner := Outside\<rparr>)"
    by (rule cpool_step.returns) (simp add: cpool_two_def cpool_start_all_def)
  moreover have "cpool_step (cpool_start_all True ?p\<lparr>po_owner := Outside\<rparr>) cpool_two_leaving"
    by (rule cpool_step.dtor) (simp add: cpool_two_def cpool_start_all_def cpool_dtor_def cpool_two_leaving_def wg_done_def)
  ultimately show ?thesis using cpool_two_steps by (meson rtranclp.rtrancl_into_rtrancl)
qed

lemma started_pool_is_destroyed_witness: "\<exists>p'. cpool_step cpool_two_leaving p' \<and> cpool_left p' < cpool_left cpool_two_leaving"
  using started_pool_is_destroyed [OF cpool_two_init cpool_two_leaves]
  by (auto simp: cpool_two_leaving_def destroying_def)

text \<open>
  A pool of two or more contexts that is destroyed without \<^verbatim>\<open>start_all\<close> is never
  destroyed: its threads wait for the start for ever, and the destructor waits for them.
\<close>

theorem never_started_pool_hangs:
  assumes "cpool_init num = Some p0" and "2 \<le> unat num" and "cpool_step\<^sup>*\<^sup>* p0 p" and "po_owner p = Outside"
    and "po_start p \<noteq> 0" and "cpool_dtor p = Some p1" and "cpool_step\<^sup>*\<^sup>* p1 p2"
  shows "po_owner p2 \<noteq> Destroyed"
proof -
  let ?hang = "\<lambda>p. po_start p = 1 \<and> po_threads p \<noteq> [] \<and> set (po_threads p) \<subseteq> {Building, Announcing, Waiting}
    \<and> ((\<exists>i. po_owner p = Posting i) \<or> po_owner p = Joining 0)"
  have ok: "cpool_ok num p" and s: "shut_ok p" using cpool_reachable_ok [OF assms(1,3)] by simp_all
  have "announced (po_threads p) \<le> length (po_threads p)" unfolding announced_def by (rule length_filter_le)
  then have "po_threads p \<noteq> []" using ok assms(2,4) by (auto simp: cpool_ok_def)
  then have base: "?hang p1" using assms(4,5,6) s by (auto simp: cpool_dtor_def shut_ok_def)
  have step: "?hang q'" if h: "?hang q" and "cpool_step q q'" for q q'
    using that(2)
  proof cases
    case (run i)
    then show ?thesis using h run_keeps [OF run] run_threads [OF run] by auto
  next
    case dtor
    have "hd (po_threads q) \<in> {Building, Announcing, Waiting}" using h hd_in_set by blast
    then have "po_threads q ! 0 \<noteq> Exited" using h by (auto simp: hd_conv_nth)
    then have "(\<exists>i. po_owner q' = Posting i) \<or> po_owner q' = Joining 0"
      using dtor h by (auto simp: cpool_dtor_def split: if_splits)
    moreover have "po_threads q' = po_threads q \<and> po_start q' = po_start q"
      using dtor by (auto simp: cpool_dtor_def split: cpool_owner.splits if_splits)
    ultimately show ?thesis using h by simp
  qed (use h in \<open>auto simp: cpool_ctor_def\<close>)
  have "?hang p2" using assms(7) base by (induction rule: rtranclp_induct) (use step in blast)+
  then show ?thesis by auto
qed

lemma never_started_pool_hangs_witness:
  "\<not> (\<exists>p. cpool_step\<^sup>*\<^sup>* (cpool_two Waiting (Posting 1)\<lparr>po_state := CtxPendingDestroy\<rparr>) p \<and> po_owner p = Destroyed)"
  using never_started_pool_hangs [OF cpool_two_init _ cpool_two_steps]
  by (auto simp: cpool_two_def cpool_dtor_def)

end
