(* ===== verification/Pool_Offload.thy ===== *)
theory Pool_Offload
  imports Thread_Pool "HOL-Library.Multiset"
begin

section \<open>Work handed to the thread pool (core/thread_pool.h)\<close>

text \<open>
  \<^verbatim>\<open>ThreadPool::async\<close> and \<^verbatim>\<open>spawn_blocking\<close> run a function on a worker and bring its result back to the
  pool's context: \<^verbatim>\<open>async\<close> hands the context a task that calls a callback with the value,
  \<^verbatim>\<open>spawn_blocking\<close> stores the value in the suspended coroutine and queues the coroutine. This theory
  puts the pool, as it is in \<open>Thread_Pool\<close>, together with the context's queue.
\<close>

text \<open>
  A job is what the closure given to \<^verbatim>\<open>execute\<close> holds: the arguments of the function, for \<open>Async\<close> with
  its callback, for \<open>Blocking\<close> with the handle of the coroutine. Jobs are numbered in the order they
  were handed over; the number stands for the callback or the coroutine.
\<close>

datatype 'a job = Async 'a | Blocking 'a

datatype 'r delivery = CallBack nat 'r | Resume nat

fun job_args :: "'a job \<Rightarrow> 'a" where
  "job_args (Async a) = a" | "job_args (Blocking a) = a"

fun delivery_job :: "'r delivery \<Rightarrow> nat" where
  "delivery_job (CallBack i v) = i" | "delivery_job (Resume i) = i"

text \<open>
  \<open>of_results\<close> are the variables \<^verbatim>\<open>result\<close> of the coroutines in \<^verbatim>\<open>spawn_blocking\<close>; \<open>of_delivered\<close> is what
  the context's thread did: the job and the value its callback was called with, or its coroutine
  returned (\<open>None\<close>: it read an empty \<^verbatim>\<open>std::optional\<close>).
\<close>

record ('a, 'r) offload =
  of_pool :: "nat pool"
  of_jobs :: "'a job list"
  of_context :: "'r delivery list"
  of_results :: "nat \<Rightarrow> 'r option"
  of_delivered :: "(nat \<times> 'r option) list"

definition offload_new :: "nat pool \<Rightarrow> ('a, 'r) offload" where
  "offload_new p = \<lparr>of_pool = p, of_jobs = [], of_context = [], of_results = (\<lambda>_. None), of_delivered = []\<rparr>"

definition offload_submit :: "'a job \<Rightarrow> ('a, 'r) offload \<Rightarrow> ('a, 'r) offload" where
  "offload_submit j s = s\<lparr>of_jobs := of_jobs s @ [j], of_pool := pool_execute (length (of_jobs s)) (of_pool s)\<rparr>"

definition pool_async :: "'a \<Rightarrow> ('a, 'r) offload \<Rightarrow> ('a, 'r) offload" where
  "pool_async args s = offload_submit (Async args) s"

definition spawn_blocking :: "'a \<Rightarrow> ('a, 'r) offload \<Rightarrow> ('a, 'r) offload" where
  "spawn_blocking args s = offload_submit (Blocking args) s"

text \<open>The closure of a job, on the worker: call the function, then hand over to the context.\<close>

definition run_job :: "('a \<Rightarrow> 'r) \<Rightarrow> nat \<Rightarrow> ('a, 'r) offload \<Rightarrow> ('a, 'r) offload" where
  "run_job func i s =
     (case of_jobs s ! i of
        Async args \<Rightarrow> s\<lparr>of_context := of_context s @ [CallBack i (func args)]\<rparr>
      | Blocking args \<Rightarrow> s\<lparr>of_results := (of_results s)(i := Some (func args)), of_context := of_context s @ [Resume i]\<rparr>)"

text \<open>The context's thread runs the first task of its queue.\<close>

definition run_delivery :: "'r delivery \<Rightarrow> ('a, 'r) offload \<Rightarrow> ('a, 'r) offload" where
  "run_delivery d s =
     (case d of
        CallBack i v \<Rightarrow> s\<lparr>of_delivered := of_delivered s @ [(i, Some v)]\<rparr>
      | Resume i \<Rightarrow> s\<lparr>of_delivered := of_delivered s @ [(i, of_results s i)]\<rparr>)"

text \<open>
  The steps: the two calls, a worker that runs its task to the end, the context's thread, and every
  other step of the pool.
\<close>

inductive offload_step :: "('a \<Rightarrow> 'r) \<Rightarrow> ('a, 'r) offload \<Rightarrow> ('a, 'r) offload \<Rightarrow> bool" for func where
  async: "offload_step func s (pool_async args s)"
| blocking: "offload_step func s (spawn_blocking args s)"
| finish: "tp_workers (of_pool s) w = RunningTask i \<Longrightarrow> worker_finish False w (of_pool s) = Inr p
    \<Longrightarrow> offload_step func s (run_job func i s\<lparr>of_pool := p\<rparr>)"
| deliver: "of_context s = d # ds \<Longrightarrow> offload_step func s (run_delivery d (s\<lparr>of_context := ds\<rparr>))"
| pool: "pool_step (of_pool s) p \<Longrightarrow> tp_submitted p = tp_submitted (of_pool s)
    \<Longrightarrow> (\<forall>w i. tp_workers (of_pool s) w = RunningTask i \<longrightarrow> tp_workers p w = RunningTask i)
    \<Longrightarrow> offload_step func s (s\<lparr>of_pool := p\<rparr>)"

subsection \<open>Where the jobs are\<close>

definition running_job :: "'t worker \<Rightarrow> 't option" where
  "running_job w = (case w of RunningTask i \<Rightarrow> Some i | _ \<Rightarrow> None)"

definition running_jobs :: "(nat \<Rightarrow> 't worker) \<Rightarrow> nat \<Rightarrow> 't multiset" where
  "running_jobs ws n = mset (List.map_filter (\<lambda>w. running_job (ws w)) [0..<n])"

definition job_places :: "('a, 'r) offload \<Rightarrow> nat multiset" where
  "job_places s = mset (tp_tasks (of_pool s)) + running_jobs (tp_workers (of_pool s)) (tp_num (of_pool s))
     + mset (map delivery_job (of_context s)) + mset (map fst (of_delivered s))"

lemma running_job_simps [simp]:
  "running_job NotStarted = None" "running_job Checking = None" "running_job Asleep = None"
  "running_job (RunningTask i) = Some i" "running_job Exited = None"
  by (simp_all add: running_job_def)

lemma running_job_Some: "running_job w = Some i \<longleftrightarrow> w = RunningTask i"
  by (cases w) auto

definition maybe :: "'t option \<Rightarrow> 't multiset" where
  "maybe x = (case x of None \<Rightarrow> {#} | Some i \<Rightarrow> {#i#})"

lemma maybe_simps [simp]: "maybe None = {#}" "maybe (Some i) = {#i#}"
  by (simp_all add: maybe_def)

lemma running_jobs_cong:
  assumes "\<And>w. running_job (vs w) = running_job (ws w)"
  shows "running_jobs vs n = running_jobs ws n"
  unfolding running_jobs_def using assms by simp

lemma running_jobs_upd:
  assumes "w < n"
  shows "running_jobs (ws(w := x)) n + maybe (running_job (ws w)) = running_jobs ws n + maybe (running_job x)"
proof -
  have n: "[0..<n] = [0..<w] @ w # [Suc w..<n]"
    using assms upt_add_eq_append [of 0 w "n - w"] by (simp add: upt_conv_Cons)
  have "List.map_filter (\<lambda>k. running_job ((ws(w := x)) k)) [0..<w] = List.map_filter (\<lambda>k. running_job (ws k)) [0..<w]"
    by (rule map_filter_cong) simp
  moreover have "List.map_filter (\<lambda>k. running_job ((ws(w := x)) k)) [Suc w..<n]
      = List.map_filter (\<lambda>k. running_job (ws k)) [Suc w..<n]"
    by (rule map_filter_cong) simp
  ultimately show ?thesis
    unfolding running_jobs_def n map_filter_append by (auto simp: List.map_filter_simps split: option.split)
qed

lemma started_bound: "pool_inv p \<Longrightarrow> tp_workers p w \<noteq> NotStarted \<Longrightarrow> w < tp_num p"
  by (auto simp: pool_inv_def)

text \<open>Every step of the pool keeps the tasks that it does not finish.\<close>

definition pool_jobs :: "'t pool \<Rightarrow> 't multiset" where
  "pool_jobs p = mset (tp_tasks p) + running_jobs (tp_workers p) (tp_num p)"

lemma pool_jobs_quiet:
  assumes "tp_tasks q = tp_tasks p" and "tp_num q = tp_num p" and "\<And>w. running_job (tp_workers q w) = running_job (tp_workers p w)"
  shows "pool_jobs q = pool_jobs p"
  using running_jobs_cong [OF assms(3)] assms(1,2) by (simp add: pool_jobs_def)

lemma pool_jobs_check:
  assumes inv: "pool_inv p" and w: "tp_workers p w = Checking"
  shows "pool_jobs (worker_check w p) = pool_jobs p"
proof (cases rule: worker_check_cases [of p w])
  case sleep
  then show ?thesis using w by (auto intro!: pool_jobs_quiet)
next
  case exit
  then show ?thesis using w by (auto intro!: pool_jobs_quiet)
next
  case (take t ts)
  have "w < tp_num p" using started_bound [OF inv] w by simp
  from running_jobs_upd [OF this, of "tp_workers p" "RunningTask t"] w take show ?thesis by (simp add: pool_jobs_def)
qed

lemma pool_jobs_step:
  assumes "pool_step p q" and inv: "pool_inv p" and "tp_submitted q = tp_submitted p"
    and keep: "\<forall>w i. tp_workers p w = RunningTask i \<longrightarrow> tp_workers q w = RunningTask i"
  shows "pool_jobs q = pool_jobs p"
  using assms(1) unfolding pool_step_def
proof (elim disjE)
  assume "pool_internal p q"
  then show ?thesis
  proof cases
    case (check w) then show ?thesis using pool_jobs_check [OF inv] by simp
  next
    case (finish w t)
    then have "tp_workers q w = Checking" by (auto simp: worker_finish_def)
    with keep finish show ?thesis by fastforce
  qed (auto intro!: pool_jobs_quiet simp: wake_workers_def wait_pred_def)
next
  assume "pool_client p q"
  then show ?thesis
  proof cases
    case (execute t) then show ?thesis using assms(3) by (simp add: pool_execute_def)
  next
    case start
    have "running_job (tp_workers p w) = None" if "\<not> tp_once p" for w
      using inv that by (auto simp: pool_inv_def)
    then show ?thesis using start by (auto intro!: pool_jobs_quiet simp: pool_start_def Let_def)
  qed (auto intro!: pool_jobs_quiet simp: pool_stop_def pool_wait_def wait_pred_def pool_destroy_def)
next
  assume "pool_spurious p q"
  then show ?thesis by cases (auto intro!: pool_jobs_quiet)
qed

subsection \<open>The invariant\<close>

definition delivery_ok :: "('a \<Rightarrow> 'r) \<Rightarrow> 'a job list \<Rightarrow> (nat \<Rightarrow> 'r option) \<Rightarrow> 'r delivery \<Rightarrow> bool" where
  "delivery_ok func jobs res d \<longleftrightarrow>
     (case d of
        CallBack i v \<Rightarrow> i < length jobs \<and> jobs ! i = Async (job_args (jobs ! i)) \<and> v = func (job_args (jobs ! i))
      | Resume i \<Rightarrow> i < length jobs \<and> jobs ! i = Blocking (job_args (jobs ! i)) \<and> res i = Some (func (job_args (jobs ! i))))"

definition offload_inv :: "('a \<Rightarrow> 'r) \<Rightarrow> ('a, 'r) offload \<Rightarrow> bool" where
  "offload_inv func s \<longleftrightarrow> pool_inv (of_pool s)
     \<and> job_places s = mset [0..<length (of_jobs s)]
     \<and> (\<forall>d\<in>set (of_context s). delivery_ok func (of_jobs s) (of_results s) d)
     \<and> (\<forall>(i, v)\<in>set (of_delivered s). i < length (of_jobs s) \<and> v = Some (func (job_args (of_jobs s ! i))))"

lemma job_places_conv:
  "job_places s = pool_jobs (of_pool s) + mset (map delivery_job (of_context s)) + mset (map fst (of_delivered s))"
  by (simp add: job_places_def pool_jobs_def)

lemma delivery_ok_append: "delivery_ok func jobs res d \<Longrightarrow> delivery_ok func (jobs @ [j]) res d"
  by (auto simp: delivery_ok_def nth_append split: delivery.splits)

lemma offload_inv_submit:
  assumes "offload_inv func s"
  shows "offload_inv func (offload_submit j s)"
proof -
  have "pool_inv (pool_execute (length (of_jobs s)) (of_pool s))"
    using assms by (intro inv_client [OF pool_client.execute]) (simp add: offload_inv_def)
  moreover have "pool_jobs (pool_execute (length (of_jobs s)) (of_pool s)) = add_mset (length (of_jobs s)) (pool_jobs (of_pool s))"
    by (simp add: pool_jobs_def pool_execute_def)
  ultimately show ?thesis using assms
    by (auto simp: offload_inv_def offload_submit_def job_places_conv delivery_ok_append nth_append)
qed

lemma offload_inv_finish:
  assumes inv: "offload_inv func s" and w: "tp_workers (of_pool s) w = RunningTask i"
    and p: "worker_finish False w (of_pool s) = Inr p"
  shows "offload_inv func (run_job func i s\<lparr>of_pool := p\<rparr>)"
proof -
  have pi: "pool_inv (of_pool s)" using inv by (simp add: offload_inv_def)
  have n: "w < tp_num (of_pool s)" using started_bound [OF pi] w by simp
  have p': "p = (of_pool s)\<lparr>tp_workers := (tp_workers (of_pool s))(w := Checking)\<rparr>" using p by (simp add: worker_finish_def)
  have "pool_inv p" using inv_internal [OF pool_internal.finish [OF w p] pi] .
  moreover have j: "add_mset i (pool_jobs p) = pool_jobs (of_pool s)"
    using running_jobs_upd [OF n, of "tp_workers (of_pool s)" Checking] w by (simp add: pool_jobs_def p')
  moreover have "i \<in># job_places s" unfolding job_places_conv j [symmetric] by simp
  then have "i < length (of_jobs s)" using inv by (simp add: offload_inv_def)
  ultimately show ?thesis using inv
    by (cases "of_jobs s ! i")
      (auto simp: offload_inv_def run_job_def job_places_conv j [symmetric] delivery_ok_def split: delivery.splits)
qed

lemma offload_inv_deliver:
  assumes inv: "offload_inv func s" and d: "of_context s = d # ds"
  shows "offload_inv func (run_delivery d (s\<lparr>of_context := ds\<rparr>))"
proof -
  have "delivery_ok func (of_jobs s) (of_results s) d" using inv d by (simp add: offload_inv_def)
  with inv d show ?thesis
    by (cases d) (auto simp: offload_inv_def run_delivery_def job_places_conv delivery_ok_def)
qed

lemma offload_inv_step: "offload_inv func s \<Longrightarrow> offload_step func s t \<Longrightarrow> offload_inv func t"
proof (erule offload_step.cases)
  fix s' p assume inv: "offload_inv func s" and s': "s = s'" "t = s'\<lparr>of_pool := p\<rparr>" "pool_step (of_pool s') p"
    and eq: "tp_submitted p = tp_submitted (of_pool s')"
      "\<forall>w i. tp_workers (of_pool s') w = RunningTask i \<longrightarrow> tp_workers p w = RunningTask i"
  have pi: "pool_inv (of_pool s)" using inv by (simp add: offload_inv_def)
  have "pool_jobs p = pool_jobs (of_pool s)" using pool_jobs_step [of "of_pool s" p] s' eq pi by simp
  moreover have "pool_inv p" using s' pi inv_internal inv_client inv_spurious unfolding pool_step_def by blast
  ultimately show "offload_inv func t" using inv s' by (simp add: offload_inv_def job_places_conv)
qed (auto simp: pool_async_def spawn_blocking_def offload_inv_submit offload_inv_finish offload_inv_deliver)

lemma running_jobs_none: "(\<And>w. running_job (ws w) = None) \<Longrightarrow> running_jobs ws n = {#}"
  by (induction n) (simp_all add: running_jobs_def List.map_filter_simps)

lemma offload_inv_new:
  assumes "pool_new n = Inr p"
  shows "offload_inv func (offload_new p)"
  using assms inv_pool_new [OF assms]
  by (auto simp: offload_inv_def offload_new_def job_places_def pool_new_def running_jobs_none split: if_splits)

interpretation ofl: transition_system "\<lambda>s. \<exists>p. pool_new n = Inr p \<and> s = offload_new p" "offload_step func" "offload_inv func"
  for n func
  by unfold_locales (auto intro: offload_inv_new offload_inv_step)

subsection \<open>Properties\<close>

text \<open>
  Property C18: work handed to the pool comes back exactly once and right. Whatever the interleaving, each
  job of \<^verbatim>\<open>async\<close> and \<^verbatim>\<open>spawn_blocking\<close> is in exactly one place: in the pool's queue, on a worker, in the
  context's queue or delivered; and a delivered job's callback was called with, or its coroutine
  returned, the value of the function on its own arguments. No coroutine reads an empty result.
\<close>

theorem offloaded_work_comes_back_once:
  assumes "pool_new n = Inr p" and "(offload_step func)\<^sup>*\<^sup>* (offload_new p) s"
  shows "count (job_places s) i = of_bool (i < length (of_jobs s))
    \<and> ((i, v) \<in> set (of_delivered s) \<longrightarrow> i < length (of_jobs s) \<and> v = Some (func (job_args (of_jobs s ! i))))"
proof -
  have inv: "offload_inv func s" using ofl.reachable_inv [of n "offload_new p" func s] assms by blast
  then have "count (job_places s) i = count (mset [0..<length (of_jobs s)]) i" by (simp add: offload_inv_def)
  also have "\<dots> = of_bool (i < length (of_jobs s))" by (simp add: distinct_count_atmost_1 [THEN iffD1] del: mset_upt)
  finally show ?thesis using inv by (auto simp: offload_inv_def)
qed

text \<open>A pool of one worker that doubles a number for a coroutine.\<close>

definition one_pool :: "nat pool" where
  "one_pool = (case pool_new 1 of Inr p \<Rightarrow> p)"

definition offload_demo :: "(nat, nat) offload" where
  "offload_demo =
     (let s = spawn_blocking 4 (offload_new one_pool);
          s = s\<lparr>of_pool := worker_check 0 (pool_start (of_pool s))\<rparr>;
          s = run_job (\<lambda>x. 2 * x) 0 s\<lparr>of_pool := (case worker_finish False 0 (of_pool s) of Inr p \<Rightarrow> p)\<rparr>
      in run_delivery (hd (of_context s)) (s\<lparr>of_context := tl (of_context s)\<rparr>))"

lemmas offload_demo_defs = offload_submit_def spawn_blocking_def offload_new_def one_pool_def pool_new_def
  run_job_def run_delivery_def pool_op_defs

lemma offload_demo_reachable: "(offload_step (\<lambda>x. 2 * x))\<^sup>*\<^sup>* (offload_new one_pool) offload_demo"
proof -
  let ?f = "\<lambda>x :: nat. 2 * x"
  define s1 :: "(nat, nat) offload" where "s1 = spawn_blocking 4 (offload_new one_pool)"
  define s2 where "s2 = s1\<lparr>of_pool := pool_start (of_pool s1)\<rparr>"
  define s3 where "s3 = s2\<lparr>of_pool := worker_check 0 (of_pool s2)\<rparr>"
  define p4 where "p4 = (case worker_finish False 0 (of_pool s3) of Inr p \<Rightarrow> p)"
  define s4 where "s4 = run_job ?f 0 s3\<lparr>of_pool := p4\<rparr>"
  note d = s1_def s2_def s3_def p4_def s4_def offload_demo_defs
  have "offload_step ?f (offload_new one_pool) s1" unfolding s1_def by (rule offload_step.blocking)
  moreover have "pool_client (of_pool s1) (pool_start (of_pool s1))" by (rule pool_client.start) (simp add: d)
  then have "offload_step ?f s1 s2" unfolding s2_def
    by (intro offload_step.pool) (simp_all add: pool_step_def, simp_all add: d)
  moreover have "pool_internal (of_pool s2) (worker_check 0 (of_pool s2))" by (rule pool_internal.check) (simp add: d)
  then have "offload_step ?f s2 s3" unfolding s3_def
    by (intro offload_step.pool) (simp_all add: pool_step_def, simp_all add: d)
  moreover have "offload_step ?f s3 s4" unfolding s4_def
    by (rule offload_step.finish [of _ 0]) (simp_all add: d)
  moreover have "offload_step ?f s4 (run_delivery (Resume 0) (s4\<lparr>of_context := []\<rparr>))"
    by (rule offload_step.deliver) (simp add: d)
  moreover have "offload_demo = run_delivery (Resume 0) (s4\<lparr>of_context := []\<rparr>)"
    by (simp add: offload_demo_def d)
  ultimately show ?thesis by (simp add: converse_rtranclp_into_rtranclp)
qed

lemma offloaded_work_comes_back_once_witness:
  "of_delivered offload_demo = [(0, Some 8)] \<and> count (job_places offload_demo) 0 = 1
   \<and> length (of_jobs offload_demo) = 1"
proof -
  have p: "pool_new 1 = Inr one_pool" by (simp add: one_pool_def pool_new_def)
  have j: "of_jobs offload_demo = [Blocking 4]" "map fst (of_delivered offload_demo) = [0]"
    by (simp_all add: offload_demo_def offload_demo_defs)
  then obtain v where v: "of_delivered offload_demo = [(0, v)]" by (cases "of_delivered offload_demo") auto
  from offloaded_work_comes_back_once [OF p offload_demo_reachable, of 0 v] v j show ?thesis by simp
qed

end
