(* ===== verification/Await_Handles.thy ===== *)
theory Await_Handles
  imports Io_Service
begin

section \<open>The handle of an awaited operation (core/io_context.h, net/socket.cpp)\<close>

text \<open>
  What every coroutine operation on files, pipes and sockets does on its own side: it keeps a
  \<^verbatim>\<open>ResumeHandle\<close> in its frame, suspends, and makes a request whose user pointer is the handle's address;
  \<^verbatim>\<open>resume_callback\<close> stores the result there and resumes it. The theories of the two back ends compose
  this with a service.
\<close>

record resume_handle =
  rh_ec :: error_code
  rh_res :: size_t
  rh_handle :: nat

text \<open>
  \<open>aw_rh\<close> are the \<^verbatim>\<open>ResumeHandle\<close>s by address: each lives in the frame of its suspended
  coroutine. \<open>aw_wait\<close> tells which coroutine is suspended, and in which handle. \<open>aw_req\<close> and \<open>aw_done\<close>
  record the history: what was awaited and by whom, and what \<^verbatim>\<open>co_await\<close> gave. \<open>aw_wild\<close> is set when a
  callback writes through a pointer that is not the address of a handle.
\<close>

record 'r await_base =
  aw_rh :: "nat \<rightharpoonup> resume_handle"
  aw_next :: nat
  aw_wait :: "nat \<Rightarrow> nat option"
  aw_req :: "nat \<rightharpoonup> nat \<times> 'r"
  aw_done :: "(nat \<times> nat \<times> error_code \<times> size_t) list"
  aw_wild :: bool

text \<open>
  \<^verbatim>\<open>co_await GetCoroutineHandle(...)\<close> of coroutine \<open>h\<close>, without the request itself: the handle's \<^verbatim>\<open>ec\<close> and
  \<^verbatim>\<open>res\<close> are not read before the callback sets them.
\<close>

definition suspend_in :: "nat \<Rightarrow> 'r \<Rightarrow> ('r, 'z) await_base_scheme \<Rightarrow> ('r, 'z) await_base_scheme" where
  "suspend_in h req s =
     s\<lparr>aw_rh := (aw_rh s)(aw_next s \<mapsto> \<lparr>rh_ec = no_error, rh_res = 0, rh_handle = h\<rparr>), aw_next := Suc (aw_next s),
       aw_wait := (aw_wait s)(h := Some (aw_next s)), aw_req := (aw_req s)(aw_next s \<mapsto> (h, req))\<rparr>"

text \<open>The coroutine goes on: it reads the handle and returns, and the handle goes with its frame.\<close>

definition io_resumed :: "nat \<Rightarrow> resume_handle \<Rightarrow> ('r, 'z) await_base_scheme \<Rightarrow> ('r, 'z) await_base_scheme" where
  "io_resumed p r s =
     s\<lparr>aw_rh := (aw_rh s)(p := None), aw_wait := (aw_wait s)(rh_handle r := None),
       aw_done := aw_done s @ [(p, rh_handle r, rh_ec r, rh_res r)]\<rparr>"

definition resume_callback :: "error_code \<Rightarrow> size_t \<Rightarrow> nat io_ptr \<Rightarrow> ('r, 'z) await_base_scheme \<Rightarrow> ('r, 'z) await_base_scheme" where
  "resume_callback ec res ptr s =
     (case ptr of
        UserPtr p \<Rightarrow>
          (case aw_rh s p of
             Some r \<Rightarrow> io_resumed p (r\<lparr>rh_ec := ec, rh_res := res\<rparr>) s
           | None \<Rightarrow> s\<lparr>aw_wild := True\<rparr>)
      | _ \<Rightarrow> s\<lparr>aw_wild := True\<rparr>)"

text \<open>A suspended coroutine and its handle correspond one to one.\<close>

definition handles_ok :: "('r, 'z) await_base_scheme \<Rightarrow> bool" where
  "handles_ok s \<longleftrightarrow>
     (\<forall>p. p \<in> dom (aw_req s) \<longleftrightarrow> p < aw_next s)
   \<and> (\<forall>p r. aw_rh s p = Some r \<longrightarrow> p < aw_next s \<and> aw_wait s (rh_handle r) = Some p
        \<and> (\<exists>req. aw_req s p = Some (rh_handle r, req)))
   \<and> (\<forall>h p. aw_wait s h = Some p \<longrightarrow> (\<exists>r. aw_rh s p = Some r \<and> rh_handle r = h))"

lemma handles_okD:
  assumes "handles_ok s"
  shows "\<And>q. q \<in> dom (aw_req s) \<longleftrightarrow> q < aw_next s"
    and "\<And>q r. aw_rh s q = Some r \<Longrightarrow> q < aw_next s \<and> aw_wait s (rh_handle r) = Some q
        \<and> (\<exists>req. aw_req s q = Some (rh_handle r, req))"
    and "\<And>h q. aw_wait s h = Some q \<Longrightarrow> \<exists>r. aw_rh s q = Some r \<and> rh_handle r = h"
  using assms unfolding handles_ok_def by blast+

lemma handles_ok_suspend:
  assumes ok: "handles_ok s" and wait: "aw_wait s h = None"
  shows "handles_ok (suspend_in h req s)"
proof -
  have new: "aw_next s \<notin> dom (aw_rh s)" "aw_next s \<notin> dom (aw_req s)" using handles_okD(1,2) [OF ok] by auto
  then have "aw_wait s k \<noteq> Some (aw_next s)" for k using handles_okD(3) [OF ok] by (metis domI)
  with ok wait new show ?thesis unfolding handles_ok_def suspend_in_def by (auto simp: less_Suc_eq)
qed

lemma handles_ok_resumed:
  assumes ok: "handles_ok s" and r: "aw_rh s p = Some r" and t: "aw_rh t = (aw_rh s)(p := None)"
    "aw_wait t = (aw_wait s)(rh_handle r := None)" "aw_req t = aw_req s" "aw_next t = aw_next s"
  shows "handles_ok t"
proof -
  have rh: "\<And>q r'. aw_rh s q = Some r' \<Longrightarrow> q < aw_next s \<and> aw_wait s (rh_handle r') = Some q
        \<and> (\<exists>req. aw_req s q = Some (rh_handle r', req))"
    and wait: "\<And>h q. aw_wait s h = Some q \<Longrightarrow> \<exists>r'. aw_rh s q = Some r' \<and> rh_handle r' = h"
    and req: "\<And>q. q \<in> dom (aw_req s) \<longleftrightarrow> q < aw_next s" using ok unfolding handles_ok_def by blast+
  have "q < aw_next t \<and> aw_wait t (rh_handle r') = Some q \<and> (\<exists>req. aw_req t q = Some (rh_handle r', req))"
    if q: "aw_rh t q = Some r'" for q r'
  proof -
    have "q \<noteq> p" "aw_rh s q = Some r'" using q by (auto simp: t split: if_splits)
    moreover then have "rh_handle r' \<noteq> rh_handle r" using rh [of q r'] rh [OF r] by auto
    ultimately show ?thesis using rh [of q r'] by (simp add: t)
  qed
  moreover have "\<exists>r'. aw_rh t q = Some r' \<and> rh_handle r' = h" if q: "aw_wait t h = Some q" for h q
  proof -
    have "h \<noteq> rh_handle r" "aw_wait s h = Some q" using q by (auto simp: t split: if_splits)
    then show ?thesis using wait [of h q] r by (auto simp: t)
  qed
  ultimately show ?thesis unfolding handles_ok_def using req by (simp add: t)
qed

end
