(* ===== verification/Io_Await.thy ===== *)
theory Io_Await
  imports Io_Uring Await_Handles
begin

section \<open>Awaiting I/O: coroutines over the I/O service (core/io_context.h, net/socket.cpp, core/file.cpp)\<close>

text \<open>
  The coroutine form of every operation on files, pipes and sockets has one shape: a local
  \<^verbatim>\<open>ResumeHandle\<close>, suspension with \<^verbatim>\<open>GetCoroutineHandle\<close>, a request to the service whose
  user pointer is the handle's address, and \<^verbatim>\<open>resume_callback\<close>, which stores the result there and
  resumes the coroutine. This theory composes it with the service front end and the io_uring back
  end: any number of coroutines of one context await operations, while the ring is polled, the
  kernel completes entries in any order and callbacks run.
\<close>

subsection \<open>Over the ring\<close>

text \<open>
  \<open>aw_given\<close> records what the kernel was made to execute and with which result; \<open>aw_failed\<close> is set when the
  kernel fails an operation on messages.
\<close>

record await_sys = "nat io_request await_base" +
  aw_ring :: "nat ring"
  aw_given :: "nat \<rightharpoonup> nat io_request \<times> int"
  aw_failed :: bool

definition io_await :: "nat \<Rightarrow> nat io_request \<Rightarrow> await_sys \<Rightarrow> await_sys option" where
  "io_await h req s =
     (case ring_issue req (aw_next s) (aw_ring s) of
        None \<Rightarrow> None
      | Some r \<Rightarrow> Some (suspend_in h req (s\<lparr>aw_ring := r\<rparr>)))"

definition io_deliver :: "(int \<Rightarrow> byte list) \<Rightarrow> await_sys \<Rightarrow> await_sys option" where
  "io_deliver peername s =
     (case next_cqe peername (aw_ring s) of
        None \<Rightarrow> None
      | Some r \<Rightarrow>
          (let k = last (rg_calls r); s' = s\<lparr>aw_ring := r\<rparr>
           in if ic_cb (the_ctx (ca_ctx k) (aw_ring s)) = UserCb
              then Some (resume_callback (ca_ec k) (ca_res k) (ca_ptr k) s') else Some s'))"

subsection \<open>What the kernel reads\<close>

text \<open>
  A submission entry as the kernel understands it: it follows the addresses in the entry to the
  context and the message header.
\<close>

definition kernel_request :: "('p, 'z) io_heap_scheme \<Rightarrow> sqe \<Rightarrow> 'q io_request option" where
  "kernel_request s e =
     (case sq_prep e of
        PrepWrite fd b n off \<Rightarrow> Some (WriteFileReq fd b n off)
      | PrepRead fd b n off \<Rightarrow> Some (ReadFileReq fd b n off)
      | PrepAccept fd a \<Rightarrow> Some (AcceptReq fd)
      | PrepConnect fd a \<Rightarrow> map_option (\<lambda>c. ConnectReq fd (ic_addr c)) (ih_ctx s a)
      | PrepSend fd b n \<Rightarrow> Some (SendReq fd b n)
      | PrepRecv fd b n \<Rightarrow> Some (ReceiveReq fd b n)
      | PrepSendmsg fd m \<Rightarrow>
          (case ih_msg s m of None \<Rightarrow> None
           | Some r \<Rightarrow> map_option (\<lambda>c. SendToReq fd (ic_addr c) (ic_buf c) (ic_len c)) (ih_ctx s (rm_ctx r)))
      | PrepRecvmsg fd m \<Rightarrow>
          (case ih_msg s m of None \<Rightarrow> None
           | Some r \<Rightarrow> map_option (\<lambda>c. ReceiveFromReq fd (ic_buf c) (ic_len c)) (ih_ctx s (rm_ctx r)))
      | _ \<Rightarrow> None)"

definition is_msg_req :: "'p io_request \<Rightarrow> bool" where
  "is_msg_req req = (case req of SendToReq fd a b n \<Rightarrow> True | ReceiveFromReq fd b n \<Rightarrow> True | _ \<Rightarrow> False)"

text \<open>The entry's own memory: its context, or a message of its context.\<close>

definition own_memory :: "('p, 'z) io_heap_scheme \<Rightarrow> sqe \<Rightarrow> bool" where
  "own_memory s e =
     (case sq_prep e of
        PrepConnect fd a \<Rightarrow> a = sq_data e
      | PrepSendmsg fd m \<Rightarrow> (\<exists>r. ih_msg s m = Some r \<and> rm_ctx r = sq_data e)
      | PrepRecvmsg fd m \<Rightarrow> (\<exists>r. ih_msg s m = Some r \<and> rm_ctx r = sq_data e)
      | _ \<Rightarrow> True)"

definition carries :: "('p, 'z) io_heap_scheme \<Rightarrow> sqe \<Rightarrow> 'q io_request \<Rightarrow> bool" where
  "carries s e req \<longleftrightarrow> kernel_request s e = Some req \<and> own_memory s e"

lemma carries_cong:
  assumes "carries s e req"
    and "\<And>c. ih_ctx s (sq_data e) = Some c \<Longrightarrow> ih_ctx t (sq_data e) = Some c"
    and "\<And>m r. ih_msg s m = Some r \<Longrightarrow> rm_ctx r = sq_data e \<Longrightarrow> \<exists>r'. ih_msg t m = Some r' \<and> rm_ctx r' = rm_ctx r"
  shows "carries t e req"
  using assms by (fastforce simp: carries_def kernel_request_def own_memory_def split: sqe_prep.splits option.splits)

lemma issue_carries:
  assumes "ring_issue req p s = Some t"
  shows "\<exists>prep. rg_sq t = rg_sq s @ [\<lparr>sq_prep = prep, sq_data = ih_next s\<rparr>]
     \<and> carries t \<lparr>sq_prep = prep, sq_data = ih_next s\<rparr> req \<and> prep \<noteq> PrepWakeUpRead
     \<and> is_msg_op (ic_op (the_ctx (ih_next s) t)) = is_msg_req req"
  using assms
  by (cases req)
    (auto simp: svc_defs new_ctx_def wrap_msg_def put_sqe_def count_io_def io_buf_def blank_ctx_def the_ctx_def
      the_msg_def carries_def kernel_request_def own_memory_def is_msg_op_def is_msg_req_def
      ring_write_file_def ring_read_file_def ring_accept_def ring_connect_def ring_send_def
      ring_receive_def ring_send_to_def ring_receive_from_def split: if_splits)

subsection \<open>The step relation\<close>

definition is_msg_prep :: "sqe_prep \<Rightarrow> bool" where
  "is_msg_prep prep = (case prep of PrepSendmsg fd m \<Rightarrow> True | PrepRecvmsg fd m \<Rightarrow> True | _ \<Rightarrow> False)"

text \<open>The kernel completes the entry \<open>e\<close>, which leaves \<open>rest\<close>.\<close>

definition kernel_takes :: "sqe list \<Rightarrow> sqe \<Rightarrow> int \<Rightarrow> nat \<Rightarrow> nat ring \<Rightarrow> nat ring" where
  "kernel_takes rest e res n r =
     r\<lparr>rg_kernel := rest, rg_cq := rg_cq r @ [\<lparr>cq_data = sq_data e, cq_res = res\<rparr>],
       ih_msg := set_namelen (sq_prep e) n (ih_msg r)\<rparr>"

definition note_given :: "sqe \<Rightarrow> int \<Rightarrow> await_sys \<Rightarrow> nat \<rightharpoonup> nat io_request \<times> int" where
  "note_given e res s =
     (case (ih_user (aw_ring s) (sq_data e), kernel_request (aw_ring s) e) of
        (Some p, Some req) \<Rightarrow> (aw_given s)(p \<mapsto> (req, res))
      | _ \<Rightarrow> aw_given s)"

inductive await_step :: "(int \<Rightarrow> byte list) \<Rightarrow> await_sys \<Rightarrow> await_sys \<Rightarrow> bool" for peername where
  await: "aw_wait s h = None \<Longrightarrow> io_await h req s = Some t \<Longrightarrow> await_step peername s t"
| cancel: "ring_cancel fd (aw_ring s) = Some r \<Longrightarrow> await_step peername s (s\<lparr>aw_ring := r\<rparr>)"
| wake_up: "await_step peername s (s\<lparr>aw_ring := ring_wake_up (aw_ring s)\<rparr>)"
| poll: "await_step peername s (s\<lparr>aw_ring := snd (ring_poll nanosec r ec (aw_ring s))\<rparr>)"
| kernel: "rg_kernel (aw_ring s) = xs @ e # ys \<Longrightarrow> sq_prep e \<noteq> PrepWakeUpRead \<Longrightarrow>
    await_step peername s (s\<lparr>aw_ring := kernel_takes (xs @ ys) e res n (aw_ring s),
      aw_given := note_given e res s, aw_failed := aw_failed s \<or> res < 0 \<and> is_msg_prep (sq_prep e)\<rparr>)"
| kernel_wake_up: "rg_kernel (aw_ring s) = xs @ e # ys \<Longrightarrow> sq_prep e = PrepWakeUpRead \<Longrightarrow> 0 < rg_event (aw_ring s) \<Longrightarrow>
    await_step peername s (s\<lparr>aw_ring := (aw_ring s)\<lparr>rg_kernel := xs @ ys,
      rg_cq := rg_cq (aw_ring s) @ [\<lparr>cq_data = sq_data e, cq_res = 8\<rparr>], rg_event := 0\<rparr>\<rparr>)"
| deliver: "io_deliver peername s = Some t \<Longrightarrow> await_step peername s t"

abbreviation await_steps :: "(int \<Rightarrow> byte list) \<Rightarrow> await_sys \<Rightarrow> await_sys \<Rightarrow> bool" where
  "await_steps peername \<equiv> (await_step peername)\<^sup>*\<^sup>*"

definition await_new :: "nat ring \<Rightarrow> await_sys" where
  "await_new r = \<lparr>aw_rh = Map.empty, aw_next = 0, aw_wait = (\<lambda>_. None), aw_req = Map.empty, aw_done = [],
                 aw_wild = False, aw_ring = r, aw_given = Map.empty, aw_failed = False\<rparr>"

text \<open>Every step of the composition is at most one step of the ring.\<close>

lemma await_step_ring:
  "await_step peername s t \<Longrightarrow> ring_step peername (aw_ring s) (aw_ring t) \<or> aw_ring t = aw_ring s"
proof (induction rule: await_step.induct)
  case (await s h req t)
  then show ?case by (auto simp: io_await_def suspend_in_def Let_def intro: ring_step.issue split: option.splits)
next
  case (kernel s xs e ys res n)
  from ring_step.kernel [OF this] show ?case by (simp add: kernel_takes_def)
next
  case (deliver s t)
  then show ?case
    by (auto simp: io_deliver_def Let_def resume_callback_def io_resumed_def intro: ring_step.deliver
        split: option.splits io_ptr.splits if_splits)
qed (auto intro: ring_step.intros)

lemma await_step_ring_inv: "await_step peername s t \<Longrightarrow> ring_inv (aw_ring s) \<Longrightarrow> ring_inv (aw_ring t)"
  using await_step_ring ring_inv_step by metis

subsection \<open>The invariant\<close>

text \<open>
  A suspended coroutine, its handle and the pending context correspond one to one; entries that
  are not completed carry the request that the coroutine made; completions carry the result the
  kernel gave to it.
\<close>

definition contexts_ok :: "await_sys \<Rightarrow> bool" where
  "contexts_ok s \<longleftrightarrow>
     (\<forall>a p. ih_user (aw_ring s) a = Some p \<longrightarrow> Suc 0 < a \<and> a < ih_next (aw_ring s) \<and> p < aw_next s)
   \<and> (\<forall>a b p. ih_user (aw_ring s) a = Some p \<longrightarrow> ih_user (aw_ring s) b = Some p \<longrightarrow> a = b)
   \<and> (\<forall>a c. Suc 0 < a \<longrightarrow> ih_ctx (aw_ring s) a = Some c \<longrightarrow>
        (\<exists>p h req. ih_user (aw_ring s) a = Some p \<and> p \<in> dom (aw_rh s) \<and> aw_req s p = Some (h, req)
           \<and> is_msg_op (ic_op c) = is_msg_req req))
   \<and> (\<forall>p \<in> dom (aw_rh s). \<exists>a. Suc 0 < a \<and> a \<in> dom (ih_ctx (aw_ring s)) \<and> ih_user (aw_ring s) a = Some p)"

definition entry_ok :: "await_sys \<Rightarrow> sqe \<Rightarrow> bool" where
  "entry_ok s e \<longleftrightarrow> (Suc 0 < sq_data e \<longrightarrow> sq_prep e \<noteq> PrepWakeUpRead
     \<and> (\<exists>p h req. ih_user (aw_ring s) (sq_data e) = Some p \<and> aw_req s p = Some (h, req) \<and> carries (aw_ring s) e req))"

definition completion_ok :: "await_sys \<Rightarrow> cqe \<Rightarrow> bool" where
  "completion_ok s e \<longleftrightarrow> (Suc 0 < cq_data e \<longrightarrow>
     (\<exists>p h req. ih_user (aw_ring s) (cq_data e) = Some p \<and> aw_req s p = Some (h, req)
        \<and> aw_given s p = Some (req, cq_res e) \<and> (is_msg_req req \<longrightarrow> 0 \<le> cq_res e)))"

text \<open>What an awaiting coroutine is to be given for the kernel's result.\<close>

definition await_result :: "int \<Rightarrow> error_code \<times> size_t" where
  "await_result k = (if k < 0 then (make_system_error_code (- k), 0) else (no_error, word_of_int k))"

definition done_ok :: "await_sys \<Rightarrow> nat \<times> nat \<times> error_code \<times> size_t \<Rightarrow> bool" where
  "done_ok s d \<longleftrightarrow> (case d of (p, h, ec, res) \<Rightarrow> p < aw_next s \<and> p \<notin> dom (aw_rh s)
     \<and> (\<exists>req k. aw_req s p = Some (h, req) \<and> aw_given s p = Some (req, k) \<and> (ec, res) = await_result k))"

definition await_good :: "await_sys \<Rightarrow> bool" where
  "await_good s \<longleftrightarrow> handles_ok s \<and> contexts_ok s
     \<and> (\<forall>e \<in> set (rg_sq (aw_ring s)) \<union> set (rg_kernel (aw_ring s)). entry_ok s e)
     \<and> (\<forall>e \<in> set (rg_cq (aw_ring s)). completion_ok s e)
     \<and> (\<forall>d \<in> set (aw_done s). done_ok s d) \<and> distinct (map fst (aw_done s))
     \<and> (\<forall>p < aw_next s. p \<in> dom (aw_rh s) \<or> p \<in> fst ` set (aw_done s))
     \<and> \<not> aw_wild s"

definition await_inv :: "await_sys \<Rightarrow> bool" where
  "await_inv s \<longleftrightarrow> ring_inv (aw_ring s) \<and> (aw_failed s \<or> await_good s)"

lemma await_goodD:
  assumes "await_good s"
  shows "handles_ok s" "contexts_ok s" "\<And>e. e \<in> set (rg_sq (aw_ring s)) \<Longrightarrow> entry_ok s e"
    "\<And>e. e \<in> set (rg_kernel (aw_ring s)) \<Longrightarrow> entry_ok s e" "\<And>e. e \<in> set (rg_cq (aw_ring s)) \<Longrightarrow> completion_ok s e"
    "\<And>d. d \<in> set (aw_done s) \<Longrightarrow> done_ok s d" "distinct (map fst (aw_done s))"
    "\<And>p. p < aw_next s \<Longrightarrow> p \<in> dom (aw_rh s) \<or> p \<in> fst ` set (aw_done s)" "\<not> aw_wild s"
  using assms unfolding await_good_def by blast+

lemma await_goodI:
  assumes "handles_ok s" "contexts_ok s" "\<And>e. e \<in> set (rg_sq (aw_ring s)) \<Longrightarrow> entry_ok s e"
    "\<And>e. e \<in> set (rg_kernel (aw_ring s)) \<Longrightarrow> entry_ok s e" "\<And>e. e \<in> set (rg_cq (aw_ring s)) \<Longrightarrow> completion_ok s e"
    "\<And>d. d \<in> set (aw_done s) \<Longrightarrow> done_ok s d" "distinct (map fst (aw_done s))"
    "\<And>p. p < aw_next s \<Longrightarrow> p \<in> dom (aw_rh s) \<or> p \<in> fst ` set (aw_done s)" "\<not> aw_wild s"
  shows "await_good s"
  using assms unfolding await_good_def by blast

subsection \<open>Every step keeps the invariant\<close>

lemma contexts_okD:
  assumes "contexts_ok s"
  shows "\<And>a p. ih_user (aw_ring s) a = Some p \<Longrightarrow> Suc 0 < a \<and> a < ih_next (aw_ring s) \<and> p < aw_next s"
    "\<And>a b p. ih_user (aw_ring s) a = Some p \<Longrightarrow> ih_user (aw_ring s) b = Some p \<Longrightarrow> a = b"
    "\<And>a c. Suc 0 < a \<Longrightarrow> ih_ctx (aw_ring s) a = Some c \<Longrightarrow>
        \<exists>p h req. ih_user (aw_ring s) a = Some p \<and> p \<in> dom (aw_rh s) \<and> aw_req s p = Some (h, req)
           \<and> is_msg_op (ic_op c) = is_msg_req req"
    "\<And>p. p \<in> dom (aw_rh s) \<Longrightarrow> \<exists>a. Suc 0 < a \<and> a \<in> dom (ih_ctx (aw_ring s)) \<and> ih_user (aw_ring s) a = Some p"
  using assms unfolding contexts_ok_def by blast+

text \<open>Steps of the ring that concern its internal contexts only, or move entries along.\<close>

lemma await_good_ring:
  assumes good: "await_good s"
    and user: "ih_user r = ih_user (aw_ring s)" "ih_next r = ih_next (aw_ring s)"
    and ctx: "\<And>a. Suc 0 < a \<Longrightarrow> ih_ctx r a = ih_ctx (aw_ring s) a"
    and msg: "ih_msg r = ih_msg (aw_ring s)"
    and ent: "\<And>e. e \<in> set (rg_sq r) \<union> set (rg_kernel r) \<Longrightarrow> Suc 0 < sq_data e \<Longrightarrow>
        e \<in> set (rg_sq (aw_ring s)) \<union> set (rg_kernel (aw_ring s))"
    and cq: "\<And>e. e \<in> set (rg_cq r) \<Longrightarrow> Suc 0 < cq_data e \<Longrightarrow> e \<in> set (rg_cq (aw_ring s))"
  shows "await_good (s\<lparr>aw_ring := r\<rparr>)"
proof (rule await_goodI)
  let ?t = "s\<lparr>aw_ring := r\<rparr>"
  show "handles_ok ?t" using await_goodD(1) [OF good] by (simp add: handles_ok_def)
  show "contexts_ok ?t"
    using await_goodD(2) [OF good] unfolding contexts_ok_def by (simp add: user ctx) (metis ctx domIff)
  have ok: "entry_ok ?t e" if "e \<in> set (rg_sq r) \<union> set (rg_kernel r)" for e
  proof (cases "Suc 0 < sq_data e")
    case True
    then have "entry_ok s e" using ent [OF that] await_goodD(3,4) [OF good] by blast
    with True obtain p h req where p: "sq_prep e \<noteq> PrepWakeUpRead" "ih_user (aw_ring s) (sq_data e) = Some p"
      "aw_req s p = Some (h, req)" "carries (aw_ring s) e req" unfolding entry_ok_def by blast
    have "carries r e req" by (rule carries_cong [OF p(4)]) (use ctx True msg in auto)
    with p show ?thesis unfolding entry_ok_def by (simp add: user)
  qed (simp add: entry_ok_def)
  then show "e \<in> set (rg_sq (aw_ring ?t)) \<Longrightarrow> entry_ok ?t e"
    and "e \<in> set (rg_kernel (aw_ring ?t)) \<Longrightarrow> entry_ok ?t e" for e by auto
  show "completion_ok ?t e" if "e \<in> set (rg_cq (aw_ring ?t))" for e
  proof (cases "Suc 0 < cq_data e")
    case True
    then have "completion_ok s e" using cq that await_goodD(5) [OF good] by simp
    then show ?thesis by (simp add: completion_ok_def user)
  qed (simp add: completion_ok_def)
  show "done_ok ?t d" if "d \<in> set (aw_done ?t)" for d
    using await_goodD(6) [OF good, of d] that by (simp add: done_ok_def)
qed (use await_goodD(7-9) [OF good] in auto)

lemma await_good_await:
  assumes good: "await_good s" and inv: "ring_inv (aw_ring s)" and wait: "aw_wait s h = None"
    and step: "io_await h req s = Some t"
  shows "await_good t"
proof (rule await_goodI)
  let ?p = "aw_next s" let ?a = "ih_next (aw_ring s)"
  obtain r where r: "ring_issue req ?p (aw_ring s) = Some r"
    and t: "t = s\<lparr>aw_ring := r, aw_rh := (aw_rh s)(?p \<mapsto> \<lparr>rh_ec = no_error, rh_res = 0, rh_handle = h\<rparr>),
        aw_next := Suc ?p, aw_wait := (aw_wait s)(h := Some ?p), aw_req := (aw_req s)(?p \<mapsto> (h, req))\<rparr>"
    using step by (auto simp: io_await_def suspend_in_def Let_def split: option.splits)
  obtain ioc hp prep' where f: "fresh_ctx ?p ioc (aw_ring s) hp"
    and r': "r = hp\<lparr>rg_io_num := rg_io_num (aw_ring s) + 1, rg_sq := rg_sq (aw_ring s) @ [\<lparr>sq_prep = prep', sq_data = ioc\<rparr>]\<rparr>"
    using issue_spec [OF r] by blast
  have hp: "hp = (aw_ring s)\<lparr>ih_ctx := ih_ctx hp, ih_msg := ih_msg hp, ih_next := ih_next hp,
            ih_issued := ih_issued hp, ih_user := ih_user hp\<rparr>" (is "hp = ?h")
    using f unfolding fresh_ctx_def by (elim conjE)
  have "rg_kernel hp = rg_kernel ?h" "rg_cq hp = rg_cq ?h" using hp by simp_all
  then have rg: "rg_kernel r = rg_kernel (aw_ring s)" "rg_cq r = rg_cq (aw_ring s)" by (simp_all add: r')
  obtain c where c: "ih_next r > ?a" "ih_ctx r = (ih_ctx (aw_ring s))(?a \<mapsto> c)"
      "ih_user r = (ih_user (aw_ring s))(?a \<mapsto> ?p)"
    and msg: "\<And>m rr. ih_msg (aw_ring s) m = Some rr \<Longrightarrow> m < ?a \<Longrightarrow> ih_msg r m = Some rr"
    using f unfolding fresh_ctx_def r' by (auto split: if_splits)
  obtain prep where prep: "rg_sq r = rg_sq (aw_ring s) @ [\<lparr>sq_prep = prep, sq_data = ?a\<rparr>]"
    "carries r \<lparr>sq_prep = prep, sq_data = ?a\<rparr> req" "prep \<noteq> PrepWakeUpRead" "is_msg_op (ic_op c) = is_msg_req req"
    using issue_carries [OF r] c(2) by (auto simp: the_ctx_def)
  have heap: "ring_heap_inv (aw_ring s)" using inv by (simp add: ring_inv_def)
  have below: "\<And>m rr. ih_msg (aw_ring s) m = Some rr \<Longrightarrow> m < ?a" using heap_invD(7) [OF heap] .
  have one: "Suc 0 < ?a" by (rule heap_invD(3) [OF heap])
  have hok: "handles_ok s" and cok: "contexts_ok s" using await_goodD(1,2) [OF good] .
  have new: "?p \<notin> dom (aw_rh s)" "?p \<notin> dom (aw_req s)" using hok by (auto simp: handles_ok_def)
  have user: "ih_user r a = ih_user (aw_ring s) a" if "a < ?a" for a using that by (simp add: c(3))
  have none: "ih_user (aw_ring s) ?a = None" "\<And>a. ih_user (aw_ring s) a \<noteq> Some ?p"
    using contexts_okD(1) [OF cok] by (metis less_irrefl not_Some_eq)+
  have nowait: "aw_wait s ha \<noteq> Some ?p" for ha 
    using hok new(1) unfolding handles_ok_def by (metis domI)
  show "handles_ok t" using hok wait new nowait unfolding handles_ok_def t by (auto simp: less_Suc_eq)
  show "contexts_ok t"
  proof -
    have "\<exists>p h' rq. ih_user r a = Some p \<and> p \<in> dom (aw_rh t) \<and> aw_req t p = Some (h', rq) \<and> is_msg_op (ic_op d) = is_msg_req rq"
      if a: "Suc 0 < a" "ih_ctx r a = Some d" for a d
    proof (cases "a = ?a")
      case True
      then show ?thesis using a(2) prep(4) by (simp add: c(2,3) t)
    next
      case False
      then obtain p h' rq where "ih_user (aw_ring s) a = Some p" "p \<in> dom (aw_rh s)" "aw_req s p = Some (h', rq)"
        "is_msg_op (ic_op d) = is_msg_req rq" using contexts_okD(3) [OF cok a(1)] a(2) by (auto simp: c(2))
      moreover then have "p \<noteq> ?p" using new(2) by auto
      ultimately show ?thesis using False by (auto simp: c(3) t)
    qed
    moreover have "\<exists>a. Suc 0 < a \<and> a \<in> dom (ih_ctx r) \<and> ih_user r a = Some p" if "p \<in> dom (aw_rh t)" for p
    proof (cases "p = ?p")
      case True
      then show ?thesis using one by (intro exI [of _ ?a]) (simp add: c(2,3))
    next
      case False
      then have "p \<in> dom (aw_rh s)" using that by (simp add: t)
      then obtain a where "Suc 0 < a" "a \<in> dom (ih_ctx (aw_ring s))" "ih_user (aw_ring s) a = Some p"
        using contexts_okD(4) [OF cok] by blast
      then show ?thesis using none(1) by (intro exI [of _ a]) (auto simp: c(2,3))
    qed
    ultimately show ?thesis
      using contexts_okD(1,2) [OF cok] none c(1) one unfolding contexts_ok_def
      by (auto simp: t c(3) less_Suc_eq split: if_splits) (meson less_trans)+
  qed
  have old: "entry_ok t e" if "entry_ok s e" for e
  proof (cases "Suc 0 < sq_data e")
    case True
    with that obtain p h' rq where p: "sq_prep e \<noteq> PrepWakeUpRead" "ih_user (aw_ring s) (sq_data e) = Some p"
      "aw_req s p = Some (h', rq)" "carries (aw_ring s) e rq" unfolding entry_ok_def by blast
    have lt: "sq_data e < ?a" using contexts_okD(1) [OF cok p(2)] by simp
    have "carries r e rq" by (rule carries_cong [OF p(4)]) (use lt below msg in \<open>auto simp: c(2)\<close>)
    moreover have "p \<noteq> ?p" using new(2) p(3) by auto
    ultimately show ?thesis using p lt unfolding entry_ok_def by (auto simp: t c(3))
  qed (simp add: entry_ok_def)
  show "entry_ok t e" if "e \<in> set (rg_sq (aw_ring t))" for e
  proof (cases "e \<in> set (rg_sq (aw_ring s))")
    case True
    then show ?thesis using old await_goodD(3) [OF good] by blast
  next
    case False
    then have e: "e = \<lparr>sq_prep = prep, sq_data = ?a\<rparr>" using that prep(1) by (simp add: t)
    then show ?thesis using prep(2,3) by (simp add: entry_ok_def t c(3))
  qed
  show "entry_ok t e" if "e \<in> set (rg_kernel (aw_ring t))" for e
    using that old await_goodD(4) [OF good] by (simp add: t rg)
  show "completion_ok t e" if "e \<in> set (rg_cq (aw_ring t))" for e
  proof (cases "Suc 0 < cq_data e")
    case True
    have "completion_ok s e" using that await_goodD(5) [OF good] by (simp add: t rg)
    with True obtain p h' rq where p: "ih_user (aw_ring s) (cq_data e) = Some p" "aw_req s p = Some (h', rq)"
      "aw_given s p = Some (rq, cq_res e)" "is_msg_req rq \<longrightarrow> 0 \<le> cq_res e" unfolding completion_ok_def by blast
    moreover have "p \<noteq> ?p" "cq_data e \<noteq> ?a" using new(2) none p by auto
    ultimately show ?thesis unfolding completion_ok_def by (auto simp: t c(3))
  qed (simp add: completion_ok_def)
  show "done_ok t d" if "d \<in> set (aw_done t)" for d
  proof -
    have "done_ok s d" using that await_goodD(6) [OF good] by (simp add: t)
    then show ?thesis by (auto simp: done_ok_def t)
  qed
  show "p \<in> dom (aw_rh t) \<or> p \<in> fst ` set (aw_done t)" if "p < aw_next t" for p
    using that await_goodD(8) [OF good, of p] by (auto simp: t less_Suc_eq)
qed (use await_goodD(7,9) [OF good] step in \<open>auto simp: io_await_def suspend_in_def Let_def split: option.splits\<close>)

lemma carries_msg: "carries s e req \<Longrightarrow> is_msg_req req = is_msg_prep (sq_prep e)"
  by (auto simp: carries_def kernel_request_def is_msg_req_def is_msg_prep_def split: sqe_prep.splits option.splits)

text \<open>A pending context is alive, and pending once.\<close>

lemma pending_alive:
  assumes "ring_inv r" and "a \<in># pending_data r" and "Suc 0 < a"
  shows "a \<in> dom (ih_ctx r)" and "count (pending_data r) a = 1"
proof -
  have "count (pending_data r) a = (if a \<in> dom (ih_ctx r) then 1 else 0)"
    using assms(1) count_invD(2) [OF _ assms(3)] unfolding ring_inv_def by blast
  moreover have "0 < count (pending_data r) a" using assms(2) by simp
  ultimately show "a \<in> dom (ih_ctx r)" and "count (pending_data r) a = 1" by (auto split: if_splits)
qed

lemma await_good_kernel:
  assumes good: "await_good s" and inv: "ring_inv (aw_ring s)" and k: "rg_kernel (aw_ring s) = xs @ e # ys"
    and ok: "\<not> (res < 0 \<and> is_msg_prep (sq_prep e))"
  shows "await_good (s\<lparr>aw_ring := kernel_takes (xs @ ys) e res n (aw_ring s), aw_given := note_given e res s, aw_failed := b\<rparr>)"
    (is "await_good ?t")
proof (rule await_goodI)
  let ?r = "aw_ring s"
  have cok: "contexts_ok s" using await_goodD(2) [OF good] .
  have e: "entry_ok s e" using await_goodD(4) [OF good, of e] k by simp
  have pend: "sq_data e \<in># pending_data ?r" by (simp add: pending_data_def k)
  have noted: "\<exists>p h req. ih_user ?r (sq_data e) = Some p \<and> aw_req s p = Some (h, req) \<and> p \<in> dom (aw_rh s)
      \<and> note_given e res s = (aw_given s)(p \<mapsto> (req, res)) \<and> (is_msg_req req \<longrightarrow> 0 \<le> res)" if a: "Suc 0 < sq_data e"
  proof -
    from e a obtain p h req where p: "ih_user ?r (sq_data e) = Some p" "aw_req s p = Some (h, req)"
      "carries ?r e req" unfolding entry_ok_def by blast
    obtain c where "ih_ctx ?r (sq_data e) = Some c" using pending_alive(1) [OF inv pend a] by blast
    then have "p \<in> dom (aw_rh s)" using contexts_okD(3) [OF cok a] p(1) by force
    moreover have "note_given e res s = (aw_given s)(p \<mapsto> (req, res))"
      using p(1,3) by (simp add: note_given_def carries_def)
    moreover have "is_msg_req req \<longrightarrow> 0 \<le> res" using ok carries_msg [OF p(3)] by auto
    ultimately show ?thesis using p by blast
  qed
  have same: "note_given e res s = aw_given s" if "\<not> Suc 0 < sq_data e"
  proof -
    have "ih_user ?r (sq_data e) = None" using that contexts_okD(1) [OF cok] by (metis not_Some_eq)
    then show ?thesis by (simp add: note_given_def)
  qed
  have keep: "note_given e res s p = aw_given s p" if "p \<notin> dom (aw_rh s)" for p
  proof (cases "Suc 0 < sq_data e")
    case True
    from noted [OF this] obtain q h req where "q \<in> dom (aw_rh s)"
      "note_given e res s = (aw_given s)(q \<mapsto> (req, res))" by blast
    with that show ?thesis by auto
  qed (simp add: same)
  show "handles_ok ?t" using await_goodD(1) [OF good] by (simp add: handles_ok_def)
  show "contexts_ok ?t" using cok unfolding contexts_ok_def by (simp add: kernel_takes_def)
  have ent: "entry_ok ?t f" if "entry_ok s f" for f
  proof (cases "Suc 0 < sq_data f")
    case True
    with that obtain p h req where p: "sq_prep f \<noteq> PrepWakeUpRead" "ih_user ?r (sq_data f) = Some p"
      "aw_req s p = Some (h, req)" "carries ?r f req" unfolding entry_ok_def by blast
    have "carries (kernel_takes (xs @ ys) e res n ?r) f req"
      by (rule carries_cong [OF p(4)]) (auto simp: kernel_takes_def dest: set_namelen_keeps(2) [where prep = "sq_prep e" and n = n])
    with p show ?thesis unfolding entry_ok_def by (simp add: kernel_takes_def)
  qed (simp add: entry_ok_def)
  show "entry_ok ?t f" if "f \<in> set (rg_sq (aw_ring ?t))" for f
    using that ent await_goodD(3) [OF good] by (simp add: kernel_takes_def)
  show "entry_ok ?t f" if "f \<in> set (rg_kernel (aw_ring ?t))" for f
    using that ent await_goodD(4) [OF good, of f] k by (auto simp: kernel_takes_def)
  show "completion_ok ?t f" if f: "f \<in> set (rg_cq (aw_ring ?t))" for f
  proof (cases "Suc 0 < cq_data f")
    case b: True
    show ?thesis
    proof (cases "f \<in> set (rg_cq ?r)")
      case True
      then obtain p h req where p: "ih_user ?r (cq_data f) = Some p" "aw_req s p = Some (h, req)"
        "aw_given s p = Some (req, cq_res f)" "is_msg_req req \<longrightarrow> 0 \<le> cq_res f"
        using await_goodD(5) [OF good, of f] b unfolding completion_ok_def by blast
      have "cq_data f \<noteq> sq_data e"
      proof
        assume eq: "cq_data f = sq_data e"
        have "cq_data f \<in># mset (map cq_data (rg_cq ?r))" using True by simp
        then have "0 < count (mset (map cq_data (rg_cq ?r))) (cq_data f)" by (simp only: count_greater_zero_iff)
        then have "1 < count (pending_data ?r) (cq_data f)" by (simp add: pending_data_def k eq)
        with pending_alive(2) [OF inv pend] b eq show False by simp
      qed
      then have "note_given e res s p = aw_given s p"
      proof (cases "Suc 0 < sq_data e")
        case True
        from noted [OF this] obtain q h' rq where q: "ih_user ?r (sq_data e) = Some q"
          "note_given e res s = (aw_given s)(q \<mapsto> (rq, res))" by blast
        have "q \<noteq> p" using \<open>cq_data f \<noteq> sq_data e\<close> contexts_okD(2) [OF cok] p(1) q(1) by blast
        with q(2) show ?thesis by simp
      qed (simp add: same)
      with p show ?thesis unfolding completion_ok_def by (simp add: kernel_takes_def)
    next
      case False
      then have "f = \<lparr>cq_data = sq_data e, cq_res = res\<rparr>" using f by (simp add: kernel_takes_def)
      then show ?thesis using noted b unfolding completion_ok_def by (auto simp: kernel_takes_def)
    qed
  qed (simp add: completion_ok_def)
  show "done_ok ?t d" if "d \<in> set (aw_done ?t)" for d
  proof -
    obtain p h ec v where d: "d = (p, h, ec, v)" by (cases d)
    then have "done_ok s (p, h, ec, v)" using that await_goodD(6) [OF good] by simp
    then show ?thesis using keep [of p] unfolding done_ok_def d by simp
  qed
qed (use await_goodD(7-9) [OF good] in auto)

lemma await_good_deliver_user:
  assumes good: "await_good s" and inv: "ring_inv (aw_ring s)" and cq: "rg_cq (aw_ring s) = e # es"
    and a: "Suc 0 < cq_data e" and step: "io_deliver peername s = Some t"
  shows "await_good t"
proof -
  let ?r = "aw_ring s"
  have heap: "ring_heap_inv ?r" using inv by (simp add: ring_inv_def)
  have hok: "handles_ok s" and cok: "contexts_ok s" using await_goodD(1,2) [OF good] .
  have pend: "cq_data e \<in># pending_data ?r" by (simp add: pending_data_def cq)
  obtain c where c: "ih_ctx ?r (cq_data e) = Some c" using pending_alive(1) [OF inv pend a] by blast
  have wf: "ctx_wf ?r (cq_data e) c" by (rule heap_invD(6) [OF heap a c])
  from await_goodD(5) [OF good, of e] a cq obtain p h req where p: "ih_user ?r (cq_data e) = Some p"
    "aw_req s p = Some (h, req)" "aw_given s p = Some (req, cq_res e)" "is_msg_req req \<longrightarrow> 0 \<le> cq_res e"
    unfolding completion_ok_def by auto
  have rh: "p \<in> dom (aw_rh s)" "is_msg_op (ic_op c) = is_msg_req req"
    using contexts_okD(3) [OF cok a c] p(1,2) by auto
  then obtain rr where rr: "aw_rh s p = Some rr" "rh_handle rr = h" "aw_wait s h = Some p" "p < aw_next s"
    using hok p(2) unfolding handles_ok_def by fastforce
  obtain r' where r': "next_cqe peername ?r = Some r'" using step by (auto simp: io_deliver_def split: option.splits)
  obtain k where k: "r' = ?r\<lparr>rg_cq := es, rg_io_num := rg_io_num ?r - 1, ih_ctx := (ih_ctx ?r)(cq_data e := None),
       ih_msg := (if is_msg_op (ic_op c) \<and> 0 \<le> cq_res e then (ih_msg ?r)(the_msg (ic_ptr c) := None) else ih_msg ?r),
       rg_calls := rg_calls ?r @ [k]\<rparr>"
      "ca_ctx k = cq_data e" "ca_ec k = fst (await_result (cq_res e))" "ca_res k = snd (await_result (cq_res e))"
      "ca_ptr k = (if is_msg_op (ic_op c) \<and> 0 \<le> cq_res e
                   then UserPtr (rm_ptr (the (ih_msg ?r (the_msg (ic_ptr c))))) else ic_ptr c)"
    using deliver_user [OF heap cq a c r'] by (auto simp: await_result_def)
  have ptr: "ca_ptr k = UserPtr p"
    using wf p(1,4) rh(2) by (auto simp: k(5) ctx_wf_def the_msg_def)
  have "ic_cb c = UserCb" using wf by (simp add: ctx_wf_def)
  then have t: "t = s\<lparr>aw_ring := r', aw_rh := (aw_rh s)(p := None), aw_wait := (aw_wait s)(h := None),
       aw_done := aw_done s @ [(p, h, await_result (cq_res e))]\<rparr>"
    using step by (simp add: io_deliver_def r' k(1-4) Let_def the_ctx_def c resume_callback_def ptr rr(1,2) io_resumed_def)
  have r: "ih_user r' = ih_user ?r" "ih_next r' = ih_next ?r" "rg_sq r' = rg_sq ?r" "rg_kernel r' = rg_kernel ?r"
    "rg_cq r' = es" "ih_ctx r' = (ih_ctx ?r)(cq_data e := None)" by (simp_all add: k(1))
  have other: "p' \<noteq> p" if "ih_user ?r b = Some p'" "b \<noteq> cq_data e" for b p'
    using that p(1) contexts_okD(2) [OF cok] by blast
  show ?thesis
  proof (rule await_goodI)
    show "handles_ok t"
      unfolding t by (rule handles_ok_resumed [OF hok rr(1), unfolded rr(2)]) simp_all
    show "contexts_ok t"
    proof -
      have "\<exists>q h req. ih_user ?r b = Some q \<and> q \<in> dom (aw_rh t) \<and> aw_req s q = Some (h, req) \<and> is_msg_op (ic_op d) = is_msg_req req"
        if "Suc 0 < b" "ih_ctx r' b = Some d" for b d
        using that contexts_okD(3) [OF cok that(1), of d] other [of b] by (auto simp: r t split: if_splits)
      moreover have "\<exists>b. Suc 0 < b \<and> b \<in> dom (ih_ctx r') \<and> ih_user ?r b = Some q" if q: "q \<in> dom (aw_rh t)" for q
      proof -
        have "q \<in> dom (aw_rh s)" "q \<noteq> p" using q by (auto simp: t split: if_splits)
        then obtain b where "Suc 0 < b" "b \<in> dom (ih_ctx ?r)" "ih_user ?r b = Some q" using contexts_okD(4) [OF cok] by blast
        then show ?thesis using \<open>q \<noteq> p\<close> p(1) by (intro exI [of _ b]) (auto simp: r)
      qed
      moreover have "aw_ring t = r'" "aw_next t = aw_next s" "aw_req t = aw_req s" by (simp_all add: t)
      moreover have "Suc 0 < b \<and> b < ih_next ?r \<and> q < aw_next s" if "ih_user ?r b = Some q" for b q
        using contexts_okD(1) [OF cok that] .
      moreover have "b = b'" if "ih_user ?r b = Some q" "ih_user ?r b' = Some q" for b b' q
        using contexts_okD(2) [OF cok that] .
      ultimately show ?thesis unfolding contexts_ok_def by (simp add: r(1,2))
    qed
    have ent: "entry_ok t f" if f: "f \<in> set (rg_sq ?r) \<union> set (rg_kernel ?r)" for f
    proof (cases "Suc 0 < sq_data f")
      case True
      have "entry_ok s f" using f await_goodD(3,4) [OF good] by blast
      with True obtain p' h' rq where q: "sq_prep f \<noteq> PrepWakeUpRead" "ih_user ?r (sq_data f) = Some p'"
        "aw_req s p' = Some (h', rq)" "carries ?r f rq" unfolding entry_ok_def by blast
      have ne: "sq_data f \<noteq> cq_data e"
      proof
        assume eq: "sq_data f = cq_data e"
        have "cq_data e \<in># mset (map sq_data (rg_sq ?r)) + mset (map sq_data (rg_kernel ?r))"
          using f eq by (metis UnE image_eqI in_multiset_in_set set_map union_iff)
        then have "0 < count (mset (map sq_data (rg_sq ?r)) + mset (map sq_data (rg_kernel ?r))) (cq_data e)"
          by (simp only: count_greater_zero_iff)
        then have "1 < count (pending_data ?r) (cq_data e)" by (simp add: pending_data_def cq)
        with pending_alive(2) [OF inv pend a] show False by simp
      qed
      have "carries r' f rq"
      proof (rule carries_cong [OF q(4)])
        fix m r0 assume m: "ih_msg ?r m = Some r0" "rm_ctx r0 = sq_data f"
        have "m \<noteq> the_msg (ic_ptr c)" if "is_msg_op (ic_op c)"
          using wf m that ne by (auto simp: ctx_wf_def the_msg_def)
        then show "\<exists>r''. ih_msg r' m = Some r'' \<and> rm_ctx r'' = rm_ctx r0" using m(1) by (auto simp: k(1))
      qed (use ne in \<open>simp add: r\<close>)
      with q show ?thesis unfolding entry_ok_def by (simp add: t r)
    qed (simp add: entry_ok_def)
    then show "f \<in> set (rg_sq (aw_ring t)) \<Longrightarrow> entry_ok t f" and "f \<in> set (rg_kernel (aw_ring t)) \<Longrightarrow> entry_ok t f" for f
      by (simp_all add: t r)
    show "completion_ok t f" if "f \<in> set (rg_cq (aw_ring t))" for f
      using that await_goodD(5) [OF good, of f] by (simp add: completion_ok_def t r cq)
    show "done_ok t d" if "d \<in> set (aw_done t)" for d
    proof (cases "d \<in> set (aw_done s)")
      case True
      then show ?thesis using await_goodD(6) [OF good, of d] by (auto simp: done_ok_def t)
    next
      case False
      then have "d = (p, h, await_result (cq_res e))" using that by (simp add: t)
      then show ?thesis using p rr(4) by (simp add: done_ok_def t split: prod.splits)
    qed
    have "p \<notin> fst ` set (aw_done s)"
      using await_goodD(6) [OF good] rh(1) by (fastforce simp: done_ok_def)
    then show "distinct (map fst (aw_done t))" using await_goodD(7) [OF good] by (simp add: t)
    show "q \<in> dom (aw_rh t) \<or> q \<in> fst ` set (aw_done t)" if "q < aw_next t" for q
      using that await_goodD(8) [OF good, of q] by (auto simp: t)
    show "\<not> aw_wild t" using await_goodD(9) [OF good] by (simp add: t)
  qed
qed

lemma io_deliver_ring: "io_deliver peername s = Some t \<Longrightarrow> next_cqe peername (aw_ring s) = Some (aw_ring t)"
  by (auto simp: io_deliver_def Let_def resume_callback_def io_resumed_def split: option.splits io_ptr.splits if_splits)

lemma io_deliver_some: "next_cqe peername (aw_ring s) = Some r \<Longrightarrow> \<exists>t. io_deliver peername s = Some t"
  by (simp add: io_deliver_def Let_def)

lemma io_deliver_keeps:
  "io_deliver peername s = Some t \<Longrightarrow>
   aw_req t = aw_req s \<and> aw_failed t = aw_failed s \<and> aw_next t = aw_next s \<and> aw_given t = aw_given s"
  by (auto simp: io_deliver_def Let_def resume_callback_def io_resumed_def split: option.splits io_ptr.splits if_splits)

lemma await_good_deliver_internal:
  assumes good: "await_good s" and inv: "ring_inv (aw_ring s)" and cq: "rg_cq (aw_ring s) = e # es"
    and a: "\<not> Suc 0 < cq_data e" and step: "io_deliver peername s = Some t"
  shows "await_good t"
proof -
  let ?r = "aw_ring s"
  have heap: "ring_heap_inv ?r" using inv by (simp add: ring_inv_def)
  obtain r where r: "next_cqe peername ?r = Some r" using step by (auto simp: io_deliver_def split: option.splits)
  obtain c c' k sq where k: "ih_ctx ?r (cq_data e) = Some c" "ca_ctx k = cq_data e"
    "mset (map sq_data sq) = (if cq_data e = 0 then {#0#} else {#})"
    "r = ?r\<lparr>rg_cq := es, ih_ctx := (ih_ctx ?r)(cq_data e \<mapsto> c'), rg_calls := rg_calls ?r @ [k], rg_sq := rg_sq ?r @ sq\<rparr>"
    using deliver_internal [OF heap cq a r] by blast
  have "cq_data e = 0 \<or> cq_data e = Suc 0" using a by auto
  then have "ic_cb c \<noteq> UserCb" using heap_invD(4,5) [OF heap] k(1) by auto
  then have t: "t = s\<lparr>aw_ring := r\<rparr>"
    using step k(1,2) by (simp add: io_deliver_def r Let_def the_ctx_def k(4))
  have sq: "sq_data f = 0" if "f \<in> set sq" for f
  proof -
    have "sq_data f \<in># mset (map sq_data sq)" using that by simp
    then show ?thesis unfolding k(3) by (simp split: if_splits)
  qed
  show ?thesis unfolding t
    by (rule await_good_ring [OF good]) (use a cq sq in \<open>auto simp: k(4)\<close>)
qed

lemma ring_poll_state: "snd (ring_poll nanosec r ec s) = s \<or> snd (ring_poll nanosec r ec s) = ring_submit s"
  by (simp add: ring_poll_def Let_def)

lemma await_inv_step:
  assumes step: "await_step peername s t" and inv: "await_inv s"
  shows "await_inv t"
proof -
  have ring: "ring_inv (aw_ring s)" "ring_inv (aw_ring t)"
    using inv await_step_ring_inv [OF step] by (simp_all add: await_inv_def)
  have failed: "aw_failed s \<Longrightarrow> aw_failed t"
    using step by (cases rule: await_step.cases)
      (auto simp: io_await_def suspend_in_def Let_def dest: io_deliver_keeps split: option.splits)
  have "await_good t" if good: "await_good s" and nf: "\<not> aw_failed t"
    using step
  proof (cases rule: await_step.cases)
    case (await h req)
    then show ?thesis using await_good_await [OF good ring(1)] by blast
  next
    case (cancel fd r)
    have "rg_empty (aw_ring s) = Suc 0" using ring(1) heap_invD(2) unfolding ring_inv_def by blast
    then have "r = (aw_ring s)\<lparr>rg_sq := rg_sq (aw_ring s) @ [\<lparr>sq_prep = PrepCancelFd fd, sq_data = Suc 0\<rparr>]\<rparr>"
      using cancel(2) by (simp add: ring_cancel_def put_sqe_def split: if_splits)
    then show ?thesis unfolding cancel(1) by (intro await_good_ring [OF good]) auto
  next
    case wake_up
    show ?thesis unfolding wake_up by (rule await_good_ring [OF good]) (auto simp: ring_wake_up_def)
  next
    case (poll nanosec r ec)
    from ring_poll_state [of nanosec r ec "aw_ring s"] show ?thesis unfolding poll
      by (elim disjE; simp only:; intro await_good_ring [OF good]) (auto simp: ring_submit_def)
  next
    case (kernel xs e ys res n)
    with nf have "\<not> (res < 0 \<and> is_msg_prep (sq_prep e))" by simp
    from await_good_kernel [OF good ring(1) kernel(2) this] show ?thesis unfolding kernel(1) .
  next
    case (kernel_wake_up xs e ys)
    have "entry_ok s e" using await_goodD(4) [OF good] kernel_wake_up(2) by simp
    then have "\<not> Suc 0 < sq_data e" using kernel_wake_up(3) by (simp add: entry_ok_def)
    then show ?thesis unfolding kernel_wake_up(1) using kernel_wake_up(2)
      by (intro await_good_ring [OF good]) auto
  next
    case deliver
    then obtain e es where "rg_cq (aw_ring s) = e # es"
      using io_deliver_ring by (fastforce simp: next_cqe_def split: list.splits)
    with deliver show ?thesis
      using await_good_deliver_user [OF good ring(1)] await_good_deliver_internal [OF good ring(1)] by blast
  qed
  then show ?thesis using inv failed ring(2) by (auto simp: await_inv_def)
qed

lemma await_inv_new:
  assumes "ring_new ok n = Inr (Some r)"
  shows "await_inv (await_new r)"
proof -
  have r: "ih_user r = Map.empty" "rg_sq r = [\<lparr>sq_prep = PrepWakeUpRead, sq_data = 0\<rparr>]" "rg_kernel r = []" "rg_cq r = []"
    "\<And>a. Suc 0 < a \<Longrightarrow> ih_ctx r a = None"
    using assms by (auto simp: ring_new_def prep_wake_up_def put_sqe_def split: if_splits)
  then have "await_good (await_new r)"
    by (auto simp: await_good_def await_new_def handles_ok_def contexts_ok_def entry_ok_def)
  then show ?thesis using ring_inv_new [OF assms] by (simp add: await_inv_def await_new_def)
qed

interpretation aw: transition_system "\<lambda>s. \<exists>r. ring_new ok n = Inr (Some r) \<and> s = await_new r" "await_step peername" await_inv
  by unfold_locales (auto intro: await_inv_new await_inv_step)

subsection \<open>Progress\<close>

lemma next_cqe_some:
  assumes inv: "ring_inv r" and cq: "rg_cq r = e # es" and room: "cq_data e = 0 \<Longrightarrow> length (rg_sq r) < rg_entries r"
  shows "\<exists>r'. next_cqe peername r = Some r'"
proof -
  have heap: "ring_heap_inv r" using inv by (simp add: ring_inv_def)
  have pend: "cq_data e \<in># pending_data r" by (simp add: pending_data_def cq)
  consider (user) c where "Suc 0 < cq_data e" "ih_ctx r (cq_data e) = Some c" "ic_cb c = UserCb"
    | (internal) c where "ih_ctx r (cq_data e) = Some c" "ic_op c = OpNoop" "cq_data e = 0 \<and> ic_cb c = WakeUpCb \<or> ic_cb c = EmptyCb"
  proof (cases "Suc 0 < cq_data e")
    case True
    then obtain c where "ih_ctx r (cq_data e) = Some c" using pending_alive(1) [OF inv pend] by blast
    then show ?thesis using user True heap_invD(6) [OF heap True] by (auto simp: ctx_wf_def)
  next
    case False
    then have "cq_data e = 0 \<or> cq_data e = Suc 0" by auto
    then show ?thesis using internal heap_invD(4,5) [OF heap] by auto
  qed
  then show ?thesis
  proof cases
    case user
    then show ?thesis
      by (cases "ic_op c"; simp add: next_cqe_def cq handle_cqe_def uncount_io_def finish_ctx_def the_ctx_def invoke_cb_def Let_def)
  next
    case internal
    then show ?thesis using room
      by (auto simp: next_cqe_def cq handle_cqe_def uncount_io_def finish_ctx_def the_ctx_def invoke_cb_def Let_def
          prep_wake_up_def put_sqe_def)
  qed
qed

lemma next_cqe_shape:
  assumes inv: "ring_inv r" and cq: "rg_cq r = e # es" and step: "next_cqe peername r = Some r'"
  shows "rg_cq r' = es \<and> ih_user r' = ih_user r \<and> rg_entries r' = rg_entries r
     \<and> (cq_data e \<noteq> 0 \<longrightarrow> rg_sq r' = rg_sq r) \<and> (Suc 0 < cq_data e \<longrightarrow> ih_ctx r' (cq_data e) = None)"
proof -
  have heap: "ring_heap_inv r" using inv by (simp add: ring_inv_def)
  have pend: "cq_data e \<in># pending_data r" by (simp add: pending_data_def cq)
  show ?thesis
  proof (cases "Suc 0 < cq_data e")
    case True
    then obtain c where c: "ih_ctx r (cq_data e) = Some c" using pending_alive(1) [OF inv pend] by blast
    obtain b k where "r' = r\<lparr>rg_cq := es, rg_io_num := rg_io_num r - 1, ih_ctx := (ih_ctx r)(cq_data e := None),
        ih_msg := b, rg_calls := k\<rparr>"
      using deliver_user [OF heap cq True c step] by blast
    then show ?thesis by simp
  next
    case False
    obtain a k sq where sq: "mset (map sq_data sq) = (if cq_data e = 0 then {#0#} else {#})"
      "r' = r\<lparr>rg_cq := es, ih_ctx := a, rg_calls := k, rg_sq := rg_sq r @ sq\<rparr>"
      using deliver_internal [OF heap cq False step] by blast
    then have "cq_data e \<noteq> 0 \<Longrightarrow> sq = []" by simp
    with sq(2) False show ?thesis by simp
  qed
qed

lemma ring_step_entries: "ring_step peername s t \<Longrightarrow> ring_inv s \<Longrightarrow> rg_entries t = rg_entries s"
proof (induction rule: ring_step.induct)
  case (issue req p s t)
  then show ?case using ring_issue_length [OF issue(1)] by simp
next
  case (deliver s t)
  then obtain e es where "rg_cq s = e # es" by (auto simp: next_cqe_def split: list.splits)
  with deliver next_cqe_shape show ?case by blast
qed (auto simp: ring_cancel_def put_sqe_def ring_wake_up_def ring_poll_def ring_submit_def Let_def split: if_splits)

lemma await_entries:
  assumes "await_steps peername s t" and "ring_inv (aw_ring s)"
  shows "ring_inv (aw_ring t) \<and> rg_entries (aw_ring t) = rg_entries (aw_ring s)"
  using assms
proof (induction rule: rtranclp_induct)
  case (step t u)
  then show ?case using await_step_ring [OF step(2)] ring_step_entries ring_inv_step by metis
qed simp

text \<open>
  \<^verbatim>\<open>poll\<close> delivers what has been completed, up to any entry of the completion queue: the internal
  wake-up finds room to be armed again unless the submission queue is full.
\<close>

definition wake_up_fits :: "'p ring \<Rightarrow> bool" where
  "wake_up_fits r \<longleftrightarrow> 0 < rg_entries r \<and> (length (rg_sq r) < rg_entries r \<or> 0 \<notin> cq_data ` set (rg_cq r))"

lemma wake_up_fits_deliver:
  assumes inv: "ring_inv r" and cq: "rg_cq r = e # es" and fits: "wake_up_fits r"
  shows "\<exists>r'. next_cqe peername r = Some r'"
    and "next_cqe peername r = Some r' \<Longrightarrow> wake_up_fits r'"
proof -
  show "\<exists>r'. next_cqe peername r = Some r'"
    using fits cq by (intro next_cqe_some [OF inv cq]) (auto simp: wake_up_fits_def)
  assume step: "next_cqe peername r = Some r'"
  note shape = next_cqe_shape [OF inv cq step]
  show "wake_up_fits r'"
  proof (cases "cq_data e = 0")
    case True
    have "count (pending_data r) 0 = 1" using inv count_invD(1) unfolding ring_inv_def by blast
    then have "count (mset (map cq_data es)) 0 = 0" by (simp add: pending_data_def cq True)
    then have "0 \<notin># mset (map cq_data es)" by (rule not_in_iff [THEN iffD2])
    then have "0 \<notin> cq_data ` set es" by simp
    then show ?thesis using shape fits by (simp add: wake_up_fits_def)
  next
    case False
    then show ?thesis using shape fits cq by (auto simp: wake_up_fits_def)
  qed
qed

lemma await_drain:
  "await_inv s \<Longrightarrow> \<not> aw_failed s \<Longrightarrow> rg_cq (aw_ring s) = es @ e # fs \<Longrightarrow> Suc 0 < cq_data e \<Longrightarrow>
   ih_user (aw_ring s) (cq_data e) = Some p \<Longrightarrow> wake_up_fits (aw_ring s) \<Longrightarrow>
   \<exists>t. await_steps peername s t \<and> await_inv t \<and> \<not> aw_failed t \<and> p \<notin> dom (aw_rh t)
     \<and> aw_req t = aw_req s \<and> aw_next t = aw_next s"
proof (induction es arbitrary: s)
  case Nil
  have inv: "ring_inv (aw_ring s)" using Nil.prems(1) by (simp add: await_inv_def)
  have cq: "rg_cq (aw_ring s) = e # fs" using Nil.prems(3) by simp
  obtain r where r: "next_cqe peername (aw_ring s) = Some r" using wake_up_fits_deliver(1) [OF inv cq Nil.prems(6)] by blast
  then obtain t where t: "io_deliver peername s = Some t" using io_deliver_some by blast
  have step: "await_step peername s t" by (rule await_step.deliver [OF t])
  have inv_t: "await_inv t" by (rule await_inv_step [OF step Nil.prems(1)])
  note keep = io_deliver_keeps [OF t] and shape = next_cqe_shape [OF inv cq io_deliver_ring [OF t]]
  have "contexts_ok t" using inv_t keep Nil.prems(2) by (simp add: await_inv_def await_good_def)
  have "p \<notin> dom (aw_rh t)"
  proof
    assume "p \<in> dom (aw_rh t)"
    then obtain a where "a \<in> dom (ih_ctx (aw_ring t))" "ih_user (aw_ring t) a = Some p"
      using contexts_okD(4) [OF \<open>contexts_ok t\<close>] by blast
    moreover have "ih_user (aw_ring t) (cq_data e) = Some p" using shape Nil.prems(5) by simp
    ultimately have "cq_data e \<in> dom (ih_ctx (aw_ring t))" using contexts_okD(2) [OF \<open>contexts_ok t\<close>] by blast
    then show False using shape Nil.prems(4) by auto
  qed
  then show ?case using step inv_t keep Nil.prems(2) by blast
next
  case (Cons x es)
  have inv: "ring_inv (aw_ring s)" using Cons.prems(1) by (simp add: await_inv_def)
  have cq: "rg_cq (aw_ring s) = x # (es @ e # fs)" using Cons.prems(3) by simp
  obtain r where r: "next_cqe peername (aw_ring s) = Some r" using wake_up_fits_deliver(1) [OF inv cq Cons.prems(6)] by blast
  then obtain t where t: "io_deliver peername s = Some t" using io_deliver_some by blast
  have step: "await_step peername s t" by (rule await_step.deliver [OF t])
  note keep = io_deliver_keeps [OF t] and shape = next_cqe_shape [OF inv cq io_deliver_ring [OF t]]
  have "wake_up_fits (aw_ring t)" by (rule wake_up_fits_deliver(2) [OF inv cq Cons.prems(6) io_deliver_ring [OF t]])
  then obtain u where "await_steps peername t u" "await_inv u" "\<not> aw_failed u" "p \<notin> dom (aw_rh u)"
     "aw_req u = aw_req t" "aw_next u = aw_next t"
    using Cons.IH [of t] await_inv_step [OF step Cons.prems(1)] keep shape Cons.prems(2,4,5) by auto
  then show ?case using step keep converse_rtranclp_into_rtranclp [of "await_step peername" s t u] by auto
qed

lemma await_proceeds:
  assumes inv: "await_inv s" and nf: "\<not> aw_failed s" and wait: "aw_wait s h = Some p" and room: "0 < rg_entries (aw_ring s)"
  shows "\<exists>t ec res. await_steps peername s t \<and> \<not> aw_failed t \<and> (p, h, ec, res) \<in> set (aw_done t)"
proof -
  define s1 where "s1 = s\<lparr>aw_ring := snd (ring_poll 1 0 no_error (aw_ring s))\<rparr>"
  have good: "await_good s" and ring: "ring_inv (aw_ring s)" using inv nf by (simp_all add: await_inv_def)
  obtain r where r: "aw_rh s p = Some r" "rh_handle r = h"
    using await_goodD(1) [OF good] wait unfolding handles_ok_def by blast
  then obtain req where req: "aw_req s p = Some (h, req)" "p < aw_next s"
    using await_goodD(1) [OF good] unfolding handles_ok_def by blast
  obtain a where a: "Suc 0 < a" "a \<in> dom (ih_ctx (aw_ring s))" "ih_user (aw_ring s) a = Some p"
    using contexts_okD(4) [OF await_goodD(2) [OF good]] r(1) by blast
  have step: "await_step peername s s1" unfolding s1_def by (rule await_step.poll)
  have inv1: "await_inv s1" by (rule await_inv_step [OF step inv])
  have sub: "aw_ring s1 = ring_submit (aw_ring s)"
    by (simp add: s1_def ring_poll_def etime_def eagain_def eintr_def Let_def)
  have same: "aw_req s1 = aw_req s" "aw_next s1 = aw_next s" "aw_failed s1 = aw_failed s" by (simp_all add: s1_def)
  have "count (pending_data (aw_ring s)) a = 1"
    using ring count_invD(2) [OF _ a(1)] a(2) unfolding ring_inv_def by (metis One_nat_def)
  moreover have "pending_data (aw_ring s1) = pending_data (aw_ring s)"
    unfolding sub by (simp add: ring_submit_def pending_data_def ac_simps)
  ultimately have "0 < count (pending_data (aw_ring s1)) a" by simp
  then have "a \<in># pending_data (aw_ring s1)" by (simp only: count_greater_zero_iff)
  then have "a \<in># mset (map sq_data (rg_kernel (aw_ring s1))) + mset (map cq_data (rg_cq (aw_ring s1)))"
    unfolding pending_data_def sub by (simp add: ring_submit_def)
  then have "\<exists>t e es fs. await_steps peername s1 t \<and> await_inv t \<and> \<not> aw_failed t \<and> aw_req t = aw_req s \<and> aw_next t = aw_next s
      \<and> rg_cq (aw_ring t) = es @ e # fs \<and> cq_data e = a \<and> ih_user (aw_ring t) a = Some p \<and> wake_up_fits (aw_ring t)"
  proof (elim union_iff [THEN iffD1, THEN disjE])
    assume "a \<in># mset (map cq_data (rg_cq (aw_ring s1)))"
    then obtain e where "e \<in> set (rg_cq (aw_ring s1))" "cq_data e = a" by auto
    then obtain es fs where "rg_cq (aw_ring s1) = es @ e # fs" by (meson split_list)
    with \<open>cq_data e = a\<close> inv1 nf a room show ?thesis
      by (intro exI [of _ s1] exI [of _ e] exI [of _ es] exI [of _ fs])
        (simp add: sub same ring_submit_def wake_up_fits_def)
  next
    assume "a \<in># mset (map sq_data (rg_kernel (aw_ring s1)))"
    then obtain e where e: "e \<in> set (rg_kernel (aw_ring s1))" "sq_data e = a" by auto
    then obtain xs ys where k: "rg_kernel (aw_ring s1) = xs @ e # ys" by (meson split_list)
    have "await_good s1" using inv1 nf same(3) by (simp add: await_inv_def)
    then have "entry_ok s1 e" using await_goodD(4) e(1) by blast
    then have ne: "sq_prep e \<noteq> PrepWakeUpRead" using e(2) a(1) by (simp add: entry_ok_def)
    let ?t = "s1\<lparr>aw_ring := kernel_takes (xs @ ys) e 0 0 (aw_ring s1), aw_given := note_given e 0 s1,
        aw_failed := aw_failed s1 \<or> (0 :: int) < 0 \<and> is_msg_prep (sq_prep e)\<rparr>"
    have step2: "await_step peername s1 ?t" by (rule await_step.kernel [OF k ne])
    show ?thesis
      using step2 await_inv_step [OF step2 inv1] nf a room e(2)
      by (intro exI [of _ ?t] exI [of _ "\<lparr>cq_data = sq_data e, cq_res = 0\<rparr>"] exI [of _ "rg_cq (aw_ring s1)"] exI [of _ "[]"])
        (auto simp: sub same ring_submit_def kernel_takes_def wake_up_fits_def)
  qed
  then obtain t e es fs where t: "await_steps peername s1 t" "await_inv t" "\<not> aw_failed t" "aw_req t = aw_req s"
      "aw_next t = aw_next s" "rg_cq (aw_ring t) = es @ e # fs" "cq_data e = a" "ih_user (aw_ring t) a = Some p"
      "wake_up_fits (aw_ring t)" by blast
  obtain u where u: "await_steps peername t u" "await_inv u" "\<not> aw_failed u" "p \<notin> dom (aw_rh u)"
      "aw_req u = aw_req t" "aw_next u = aw_next t"
    using await_drain [OF t(2,3,6)] t(7-9) a(1) by blast
  have gu: "await_good u" using u(2,3) by (simp add: await_inv_def)
  then have "p \<in> fst ` set (aw_done u)" using await_goodD(8) [OF gu, of p] u(4,6) t(5) req(2) by simp
  then obtain h' ec res where d: "(p, h', ec, res) \<in> set (aw_done u)" by auto
  then have "done_ok u (p, h', ec, res)" using await_goodD(6) [OF gu] by blast
  then have "h' = h" using u(5) t(4) req(1) by (auto simp: done_ok_def)
  with d u(1,3) t(1) step show ?thesis
    using converse_rtranclp_into_rtranclp [of "await_step peername" s s1 u, OF step] rtranclp_trans by metis
qed

subsection \<open>A run\<close>

datatype await_cmd = AwAwait nat "nat io_request" | AwPoll | AwKernel nat int nat | AwDeliver

fun await_do :: "(int \<Rightarrow> byte list) \<Rightarrow> await_cmd \<Rightarrow> await_sys \<Rightarrow> await_sys option" where
  "await_do peername (AwAwait h req) s = (if aw_wait s h = None then io_await h req s else None)"
| "await_do peername AwPoll s = Some (s\<lparr>aw_ring := snd (ring_poll 1 0 no_error (aw_ring s))\<rparr>)"
| "await_do peername (AwKernel i res n) s =
     (let ks = rg_kernel (aw_ring s); e = ks ! i
      in if i < length ks \<and> sq_prep e \<noteq> PrepWakeUpRead
         then Some (s\<lparr>aw_ring := kernel_takes (take i ks @ drop (Suc i) ks) e res n (aw_ring s),
                aw_given := note_given e res s, aw_failed := aw_failed s \<or> res < 0 \<and> is_msg_prep (sq_prep e)\<rparr>)
         else None)"
| "await_do peername AwDeliver s = io_deliver peername s"

abbreviation await_schedule :: "(int \<Rightarrow> byte list) \<Rightarrow> await_cmd list \<Rightarrow> await_sys \<Rightarrow> await_sys option" where
  "await_schedule peername \<equiv> run_schedule (await_do peername)"

lemma await_do_step: "await_do peername c s = Some t \<Longrightarrow> await_step peername s t"
proof (cases c)
  case (AwKernel i res n)
  assume do: "await_do peername c s = Some t"
  then have i: "i < length (rg_kernel (aw_ring s))" and ne: "sq_prep (rg_kernel (aw_ring s) ! i) \<noteq> PrepWakeUpRead"
    by (auto simp: AwKernel Let_def split: if_splits)
  from do i ne show ?thesis
    by (auto simp: AwKernel Let_def intro: await_step.kernel [OF id_take_nth_drop [OF i] ne])
qed (auto intro: await_step.intros split: if_splits)

lemma await_schedule_steps: "await_schedule peername cs s = Some t \<Longrightarrow> await_steps peername s t"
  using await_do_step by (rule run_schedule_steps)

definition demo_await_ring :: "nat ring" where
  "demo_await_ring = \<lparr>ih_ctx = [0 \<mapsto> blank_ctx OpNoop ServicePtr WakeUpCb, Suc 0 \<mapsto> blank_ctx OpNoop ServicePtr EmptyCb],
         ih_msg = Map.empty, ih_next = Suc (Suc 0), ih_issued = [], ih_user = Map.empty,
         rg_entries = 4, rg_sq = [\<lparr>sq_prep = PrepWakeUpRead, sq_data = 0\<rparr>], rg_kernel = [], rg_cq = [], rg_io_num = 0,
         rg_event = 2048, rg_wake = 0, rg_empty = Suc 0, rg_calls = []\<rparr>"

lemma demo_await_ring_new: "ring_new True 4 = Inr (Some demo_await_ring)"
  by (simp add: ring_new_def prep_wake_up_def put_sqe_def demo_await_ring_def efd_nonblock_def)

text \<open>
  Coroutine 7 receives and coroutine 8 sends a datagram; a third one still reads. The kernel
  completes the second request first, and the first with an error.
\<close>

definition await_demo :: "await_cmd list" where
  "await_demo = [AwAwait 7 (ReceiveReq 3 100 16), AwAwait 8 (SendToReq 4 [1, 2] 200 5), AwAwait 9 (ReadFileReq 5 300 10 0),
     AwPoll, AwKernel 2 5 0, AwKernel 1 (-104) 0, AwDeliver, AwDeliver]"

lemma await_demo_run:
  "\<exists>s. await_schedule (\<lambda>_. []) await_demo (await_new demo_await_ring) = Some s
     \<and> aw_done s = [(1, 8, no_error, 5), (0, 7, make_system_error_code 104, 0)] \<and> \<not> aw_failed s \<and> aw_wait s 9 = Some 2
     \<and> rg_entries (aw_ring s) = 4"
proof -
  have "map_option (\<lambda>s. (aw_done s, aw_failed s, aw_wait s 9, rg_entries (aw_ring s)))
      (await_schedule (\<lambda>_. []) await_demo (await_new demo_await_ring))
    = Some ([(1, 8, no_error, 5), (0, 7, make_system_error_code 104, 0)], False, Some 2, 4)"
    by code_simp
  then show ?thesis by auto
qed

subsection \<open>Properties\<close>

text \<open>
  Property C2: awaiting I/O is exact. Every operation a coroutine awaits on the ring is pending with the
  coroutine suspended in its handle, or has resumed that coroutine, never both and never twice; the
  kernel executed the very request the coroutine made, and what \<^verbatim>\<open>co_await\<close> gave is the kernel's
  result: the error it returned, or the count. No callback writes anywhere else. This holds as long as no
  operation on messages fails, which the back end hands on with a wrong pointer.
\<close>

theorem io_await_exact:
  assumes "ring_new ok n = Inr (Some r)" and "await_steps peername (await_new r) s" and "\<not> aw_failed s"
  shows "\<not> aw_wild s \<and> distinct (map fst (aw_done s))
     \<and> (\<forall>p < aw_next s. (p \<in> dom (aw_rh s)) \<noteq> (p \<in> fst ` set (aw_done s)))
     \<and> (\<forall>h p. aw_wait s h = Some p \<longrightarrow> (\<exists>req a. aw_req s p = Some (h, req)
          \<and> ih_user (aw_ring s) a = Some p \<and> a \<in># pending_data (aw_ring s)))
     \<and> (\<forall>p h ec res. (p, h, ec, res) \<in> set (aw_done s) \<longrightarrow>
          (\<exists>req k. aw_req s p = Some (h, req) \<and> aw_given s p = Some (req, k)
             \<and> ec = (if k < 0 then make_system_error_code (- k) else no_error) \<and> res = (if k < 0 then 0 else word_of_int k)))"
proof -
  have inv: "await_inv s" using aw.reachable_inv [of ok n "await_new r" peername s] assms(1,2) by blast
  then have good: "await_good s" and ring: "ring_inv (aw_ring s)" using assms(3) by (simp_all add: await_inv_def)
  have "\<exists>req a. aw_req s p = Some (h, req) \<and> ih_user (aw_ring s) a = Some p \<and> a \<in># pending_data (aw_ring s)"
    if w: "aw_wait s h = Some p" for h p
  proof -
    obtain rr where "aw_rh s p = Some rr" "rh_handle rr = h" using await_goodD(1) [OF good] w unfolding handles_ok_def by blast
    moreover then obtain req where "aw_req s p = Some (h, req)" using await_goodD(1) [OF good] unfolding handles_ok_def by blast
    ultimately obtain a where a: "Suc 0 < a" "a \<in> dom (ih_ctx (aw_ring s))" "ih_user (aw_ring s) a = Some p"
      using contexts_okD(4) [OF await_goodD(2) [OF good], of p] by blast
    have "count (pending_data (aw_ring s)) a = 1"
      using ring count_invD(2) [OF _ a(1)] a(2) unfolding ring_inv_def by (metis One_nat_def)
    then have "a \<in># pending_data (aw_ring s)" by (simp flip: count_greater_zero_iff)
    with a(3) \<open>aw_req s p = Some (h, req)\<close> show ?thesis by blast
  qed
  moreover have "(p \<in> dom (aw_rh s)) \<noteq> (p \<in> fst ` set (aw_done s))" if "p < aw_next s" for p
    using await_goodD(6,8) [OF good] that by (fastforce simp: done_ok_def)
  moreover have "\<exists>req k. aw_req s p = Some (h, req) \<and> aw_given s p = Some (req, k)
      \<and> ec = (if k < 0 then make_system_error_code (- k) else no_error) \<and> res = (if k < 0 then 0 else word_of_int k)"
    if "(p, h, ec, res) \<in> set (aw_done s)" for p h ec res
    using await_goodD(6) [OF good that] by (auto simp: done_ok_def await_result_def split: if_splits)
  ultimately show ?thesis using await_goodD(7,9) [OF good] by blast
qed

theorem io_await_exact_witness:
  "\<exists>s :: await_sys. (1, 8, no_error, 5) \<in> set (aw_done s) \<and> aw_given s 1 = Some (SendToReq 4 [1, 2] 200 5, 5)"
proof -
  obtain s where s: "await_schedule (\<lambda>_. []) await_demo (await_new demo_await_ring) = Some s"
    "aw_done s = [(1, 8, no_error, 5), (0, 7, make_system_error_code 104, 0)]" "\<not> aw_failed s"
    using await_demo_run by blast
  have "map_option (\<lambda>s. aw_req s 1) (await_schedule (\<lambda>_. []) await_demo (await_new demo_await_ring))
      = Some (Some (8, SendToReq 4 [1, 2] 200 5))" by code_simp
  then have "aw_req s 1 = Some (8, SendToReq 4 [1, 2] 200 5)" by (simp add: s(1))
  moreover have d: "(1, 8, no_error, 5) \<in> set (aw_done s)" by (simp add: s(2))
  ultimately obtain k where k: "aw_given s 1 = Some (SendToReq 4 [1, 2] 200 5, k)"
      "(5 :: size_t) = (if k < 0 then 0 else word_of_int k)"
    using io_await_exact [OF demo_await_ring_new await_schedule_steps [OF s(1)] s(3)] by force
  have "map_option (\<lambda>s. map_option snd (aw_given s 1)) (await_schedule (\<lambda>_. []) await_demo (await_new demo_await_ring))
      = Some (Some 5)" by code_simp
  then have "k = 5" using k(1) by (auto simp: s(1))
  with k(1) d show ?thesis by auto
qed

text \<open>
  Property C8: awaiting I/O makes progress. From every reachable state without a failed operation on
  messages, a coroutine that awaits an operation can be resumed from it: polling hands its request to the
  kernel, and once that completes, the completions before it can all be delivered.
\<close>

theorem io_await_proceeds:
  assumes "ring_new ok n = Inr (Some r)" and "await_steps peername (await_new r) s" and "\<not> aw_failed s"
    and "aw_wait s h = Some p"
  shows "\<exists>t ec res. await_steps peername s t \<and> \<not> aw_failed t \<and> (p, h, ec, res) \<in> set (aw_done t)"
proof -
  have inv: "await_inv s" using aw.reachable_inv [of ok n "await_new r" peername s] assms(1,2) by blast
  have "0 < rg_entries r" using assms(1) by (auto simp: ring_new_def prep_wake_up_def put_sqe_def split: if_splits)
  moreover have "rg_entries (aw_ring s) = rg_entries r"
    using await_entries [OF assms(2)] ring_inv_new [OF assms(1)] by (simp add: await_new_def)
  ultimately show ?thesis using await_proceeds [OF inv assms(3,4)] by simp
qed

theorem io_await_proceeds_witness:
  "\<exists>s t ec res. await_steps (\<lambda>_. []) s t \<and> aw_wait s 9 = Some 2 \<and> (2, 9, ec, res) \<in> set (aw_done t)"
proof -
  obtain s where s: "await_schedule (\<lambda>_. []) await_demo (await_new demo_await_ring) = Some s"
    "\<not> aw_failed s" "aw_wait s 9 = Some 2"
    using await_demo_run by blast
  from io_await_proceeds [OF demo_await_ring_new await_schedule_steps [OF s(1)] s(2,3)] s(3) show ?thesis by blast
qed

end
