(* ===== verification/Await_Port.thy ===== *)
theory Await_Port
  imports Iocp Await_Handles
begin

section \<open>Awaiting I/O over a completion port (core/io_context.h, net/iocp.cpp, net/socket.cpp)\<close>

text \<open>
  The same coroutine operations on Windows. There an operation that fails when it is started calls back on the
  spot, while \<^verbatim>\<open>await_suspend\<close> is still running: the handle is complete by then, and the coroutine is
  suspended, so that it is resumed from inside its own request.
\<close>

subsection \<open>The composition\<close>

text \<open>
  What Windows said of an operation: it refused to start it, or completed it with an error or none and a number of
  bytes. \<open>aw_said\<close> records it by the address of the handle.
\<close>

datatype windows_said = Refused error_code | Completed "int option" dword

record port_await = "port_request await_base" +
  aw_port :: "nat port"
  aw_said :: "nat \<rightharpoonup> windows_said"

text \<open>The callbacks that a call into the service has run are \<open>resume_callback\<close>.\<close>

definition run_callbacks :: "nat port_call list \<Rightarrow> port_await \<Rightarrow> port_await" where
  "run_callbacks ks s = fold (\<lambda>k. resume_callback (pc_ec k) (pc_res k) (pc_ptr k)) ks s"

definition enter_port :: "nat port \<Rightarrow> port_await \<Rightarrow> port_await" where
  "enter_port t s = run_callbacks (drop (length (pt_calls (aw_port s))) (pt_calls t)) (s\<lparr>aw_port := t\<rparr>)"

text \<open>The error the call returns with, if it does not take the operation.\<close>

definition refused_with :: "port_request \<Rightarrow> int option \<Rightarrow> error_code option" where
  "refused_with req err =
     (case req of
        PAccept fd opened \<Rightarrow> if is_error (snd opened) then Some (snd opened) else map_option make_system_error_code err
      | _ \<Rightarrow> map_option make_system_error_code err)"

definition note_refused :: "port_request \<Rightarrow> int option \<Rightarrow> port_await \<Rightarrow> port_await" where
  "note_refused req err s =
     (case refused_with req err of None \<Rightarrow> s | Some ec \<Rightarrow> s\<lparr>aw_said := (aw_said s)(aw_next s \<mapsto> Refused ec)\<rparr>)"

definition port_await_io :: "nat \<Rightarrow> port_request \<Rightarrow> int option \<Rightarrow> port_await \<Rightarrow> port_await" where
  "port_await_io h req err s =
     enter_port (port_issue req err (aw_next s) (aw_port s)) (suspend_in h req (note_refused req err s))"

definition note_completed :: "port_req \<Rightarrow> int option \<Rightarrow> dword \<Rightarrow> port_await \<Rightarrow> port_await" where
  "note_completed r err bytes s =
     (case ih_user (aw_port s) (po_ctx r) of
        None \<Rightarrow> s | Some p \<Rightarrow> s\<lparr>aw_said := (aw_said s)(p \<mapsto> Completed err bytes)\<rparr>)"

definition windows_completes :: "port_req list \<Rightarrow> port_req \<Rightarrow> int option \<Rightarrow> dword \<Rightarrow> nat port \<Rightarrow> nat port" where
  "windows_completes rest r err bytes t =
     t\<lparr>pt_kernel := rest, pt_queue := pt_queue t @ [\<lparr>pk_bytes = bytes, pk_ctx = Some (po_ctx r), pk_err = err\<rparr>]\<rparr>"

definition port_deliver :: "(nat \<Rightarrow> byte list) \<Rightarrow> error_code \<Rightarrow> port_await \<Rightarrow> port_await" where
  "port_deliver peer ec s = enter_port (snd (port_take peer ec (aw_port s))) s"

inductive port_await_step :: "(nat \<Rightarrow> byte list) \<Rightarrow> port_await \<Rightarrow> port_await \<Rightarrow> bool" for peer where
  await: "aw_wait s h = None \<Longrightarrow> port_await_step peer s (port_await_io h req err s)"
| wake_up: "port_await_step peer s (s\<lparr>aw_port := port_wake_up (aw_port s)\<rparr>)"
| complete: "pt_kernel (aw_port s) = xs @ r # ys \<Longrightarrow> port_await_step peer s
    ((note_completed r err bytes s)\<lparr>aw_port := windows_completes (xs @ ys) r err bytes (aw_port s)\<rparr>)"
| deliver: "port_await_step peer s (port_deliver peer ec s)"

abbreviation port_await_steps :: "(nat \<Rightarrow> byte list) \<Rightarrow> port_await \<Rightarrow> port_await \<Rightarrow> bool" where
  "port_await_steps peer \<equiv> (port_await_step peer)\<^sup>*\<^sup>*"

definition port_await_new :: "nat port \<Rightarrow> port_await" where
  "port_await_new t = \<lparr>aw_rh = Map.empty, aw_next = 0, aw_wait = (\<lambda>_. None), aw_req = Map.empty, aw_done = [],
                       aw_wild = False, aw_port = t, aw_said = Map.empty\<rparr>"

subsection \<open>One call of the service\<close>

text \<open>The operations whose result is a number of bytes; the others' is a socket.\<close>

definition moves_data :: "port_request \<Rightarrow> bool" where
  "moves_data req = (case req of PAccept _ _ \<Rightarrow> False | PConnect _ _ \<Rightarrow> False | _ \<Rightarrow> True)"

definition data_op :: "operation \<Rightarrow> bool" where
  "data_op op \<longleftrightarrow> op \<noteq> OpAccept \<and> op \<noteq> OpConnect \<and> op \<noteq> OpNoop"

lemma issue_answers:
  fixes s :: "'p port"
  assumes "t = port_issue req err p s"
  shows "case refused_with req err of
      None \<Rightarrow> \<exists>c op. pt_kernel t = pt_kernel s @ [\<lparr>po_op = op, po_ctx = ih_next s\<rparr>] \<and> pt_calls t = pt_calls s
          \<and> ih_ctx t (ih_next s) = Some c \<and> ic_ptr c = UserPtr p \<and> data_op (ic_op c) = moves_data req
    | Some ec \<Rightarrow> \<exists>k. pt_kernel t = pt_kernel s \<and> pt_calls t = pt_calls s @ [k] \<and> pc_ctx k = ih_next s
          \<and> pc_ptr k = UserPtr p \<and> pc_ec k = ec"
proof (cases req)
  case (PAccept fd opened)
  then show ?thesis using assms
    by (cases opened; cases err)
      (auto simp: refused_with_def moves_data_def data_op_def svc_accept_def new_ctx_def blank_ctx_def port_op_defs Let_def)
qed (cases err; simp add: assms refused_with_def moves_data_def data_op_def svc_defs svc_send_to_win_def svc_receive_from_win_def
      new_ctx_def blank_ctx_def io_buf_def io_buf_win_def port_op_defs Let_def)+

lemma take_answers:
  assumes "pt_queue s = pk # pks" and "pk_ctx pk = Some a" and "pk_bytes pk \<noteq> ulong_max" and "ih_ctx s a = Some c"
  shows "\<exists>k. pt_calls (snd (port_take peer ec s)) = pt_calls s @ [k] \<and> pc_ctx k = a \<and> pc_ptr k = ic_ptr c
     \<and> pc_ec k = port_error (pk_err pk) \<and> (data_op (ic_op c) \<longrightarrow> pc_res k = ucast (pk_bytes pk))
     \<and> ih_ctx (snd (port_take peer ec s)) = (ih_ctx s)(a := None) \<and> ih_user (snd (port_take peer ec s)) = ih_user s
     \<and> ih_issued (snd (port_take peer ec s)) = ih_issued s \<and> ih_next (snd (port_take peer ec s)) = ih_next s
     \<and> pt_swallowed (snd (port_take peer ec s)) = pt_swallowed s"
proof -
  let ?s = "s\<lparr>pt_queue := pks, pt_io_num := pt_io_num s - 1\<rparr>"
  have c: "ih_ctx ?s a = Some c" using assms(4) by simp
  note F = finish_frame [OF c, of peer "pk_bytes pk" "pk_err pk"]
  from F(1) obtain c' where c': "ih_ctx (port_finish peer (pk_bytes pk) (pk_err pk) a ?s) = (ih_ctx ?s)(a \<mapsto> c')"
    "ic_ptr c' = ic_ptr c" by blast
  have res: "data_op (ic_op c) \<longrightarrow> ic_res c' = ucast (pk_bytes pk)"
    using c' c by (cases "ic_op c") (auto simp: data_op_def port_finish_def port_ctx_def Let_def dest: map_upd_eqD1)
  show ?thesis
    using assms F c' res by (simp add: port_take_def port_cb_def port_ctx_def Let_def)
qed

subsection \<open>The invariant\<close>

text \<open>What \<^verbatim>\<open>co_await\<close> is to give for what Windows said.\<close>

definition gives :: "port_request \<Rightarrow> windows_said \<Rightarrow> error_code \<Rightarrow> size_t \<Rightarrow> bool" where
  "gives req said ec res \<longleftrightarrow>
     (case said of Refused e \<Rightarrow> ec = e | Completed err bytes \<Rightarrow> ec = port_error err \<and> (moves_data req \<longrightarrow> res = ucast bytes))"

definition port_done_ok :: "port_await \<Rightarrow> nat \<times> nat \<times> error_code \<times> size_t \<Rightarrow> bool" where
  "port_done_ok s d \<longleftrightarrow> (case d of (p, h, ec, res) \<Rightarrow> p < aw_next s \<and> p \<notin> dom (aw_rh s)
     \<and> (\<exists>req said. aw_req s p = Some (h, req) \<and> aw_said s p = Some said \<and> gives req said ec res
          \<and> (\<forall>err. said \<noteq> Completed err ulong_max)))"

definition packet_ok :: "port_await \<Rightarrow> port_packet \<Rightarrow> bool" where
  "packet_ok s pk \<longleftrightarrow> (\<forall>a. pk_ctx pk = Some a \<longrightarrow>
     (\<exists>p. ih_user (aw_port s) a = Some p \<and> aw_said s p = Some (Completed (pk_err pk) (pk_bytes pk))))"

definition context_ok :: "port_await \<Rightarrow> nat \<Rightarrow> bool" where
  "context_ok s a \<longleftrightarrow> (\<exists>c p h req. ih_ctx (aw_port s) a = Some c \<and> ih_user (aw_port s) a = Some p
     \<and> aw_req s p = Some (h, req) \<and> data_op (ic_op c) = moves_data req)"

definition users_ok :: "port_await \<Rightarrow> bool" where
  "users_ok s \<longleftrightarrow>
     (\<forall>a p. ih_user (aw_port s) a = Some p \<longrightarrow> a < ih_next (aw_port s) \<and> p < aw_next s)
   \<and> (\<forall>a b p. ih_user (aw_port s) a = Some p \<longrightarrow> ih_user (aw_port s) b = Some p \<longrightarrow> a = b)"

text \<open>A context whose completion was taken for a wake-up.\<close>

definition swallowed_ok :: "port_await \<Rightarrow> nat \<Rightarrow> bool" where
  "swallowed_ok s a \<longleftrightarrow> (\<exists>p err. ih_user (aw_port s) a = Some p \<and> aw_said s p = Some (Completed err ulong_max))"

text \<open>Of the operations that it still has, and of those to come, Windows has said nothing.\<close>

definition unsaid :: "port_await \<Rightarrow> bool" where
  "unsaid s \<longleftrightarrow> (\<forall>r \<in> set (pt_kernel (aw_port s)). \<forall>p. ih_user (aw_port s) (po_ctx r) = Some p \<longrightarrow> aw_said s p = None)
     \<and> (\<forall>p \<ge> aw_next s. aw_said s p = None)"

definition waiting :: "nat port \<Rightarrow> nat set" where
  "waiting t = {p. \<exists>a. (a \<in># port_pending t \<or> a \<in> set (pt_swallowed t)) \<and> ih_user t a = Some p}"

text \<open>\<open>due\<close> are the handles whose callback is running: their contexts are no longer pending.\<close>

definition port_good :: "nat set \<Rightarrow> port_await \<Rightarrow> bool" where
  "port_good due s \<longleftrightarrow> port_inv (aw_port s) \<and> handles_ok s \<and> users_ok s
     \<and> dom (aw_rh s) = waiting (aw_port s) \<union> due
     \<and> (\<forall>a. a \<in># port_pending (aw_port s) \<longrightarrow> context_ok s a)
     \<and> (\<forall>pk \<in> set (pt_queue (aw_port s)). packet_ok s pk)
     \<and> (\<forall>d \<in> set (aw_done s). port_done_ok s d) \<and> distinct (map fst (aw_done s))
     \<and> (\<forall>p < aw_next s. p \<in> dom (aw_rh s) \<or> p \<in> fst ` set (aw_done s)) \<and> \<not> aw_wild s
     \<and> (\<forall>a \<in> set (pt_swallowed (aw_port s)). swallowed_ok s a) \<and> unsaid s"

lemma port_goodD:
  assumes "port_good due s"
  shows "port_inv (aw_port s)" "handles_ok s" "users_ok s"
    "dom (aw_rh s) = waiting (aw_port s) \<union> due"
    "\<And>a. a \<in># port_pending (aw_port s) \<Longrightarrow> context_ok s a"
    "\<And>pk. pk \<in> set (pt_queue (aw_port s)) \<Longrightarrow> packet_ok s pk"
    "\<And>d. d \<in> set (aw_done s) \<Longrightarrow> port_done_ok s d" "distinct (map fst (aw_done s))"
    "\<And>p. p < aw_next s \<Longrightarrow> p \<in> dom (aw_rh s) \<or> p \<in> fst ` set (aw_done s)" "\<not> aw_wild s"
    "\<And>a. a \<in> set (pt_swallowed (aw_port s)) \<Longrightarrow> swallowed_ok s a" "unsaid s"
  using assms unfolding port_good_def by blast+

lemma port_goodI:
  assumes "port_inv (aw_port s)" "handles_ok s" "users_ok s"
    "dom (aw_rh s) = waiting (aw_port s) \<union> due"
    "\<And>a. a \<in># port_pending (aw_port s) \<Longrightarrow> context_ok s a"
    "\<And>pk. pk \<in> set (pt_queue (aw_port s)) \<Longrightarrow> packet_ok s pk"
    "\<And>d. d \<in> set (aw_done s) \<Longrightarrow> port_done_ok s d" "distinct (map fst (aw_done s))"
    "\<And>p. p < aw_next s \<Longrightarrow> p \<in> dom (aw_rh s) \<or> p \<in> fst ` set (aw_done s)" "\<not> aw_wild s"
    "\<And>a. a \<in> set (pt_swallowed (aw_port s)) \<Longrightarrow> swallowed_ok s a" "unsaid s"
  shows "port_good due s"
  using assms unfolding port_good_def by blast

text \<open>The callback: the handle that is due is done.\<close>

lemma port_good_resume:
  assumes good: "port_good {p} s" and out: "p \<notin> waiting (aw_port s)"
    and said: "aw_req s p = Some (h, req)" "aw_said s p = Some said" "gives req said ec res" "\<And>err. said \<noteq> Completed err ulong_max"
  shows "port_good {} (resume_callback ec res (UserPtr p) s)"
    and "aw_done (resume_callback ec res (UserPtr p) s) = aw_done s @ [(p, h, ec, res)]"
    and "aw_port (resume_callback ec res (UserPtr p) s) = aw_port s" "aw_req (resume_callback ec res (UserPtr p) s) = aw_req s"
proof -
  note G = port_goodD [OF good]
  have "p \<in> dom (aw_rh s)" using G(4) by blast
  then obtain r where r: "aw_rh s p = Some r" by blast
  note R = handles_okD(2) [OF G(2) r]
  have h: "rh_handle r = h" using R said(1) by auto
  define t where "t = resume_callback ec res (UserPtr p) s"
  have t: "t = s\<lparr>aw_rh := (aw_rh s)(p := None), aw_wait := (aw_wait s)(h := None), aw_done := aw_done s @ [(p, h, ec, res)]\<rparr>"
    by (simp add: t_def resume_callback_def r io_resumed_def h)
  have old: "port_done_ok t d" if "d \<in> set (aw_done s)" for d
    using G(7) [OF that] by (auto simp: port_done_ok_def t)
  have notp: "p \<notin> fst ` set (aw_done s)" using G(7) r by (fastforce simp: port_done_ok_def)
  have "port_good {} t"
  proof (rule port_goodI)
    show "handles_ok t" by (rule handles_ok_resumed [OF G(2) r]) (simp_all add: t h)
    show "dom (aw_rh t) = waiting (aw_port t) \<union> {}"
      using G(4) out by (auto simp: t)
    show "port_done_ok t d" if "d \<in> set (aw_done t)" for d
    proof -
      have "port_done_ok t (p, h, ec, res)" using R said by (auto simp: port_done_ok_def t)
      moreover have "d \<in> set (aw_done s) \<or> d = (p, h, ec, res)" using that by (auto simp: t)
      ultimately show ?thesis using old by blast
    qed
    show "q \<in> dom (aw_rh t) \<or> q \<in> fst ` set (aw_done t)" if "q < aw_next t" for q
      using G(9) [of q] that by (auto simp: t)
  qed (use G(1,3,5,6,8,10-12) notp in \<open>auto simp: t users_ok_def context_ok_def packet_ok_def swallowed_ok_def unsaid_def\<close>)
  then show "port_good {} (resume_callback ec res (UserPtr p) s)" by (simp add: t_def)
  show "aw_done (resume_callback ec res (UserPtr p) s) = aw_done s @ [(p, h, ec, res)]"
    "aw_port (resume_callback ec res (UserPtr p) s) = aw_port s" "aw_req (resume_callback ec res (UserPtr p) s) = aw_req s"
    using t by (simp_all add: t_def)
qed

text \<open>Taking a packet.\<close>

lemma pending_of_queue:
  "pt_queue s = pk # pks \<Longrightarrow> pk_ctx pk = Some a \<Longrightarrow> a \<in># port_pending s"
  by (simp add: port_pending_def List.map_filter_simps)

lemma port_good_swallow:
  assumes good: "port_good {} s" and q: "pt_queue (aw_port s) = pk # pks" and b: "pk_bytes pk = ulong_max"
  defines "gone \<equiv> (case pk_ctx pk of None \<Rightarrow> [] | Some a \<Rightarrow> [a])"
  shows "port_deliver peer ec s = s\<lparr>aw_port := (aw_port s)\<lparr>pt_queue := pks, pt_swallowed := pt_swallowed (aw_port s) @ gone\<rparr>\<rparr>"
    and "port_good {} (port_deliver peer ec s)"
proof -
  let ?t = "aw_port s" and ?u = "(aw_port s)\<lparr>pt_queue := pks, pt_swallowed := pt_swallowed (aw_port s) @ gone\<rparr>"
  note G = port_goodD [OF good]
  have u: "snd (port_take peer ec ?t) = ?u" by (simp add: port_take_def q b gone_def)
  then show t: "port_deliver peer ec s = s\<lparr>aw_port := ?u\<rparr>"
    by (simp add: port_deliver_def enter_port_def run_callbacks_def)
  have inv: "port_inv ?u" using inv_round [OF G(1), of peer ec] by (simp add: u)
  have pend: "port_pending ?t = mset gone + port_pending ?u"
    using q by (simp add: port_pending_def List.map_filter_simps gone_def split: option.splits)
  have "swallowed_ok s a" if "a \<in> set gone" for a
    using that G(6) [of pk] q b by (force simp: gone_def packet_ok_def swallowed_ok_def split: option.splits)
  then have sw: "swallowed_ok (s\<lparr>aw_port := ?u\<rparr>) a" if "a \<in> set (pt_swallowed ?u)" for a
    using that G(11) by (auto simp: swallowed_ok_def)
  have "waiting ?u = waiting ?t" by (auto simp: waiting_def pend)
  then show "port_good {} (port_deliver peer ec s)"
    unfolding t using inv G q sw
    by (intro port_goodI) (auto simp: handles_ok_def users_ok_def context_ok_def packet_ok_def port_done_ok_def unsaid_def pend)
qed

lemma port_good_callback:
  assumes good: "port_good {} s" and q: "pt_queue (aw_port s) = pk # pks" and b: "pk_bytes pk \<noteq> ulong_max"
    and ctx: "pk_ctx pk = Some a" "ih_user (aw_port s) a = Some p"
  shows "port_good {} (port_deliver peer ec s)" and "p \<in> fst ` set (aw_done (port_deliver peer ec s))"
    and "aw_req (port_deliver peer ec s) = aw_req s" and "pt_queue (aw_port (port_deliver peer ec s)) = pks"
    and "ih_user (aw_port (port_deliver peer ec s)) = ih_user (aw_port s)"
    and "pt_swallowed (aw_port (port_deliver peer ec s)) = pt_swallowed (aw_port s)"
proof -
  let ?t = "aw_port s" let ?u = "snd (port_take peer ec (aw_port s))"
  note G = port_goodD [OF good]
  note R = round_delivers [OF G(1) q, of peer ec] and inv = inv_round [OF G(1), of peer ec]
  have pend: "a \<in># port_pending ?t" by (rule pending_of_queue [OF q ctx(1)])
  note once = port_once [OF G(1) pend]
  obtain c h req where c: "ih_ctx ?t a = Some c" "aw_req s p = Some (h, req)" "data_op (ic_op c) = moves_data req"
    using G(5) [OF pend] ctx(2) unfolding context_ok_def by auto
  have ptr: "ic_ptr c = UserPtr p" using port_invD(1) [OF G(1) pend] c ctx(2) by auto
  obtain k where k: "pt_calls ?u = pt_calls ?t @ [k]" "pc_ctx k = a" "pc_ptr k = UserPtr p"
    "pc_ec k = port_error (pk_err pk)" "data_op (ic_op c) \<longrightarrow> pc_res k = ucast (pk_bytes pk)"
    "ih_ctx ?u = (ih_ctx ?t)(a := None)" "ih_user ?u = ih_user ?t" "ih_issued ?u = ih_issued ?t" "ih_next ?u = ih_next ?t"
    "pt_swallowed ?u = pt_swallowed ?t"
    using take_answers [OF q ctx(1) b c(1), of peer ec] ptr by auto
  have said: "aw_said s p = Some (Completed (pk_err pk) (pk_bytes pk))"
    using G(6) [of pk] q ctx by (auto simp: packet_ok_def)
  let ?v = "s\<lparr>aw_port := ?u\<rparr>"
  have step: "port_deliver peer ec s = resume_callback (pc_ec k) (pc_res k) (UserPtr p) ?v"
    by (simp add: port_deliver_def enter_port_def run_callbacks_def k(1,3))
  have rest: "port_pending ?t = add_mset a (port_pending ?u)"
    using q ctx(1) R(2,4) by (simp add: port_pending_def List.map_filter_simps)
  have gone: "a \<notin># port_pending ?u" using once(1) rest by (simp add: not_in_iff)
  have one: "b = a" if "ih_user ?u b = Some p" for b using that G(3) ctx(2) k(7) unfolding users_ok_def by metis
  then have out: "p \<notin> waiting ?u" using gone once(4) by (auto simp: waiting_def k(10))
  have "waiting ?t = insert p (waiting ?u)" using ctx(2) by (auto simp: waiting_def rest k(7,10))
  then have dom: "dom (aw_rh ?v) = waiting (aw_port ?v) \<union> {p}" using G(4) by simp
  have "port_good {p} ?v"
  proof (rule port_goodI [OF _ _ _ dom])
    show "context_ok ?v b" if "b \<in># port_pending (aw_port ?v)" for b
      using that G(5) [of b] gone by (auto simp: context_ok_def k rest)
    show "packet_ok ?v pk'" if "pk' \<in> set (pt_queue (aw_port ?v))" for pk'
      using that G(6) [of pk'] q R(2) by (simp add: packet_ok_def k(7))
  qed (use inv G(2,3,7-12) k R(4) in \<open>auto simp: handles_ok_def users_ok_def port_done_ok_def swallowed_ok_def unsaid_def\<close>)
  note res = port_good_resume [OF this, of h req "Completed (pk_err pk) (pk_bytes pk)" "pc_ec k" "pc_res k"]
  have "gives req (Completed (pk_err pk) (pk_bytes pk)) (pc_ec k) (pc_res k)" using k(4,5) c(3) by (simp add: gives_def)
  note res = res [OF _ _ _ this, unfolded step [symmetric]]
  show "port_good {} (port_deliver peer ec s)" "p \<in> fst ` set (aw_done (port_deliver peer ec s))"
    "aw_req (port_deliver peer ec s) = aw_req s" "pt_queue (aw_port (port_deliver peer ec s)) = pks"
    "ih_user (aw_port (port_deliver peer ec s)) = ih_user (aw_port s)"
    "pt_swallowed (aw_port (port_deliver peer ec s)) = pt_swallowed (aw_port s)"
    using res out c(2) said R(2) k(7,10) b by simp_all
qed

lemma port_good_deliver:
  assumes good: "port_good {} s" and q: "pt_queue (aw_port s) = pk # pks"
  shows "port_good {} (port_deliver peer ec s) \<and> pt_queue (aw_port (port_deliver peer ec s)) = pks
    \<and> aw_req (port_deliver peer ec s) = aw_req s
    \<and> ih_user (aw_port (port_deliver peer ec s)) = ih_user (aw_port s)
    \<and> set (pt_swallowed (aw_port s)) \<subseteq> set (pt_swallowed (aw_port (port_deliver peer ec s)))
    \<and> (\<forall>a p. pk_callee pk = Some a \<longrightarrow> ih_user (aw_port s) a = Some p \<longrightarrow> p \<in> fst ` set (aw_done (port_deliver peer ec s)))"
proof (cases "pk_bytes pk = ulong_max")
  case True
  from port_good_swallow [OF good q this, of peer ec] True show ?thesis by (simp add: pk_callee_def)
next
  case False
  note G = port_goodD [OF good]
  then obtain a where a: "pk_ctx pk = Some a" using False q port_invD(7) [OF G(1), of pk] by auto
  then obtain p where "ih_user (aw_port s) a = Some p"
    using G(5) [OF pending_of_queue [OF q a]] unfolding context_ok_def by blast
  from port_good_callback [OF good q False a this, of peer ec] this a False show ?thesis by (auto simp: pk_callee_def)
qed

text \<open>Making a request, which may be refused on the spot.\<close>

lemma port_good_await:
  assumes good: "port_good {} s" and wait: "aw_wait s h = None"
  shows "port_good {} (port_await_io h req err s)"
proof -
  let ?s = "aw_port s" and ?p = "aw_next s" and ?a = "ih_next (aw_port s)"
  define t where "t = port_issue req err ?p ?s"
  define v where "v = (suspend_in h req (note_refused req err s))\<lparr>aw_port := t\<rparr>"
  note G = port_goodD [OF good] and ans = issue_answers [OF t_def]
  have st: "started ?p ?s t" unfolding t_def by (rule issue_started)
  have inv: "port_inv t" by (rule inv_started [OF G(1) st])
  have t: "ih_issued t = ih_issued ?s @ [?a]" "ih_user t = (ih_user ?s)(?a \<mapsto> ?p)" "?a < ih_next t"
    "pt_queue t = pt_queue ?s" "\<And>b. b \<noteq> ?a \<Longrightarrow> ih_ctx t b = ih_ctx ?s b" "pt_swallowed t = pt_swallowed ?s"
    using st by (simp_all add: started_def)
  have v: "aw_next v = Suc ?p" "aw_req v = (aw_req s)(?p \<mapsto> (h, req))" "aw_done v = aw_done s" "aw_wild v = aw_wild s"
    "aw_rh v = (aw_rh s)(?p \<mapsto> \<lparr>rh_ec = no_error, rh_res = 0, rh_handle = h\<rparr>)" "aw_port v = t"
    "aw_said v = (case refused_with req err of None \<Rightarrow> aw_said s | Some ec \<Rightarrow> (aw_said s)(?p \<mapsto> Refused ec))"
    by (simp_all add: v_def suspend_in_def note_refused_def split: option.splits)
  have said: "aw_said v q = aw_said s q" if "q \<noteq> ?p" for q using that by (simp add: v(7) split: option.splits)
  have fresh: "ih_user ?s ?a = None" "\<And>b. ih_user ?s b \<noteq> Some ?p"
    using G(3) unfolding users_ok_def by (metis less_irrefl not_Some_eq)+
  have newp: "?p \<notin> dom (aw_req s)" "?p \<notin> dom (aw_rh s)" using handles_okD(1,2) [OF G(2)] by auto
  have below: "a < ?a" if "a \<in># port_pending ?s" for a using port_invD(4) [OF G(1) port_once(2) [OF G(1) that]] .
  have "handles_ok (suspend_in h req (note_refused req err s))"
    by (rule handles_ok_suspend) (use G(2) wait in \<open>auto simp: note_refused_def handles_ok_def split: option.splits\<close>)
  then have hok: "handles_ok v" by (simp add: v_def handles_ok_def)
  have uok: "users_ok v"
  proof -
    have old: "a < ?a \<and> p < ?p" if "ih_user ?s a = Some p" for a p using G(3) that unfolding users_ok_def by blast
    have "a < ih_next t \<and> p < Suc ?p" if "ih_user t a = Some p" for a p
      using that t(2,3) old [of a p] by (cases "a = ?a") auto
    moreover have "a = b" if "ih_user t a = Some p" "ih_user t b = Some p" for a b p
      using that t(2) fresh(2) G(3) unfolding users_ok_def by (cases "a = ?a"; cases "b = ?a") auto
    ultimately show ?thesis unfolding users_ok_def v(1,6) by blast
  qed
  have old: "context_ok v a" if a: "a \<in># port_pending ?s" for a
  proof -
    obtain c p h' rq where "ih_ctx ?s a = Some c" "ih_user ?s a = Some p" "aw_req s p = Some (h', rq)"
      "data_op (ic_op c) = moves_data rq" using G(5) [OF a] unfolding context_ok_def by blast
    moreover then have "p \<noteq> ?p" using newp(1) by auto
    ultimately show ?thesis using below [OF a] t(2,5) by (auto simp: context_ok_def v)
  qed
  have pk: "packet_ok v pk" if "pk \<in> set (pt_queue t)" for pk
  proof -
    have "packet_ok s pk" using that G(6) t(4) by simp
    show ?thesis
      unfolding packet_ok_def
    proof (intro allI impI)
      fix a assume "pk_ctx pk = Some a"
      then obtain q where q: "ih_user ?s a = Some q" "aw_said s q = Some (Completed (pk_err pk) (pk_bytes pk))"
        using \<open>packet_ok s pk\<close> unfolding packet_ok_def by blast
      then have "a \<noteq> ?a" "q \<noteq> ?p" using fresh by auto
      with q said t(2) show "\<exists>p. ih_user (aw_port v) a = Some p \<and> aw_said v p = Some (Completed (pk_err pk) (pk_bytes pk))"
        by (simp add: v(6))
    qed
  qed
  have dn: "port_done_ok v d" if "d \<in> set (aw_done v)" for d
  proof -
    have ok: "port_done_ok s d" using that G(7) [of d] by (simp add: v(3))
    obtain q k ec res where d: "d = (q, k, ec, res)" by (cases d)
    then obtain rq sd where q: "q < ?p" "q \<notin> dom (aw_rh s)" "aw_req s q = Some (k, rq)" "aw_said s q = Some sd" "gives rq sd ec res"
      "\<forall>err. sd \<noteq> Completed err ulong_max"
      using ok by (auto simp: port_done_ok_def)
    then show ?thesis using said [of q] by (auto simp: d port_done_ok_def v)
  qed
  have part: "q \<in> dom (aw_rh v) \<or> q \<in> fst ` set (aw_done v)" if "q < aw_next v" for q
    using that G(9) [of q] by (auto simp: v less_Suc_eq)
  have issued: "a \<in> set (ih_issued ?s)" if "a \<in> set (pt_swallowed ?s)" for a
    using that port_invD(2) [OF G(1)] by (metis UnCI set_mset_mset set_mset_union)
  have users: "ih_user t a = ih_user ?s a" if "a \<in># port_pending ?s \<or> a \<in> set (pt_swallowed ?s)" for a
    using that below port_invD(4) [OF G(1) issued] t(2) by fastforce
  have dom: "dom (aw_rh v) = insert ?p (waiting ?s)" using G(4) by (simp add: v)
  have sw: "swallowed_ok v a" if "a \<in> set (pt_swallowed t)" for a
  proof -
    have a: "a \<in> set (pt_swallowed ?s)" using that t(6) by simp
    then obtain p e where "ih_user ?s a = Some p" "aw_said s p = Some (Completed e ulong_max)"
      using G(11) unfolding swallowed_ok_def by blast
    moreover have "p \<noteq> ?p" using calculation(1) fresh(2) by blast
    ultimately show ?thesis using users [of a] a said by (simp add: swallowed_ok_def v(6))
  qed
  have quiet: "aw_said v q = None" if "r \<in> set (pt_kernel ?s)" "ih_user t (po_ctx r) = Some q" for r q
  proof -
    have r: "po_ctx r \<in># port_pending ?s" using that(1) by (auto simp: port_pending_def)
    then have "ih_user ?s (po_ctx r) = Some q" using users that(2) by simp
    then show ?thesis using that(1) G(12) fresh(2) said [of q] by (auto simp: unsaid_def)
  qed
  have later: "aw_said v q = None" if "aw_next v \<le> q" for q
    using that G(12) said [of q] by (simp add: unsaid_def v(1))
  show ?thesis
  proof (cases "refused_with req err")
    case None
    then obtain c op where c: "pt_kernel t = pt_kernel ?s @ [\<lparr>po_op = op, po_ctx = ?a\<rparr>]" "pt_calls t = pt_calls ?s"
      "ih_ctx t ?a = Some c" "data_op (ic_op c) = moves_data req" using ans by auto
    have pend: "port_pending t = add_mset ?a (port_pending ?s)" by (simp add: port_pending_def c(1) t(4))
    have "port_await_io h req err s = v"
      by (simp add: port_await_io_def enter_port_def run_callbacks_def t_def [symmetric] c(2) v_def suspend_in_def
          note_refused_def None)
    moreover have "port_good {} v"
    proof (rule port_goodI)
      have "waiting t = insert ?p (waiting ?s)"
        unfolding waiting_def pend t(6) using users t(2) by (fastforce simp del: fun_upd_apply simp: fun_upd_same)
      then show "dom (aw_rh v) = waiting (aw_port v) \<union> {}" using dom by (simp add: v)
      show "context_ok v a" if "a \<in># port_pending (aw_port v)" for a
        using that old [of a] c(3,4) t(2) by (auto simp: pend v(6)) (auto simp: context_ok_def v)
      have "ih_user t (po_ctx r) = Some q \<Longrightarrow> r \<in> set (pt_kernel t) \<Longrightarrow> aw_said v q = None" for r q
        using quiet G(12) t(2) None by (auto simp: c(1) unsaid_def v(7))
      then show "unsaid v" using later by (auto simp: unsaid_def v(6))
    qed (use inv hok uok pk dn part sw G(8,10) v in auto)
    ultimately show ?thesis by simp
  next
    case (Some e)
    then obtain k where k: "pt_kernel t = pt_kernel ?s" "pt_calls t = pt_calls ?s @ [k]" "pc_ptr k = UserPtr ?p" "pc_ec k = e"
      using ans by auto
    have pend: "port_pending t = port_pending ?s" by (simp add: port_pending_def k(1) t(4))
    have step: "port_await_io h req err s = resume_callback (pc_ec k) (pc_res k) (UserPtr ?p) v"
      by (simp add: port_await_io_def enter_port_def run_callbacks_def t_def [symmetric] k(2,3) v_def suspend_in_def
          note_refused_def Some)
    have good: "port_good {?p} v"
    proof (rule port_goodI)
      have "waiting t = waiting ?s" using users t(6) by (auto simp: waiting_def pend)
      then show "dom (aw_rh v) = waiting (aw_port v) \<union> {?p}" using dom by (simp add: v)
      show "context_ok v a" if "a \<in># port_pending (aw_port v)" for a using that old [of a] by (simp add: pend v)
      show "unsaid v" using quiet later by (auto simp: unsaid_def v(6) k(1))
    qed (use inv hok uok pk dn part sw G(8,10) v in auto)
    show ?thesis
      unfolding step
    proof (rule port_good_resume (1) [OF good])
      show "?p \<notin> waiting (aw_port v)" using users fresh(2) t(6) by (auto simp: waiting_def pend v(6))
      show "aw_req v ?p = Some (h, req)" "aw_said v ?p = Some (Refused e)" by (simp_all add: v(2,7) Some)
      show "gives req (Refused e) (pc_ec k) (pc_res k)" by (simp add: gives_def k(4))
    qed simp
  qed
qed

lemma port_good_complete:
  assumes good: "port_good {} s" and k: "pt_kernel (aw_port s) = xs @ r # ys"
  shows "port_good {} ((note_completed r err bytes s)\<lparr>aw_port := windows_completes (xs @ ys) r err bytes (aw_port s)\<rparr>)"
    (is "port_good {} ?t")
proof -
  note G = port_goodD [OF good]
  let ?s = "aw_port s" and ?u = "windows_completes (xs @ ys) r err bytes (aw_port s)"
  have step: "port_step (\<lambda>_. []) ?s ?u" unfolding windows_completes_def by (rule port_step.complete [OF k])
  have inv: "port_inv ?u" using pt.inv_step [OF G(1) step] .
  have pend: "port_pending ?u = port_pending ?s"
    by (simp add: windows_completes_def port_pending_def k List.map_filter_simps)
  have a: "po_ctx r \<in># port_pending ?s" by (simp add: port_pending_def k)
  obtain p where c: "ih_user ?s (po_ctx r) = Some p" using G(5) [OF a] unfolding context_ok_def by blast
  have t: "?t = s\<lparr>aw_said := (aw_said s)(p \<mapsto> Completed err bytes), aw_port := ?u\<rparr>" by (simp add: note_completed_def c)
  have "p \<in> waiting ?s" unfolding waiting_def using a c by auto
  then have p: "p \<in> dom (aw_rh s)" using G(4) by simp
  have other: "pk_ctx pk \<noteq> Some (po_ctx r)" if "pk \<in> set (pt_queue ?s)" for pk
  proof
    assume e: "pk_ctx pk = Some (po_ctx r)"
    have "po_ctx r \<in> set (List.map_filter pk_ctx (pt_queue ?s))" using that e by (force simp: List.map_filter_def)
    then have "0 < count (mset (List.map_filter pk_ctx (pt_queue ?s))) (po_ctx r)" by (simp only: count_greater_zero_iff set_mset_mset)
    then have "1 < count (port_pending ?s) (po_ctx r)" by (simp add: port_pending_def k)
    then show False using port_once(1) [OF G(1) a] by simp
  qed
  let ?v = "s\<lparr>aw_said := (aw_said s)(p \<mapsto> Completed err bytes), aw_port := ?u\<rparr>"
  have "port_good {} ?v"
  proof (rule port_goodI)
    show "packet_ok ?v pk" if "pk \<in> set (pt_queue (aw_port ?v))" for pk
    proof (cases "pk \<in> set (pt_queue ?s)")
      case True
      have "p \<noteq> q" if "pk_ctx pk = Some b" "ih_user ?s b = Some q" for b q
        using that other [OF True] G(3) c unfolding users_ok_def by metis
      then show ?thesis using G(6) [OF True] by (fastforce simp: packet_ok_def windows_completes_def)
    next
      case False
      then show ?thesis using that c by (auto simp: packet_ok_def windows_completes_def)
    qed
    show "port_done_ok ?v d" if "d \<in> set (aw_done ?v)" for d
      using that G(7) [of d] p by (auto simp: port_done_ok_def)
    show "context_ok ?v a" if "a \<in># port_pending (aw_port ?v)" for a
    proof -
      have "context_ok s a" using that G(5) [of a] by (simp add: pend)
      then show ?thesis by (simp add: context_ok_def windows_completes_def)
    qed
    have "waiting ?u = waiting ?s" unfolding waiting_def pend by (simp add: windows_completes_def)
    then show "dom (aw_rh ?v) = waiting (aw_port ?v) \<union> {}" using G(4) by simp
    show "unsaid ?v"
    proof -
      have "aw_said ?v q = None" if "x \<in> set (xs @ ys)" "ih_user ?s (po_ctx x) = Some q" for x q
      proof -
        have "x \<in> set (pt_kernel ?s)" using that(1) k by auto
        then have "aw_said s q = None" using G(12) that(2) by (simp add: unsaid_def)
        moreover have "po_ctx x \<noteq> po_ctx r"
        proof
          assume same: "po_ctx x = po_ctx r"
          have "po_ctx x \<in># mset (map po_ctx (xs @ ys))" using that(1) by auto
          then have "0 < count (mset (map po_ctx (xs @ ys))) (po_ctx r)" unfolding same by (simp only: count_greater_zero_iff)
          then have "1 < count (port_pending ?s) (po_ctx r)" by (simp add: port_pending_def k)
          then show False using port_once(1) [OF G(1) a] by simp
        qed
        then have "q \<noteq> p" using G(3) that(2) c unfolding users_ok_def by metis
        ultimately show ?thesis by simp
      qed
      moreover have "p < aw_next s" using G(3) c unfolding users_ok_def by blast
      ultimately show ?thesis using G(12) by (auto simp: unsaid_def windows_completes_def)
    qed
    show "swallowed_ok ?v b" if "b \<in> set (pt_swallowed (aw_port ?v))" for b
    proof -
      have b: "b \<in> set (pt_swallowed ?s)" using that by (simp add: windows_completes_def)
      then obtain q e where "ih_user ?s b = Some q" "aw_said s q = Some (Completed e ulong_max)"
        using G(11) unfolding swallowed_ok_def by blast
      moreover have "q \<noteq> p" using calculation(1) b port_once(4) [OF G(1) a] G(3) c unfolding users_ok_def by metis
      ultimately show ?thesis by (simp add: swallowed_ok_def windows_completes_def)
    qed
  qed (use inv G(2,3,8-10) in \<open>auto simp: handles_ok_def users_ok_def windows_completes_def\<close>)
  then show ?thesis unfolding t .
qed

subsection \<open>Every step\<close>

lemma port_good_new: "port_init ec a c g b = Inr t \<Longrightarrow> port_good {} (port_await_new t)"
  using port_inv_init [of ec a c g b t]
  by (auto simp: port_good_def port_await_new_def handles_ok_def users_ok_def port_init_def port_new_def
      port_pending_def waiting_def unsaid_def List.map_filter_simps split: if_splits)

lemma port_deliver_nothing: "pt_queue (aw_port s) = [] \<Longrightarrow> port_deliver peer ec s = s"
  by (simp add: port_deliver_def enter_port_def run_callbacks_def port_take_def)

lemma port_good_step:
  assumes good: "port_good {} s" and step: "port_await_step peer s t"
  shows "port_good {} t"
  using step
proof cases
  case (await h req err)
  then show ?thesis using port_good_await [OF good] by simp
next
  case wake_up
  let ?u = "port_wake_up (aw_port s)"
  have "port_inv ?u" using pt.inv_step [OF port_goodD(1) [OF good] port_step.wake] .
  moreover have "port_pending ?u = port_pending (aw_port s)"
    by (simp add: port_wake_up_def port_pending_def List.map_filter_simps)
  moreover have "context_ok (s\<lparr>aw_port := ?u\<rparr>) a" if "context_ok s a" for a
    using that by (simp add: context_ok_def port_wake_up_def)
  moreover have "packet_ok (s\<lparr>aw_port := ?u\<rparr>) pk" if "pk \<in> set (pt_queue ?u)" for pk
    using that port_goodD(6) [OF good, of pk] by (auto simp: packet_ok_def port_wake_up_def)
  moreover have "users_ok (s\<lparr>aw_port := ?u\<rparr>)" "ih_user ?u = ih_user (aw_port s)" "pt_swallowed ?u = pt_swallowed (aw_port s)"
    using port_goodD(3) [OF good] by (simp_all add: users_ok_def port_wake_up_def)
  ultimately show ?thesis
    unfolding wake_up using port_goodD [OF good]
    by (intro port_goodI) (simp_all add: handles_ok_def port_done_ok_def swallowed_ok_def waiting_def unsaid_def port_wake_up_def)
next
  case (complete xs r ys bytes err)
  then show ?thesis using port_good_complete [OF good] by simp
next
  case (deliver ec)
  then show ?thesis using good port_good_deliver [OF good] port_deliver_nothing by (cases "pt_queue (aw_port s)") auto
qed

interpretation pa: transition_system "\<lambda>s. \<exists>t. port_init ec a c g b = Inr t \<and> s = port_await_new t"
  "port_await_step peer" "port_good {}" for ec a c g b peer
  by unfold_locales (auto intro: port_good_new port_good_step)

text \<open>Delivering the packets up to the one of a handle.\<close>

lemma deliver_until:
  "port_good {} s \<Longrightarrow> pt_queue (aw_port s) = qs @ pk # rest \<Longrightarrow> pk_callee pk = Some a \<Longrightarrow> ih_user (aw_port s) a = Some p \<Longrightarrow>
   \<exists>t. port_await_steps peer s t \<and> aw_req t = aw_req s \<and> p \<in> fst ` set (aw_done t)"
proof (induction qs arbitrary: s)
  case Nil
  from port_good_deliver [OF Nil.prems(1), of pk rest peer no_error] Nil.prems show ?case
    by (intro exI [of _ "port_deliver peer no_error s"]) (auto intro: port_await_step.deliver)
next
  case (Cons x qs)
  let ?u = "port_deliver peer no_error s"
  from port_good_deliver [OF Cons.prems(1), of x "qs @ pk # rest" peer no_error] Cons.prems
  have u: "port_good {} ?u" "pt_queue (aw_port ?u) = qs @ pk # rest" "aw_req ?u = aw_req s"
    "ih_user (aw_port ?u) a = Some p" by auto
  obtain t where t: "port_await_steps peer ?u t" "aw_req t = aw_req ?u" "p \<in> fst ` set (aw_done t)"
    using Cons.IH [OF u(1,2) Cons.prems(3) u(4)] by blast
  then show ?case using converse_rtranclp_into_rtranclp [OF port_await_step.deliver t(1)] u(3) by metis
qed

lemma port_await_proceeds:
  assumes good: "port_good {} s" and wait: "aw_wait s h = Some p" and said: "\<And>err. aw_said s p \<noteq> Some (Completed err ulong_max)"
  shows "\<exists>a. ih_user (aw_port s) a = Some p \<and> a \<in># port_pending (aw_port s)"
    and "\<exists>t ec res. port_await_steps peer s t \<and> (p, h, ec, res) \<in> set (aw_done t)"
proof -
  note G = port_goodD [OF good]
  obtain r where r: "aw_rh s p = Some r" "rh_handle r = h" using handles_okD(3) [OF G(2) wait] by blast
  then obtain req where req: "aw_req s p = Some (h, req)" using handles_okD(2) [OF G(2) r(1)] by blast
  have "p \<in> waiting (aw_port s)" using r G(4) by blast
  then obtain a where a: "a \<in># port_pending (aw_port s)" "ih_user (aw_port s) a = Some p"
    using G(11) said by (fastforce simp: waiting_def swallowed_ok_def)
  then show "\<exists>a. ih_user (aw_port s) a = Some p \<and> a \<in># port_pending (aw_port s)" by blast
  have "\<exists>t. port_await_steps peer s t \<and> aw_req t = aw_req s \<and> p \<in> fst ` set (aw_done t)"
  proof (cases "a \<in> po_ctx ` set (pt_kernel (aw_port s))")
    case True
    then obtain q where "q \<in> set (pt_kernel (aw_port s))" and q: "po_ctx q = a" by blast
    then obtain xs ys where k: "pt_kernel (aw_port s) = xs @ q # ys" by (meson split_list)
    let ?u = "(note_completed q None 0 s)\<lparr>aw_port := windows_completes (xs @ ys) q None 0 (aw_port s)\<rparr>"
    have "pt_queue (aw_port ?u) = pt_queue (aw_port s) @ [\<lparr>pk_bytes = 0, pk_ctx = Some a, pk_err = None\<rparr>]"
      and "ih_user (aw_port ?u) a = Some p" and req: "aw_req ?u = aw_req s"
      using q a(2) by (simp_all add: windows_completes_def note_completed_def)
    from deliver_until [OF port_good_complete [OF good k, of None] this(1) _ this(2), where peer = peer]
    obtain t where "port_await_steps peer ?u t" "aw_req t = aw_req ?u" "p \<in> fst ` set (aw_done t)"
      by (auto simp: pk_callee_def ulong_max_def)
    with converse_rtranclp_into_rtranclp [OF port_await_step.complete [OF k, of peer None 0] this(1)] req show ?thesis
      by metis
  next
    case False
    then have "a \<in> set (List.map_filter pk_ctx (pt_queue (aw_port s)))" using a(1) by (auto simp: port_pending_def)
    then obtain pk where pk_in: "pk \<in> set (pt_queue (aw_port s))" and pk: "pk_ctx pk = Some a" by (auto simp: List.map_filter_def)
    then have "aw_said s p = Some (Completed (pk_err pk) (pk_bytes pk))" using G(6) [OF pk_in] a(2) pk by (force simp: packet_ok_def)
    then have callee: "pk_callee pk = Some a" using said pk by (auto simp: pk_callee_def)
    from pk_in obtain qs rest where "pt_queue (aw_port s) = qs @ pk # rest" by (meson split_list)
    from deliver_until [OF good this callee a(2)] show ?thesis .
  qed
  then obtain t where t: "port_await_steps peer s t" "aw_req t = aw_req s" "p \<in> fst ` set (aw_done t)" by blast
  then obtain h' ec res where d: "(p, h', ec, res) \<in> set (aw_done t)" by auto
  have "port_good {} t" using pa.steps_inv [OF t(1) good] .
  then have "port_done_ok t (p, h', ec, res)" using port_goodD(7) d by blast
  then have "h' = h" using req t(2) by (auto simp: port_done_ok_def)
  with d t(1) show "\<exists>t ec res. port_await_steps peer s t \<and> (p, h, ec, res) \<in> set (aw_done t)" by blast
qed

text \<open>What was requested and what Windows said of it stays; so a coroutine whose completion is swallowed stays suspended.\<close>

lemma run_callbacks_keeps:
  "aw_req (run_callbacks ks s) = aw_req s \<and> aw_said (run_callbacks ks s) = aw_said s \<and> aw_next (run_callbacks ks s) = aw_next s"
proof (induction ks arbitrary: s)
  case (Cons k ks)
  have "aw_req (resume_callback ec res x s) = aw_req s \<and> aw_said (resume_callback ec res x s) = aw_said s
    \<and> aw_next (resume_callback ec res x s) = aw_next s" for ec res x and s :: port_await
    by (auto simp: resume_callback_def io_resumed_def split: io_ptr.splits option.splits)
  with Cons show ?case by (simp add: run_callbacks_def)
qed (simp add: run_callbacks_def)

lemma port_await_keeps:
  assumes good: "port_good {} s" and step: "port_await_step peer s t" and p: "aw_req s p = Some x" "aw_said s p = Some y"
  shows "aw_req t p = Some x \<and> aw_said t p = Some y"
proof -
  note G = port_goodD [OF good]
  have old: "p \<noteq> aw_next s" using handles_okD(1) [OF G(2)] p(1) by auto
  from step show ?thesis
  proof cases
    case (await h req err)
    then show ?thesis
      using old p by (simp add: port_await_io_def enter_port_def run_callbacks_keeps suspend_in_def note_refused_def split: option.splits)
  next
    case (complete xs r ys bytes err)
    have "ih_user (aw_port s) (po_ctx r) \<noteq> Some p" using G(12) p(2) complete(2) by (auto simp: unsaid_def)
    then show ?thesis using p by (auto simp: complete(1) note_completed_def split: option.splits)
  qed (use p in \<open>simp_all add: port_deliver_def enter_port_def run_callbacks_keeps\<close>)
qed

lemma port_await_swallowed:
  assumes steps: "port_await_steps peer s u" and good: "port_good {} s"
    and wait: "aw_wait s h = Some p" and said: "aw_said s p = Some (Completed err ulong_max)"
  shows "aw_wait u h = Some p"
proof -
  obtain r where r: "aw_rh s p = Some r" "rh_handle r = h" using handles_okD(3) [OF port_goodD(2) [OF good] wait] by blast
  then obtain req where req: "aw_req s p = Some (h, req)" using handles_okD(2) [OF port_goodD(2) [OF good] r(1)] by blast
  from steps have "port_good {} u \<and> aw_req u p = Some (h, req) \<and> aw_said u p = Some (Completed err ulong_max)"
  proof (induction rule: rtranclp_induct)
    case base
    then show ?case using good req said by simp
  next
    case (step v w)
    then show ?case using port_good_step port_await_keeps by blast
  qed
  then have u: "port_good {} u" "aw_req u p = Some (h, req)" "aw_said u p = Some (Completed err ulong_max)" by simp_all
  note U = port_goodD [OF u(1)]
  have "p \<notin> fst ` set (aw_done u)" using U(7) u(3) by (fastforce simp: port_done_ok_def)
  moreover have "p < aw_next u" using handles_okD(1) [OF U(2)] u(2) by auto
  ultimately have "p \<in> dom (aw_rh u)" using U(9) by blast
  then obtain r' where r': "aw_rh u p = Some r'" by blast
  show ?thesis using handles_okD(2) [OF U(2) r'] u(2) by auto
qed

subsection \<open>Properties\<close>

text \<open>
  Property C27: awaiting I/O over a completion port. Every operation a coroutine awaits has resumed that coroutine,
  once, or the coroutine is suspended in its handle, never both; no callback writes anywhere else; and what
  \<^verbatim>\<open>co_await\<close> gave is what Windows said: the error of the refusal or of the completion, and for the operations that
  move data the number of bytes. A suspended coroutine's operation is pending and can be resumed by completions
  and polling, with one exception, which \<^verbatim>\<open>poll\<close> makes: if Windows says of the operation that it has transferred
  \<^verbatim>\<open>ULONG_MAX\<close> bytes, the completion is taken for a wake-up, and the coroutine stays suspended for ever.
\<close>

theorem port_await_exact:
  assumes "port_init socket_ec ac cc gc handle = Inr t" and "port_await_steps peer (port_await_new t) s"
  shows "\<not> aw_wild s \<and> distinct (map fst (aw_done s))
     \<and> (\<forall>p < aw_next s. (p \<in> dom (aw_rh s)) \<noteq> (p \<in> fst ` set (aw_done s)))
     \<and> (\<forall>h p. aw_wait s h = Some p \<longrightarrow>
          (if \<exists>err. aw_said s p = Some (Completed err ulong_max)
           then \<forall>u. port_await_steps peer s u \<longrightarrow> aw_wait u h = Some p
           else (\<exists>a. ih_user (aw_port s) a = Some p \<and> a \<in># port_pending (aw_port s))
              \<and> (\<exists>u ec res. port_await_steps peer s u \<and> (p, h, ec, res) \<in> set (aw_done u))))
     \<and> (\<forall>p h ec res. (p, h, ec, res) \<in> set (aw_done s) \<longrightarrow>
          (\<exists>req said. aw_req s p = Some (h, req) \<and> aw_said s p = Some said \<and> gives req said ec res))"
proof -
  have good: "port_good {} s" using pa.reachable_inv assms by blast
  note G = port_goodD [OF good]
  have "(p \<in> dom (aw_rh s)) \<noteq> (p \<in> fst ` set (aw_done s))" if "p < aw_next s" for p
    using G(9) [OF that] G(7) by (force simp: port_done_ok_def)
  moreover have "if \<exists>err. aw_said s p = Some (Completed err ulong_max)
      then \<forall>u. port_await_steps peer s u \<longrightarrow> aw_wait u h = Some p
      else (\<exists>a. ih_user (aw_port s) a = Some p \<and> a \<in># port_pending (aw_port s))
         \<and> (\<exists>u ec res. port_await_steps peer s u \<and> (p, h, ec, res) \<in> set (aw_done u))" if "aw_wait s h = Some p" for h p
    using port_await_swallowed [OF _ good that] port_await_proceeds [OF good that] by auto
  moreover have "\<exists>req said. aw_req s p = Some (h, req) \<and> aw_said s p = Some said \<and> gives req said ec res"
    if "(p, h, ec, res) \<in> set (aw_done s)" for p h ec res using G(7) [OF that] by (auto simp: port_done_ok_def)
  ultimately show ?thesis using G(8,10) by blast
qed

text \<open>A send that is refused, and a receive that completes with 5 bytes.\<close>

definition demo_port_issued :: port_await where
  "demo_port_issued = port_await_io 8 (PReceive 4 100 8) None (port_await_io 9 (PSend 5 200 3) (Some 10054) (port_await_new port_new))"

definition demo_port_taken :: port_req where
  "demo_port_taken = \<lparr>po_op = PortRecv 4 100 8, po_ctx = 1\<rparr>"

definition demo_port_done :: port_await where
  "demo_port_done = port_deliver (\<lambda>_. []) no_error ((note_completed demo_port_taken None 5 demo_port_issued)
     \<lparr>aw_port := windows_completes ([] @ []) demo_port_taken None 5 (aw_port demo_port_issued)\<rparr>)"

lemma demo_port_kernel: "pt_kernel (aw_port demo_port_issued) = [] @ demo_port_taken # []"
  by code_simp

lemma demo_port_steps: "port_await_steps (\<lambda>_. []) (port_await_new port_new) demo_port_done"
proof -
  let ?n = "port_await_new port_new :: port_await" and ?r = "port_await_io 9 (PSend 5 200 3) (Some 10054) (port_await_new port_new)"
  have w: "aw_wait ?n 9 = None" "aw_wait ?r 8 = None" by code_simp+
  have "port_await_step (\<lambda>_. []) ?n ?r" by (rule port_await_step.await [OF w(1)])
  moreover have "port_await_step (\<lambda>_. []) ?r demo_port_issued"
    unfolding demo_port_issued_def by (rule port_await_step.await [OF w(2)])
  ultimately have "port_await_steps (\<lambda>_. []) ?n demo_port_issued" by (meson r_into_rtranclp rtranclp_trans)
  from rtranclp.rtrancl_into_rtrancl [OF rtranclp.rtrancl_into_rtrancl [OF this port_await_step.complete [OF demo_port_kernel]]
      port_await_step.deliver]
  show ?thesis unfolding demo_port_done_def .
qed

theorem port_await_exact_witness:
  "map (\<lambda>d. (fst d, fst (snd d))) (aw_done demo_port_done) = [(0, 9), (1, 8)]
   \<and> (\<exists>req said. aw_req demo_port_done 1 = Some (8, req) \<and> aw_said demo_port_done 1 = Some said \<and> gives req said no_error 5)"
proof -
  have "map (\<lambda>d. (fst d, fst (snd d))) (aw_done demo_port_done) = [(0, 9), (1, 8)]" by code_simp
  moreover have "1 < length (aw_done demo_port_done)" "aw_done demo_port_done ! 1 = (1, 8, no_error, 5)" by code_simp+
  then have "(1, 8, no_error, 5) \<in> set (aw_done demo_port_done)" by (metis nth_mem)
  ultimately show ?thesis using port_await_exact [OF port_init_new demo_port_steps] by blast
qed

end
