(* ===== verification/Cond_Wait.thy ===== *)
theory Cond_Wait
  imports Co_Mutex
begin

section \<open>Waiting for a predicate (core/mutex.h)\<close>

text \<open>
  \<^verbatim>\<open>Condition::wait(guard, pred)\<close> tests the predicate under the mutex, pushes the coroutine into the
  condition's queue, unlocks, is resumed by a notification, locks again and tests again. This theory
  puts that loop around the system of coroutines of the theory of the mutex, together with the data
  that the mutex guards: \<open>'d\<close> is its type, and a predicate is a function of it.

  \<open>cd_pred h\<close> is the predicate of coroutine \<open>h\<close> while it is inside \<^verbatim>\<open>wait\<close>; \<open>cd_false\<close> tells that it has
  just found the predicate false. \<open>cd_dirty\<close> records that the data have changed since the last
  \<^verbatim>\<open>notify_all\<close>; \<open>cd_returned\<close> are the returns from \<^verbatim>\<open>wait\<close>, with the data at that moment.
\<close>

record 'd cond_sys =
  cd_sys :: mutex_sys
  cd_data :: 'd
  cd_pred :: "nat \<Rightarrow> ('d \<Rightarrow> bool) option"
  cd_false :: "nat \<Rightarrow> bool"
  cd_dirty :: bool
  cd_returned :: "(nat \<times> ('d \<Rightarrow> bool) \<times> 'd) list"

definition cond_sys_init :: "'d \<Rightarrow> 'd cond_sys" where
  "cond_sys_init d = \<lparr>cd_sys = mutex_sys_init, cd_data = d, cd_pred = (\<lambda>_. None), cd_false = (\<lambda>_. False),
                      cd_dirty = False, cd_returned = []\<rparr>"

abbreviation cd_pc :: "'d cond_sys \<Rightarrow> nat \<Rightarrow> co_pc" where
  "cd_pc s \<equiv> ms_pc (cd_sys s)"

definition cd_lift :: "(mutex_sys \<Rightarrow> mutex_sys) \<Rightarrow> 'd cond_sys \<Rightarrow> 'd cond_sys" where
  "cd_lift f s = s\<lparr>cd_sys := f (cd_sys s)\<rparr>"

subsection \<open>The loop\<close>

text \<open>
  The parts of \<^verbatim>\<open>wait(guard, pred)\<close>: the call; the test \<^verbatim>\<open>!pred()\<close>, which ends the loop or goes into its
  body; and the body's first half, \<^verbatim>\<open>queue_.push_back\<close>. The rest of the body is the unlock, the
  resumption and the lock of the underlying system.
\<close>

definition wait_call :: "nat \<Rightarrow> ('d \<Rightarrow> bool) \<Rightarrow> 'd cond_sys \<Rightarrow> 'd cond_sys" where
  "wait_call h P s = s\<lparr>cd_pred := (cd_pred s)(h := Some P)\<rparr>"

definition wait_test :: "nat \<Rightarrow> ('d \<Rightarrow> bool) \<Rightarrow> 'd cond_sys \<Rightarrow> 'd cond_sys" where
  "wait_test h P s =
     (if \<not> P (cd_data s) then s\<lparr>cd_false := (cd_false s)(h := True)\<rparr>
      else s\<lparr>cd_pred := (cd_pred s)(h := None), cd_returned := cd_returned s @ [(h, P, cd_data s)]\<rparr>)"

definition wait_push :: "(nat \<Rightarrow> nat) \<Rightarrow> nat \<Rightarrow> 'd cond_sys \<Rightarrow> 'd cond_sys" where
  "wait_push home h s = cd_lift (do_cv_push home h) (s\<lparr>cd_false := (cd_false s)(h := False)\<rparr>)"

text \<open>The holder of the lock changes the data; a notification is anybody's.\<close>

definition cd_update :: "('d \<Rightarrow> 'd) \<Rightarrow> 'd cond_sys \<Rightarrow> 'd cond_sys" where
  "cd_update f s = s\<lparr>cd_data := f (cd_data s), cd_dirty := True\<rparr>"

definition cd_notify_all :: "'d cond_sys \<Rightarrow> 'd cond_sys" where
  "cd_notify_all s = cd_lift do_notify_all (s\<lparr>cd_dirty := False\<rparr>)"

inductive cond_step :: "(nat \<Rightarrow> nat) \<Rightarrow> 'd cond_sys \<Rightarrow> 'd cond_sys \<Rightarrow> bool" for home where
  lock: "cd_pc s h = Outside \<or> cd_pc s h = CvRelock \<Longrightarrow> cond_step home s (cd_lift (do_lock home h) s)"
| resume_won: "cd_pc s h = Won \<Longrightarrow>
    cond_step home s (cd_lift (\<lambda>b. b\<lparr>ms_pc := (ms_pc b)(h := Holding)\<rparr>) s)"
| unlock: "cd_pc s h = Holding \<Longrightarrow> cd_pred s h = None \<Longrightarrow> cond_step home s (cd_lift (do_unlock h Outside) s)"
| call: "cd_pc s h = Holding \<Longrightarrow> cd_pred s h = None \<Longrightarrow> cond_step home s (wait_call h P s)"
| test: "cd_pc s h = Holding \<Longrightarrow> cd_pred s h = Some P \<Longrightarrow> \<not> cd_false s h \<Longrightarrow> cond_step home s (wait_test h P s)"
| push: "cd_pc s h = Holding \<Longrightarrow> cd_false s h \<Longrightarrow> cond_step home s (wait_push home h s)"
| cv_unlock: "cd_pc s h = CvPushed n \<Longrightarrow>
    cond_step home s (cd_lift (do_unlock h (if n then CvNotified else CvWaiting)) s)"
| update: "cd_pc s h = Holding \<Longrightarrow> cd_pred s h = None \<Longrightarrow> cond_step home s (cd_update f s)"
| notify_one: "cond_step home s (cd_lift do_notify_one s)"
| notify_all: "cond_step home s (cd_notify_all s)"
| post: "e \<in> set (ms_hand (cd_sys s)) \<Longrightarrow> cond_step home s (cd_lift (do_post e) s)"
| run: "ms_ctx (cd_sys s) c = h # rest \<Longrightarrow> cd_pc s h = Granted \<or> cd_pc s h = CvNotified \<Longrightarrow>
    cond_step home s (cd_lift (do_run c h rest) s)"

abbreviation cond_steps :: "(nat \<Rightarrow> nat) \<Rightarrow> 'd cond_sys \<Rightarrow> 'd cond_sys \<Rightarrow> bool" where
  "cond_steps home \<equiv> (cond_step home)\<^sup>*\<^sup>*"

text \<open>Underneath, every step is a step of the mutex's system, or none.\<close>

lemma cond_step_mutex:
  "cond_step home s t \<Longrightarrow> mutex_step home (cd_sys s) (cd_sys t) \<or> cd_sys t = cd_sys s"
proof (induction rule: cond_step.induct)
  case (cv_unlock s h n)
  from mutex_step.cv_unlock [OF this] show ?case by (simp add: cd_lift_def)
qed (auto simp: cd_lift_def wait_call_def wait_test_def wait_push_def cd_update_def cd_notify_all_def
      intro: mutex_step.intros)

subsection \<open>The invariant\<close>

text \<open>
  A coroutine in the condition's queue has a predicate that is false, unless the data have changed
  and nobody has notified since; one that has found its predicate false still holds the lock,
  so that the predicate still is.
\<close>

definition sleeper_ok :: "'d cond_sys \<Rightarrow> nat \<Rightarrow> bool" where
  "sleeper_ok s h \<longleftrightarrow> (pc_in_cv (cd_pc s h) \<longrightarrow>
     (\<exists>P. cd_pred s h = Some P \<and> (P (cd_data s) \<longrightarrow> cd_dirty s)))"

definition tested_ok :: "'d cond_sys \<Rightarrow> nat \<Rightarrow> bool" where
  "tested_ok s h \<longleftrightarrow> (cd_false s h \<longrightarrow>
     cd_pc s h = Holding \<and> (\<exists>P. cd_pred s h = Some P \<and> \<not> P (cd_data s)))"

definition waiter_ok :: "'d cond_sys \<Rightarrow> nat \<Rightarrow> bool" where
  "waiter_ok s h \<longleftrightarrow> (cd_pred s h \<noteq> None \<longrightarrow> cd_pc s h \<noteq> Outside)"

definition cond_inv :: "(nat \<Rightarrow> nat) \<Rightarrow> 'd cond_sys \<Rightarrow> bool" where
  "cond_inv home s \<longleftrightarrow> mutex_inv home (cd_sys s) \<and> (\<forall>h. sleeper_ok s h) \<and> (\<forall>h. tested_ok s h)
     \<and> (\<forall>h. waiter_ok s h) \<and> (\<forall>(h, P, d) \<in> set (cd_returned s). P d)"

lemma cond_invD:
  assumes "cond_inv home s"
  shows "mutex_inv home (cd_sys s)" "sleeper_ok s h" "tested_ok s h" "\<forall>(h, P, d) \<in> set (cd_returned s). P d"
    "waiter_ok s h"
  using assms by (simp_all add: cond_inv_def)

text \<open>A step of the mutex alone: nobody new goes to sleep, and holders stay.\<close>

lemma cond_inv_lift:
  assumes inv: "cond_inv home s" and mx: "mutex_inv home b" and t: "t = s\<lparr>cd_sys := b\<rparr>"
    and cv: "\<And>k. pc_in_cv (ms_pc b k) \<Longrightarrow> pc_in_cv (cd_pc s k)"
    and hold: "\<And>k. cd_pc s k = Holding \<Longrightarrow> cd_false s k \<Longrightarrow> ms_pc b k = Holding"
    and out: "\<And>k. ms_pc b k = Outside \<Longrightarrow> cd_pc s k = Outside \<or> cd_pred s k = None"
  shows "cond_inv home t"
proof -
  have "sleeper_ok t k" for k using cond_invD(2) [OF inv, of k] cv [of k] by (auto simp: sleeper_ok_def t)
  moreover have "tested_ok t k" for k using cond_invD(3) [OF inv, of k] hold [of k] by (auto simp: tested_ok_def t)
  moreover have "waiter_ok t k" for k using cond_invD(5) [OF inv, of k] out [of k] by (auto simp: waiter_ok_def t)
  ultimately show ?thesis using mx cond_invD(4) [OF inv] by (simp add: cond_inv_def t)
qed

lemma tested_none: "cond_inv home s \<Longrightarrow> cd_pred s h = None \<Longrightarrow> \<not> cd_false s h"
  using cond_invD(3) [of home s h] by (auto simp: tested_ok_def)

lemma only_holder:
  "cond_inv home s \<Longrightarrow> cd_pc s h = Holding \<Longrightarrow> cd_pc s k = Holding \<Longrightarrow> k = h"
  using owner_unique [OF cond_invD(1), of home s k h] by simp

lemma unlock_pc:
  assumes inv: "mutex_inv home b" and ne: "ms_pc b h \<noteq> Parked"
  shows "ms_pc (do_unlock h p b) k = (if k = h then p else ms_pc b k) \<or> ms_pc (do_unlock h p b) k = Granted \<and> ms_pc b k = Parked"
proof (cases "k = h")
  case True
  then show ?thesis using unlock_self [OF inv ne] by simp
next
  case False
  then show ?thesis
    using queue_holds_head [of home _ _ "\<lambda>h. ms_pc b h = Parked"] mutex_invD(2) [OF inv]
    by (auto simp: step_simps split: list.splits)
qed

lemma pc_notify_awake: "pc_in_cv p \<Longrightarrow> \<not> pc_in_cv (pc_notify p) \<and> pc_notify p \<noteq> Outside"
  by (cases p) (simp_all add: pc_notify_def)

lemma notify_one_pc:
  assumes inv: "mutex_inv home b"
  shows "ms_pc (do_notify_one b) k = ms_pc b k \<or> pc_in_cv (ms_pc b k) \<and> ms_pc (do_notify_one b) k = pc_notify (ms_pc b k)"
proof (cases "ms_cv b")
  case (Cons e es)
  then have "pc_in_cv (ms_pc b (en_h e))" using queue_holds_head [OF mutex_invD(3) [OF inv, unfolded Cons]] by simp
  then show ?thesis using Cons by (auto simp: step_simps)
qed (simp add: step_simps)

lemma notify_all_pc:
  assumes inv: "mutex_inv home b"
  shows "ms_pc (do_notify_all b) k = (if pc_in_cv (ms_pc b k) then pc_notify (ms_pc b k) else ms_pc b k)"
proof -
  have "k \<in> set (handles (ms_cv b)) \<longleftrightarrow> pc_in_cv (ms_pc b k)"
    using mutex_invD(3) [OF inv] by (simp add: queue_holds_def)
  then show ?thesis by (auto simp: step_simps handles_def)
qed

lemma cond_inv_step:
  assumes step: "cond_step home s t" and inv: "cond_inv home s"
  shows "cond_inv home t"
proof -
  have mx: "mutex_inv home (cd_sys t)"
    using cond_step_mutex [OF step] cond_invD(1) [OF inv] inv_mutex_step by metis
  note mi = cond_invD(1) [OF inv]
  note ok = cond_invD(2,3,5) [OF inv]
  have rest: "cond_inv home t"
    if "\<And>k. sleeper_ok t k \<and> tested_ok t k \<and> waiter_ok t k" "\<forall>(h, P, d) \<in> set (cd_returned t). P d"
    using mx that by (simp add: cond_inv_def)
  show ?thesis
    using step
  proof (cases rule: cond_step.cases)
    case (lock h)
    show ?thesis
      by (rule cond_inv_lift [OF inv mx]) (use lock in \<open>auto simp: cd_lift_def step_simps split: if_splits\<close>)
  next
    case (resume_won h)
    show ?thesis
      by (rule cond_inv_lift [OF inv mx]) (use resume_won in \<open>auto simp: cd_lift_def split: if_splits\<close>)
  next
    case (unlock h)
    then have pc: "cd_pc t k = (if k = h then Outside else cd_pc s k) \<or> cd_pc t k = Granted \<and> cd_pc s k = Parked" for k
      using unlock_pc [OF mi, of h Outside k] by (simp add: cd_lift_def)
    have nf: "\<not> cd_false s h" using tested_none [OF inv unlock(3)] .
    show ?thesis
    proof (rule cond_inv_lift [OF inv mx])
      show "t = s\<lparr>cd_sys := cd_sys t\<rparr>" using unlock by (simp add: cd_lift_def)
    qed (use pc nf unlock(2,3) in \<open>(metis pc_in_cv.simps co_pc.distinct)+\<close>)
  next
    case (call h P)
    have nf: "\<not> cd_false s h" using tested_none [OF inv call(3)] .
    show ?thesis
      by (rule rest) (use ok nf call cond_invD(4) [OF inv] in
        \<open>auto simp: wait_call_def sleeper_ok_def tested_ok_def waiter_ok_def\<close>)
  next
    case (test h P)
    show ?thesis
      by (rule rest) (use ok test cond_invD(4) [OF inv] in
        \<open>auto simp: wait_test_def sleeper_ok_def tested_ok_def waiter_ok_def\<close>)
  next
    case (push h)
    have h: "\<exists>P. cd_pred s h = Some P \<and> \<not> P (cd_data s)"
      using cond_invD(3) [OF inv, of h] push(3) by (simp add: tested_ok_def)
    have pc: "cd_pc t k = (if k = h then CvPushed False else cd_pc s k)" for k
      using push(1) by (simp add: wait_push_def cd_lift_def step_simps)
    have f: "cd_data t = cd_data s" "cd_pred t = cd_pred s" "cd_dirty t = cd_dirty s" "cd_returned t = cd_returned s"
      "cd_false t = (cd_false s)(h := False)" using push(1) by (simp_all add: wait_push_def cd_lift_def)
    show ?thesis
      by (rule rest) (use ok h cond_invD(4) [OF inv] in \<open>auto simp: pc f sleeper_ok_def tested_ok_def waiter_ok_def\<close>)
  next
    case (cv_unlock h n)
    then have pc: "cd_pc t k = (if k = h then if n then CvNotified else CvWaiting else cd_pc s k)
        \<or> cd_pc t k = Granted \<and> cd_pc s k = Parked" for k
      using unlock_pc [OF mi, of h "if n then CvNotified else CvWaiting" k] by (simp add: cd_lift_def)
    have "t = s\<lparr>cd_sys := cd_sys t\<rparr>" using cv_unlock by (simp add: cd_lift_def)
    then show ?thesis
    proof (rule cond_inv_lift [OF inv mx])
      fix k
      show "pc_in_cv (cd_pc t k) \<Longrightarrow> pc_in_cv (cd_pc s k)" using pc [of k] cv_unlock(2) by (auto split: if_splits)
      show "cd_pc s k = Holding \<Longrightarrow> cd_pc t k = Holding" using pc [of k] cv_unlock(2) by (auto split: if_splits)
      show "cd_pc t k = Outside \<Longrightarrow> cd_pc s k = Outside \<or> cd_pred s k = None" using pc [of k] by (auto split: if_splits)
    qed
  next
    case (update h f)
    have "\<not> cd_false s k" for k
      using ok(2) [of k] tested_none [OF inv update(3)] only_holder [OF inv update(2), of k]
      by (auto simp: tested_ok_def)
    then have "tested_ok t k \<and> sleeper_ok t k \<and> waiter_ok t k" for k
      using ok(1,3) [of k] update(1) by (auto simp: cd_update_def sleeper_ok_def tested_ok_def waiter_ok_def)
    then show ?thesis using update(1) cond_invD(4) [OF inv] by (intro rest) (simp_all add: cd_update_def)
  next
    case notify_one
    then have pc: "cd_pc t k = cd_pc s k \<or> pc_in_cv (cd_pc s k) \<and> cd_pc t k = pc_notify (cd_pc s k)" for k
      using notify_one_pc [OF mi, of k] by (simp add: cd_lift_def)
    have "t = s\<lparr>cd_sys := cd_sys t\<rparr>" using notify_one by (simp add: cd_lift_def)
    then show ?thesis
    proof (rule cond_inv_lift [OF inv mx])
      fix k
      show "pc_in_cv (cd_pc t k) \<Longrightarrow> pc_in_cv (cd_pc s k)" using pc [of k] by auto
      show "cd_pc s k = Holding \<Longrightarrow> cd_pc t k = Holding" using pc [of k] by auto
      show "cd_pc t k = Outside \<Longrightarrow> cd_pc s k = Outside \<or> cd_pred s k = None"
        using pc [of k] pc_notify_awake [of "cd_pc s k"] by auto
    qed
  next
    case notify_all
    then have f: "cd_sys t = do_notify_all (cd_sys s)" "cd_data t = cd_data s" "cd_pred t = cd_pred s"
      "cd_false t = cd_false s" "cd_returned t = cd_returned s" by (simp_all add: cd_notify_all_def cd_lift_def)
    show ?thesis
    proof (rule rest)
      fix k
      note pc = notify_all_pc [OF mi, of k] and awake = pc_notify_awake [of "cd_pc s k"]
      have "sleeper_ok t k" using awake by (simp add: sleeper_ok_def f pc)
      moreover have "tested_ok t k" using ok(2) [of k] by (auto simp: tested_ok_def f pc)
      moreover have "waiter_ok t k" using ok(3) [of k] awake by (simp add: waiter_ok_def f pc)
      ultimately show "sleeper_ok t k \<and> tested_ok t k \<and> waiter_ok t k" by blast
    qed (use cond_invD(4) [OF inv] f in simp)
  next
    case (post e)
    show ?thesis
      by (rule cond_inv_lift [OF inv mx]) (use post in \<open>auto simp: cd_lift_def do_post_def\<close>)
  next
    case (run c h rest)
    show ?thesis
      by (rule cond_inv_lift [OF inv mx]) (use run in \<open>auto simp: cd_lift_def do_run_def pc_resume_def split: if_splits\<close>)
  qed
qed

lemma cond_inv_init: "cond_inv home (cond_sys_init d)"
  using inv_mutex_init
  by (simp add: cond_inv_def cond_sys_init_def sleeper_ok_def tested_ok_def waiter_ok_def mutex_sys_init_def)

interpretation cw: transition_system "\<lambda>s. s = cond_sys_init d" "cond_step home" "cond_inv home"
  by unfold_locales (auto intro: cond_inv_init cond_inv_step)

subsection \<open>A waiter whose predicate holds gets through\<close>

text \<open>A move of the mutex alone, with everything else as it was.\<close>

lemma cond_move:
  assumes "mutex_move home (cd_sys s) b"
  shows "cond_step home s (s\<lparr>cd_sys := b\<rparr>)"
  using assms
proof (cases rule: mutex_move.cases)
  case (relock h)
  then show ?thesis using cond_step.lock [of s h home] by (simp add: cd_lift_def)
next
  case (resume_won h)
  then show ?thesis using cond_step.resume_won [of s h home] by (simp add: cd_lift_def)
next
  case (cv_unlock h n)
  then show ?thesis using cond_step.cv_unlock [of s h n home] by (simp add: cd_lift_def)
next
  case (post e)
  then show ?thesis using cond_step.post [of e s home] by (simp add: cd_lift_def)
next
  case (run c h rest)
  then show ?thesis using cond_step.run [of s c h rest home] by (simp add: cd_lift_def)
qed

text \<open>
  While \<open>h\<close> waits for \<open>P\<close> and the data do not change, whoever holds the lock gives it back: outside
  \<^verbatim>\<open>wait\<close> by unlocking; inside by testing, and then by returning and unlocking or by going to sleep.
\<close>

definition waits_for :: "(nat \<Rightarrow> nat) \<Rightarrow> nat \<Rightarrow> ('d \<Rightarrow> bool) \<Rightarrow> 'd \<Rightarrow> 'd cond_sys \<Rightarrow> bool" where
  "waits_for home h P d s \<longleftrightarrow> cond_inv home s \<and> cd_data s = d \<and> cd_pred s h = Some P"

lemma release_outside:
  assumes w: "waits_for home h P d s" and q: "mx_queue (ms_mutex (cd_sys s)) = e # es"
    and k: "cd_pc s k = Holding" "cd_pred s k = None"
  shows "\<exists>t. cond_steps home s t \<and> waits_for home h P d t \<and> mx_queue (ms_mutex (cd_sys t)) = es \<and> cd_pc t (en_h e) = Granted"
proof -
  have st: "cond_step home s (cd_lift (do_unlock k Outside) s)" by (rule cond_step.unlock [OF k])
  with w cond_inv_step [OF st] show ?thesis
    by (intro exI [of _ "cd_lift (do_unlock k Outside) s"]) (auto simp: waits_for_def cd_lift_def step_simps q)
qed

lemma release_asleep:
  assumes w: "waits_for home h P d s" and q: "mx_queue (ms_mutex (cd_sys s)) = e # es"
    and k: "cd_pc s k = Holding" "cd_false s k"
  shows "\<exists>t. cond_steps home s t \<and> waits_for home h P d t \<and> mx_queue (ms_mutex (cd_sys t)) = es \<and> cd_pc t (en_h e) = Granted"
proof -
  let ?u = "wait_push home k s"
  let ?t = "cd_lift (do_unlock k CvWaiting) ?u"
  have su: "cond_step home s ?u" by (rule cond_step.push [OF k])
  have pu: "cd_pc ?u k = CvPushed False" by (simp add: wait_push_def cd_lift_def step_simps)
  have st: "cond_step home ?u ?t" using cond_step.cv_unlock [OF pu] by simp
  have "cond_steps home s ?t" using su st by (meson converse_rtranclp_into_rtranclp r_into_rtranclp)
  moreover have "cond_inv home ?t" using w cond_inv_step [OF su] cond_inv_step [OF st] by (simp add: waits_for_def)
  moreover have "mx_queue (ms_mutex (cd_sys ?t)) = es" "cd_pc ?t (en_h e) = Granted"
    by (simp_all add: wait_push_def cd_lift_def step_simps q)
  moreover have "cd_data ?t = cd_data s" "cd_pred ?t = cd_pred s" by (simp_all add: wait_push_def cd_lift_def)
  ultimately show ?thesis using w by (intro exI [of _ ?t]) (simp add: waits_for_def)
qed

lemma release_holder:
  assumes w: "waits_for home h P d s" and q: "mx_queue (ms_mutex (cd_sys s)) = e # es"
    and k: "cd_pc s k = Holding" "k \<noteq> h"
  shows "\<exists>t. cond_steps home s t \<and> waits_for home h P d t \<and> mx_queue (ms_mutex (cd_sys t)) = es \<and> cd_pc t (en_h e) = Granted"
proof (cases "cd_pred s k")
  case None
  then show ?thesis by (rule release_outside [OF w q k(1)])
next
  case (Some Q)
  show ?thesis
  proof (cases "cd_false s k")
    case True
    then show ?thesis by (rule release_asleep [OF w q k(1)])
  next
    case False
    let ?u = "wait_test k Q s"
    have st: "cond_step home s ?u" by (rule cond_step.test [OF k(1) Some False])
    have wu: "waits_for home h P d ?u"
      using w cond_inv_step [OF st] k(2) by (auto simp: waits_for_def wait_test_def)
    have f: "cd_sys ?u = cd_sys s" by (simp add: wait_test_def)
    have "cd_pred ?u k = None \<or> cd_false ?u k" by (simp add: wait_test_def)
    then have "\<exists>t. cond_steps home ?u t \<and> waits_for home h P d t \<and> mx_queue (ms_mutex (cd_sys t)) = es \<and> cd_pc t (en_h e) = Granted"
      using release_outside [OF wu, of e es k] release_asleep [OF wu, of e es k] q k(1) by (auto simp: f)
    then obtain t where "cond_steps home ?u t" "waits_for home h P d t" "mx_queue (ms_mutex (cd_sys t)) = es"
      "cd_pc t (en_h e) = Granted" by blast
    moreover have "cond_steps home s t" using st calculation(1) by (rule converse_rtranclp_into_rtranclp)
    ultimately show ?thesis by blast
  qed
qed

interpretation cwl: lock_waiter home cd_sys "cond_step home" "waits_for home h P d" h
proof unfold_locales
  fix s :: "'a cond_sys" assume w: "waits_for home h P d s"
  then show "mutex_inv home (cd_sys s)" by (auto simp: waits_for_def cond_inv_def)
  fix b assume "mutex_move home (cd_sys s) b"
  from cond_move [OF this] show "\<exists>t. cond_step home s t \<and> waits_for home h P d t \<and> cd_sys t = b"
    using w cond_inv_step by (intro exI [of _ "s\<lparr>cd_sys := b\<rparr>"]) (auto simp: waits_for_def)
qed (rule release_holder)

subsection \<open>A run\<close>

datatype 'd cond_cmd =
  CLock nat | CResume nat | CUnlock nat | CCall nat "'d \<Rightarrow> bool" | CTest nat | CPush nat | CCvUnlock nat
| CUpdate nat "'d \<Rightarrow> 'd" | CNotifyAll

fun cond_do :: "(nat \<Rightarrow> nat) \<Rightarrow> 'd cond_cmd \<Rightarrow> 'd cond_sys \<Rightarrow> 'd cond_sys option" where
  "cond_do home (CLock h) s =
     (if cd_pc s h = Outside \<or> cd_pc s h = CvRelock then Some (cd_lift (do_lock home h) s) else None)"
| "cond_do home (CResume h) s =
     (if cd_pc s h = Won then Some (cd_lift (\<lambda>b. b\<lparr>ms_pc := (ms_pc b)(h := Holding)\<rparr>) s) else None)"
| "cond_do home (CUnlock h) s =
     (case (cd_pc s h, cd_pred s h) of (Holding, None) \<Rightarrow> Some (cd_lift (do_unlock h Outside) s) | _ \<Rightarrow> None)"
| "cond_do home (CCall h P) s =
     (case (cd_pc s h, cd_pred s h) of (Holding, None) \<Rightarrow> Some (wait_call h P s) | _ \<Rightarrow> None)"
| "cond_do home (CTest h) s =
     (case (cd_pc s h, cd_pred s h) of
        (Holding, Some P) \<Rightarrow> if cd_false s h then None else Some (wait_test h P s) | _ \<Rightarrow> None)"
| "cond_do home (CPush h) s = (if cd_pc s h = Holding \<and> cd_false s h then Some (wait_push home h s) else None)"
| "cond_do home (CCvUnlock h) s =
     (case cd_pc s h of
        CvPushed n \<Rightarrow> Some (cd_lift (do_unlock h (if n then CvNotified else CvWaiting)) s) | _ \<Rightarrow> None)"
| "cond_do home (CUpdate h f) s =
     (case (cd_pc s h, cd_pred s h) of (Holding, None) \<Rightarrow> Some (cd_update f s) | _ \<Rightarrow> None)"
| "cond_do home CNotifyAll s = Some (cd_notify_all s)"

lemma cond_do_step: "cond_do home c s = Some t \<Longrightarrow> cond_step home s t"
proof (cases c)
  case (CCvUnlock h)
  assume "cond_do home c s = Some t"
  then obtain n where n: "cd_pc s h = CvPushed n" "t = cd_lift (do_unlock h (if n then CvNotified else CvWaiting)) s"
    by (auto simp: CCvUnlock split: co_pc.splits)
  show ?thesis unfolding n(2) by (rule cond_step.cv_unlock [OF n(1)])
qed (auto split: co_pc.splits option.splits if_splits intro: cond_step.intros)

text \<open>Coroutine 0 waits for the number to be positive; coroutine 1 adds one and notifies.\<close>

definition cond_demo :: "nat cond_cmd list" where
  "cond_demo = [CLock 0, CResume 0, CCall 0 (\<lambda>n. 0 < n), CTest 0, CPush 0, CCvUnlock 0,
     CLock 1, CResume 1, CUpdate 1 Suc, CNotifyAll]"

lemma cond_demo_run:
  "\<exists>s. run_schedule (cond_do (\<lambda>_. 0)) cond_demo (cond_sys_init 0) = Some s
     \<and> cd_data s = 1 \<and> \<not> cd_dirty s \<and> cd_pred s 0 = Some (\<lambda>n. 0 < n) \<and> cd_pc s 0 = CvNotified"
  by (simp add: cond_demo_def cond_sys_init_def mutex_sys_init_def mutex_new_def cd_lift_def step_simps wait_call_def
      wait_test_def wait_push_def cd_update_def cd_notify_all_def pc_notify_def)

subsection \<open>Properties\<close>

text \<open>
  Property C10: no wake-up of \<^verbatim>\<open>wait(guard, pred)\<close> is lost. In every reachable state in which the
  last change of the data has been followed by a \<^verbatim>\<open>notify_all\<close>, no coroutine that sleeps in the
  condition, or is about to, has a predicate that holds; one whose predicate holds can be brought to
  return, by steps that leave the data alone. Every return from \<^verbatim>\<open>wait\<close> was with the predicate true.
\<close>

theorem wait_for_predicate:
  assumes "cond_steps home (cond_sys_init d) s" and "cd_pred s h = Some P"
  shows "(pc_in_cv (cd_pc s h) \<longrightarrow> \<not> cd_dirty s \<longrightarrow> \<not> P (cd_data s))
     \<and> (P (cd_data s) \<longrightarrow> \<not> cd_dirty s \<longrightarrow>
          (\<exists>t. cond_steps home s t \<and> cd_data t = cd_data s \<and> cd_pc t h = Holding \<and> cd_pred t h = None
             \<and> last (cd_returned t) = (h, P, cd_data s)))
     \<and> (\<forall>(k, Q, d) \<in> set (cd_returned s). Q d)"
proof (intro conjI impI)
  have inv: "cond_inv home s" by (rule cw.reachable_inv [OF refl assms(1)])
  show "\<forall>(k, Q, d) \<in> set (cd_returned s). Q d" by (rule cond_invD(4) [OF inv])
  show "\<not> P (cd_data s)" if "pc_in_cv (cd_pc s h)" "\<not> cd_dirty s"
    using cond_invD(2) [OF inv, of h] that assms(2) by (simp add: sleeper_ok_def)
  assume P: "P (cd_data s)" and clean: "\<not> cd_dirty s"
  have "cd_pc s h \<noteq> Outside" using cond_invD(5) [OF inv, of h] assms(2) by (simp add: waiter_ok_def)
  have awake: "\<not> pc_in_cv (cd_pc s h)" using cond_invD(2) [OF inv, of h] P clean assms(2) by (auto simp: sleeper_ok_def)
  have w: "waits_for home h P (cd_data s) s" using inv assms(2) by (simp add: waits_for_def)
  obtain t where t: "cond_steps home s t" "waits_for home h P (cd_data s) t" "cd_pc t h = Holding"
    using cwl.awaiting_reaches_holding [OF w] awake \<open>cd_pc s h \<noteq> Outside\<close> by fastforce
  then have f: "cd_data t = cd_data s" "cd_pred t h = Some P" "cond_inv home t" by (simp_all add: waits_for_def)
  have nf: "\<not> cd_false t h" using cond_invD(3) [OF f(3), of h] f(1,2) P by (auto simp: tested_ok_def)
  have "cond_step home t (wait_test h P t)" by (rule cond_step.test [OF t(3) f(2) nf])
  then show "\<exists>t. cond_steps home s t \<and> cd_data t = cd_data s \<and> cd_pc t h = Holding \<and> cd_pred t h = None
      \<and> last (cd_returned t) = (h, P, cd_data s)"
    using t(1,3) f(1) P
    by (intro exI [of _ "wait_test h P t"]) (auto simp: wait_test_def intro: rtranclp.rtrancl_into_rtrancl)
qed

theorem wait_for_predicate_witness:
  "\<exists>s t :: nat cond_sys. cd_pc s 0 = CvNotified \<and> cond_steps (\<lambda>_. 0) s t \<and> cd_pc t 0 = Holding \<and> cd_pred t 0 = None"
proof -
  obtain s :: "nat cond_sys" where s: "run_schedule (cond_do (\<lambda>_. 0)) cond_demo (cond_sys_init 0) = Some s"
    "cd_data s = 1" "\<not> cd_dirty s" "cd_pred s 0 = Some (\<lambda>n. 0 < n)" "cd_pc s 0 = CvNotified"
    using cond_demo_run by blast
  have "cond_steps (\<lambda>_. 0) (cond_sys_init 0) s"
    using cond_do_step s(1) by (rule run_schedule_steps)
  from wait_for_predicate [OF this s(4)] s(2,3,5) show ?thesis by auto
qed

end
