(* ===== verification/Coro_Sleep.thy ===== *)
theory Coro_Sleep
  imports Coro_Context
begin

section \<open>Sleeping coroutines (core/impl/coro.hpp)\<close>

text \<open>
  \<^verbatim>\<open>this_coro::sleep_for\<close> and \<^verbatim>\<open>sleep_until\<close> suspend the coroutine and give its handle to a timer of the
  thread's context; the timer's task resumes the coroutine when it is called with \<^verbatim>\<open>true\<close>. This theory
  follows such a timer through the event loop, from the call to the resumption.
\<close>

subsection \<open>The calls\<close>

text \<open>
  The tasks of a loop with coroutines: the lambda of \<^verbatim>\<open>queue_in_context\<close>, the lambda of the two sleeping
  functions, and others. \<open>resume h\<close> are the calls that coroutine \<open>h\<close> makes when it is resumed.
\<close>

datatype 'u loop_task = ResumeTask nat | SleepTask nat | OtherTask 'u

definition sleep_callback :: "(nat \<Rightarrow> 'c ctx \<Rightarrow> 'c ctx_call list) \<Rightarrow> nat \<Rightarrow> bool \<Rightarrow> 'c ctx \<Rightarrow> 'c ctx_call list" where
  "sleep_callback resume h flag s = (if flag then resume h s else [])"

definition loop_prog ::
  "(nat \<Rightarrow> 'u loop_task ctx \<Rightarrow> 'u loop_task ctx_call list)
   \<Rightarrow> ('u \<Rightarrow> bool \<Rightarrow> 'u loop_task ctx \<Rightarrow> 'u loop_task ctx_call list) \<Rightarrow> 'u loop_task task_prog" where
  "loop_prog resume other t flag s =
     (case t of ResumeTask h \<Rightarrow> resume h s | SleepTask h \<Rightarrow> sleep_callback resume h flag s | OtherTask u \<Rightarrow> other u flag s)"

text \<open>The timer's handle is dropped: nobody can cancel the timer.\<close>

definition sleep_for :: "nanos \<Rightarrow> nat \<Rightarrow> 'u loop_task ctx \<Rightarrow> nat \<times> 'u loop_task ctx" where
  "sleep_for dur h s = expires_after dur (SleepTask h) s"

definition sleep_until :: "nanos \<Rightarrow> nat \<Rightarrow> 'u loop_task ctx \<Rightarrow> nat \<times> 'u loop_task ctx" where
  "sleep_until tp h s = expires_until tp (SleepTask h) s"

subsection \<open>A timer in the loop\<close>

definition timer_set :: "nat \<Rightarrow> nanos \<Rightarrow> 't \<Rightarrow> 't timer_queue \<Rightarrow> bool" where
  "timer_set i tp task q \<longleftrightarrow> tq_inv q \<and> tq_store q i = Some \<lparr>td_flag = True, td_deadline = tp, td_task = task\<rparr>"

definition timer_gone :: "nat \<Rightarrow> 't timer_queue \<Rightarrow> bool" where
  "timer_gone i q \<longleftrightarrow> tq_inv q \<and> tq_store q i = None \<and> i < tq_next q"

lemma timer_push_fields:
  "tq_store (snd (timer_push tp task q)) = (tq_store q)(tq_next q \<mapsto> \<lparr>td_flag = True, td_deadline = tp, td_task = task\<rparr>)"
  "tq_next (snd (timer_push tp task q)) = Suc (tq_next q)" "fst (timer_push tp task q) = tq_next q"
  by (simp_all add: timer_push_def Let_def)

lemma tq_inv_pushed: "tq_inv q \<Longrightarrow> tq_inv (snd (timer_push tp task q))"
  using tq_inv_push [of q tp task "fst (timer_push tp task q)"] by simp

lemma tq_inv_cancelled: "tq_inv q \<Longrightarrow> tq_inv (snd (snd (timer_cancel h q)))"
  using tq_inv_cancel [of q h "fst (timer_cancel h q)" "fst (snd (timer_cancel h q))"] by simp

lemma timer_set_below: "timer_set i tp task q \<Longrightarrow> i < tq_next q"
  by (auto simp: timer_set_def tq_inv_def)

lemma timer_set_push: "tq_inv q \<Longrightarrow> timer_set (tq_next q) tp task (snd (timer_push tp task q))"
  by (simp add: timer_set_def timer_push_fields tq_inv_pushed)

text \<open>
  A fact about timer \<open>i\<close> that survives new timers and the cancellation of other timers survives whatever
  the loop does except for the expiry, as long as nobody cancels timer \<open>i\<close>.
\<close>

lemma do_call_timers:
  assumes "do_call c s = Inr t"
  shows "cx_timers t = cx_timers s \<or> (\<exists>d x. cx_timers t = snd (timer_push d x (cx_timers s)))
     \<or> (\<exists>h. c = CancelCall h \<and> cx_timers t = snd (snd (timer_cancel h (cx_timers s))))"
proof (cases c)
  case (UntilCall tp x)
  with assms have "cx_timers t = snd (timer_push tp x (cx_timers s))" by (auto simp: expires_until_def split_def Let_def)
  then show ?thesis by blast
next
  case (AfterCall d x)
  with assms have "cx_timers t = snd (timer_push (cx_now s + d) x (cx_timers s))" by (auto simp: expires_after_def split_def Let_def)
  then show ?thesis by blast
qed (use assms in \<open>auto simp: ctx_execute_def execute_push_def ctx_wake_up_def ctx_stop_def Let_def split: if_splits\<close>)

definition leaves_alone :: "nat \<Rightarrow> 't ctx_call list \<Rightarrow> bool" where
  "leaves_alone i cs \<longleftrightarrow> CancelCall i \<notin> set cs"

locale timer_fact =
  fixes i :: nat and P :: "'t timer_queue \<Rightarrow> bool"
  assumes pushed: "P q \<Longrightarrow> P (snd (timer_push d x q))"
    and cancelled: "P q \<Longrightarrow> h \<noteq> i \<Longrightarrow> P (snd (snd (timer_cancel h q)))"
begin

lemma calls: "do_calls cs s = Inr t \<Longrightarrow> leaves_alone i cs \<Longrightarrow> P (cx_timers s) \<Longrightarrow> P (cx_timers t)"
proof (induction cs arbitrary: s)
  case (Cons c cs)
  then obtain u where u: "do_call c s = Inr u" "do_calls cs u = Inr t" by (auto simp: bind_checked_Inr)
  have other: "h \<noteq> i" if "c = CancelCall h" for h using Cons.prems(2) that by (auto simp: leaves_alone_def)
  have "P (cx_timers u)"
    using do_call_timers [OF u(1)] Cons.prems(3) pushed cancelled other by metis
  then show ?case using Cons.IH [OF u(2)] Cons.prems(2) by (simp add: leaves_alone_def)
qed simp

lemma handles:
  "run_handles prog fs s = Inr t \<Longrightarrow> \<forall>f b u. leaves_alone i (prog f b u) \<Longrightarrow> P (cx_timers s) \<Longrightarrow> P (cx_timers t)"
proof (induction fs arbitrary: s)
  case (Cons f fs)
  then obtain u where u: "do_calls (prog f True s) (s\<lparr>cx_ran := cx_ran s @ [f]\<rparr>) = Inr u" "run_handles prog fs u = Inr t"
    by (auto simp: bind_checked_Inr)
  have "P (cx_timers u)" using calls [OF u(1)] Cons.prems(2,3) by simp
  then show ?case using Cons.IH [OF u(2)] Cons.prems(2) by blast
qed simp

lemma timer_tasks:
  "run_timer_tasks prog fs s = Inr t \<Longrightarrow> \<forall>f b u. leaves_alone i (prog f b u) \<Longrightarrow> P (cx_timers s) \<Longrightarrow> P (cx_timers t)"
proof (induction fs arbitrary: s)
  case (Cons f fs)
  then obtain u where u: "do_calls (prog f True s) (s\<lparr>cx_fired := cx_fired s @ [f]\<rparr>) = Inr u"
    "run_timer_tasks prog fs u = Inr t"
    by (auto simp: bind_checked_Inr)
  have "P (cx_timers u)" using calls [OF u(1)] Cons.prems(2,3) by simp
  then show ?case using Cons.IH [OF u(2)] Cons.prems(2) by blast
qed simp

lemma polled:
  assumes "ctx_poll me poll s = Inr t" and "\<forall>d u. leaves_alone i (snd (poll d u))" and "P (cx_timers s)"
  shows "P (cx_timers t)"
proof -
  obtain status cs where p: "poll (poll_timeout s) s = (status, cs)" by fastforce
  then obtain u where u: "do_calls cs s = Inr u" "(if status = -1 then ctx_stop me u else Inr u) = Inr t"
    using assms(1) by (auto simp: ctx_poll_def bind_checked_Inr)
  have "leaves_alone i cs" using assms(2) p by (metis snd_conv)
  then have "P (cx_timers u)" using calls [OF u(1)] assms(3) by blast
  with u(2) show ?thesis by (auto simp: ctx_stop_def split: if_splits)
qed

end

lemma timer_set_kept:
  assumes set: "timer_set i tp task q"
  shows "timer_set i tp task (snd (timer_push d x q))"
    and "h \<noteq> i \<Longrightarrow> timer_set i tp task (snd (snd (timer_cancel h q)))"
proof -
  show "timer_set i tp task (snd (timer_push d x q))"
    using set timer_set_below [OF set] tq_inv_pushed [of q d x] by (simp add: timer_set_def timer_push_fields)
  show "timer_set i tp task (snd (snd (timer_cancel h q)))" if "h \<noteq> i"
    using set that tq_inv_cancelled [of q h]
    by (cases "tq_store q h") (auto simp: timer_set_def timer_cancel_def Let_def)
qed

lemma timer_gone_kept:
  assumes gone: "timer_gone i q"
  shows "timer_gone i (snd (timer_push d x q))" and "h \<noteq> i \<Longrightarrow> timer_gone i (snd (snd (timer_cancel h q)))"
proof -
  show "timer_gone i (snd (timer_push d x q))"
    using gone tq_inv_pushed [of q d x] by (auto simp: timer_gone_def timer_push_fields)
  show "timer_gone i (snd (snd (timer_cancel h q)))" if "h \<noteq> i"
    using gone that tq_inv_cancelled [of q h]
    by (cases "tq_store q h") (auto simp: timer_gone_def timer_cancel_def Let_def)
qed

interpretation tset: timer_fact i "timer_set i tp task" for i tp task
  by unfold_locales (simp_all add: timer_set_kept)

interpretation tgone: timer_fact i "timer_gone i" for i
  by unfold_locales (simp_all add: timer_gone_kept)

text \<open>The expiry: before its time the timer stays, at its time it fires and goes.\<close>

lemma timer_set_expiry:
  assumes set: "timer_set i tp task q" and get: "get_expired now [] q = (ts, q')"
  shows "now < tp \<Longrightarrow> i \<notin> set (firing now q) \<and> timer_set i tp task q'"
    and "tp \<le> now \<Longrightarrow> i \<in> set (firing now q) \<and> task \<in> set ts \<and> timer_gone i q'"
proof -
  have inv: "tq_inv q" and st: "tq_store q i = Some \<lparr>td_flag = True, td_deadline = tp, td_task = task\<rparr>"
    using set by (simp_all add: timer_set_def)
  have mem: "i \<in> set (tq_timers q)" using inv st by (auto simp: tq_inv_def)
  have at: "td_flag (timer_at q i)" "deadline_of q i = tp" "td_task (timer_at q i) = task"
    using st by (simp_all add: timer_at_def deadline_of_def)
  note spec = get_expired_spec [OF inv get]
  show "i \<notin> set (firing now q) \<and> timer_set i tp task q'" if "now < tp"
    using that mem at spec(2,4) spec(5) [of i] st by (simp add: set_firing [OF inv] timer_set_def)
  assume due: "tp \<le> now"
  then have fire: "i \<in> set (firing now q)" using mem at by (simp add: set_firing [OF inv])
  moreover have "task \<in> set ts" using fire at(3) spec(1) by force
  moreover have "i \<notin> dom (tq_store q')"
  proof -
    have "dom (tq_store q') = set (tq_timers q')" using spec(2) by (simp add: tq_inv_def)
    then show ?thesis using spec(4) due at(2) by simp
  qed
  moreover have "i < tq_next q'" using timer_set_below [OF set] spec(3) by simp
  ultimately show "i \<in> set (firing now q) \<and> task \<in> set ts \<and> timer_gone i q'"
    using spec(2) by (auto simp: timer_gone_def)
qed

lemma timer_gone_expiry:
  assumes gone: "timer_gone i q" and get: "get_expired now [] q = (ts, q')"
  shows "i \<notin> set (firing now q) \<and> timer_gone i q'"
proof -
  have inv: "tq_inv q" and out: "i \<notin> set (tq_timers q)" using gone by (auto simp: timer_gone_def tq_inv_def)
  note spec = get_expired_spec [OF inv get]
  have "i \<notin> set (tq_timers q')" using spec(4) out by simp
  then have "tq_store q' i = None" using spec(2) by (auto simp: tq_inv_def)
  with gone spec(2,3) out show ?thesis by (simp add: set_firing [OF inv] timer_gone_def)
qed

subsection \<open>The loop, seen at its expiries\<close>

text \<open>
  The rest of an iteration after the tasks \<open>fs\<close> of its batch; and the states in which the loop looks for
  expired timers, from there on for \<open>n\<close> iterations, or until it stops.
\<close>

definition after_batch :: "thread_id \<Rightarrow> 't task_prog \<Rightarrow> 't poll_fun \<Rightarrow> 't ctx \<Rightarrow> 't ctx checked" where
  "after_batch me prog poll s =
     (let (timer_tasks, q) = get_expired (cx_now s) [] (cx_timers s)
      in bind_checked (run_timer_tasks prog timer_tasks (s\<lparr>cx_timers := q\<rparr>)) (ctx_poll me poll))"

lemma ctx_iteration_after_batch:
  "ctx_iteration me prog poll s =
     bind_checked (run_handles prog (cx_pending s) (s\<lparr>cx_pending := []\<rparr>)) (after_batch me prog poll)"
  by (simp add: ctx_iteration_def after_batch_def [abs_def])

fun expiry_points :: "thread_id \<Rightarrow> 't task_prog \<Rightarrow> 't poll_fun \<Rightarrow> nat \<Rightarrow> 't list \<Rightarrow> 't ctx \<Rightarrow> 't ctx list" where
  "expiry_points me prog poll 0 fs s = []"
| "expiry_points me prog poll (Suc n) fs s =
     (case run_handles prog fs s of
        Inl e \<Rightarrow> []
      | Inr u \<Rightarrow> u # (case after_batch me prog poll u of
           Inl e \<Rightarrow> []
         | Inr t \<Rightarrow> if cx_state t = CtxStopping then []
                    else expiry_points me prog poll n (cx_pending t) (t\<lparr>cx_pending := []\<rparr>)))"

definition fires_at :: "nat \<Rightarrow> 't ctx \<Rightarrow> bool" where
  "fires_at i u \<longleftrightarrow> i \<in> set (firing (cx_now u) (cx_timers u))"

lemma timer_gone_never_fires:
  assumes prog: "\<forall>f b u. leaves_alone i (prog f b u)" and poll: "\<forall>d u. leaves_alone i (snd (poll d u))"
  shows "timer_gone i (cx_timers s) \<Longrightarrow> u \<in> set (expiry_points me prog poll n fs s) \<Longrightarrow> \<not> fires_at i u"
proof (induction n arbitrary: fs s)
  case (Suc n)
  obtain v where v: "run_handles prog fs s = Inr v" using Suc.prems(2) by (cases "run_handles prog fs s") auto
  have gone: "timer_gone i (cx_timers v)" by (rule tgone.handles [OF v prog Suc.prems(1)])
  obtain ts q where get: "get_expired (cx_now v) [] (cx_timers v) = (ts, q)" by fastforce
  note ex = timer_gone_expiry [OF gone get]
  show ?case
  proof (cases "u = v")
    case True
    then show ?thesis using ex by (simp add: fires_at_def)
  next
    case False
    then obtain t where t: "after_batch me prog poll v = Inr t"
      "u \<in> set (expiry_points me prog poll n (cx_pending t) (t\<lparr>cx_pending := []\<rparr>))"
      using Suc.prems(2) v by (cases "after_batch me prog poll v") (auto split: if_splits)
    obtain w where w: "run_timer_tasks prog ts (v\<lparr>cx_timers := q\<rparr>) = Inr w" "ctx_poll me poll w = Inr t"
      using t(1) by (auto simp: after_batch_def get bind_checked_Inr)
    have "timer_gone i (cx_timers w)" using tgone.timer_tasks [OF w(1) prog] ex by simp
    then have "timer_gone i (cx_timers t)" by (rule tgone.polled [OF w(2) poll])
    then show ?thesis using Suc.IH [OF _ t(2)] by simp
  qed
qed simp

text \<open>A timer that is set fires at the first expiry of its time or later, and nowhere else.\<close>

lemma timer_set_fires:
  assumes prog: "\<forall>f b u. leaves_alone i (prog f b u)" and poll: "\<forall>d u. leaves_alone i (snd (poll d u))"
  shows "timer_set i tp task (cx_timers s) \<Longrightarrow>
    filter (fires_at i) (expiry_points me prog poll n fs s) = take 1 (dropWhile (\<lambda>u. cx_now u < tp) (expiry_points me prog poll n fs s))
  \<and> (\<forall>u \<in> set (expiry_points me prog poll n fs s). fires_at i u \<longrightarrow>
       task \<in> set (fst (get_expired (cx_now u) [] (cx_timers u))))"
proof (induction n arbitrary: fs s)
  case (Suc n)
  show ?case
  proof (cases "run_handles prog fs s")
    case (Inr v)
    have set: "timer_set i tp task (cx_timers v)" by (rule tset.handles [OF Inr prog Suc.prems])
    obtain ts q where get: "get_expired (cx_now v) [] (cx_timers v) = (ts, q)" by fastforce
    define rest where "rest = (case after_batch me prog poll v of Inl e \<Rightarrow> []
      | Inr t \<Rightarrow> if cx_state t = CtxStopping then [] else expiry_points me prog poll n (cx_pending t) (t\<lparr>cx_pending := []\<rparr>))"
    have pts: "expiry_points me prog poll (Suc n) fs s = v # rest" by (simp add: Inr rest_def)
    have after: "P (cx_timers t)" if "after_batch me prog poll v = Inr t" "timer_fact i P" "P q" for t P
    proof -
      note run = that(1)
      obtain w where w: "run_timer_tasks prog ts (v\<lparr>cx_timers := q\<rparr>) = Inr w" "ctx_poll me poll w = Inr t"
        using run by (auto simp: after_batch_def get bind_checked_Inr)
      then show ?thesis
        using timer_fact.polled [OF that(2) w(2) poll] timer_fact.timer_tasks [OF that(2) w(1) prog] that(3) by simp
    qed
    show ?thesis
    proof (cases "cx_now v < tp")
      case True
      note ex = timer_set_expiry(1) [OF set get True]
      have "filter (fires_at i) rest = take 1 (dropWhile (\<lambda>u. cx_now u < tp) rest)
          \<and> (\<forall>u \<in> List.set rest. fires_at i u \<longrightarrow> task \<in> List.set (fst (get_expired (cx_now u) [] (cx_timers u))))"
      proof (cases "after_batch me prog poll v")
        case (Inr t)
        have "timer_set i tp task (cx_timers (t\<lparr>cx_pending := []\<rparr>))"
          using after [OF Inr tset.timer_fact_axioms] ex by simp
        from Suc.IH [OF this] show ?thesis by (simp add: rest_def Inr)
      qed (simp add: rest_def)
      moreover have "\<not> fires_at i v" using ex by (simp add: fires_at_def)
      ultimately show ?thesis using True unfolding pts by simp
    next
      case False
      note ex = timer_set_expiry(2) [OF set get]
      have "\<not> fires_at i u" if u: "u \<in> List.set rest" for u
      proof -
        obtain t where t: "after_batch me prog poll v = Inr t"
          "u \<in> List.set (expiry_points me prog poll n (cx_pending t) (t\<lparr>cx_pending := []\<rparr>))"
          using u by (cases "after_batch me prog poll v") (auto simp: rest_def split: if_splits)
        have "timer_gone i (cx_timers (t\<lparr>cx_pending := []\<rparr>))"
          using after [OF t(1) tgone.timer_fact_axioms] ex False by simp
        then show ?thesis by (rule timer_gone_never_fires [OF prog poll _ t(2)])
      qed
      moreover have "fires_at i v" "task \<in> List.set (fst (get_expired (cx_now v) [] (cx_timers v)))"
        using ex False by (simp_all add: fires_at_def get)
      ultimately show ?thesis using False unfolding pts by (auto simp: filter_empty_conv)
    qed
  qed simp
qed simp

subsection \<open>Properties\<close>

lemma sleep_for_until: "sleep_for dur h s = sleep_until (cx_now s + dur) h s"
  by (simp add: sleep_for_def sleep_until_def expires_after_def expires_until_def)

lemma sleep_sets_timer:
  assumes "tq_inv (cx_timers s)" and "sleep_until tp h s = (i, t)"
  shows "timer_set i tp (SleepTask h) (cx_timers t)"
  using assms timer_set_push [OF assms(1), of tp "SleepTask h"]
  by (auto simp: sleep_until_def expires_until_def split_def Let_def timer_push_fields(3))

text \<open>
  The queue's destructor calls the task with \<^verbatim>\<open>false\<close>, which makes no call at all: a coroutine that
  sleeps when its context is destroyed is not resumed, and nothing destroys its frame either.
\<close>

lemma destroyed_sleeper_never_runs: "loop_prog resume other (SleepTask h) False s = []"
  by (simp add: loop_prog_def sleep_callback_def)

text \<open>A coroutine that sleeps until 5, in a service that never waits for more than 3.\<close>

definition demo_sleepers :: "unit loop_task task_prog" where
  "demo_sleepers = loop_prog (\<lambda>h s. [ElapseCall 1]) (\<lambda>u b s. [])"

definition demo_nap :: "unit loop_task poll_fun" where
  "demo_nap d s = (0, [ElapseCall (nat (min d 3))])"

definition demo_awake :: "unit loop_task ctx" where
  "demo_awake = \<lparr>cx_state = CtxRunning, cx_thread = 0, cx_pending = [], cx_timers = tq_empty, cx_now = 0,
     cx_wakes = 0, cx_submitted = [], cx_ran = [], cx_fired = []\<rparr>"

lemma demo_sleep_times:
  "map cx_now (expiry_points 0 demo_sleepers demo_nap 5 [] (snd (sleep_until 5 1 demo_awake))) = [0, 3, 5, 9, 12]"
  by code_simp

text \<open>
  Property C23: a sleeping coroutine is resumed once, on time. After \<^verbatim>\<open>sleep_until\<close> (and so
  after \<^verbatim>\<open>sleep_for\<close>) the event loop passes any number of expiries, in between which tasks run and
  the I/O service waits; nobody cancels the timer, since its handle is dropped. Of these expiries the
  coroutine's timer fires at the first whose time has come, and at no other; there the
  coroutine is resumed.
\<close>

theorem sleep_resumes_once:
  assumes "tq_inv (cx_timers s)" and "sleep_until tp h s = (i, s\<^sub>1)"
    and "do_calls cs s\<^sub>1 = Inr s\<^sub>2" and "leaves_alone i cs"
    and "\<forall>f b u. leaves_alone i (loop_prog resume other f b u)" and "\<forall>d u. leaves_alone i (snd (poll d u))"
  shows "filter (fires_at i) (expiry_points me (loop_prog resume other) poll n fs s\<^sub>2)
       = take 1 (dropWhile (\<lambda>u. cx_now u < tp) (expiry_points me (loop_prog resume other) poll n fs s\<^sub>2))
    \<and> (\<forall>u \<in> set (expiry_points me (loop_prog resume other) poll n fs s\<^sub>2). fires_at i u \<longrightarrow>
         SleepTask h \<in> set (fst (get_expired (cx_now u) [] (cx_timers u)))
       \<and> loop_prog resume other (SleepTask h) True u = resume h u)"
proof -
  have "timer_set i tp (SleepTask h) (cx_timers s\<^sub>2)"
    by (rule tset.calls [OF assms(3,4) sleep_sets_timer [OF assms(1,2)]])
  note fires = timer_set_fires [OF assms(5,6) this, of me n fs]
  moreover have "loop_prog resume other (SleepTask h) True u = resume h u" for u
    by (simp add: loop_prog_def sleep_callback_def)
  ultimately show ?thesis by simp
qed

theorem sleep_resumes_once_witness:
  "map cx_now (filter (fires_at 0) (expiry_points 0 demo_sleepers demo_nap 5 [] (snd (sleep_until 5 1 demo_awake)))) = [5]"
proof -
  let ?s = "snd (sleep_until 5 1 demo_awake)"
  have "tq_inv (cx_timers demo_awake)" by (simp add: demo_awake_def tq_inv_empty)
  moreover have "fst (sleep_until 5 1 demo_awake) = 0" by code_simp
  then have "sleep_until 5 1 demo_awake = (0, ?s)" by (simp add: prod_eq_iff)
  moreover have "do_calls [] ?s = Inr ?s" "leaves_alone 0 []" by (simp_all add: leaves_alone_def)
  moreover have "\<forall>f b u. leaves_alone 0 (loop_prog (\<lambda>h s. [ElapseCall 1]) (\<lambda>u b s. []) f b u)"
    "\<forall>d u. leaves_alone 0 (snd (demo_nap d u))"
    by (simp_all add: leaves_alone_def loop_prog_def sleep_callback_def demo_nap_def split: loop_task.split)
  ultimately have "filter (fires_at 0) (expiry_points 0 demo_sleepers demo_nap 5 [] ?s)
      = take 1 (dropWhile (\<lambda>u. cx_now u < 5) (expiry_points 0 demo_sleepers demo_nap 5 [] ?s))"
    unfolding demo_sleepers_def using sleep_resumes_once by blast
  then have "map cx_now (filter (fires_at 0) (expiry_points 0 demo_sleepers demo_nap 5 [] ?s))
      = take 1 (dropWhile (\<lambda>t. t < 5) (map cx_now (expiry_points 0 demo_sleepers demo_nap 5 [] ?s)))"
    by (simp add: take_map dropWhile_map comp_def)
  then show ?thesis unfolding demo_sleep_times by simp
qed

end
