(* ===== verification/Io_Interface.thy ===== *)
theory Io_Interface
  imports Service_Backends Io_Await
begin

section \<open>The interface of an I/O service (core/io_service.h)\<close>

text \<open>
  \<^verbatim>\<open>IoServiceInterface\<close> is an abstract class; \<^verbatim>\<open>IoUring\<close> and \<^verbatim>\<open>IoCompletionPort\<close> override its
  twelve functions, and \<^verbatim>\<open>IoService\<close> holds a pointer to it and calls through it. Here the table of
  functions is a record, each class is a table, and \<^verbatim>\<open>IoService\<close> takes the table. The last part gives
  the interface an abstract meaning and shows that both classes implement it.
\<close>

subsection \<open>The table of functions\<close>

text \<open>
  \<open>'s\<close> is the object's state and \<open>'e\<close> what the system contributes to a \<^verbatim>\<open>poll\<close>; \<open>None\<close> is a null
  dereference.
\<close>

record ('e, 's) io_interface =
  if_write_file :: "int \<Rightarrow> nat \<Rightarrow> nat \<Rightarrow> 's \<Rightarrow> 's option"
  if_read_file :: "int \<Rightarrow> nat \<Rightarrow> nat \<Rightarrow> 's \<Rightarrow> 's option"
  if_accept :: "int \<Rightarrow> nat \<Rightarrow> 's \<Rightarrow> 's option"
  if_connect :: "int \<Rightarrow> nat \<Rightarrow> 's \<Rightarrow> 's option"
  if_send :: "int \<Rightarrow> nat \<Rightarrow> 's \<Rightarrow> 's option"
  if_receive :: "int \<Rightarrow> nat \<Rightarrow> 's \<Rightarrow> 's option"
  if_send_to :: "int \<Rightarrow> nat \<Rightarrow> 's \<Rightarrow> 's option"
  if_receive_from :: "int \<Rightarrow> nat \<Rightarrow> 's \<Rightarrow> 's option"
  if_cancel :: "int \<Rightarrow> 's \<Rightarrow> 's option"
  if_attach :: "int \<Rightarrow> error_code \<Rightarrow> 's \<Rightarrow> error_code \<times> 's"
  if_poll :: "'e \<Rightarrow> nat \<Rightarrow> error_code \<Rightarrow> 's \<Rightarrow> ((int \<times> error_code) \<times> 's) option"
  if_wake_up :: "'s \<Rightarrow> 's"

text \<open>The functions of \<^verbatim>\<open>IoService\<close> that only forward.\<close>

definition svc_cancel :: "('e, 's) io_interface \<Rightarrow> int \<Rightarrow> 's \<Rightarrow> 's option" where
  "svc_cancel impl fd s = if_cancel impl fd s"

definition svc_attach :: "('e, 's) io_interface \<Rightarrow> int \<Rightarrow> error_code \<Rightarrow> 's \<Rightarrow> error_code \<times> 's" where
  "svc_attach impl fd ec s = if_attach impl fd ec s"

definition svc_poll ::
  "('e, 's) io_interface \<Rightarrow> 'e \<Rightarrow> nat \<Rightarrow> error_code \<Rightarrow> 's \<Rightarrow> ((int \<times> error_code) \<times> 's) option" where
  "svc_poll impl env nanosec ec s = if_poll impl env nanosec ec s"

definition svc_wake_up :: "('e, 's) io_interface \<Rightarrow> 's \<Rightarrow> 's" where
  "svc_wake_up impl s = if_wake_up impl s"

text \<open>The functions of \<^verbatim>\<open>IoService\<close> that allocate a context and call through the table.\<close>

fun service_issue ::
  "('e, ('p, 'z) io_heap_scheme) io_interface \<Rightarrow> 'p io_request \<Rightarrow> 'p \<Rightarrow> ('p, 'z) io_heap_scheme
   \<Rightarrow> ('p, 'z) io_heap_scheme option" where
  "service_issue impl (WriteFileReq fd b n off) p s = svc_write_file (if_write_file impl fd off) b n p s"
| "service_issue impl (ReadFileReq fd b n off) p s = svc_read_file (if_read_file impl fd off) b n p s"
| "service_issue impl (AcceptReq fd) p s = svc_accept (if_accept impl fd) p s"
| "service_issue impl (ConnectReq fd a) p s = svc_connect (if_connect impl fd) a p s"
| "service_issue impl (SendReq fd b n) p s = svc_send (if_send impl fd) b n p s"
| "service_issue impl (ReceiveReq fd b n) p s = svc_receive (if_receive impl fd) b n p s"
| "service_issue impl (SendToReq fd a b n) p s = svc_send_to (if_send_to impl fd) a b n p s"
| "service_issue impl (ReceiveFromReq fd b n) p s = svc_receive_from (if_receive_from impl fd) b n p s"

subsection \<open>IoUring\<close>

text \<open>
  \<^verbatim>\<open>poll\<close> as one call: the entries are submitted; while it waits, the kernel does \<open>kernel\<close>; \<open>r\<close> is what
  the wait returns; then the loop takes completions until the queue is empty.
\<close>

lemma next_cqe_queue: "next_cqe peername s = Some t \<Longrightarrow> rg_cq t = tl (rg_cq s)"
  by (cases "rg_cq s")
    (auto simp: next_cqe_def handle_cqe_def uncount_io_def finish_ctx_def invoke_cb_def prep_wake_up_def put_sqe_def
      Let_def split: io_cb.splits operation.splits if_splits)

function ring_drain :: "(int \<Rightarrow> byte list) \<Rightarrow> 'p ring \<Rightarrow> 'p ring option" where
  "ring_drain peername s =
     (if rg_cq s = [] then Some s
      else case next_cqe peername s of None \<Rightarrow> None | Some t \<Rightarrow> ring_drain peername t)"
  by pat_completeness auto
termination
  by (relation "measure (\<lambda>(peername, s). length (rg_cq s))") (auto simp: next_cqe_queue)

declare ring_drain.simps [simp del]

definition ring_poll_call ::
  "(int \<Rightarrow> byte list) \<Rightarrow> ('p ring \<Rightarrow> 'p ring) \<times> int \<Rightarrow> nat \<Rightarrow> error_code \<Rightarrow> 'p ring
   \<Rightarrow> ((int \<times> error_code) \<times> 'p ring) option" where
  "ring_poll_call peername env nanosec ec s =
     (case ring_poll nanosec (snd env) ec s of
        (PollReturns v ec', t) \<Rightarrow> Some ((v, ec'), if nanosec = 0 \<and> rg_io_num s = 0 then t else fst env t)
      | (PollDelivers, t) \<Rightarrow> map_option (\<lambda>u. ((1, ec), u)) (ring_drain peername (fst env t)))"

definition ring_interface :: "(int \<Rightarrow> byte list) \<Rightarrow> (('p ring \<Rightarrow> 'p ring) \<times> int, 'p ring) io_interface" where
  "ring_interface peername =
     \<lparr>if_write_file = ring_write_file, if_read_file = ring_read_file, if_accept = ring_accept,
      if_connect = ring_connect, if_send = ring_send, if_receive = ring_receive, if_send_to = ring_send_to,
      if_receive_from = ring_receive_from, if_cancel = ring_cancel, if_attach = ring_attach,
      if_poll = ring_poll_call peername, if_wake_up = ring_wake_up\<rparr>"

lemma service_issue_ring: "service_issue (ring_interface peername) req p s = ring_issue req p s"
  by (cases req) (simp_all add: ring_interface_def)

subsection \<open>IoCompletionPort\<close>

text \<open>
  The table when the next system call ends with \<open>err\<close>; \<open>opened\<close> is the socket for the next \<^verbatim>\<open>accept\<close>.
  \<^verbatim>\<open>CancelIoEx\<close> only asks Windows to end the operations early: it changes nothing by itself.
\<close>

definition port_cancel :: "int \<Rightarrow> 'p port \<Rightarrow> 'p port" where
  "port_cancel fd s = s"

definition port_interface ::
  "(nat \<Rightarrow> byte list) \<Rightarrow> int \<times> error_code \<Rightarrow> int option \<Rightarrow> ('p port \<Rightarrow> 'p port, 'p port) io_interface" where
  "port_interface peer opened err =
     \<lparr>if_write_file = (\<lambda>fd off ioc s. Some (port_write_file fd off err ioc s)),
      if_read_file = (\<lambda>fd off ioc s. Some (port_read_file fd off err ioc s)),
      if_accept = (\<lambda>fd ioc s. Some (port_accept fd opened err ioc s)),
      if_connect = (\<lambda>fd ioc s. Some (port_connect fd err ioc s)),
      if_send = (\<lambda>fd ioc s. Some (port_send fd err ioc s)),
      if_receive = (\<lambda>fd ioc s. Some (port_receive fd err ioc s)),
      if_send_to = (\<lambda>fd ioc s. Some (port_send_to fd err ioc s)),
      if_receive_from = (\<lambda>fd ioc s. Some (port_receive_from fd err ioc s)),
      if_cancel = (\<lambda>fd s. Some (port_cancel fd s)), if_attach = (\<lambda>fd. port_attach err),
      if_poll = (\<lambda>windows nanosec ec s. Some (port_poll peer nanosec ec (windows s))), if_wake_up = port_wake_up\<rparr>"

text \<open>What \<^verbatim>\<open>IoService\<close> hands to it on Windows: lengths are cast to \<^verbatim>\<open>ULONG\<close>, messages are not wrapped.\<close>

fun on_windows :: "int \<times> error_code \<Rightarrow> 'p io_request \<Rightarrow> port_request" where
  "on_windows opened (WriteFileReq fd b n off) = PWriteFile fd b n off"
| "on_windows opened (ReadFileReq fd b n off) = PReadFile fd b n off"
| "on_windows opened (AcceptReq fd) = PAccept fd opened"
| "on_windows opened (ConnectReq fd a) = PConnect fd a"
| "on_windows opened (SendReq fd b n) = PSend fd b n"
| "on_windows opened (ReceiveReq fd b n) = PReceive fd b n"
| "on_windows opened (SendToReq fd a b n) = PSendTo fd a b n"
| "on_windows opened (ReceiveFromReq fd b n) = PReceiveFrom fd b n"

fun small_request :: "'p io_request \<Rightarrow> bool" where
  "small_request (WriteFileReq fd b n off) \<longleftrightarrow> n < 2 ^ 32"
| "small_request (ReadFileReq fd b n off) \<longleftrightarrow> n < 2 ^ 32"
| "small_request (SendReq fd b n) \<longleftrightarrow> n < 2 ^ 32"
| "small_request (ReceiveReq fd b n) \<longleftrightarrow> n < 2 ^ 32"
| "small_request (SendToReq fd a b n) \<longleftrightarrow> False"
| "small_request (ReceiveFromReq fd b n) \<longleftrightarrow> False"
| "small_request _ \<longleftrightarrow> True"

lemma ulong_small: "n < 2 ^ 32 \<Longrightarrow> ulong n = n"
  by (simp add: ulong_def unat_of_nat take_bit_nat_eq_self)

lemma service_issue_port:
  "small_request req \<Longrightarrow>
   service_issue (port_interface peer opened err) req p s = Some (port_issue (on_windows opened req) err p s)"
  by (cases req) (simp_all add: port_interface_def svc_defs ulong_small Let_def split_def)

subsection \<open>A call of poll\<close>

lemma next_cqe_calls:
  assumes inv: "ring_inv s" and cq: "rg_cq s = e # es" and step: "next_cqe peername s = Some t"
  shows "map ca_ctx (rg_calls t) = map ca_ctx (rg_calls s) @ [cq_data e] \<and> ih_issued t = ih_issued s"
proof -
  have heap: "ring_heap_inv s" using inv by (simp add: ring_inv_def)
  have pend: "cq_data e \<in># pending_data s" by (simp add: pending_data_def cq)
  show ?thesis
  proof (cases "Suc 0 < cq_data e")
    case True
    then obtain c where "ih_ctx s (cq_data e) = Some c" using pending_alive(1) [OF inv pend] by blast
    with deliver_user [OF heap cq True this step] show ?thesis by auto
  next
    case False
    with deliver_internal [OF heap cq False step] show ?thesis by auto
  qed
qed

text \<open>The loop delivers every completion, in the order of the queue.\<close>

lemma ring_drain_delivers:
  "ring_inv s \<Longrightarrow> wake_up_fits s \<Longrightarrow> \<exists>t. ring_drain peername s = Some t \<and> ring_inv t \<and> rg_cq t = []
     \<and> map ca_ctx (rg_calls t) = map ca_ctx (rg_calls s) @ map cq_data (rg_cq s)"
proof (induction "rg_cq s" arbitrary: s)
  case Nil
  then show ?case by (simp add: ring_drain.simps)
next
  case (Cons e es)
  note cq = Cons.hyps(2) [symmetric]
  obtain u where u: "next_cqe peername s = Some u"
    using wake_up_fits_deliver(1) [OF Cons.prems(1) cq Cons.prems(2)] by blast
  have inv: "ring_inv u" using ring_inv_step [OF ring_step.deliver [OF u]] Cons.prems(1) by blast
  have es: "es = rg_cq u" using next_cqe_queue [OF u] cq by simp
  obtain t where "ring_drain peername u = Some t" "ring_inv t" "rg_cq t = []"
    "map ca_ctx (rg_calls t) = map ca_ctx (rg_calls u) @ map cq_data (rg_cq u)"
    using Cons.hyps(1) [OF es inv wake_up_fits_deliver(2) [OF Cons.prems(1) cq Cons.prems(2) u]] by blast
  then show ?case
    using next_cqe_calls [OF Cons.prems(1) cq u] by (simp add: ring_drain.simps [of _ s] cq u es)
qed

lemma ring_steps_keep:
  assumes "ring_steps peername s t" and "ring_inv s"
  shows "ring_inv t \<and> rg_entries t = rg_entries s"
  using assms
proof (induction rule: rtranclp_induct)
  case (step t u)
  then show ?case using ring_step_entries [OF step(2)] ring_inv_step [OF step(2)] by simp
qed simp

lemma ring_new_entries: "ring_new ok n = Inr (Some s) \<Longrightarrow> 0 < rg_entries s"
  by (auto simp: ring_new_def prep_wake_up_def put_sqe_def split: if_splits)

subsection \<open>What a service is\<close>

text \<open>
  The abstract service: operations are issued under new names, and each is called back at most once.
\<close>

record service_spec =
  sp_issued :: "nat list"
  sp_called :: "nat list"

definition spec_init :: service_spec where
  "spec_init = \<lparr>sp_issued = [], sp_called = []\<rparr>"

inductive spec_step :: "service_spec \<Rightarrow> service_spec \<Rightarrow> bool" where
  issue: "i \<notin> set (sp_issued a) \<Longrightarrow> spec_step a (a\<lparr>sp_issued := sp_issued a @ [i]\<rparr>)"
| call: "i \<in> set (sp_issued a) \<Longrightarrow> i \<notin> set (sp_called a) \<Longrightarrow> spec_step a (a\<lparr>sp_called := sp_called a @ [i]\<rparr>)"

inductive_simps spec_step_iff: "spec_step a b"

abbreviation spec_steps :: "service_spec \<Rightarrow> service_spec \<Rightarrow> bool" where
  "spec_steps \<equiv> spec_step\<^sup>*\<^sup>*"

definition spec_ok :: "service_spec \<Rightarrow> bool" where
  "spec_ok a \<longleftrightarrow> distinct (sp_issued a) \<and> distinct (sp_called a) \<and> set (sp_called a) \<subseteq> set (sp_issued a)"

interpretation sp: transition_system "\<lambda>a. a = spec_init" spec_step spec_ok
  by unfold_locales (auto simp: spec_init_def spec_ok_def spec_step_iff)

text \<open>
  A back end that refines it: a system with an abstraction of its states under which each of its steps is
  a few steps of the abstract service, or none.
\<close>

locale io_backend = transition_system initial step inv
  for initial :: "'s \<Rightarrow> bool" and step :: "'s \<Rightarrow> 's \<Rightarrow> bool" and inv :: "'s \<Rightarrow> bool" +
  fixes abs :: "'s \<Rightarrow> service_spec"
  assumes abs_initial: "initial s \<Longrightarrow> abs s = spec_init"
    and abs_step: "inv s \<Longrightarrow> step s t \<Longrightarrow> spec_steps (abs s) (abs t)"
begin

lemma refines:
  assumes "initial s" and "step\<^sup>*\<^sup>* s t"
  shows "spec_steps spec_init (abs t)"
  using assms(2)
proof (induction rule: rtranclp_induct)
  case base
  then show ?case using abs_initial [OF assms(1)] by simp
next
  case (step t u)
  then show ?case using abs_step [OF reachable_inv [OF assms(1) step(1)] step(2)] by (metis rtranclp_trans)
qed

lemma once: "initial s \<Longrightarrow> step\<^sup>*\<^sup>* s t \<Longrightarrow> spec_ok (abs t)"
  using refines sp.reachable_inv by blast

end

definition ring_abs :: "'p ring \<Rightarrow> service_spec" where
  "ring_abs s = \<lparr>sp_issued = ih_issued s, sp_called = filter (\<lambda>a. Suc 0 < a) (map ca_ctx (rg_calls s))\<rparr>"

definition port_abs :: "'p port \<Rightarrow> service_spec" where
  "port_abs s = \<lparr>sp_issued = ih_issued s, sp_called = map pc_ctx (pt_calls s)\<rparr>"

lemma ring_abs_initial: "ring_new ok n = Inr (Some s) \<Longrightarrow> ring_abs s = spec_init"
  by (auto simp: ring_new_def prep_wake_up_def put_sqe_def ring_abs_def spec_init_def split: if_splits)

lemma ring_issue_abs:
  assumes "ring_issue req p s = Some t"
  shows "ring_abs t = (ring_abs s)\<lparr>sp_issued := ih_issued s @ [ih_next s]\<rparr>"
proof -
  obtain ioc h prep where f: "fresh_ctx p ioc s h"
    and t: "t = h\<lparr>rg_io_num := rg_io_num s + 1, rg_sq := rg_sq s @ [\<lparr>sq_prep = prep, sq_data = ioc\<rparr>]\<rparr>"
    using issue_spec [OF assms] by blast
  have "h = s\<lparr>ih_ctx := ih_ctx h, ih_msg := ih_msg h, ih_next := ih_next h,
            ih_issued := ih_issued h, ih_user := ih_user h\<rparr>" (is "h = ?h")
    using f unfolding fresh_ctx_def by (elim conjE)
  then have "rg_calls h = rg_calls ?h" by simp
  then show ?thesis using f by (simp add: t ring_abs_def fresh_ctx_def)
qed

lemma ring_abs_step:
  assumes inv: "ring_inv s" and step: "ring_step peername s t"
  shows "spec_steps (ring_abs s) (ring_abs t)"
  using step
proof cases
  case (issue req p)
  have "ih_next s \<notin> set (ih_issued s)" using inv count_invD(5) by (auto simp: ring_inv_def)
  then have "spec_step (ring_abs s) (ring_abs t)"
    unfolding ring_issue_abs [OF issue] using spec_step.issue [of "ih_next s" "ring_abs s"] by (simp add: ring_abs_def)
  then show ?thesis by blast
next
  case deliver
  then obtain e es where cq: "rg_cq s = e # es" by (auto simp: next_cqe_def split: list.splits)
  note calls = next_cqe_calls [OF inv cq deliver]
  show ?thesis
  proof (cases "Suc 0 < cq_data e")
    case True
    have cnt: "ring_count_inv s" using inv by (simp add: ring_inv_def)
    have pend: "cq_data e \<in># user_data (pending_data s)" using True by (simp add: user_data_def pending_data_def cq)
    then have iss: "cq_data e \<in> set (ih_issued s)"
      unfolding set_mset_mset [symmetric] count_invD(6) [OF cnt] by simp
    have "count (pending_data s) (cq_data e) \<noteq> 0" by (simp add: pending_data_def cq)
    then have "count (mset (map ca_ctx (rg_calls s))) (cq_data e) = 0" using issued_once [OF cnt iss] by linarith
    then have "cq_data e \<notin># mset (map ca_ctx (rg_calls s))" by (simp only: not_in_iff)
    then have "spec_step (ring_abs s) (ring_abs t)"
      using spec_step.call [of "cq_data e" "ring_abs s"] iss calls True by (simp add: ring_abs_def)
    then show ?thesis by blast
  next
    case False
    then show ?thesis using calls by (simp add: ring_abs_def)
  qed
qed (auto simp: ring_abs_def ring_cancel_def put_sqe_def ring_wake_up_def ring_poll_def ring_submit_def Let_def split: if_splits)

interpretation rgb: io_backend "\<lambda>s. ring_new ok n = Inr (Some s)" "ring_step peername" ring_inv ring_abs
  for ok n peername
  by unfold_locales (auto intro: ring_abs_initial ring_abs_step)

lemma port_abs_initial: "port_init ec a c g h = Inr s \<Longrightarrow> port_abs s = spec_init"
  by (auto simp: port_init_def port_new_def port_abs_def spec_init_def split: if_splits)

lemma port_issue_abs:
  assumes inv: "port_inv s"
  shows "spec_steps (port_abs s) (port_abs (port_issue req err p s))"
proof -
  let ?t = "port_issue req err p s" and ?i = "ih_next s"
  let ?u = "(port_abs s)\<lparr>sp_issued := ih_issued s @ [?i]\<rparr>"
  have st: "started p s ?t" by (rule issue_started)
  have new: "?i \<notin> set (ih_issued s)" using port_invD(4) [OF inv] by blast
  have first: "spec_step (port_abs s) ?u"
    using spec_step.issue [of ?i "port_abs s"] new by (simp add: port_abs_def)
  have "?i \<notin># port_called s" using port_invD(2) [OF inv] new by (metis set_mset_mset union_iff)
  then have "?i \<notin> pc_ctx ` set (pt_calls s)" by (simp add: port_called_def)
  then have second: "spec_step ?u (?u\<lparr>sp_called := map pc_ctx (pt_calls s) @ [?i]\<rparr>)"
    using spec_step.call [of ?i ?u] by (simp add: port_abs_def)
  have "port_abs ?t = ?u \<or> port_abs ?t = ?u\<lparr>sp_called := map pc_ctx (pt_calls s) @ [?i]\<rparr>"
    using st by (auto simp: started_def port_abs_def)
  then show ?thesis using first second by (metis r_into_rtranclp rtranclp.rtrancl_into_rtrancl)
qed

lemma port_take_abs:
  assumes inv: "port_inv s"
  shows "spec_steps (port_abs s) (port_abs (snd (port_take peer ec s)))"
proof (cases "\<exists>pk pks ioc. pt_queue s = pk # pks \<and> pk_bytes pk \<noteq> ulong_max \<and> pk_ctx pk = Some ioc")
  case True
  then obtain pk pks ioc where q: "pt_queue s = pk # pks" "pk_bytes pk \<noteq> ulong_max" "pk_ctx pk = Some ioc" by blast
  have pend: "ioc \<in># port_pending s" by (simp add: port_pending_def q List.map_filter_simps)
  then obtain c where c: "ih_ctx s ioc = Some c" using port_invD(1) [OF inv] by blast
  let ?s = "s\<lparr>pt_queue := pks, pt_io_num := pt_io_num s - 1\<rparr>"
  have "ih_ctx ?s ioc = Some c" using c by simp
  note frame = finish_frame [OF this, of peer "pk_bytes pk" "pk_err pk"]
  have abs: "port_abs (snd (port_take peer ec s)) = (port_abs s)\<lparr>sp_called := map pc_ctx (pt_calls s) @ [ioc]\<rparr>"
    using frame by (simp add: port_take_def q port_cb_def port_abs_def Let_def)
  from port_once [OF inv pend] have "ioc \<notin># port_called s" "ioc \<in># mset (ih_issued s)" by simp_all
  then have "spec_step (port_abs s) (port_abs (snd (port_take peer ec s)))"
    unfolding abs using spec_step.call [of ioc "port_abs s"] by (simp add: port_abs_def port_called_def)
  then show ?thesis by blast
next
  case False
  then have "port_abs (snd (port_take peer ec s)) = port_abs s"
    by (auto simp: port_take_def port_abs_def Let_def split: list.splits option.splits)
  then show ?thesis by simp
qed

lemma port_abs_step:
  assumes inv: "port_inv s" and step: "port_step peer s t"
  shows "spec_steps (port_abs s) (port_abs t)"
  using step
proof cases
  case (issue req err p)
  then show ?thesis using port_issue_abs [OF inv] by simp
next
  case (deliver ec)
  then show ?thesis using port_take_abs [OF inv] by simp
qed (auto simp: port_abs_def port_wake_up_def)

interpretation ptb: io_backend "\<lambda>s. port_init ec a c g h = Inr s" "port_step peer" port_inv port_abs
  for ec a c g h peer
  by unfold_locales (auto intro: port_abs_initial port_abs_step)

subsection \<open>Properties\<close>

text \<open>
  Property C9: both classes implement the interface. Whatever the callers, the system and the other
  threads do, in any order, the history of either service is a history of the abstract service, which
  issues operations under new names and calls each of them back at most once; and calling through
  the interface's table is what the back ends' own theories take as issuing an operation.
\<close>

theorem backends_refine_service:
  assumes "ring_new ok n = Inr (Some r\<^sub>0)" and "ring_steps peername r\<^sub>0 r"
    and "port_init socket_ec ac cc gc handle = Inr p\<^sub>0" and "(port_step peer)\<^sup>*\<^sup>* p\<^sub>0 p"
  shows "spec_steps spec_init (ring_abs r) \<and> spec_ok (ring_abs r)
    \<and> spec_steps spec_init (port_abs p) \<and> spec_ok (port_abs p)
    \<and> service_issue (ring_interface peername) req ptr r = ring_issue req ptr r
    \<and> (small_request req \<longrightarrow> service_issue (port_interface peer opened err) req ptr p
         = Some (port_issue (on_windows opened req) err ptr p))"
  using rgb.refines [OF assms(1,2)] rgb.once [OF assms(1,2)] ptb.refines [OF assms(3,4)] ptb.once [OF assms(3,4)]
  by (simp add: service_issue_ring service_issue_port)

theorem backends_refine_service_witness:
  "spec_steps spec_init (ring_abs failed_send_ring) \<and> sp_called (ring_abs failed_send_ring) = [2]
   \<and> spec_steps spec_init (port_abs failed_port) \<and> sp_called (port_abs failed_port) = [0]"
proof -
  have st: "(port_step (\<lambda>_. []))\<^sup>*\<^sup>* port_new failed_port"
    unfolding failed_port_def by (rule r_into_rtranclp) (rule port_step.issue)
  have "sp_called (ring_abs failed_send_ring) = [2]" by (simp add: ring_abs_def failed_send_ring_def demo_ring_def)
  moreover have "sp_called (port_abs failed_port) = [0]"
    by (simp add: port_abs_def failed_port_def port_new_def svc_read_file_def new_ctx_def io_buf_def blank_ctx_def
        port_op_defs)
  ultimately show ?thesis
    using backends_refine_service [OF demo_ring_new ring_schedule_steps [OF failed_send_run] port_init_new st,
        where req = "AcceptReq 3" and ptr = "''user''" and err = None and opened = "(0, no_error)"
          and peername = "\<lambda>_. []"] by blast
qed

text \<open>
  A call of \<^verbatim>\<open>IoUring::poll\<close> delivers everything. In any state the code can reach, when it
  does not return at once and the wait succeeds, the call never dereferences a null entry, returns 1,
  leaves the completion queue empty, and has run the callbacks of exactly the completions that were there
  when the kernel was done, in their order. \<open>work\<close> is what the kernel does during the wait.
\<close>

theorem ring_poll_delivers:
  assumes "ring_new ok n = Inr (Some s\<^sub>0)" and "ring_steps peername s\<^sub>0 s"
    and "nanosec \<noteq> 0 \<or> rg_io_num s \<noteq> 0" and "0 \<le> r"
    and "ring_steps peername (ring_submit s) (work (ring_submit s))" and "rg_sq (work (ring_submit s)) = []"
  shows "\<exists>t. svc_poll (ring_interface peername) (work, r) nanosec ec s = Some ((1, ec), t) \<and> rg_cq t = []
     \<and> map ca_ctx (rg_calls t)
         = map ca_ctx (rg_calls (work (ring_submit s))) @ map cq_data (rg_cq (work (ring_submit s)))"
proof -
  let ?k = "work (ring_submit s)"
  note s = ring_steps_keep [OF assms(2) ring_inv_new [OF assms(1)]]
  have "ring_step peername s (snd (ring_poll 1 0 ec s))" by (rule ring_step.poll)
  then have "ring_step peername s (ring_submit s)"
    by (simp add: ring_poll_def etime_def eagain_def eintr_def Let_def)
  then have "ring_steps peername s ?k" using assms(5) by (rule converse_rtranclp_into_rtranclp)
  from ring_steps_keep [OF this] s ring_new_entries [OF assms(1)]
  have "ring_inv ?k" "wake_up_fits ?k" using assms(6) by (simp_all add: wake_up_fits_def)
  moreover have "ring_poll nanosec r ec s = (PollDelivers, ring_submit s)"
    using assms(3,4) by (auto simp: ring_poll_def etime_def eagain_def eintr_def Let_def)
  ultimately show ?thesis
    using ring_drain_delivers [of ?k peername] by (auto simp: svc_poll_def ring_interface_def ring_poll_call_def)
qed

theorem ring_poll_delivers_witness:
  "\<exists>t. svc_poll (ring_interface (\<lambda>_. [])) (\<lambda>s. s, 0) 5 no_error demo_ring = Some ((1, no_error), t) \<and> rg_cq t = []"
  using ring_poll_delivers [OF demo_ring_new rtranclp.rtrancl_refl, where peername = "\<lambda>_. []" and nanosec = 5
      and work = "\<lambda>s. s" and r = 0 and ec = no_error] by (auto simp: ring_submit_def)

end
