(* ===== verification/Thread_Contexts.thy ===== *)
theory Thread_Contexts
  imports Coro_Context
begin

section \<open>The context of a thread (core/this_context.h, core/impl/this_context.hpp, utils/current_thread.h)\<close>

text \<open>
  \<^verbatim>\<open>LocalContext\<close> is a thread-local pointer: the constructor of \<^verbatim>\<open>CoroContext\<close> sets it, nothing resets
  it, and the functions of \<^verbatim>\<open>this_context\<close> go through it without a test. This theory has the threads with
  their pointers, the contexts by address, and every function of \<^verbatim>\<open>this_context\<close>; a null or dangling pointer
  is a fault.
\<close>

subsection \<open>The number of a thread\<close>

text \<open>
  \<^verbatim>\<open>CurrentThread::get_id\<close> prints \<^verbatim>\<open>std::this_thread::get_id()\<close> into a stream and reads a \<^verbatim>\<open>size_t\<close> back. The
  reading: decimal digits up to the first other character; 0 when there is none; the largest
  value when it does not fit.
\<close>

definition is_digit :: "char \<Rightarrow> bool" where
  "is_digit c \<longleftrightarrow> of_char c \<ge> (48 :: nat) \<and> of_char c \<le> (57 :: nat)"

fun digits_value :: "nat \<Rightarrow> string \<Rightarrow> nat" where
  "digits_value acc [] = acc"
| "digits_value acc (c # cs) = (if is_digit c then digits_value (10 * acc + (of_char c - 48)) cs else acc)"

definition read_size_t :: "string \<Rightarrow> nat" where
  "read_size_t s = min (digits_value 0 s) (2 ^ 64 - 1)"

definition get_id :: "(thread_id \<Rightarrow> string) \<Rightarrow> thread_id \<Rightarrow> nat" where
  "get_id print_id me = read_size_t (print_id me)"

text \<open>What the stream gets when the system's number of a thread is printed in decimal.\<close>

fun decimal :: "nat \<Rightarrow> string" where
  "decimal n = (if n < 10 then [char_of (48 + n)] else decimal (n div 10) @ [char_of (48 + n mod 10)])"

declare decimal.simps [simp del]

lemma digit_char [simp]: "(d :: nat) < 10 \<Longrightarrow> of_char (char_of (48 + d) :: char) = 48 + d"
  by (simp add: of_char_of)

lemma is_digit_char [simp]: "(d :: nat) < 10 \<Longrightarrow> is_digit (char_of (48 + d))"
  by (simp add: is_digit_def)

lemma digits_value_append:
  "list_all is_digit xs \<Longrightarrow> digits_value acc (xs @ ys) = digits_value (digits_value acc xs) ys"
  by (induction xs arbitrary: acc) simp_all

lemma decimal_digits: "list_all is_digit (decimal n)"
proof (induction n rule: decimal.induct)
  case (1 n)
  then show ?case by (subst decimal.simps) simp
qed

lemma digits_value_decimal: "digits_value 0 (decimal n) = n"
proof (induction n rule: decimal.induct)
  case (1 n)
  show ?case
  proof (cases "n < 10")
    case False
    with 1 show ?thesis by (subst decimal.simps) (simp add: digits_value_append decimal_digits)
  qed (subst decimal.simps, simp)
qed

lemma get_id_decimal: "print_id me = decimal n \<Longrightarrow> n < 2 ^ 64 \<Longrightarrow> get_id print_id me = n"
  by (simp add: get_id_def read_size_t_def digits_value_decimal)

text \<open>
  Threads that the system tells apart are told apart by \<^verbatim>\<open>get_id\<close>, as long as it prints decimal numbers of 64
  bits; were they printed in another form, all threads would be number 0.
\<close>

lemma get_id_distinct:
  assumes "\<And>t. print_id t = decimal (native t)" and "\<And>t. native t < 2 ^ 64" and "inj native"
  shows "inj (get_id print_id)"
  using assms by (auto simp: inj_def get_id_decimal)

lemma get_id_not_decimal: "\<not> is_digit c \<Longrightarrow> print_id me = c # cs \<Longrightarrow> get_id print_id me = 0"
  by (simp add: get_id_def read_size_t_def)

subsection \<open>Threads and their contexts\<close>

text \<open>
  \<open>th_local\<close> is \<^verbatim>\<open>LocalContext\<close> of every thread, \<open>th_ctx\<close> the contexts that exist, by address;
  \<open>th_made\<close> records which thread constructed which context.
\<close>

record 't threads =
  th_local :: "thread_id \<Rightarrow> nat option"
  th_ctx :: "nat \<rightharpoonup> 't ctx"
  th_next :: nat
  th_made :: "(thread_id \<times> nat) list"

datatype local_fault = NullContext | DestroyedContext | ProcessEnds fatal

definition threads_init :: "'t threads" where
  "threads_init = \<lparr>th_local = (\<lambda>_. None), th_ctx = Map.empty, th_next = 0, th_made = []\<rparr>"

definition make_context :: "thread_id \<Rightarrow> nanos \<Rightarrow> size_t \<Rightarrow> 't threads \<Rightarrow> (nat \<times> 't threads) checked" where
  "make_context me now entries s =
     (let c = th_next s
      in bind_checked (ctx_new (th_local s me \<noteq> None) me now entries)
           (\<lambda>x. Inr (c, s\<lparr>th_local := (th_local s)(me := Some c), th_ctx := (th_ctx s)(c \<mapsto> x), th_next := Suc c,
                          th_made := th_made s @ [(me, c)]\<rparr>)))"

text \<open>The destructor is the implicit one: it destroys the members and leaves \<^verbatim>\<open>LocalContext\<close> alone.\<close>

definition destroy_context :: "nat \<Rightarrow> 't threads \<Rightarrow> 't threads" where
  "destroy_context c s = s\<lparr>th_ctx := (th_ctx s)(c := None)\<rparr>"

text \<open>\<^verbatim>\<open>LocalContext->f(...)\<close>\<close>

definition on_local ::
  "thread_id \<Rightarrow> ('t ctx \<Rightarrow> ('a \<times> 't ctx) checked) \<Rightarrow> 't threads \<Rightarrow> local_fault + 'a \<times> 't threads" where
  "on_local me f s =
     (case th_local s me of
        None \<Rightarrow> Inl NullContext
      | Some c \<Rightarrow>
          (case th_ctx s c of
             None \<Rightarrow> Inl DestroyedContext
           | Some x \<Rightarrow> (case f x of Inl e \<Rightarrow> Inl (ProcessEnds e)
                      | Inr (v, y) \<Rightarrow> Inr (v, s\<lparr>th_ctx := (th_ctx s)(c \<mapsto> y)\<rparr>))))"

definition no_value :: "'t ctx checked \<Rightarrow> (unit \<times> 't ctx) checked" where
  "no_value r = map_sum id (Pair ()) r"

text \<open>\<open>run\<close> is what \<^verbatim>\<open>start\<close> leads to, or a task or a coroutine that is run in place.\<close>

definition this_start where
  "this_start me run s = on_local me (\<lambda>x. no_value (run x)) s"

definition this_stop :: "thread_id \<Rightarrow> 't threads \<Rightarrow> local_fault + unit \<times> 't threads" where
  "this_stop me s = on_local me (\<lambda>x. no_value (ctx_stop me x)) s"

definition this_execute :: "thread_id \<Rightarrow> 't \<Rightarrow> 't threads \<Rightarrow> local_fault + unit \<times> 't threads" where
  "this_execute me task s = on_local me (\<lambda>x. no_value (Inr (ctx_execute me task x))) s"

definition this_dispatch where
  "this_dispatch me run task s = on_local me (\<lambda>x. no_value (ctx_dispatch me run task x)) s"

definition this_wake_in_context where
  "this_wake_in_context me run h s = on_local me (\<lambda>x. no_value (wake_in_context me run h x)) s"

definition this_queue_in_context :: "thread_id \<Rightarrow> 't \<Rightarrow> 't threads \<Rightarrow> local_fault + unit \<times> 't threads" where
  "this_queue_in_context me h s = on_local me (\<lambda>x. no_value (Inr (queue_in_context me h x))) s"

definition this_expires_after :: "thread_id \<Rightarrow> nanos \<Rightarrow> 't \<Rightarrow> 't threads \<Rightarrow> local_fault + nat \<times> 't threads" where
  "this_expires_after me dur task s = on_local me (\<lambda>x. Inr (expires_after dur task x)) s"

definition this_expires_until :: "thread_id \<Rightarrow> nanos \<Rightarrow> 't \<Rightarrow> 't threads \<Rightarrow> local_fault + nat \<times> 't threads" where
  "this_expires_until me tp task s = on_local me (\<lambda>x. Inr (expires_until tp task x)) s"

text \<open>\<^verbatim>\<open>get_service\<close>: a context owns its service, so the context's address stands for it.\<close>

definition this_get_service :: "thread_id \<Rightarrow> 't threads \<Rightarrow> local_fault + nat \<times> 't threads" where
  "this_get_service me s = on_local me (\<lambda>x. Inr (the (th_local s me), x)) s"

lemmas this_defs = this_start_def this_stop_def this_execute_def this_dispatch_def this_wake_in_context_def
  this_queue_in_context_def this_expires_after_def this_expires_until_def this_get_service_def

subsection \<open>Steps\<close>

text \<open>
  A thread constructs a context, anybody destroys one, a thread calls something of \<^verbatim>\<open>this_context\<close> or,
  by address, of any context that exists. No call changes which thread a context belongs to.
\<close>

definition keeps_thread :: "('t ctx \<Rightarrow> ('a \<times> 't ctx) checked) \<Rightarrow> bool" where
  "keeps_thread f \<longleftrightarrow> (\<forall>x v y. f x = Inr (v, y) \<longrightarrow> cx_thread y = cx_thread x)"

inductive thread_step :: "'t threads \<Rightarrow> 't threads \<Rightarrow> bool" where
  make: "make_context me now entries s = Inr (c, t) \<Longrightarrow> thread_step s t"
| destroy: "thread_step s (destroy_context c s)"
| local_call: "keeps_thread f \<Longrightarrow> on_local me f s = Inr ((), t) \<Longrightarrow> thread_step s t"
| local_timer: "keeps_thread f \<Longrightarrow> on_local me f s = Inr (v :: nat, t) \<Longrightarrow> thread_step s t"
| call: "th_ctx s c = Some x \<Longrightarrow> do_call k x = Inr y \<Longrightarrow> thread_step s (s\<lparr>th_ctx := (th_ctx s)(c \<mapsto> y)\<rparr>)"

lemma no_value_Inr [simp]: "no_value r = Inr (v, y) \<longleftrightarrow> r = Inr y"
  by (cases r) (simp_all add: no_value_def)

lemma keeps_thread_call:
  "(\<And>x y. run x = Inr y \<Longrightarrow> cx_thread y = cx_thread x) \<Longrightarrow> keeps_thread (\<lambda>x. no_value (run x))"
  by (simp add: keeps_thread_def)

lemma keeps_thread_this:
  "keeps_thread (\<lambda>x. no_value (ctx_stop me x))"
  "keeps_thread (\<lambda>x. no_value (Inr (ctx_execute me task x)))"
  "keeps_thread (\<lambda>x. no_value (Inr (queue_in_context me task x)))"
  "keeps_thread (\<lambda>x. Inr (expires_after dur task x))"
  "keeps_thread (\<lambda>x. Inr (expires_until tp task x))"
  by (auto simp: keeps_thread_def ctx_stop_def queue_in_context_def ctx_execute_def execute_push_def
      ctx_wake_up_def expires_after_def expires_until_def Let_def split_def split: if_splits)

lemma keeps_thread_start: "ctx_start me prog poll x = Some (Inr y) \<Longrightarrow> batch_ok [] x \<Longrightarrow> cx_thread y = cx_thread x"
  using ctx_start_loop [of x me prog poll y] by (simp add: loop_inv_def keeps_def)

text \<open>
  Every thread has made at most one context, its pointer is that one from then on, and a context that
  exists belongs to the thread that made it.
\<close>

definition threads_inv :: "'t threads \<Rightarrow> bool" where
  "threads_inv s \<longleftrightarrow> distinct (map fst (th_made s)) \<and> distinct (map snd (th_made s))
     \<and> (\<forall>me. th_local s me = map_of (th_made s) me)
     \<and> (\<forall>c \<in> snd ` set (th_made s). c < th_next s)
     \<and> (\<forall>c x. th_ctx s c = Some x \<longrightarrow> (cx_thread x, c) \<in> set (th_made s))"

lemma threads_invD:
  assumes "threads_inv s"
  shows "distinct (map fst (th_made s))" "distinct (map snd (th_made s))" "th_local s me = map_of (th_made s) me"
    "c \<in> snd ` set (th_made s) \<Longrightarrow> c < th_next s" "th_ctx s c = Some x \<Longrightarrow> (cx_thread x, c) \<in> set (th_made s)"
  using assms unfolding threads_inv_def by blast+

lemma make_context_Inr:
  assumes "make_context me now entries s = Inr (c, t)"
  obtains x where "c = th_next s" "th_local s me = None" "cx_thread x = me"
    "t = s\<lparr>th_local := (th_local s)(me := Some c), th_ctx := (th_ctx s)(c \<mapsto> x), th_next := Suc c,
           th_made := th_made s @ [(me, c)]\<rparr>"
proof -
  obtain x where x: "ctx_new (th_local s me \<noteq> None) me now entries = Inr x"
    and eq: "c = th_next s" "t = s\<lparr>th_local := (th_local s)(me := Some c), th_ctx := (th_ctx s)(c \<mapsto> x), th_next := Suc c,
           th_made := th_made s @ [(me, c)]\<rparr>"
    using assms by (auto simp: make_context_def Let_def bind_checked_Inr)
  from x have "th_local s me = None" "cx_thread x = me" by (auto simp: ctx_new_def split: if_splits)
  with eq show ?thesis using that by blast
qed

lemma on_local_Inr:
  assumes "on_local me f s = Inr (v, t)"
  obtains c x y where "th_local s me = Some c" "th_ctx s c = Some x" "f x = Inr (v, y)"
    "t = s\<lparr>th_ctx := (th_ctx s)(c \<mapsto> y)\<rparr>"
  using assms by (auto simp: on_local_def split: option.splits sum.splits)

lemma threads_inv_update:
  assumes "threads_inv s" and "th_ctx s c = Some x" and "cx_thread y = cx_thread x"
  shows "threads_inv (s\<lparr>th_ctx := (th_ctx s)(c \<mapsto> y)\<rparr>)"
  using assms by (auto simp: threads_inv_def split: if_splits)

lemma threads_inv_make:
  assumes inv: "threads_inv s" and make: "make_context me now entries s = Inr (c, t)"
  shows "threads_inv t"
proof -
  obtain x where x: "c = th_next s" "th_local s me = None" "cx_thread x = me"
    "t = s\<lparr>th_local := (th_local s)(me := Some c), th_ctx := (th_ctx s)(c \<mapsto> x), th_next := Suc c,
           th_made := th_made s @ [(me, c)]\<rparr>" by (rule make_context_Inr [OF make])
  note D = threads_invD [OF inv]
  have new: "me \<notin> fst ` set (th_made s)" using D(3) [of me] x(2) by (metis map_of_eq_None_iff)
  have "c \<notin> snd ` set (th_made s)" using D(4) x(1) by (metis less_irrefl)
  then have "distinct (map fst (th_made t))" "distinct (map snd (th_made t))" using D(1,2) new by (simp_all add: x)
  moreover have "th_local t you = map_of (th_made t) you" for you
    using D(3) [of you] D(3) [of me] x(2) by (auto simp: x map_add_def split: option.splits)
  moreover have "\<forall>d \<in> snd ` set (th_made t). d < th_next t" using D(4) by (auto simp: x less_Suc_eq)
  moreover have "\<forall>d y. th_ctx t d = Some y \<longrightarrow> (cx_thread y, d) \<in> set (th_made t)" using D(5) by (auto simp: x)
  ultimately show ?thesis unfolding threads_inv_def by blast
qed

interpretation tc: transition_system "\<lambda>s. s = threads_init" thread_step threads_inv
proof unfold_locales
  show "s = threads_init \<Longrightarrow> threads_inv s" for s :: "'a threads" by (simp add: threads_init_def threads_inv_def)
  fix s t :: "'a threads" assume inv: "threads_inv s" and "thread_step s t"
  from this(2) show "threads_inv t"
  proof cases
    case (make me now entries c)
    then show ?thesis by (rule threads_inv_make [OF inv])
  next
    case (destroy c)
    then show ?thesis using inv by (auto simp: threads_inv_def destroy_context_def split: if_splits)
  next
    case (local_call f me)
    then show ?thesis
      using threads_inv_update [OF inv] by (elim on_local_Inr) (auto simp: keeps_thread_def)
  next
    case (local_timer f me v)
    then show ?thesis
      using threads_inv_update [OF inv] by (elim on_local_Inr) (auto simp: keeps_thread_def)
  next
    case (call c x k y)
    then show ?thesis using threads_inv_update [OF inv call(2), of y] do_call_spec [OF call(3)] by (simp add: keeps_def)
  qed
qed

subsection \<open>Properties\<close>

text \<open>Thread 1 makes a context and submits a task to it; the context is destroyed.\<close>

definition demo_thread_ctx :: "string ctx" where
  "demo_thread_ctx = \<lparr>cx_state = CtxStopping, cx_thread = 1, cx_pending = [], cx_timers = tq_empty,
                cx_now = 7, cx_wakes = 0, cx_submitted = [], cx_ran = [], cx_fired = []\<rparr>"

definition demo_threads :: "string threads" where
  "demo_threads = \<lparr>th_local = (\<lambda>_. None)(1 := Some 0), th_ctx = [0 \<mapsto> demo_thread_ctx], th_next = 1, th_made = [(1, 0)]\<rparr>"

lemma demo_make: "make_context 1 7 8 threads_init = Inr (0, demo_threads)"
  by (simp add: make_context_def ctx_new_def threads_init_def demo_threads_def demo_thread_ctx_def Let_def)

text \<open>
  Property C31: \<^verbatim>\<open>this_context\<close> is the context of the calling thread. In every reachable state a thread has made
  at most one context; its pointer is null before and that context ever after; a function of
  \<^verbatim>\<open>this_context\<close> changes that context only, and \<^verbatim>\<open>assert_in_context_thread\<close> holds on this
  thread only. Once the context is destroyed the pointer dangles: every function of \<^verbatim>\<open>this_context\<close>
  uses a destroyed object, and the thread can never have a context again.
\<close>

theorem this_context_is_own:
  assumes "thread_step\<^sup>*\<^sup>* threads_init s"
  shows "case th_local s me of
     None \<Rightarrow> me \<notin> fst ` set (th_made s) \<and> on_local me f s = Inl NullContext
   | Some c \<Rightarrow> (\<forall>you d. (you, d) \<in> set (th_made s) \<longrightarrow> (you = me \<longleftrightarrow> d = c))
       \<and> make_context me now entries s = Inl (Fatal ''This thread already has a context'')
       \<and> (case th_ctx s c of
            None \<Rightarrow> on_local me f s = Inl DestroyedContext
          | Some x \<Rightarrow> (\<forall>you. assert_in_context_thread you x \<longleftrightarrow> you = me)
              \<and> (\<forall>v t. on_local me f s = Inr (v, t) \<longrightarrow> (\<exists>y. f x = Inr (v, y) \<and> t = s\<lparr>th_ctx := (th_ctx s)(c \<mapsto> y)\<rparr>)))"
proof -
  note D = threads_invD [OF tc.reachable_inv [OF refl assms]]
  show ?thesis
  proof (cases "th_local s me")
    case None
    then show ?thesis using D(3) [of me] by (simp add: on_local_def) (metis map_of_eq_None_iff)
  next
    case (Some c)
    then have made: "(me, c) \<in> set (th_made s)" using D(3) [of me] by (metis map_of_SomeD)
    have own: "you = me \<longleftrightarrow> d = c" if "(you, d) \<in> set (th_made s)" for you d
      using that made D(1,2) by (metis eq_key_imp_eq_value map_of_eq_Some_iff Some D(3) distinct_map fst_conv inj_on_contraD snd_conv)
    have twice: "make_context me now entries s = Inl (Fatal ''This thread already has a context'')"
      by (simp add: make_context_def ctx_new_def Some Let_def)
    show ?thesis
    proof (cases "th_ctx s c")
      case None
      then show ?thesis using own twice by (simp add: Some on_local_def)
    next
      case (Some x)
      have "cx_thread x = me" using own D(5) [OF Some] by blast
      then show ?thesis
        using own twice Some \<open>th_local s me = Some c\<close>
        by (auto simp: assert_in_context_thread_def elim!: on_local_Inr)
    qed
  qed
qed

theorem this_context_is_own_witness:
  "this_execute 1 ''task'' (destroy_context 0 demo_threads) = Inl DestroyedContext
   \<and> make_context 1 9 8 (destroy_context 0 demo_threads) = Inl (Fatal ''This thread already has a context'')"
proof -
  have "thread_step threads_init demo_threads" using demo_make by (rule thread_step.make)
  then have "thread_step\<^sup>*\<^sup>* threads_init (destroy_context 0 demo_threads)"
    using thread_step.destroy [of demo_threads 0] by (metis r_into_rtranclp rtranclp.rtrancl_into_rtrancl)
  from this_context_is_own [OF this, of 1 "\<lambda>x. no_value (Inr (ctx_execute 1 ''task'' x))" 9 8]
  show ?thesis by (simp add: this_execute_def destroy_context_def demo_threads_def)
qed

end
