(* ===== verification/Coro_Objects.thy ===== *)
theory Coro_Objects
  imports Magio_Prelude
begin

section \<open>Coro as an object, and its specialisation for void (core/coro.h)\<close>

text \<open>
  The theory of the frames follows coroutines that are called and awaited or spawned in one expression. Here
  is \<^verbatim>\<open>Coro\<close> as a class: an object that can be moved into another, assigned, dropped and spawned later.
  The class exists twice in the source, as the template and as its specialisation for \<^verbatim>\<open>void\<close>; both are
  modelled, the contract of either is a locale, and their promises are compared.
\<close>

subsection \<open>Promises\<close>

text \<open>
  \<^verbatim>\<open>promise_type::storage\<close> of both, and the rest of the promise. A completion handler is a number; what it
  is called with is a pair of an optional exception and a value.
\<close>

datatype ('v, 'e) value_storage = NoValue | HasValue 'v | HasExn 'e
datatype 'e void_storage = VoidEmpty | VoidExn 'e

record 'st coro_promise =
  pm_launched :: bool
  pm_prev :: "nat option"
  pm_storage :: 'st
  pm_callback :: "nat option"

definition fresh_promise :: "'st \<Rightarrow> 'st coro_promise" where
  "fresh_promise st = \<lparr>pm_launched = False, pm_prev = None, pm_storage = st, pm_callback = None\<rparr>"

text \<open>The template: \<^verbatim>\<open>return_value\<close>, \<^verbatim>\<open>unhandled_exception\<close>, what \<^verbatim>\<open>await_resume\<close> gives or throws, and
  what \<^verbatim>\<open>FinalSuspend\<close> gives the handler (\<^verbatim>\<open>{}\<close> is the value \<open>v0\<close>); \<open>None\<close> is the exception of \<^verbatim>\<open>std::get\<close>.\<close>

definition return_value :: "'v \<Rightarrow> ('v, 'e) value_storage coro_promise \<Rightarrow> ('v, 'e) value_storage coro_promise" where
  "return_value v p = p\<lparr>pm_storage := HasValue v\<rparr>"

definition value_unhandled :: "'e \<Rightarrow> ('v, 'e) value_storage coro_promise \<Rightarrow> ('v, 'e) value_storage coro_promise" where
  "value_unhandled e p = p\<lparr>pm_storage := HasExn e\<rparr>"

definition value_resume :: "('v, 'e) value_storage coro_promise \<Rightarrow> ('e + 'v) option" where
  "value_resume p = (case pm_storage p of HasExn e \<Rightarrow> Some (Inl e) | HasValue v \<Rightarrow> Some (Inr v) | NoValue \<Rightarrow> None)"

definition value_completion :: "'v \<Rightarrow> ('v, 'e) value_storage coro_promise \<Rightarrow> ('e option \<times> 'v) option" where
  "value_completion v0 p =
     (case pm_storage p of HasExn e \<Rightarrow> Some (Some e, v0) | HasValue v \<Rightarrow> Some (None, v) | NoValue \<Rightarrow> None)"

text \<open>The specialisation.\<close>

definition return_void :: "'e void_storage coro_promise \<Rightarrow> 'e void_storage coro_promise" where
  "return_void p = p"

definition void_unhandled :: "'e \<Rightarrow> 'e void_storage coro_promise \<Rightarrow> 'e void_storage coro_promise" where
  "void_unhandled e p = p\<lparr>pm_storage := VoidExn e\<rparr>"

definition void_resume :: "'e void_storage coro_promise \<Rightarrow> ('e + unit) option" where
  "void_resume p = (case pm_storage p of VoidExn e \<Rightarrow> Some (Inl e) | VoidEmpty \<Rightarrow> Some (Inr ()))"

definition void_completion :: "'e void_storage coro_promise \<Rightarrow> ('e option \<times> unit) option" where
  "void_completion p = (case pm_storage p of VoidExn e \<Rightarrow> Some (Some e, ()) | VoidEmpty \<Rightarrow> Some (None, ()))"

subsection \<open>Objects\<close>

text \<open>
  The frames that exist, by address, and \<^verbatim>\<open>CoroNum\<close>. A \<^verbatim>\<open>Coro\<close> is its handle, which may be null; to reach
  a promise through a null or dangling handle is \<open>None\<close>.
\<close>

record 'st co_world =
  cw_promise :: "nat \<rightharpoonup> 'st coro_promise"
  cw_next :: nat
  cw_num :: size_t

definition with_promise :: "nat option \<Rightarrow> ('st coro_promise \<Rightarrow> 'st coro_promise) \<Rightarrow> 'st co_world \<Rightarrow> 'st co_world option" where
  "with_promise h f w =
     (case h of None \<Rightarrow> None
      | Some a \<Rightarrow> (case cw_promise w a of None \<Rightarrow> None
                  | Some p \<Rightarrow> Some (w\<lparr>cw_promise := (cw_promise w)(a \<mapsto> f p)\<rparr>)))"

definition destroy_frame :: "nat \<Rightarrow> 'st co_world \<Rightarrow> 'st co_world" where
  "destroy_frame a w = w\<lparr>cw_promise := (cw_promise w)(a := None), cw_num := cw_num w - 1\<rparr>"

text \<open>\<^verbatim>\<open>Coro<Return>\<close>\<close>

definition coro_get_return_object :: "('v, 'e) value_storage co_world \<Rightarrow> nat option \<times> ('v, 'e) value_storage co_world" where
  "coro_get_return_object w =
     (Some (cw_next w), w\<lparr>cw_num := cw_num w + 1, cw_next := Suc (cw_next w),
        cw_promise := (cw_promise w)(cw_next w \<mapsto> fresh_promise NoValue)\<rparr>)"

definition coro_dtor :: "nat option \<Rightarrow> ('v, 'e) value_storage co_world \<Rightarrow> ('v, 'e) value_storage co_world option" where
  "coro_dtor h w =
     (case h of None \<Rightarrow> Some w
      | Some a \<Rightarrow> (case cw_promise w a of None \<Rightarrow> None
                  | Some p \<Rightarrow> if \<not> pm_launched p then Some (destroy_frame a w) else Some w))"

definition coro_move_ctor :: "nat option \<Rightarrow> nat option \<times> nat option" where
  "coro_move_ctor other = (other, None)"

definition coro_move_assign :: "nat option \<Rightarrow> nat option \<Rightarrow> nat option \<times> nat option" where
  "coro_move_assign self other = (other, None)"

definition coro_handle :: "nat option \<Rightarrow> nat option" where
  "coro_handle h = h"

definition coro_launch :: "nat option \<Rightarrow> ('v, 'e) value_storage co_world \<Rightarrow> ('v, 'e) value_storage co_world option" where
  "coro_launch h w = with_promise h (\<lambda>p. p\<lparr>pm_launched := True\<rparr>) w"

definition coro_set_callback ::
  "nat \<Rightarrow> nat option \<Rightarrow> ('v, 'e) value_storage co_world \<Rightarrow> ('v, 'e) value_storage co_world option" where
  "coro_set_callback handler h w = with_promise h (\<lambda>p. p\<lparr>pm_callback := Some handler\<rparr>) w"

text \<open>\<^verbatim>\<open>Coro<void>\<close>\<close>

definition void_get_return_object :: "'e void_storage co_world \<Rightarrow> nat option \<times> 'e void_storage co_world" where
  "void_get_return_object w =
     (Some (cw_next w), w\<lparr>cw_num := cw_num w + 1, cw_next := Suc (cw_next w),
        cw_promise := (cw_promise w)(cw_next w \<mapsto> fresh_promise VoidEmpty)\<rparr>)"

definition void_dtor :: "nat option \<Rightarrow> 'e void_storage co_world \<Rightarrow> 'e void_storage co_world option" where
  "void_dtor h w =
     (case h of None \<Rightarrow> Some w
      | Some a \<Rightarrow> (case cw_promise w a of None \<Rightarrow> None
                  | Some p \<Rightarrow> if \<not> pm_launched p then Some (destroy_frame a w) else Some w))"

definition void_move_ctor :: "nat option \<Rightarrow> nat option \<times> nat option" where
  "void_move_ctor other = (other, None)"

definition void_move_assign :: "nat option \<Rightarrow> nat option \<Rightarrow> nat option \<times> nat option" where
  "void_move_assign self other = (other, None)"

definition void_handle :: "nat option \<Rightarrow> nat option" where
  "void_handle h = h"

definition void_launch :: "nat option \<Rightarrow> 'e void_storage co_world \<Rightarrow> 'e void_storage co_world option" where
  "void_launch h w = with_promise h (\<lambda>p. p\<lparr>pm_launched := True\<rparr>) w"

definition void_set_callback :: "nat \<Rightarrow> nat option \<Rightarrow> 'e void_storage co_world \<Rightarrow> 'e void_storage co_world option" where
  "void_set_callback handler h w = with_promise h (\<lambda>p. p\<lparr>pm_callback := Some handler\<rparr>) w"

subsection \<open>Programs over objects\<close>

text \<open>
  The operations of either class as a record, and a program's commands: call a coroutine function, move one
  object into a new one, assign by moving, drop, spawn with or without a handler (the object is
  moved into the parameter, which is destroyed at the end of \<^verbatim>\<open>spawn\<close>), and the end of a
  frame that was launched, which destroys itself.
\<close>

record 'st coro_ops =
  co_op_call :: "'st co_world \<Rightarrow> nat option \<times> 'st co_world"
  co_op_dtor :: "nat option \<Rightarrow> 'st co_world \<Rightarrow> 'st co_world option"
  co_op_move :: "nat option \<Rightarrow> nat option \<times> nat option"
  co_op_assign :: "nat option \<Rightarrow> nat option \<Rightarrow> nat option \<times> nat option"
  co_op_handle :: "nat option \<Rightarrow> nat option"
  co_op_launch :: "nat option \<Rightarrow> 'st co_world \<Rightarrow> 'st co_world option"
  co_op_callback :: "nat \<Rightarrow> nat option \<Rightarrow> 'st co_world \<Rightarrow> 'st co_world option"

definition value_ops :: "('v, 'e) value_storage coro_ops" where
  "value_ops = \<lparr>co_op_call = coro_get_return_object, co_op_dtor = coro_dtor, co_op_move = coro_move_ctor,
     co_op_assign = coro_move_assign, co_op_handle = coro_handle, co_op_launch = coro_launch,
     co_op_callback = coro_set_callback\<rparr>"

definition void_ops :: "'e void_storage coro_ops" where
  "void_ops = \<lparr>co_op_call = void_get_return_object, co_op_dtor = void_dtor, co_op_move = void_move_ctor,
     co_op_assign = void_move_assign, co_op_handle = void_handle, co_op_launch = void_launch,
     co_op_callback = void_set_callback\<rparr>"

record 'st coro_user =
  cu_world :: "'st co_world"
  cu_objs :: "nat \<rightharpoonup> nat option"
  cu_queue :: "nat option list"
  cu_lost :: "nat list"

datatype coro_cmd =
  CallCoro nat | MoveCoro nat nat | AssignCoro nat nat | DropCoro nat | SpawnCoro nat "nat option" | FrameEnds nat

definition spawn_object ::
  "'st coro_ops \<Rightarrow> nat option \<Rightarrow> nat option \<Rightarrow> 'st co_world \<Rightarrow> (nat option \<times> 'st co_world) option" where
  "spawn_object ops handler h w =
     (case co_op_launch ops h w of
        None \<Rightarrow> None
      | Some w1 \<Rightarrow>
          (case (case handler of None \<Rightarrow> Some w1 | Some f \<Rightarrow> co_op_callback ops f h w1) of
             None \<Rightarrow> None
           | Some w2 \<Rightarrow> map_option (\<lambda>w3. (co_op_handle ops h, w3)) (co_op_dtor ops h w2)))"

text \<open>Commands that name objects that do not exist, or a frame that may not end, do nothing.\<close>

fun coro_exec :: "'st coro_ops \<Rightarrow> coro_cmd \<Rightarrow> 'st coro_user \<Rightarrow> 'st coro_user option" where
  "coro_exec ops (CallCoro i) s =
     (if cu_objs s i = None
      then (let (h, w) = co_op_call ops (cu_world s)
            in Some (s\<lparr>cu_world := w, cu_objs := (cu_objs s)(i \<mapsto> h)\<rparr>)) else Some s)"
| "coro_exec ops (MoveCoro i j) s =
     (case (cu_objs s i, cu_objs s j) of
        (None, Some b) \<Rightarrow> (let (a, b) = co_op_move ops b in Some (s\<lparr>cu_objs := (cu_objs s)(i \<mapsto> a, j \<mapsto> b)\<rparr>))
      | _ \<Rightarrow> Some s)"
| "coro_exec ops (AssignCoro i j) s =
     (case (cu_objs s i, cu_objs s j) of
        (Some a, Some b) \<Rightarrow>
          (let (a', b') = co_op_assign ops a b
           in Some (s\<lparr>cu_objs := (cu_objs s)(i \<mapsto> a', j \<mapsto> b'), cu_lost := cu_lost s @ (case a of None \<Rightarrow> [] | Some f \<Rightarrow> [f])\<rparr>))
      | _ \<Rightarrow> Some s)"
| "coro_exec ops (DropCoro i) s =
     (case cu_objs s i of
        Some h \<Rightarrow> map_option (\<lambda>w. s\<lparr>cu_world := w, cu_objs := (cu_objs s)(i := None)\<rparr>) (co_op_dtor ops h (cu_world s))
      | None \<Rightarrow> Some s)"
| "coro_exec ops (SpawnCoro i handler) s =
     (case cu_objs s i of
        Some h \<Rightarrow>
          (let (h', b) = co_op_move ops h
           in map_option (\<lambda>(q, w). s\<lparr>cu_world := w, cu_objs := (cu_objs s)(i \<mapsto> b), cu_queue := cu_queue s @ [q]\<rparr>)
                (spawn_object ops handler h' (cu_world s)))
      | None \<Rightarrow> Some s)"
| "coro_exec ops (FrameEnds a) s =
     (case cw_promise (cu_world s) a of
        Some p \<Rightarrow> if pm_launched p then Some (s\<lparr>cu_world := destroy_frame a (cu_world s)\<rparr>) else Some s
      | None \<Rightarrow> Some s)"

definition coro_user_init :: "'st coro_user" where
  "coro_user_init = \<lparr>cu_world = \<lparr>cw_promise = Map.empty, cw_next = 0, cw_num = 0\<rparr>, cu_objs = Map.empty,
     cu_queue = [], cu_lost = []\<rparr>"

definition coro_run :: "'st coro_ops \<Rightarrow> coro_cmd list \<Rightarrow> 'st coro_user option" where
  "coro_run ops cmds = run_schedule (coro_exec ops) cmds coro_user_init"

subsection \<open>The contract of the class\<close>

definition set_promise :: "nat \<Rightarrow> 'st coro_promise \<Rightarrow> 'st co_world \<Rightarrow> 'st co_world" where
  "set_promise a p w = w\<lparr>cw_promise := (cw_promise w)(a \<mapsto> p)\<rparr>"

locale coro_class =
  fixes ops :: "'st coro_ops" and st\<^sub>0 :: 'st
  assumes call: "co_op_call ops w =
      (Some (cw_next w), (set_promise (cw_next w) (fresh_promise st\<^sub>0) w)\<lparr>cw_num := cw_num w + 1, cw_next := Suc (cw_next w)\<rparr>)"
    and dtor_null: "co_op_dtor ops None w = Some w"
    and dtor_live: "cw_promise w a = Some p \<Longrightarrow>
      co_op_dtor ops (Some a) w = Some (if pm_launched p then w else destroy_frame a w)"
    and move: "co_op_move ops h = (h, None)"
    and assign: "co_op_assign ops h h' = (h', None)"
    and handle: "co_op_handle ops h = h"
    and launch_null: "co_op_launch ops None w = None"
    and launch_live: "cw_promise w a = Some p \<Longrightarrow>
      co_op_launch ops (Some a) w = Some (set_promise a (p\<lparr>pm_launched := True\<rparr>) w)"
    and callback_live: "cw_promise w a = Some p \<Longrightarrow>
      co_op_callback ops f (Some a) w = Some (set_promise a (p\<lparr>pm_callback := Some f\<rparr>) w)"

lemmas class_defs = fresh_promise_def set_promise_def with_promise_def destroy_frame_def
  value_ops_def coro_get_return_object_def coro_dtor_def coro_move_ctor_def coro_move_assign_def coro_handle_def
  coro_launch_def coro_set_callback_def void_ops_def void_get_return_object_def void_dtor_def void_move_ctor_def
  void_move_assign_def void_handle_def void_launch_def void_set_callback_def

interpretation vc: coro_class value_ops NoValue
  by unfold_locales (simp_all add: class_defs)

interpretation uc: coro_class void_ops VoidEmpty
  by unfold_locales (simp_all add: class_defs)

text \<open>
  Who is responsible for a frame that was not launched: one object, or, after an assignment over the object,
  nobody.
\<close>

definition waiting :: "'st co_world \<Rightarrow> nat \<Rightarrow> bool" where
  "waiting w a \<longleftrightarrow> (\<exists>p. cw_promise w a = Some p \<and> \<not> pm_launched p)"

definition holders :: "(nat \<rightharpoonup> nat option) \<Rightarrow> nat \<Rightarrow> nat set" where
  "holders objs a = {i. objs i = Some (Some a)}"

lemma holders_upd [simp]:
  "holders (objs(i := x)) a = (if x = Some (Some a) then insert i (holders objs a) else holders objs a - {i})"
  by (auto simp: holders_def)

lemma holders_empty [simp]: "holders Map.empty a = {}"
  by (simp add: holders_def)

definition frame_ok :: "'st coro_user \<Rightarrow> nat \<Rightarrow> bool" where
  "frame_ok s a \<longleftrightarrow>
     (if waiting (cu_world s) a
      then (\<exists>i. holders (cu_objs s) a = {i}) \<and> a \<notin> set (cu_lost s) \<or> holders (cu_objs s) a = {} \<and> a \<in> set (cu_lost s)
      else holders (cu_objs s) a = {} \<and> a \<notin> set (cu_lost s))"

lemma waiting_simps [simp]:
  "waiting (destroy_frame a w) b \<longleftrightarrow> b \<noteq> a \<and> waiting w b"
  "waiting (set_promise a p w) b \<longleftrightarrow> (if b = a then \<not> pm_launched p else waiting w b)"
  "waiting (w\<lparr>cw_num := n\<rparr>) b = waiting w b" "waiting (w\<lparr>cw_next := m\<rparr>) b = waiting w b"
  by (auto simp: waiting_def destroy_frame_def set_promise_def)

lemma waiting_dom: "waiting w a \<Longrightarrow> a \<in> dom (cw_promise w)"
  by (auto simp: waiting_def)

text \<open>The books of \<^verbatim>\<open>CoroNum\<close> and of the addresses, for a new frame, a changed one and a destroyed one.\<close>

definition books_ok :: "'st co_world \<Rightarrow> bool" where
  "books_ok w \<longleftrightarrow> finite (dom (cw_promise w)) \<and> (\<forall>a \<in> dom (cw_promise w). a < cw_next w)
     \<and> cw_num w = of_nat (card (dom (cw_promise w)))"

lemma books_new:
  "books_ok w \<Longrightarrow> books_ok ((set_promise (cw_next w) p w)\<lparr>cw_num := cw_num w + 1, cw_next := Suc (cw_next w)\<rparr>)"
  by (auto simp: books_ok_def set_promise_def card_insert_if less_Suc_eq)

lemma books_set: "books_ok w \<Longrightarrow> a \<in> dom (cw_promise w) \<Longrightarrow> books_ok (set_promise a p w)"
  by (simp add: books_ok_def set_promise_def insert_absorb)

lemma books_destroy: "books_ok w \<Longrightarrow> a \<in> dom (cw_promise w) \<Longrightarrow> books_ok (destroy_frame a w)"
proof -
  assume ok: "books_ok w" and a: "a \<in> dom (cw_promise w)"
  have "dom ((cw_promise w)(a := None)) = dom (cw_promise w) - {a}" by auto
  moreover have "card (dom (cw_promise w)) = Suc (card (dom (cw_promise w) - {a}))"
    using ok a by (metis books_ok_def card.remove)
  ultimately show ?thesis using ok by (simp add: books_ok_def destroy_frame_def)
qed

definition user_inv :: "'st coro_user \<Rightarrow> bool" where
  "user_inv s \<longleftrightarrow> (\<forall>a. frame_ok s a) \<and> distinct (cu_lost s) \<and> books_ok (cu_world s)"

lemma user_invI:
  "(\<And>a. frame_ok s a) \<Longrightarrow> distinct (cu_lost s) \<Longrightarrow> books_ok (cu_world s) \<Longrightarrow> user_inv s"
  by (simp add: user_inv_def)

lemma user_inv_init: "user_inv coro_user_init"
  by (simp add: user_inv_def coro_user_init_def waiting_def frame_ok_def books_ok_def)

text \<open>An object with a handle: its frame exists, waits, and is nobody else's.\<close>

lemma held:
  assumes "user_inv s" and "cu_objs s i = Some (Some a)"
  obtains p where "cw_promise (cu_world s) a = Some p" "\<not> pm_launched p" "holders (cu_objs s) a = {i}" "a \<notin> set (cu_lost s)"
proof -
  have i: "i \<in> holders (cu_objs s) a" using assms(2) by (simp add: holders_def)
  have ok: "frame_ok s a" using assms(1) by (simp add: user_inv_def)
  have w: "waiting (cu_world s) a"
  proof (rule ccontr)
    assume "\<not> waiting (cu_world s) a"
    with ok i show False by (simp add: frame_ok_def)
  qed
  then have "holders (cu_objs s) a = {i} \<and> a \<notin> set (cu_lost s)" using ok i by (auto simp: frame_ok_def)
  with w that show ?thesis by (auto simp: waiting_def)
qed

context coro_class
begin

lemma exec_call:
  assumes inv: "user_inv s"
  shows "\<exists>t. coro_exec ops (CallCoro i) s = Some t \<and> user_inv t"
proof (cases "cu_objs s i")
  case None
  let ?a = "cw_next (cu_world s)"
  have "?a \<notin> dom (cw_promise (cu_world s))" using inv by (auto simp: user_inv_def books_ok_def)
  then have "\<not> waiting (cu_world s) ?a" using waiting_dom by blast
  moreover have "frame_ok s ?a" using inv by (simp add: user_inv_def)
  ultimately have a: "holders (cu_objs s) ?a = {}" "?a \<notin> set (cu_lost s)" by (simp_all add: frame_ok_def)
  have i: "i \<notin> holders (cu_objs s) b" for b using None by (simp add: holders_def)
  obtain t where t: "coro_exec ops (CallCoro i) s = Some t"
    "t = s\<lparr>cu_world := (set_promise ?a (fresh_promise st\<^sub>0) (cu_world s))\<lparr>cw_num := cw_num (cu_world s) + 1, cw_next := Suc ?a\<rparr>,
           cu_objs := (cu_objs s)(i \<mapsto> Some ?a)\<rparr>"
    by (simp add: None call)
  have "frame_ok t b" for b
    using inv a i [of b] by (cases "b = ?a") (simp_all add: t(2) user_inv_def frame_ok_def fresh_promise_def)
  moreover have "books_ok (cu_world t)"
    using inv books_new [of "cu_world s" "fresh_promise st\<^sub>0"] unfolding user_inv_def t(2) by simp
  ultimately have "user_inv t" using inv by (intro user_invI) (simp_all add: user_inv_def t(2))
  with t(1) show ?thesis by blast
qed (use inv in simp)

lemma exec_drop:
  assumes inv: "user_inv s"
  shows "\<exists>t. coro_exec ops (DropCoro i) s = Some t \<and> user_inv t"
proof (cases "cu_objs s i")
  case (Some h)
  show ?thesis
  proof (cases h)
    case None
    have i: "i \<notin> holders (cu_objs s) b" for b using Some None by (simp add: holders_def)
    then show ?thesis using inv Some None by (simp add: dtor_null user_inv_def frame_ok_def)
  next
    case (Some a)
    have obj: "cu_objs s i = Some (Some a)" using \<open>cu_objs s i = Some h\<close> Some by simp
    obtain p where p: "cw_promise (cu_world s) a = Some p" "\<not> pm_launched p" "holders (cu_objs s) a = {i}" "a \<notin> set (cu_lost s)"
      by (rule held [OF inv obj])
    have other: "i \<notin> holders (cu_objs s) b" if "b \<noteq> a" for b using that obj by (simp add: holders_def)
    let ?t = "s\<lparr>cu_world := destroy_frame a (cu_world s), cu_objs := (cu_objs s)(i := None)\<rparr>"
    have "frame_ok ?t b" for b
      using inv p(3,4) other [of b] by (cases "b = a") (simp_all add: user_inv_def frame_ok_def)
    moreover have "books_ok (cu_world ?t)" using books_destroy [of "cu_world s" a] inv p(1) by (auto simp: user_inv_def)
    ultimately have "user_inv ?t" using inv by (intro user_invI) (simp_all add: user_inv_def)
    then show ?thesis using obj by (simp add: dtor_live [OF p(1)] p(2))
  qed
qed (use inv in simp)

lemma exec_move:
  assumes inv: "user_inv s"
  shows "\<exists>t. coro_exec ops (MoveCoro i j) s = Some t \<and> user_inv t"
proof (cases "cu_objs s i = None \<and> cu_objs s j \<noteq> None")
  case True
  then obtain h where h: "cu_objs s i = None" "cu_objs s j = Some h" by blast
  have i: "i \<notin> holders (cu_objs s) b" for b using h(1) by (simp add: holders_def)
  let ?t = "s\<lparr>cu_objs := (cu_objs s)(i \<mapsto> h, j \<mapsto> None)\<rparr>"
  have "frame_ok ?t b" for b
  proof (cases "h = Some b")
    case True
    then obtain p where "holders (cu_objs s) b = {j}" "b \<notin> set (cu_lost s)" "cw_promise (cu_world s) b = Some p" "\<not> pm_launched p"
      using held [OF inv, of j b] h(2) by metis
    then show ?thesis using True h by (auto simp: frame_ok_def waiting_def)
  next
    case False
    then have "j \<notin> holders (cu_objs s) b" using h(2) by (simp add: holders_def)
    then show ?thesis using False inv i [of b] by (simp add: user_inv_def frame_ok_def)
  qed
  then have "user_inv ?t" using inv by (intro user_invI) (simp_all add: user_inv_def)
  then show ?thesis using h by (simp add: move)
next
  case False
  then show ?thesis using inv by (auto split: option.splits)
qed

lemma exec_assign:
  assumes inv: "user_inv s"
  shows "\<exists>t. coro_exec ops (AssignCoro i j) s = Some t \<and> user_inv t"
proof (cases "cu_objs s i \<noteq> None \<and> cu_objs s j \<noteq> None")
  case True
  then obtain g h where h: "cu_objs s i = Some g" "cu_objs s j = Some h" by blast
  let ?lost = "cu_lost s @ (case g of None \<Rightarrow> [] | Some f \<Rightarrow> [f])"
  let ?t = "s\<lparr>cu_objs := (cu_objs s)(i \<mapsto> h, j \<mapsto> None), cu_lost := ?lost\<rparr>"
  have gi: "g = Some b \<Longrightarrow> holders (cu_objs s) b = {i} \<and> b \<notin> set (cu_lost s) \<and> waiting (cu_world s) b" for b
    using held [OF inv, of i b] h(1) by (metis waiting_def)
  have hj: "h = Some b \<Longrightarrow> holders (cu_objs s) b = {j} \<and> b \<notin> set (cu_lost s) \<and> waiting (cu_world s) b" for b
    using held [OF inv, of j b] h(2) by (metis waiting_def)
  have "frame_ok ?t b" for b
  proof -
    consider (g) "g = Some b" | (h) "g \<noteq> Some b" "h = Some b" | (other) "g \<noteq> Some b" "h \<noteq> Some b" by blast
    then show ?thesis
    proof cases
      case g
      then show ?thesis using gi [OF g] hj [of b] by (auto simp: frame_ok_def)
    next
      case h
      then have "i \<noteq> j" using \<open>cu_objs s i = Some g\<close> \<open>cu_objs s j = Some h\<close> by auto
      then show ?thesis using hj [OF h(2)] h by (auto simp: frame_ok_def split: option.splits)
    next
      case other
      then have "i \<notin> holders (cu_objs s) b" "j \<notin> holders (cu_objs s) b" using h by (simp_all add: holders_def)
      moreover have "frame_ok s b" using inv by (simp add: user_inv_def)
      ultimately show ?thesis using other by (auto simp: frame_ok_def split: option.splits)
    qed
  qed
  moreover have "distinct ?lost" using inv gi by (auto simp: user_inv_def split: option.splits)
  ultimately have "user_inv ?t" using inv by (intro user_invI) (simp_all add: user_inv_def)
  then show ?thesis using h by (simp add: assign)
next
  case False
  then show ?thesis using inv by (auto split: option.splits)
qed

text \<open>Only one command can reach through a null handle: to spawn an object that was moved from.\<close>

lemma exec_spawn:
  assumes inv: "user_inv s"
  shows "coro_exec ops (SpawnCoro i handler) s = None \<longleftrightarrow> cu_objs s i = Some None"
    and "coro_exec ops (SpawnCoro i handler) s = Some t \<Longrightarrow> user_inv t"
proof -
  have "(coro_exec ops (SpawnCoro i handler) s = None \<longleftrightarrow> cu_objs s i = Some None)
      \<and> (coro_exec ops (SpawnCoro i handler) s = Some t \<longrightarrow> user_inv t)"
  proof (cases "\<exists>a. cu_objs s i = Some (Some a)")
    case False
    then show ?thesis using inv by (cases "cu_objs s i") (auto simp: move spawn_object_def launch_null)
  next
    case True
    then obtain a where obj: "cu_objs s i = Some (Some a)" by blast
    obtain p where p: "cw_promise (cu_world s) a = Some p" "\<not> pm_launched p" "holders (cu_objs s) a = {i}" "a \<notin> set (cu_lost s)"
      by (rule held [OF inv obj])
    define q where "q = p\<lparr>pm_launched := True, pm_callback := (case handler of None \<Rightarrow> pm_callback p | f \<Rightarrow> f)\<rparr>"
    have sp: "spawn_object ops handler (Some a) (cu_world s) = Some (Some a, set_promise a q (cu_world s))"
    proof (cases handler)
      case None
      have "cw_promise (set_promise a (p\<lparr>pm_launched := True\<rparr>) (cu_world s)) a = Some (p\<lparr>pm_launched := True\<rparr>)"
        by (simp add: set_promise_def)
      from dtor_live [OF this] show ?thesis
        by (simp add: spawn_object_def launch_live [OF p(1)] None handle q_def)
    next
      case (Some f)
      let ?w = "set_promise a (p\<lparr>pm_launched := True\<rparr>) (cu_world s)"
      have l: "cw_promise ?w a = Some (p\<lparr>pm_launched := True\<rparr>)" by (simp add: set_promise_def)
      have c: "co_op_callback ops f (Some a) ?w = Some (set_promise a q (cu_world s))"
        using callback_live [OF l, of f] by (simp add: q_def Some set_promise_def)
      have "cw_promise (set_promise a q (cu_world s)) a = Some q" by (simp add: set_promise_def)
      from dtor_live [OF this] show ?thesis
        by (simp add: spawn_object_def launch_live [OF p(1)] Some handle c) (simp add: q_def)
    qed
    let ?t = "s\<lparr>cu_world := set_promise a q (cu_world s), cu_objs := (cu_objs s)(i \<mapsto> None), cu_queue := cu_queue s @ [Some a]\<rparr>"
    have other: "i \<notin> holders (cu_objs s) b" if "b \<noteq> a" for b using that obj by (simp add: holders_def)
    have "frame_ok ?t b" for b
      using inv p(3,4) other [of b] by (cases "b = a") (simp_all add: user_inv_def frame_ok_def q_def)
    moreover have "books_ok (cu_world ?t)" using books_set [of "cu_world s" a q] inv p(1) by (auto simp: user_inv_def)
    ultimately have "user_inv ?t" using inv by (intro user_invI) (simp_all add: user_inv_def)
    then show ?thesis by (auto simp: obj move sp)
  qed
  then show "coro_exec ops (SpawnCoro i handler) s = None \<longleftrightarrow> cu_objs s i = Some None"
    and "coro_exec ops (SpawnCoro i handler) s = Some t \<Longrightarrow> user_inv t" by blast+
qed

lemma exec_ends:
  assumes inv: "user_inv s"
  shows "\<exists>t. coro_exec ops (FrameEnds a) s = Some t \<and> user_inv t"
proof (cases "\<exists>p. cw_promise (cu_world s) a = Some p \<and> pm_launched p")
  case True
  then obtain p where p: "cw_promise (cu_world s) a = Some p" "pm_launched p" by blast
  then have "\<not> waiting (cu_world s) a" by (simp add: waiting_def)
  moreover have "frame_ok s b" for b using inv by (simp add: user_inv_def)
  ultimately have "frame_ok (s\<lparr>cu_world := destroy_frame a (cu_world s)\<rparr>) b" for b
    by (cases "b = a") (force simp: frame_ok_def)+
  then show ?thesis using inv books_destroy [of "cu_world s" a] p by (auto simp: user_inv_def)
next
  case False
  then show ?thesis using inv by (auto split: option.splits)
qed

lemma exec_inv: "user_inv s \<Longrightarrow> coro_exec ops c s = Some t \<Longrightarrow> user_inv t"
  using exec_call [of s] exec_drop [of s] exec_move [of s] exec_assign [of s] exec_spawn(2) [of s] exec_ends [of s]
  by (cases c) (metis option.inject)+

lemma exec_faults: "user_inv s \<Longrightarrow> coro_exec ops c s = None \<longleftrightarrow> (\<exists>i f. c = SpawnCoro i f \<and> cu_objs s i = Some None)"
  using exec_call [of s] exec_drop [of s] exec_move [of s] exec_assign [of s] exec_spawn(1) [of s] exec_ends [of s]
  by (cases c) (metis coro_cmd.distinct coro_cmd.inject option.distinct(1))+

lemma run_inv: "coro_run ops cmds = Some s \<Longrightarrow> user_inv s"
proof -
  have "user_inv t" if "run_schedule (coro_exec ops) cs u = Some t" "user_inv u" for cs t u
    using that by (induction cs arbitrary: u) (auto split: option.splits dest: exec_inv)
  then show "coro_run ops cmds = Some s \<Longrightarrow> user_inv s" using user_inv_init by (auto simp: coro_run_def)
qed

end

subsection \<open>The specialisation compared with the template\<close>

fun erase :: "(unit, 'e) value_storage \<Rightarrow> 'e void_storage" where
  "erase NoValue = VoidEmpty"
| "erase (HasValue u) = VoidEmpty"
| "erase (HasExn e) = VoidExn e"

definition erase_promise :: "(unit, 'e) value_storage coro_promise \<Rightarrow> 'e void_storage coro_promise" where
  "erase_promise p = \<lparr>pm_launched = pm_launched p, pm_prev = pm_prev p, pm_storage = erase (pm_storage p),
                      pm_callback = pm_callback p\<rparr>"

definition erase_world :: "(unit, 'e) value_storage co_world \<Rightarrow> 'e void_storage co_world" where
  "erase_world w = \<lparr>cw_promise = map_option erase_promise \<circ> cw_promise w, cw_next = cw_next w, cw_num = cw_num w\<rparr>"

definition erase_user :: "(unit, 'e) value_storage coro_user \<Rightarrow> 'e void_storage coro_user" where
  "erase_user s = \<lparr>cu_world = erase_world (cu_world s), cu_objs = cu_objs s, cu_queue = cu_queue s, cu_lost = cu_lost s\<rparr>"

lemma erase_upd: "map_option erase_promise \<circ> f(a \<mapsto> p) = (map_option erase_promise \<circ> f)(a \<mapsto> erase_promise p)"
  "map_option erase_promise \<circ> f(a := None) = (map_option erase_promise \<circ> f)(a := None)"
  by (simp_all add: fun_eq_iff)

lemma erase_launch: "void_launch h (erase_world w) = map_option erase_world (coro_launch h w)"
  by (auto simp: void_launch_def coro_launch_def with_promise_def erase_world_def erase_promise_def erase_upd
      split: option.splits)

lemma erase_callback: "void_set_callback f h (erase_world w) = map_option erase_world (coro_set_callback f h w)"
  by (auto simp: void_set_callback_def coro_set_callback_def with_promise_def erase_world_def erase_promise_def erase_upd
      split: option.splits)

lemma erase_dtor: "void_dtor h (erase_world w) = map_option erase_world (coro_dtor h w)"
  by (auto simp: void_dtor_def coro_dtor_def destroy_frame_def erase_world_def erase_promise_def erase_upd
      split: option.splits)

lemma erase_call: "void_get_return_object (erase_world w) = map_prod id erase_world (coro_get_return_object w)"
  by (simp add: void_get_return_object_def coro_get_return_object_def erase_world_def fresh_promise_def erase_upd
      erase_promise_def)

lemma erase_spawn:
  "spawn_object void_ops f h (erase_world w) = map_option (map_prod id erase_world) (spawn_object value_ops f h w)"
proof -
  have "spawn_object void_ops f h (erase_world w) =
      (case map_option erase_world (coro_launch h w) of None \<Rightarrow> None
       | Some w1 \<Rightarrow> (case (case f of None \<Rightarrow> Some w1 | Some f \<Rightarrow> void_set_callback f h w1) of None \<Rightarrow> None
          | Some w2 \<Rightarrow> map_option (\<lambda>w3. (h, w3)) (void_dtor h w2)))"
    by (simp add: spawn_object_def void_ops_def void_handle_def erase_launch cong: option.case_cong)
  also have "\<dots> = map_option (map_prod id erase_world) (spawn_object value_ops f h w)"
    by (cases f) (auto simp: spawn_object_def value_ops_def coro_handle_def erase_callback erase_dtor
        option.map_comp comp_def split: option.splits)
  finally show ?thesis .
qed

lemma erase_exec: "coro_exec void_ops c (erase_user s) = map_option erase_user (coro_exec value_ops c s)"
proof (cases c)
  case (SpawnCoro i f)
  then show ?thesis
    using erase_spawn [of f _ "cu_world s"]
    by (auto simp: erase_user_def void_ops_def value_ops_def void_move_ctor_def coro_move_ctor_def
        option.map_comp comp_def split_def split: option.splits)
next
  case (DropCoro i)
  then show ?thesis
    by (auto simp: erase_user_def void_ops_def value_ops_def erase_dtor option.map_comp comp_def split: option.splits)
next
  case (CallCoro i)
  then show ?thesis by (auto simp: erase_user_def void_ops_def value_ops_def erase_call split_def Let_def)
next
  case (FrameEnds a)
  then show ?thesis
    by (auto simp: erase_user_def erase_world_def destroy_frame_def erase_upd erase_promise_def split: option.splits)
qed (auto simp: erase_user_def void_ops_def value_ops_def void_move_ctor_def coro_move_ctor_def void_move_assign_def
    coro_move_assign_def split: option.splits)

lemma erase_schedule:
  "run_schedule (coro_exec void_ops) cmds (erase_user s) = map_option erase_user (run_schedule (coro_exec value_ops) cmds s)"
  by (induction cmds arbitrary: s) (auto simp: erase_exec split: option.splits)

lemma erase_init: "erase_user coro_user_init = coro_user_init"
  by (simp add: erase_user_def coro_user_init_def erase_world_def fun_eq_iff)

subsection \<open>Properties\<close>

definition frames_accounted :: "'st coro_user \<Rightarrow> bool" where
  "frames_accounted s \<longleftrightarrow> (\<forall>a.
     if waiting (cu_world s) a
     then if a \<in> set (cu_lost s) then \<forall>i. cu_objs s i \<noteq> Some (Some a) else \<exists>!i. cu_objs s i = Some (Some a)
     else a \<notin> set (cu_lost s) \<and> (\<forall>i. cu_objs s i \<noteq> Some (Some a)))"

lemma frames_accounted_inv: "user_inv s \<Longrightarrow> frames_accounted s"
proof -
  assume inv: "user_inv s"
  have "(\<exists>!i. cu_objs s i = Some (Some a)) \<longleftrightarrow> (\<exists>i. holders (cu_objs s) a = {i})" for a
    by (auto simp: holders_def set_eq_iff)
  moreover have "(\<forall>i. cu_objs s i \<noteq> Some (Some a)) \<longleftrightarrow> holders (cu_objs s) a = {}" for a by (auto simp: holders_def)
  moreover have "frame_ok s a" for a using inv by (simp add: user_inv_def)
  ultimately show ?thesis unfolding frames_accounted_def frame_ok_def by (metis insert_not_empty)
qed

text \<open>
  Property C21: nothing is lost with a \<^verbatim>\<open>Coro\<close> object but by assignment. For every program over objects of either
  class: a frame that was never launched belongs to exactly one object, or is one of those an assignment has
  overwritten, which nothing will ever destroy; \<^verbatim>\<open>CoroNum\<close> is the number of frames that exist; and the next
  command reaches through a null or dangling handle only when it spawns an object that was moved from.
\<close>

theorem coro_objects_accounted:
  assumes "coro_run value_ops cmds = Some s" and "coro_run void_ops cmds' = Some t"
  shows "frames_accounted s \<and> cw_num (cu_world s) = of_nat (card (dom (cw_promise (cu_world s))))
       \<and> (coro_exec value_ops c s = None \<longleftrightarrow> (\<exists>i f. c = SpawnCoro i f \<and> cu_objs s i = Some None))
     \<and> frames_accounted t \<and> cw_num (cu_world t) = of_nat (card (dom (cw_promise (cu_world t))))
       \<and> (coro_exec void_ops c t = None \<longleftrightarrow> (\<exists>i f. c = SpawnCoro i f \<and> cu_objs t i = Some None))"
proof -
  note s = vc.run_inv [OF assms(1)] and t = uc.run_inv [OF assms(2)]
  show ?thesis
    using frames_accounted_inv [OF s] frames_accounted_inv [OF t] s t vc.exec_faults [OF s] uc.exec_faults [OF t]
    by (simp add: user_inv_def books_ok_def)
qed

text \<open>Two objects; the second is moved over the first, which is spawned, runs to its end and is gone.\<close>

definition demo_coros :: "coro_cmd list" where
  "demo_coros = [CallCoro 0, CallCoro 1, AssignCoro 0 1, SpawnCoro 0 (Some 7), FrameEnds 1, DropCoro 0, DropCoro 1]"

lemma demo_coros_run:
  "map_option cu_lost (coro_run (value_ops :: (nat, nat) value_storage coro_ops) demo_coros) = Some [0]"
  "map_option cu_lost (coro_run (void_ops :: nat void_storage coro_ops) demo_coros) = Some [0]"
  by (simp_all add: coro_run_def demo_coros_def coro_user_init_def spawn_object_def class_defs)

theorem coro_objects_accounted_witness:
  "\<exists>s. coro_run (value_ops :: (nat, nat) value_storage coro_ops) demo_coros = Some s \<and> waiting (cu_world s) 0
     \<and> (\<forall>i. cu_objs s i \<noteq> Some (Some 0))"
proof -
  obtain s where s: "coro_run (value_ops :: (nat, nat) value_storage coro_ops) demo_coros = Some s" "cu_lost s = [0]"
    using demo_coros_run(1) by auto
  obtain t where t: "coro_run (void_ops :: nat void_storage coro_ops) demo_coros = Some t" using demo_coros_run(2) by auto
  have "frames_accounted s" using coro_objects_accounted [OF s(1) t] by blast
  then have "if waiting (cu_world s) 0
     then if 0 \<in> set (cu_lost s) then \<forall>i. cu_objs s i \<noteq> Some (Some 0) else \<exists>!i. cu_objs s i = Some (Some 0)
     else 0 \<notin> set (cu_lost s) \<and> (\<forall>i. cu_objs s i \<noteq> Some (Some 0))" unfolding frames_accounted_def by (rule spec)
  then have "waiting (cu_world s) 0 \<and> (\<forall>i. cu_objs s i \<noteq> Some (Some 0))" by (simp add: s(2) split: if_splits)
  with s(1) show ?thesis by blast
qed

text \<open>
  Property C26: \<^verbatim>\<open>Coro<void>\<close> is \<^verbatim>\<open>Coro<Unit>\<close>. Every program over objects does the same with both classes, up to
  the stored value, faults included; a body that ends or throws stores the same; and for a finished coroutine
  \<^verbatim>\<open>await_resume\<close> throws or returns the same and \<^verbatim>\<open>FinalSuspend\<close> calls the handler with the same.
\<close>

theorem void_coro_is_unit_coro:
  "coro_run void_ops cmds = map_option erase_user (coro_run value_ops cmds)
   \<and> void_unhandled e (erase_promise p) = erase_promise (value_unhandled e p)
   \<and> (pm_storage p = NoValue \<longrightarrow> return_void (erase_promise p) = erase_promise (return_value () p))
   \<and> (pm_storage p \<noteq> NoValue \<longrightarrow> void_resume (erase_promise p) = value_resume p
        \<and> void_completion (erase_promise p) = value_completion () p \<and> value_resume p \<noteq> None)"
  unfolding coro_run_def erase_init [symmetric] erase_schedule
  by (cases "pm_storage p")
    (simp_all add: void_unhandled_def value_unhandled_def erase_promise_def return_void_def return_value_def
      void_resume_def value_resume_def void_completion_def value_completion_def)

theorem void_coro_is_unit_coro_witness:
  "void_completion (erase_promise (value_unhandled (5 :: nat) (fresh_promise NoValue))) = Some (Some 5, ())"
proof -
  let ?p = "value_unhandled (5 :: nat) (fresh_promise NoValue :: (unit, nat) value_storage coro_promise)"
  have "pm_storage ?p \<noteq> NoValue" by (simp add: value_unhandled_def fresh_promise_def)
  with void_coro_is_unit_coro [of "[]" 0 ?p] have "void_completion (erase_promise ?p) = value_completion () ?p"
    by (elim conjE) (drule (1) mp, elim conjE, assumption)
  then show ?thesis by (simp add: value_unhandled_def fresh_promise_def value_completion_def)
qed

end
