(* ===== verification/Fork_Join_Sort.thy ===== *)
theory Fork_Join_Sort
  imports Magio_Prelude "HOL-Library.Multiset"
begin

section \<open>The sorting example (examples/v3/sort.cpp)\<close>

text \<open>
  \<^verbatim>\<open>fork_join_sort\<close> splits a range with \<^verbatim>\<open>nth_element\<close>, awaits the two halves with \<^verbatim>\<open>join\<close>, and sorts the
  small ranges at the leaves with \<^verbatim>\<open>std::sort\<close> on the threads of a pool. The calls that are not
  finished are a list of tasks; a step carries out one of them, any one, so that every interleaving of
  the context with the threads of the pool is a sequence of steps. The vector is a list.
\<close>

subsection \<open>The program\<close>

text \<open>
  The two standard algorithms are arguments: \<open>alg_nth b m e xs\<close> is the vector after
  \<^verbatim>\<open>nth_element(b, m, e, pred)\<close>, and \<open>alg_sort b e xs\<close> after \<^verbatim>\<open>sort(b, e, pred)\<close>.
\<close>

record 'a fj_algs =
  alg_nth :: "nat \<Rightarrow> nat \<Rightarrow> nat \<Rightarrow> 'a list \<Rightarrow> 'a list"
  alg_sort :: "nat \<Rightarrow> nat \<Rightarrow> 'a list \<Rightarrow> 'a list"

datatype fj_task = FjTask (fj_bg: nat) (fj_ed: nat) (fj_times: nat)

record 'a fj_state =
  fj_vec :: "'a list"
  fj_tasks :: "fj_task list"

definition fj_mid :: "nat \<Rightarrow> nat \<Rightarrow> nat" where
  "fj_mid bg ed = bg + (ed - bg) div 2"

text \<open>The body of a call: what it does to the vector, and the calls it awaits.\<close>

fun fork_join_sort :: "'a fj_algs \<Rightarrow> fj_task \<Rightarrow> 'a list \<Rightarrow> 'a list \<times> fj_task list" where
  "fork_join_sort algs (FjTask bg ed depth) xs =
     (if bg \<ge> ed then (xs, [])
      else if depth > 0
      then (let mid = fj_mid bg ed
            in (alg_nth algs bg mid ed xs, [FjTask bg mid (depth - 1), FjTask (mid + 1) ed (depth - 1)]))
      else (alg_sort algs bg ed xs, []))"

definition fj_do :: "'a fj_algs \<Rightarrow> nat \<Rightarrow> 'a fj_state \<Rightarrow> 'a fj_state option" where
  "fj_do algs i s =
     (if i < length (fj_tasks s)
      then (let (xs, calls) = fork_join_sort algs (fj_tasks s ! i) (fj_vec s)
            in Some \<lparr>fj_vec = xs, fj_tasks = take i (fj_tasks s) @ calls @ drop (Suc i) (fj_tasks s)\<rparr>)
      else None)"

definition fj_step :: "'a fj_algs \<Rightarrow> 'a fj_state \<Rightarrow> 'a fj_state \<Rightarrow> bool" where
  "fj_step algs s t \<longleftrightarrow> (\<exists>i. fj_do algs i s = Some t)"

definition fj_start :: "'a list \<Rightarrow> nat \<Rightarrow> 'a fj_state" where
  "fj_start xs depth = \<lparr>fj_vec = xs, fj_tasks = [FjTask 0 (length xs) depth]\<rparr>"

subsection \<open>The contracts\<close>

text \<open>\<^verbatim>\<open>pred\<close> is a strict weak ordering; \<open>upto lt x y\<close>: \<open>x\<close> may stand before \<open>y\<close>.\<close>

definition strict_weak :: "('a \<Rightarrow> 'a \<Rightarrow> bool) \<Rightarrow> bool" where
  "strict_weak lt \<longleftrightarrow> (\<forall>x. \<not> lt x x) \<and> (\<forall>x y z. lt x y \<longrightarrow> lt y z \<longrightarrow> lt x z)
     \<and> (\<forall>x y z. \<not> lt x y \<longrightarrow> \<not> lt y z \<longrightarrow> \<not> lt x z)"

definition permuted_in :: "nat \<Rightarrow> nat \<Rightarrow> 'a list \<Rightarrow> 'a list \<Rightarrow> bool" where
  "permuted_in b e xs ys \<longleftrightarrow> length ys = length xs \<and> take b ys = take b xs \<and> drop e ys = drop e xs
     \<and> mset (drop b (take e ys)) = mset (drop b (take e xs))"

text \<open>
  The algorithms only permute their range. After \<^verbatim>\<open>nth_element\<close>, no element before the middle comes after
  it in the order and none behind it before; \<^verbatim>\<open>sort\<close> leaves no inversion.
\<close>

definition nth_ok :: "('a \<Rightarrow> 'a \<Rightarrow> bool) \<Rightarrow> (nat \<Rightarrow> nat \<Rightarrow> nat \<Rightarrow> 'a list \<Rightarrow> 'a list) \<Rightarrow> bool" where
  "nth_ok lt sel \<longleftrightarrow> (\<forall>b m e xs. b \<le> m \<longrightarrow> m < e \<longrightarrow> e \<le> length xs \<longrightarrow>
     permuted_in b e xs (sel b m e xs)
   \<and> (\<forall>i. b \<le> i \<longrightarrow> i < m \<longrightarrow> \<not> lt (sel b m e xs ! m) (sel b m e xs ! i))
   \<and> (\<forall>j. m < j \<longrightarrow> j < e \<longrightarrow> \<not> lt (sel b m e xs ! j) (sel b m e xs ! m)))"

definition sort_ok :: "('a \<Rightarrow> 'a \<Rightarrow> bool) \<Rightarrow> (nat \<Rightarrow> nat \<Rightarrow> 'a list \<Rightarrow> 'a list) \<Rightarrow> bool" where
  "sort_ok lt srt \<longleftrightarrow> (\<forall>b e xs. b \<le> e \<longrightarrow> e \<le> length xs \<longrightarrow>
     permuted_in b e xs (srt b e xs)
   \<and> (\<forall>i j. b \<le> i \<longrightarrow> i < j \<longrightarrow> j < e \<longrightarrow> \<not> lt (srt b e xs ! j) (srt b e xs ! i)))"

text \<open>What a permutation of a range means for single positions.\<close>

lemma permuted_outside:
  assumes "permuted_in b e xs ys" and "i < b \<or> e \<le> i" and "i < length xs"
  shows "ys ! i = xs ! i"
proof (cases "i < b")
  case True
  then have "take b ys ! i = take b xs ! i" using assms(1) by (simp add: permuted_in_def)
  then show ?thesis using True by simp
next
  case False
  then have "e \<le> i" using assms(2) by simp
  moreover have "length ys = length xs" using assms(1) by (simp add: permuted_in_def)
  ultimately have "ys ! i = drop e ys ! (i - e)" "xs ! i = drop e xs ! (i - e)" using assms(3) by simp_all
  moreover have "drop e ys = drop e xs" using assms(1) by (simp add: permuted_in_def)
  ultimately show ?thesis by simp
qed

lemma permuted_inside:
  assumes p: "permuted_in b e xs ys" and i: "b \<le> i" "i < e" and e: "e \<le> length xs"
  shows "\<exists>k. b \<le> k \<and> k < e \<and> ys ! i = xs ! k"
proof -
  have "drop b (take e ys) ! (i - b) \<in> set (drop b (take e ys))"
    using i e p by (intro nth_mem) (simp add: permuted_in_def)
  moreover have "drop b (take e ys) ! (i - b) = ys ! i" using i e p by (simp add: permuted_in_def)
  moreover have "set (drop b (take e ys)) = set (drop b (take e xs))" using p by (metis permuted_in_def set_mset_mset)
  ultimately obtain n where "n < length (drop b (take e xs))" "drop b (take e xs) ! n = ys ! i" by (metis in_set_conv_nth)
  then show ?thesis using e by (intro exI [of _ "b + n"]) auto
qed

lemma permuted_mset:
  assumes "permuted_in b e xs ys" and "b \<le> e" and "e \<le> length xs"
  shows "mset ys = mset xs"
proof -
  have split: "zs = take b zs @ drop b (take e zs) @ drop e zs" if "b \<le> e" for zs :: "'a list"
    by (metis append.assoc append_take_drop_id min.absorb1 take_take that)
  have "mset ys = mset (take b ys) + mset (drop b (take e ys)) + mset (drop e ys)"
    by (subst split [OF assms(2), of ys]) simp
  also have "\<dots> = mset (take b xs) + mset (drop b (take e xs)) + mset (drop e xs)"
    using assms(1) by (simp add: permuted_in_def)
  also have "\<dots> = mset xs" by (subst (4) split [OF assms(2), of xs]) simp
  finally show ?thesis .
qed

subsection \<open>The invariant\<close>

text \<open>
  Two positions are settled when no unfinished call has both in its range; the tasks' ranges are disjoint
  and inside the vector.
\<close>

definition in_range :: "fj_task \<Rightarrow> nat \<Rightarrow> bool" where
  "in_range t i \<longleftrightarrow> fj_bg t \<le> i \<and> i < fj_ed t"

definition ranges_ok :: "nat \<Rightarrow> fj_task list \<Rightarrow> bool" where
  "ranges_ok n ts \<longleftrightarrow> (\<forall>t \<in> set ts. fj_ed t \<le> n)
     \<and> (\<forall>k. length (filter (\<lambda>t. in_range t k) ts) \<le> 1)"

definition settled :: "('a \<Rightarrow> 'a \<Rightarrow> bool) \<Rightarrow> fj_task list \<Rightarrow> 'a list \<Rightarrow> bool" where
  "settled lt ts xs \<longleftrightarrow> (\<forall>i j. i < j \<longrightarrow> j < length xs \<longrightarrow>
     lt (xs ! j) (xs ! i) \<longrightarrow> (\<exists>t \<in> set ts. in_range t i \<and> in_range t j))"

definition fj_inv :: "('a \<Rightarrow> 'a \<Rightarrow> bool) \<Rightarrow> 'a list \<Rightarrow> 'a fj_state \<Rightarrow> bool" where
  "fj_inv lt xs s \<longleftrightarrow> mset (fj_vec s) = mset xs \<and> ranges_ok (length (fj_vec s)) (fj_tasks s)
     \<and> settled lt (fj_tasks s) (fj_vec s)"

lemma ranges_one:
  assumes "ranges_ok n (ts @ t # us)" and "in_range t k" and "u \<in> set ts \<union> set us"
  shows "\<not> in_range u k"
proof
  assume "in_range u k"
  then have "filter (\<lambda>t. in_range t k) ts \<noteq> [] \<or> filter (\<lambda>t. in_range t k) us \<noteq> []"
    using assms(3) by (auto simp: filter_empty_conv)
  then have "2 \<le> length (filter (\<lambda>t. in_range t k) (ts @ t # us))"
    using assms(2) by (auto simp: neq_Nil_conv)
  then show False using assms(1) unfolding ranges_ok_def by (metis Suc_1 not_less_eq_eq)
qed

text \<open>
  A call on \<open>[b, e)\<close> permutes that range; what it settles inside is up to it, pairs with a position outside
  stay settled, because no other call has the position inside.
\<close>

lemma settled_step:
  assumes ok: "ranges_ok (length xs) (ts @ t # us)" and st: "settled lt (ts @ t # us) xs"
    and p: "permuted_in (fj_bg t) (fj_ed t) xs ys"
    and inside: "\<And>i j. i < j \<Longrightarrow> in_range t i \<Longrightarrow> in_range t j \<Longrightarrow> lt (ys ! j) (ys ! i) \<Longrightarrow>
      \<exists>c \<in> set cs. in_range c i \<and> in_range c j"
  shows "settled lt (ts @ cs @ us) ys"
  unfolding settled_def
proof (intro allI impI)
  fix i j assume ij: "i < j" "j < length ys" and inv: "lt (ys ! j) (ys ! i)"
  have e: "fj_ed t \<le> length xs" using ok by (simp add: ranges_ok_def)
  have len: "length ys = length xs" using p by (simp add: permuted_in_def)
  have pos: "\<exists>k. ys ! i' = xs ! k \<and> (if in_range t i' then in_range t k else k = i')" if "i' < length xs" for i'
    using permuted_inside [OF p _ _ e, of i'] permuted_outside [OF p, of i'] that
    by (auto simp: in_range_def not_le not_less)
  show "\<exists>c \<in> set (ts @ cs @ us). in_range c i \<and> in_range c j"
  proof (cases "in_range t i \<and> in_range t j")
    case True
    then show ?thesis using inside [OF ij(1) _ _ inv] by auto
  next
    case False
    obtain k where k: "ys ! i = xs ! k" "if in_range t i then in_range t k else k = i" using pos [of i] ij len by auto
    obtain l where l: "ys ! j = xs ! l" "if in_range t j then in_range t l else l = j" using pos [of j] ij len by auto
    have "k < l" and ll: "l < length xs"
      using False k(2) l(2) ij len e by (auto simp: in_range_def split: if_splits)
    moreover have "lt (xs ! l) (xs ! k)" using inv k(1) l(1) by simp
    ultimately obtain u where u: "u \<in> set (ts @ t # us)" "in_range u k" "in_range u l"
      using st unfolding settled_def by blast
    have "u \<noteq> t" using u(2,3) False k(2) l(2) by (auto split: if_splits)
    then have other: "u \<in> set ts \<union> set us" using u(1) by auto
    have "\<not> in_range t k" "\<not> in_range t l" using ranges_one [OF ok _ other] u(2,3) by blast+
    then have "k = i" "l = j" using k(2) l(2) by (auto split: if_splits)
    then show ?thesis using other u(2,3) by auto
  qed
qed

lemma mid_range: "bg < ed \<Longrightarrow> bg \<le> fj_mid bg ed \<and> fj_mid bg ed < ed"
  by (auto simp: fj_mid_def)

text \<open>What a call does is within the conditions of \<open>settled_step\<close>.\<close>

lemma call_spec:
  assumes algs: "nth_ok lt (alg_nth algs)" "sort_ok lt (alg_sort algs)" "strict_weak lt"
    and e: "fj_ed t \<le> length xs" and run: "fork_join_sort algs t xs = (ys, cs)"
  shows "permuted_in (fj_bg t) (fj_ed t) xs ys \<and> (fj_bg t \<le> fj_ed t \<or> ys = xs)
     \<and> (\<forall>i j. i < j \<longrightarrow> in_range t i \<longrightarrow> in_range t j \<longrightarrow> lt (ys ! j) (ys ! i) \<longrightarrow>
          (\<exists>c \<in> set cs. in_range c i \<and> in_range c j))
     \<and> (\<forall>k. length (filter (\<lambda>c. in_range c k) cs) \<le> (if in_range t k then 1 else 0))
     \<and> (\<forall>c \<in> set cs. fj_ed c \<le> fj_ed t)"
proof -
  obtain b d n where t: "t = FjTask b d n" by (cases t)
  show ?thesis
  proof (cases "d \<le> b")
    case True
    then show ?thesis using run by (auto simp: t permuted_in_def in_range_def)
  next
    case less: False
    show ?thesis
    proof (cases "n > 0")
      case False
      then have "ys = alg_sort algs b d xs" "cs = []" using run less by (simp_all add: t)
      then show ?thesis
        using algs(2) less e unfolding sort_ok_def by (simp add: t in_range_def)
    next
      case True
      let ?m = "fj_mid b d"
      have m: "b \<le> ?m" "?m < d" using less mid_range [of b d] by auto
      have ys: "ys = alg_nth algs b ?m d xs" and cs: "cs = [FjTask b ?m (n - 1), FjTask (?m + 1) d (n - 1)]"
        using run less True by (auto simp: t Let_def)
      have A: "permuted_in b d xs ys" "\<And>i. b \<le> i \<Longrightarrow> i < ?m \<Longrightarrow> \<not> lt (ys ! ?m) (ys ! i)"
        "\<And>j. ?m < j \<Longrightarrow> j < d \<Longrightarrow> \<not> lt (ys ! j) (ys ! ?m)"
        using algs(1) m e unfolding nth_ok_def ys by (simp_all add: t)
      have "\<exists>c \<in> set cs. in_range c i \<and> in_range c j"
        if ij: "i < j" "in_range t i" "in_range t j" and inv: "lt (ys ! j) (ys ! i)" for i j
      proof -
        have r: "b \<le> i" "j < d" using ij by (auto simp: t in_range_def)
        have "\<not> (i < ?m \<and> ?m < j)"
          using A(2) [of i] A(3) [of j] r inv algs(3) unfolding strict_weak_def by metis
        moreover have "\<not> (i < ?m \<and> j = ?m)" "\<not> (i = ?m \<and> ?m < j)" using A(2) [of i] A(3) [of j] r inv by auto
        ultimately have "j < ?m \<or> ?m < i" using ij(1) by auto
        then show ?thesis using ij(1) r by (auto simp: cs in_range_def)
      qed
      moreover have "length (filter (\<lambda>c. in_range c k) cs) \<le> (if in_range t k then 1 else 0)" for k
        using m by (auto simp: cs t in_range_def)
      ultimately show ?thesis using A(1) less m by (auto simp: t cs)
    qed
  qed
qed

lemma fj_inv_step:
  assumes algs: "nth_ok lt (alg_nth algs)" "sort_ok lt (alg_sort algs)" "strict_weak lt"
    and inv: "fj_inv lt xs s" and step: "fj_do algs i s = Some s'"
  shows "fj_inv lt xs s'"
proof -
  define t where "t = fj_tasks s ! i"
  define as where "as = take i (fj_tasks s)"
  define bs where "bs = drop (Suc i) (fj_tasks s)"
  obtain ys cs where run: "fork_join_sort algs t (fj_vec s) = (ys, cs)" by fastforce
  have i: "i < length (fj_tasks s)" and s': "s' = \<lparr>fj_vec = ys, fj_tasks = as @ cs @ bs\<rparr>"
    using step run by (auto simp: fj_do_def t_def as_def bs_def split: if_splits)
  have ts: "fj_tasks s = as @ t # bs" using i unfolding t_def as_def bs_def by (rule id_take_nth_drop)
  have ok: "ranges_ok (length (fj_vec s)) (as @ t # bs)" and st: "settled lt (as @ t # bs) (fj_vec s)"
    and ms: "mset (fj_vec s) = mset xs" using inv by (simp_all add: fj_inv_def ts)
  have e: "fj_ed t \<le> length (fj_vec s)" using ok by (simp add: ranges_ok_def)
  note C = call_spec [OF algs e run]
  have len: "length ys = length (fj_vec s)" using C by (simp add: permuted_in_def)
  have "mset ys = mset (fj_vec s)" using C permuted_mset [OF _ _ e] by blast
  moreover have "ranges_ok (length ys) (as @ cs @ bs)"
  proof -
    have "length (filter (\<lambda>t. in_range t k) (as @ cs @ bs)) \<le> 1" for k
    proof -
      have "length (filter (\<lambda>t. in_range t k) (as @ t # bs)) \<le> 1" using ok by (simp add: ranges_ok_def)
      moreover have "length (filter (\<lambda>t. in_range t k) cs) \<le> (if in_range t k then 1 else 0)" using C by blast
      ultimately show ?thesis by (auto split: if_splits)
    qed
    moreover have "fj_ed u \<le> length ys" if "u \<in> set (as @ cs @ bs)" for u
    proof (cases "u \<in> set cs")
      case True
      then show ?thesis using C e len by (metis order_trans)
    next
      case False
      then show ?thesis using that ok len by (auto simp: ranges_ok_def)
    qed
    ultimately show ?thesis unfolding ranges_ok_def by blast
  qed
  moreover have "settled lt (as @ cs @ bs) ys" by (rule settled_step [OF ok st]) (use C in blast)+
  ultimately show ?thesis using ms by (simp add: fj_inv_def s')
qed

lemma fj_inv_start: "strict_weak lt \<Longrightarrow> fj_inv lt xs (fj_start xs depth)"
  by (auto simp: fj_inv_def fj_start_def ranges_ok_def settled_def in_range_def)

subsection \<open>Every schedule ends\<close>

definition fj_weight :: "fj_task list \<Rightarrow> nat" where
  "fj_weight ts = sum_list (map (\<lambda>t. 3 ^ fj_times t) ts)"

lemma call_weight: "fork_join_sort algs t xs = (ys, cs) \<Longrightarrow> fj_weight cs < 3 ^ fj_times t"
proof (cases t)
  case (FjTask b d n)
  assume "fork_join_sort algs t xs = (ys, cs)"
  then show ?thesis by (cases n) (auto simp: FjTask fj_weight_def Let_def split: if_splits)
qed

lemma fj_do_weight:
  assumes "fj_do algs i s = Some s'"
  shows "fj_weight (fj_tasks s') < fj_weight (fj_tasks s)"
proof -
  obtain ys cs where run: "fork_join_sort algs (fj_tasks s ! i) (fj_vec s) = (ys, cs)" by fastforce
  have i: "i < length (fj_tasks s)" and s': "s' = \<lparr>fj_vec = ys, fj_tasks = take i (fj_tasks s) @ cs @ drop (Suc i) (fj_tasks s)\<rparr>"
    using assms run by (auto simp: fj_do_def split: if_splits)
  have "fj_weight (fj_tasks s) = fj_weight (take i (fj_tasks s) @ fj_tasks s ! i # drop (Suc i) (fj_tasks s))"
    using id_take_nth_drop [OF i] by simp
  then show ?thesis using call_weight [OF run] by (simp add: s' fj_weight_def)
qed

lemma fj_runs_bounded: "(fj_step algs ^^ k) s t \<Longrightarrow> k + fj_weight (fj_tasks t) \<le> fj_weight (fj_tasks s)"
proof (induction k arbitrary: t)
  case (Suc k)
  then obtain u where u: "(fj_step algs ^^ k) s u" "fj_step algs u t" by auto
  then have "fj_weight (fj_tasks t) < fj_weight (fj_tasks u)" using fj_do_weight by (auto simp: fj_step_def)
  then show ?case using Suc.IH [OF u(1)] by simp
qed simp

subsection \<open>Properties\<close>

lemma fj_steps_inv:
  assumes "nth_ok lt (alg_nth algs)" "sort_ok lt (alg_sort algs)" "strict_weak lt"
  shows "(fj_step algs ^^ k) (fj_start xs depth) s \<Longrightarrow> fj_inv lt xs s"
proof (induction k arbitrary: s)
  case 0
  then show ?case using fj_inv_start [OF assms(3), of xs depth] by auto
next
  case (Suc k)
  then obtain u where u: "(fj_step algs ^^ k) (fj_start xs depth) u" "fj_step algs u s" by auto
  then show ?case using fj_inv_step [OF assms Suc.IH [OF u(1)]] unfolding fj_step_def by blast
qed

text \<open>Both algorithms by insertion sort of the range, for the witness.\<close>

definition sort_range :: "nat \<Rightarrow> nat \<Rightarrow> nat list \<Rightarrow> nat list" where
  "sort_range b e xs = take b xs @ sort (drop b (take e xs)) @ drop e xs"

definition demo_algs :: "nat fj_algs" where
  "demo_algs = \<lparr>alg_nth = (\<lambda>b m. sort_range b), alg_sort = sort_range\<rparr>"

lemma sort_range_spec:
  assumes "b \<le> e" and "e \<le> length xs"
  shows "permuted_in b e xs (sort_range b e xs)"
    and "b \<le> i \<Longrightarrow> i < j \<Longrightarrow> j < e \<Longrightarrow> sort_range b e xs ! i \<le> sort_range b e xs ! j"
proof -
  let ?m = "drop b (take e xs)"
  have len: "length (take b xs) = b" "length (sort ?m) = e - b" using assms by simp_all
  show "permuted_in b e xs (sort_range b e xs)"
    using assms len by (simp add: permuted_in_def sort_range_def)
  have at: "sort_range b e xs ! k = sort ?m ! (k - b)" if "b \<le> k" "k < e" for k
    using that assms len by (simp add: sort_range_def nth_append)
  assume "b \<le> i" "i < j" "j < e"
  then show "sort_range b e xs ! i \<le> sort_range b e xs ! j"
    using at [of i] at [of j] len(2) sorted_nth_mono [OF sorted_sort, of "i - b" "j - b" ?m] by simp
qed

lemma demo_algs_ok:
  "nth_ok (<) (alg_nth demo_algs)" "sort_ok (<) (alg_sort demo_algs)" "strict_weak ((<) :: nat \<Rightarrow> nat \<Rightarrow> bool)"
proof -
  show "nth_ok (<) (alg_nth demo_algs)"
    unfolding nth_ok_def demo_algs_def using sort_range_spec by (simp add: not_less)
  show "sort_ok (<) (alg_sort demo_algs)"
    unfolding sort_ok_def demo_algs_def using sort_range_spec by (simp add: not_less)
qed (auto simp: strict_weak_def)

text \<open>
  Property C32: the parallel sort sorts. Whatever the order in which the context and the pool's threads
  carry out the calls: there are never more than \<open>3 ^ depth\<close> of them, some call can go on as long as one is
  unfinished, the vector is a permutation of the input at every moment, and when no call is left it has no
  inversion. The two algorithms of the standard library are assumed to do what they document.
\<close>

theorem fork_join_sort_sorts:
  assumes "nth_ok lt (alg_nth algs)" and "sort_ok lt (alg_sort algs)" and "strict_weak lt"
    and "(fj_step algs ^^ k) (fj_start xs depth) s"
  shows "k \<le> 3 ^ depth \<and> mset (fj_vec s) = mset xs
     \<and> (if fj_tasks s = [] then \<forall>i j. i < j \<and> j < length xs \<longrightarrow> \<not> lt (fj_vec s ! j) (fj_vec s ! i)
        else \<exists>t. fj_step algs s t)"
proof -
  have inv: "fj_inv lt xs s" by (rule fj_steps_inv [OF assms])
  then have ms: "mset (fj_vec s) = mset xs" by (simp add: fj_inv_def)
  then have len: "length (fj_vec s) = length xs" by (metis size_mset)
  have "k \<le> 3 ^ depth" using fj_runs_bounded [OF assms(4)] by (simp add: fj_weight_def fj_start_def)
  moreover have "\<exists>t. fj_step algs s t" if "fj_tasks s \<noteq> []"
  proof -
    have "fj_do algs 0 s \<noteq> None" using that by (simp add: fj_do_def split_def Let_def)
    then show ?thesis by (auto simp: fj_step_def)
  qed
  ultimately show ?thesis using inv ms len by (auto simp: fj_inv_def settled_def)
qed

text \<open>Six numbers, split twice; the right half is finished first.\<close>

definition demo_sort_run :: "nat fj_state option" where
  "demo_sort_run = run_schedule (fj_do demo_algs) [0, 1, 2, 1, 0, 0, 0] (fj_start [4, 1, 5, 2, 6, 3] 2)"

lemma demo_sort_end: "demo_sort_run = Some \<lparr>fj_vec = [1, 2, 3, 4, 5, 6], fj_tasks = []\<rparr>"
  by code_simp

lemma schedule_power: "run_schedule (fj_do algs) is s = Some t \<Longrightarrow> (fj_step algs ^^ length is) s t"
proof (induction "is" arbitrary: s)
  case (Cons i "is")
  then obtain u where u: "fj_do algs i s = Some u" "run_schedule (fj_do algs) is u = Some t"
    by (auto split: option.splits)
  then have "fj_step algs s u" by (auto simp: fj_step_def)
  then show ?case unfolding length_Cons using Cons.IH [OF u(2)] by (rule relpowp_Suc_I2)
qed simp

theorem fork_join_sort_sorts_witness:
  "mset [1, 2, 3, 4, 5, 6 :: nat] = mset [4, 1, 5, 2, 6, 3]
   \<and> \<not> [1, 2, 3, 4, 5, 6 :: nat] ! 5 < [1, 2, 3, 4, 5, 6] ! 0"
proof -
  have run: "(fj_step demo_algs ^^ length [0, 1, 2, 1, 0, 0, 0 :: nat]) (fj_start [4, 1, 5, 2, 6, 3] 2)
      \<lparr>fj_vec = [1, 2, 3, 4, 5, 6], fj_tasks = []\<rparr>"
    by (rule schedule_power) (rule demo_sort_end [unfolded demo_sort_run_def])
  note all = fork_join_sort_sorts [OF demo_algs_ok run]
  then have "\<forall>i j. i < j \<and> j < 6 \<longrightarrow> \<not> [1, 2, 3, 4, 5, 6 :: nat] ! j < [1, 2, 3, 4, 5, 6] ! i" by simp
  then have "\<not> [1, 2, 3, 4, 5, 6 :: nat] ! 5 < [1, 2, 3, 4, 5, 6] ! 0" by auto
  with all show ?thesis by (simp add: fj_start_def)
qed

end
