(* ===== verification/Copy_Examples.thy ===== *)
theory Copy_Examples
  imports File_Handles "HOL-Library.Sublist"
begin

section \<open>The examples that read files (examples/v3: copyfile.cpp, copyfile-cb.cpp, count-lines.cpp)\<close>

text \<open>
  Programs over \<^verbatim>\<open>File\<close>: a copy as a coroutine, the same copy with callbacks, and a count of the lines of many
  files. They use the requests and the offsets of the theory of files; the system's answers are arguments,
  and its effect on the content is written out here.
\<close>

subsection \<open>The system's side\<close>

text \<open>
  An answer is an error number or the most the system transfers this time. A read gives the bytes at the
  request's offset, a write replaces them.
\<close>

type_synonym answer = "int + nat"

definition os_read :: "answer \<Rightarrow> 'p io_request \<Rightarrow> byte list \<Rightarrow> error_code \<times> byte list" where
  "os_read ans req content =
     (case (ans, req) of
        (Inl e, _) \<Rightarrow> (make_system_error_code e, [])
      | (Inr n, ReadFileReq fd buf len off) \<Rightarrow> (no_error, take (min n len) (drop off content))
      | _ \<Rightarrow> (no_error, []))"

definition os_write :: "answer \<Rightarrow> 'p io_request \<Rightarrow> byte list \<Rightarrow> byte list \<Rightarrow> error_code \<times> nat \<times> byte list" where
  "os_write ans req buf content =
     (case (ans, req) of
        (Inl e, _) \<Rightarrow> (make_system_error_code e, 0, content)
      | (Inr n, WriteFileReq fd msg len off) \<Rightarrow>
          (let data = take (min n len) buf
           in (no_error, length data,
               take off (content @ replicate (off - length content) 0) @ data @ drop (off + length data) content))
      | _ \<Rightarrow> (no_error, 0, content))"

subsection \<open>Copying in a coroutine\<close>

record copier =
  cy_from :: file_t
  cy_to :: file_t
  cy_buf :: "byte list"
  cy_src :: "byte list"
  cy_dst :: "byte list"

datatype copy_end = CopyEof | CopyFailed error_code | CopyFatal fatal | CopyWaits

text \<open>
  \<^verbatim>\<open>copyfile\<close>: the answers to its reads and writes in pairs; \<open>CopyWaits\<close> when the answers are used up.
  \<^verbatim>\<open>| throw_on_err\<close> ends it with the error, which the handler given to \<^verbatim>\<open>spawn\<close> prints.
\<close>

fun copyfile :: "nat \<Rightarrow> nat \<Rightarrow> (answer \<times> answer) list \<Rightarrow> copier \<Rightarrow> copy_end \<times> copier" where
  "copyfile local h [] s = (CopyWaits, s)"
| "copyfile local h ((ra, wa) # answers) s =
     (case file_read local 0 1024 (ResumeCoroutine h) (cy_from s) of
        Inl e \<Rightarrow> (CopyFatal e, s)
      | Inr (f, req, _) \<Rightarrow>
          (let (ec, data) = os_read ra req (cy_src s);
               (r, f) = file_read_done ec (of_nat (length data)) f;
               s = s\<lparr>cy_from := f, cy_buf := data\<rparr>
           in case pipe_throw r of
                Inl ec \<Rightarrow> (CopyFailed ec, s)
              | Inr rd \<Rightarrow>
                  if rd = 0 then (CopyEof, s)
                  else (case file_write local 0 (unat rd) (ResumeCoroutine h) (cy_to s) of
                          Inl e \<Rightarrow> (CopyFatal e, s)
                        | Inr (t, req, _) \<Rightarrow>
                            (let (ec, n, dst) = os_write wa req (cy_buf s) (cy_dst s);
                                 (r, t) = file_write_done ec (of_nat n) t;
                                 s = s\<lparr>cy_to := t, cy_dst := dst\<rparr>
                             in case pipe_throw r of
                                  Inl ec \<Rightarrow> (CopyFailed ec, s)
                                | Inr _ \<Rightarrow> copyfile local h answers s))))"

subsection \<open>Copying with callbacks\<close>

text \<open>
  The class \<^verbatim>\<open>CopyFile\<close>: \<^verbatim>\<open>read\<close> and \<^verbatim>\<open>write\<close> start an operation, and the completion calls back, which
  starts the next one or stops the context. The state is what is under way.
\<close>

datatype copy_pending = Reads "completion io_request" | Writes "completion io_request" | Stops copy_end

definition cb_read :: "nat \<Rightarrow> copier \<Rightarrow> copy_pending \<times> copier" where
  "cb_read local s =
     (case file_read local 0 1024 (CallFunctor 0) (cy_from s) of
        Inl e \<Rightarrow> (Stops (CopyFatal e), s)
      | Inr (f, req, _) \<Rightarrow> (Reads req, s\<lparr>cy_from := f\<rparr>))"

definition cb_write :: "nat \<Rightarrow> size_t \<Rightarrow> copier \<Rightarrow> copy_pending \<times> copier" where
  "cb_write local len s =
     (case file_write local 0 (unat len) (CallFunctor 1) (cy_to s) of
        Inl e \<Rightarrow> (Stops (CopyFatal e), s)
      | Inr (f, req, _) \<Rightarrow> (Writes req, s\<lparr>cy_to := f\<rparr>))"

definition read_callback :: "nat \<Rightarrow> error_code \<Rightarrow> size_t \<Rightarrow> copier \<Rightarrow> copy_pending \<times> copier" where
  "read_callback local ec len s =
     (if is_error ec \<or> len = 0 then (Stops (if is_error ec then CopyFailed ec else CopyEof), s) else cb_write local len s)"

definition write_callback :: "nat \<Rightarrow> error_code \<Rightarrow> size_t \<Rightarrow> copier \<Rightarrow> copy_pending \<times> copier" where
  "write_callback local ec len s = (if is_error ec then (Stops (CopyFailed ec), s) else cb_read local s)"

definition cb_complete :: "nat \<Rightarrow> answer \<Rightarrow> copy_pending \<times> copier \<Rightarrow> copy_pending \<times> copier" where
  "cb_complete local ans ps =
     (case ps of
        (Reads req, s) \<Rightarrow>
          (let (ec, data) = os_read ans req (cy_src s);
               (r, f) = file_read_done ec (of_nat (length data)) (cy_from s)
           in read_callback local ec (of_nat (length data)) (s\<lparr>cy_from := f, cy_buf := data\<rparr>))
      | (Writes req, s) \<Rightarrow>
          (let (ec, n, dst) = os_write ans req (cy_buf s) (cy_dst s);
               (r, t) = file_write_done ec (of_nat n) (cy_to s)
           in write_callback local ec (of_nat n) (s\<lparr>cy_to := t, cy_dst := dst\<rparr>))
      | (Stops e, s) \<Rightarrow> (Stops e, s))"

definition copyfile_cb :: "nat \<Rightarrow> (answer \<times> answer) list \<Rightarrow> copier \<Rightarrow> copy_pending \<times> copier" where
  "copyfile_cb local answers s = fold (\<lambda>(ra, wa) ps. cb_complete local wa (cb_complete local ra ps)) answers (cb_read local s)"

subsection \<open>Counting lines\<close>

text \<open>\<^verbatim>\<open>sv.find('\n', pos)\<close> and the loop over a chunk.\<close>

definition newline :: byte where
  "newline = 10"

fun find_from :: "byte list \<Rightarrow> nat \<Rightarrow> nat option" where
  "find_from [] pos = None"
| "find_from (b # bs) 0 = (if b = newline then Some 0 else map_option Suc (find_from bs 0))"
| "find_from (b # bs) (Suc pos) = map_option Suc (find_from bs pos)"

lemma find_from_bounds: "find_from sv pos = Some p \<Longrightarrow> pos \<le> p \<and> p < length sv"
  by (induction sv pos arbitrary: p rule: find_from.induct) (auto split: if_splits)

function count_chunk :: "byte list \<Rightarrow> nat \<Rightarrow> size_t \<Rightarrow> size_t" where
  "count_chunk sv pos lines =
     (case find_from sv pos of None \<Rightarrow> lines | Some p \<Rightarrow> count_chunk sv (Suc p) (lines + 1))"
  by pat_completeness auto
termination
  by (relation "measure (\<lambda>(sv, pos, lines). length sv - pos)") (auto dest: find_from_bounds)

declare count_chunk.simps [simp del]

text \<open>
  The coroutines \<^verbatim>\<open>count_one_file\<close>, one for each regular file, with the members they share. A file that
  cannot be opened ends its coroutine before the counter is decremented, as in the source.
\<close>

record counted_file =
  ct_data :: "byte list"
  ct_opens :: bool
  ct_file :: "file_t option"
  ct_done :: bool

record line_counter =
  lc_files :: "counted_file list"
  lc_count_down :: size_t
  lc_lines :: size_t
  lc_notified :: nat

definition new_file :: "byte list \<times> bool \<Rightarrow> counted_file" where
  "new_file f = \<lparr>ct_data = fst f, ct_opens = snd f, ct_file = None, ct_done = False\<rparr>"

text \<open>\<^verbatim>\<open>count_all\<close> up to its wait: a coroutine for every file.\<close>

definition count_all :: "(byte list \<times> bool) list \<Rightarrow> line_counter" where
  "count_all files =
     fold (\<lambda>f s. s\<lparr>lc_count_down := lc_count_down s + 1, lc_files := lc_files s @ [new_file f]\<rparr>) files
       \<lparr>lc_files = [], lc_count_down = 0, lc_lines = 0, lc_notified = 0\<rparr>"

definition count_ends :: "line_counter \<Rightarrow> line_counter" where
  "count_ends s =
     (let s = s\<lparr>lc_count_down := lc_count_down s - 1\<rparr>
      in if lc_count_down s = 0 then s\<lparr>lc_notified := Suc (lc_notified s)\<rparr> else s)"

text \<open>A resumption of coroutine \<open>i\<close>, up to its next suspension: the opening, or the rest of an iteration.\<close>

definition count_one_file :: "nat \<Rightarrow> nat \<Rightarrow> answer \<Rightarrow> line_counter \<Rightarrow> line_counter" where
  "count_one_file local i ans s =
     (let c = lc_files s ! i
      in case ct_file c of
           None \<Rightarrow>
             (let fl = file_open (\<lambda>_. if ct_opens c then int i + 3 else -1) None ReadOnly
              in if fl_handle fl = kInvalidHandle
                 then s\<lparr>lc_files := (lc_files s)[i := c\<lparr>ct_done := True\<rparr>]\<rparr>
                 else s\<lparr>lc_files := (lc_files s)[i := c\<lparr>ct_file := Some fl\<rparr>]\<rparr>)
         | Some fl \<Rightarrow>
             (case file_read local 0 1024 (ResumeCoroutine i) fl of
                Inl e \<Rightarrow> s
              | Inr (fl, req, _) \<Rightarrow>
                  (let (ec, data) = os_read ans req (ct_data c);
                       (r, fl) = file_read_done ec (of_nat (length data)) fl
                   in if is_error ec \<or> data = []
                      then count_ends (s\<lparr>lc_files := (lc_files s)[i := c\<lparr>ct_file := Some fl, ct_done := True\<rparr>]\<rparr>)
                      else s\<lparr>lc_files := (lc_files s)[i := c\<lparr>ct_file := Some fl\<rparr>],
                             lc_lines := count_chunk data 0 (lc_lines s)\<rparr>)))"

subsection \<open>The two copies\<close>

text \<open>The program up to the loop: it ends when one of the files cannot be opened.\<close>

definition copy_open :: "(int \<Rightarrow> int) \<Rightarrow> (int \<Rightarrow> int) \<Rightarrow> byte list \<Rightarrow> copier checked" where
  "copy_open sys_from sys_to src =
     (let from = file_open sys_from None ReadOnly; to = file_open sys_to None (WriteOnly OR Create OR Truncate)
      in if fl_handle from = kInvalidHandle \<or> fl_handle to = kInvalidHandle then Inl (Fatal ''cannot open file'')
         else Inr \<lparr>cy_from = from, cy_to = to, cy_buf = [], cy_src = src, cy_dst = []\<rparr>)"

text \<open>Between two iterations: both files are open and attached to this context or to none, and where they are.\<close>

definition usable :: "nat \<Rightarrow> file_t \<Rightarrow> bool" where
  "usable local f \<longleftrightarrow> fl_handle f \<noteq> kInvalidHandle \<and> (fl_attached f = None \<or> fl_attached f = Some local)"

definition copy_at :: "nat \<Rightarrow> nat \<Rightarrow> copier \<Rightarrow> bool" where
  "copy_at local k s \<longleftrightarrow> usable local (cy_from s) \<and> usable local (cy_to s) \<and> length (cy_src s) < 2 ^ 64
     \<and> fl_read_offset (cy_from s) = of_nat k \<and> k \<le> length (cy_src s)
     \<and> fl_write_offset (cy_to s) = of_nat (length (cy_dst s)) \<and> subseq (cy_dst s) (take k (cy_src s))"

lemma usable_read:
  assumes "usable local f"
  shows "file_read local buf len c f = Inr (f\<lparr>fl_attached := Some local\<rparr>,
           ReadFileReq (fl_handle f) buf len (unat (fl_read_offset f)), c)"
    and "file_write local buf len c f = Inr (f\<lparr>fl_attached := Some local\<rparr>,
           WriteFileReq (fl_handle f) buf len (unat (fl_write_offset f)), c)"
proof -
  obtain n where "file_attach_context local f = Inr (f\<lparr>fl_attached := Some local\<rparr>, n)"
    using attached_file [of f local] assms by (auto simp: usable_def)
  then show "file_read local buf len c f = Inr (f\<lparr>fl_attached := Some local\<rparr>,
           ReadFileReq (fl_handle f) buf len (unat (fl_read_offset f)), c)"
    and "file_write local buf len c f = Inr (f\<lparr>fl_attached := Some local\<rparr>,
           WriteFileReq (fl_handle f) buf len (unat (fl_write_offset f)), c)"
    by (simp_all add: file_read_def file_write_def)
qed

lemma usable_kept [simp]:
  "usable local f \<Longrightarrow> usable local (f\<lparr>fl_attached := Some local, fl_read_offset := n\<rparr>)"
  "usable local f \<Longrightarrow> usable local (f\<lparr>fl_attached := Some local, fl_write_offset := n\<rparr>)"
  by (simp_all add: usable_def)

lemma copy_open_at: "copy_open sys_from sys_to src = Inr s \<Longrightarrow> length src < 2 ^ 64 \<Longrightarrow> copy_at local 0 s \<and> cy_src s = src \<and> cy_dst s = []"
  by (auto simp: copy_open_def copy_at_def usable_def file_open_def file_reset_def Let_def ReadOnly_def WriteOnly_def
      Create_def Truncate_def Append_def split: if_splits)

text \<open>
  What the system promises: an error is not 0, and a read that is not at the end gives at least a byte. A write
  may take any part of what it is given; it is complete when it takes all that a single read can give.
\<close>

definition answer_ok :: "answer \<times> answer \<Rightarrow> bool" where
  "answer_ok a \<longleftrightarrow> (case fst a of Inl e \<Rightarrow> e \<noteq> 0 | Inr n \<Rightarrow> 0 < n) \<and> (case snd a of Inl e \<Rightarrow> e \<noteq> 0 | Inr m \<Rightarrow> True)"

definition complete_write :: "answer \<times> answer \<Rightarrow> bool" where
  "complete_write a \<longleftrightarrow> (case snd a of Inl e \<Rightarrow> True | Inr m \<Rightarrow> 1024 \<le> m)"

lemma piece_small:
  assumes "(n :: nat) \<le> 1024"
  shows "unat (of_nat n :: size_t) = n" and "(of_nat n :: size_t) = 0 \<longleftrightarrow> n = 0"
proof -
  show u: "unat (of_nat n :: size_t) = n" using assms by (intro unat_of_nat_size_t) simp
  show "(of_nat n :: size_t) = 0 \<longleftrightarrow> n = 0" using u by (auto dest: arg_cong [of _ _ unat])
qed

lemma os_write_end:
  assumes "length content = off"
  shows "os_write (Inr m) (WriteFileReq fd msg (length buf) off) buf content
    = (no_error, length (take m buf), content @ take m buf)"
  using assms by (simp add: os_write_def min_def)

lemma copy_step:
  assumes "copy_at local k s" and "answer_ok (ra, wa)"
  shows "case ra of
      Inl e \<Rightarrow> \<exists>t. copyfile local h ((ra, wa) # answers) s = (CopyFailed (make_system_error_code e), t)
                  \<and> cy_dst t = cy_dst s \<and> cy_src t = cy_src s
    | Inr n \<Rightarrow>
        if k = length (cy_src s)
        then \<exists>t. copyfile local h ((ra, wa) # answers) s = (CopyEof, t) \<and> cy_dst t = cy_dst s \<and> cy_src t = cy_src s
        else case wa of
               Inl e \<Rightarrow> \<exists>t. copyfile local h ((ra, wa) # answers) s = (CopyFailed (make_system_error_code e), t)
                           \<and> cy_dst t = cy_dst s \<and> cy_src t = cy_src s
             | Inr m \<Rightarrow> \<exists>j t. k < j \<and> copy_at local j t \<and> cy_src t = cy_src s
                           \<and> (1024 \<le> m \<and> cy_dst s = take k (cy_src s) \<longrightarrow> cy_dst t = take j (cy_src s))
                           \<and> copyfile local h ((ra, wa) # answers) s = copyfile local h answers t"
proof -
  let ?f = "cy_from s" and ?t = "cy_to s"
  have u: "usable local ?f" "usable local ?t" and k: "k \<le> length (cy_src s)" "length (cy_src s) < 2 ^ 64"
    and w: "fl_read_offset ?f = of_nat k" "fl_write_offset ?t = of_nat (length (cy_dst s))"
    and dst: "subseq (cy_dst s) (take k (cy_src s))"
    using assms(1) by (auto simp: copy_at_def)
  have "length (cy_dst s) \<le> k" using list_emb_length [OF dst] by simp
  then have off: "unat (fl_read_offset ?f) = k" "unat (fl_write_offset ?t) = length (cy_dst s)"
    using k by (simp_all add: w unat_of_nat_size_t)
  have small: "min (length (cy_src s) - k) (min n 1024) \<le> 1024" for n by simp
  note rw0 = usable_read (1) [OF u(1)] usable_read (2) [OF u(2)] os_read_def file_read_done_def
    file_write_done_def result_of_def pipe_throw_def Let_def off
  note rw = rw0 os_write_def piece_small [OF small]
  show ?thesis
  proof (cases ra)
    case (Inl e) with assms(2) show ?thesis by (simp add: rw answer_ok_def)
  next
    case (Inr n)
    let ?d = "take (min n 1024) (drop k (cy_src s))"
    have n: "0 < n" using assms(2) Inr by (simp add: answer_ok_def)
    show ?thesis
    proof (cases "k = length (cy_src s)")
      case True then show ?thesis using Inr by (simp add: rw)
    next
      case False
      then have d: "?d \<noteq> []" using n k by auto
      show ?thesis
      proof (cases wa)
        case (Inl e) with assms(2) False d Inr n k show ?thesis by (simp add: rw answer_ok_def)
      next
        case wa: (Inr m)
        define d where "d = ?d"
        define w_d where "w_d = take m d"
        let ?s = "s\<lparr>cy_from := ?f\<lparr>fl_attached := Some local, fl_read_offset := fl_read_offset ?f + of_nat (length d)\<rparr>,
          cy_buf := d, cy_to := ?t\<lparr>fl_attached := Some local, fl_write_offset := fl_write_offset ?t + of_nat (length w_d)\<rparr>,
          cy_dst := cy_dst s @ w_d\<rparr>"
        have nd: "d \<noteq> []" and small_d: "length d \<le> 1024" using d by (auto simp: d_def)
        have chunk: "take k (cy_src s) @ d = take (k + length d) (cy_src s)" using k by (simp add: d_def take_add min_def)
        have "copyfile local h ((ra, wa) # answers) s = copyfile local h answers ?s"
          unfolding Inr wa using nd
          by (simp add: rw0 piece_small [OF small_d] os_write_end [OF refl] d_def [symmetric] w_d_def [symmetric] del: length_take)
        moreover have "subseq (cy_dst s @ w_d) (take (k + length d) (cy_src s))"
          unfolding chunk [symmetric] w_d_def by (intro list_emb_append_mono dst prefix_imp_subseq take_is_prefix)
        then have "copy_at local (k + length d) ?s"
          using u k w by (simp add: copy_at_def) (simp add: d_def)
        moreover have "1024 \<le> m \<and> cy_dst s = take k (cy_src s) \<longrightarrow> cy_dst s @ w_d = take (k + length d) (cy_src s)"
          using small_d chunk by (simp add: w_d_def)
        ultimately show ?thesis using False Inr wa nd
          by (auto intro!: exI [of _ "k + length d"] exI [of _ ?s] simp del: copyfile.simps)
      qed
    qed
  qed
qed

lemma copyfile_from:
  "copy_at local k s \<Longrightarrow> \<forall>a \<in> set answers. answer_ok a \<Longrightarrow> copyfile local h answers s = (e, t) \<Longrightarrow>
   cy_src t = cy_src s \<and> subseq (cy_dst t) (cy_src s)
   \<and> ((\<forall>a \<in> set answers. complete_write a) \<and> cy_dst s = take k (cy_src s)
        \<longrightarrow> prefix (cy_dst t) (cy_src s) \<and> (e = CopyEof \<longrightarrow> cy_dst t = cy_src s))
   \<and> (\<forall>msg. e \<noteq> CopyFatal msg) \<and> (length (cy_src s) - k < length answers \<longrightarrow> e \<noteq> CopyWaits)
   \<and> ((\<forall>(ra, wa) \<in> set answers. \<exists>n m. ra = Inr n \<and> wa = Inr m) \<longrightarrow> e = CopyEof \<or> e = CopyWaits)"
proof (induction answers arbitrary: k s)
  case Nil
  have "subseq (take k (cy_src s)) (cy_src s)" by (simp add: prefix_imp_subseq take_is_prefix)
  then show ?case using Nil by (auto simp: copy_at_def take_is_prefix intro: subseq_order.order_trans)
next
  case (Cons a answers)
  obtain ra wa where a: "a = (ra, wa)" by (cases a)
  have ok: "answer_ok (ra, wa)" and oks: "\<forall>a \<in> set answers. answer_ok a" using Cons.prems(2) by (simp_all add: a)
  note step = copy_step [OF Cons.prems(1) ok, of h answers] and run = Cons.prems(3) [unfolded a]
  have k: "k \<le> length (cy_src s)" and dst: "subseq (cy_dst s) (take k (cy_src s))"
    using Cons.prems(1) by (auto simp: copy_at_def)
  show ?case
  proof (cases "\<exists>n m. ra = Inr n \<and> wa = Inr m \<and> k \<noteq> length (cy_src s)")
    case True
    then obtain n m where m: "ra = Inr n" "wa = Inr m" "k \<noteq> length (cy_src s)" by blast
    with step run obtain j v where j: "k < j" "copy_at local j v" "cy_src v = cy_src s"
      "1024 \<le> m \<and> cy_dst s = take k (cy_src s) \<longrightarrow> cy_dst v = take j (cy_src s)" and v: "copyfile local h answers v = (e, t)"
      by (simp del: copyfile.simps) metis
    have "j \<le> length (cy_src v)" using j(2) by (simp add: copy_at_def)
    then have fewer: "length (cy_src s) - k < length ((ra, wa) # answers) \<longrightarrow> length (cy_src v) - j < length answers"
      using j by auto
    show ?thesis using Cons.IH [OF j(2) oks v] fewer j(4) by (simp add: a j(3) m complete_write_def)
  next
    case False
    have "subseq (cy_dst s) (cy_src s)"
      using dst by (rule subseq_order.order_trans) (simp add: prefix_imp_subseq take_is_prefix)
    then show ?thesis using step run k False
      by (auto simp: a take_is_prefix simp del: copyfile.simps split: sum.splits if_splits)
  qed
qed


definition copied :: "answer list \<Rightarrow> byte list \<Rightarrow> copy_end \<times> byte list" where
  "copied answers src =
     (case copy_open (\<lambda>_. 3) (\<lambda>_. 4) src of
        Inl e \<Rightarrow> (CopyFatal e, [])
      | Inr s \<Rightarrow> (let (e, t) = copyfile 1 7 (map (\<lambda>r. (r, Inr 2048)) answers) s in (e, cy_dst t)))"


text \<open>Without complete writes: a write that takes a byte only, and the second one is lost.\<close>

lemma short_write_loses_bytes:
  "fst (copyfile 1 7 [(Inr 2, Inr 1), (Inr 2, Inr 1), (Inr 2, Inr 1)] s) = CopyEof
   \<and> cy_dst (snd (copyfile 1 7 [(Inr 2, Inr 1), (Inr 2, Inr 1), (Inr 2, Inr 1)] s)) = [104, 10]"
  if "s = \<lparr>cy_from = file_reset\<lparr>fl_handle := 3\<rparr>, cy_to = file_reset\<lparr>fl_handle := 4\<rparr>, cy_buf = [],
      cy_src = [104, 105, 10], cy_dst = []\<rparr>"
  unfolding that by code_simp

lemma cb_complete_simps:
  "cb_complete local ans (Stops e, s) = (Stops e, s)"
  "os_read ans req (cy_src s) = (ec, data) \<Longrightarrow> cb_complete local ans (Reads req, s) =
     read_callback local ec (of_nat (length data)) (s\<lparr>cy_from := (cy_from s)\<lparr>fl_read_offset :=
       fl_read_offset (cy_from s) + of_nat (length data)\<rparr>, cy_buf := data\<rparr>)"
  "os_write ans req (cy_buf s) (cy_dst s) = (ec, n, dst) \<Longrightarrow> cb_complete local ans (Writes req, s) =
     write_callback local ec (of_nat n) (s\<lparr>cy_to := (cy_to s)\<lparr>fl_write_offset :=
       fl_write_offset (cy_to s) + of_nat n\<rparr>, cy_dst := dst\<rparr>)"
  by (simp_all add: cb_complete_def file_read_done_def file_write_done_def Let_def)

lemma cb_stopped: "fold (\<lambda>(ra, wa) ps. cb_complete local wa (cb_complete local ra ps)) answers (Stops e, t) = (Stops e, t)"
  by (induction answers) (auto simp: cb_complete_simps)

lemma same_request:
  "file_read local buf len (CallFunctor i) f =
     (case file_read local buf len (ResumeCoroutine h) f of Inl e \<Rightarrow> Inl e | Inr (f, r, _) \<Rightarrow> Inr (f, r, CallFunctor i))"
  "file_write local buf len (CallFunctor i) f =
     (case file_write local buf len (ResumeCoroutine h) f of Inl e \<Rightarrow> Inl e | Inr (f, r, _) \<Rightarrow> Inr (f, r, CallFunctor i))"
  by (auto simp: file_read_def file_write_def bind_checked_def split: sum.splits)

text \<open>
  The class with callbacks does what the coroutine does, for all answers of the system: it stops the
  context in the same state with the same end, or waits for a read in the state in which the coroutine waits.
\<close>

theorem callbacks_copy_like_the_coroutine:
  "copyfile_cb local answers s =
     (case copyfile local h answers s of (e, t) \<Rightarrow> if e = CopyWaits then cb_read local t else (Stops e, t))"
  unfolding copyfile_cb_def
proof (induction answers arbitrary: s)
  case (Cons a answers)
  obtain ra wa where a: "a = (ra, wa)" by (cases a)
  have start: "cb_read local s = (Reads req, s\<lparr>cy_from := f\<rparr>)"
    if "file_read local 0 1024 (ResumeCoroutine h) (cy_from s) = Inr (f, req, c)" for f req c
    using that by (simp add: cb_read_def same_request (1) [of local 0 _ 0 _ h])
  note cb = cb_read_def cb_complete_simps read_callback_def write_callback_def file_read_done_def file_write_done_def
    result_of_def pipe_throw_def Let_def same_request [of local 0 _ 0 _ h] same_request [of local 0 _ "Suc 0" _ h]
  show ?case
  proof (cases "file_read local 0 1024 (ResumeCoroutine h) (cy_from s)")
    case (Inl e) then show ?thesis by (simp add: a cb cb_stopped)
  next
    case (Inr x)
    obtain f req c where x: "x = (f, req, c)" by (cases x)
    obtain ec data where rd: "os_read ra req (cy_src s) = (ec, data)" by (cases "os_read ra req (cy_src s)")
    let ?n = "of_nat (length data) :: size_t"
    show ?thesis
    proof (cases "is_error ec \<or> ?n = 0")
      case True then show ?thesis using Inr rd by (auto simp: a x cb cb_stopped)
    next
      case False
      show ?thesis
      proof (cases "file_write local 0 (unat ?n) (ResumeCoroutine h) (cy_to s)")
        case (Inl e) then show ?thesis using Inr rd False by (simp add: a x cb cb_write_def cb_stopped)
      next
        case w: (Inr y)
        obtain g wreq d where y: "y = (g, wreq, d)" by (cases y)
        obtain wec n dst where wr: "os_write wa wreq data (cy_dst s) = (wec, n, dst)"
          by (cases "os_write wa wreq data (cy_dst s)")
        show ?thesis
        proof (cases "is_error wec")
          case True then show ?thesis using Inr rd False w wr by (simp add: a x y cb cb_write_def cb_stopped)
        next
          case no: False
          then show ?thesis using Inr rd False w wr
            by (simp add: a x y cb_complete_simps cb_write_def read_callback_def write_callback_def file_read_done_def
                file_write_done_def result_of_def pipe_throw_def Let_def same_request (2) [of local 0 _ "Suc 0" _ h] Cons.IH [symmetric]
                start)
        qed
      qed
    qed
  qed
qed simp

lemma count_list_find:
  "find_from sv pos = None \<Longrightarrow> count_list (drop pos sv) newline = 0"
  "find_from sv pos = Some p \<Longrightarrow> count_list (drop pos sv) newline = Suc (count_list (drop (Suc p) sv) newline)"
  by (induction sv pos arbitrary: p rule: find_from.induct) (auto split: if_splits)

lemma count_chunk_eq: "count_chunk sv pos lines = lines + of_nat (count_list (drop pos sv) newline)"
proof (induction sv pos lines rule: count_chunk.induct)
  case (1 sv pos lines)
  then show ?case
    by (subst count_chunk.simps) (auto simp: count_list_find split: option.splits)
qed

subsection \<open>The lines that are counted\<close>

text \<open>The context resumes the coroutines in some order; one that has ended is not resumed again.\<close>

definition count_resume :: "nat \<Rightarrow> nat \<times> answer \<Rightarrow> line_counter \<Rightarrow> line_counter" where
  "count_resume local r s =
     (if fst r < length (lc_files s) \<and> \<not> ct_done (lc_files s ! fst r) then count_one_file local (fst r) (snd r) s else s)"

definition count_run :: "nat \<Rightarrow> (nat \<times> answer) list \<Rightarrow> line_counter \<Rightarrow> line_counter" where
  "count_run local schedule s = fold (count_resume local) schedule s"

text \<open>What a file has contributed so far, and whether its coroutine has still to decrement the counter.\<close>

definition lines_read :: "counted_file \<Rightarrow> nat" where
  "lines_read c = (case ct_file c of None \<Rightarrow> 0 | Some f \<Rightarrow> count_list (take (unat (fl_read_offset f)) (ct_data c)) newline)"

definition undecremented :: "counted_file \<Rightarrow> nat" where
  "undecremented c = (if ct_opens c \<and> ct_done c then 0 else 1)"

definition counted_ok :: "nat \<Rightarrow> counted_file \<Rightarrow> bool" where
  "counted_ok local c \<longleftrightarrow> length (ct_data c) < 2 ^ 64
     \<and> (case ct_file c of
          None \<Rightarrow> ct_done c \<longrightarrow> \<not> ct_opens c
        | Some f \<Rightarrow> ct_opens c \<and> usable local f \<and> unat (fl_read_offset f) \<le> length (ct_data c)
                    \<and> (ct_done c \<longrightarrow> unat (fl_read_offset f) = length (ct_data c)))"

definition counter_inv :: "nat \<Rightarrow> (byte list \<times> bool) list \<Rightarrow> line_counter \<Rightarrow> bool" where
  "counter_inv local files s \<longleftrightarrow> map (\<lambda>c. (ct_data c, ct_opens c)) (lc_files s) = files
     \<and> (\<forall>c \<in> set (lc_files s). counted_ok local c)
     \<and> lc_lines s = of_nat (sum_list (map lines_read (lc_files s)))
     \<and> lc_count_down s = of_nat (sum_list (map undecremented (lc_files s)))
     \<and> lc_notified s = (if sum_list (map undecremented (lc_files s)) = 0 \<and> files \<noteq> [] then 1 else 0)"

lemma of_nat_zero_size_t: "n < 2 ^ 64 \<Longrightarrow> (of_nat n :: size_t) = 0 \<longleftrightarrow> n = 0"
  by (auto simp: word_of_nat_eq_0_iff dest: dvd_imp_le)

lemma sum_list_map_update:
  fixes f :: "'a \<Rightarrow> nat"
  assumes "i < length xs"
  shows "sum_list (map f (xs[i := x])) + f (xs ! i) = sum_list (map f xs) + f x"
  using assms member_le_sum_list [of "f (xs ! i)" "map f xs"] by (simp add: map_update sum_list_update)

lemma counted_opens:
  assumes "ct_opens c"
  shows "file_open (\<lambda>_. if ct_opens c then int i + 3 else -1) None ReadOnly = file_reset\<lparr>fl_handle := int i + 3\<rparr>"
  using assms by (simp add: file_open_def open_file_def open_flags_def openmode_defs linux_flag_defs kInvalidHandle_def file_reset_def Let_def)

lemma counted_fails:
  assumes "\<not> ct_opens c"
  shows "fl_handle (file_open (\<lambda>_. if ct_opens c then int i + 3 else -1) None ReadOnly) = kInvalidHandle"
  using assms by (simp add: file_open_def open_file_def open_flags_def openmode_defs linux_flag_defs kInvalidHandle_def file_reset_def Let_def)

lemma count_one_file_cases:
  assumes "i < length (lc_files s)" and "c = lc_files s ! i" and "\<not> ct_done c" and "counted_ok local c" and "0 < n"
  shows "ct_file c = None \<Longrightarrow> \<not> ct_opens c \<Longrightarrow>
      count_one_file local i (Inr n) s = s\<lparr>lc_files := (lc_files s)[i := c\<lparr>ct_done := True\<rparr>]\<rparr>"
    and "ct_file c = None \<Longrightarrow> ct_opens c \<Longrightarrow>
      count_one_file local i (Inr n) s = s\<lparr>lc_files := (lc_files s)[i := c\<lparr>ct_file := Some (file_reset\<lparr>fl_handle := int i + 3\<rparr>)\<rparr>]\<rparr>"
    and "ct_file c = Some f \<Longrightarrow> unat (fl_read_offset f) = length (ct_data c) \<Longrightarrow>
      count_one_file local i (Inr n) s =
        count_ends (s\<lparr>lc_files := (lc_files s)[i := c\<lparr>ct_file := Some (f\<lparr>fl_attached := Some local\<rparr>), ct_done := True\<rparr>]\<rparr>)"
    and "ct_file c = Some f \<Longrightarrow> d = take (min n 1024) (drop (unat (fl_read_offset f)) (ct_data c)) \<Longrightarrow> d \<noteq> [] \<Longrightarrow>
      count_one_file local i (Inr n) s = s\<lparr>lc_files := (lc_files s)[i := c\<lparr>ct_file := Some (f\<lparr>fl_attached := Some local,
          fl_read_offset := fl_read_offset f + of_nat (length d)\<rparr>)\<rparr>],
        lc_lines := lc_lines s + of_nat (count_list d newline)\<rparr>"
proof -
  have u: "usable local f" if "ct_file c = Some f" using assms(4) that by (simp add: counted_ok_def)
  note rw = count_one_file_def Let_def assms(2) [symmetric] os_read_def file_read_done_def count_chunk_eq
  show "ct_file c = None \<Longrightarrow> \<not> ct_opens c \<Longrightarrow>
      count_one_file local i (Inr n) s = s\<lparr>lc_files := (lc_files s)[i := c\<lparr>ct_done := True\<rparr>]\<rparr>"
    using counted_fails [of c i] by (simp add: rw)
  show "ct_file c = None \<Longrightarrow> ct_opens c \<Longrightarrow>
      count_one_file local i (Inr n) s = s\<lparr>lc_files := (lc_files s)[i := c\<lparr>ct_file := Some (file_reset\<lparr>fl_handle := int i + 3\<rparr>)\<rparr>]\<rparr>"
    using counted_opens [of c i] by (simp add: rw kInvalidHandle_def)
  show "ct_file c = Some f \<Longrightarrow> unat (fl_read_offset f) = length (ct_data c) \<Longrightarrow>
      count_one_file local i (Inr n) s =
        count_ends (s\<lparr>lc_files := (lc_files s)[i := c\<lparr>ct_file := Some (f\<lparr>fl_attached := Some local\<rparr>), ct_done := True\<rparr>]\<rparr>)"
    using usable_read (1) [OF u] by (simp add: rw)
  show "ct_file c = Some f \<Longrightarrow> d = take (min n 1024) (drop (unat (fl_read_offset f)) (ct_data c)) \<Longrightarrow> d \<noteq> [] \<Longrightarrow>
      count_one_file local i (Inr n) s = s\<lparr>lc_files := (lc_files s)[i := c\<lparr>ct_file := Some (f\<lparr>fl_attached := Some local,
          fl_read_offset := fl_read_offset f + of_nat (length d)\<rparr>)\<rparr>],
        lc_lines := lc_lines s + of_nat (count_list d newline)\<rparr>"
    using usable_read (1) [OF u] assms(5) by (simp add: rw min_def del: length_take)
qed

text \<open>Replacing a file by its next state keeps the sums, when the counters follow.\<close>

lemma counter_inv_update:
  assumes inv: "counter_inv local files s" and i: "i < length (lc_files s)"
    and c': "ct_data c' = ct_data (lc_files s ! i)" "ct_opens c' = ct_opens (lc_files s ! i)" "counted_ok local c'"
    and t: "lc_files t = (lc_files s)[i := c']" "lc_lines t = lc_lines s + of_nat (lines_read c' - lines_read (lc_files s ! i))"
    and more: "lines_read (lc_files s ! i) \<le> lines_read c'"
    and dn: "if undecremented c' = undecremented (lc_files s ! i)
      then lc_count_down t = lc_count_down s \<and> lc_notified t = lc_notified s
      else undecremented (lc_files s ! i) = 1 \<and> undecremented c' = 0 \<and> lc_count_down t = lc_count_down s - 1
        \<and> lc_notified t = (if lc_count_down t = 0 then Suc (lc_notified s) else lc_notified s)"
    and few: "length files < 2 ^ 64"
  shows "counter_inv local files t"
proof -
  let ?c = "lc_files s ! i" and ?u = "\<lambda>s. sum_list (map undecremented (lc_files s))"
  have files: "map (\<lambda>c. (ct_data c, ct_opens c)) (lc_files t) = files"
    using inv i c' t by (auto simp: counter_inv_def intro!: nth_equalityI simp: nth_list_update)
  have ok: "\<forall>c \<in> set (lc_files t). counted_ok local c"
    using inv c' t set_update_subset_insert [of "lc_files s" i c'] by (auto simp: counter_inv_def)
  have "sum_list (map lines_read (lc_files t)) = sum_list (map lines_read (lc_files s)) + (lines_read c' - lines_read ?c)"
    using sum_list_map_update [OF i, of lines_read c'] more t(1) by simp
  then have lines: "lc_lines t = of_nat (sum_list (map lines_read (lc_files t)))"
    using inv t(2) by (simp add: counter_inv_def)
  have u: "?u t + undecremented ?c = ?u s + undecremented c'" using sum_list_map_update [OF i, of undecremented c'] t(1) by simp
  have "sum_list (map undecremented xs) \<le> length xs" for xs by (induction xs) (auto simp: undecremented_def)
  moreover have len: "length (lc_files t) = length files" using files by (metis length_map)
  ultimately have small: "?u t < 2 ^ 64" using few by (metis le_less_trans)
  have down: "lc_count_down t = of_nat (?u t)"
  proof (cases "undecremented c' = undecremented ?c")
    case True then show ?thesis using u dn inv by (simp add: counter_inv_def)
  next
    case False
    then have "?u s = Suc (?u t)" using u dn by simp
    then show ?thesis using dn False inv by (simp add: counter_inv_def)
  qed
  then have zero: "lc_count_down t = 0 \<longleftrightarrow> ?u t = 0" using of_nat_zero_size_t [OF small] by simp
  have "lc_notified t = (if ?u t = 0 \<and> files \<noteq> [] then 1 else 0)"
  proof (cases "undecremented c' = undecremented ?c")
    case True then show ?thesis using u dn inv by (simp add: counter_inv_def)
  next
    case False
    then have "?u s = Suc (?u t)" using u dn by simp
    moreover have "files \<noteq> []" using i len t(1) by auto
    ultimately show ?thesis using dn False inv zero by (simp add: counter_inv_def)
  qed
  then show ?thesis using files ok lines down by (simp add: counter_inv_def)
qed

lemma counter_inv_resume:
  assumes inv: "counter_inv local files s" and few: "length files < 2 ^ 64" and n: "0 < n"
  shows "counter_inv local files (count_resume local (i, Inr n) s)"
proof (cases "i < length (lc_files s) \<and> \<not> ct_done (lc_files s ! i)")
  case False then show ?thesis using inv by (auto simp: count_resume_def)
next
  case True
  let ?c = "lc_files s ! i"
  have i: "i < length (lc_files s)" and nd: "\<not> ct_done ?c" using True by auto
  have ok: "counted_ok local ?c" using inv i by (simp add: counter_inv_def)
  note step = count_one_file_cases [OF i refl nd ok n] and upd = counter_inv_update [OF inv i _ _ _ _ _ _ _ few]
  note defs = counted_ok_def lines_read_def undecremented_def
  have "counter_inv local files (count_one_file local i (Inr n) s)"
  proof (cases "ct_file ?c")
    case None
    show ?thesis
    proof (cases "ct_opens ?c")
      case True
      show ?thesis unfolding step (2) [OF None True] using ok None True nd
        by (intro upd) (auto simp: defs usable_def file_reset_def kInvalidHandle_def)
    next
      case False
      show ?thesis unfolding step (1) [OF None False] using ok None False nd by (intro upd) (auto simp: defs)
    qed
  next
    case (Some f)
    show ?thesis
    proof (cases "unat (fl_read_offset f) = length (ct_data ?c)")
      case True
      show ?thesis unfolding step (3) [OF Some True] using ok Some True nd
        by (intro upd) (auto simp: defs usable_def count_ends_def Let_def)
    next
      case False
      let ?k = "unat (fl_read_offset f)" and ?d = "take (min n 1024) (drop (unat (fl_read_offset f)) (ct_data ?c))"
      have k: "?k \<le> length (ct_data ?c)" "length (ct_data ?c) < 2 ^ 64" using ok Some by (auto simp: counted_ok_def)
      then have d: "?d \<noteq> []" using False n by auto
      have "?k + length ?d < 2 ^ 64" using k by auto
      moreover have "fl_read_offset f + of_nat (length ?d) = of_nat (?k + length ?d)" by (simp del: length_take)
      ultimately have off: "unat (fl_read_offset f + of_nat (length ?d)) = ?k + length ?d"
        using unat_of_nat_size_t by presburger
      show ?thesis unfolding step (4) [OF Some refl d] using ok Some nd k off
        by (intro upd) (auto simp: defs usable_def take_add min_def)
    qed
  qed
  then show ?thesis using True by (simp add: count_resume_def)
qed

lemma count_all_eq:
  "count_all files = \<lparr>lc_files = map new_file files, lc_count_down = of_nat (length files), lc_lines = 0, lc_notified = 0\<rparr>"
proof -
  let ?add = "\<lambda>f s. s\<lparr>lc_count_down := lc_count_down s + 1, lc_files := lc_files s @ [new_file f]\<rparr>"
  have "fold ?add files s = s\<lparr>lc_count_down := lc_count_down s + of_nat (length files),
      lc_files := lc_files s @ map new_file files\<rparr>" for s :: line_counter
    by (induction files arbitrary: s) (simp_all add: add.assoc)
  then show ?thesis by (simp add: count_all_def)
qed

lemma counter_inv_start:
  assumes "\<forall>f \<in> set files. length (fst f) < 2 ^ 64"
  shows "counter_inv local files (count_all files)"
proof -
  have "sum_list (map undecremented (map new_file files)) = length files"
    by (induction files) (simp_all add: undecremented_def new_file_def)
  moreover have "sum_list (map lines_read (map new_file files)) = 0"
    by (induction files) (simp_all add: lines_read_def new_file_def)
  moreover have "map (\<lambda>c. (ct_data c, ct_opens c)) (map new_file files) = files"
    by (induction files) (simp_all add: new_file_def)
  moreover have "\<forall>c \<in> set (map new_file files). counted_ok local c"
    using assms by (auto simp: counted_ok_def new_file_def)
  ultimately show ?thesis unfolding counter_inv_def count_all_eq by (simp del: map_map sum_list_eq_0_iff)
qed

lemma counter_inv_run:
  "counter_inv local files s \<Longrightarrow> length files < 2 ^ 64 \<Longrightarrow> \<forall>r \<in> set schedule. \<exists>n. snd r = Inr n \<and> 0 < n
     \<Longrightarrow> counter_inv local files (count_run local schedule s)"
proof (induction schedule arbitrary: s)
  case (Cons r schedule)
  obtain i n where r: "r = (i, Inr n)" "0 < n" using Cons.prems(3) by (cases r) auto
  show ?case using Cons.IH [OF counter_inv_resume [OF Cons.prems(1,2) r(2)]] Cons.prems(2,3) by (simp add: count_run_def r(1))
qed (simp add: count_run_def)

lemma counted_files:
  assumes "\<forall>c \<in> set cs. counted_ok local c \<and> ct_done c"
  shows "sum_list (map lines_read cs) = sum_list (map (\<lambda>f. if snd f then count_list (fst f) newline else 0) (map (\<lambda>c. (ct_data c, ct_opens c)) cs))
    \<and> sum_list (map undecremented cs) = length (filter (\<lambda>f. \<not> snd f) (map (\<lambda>c. (ct_data c, ct_opens c)) cs))"
  using assms by (induction cs) (auto simp: counted_ok_def lines_read_def undecremented_def split: option.splits)

text \<open>
  When all coroutines of \<^verbatim>\<open>CountLines\<close> have ended, in whatever order they ran and however the reads were
  cut, \<^verbatim>\<open>lines_\<close> is the number of newlines in the files that could be opened. The counter is then the number of
  files that could not be opened: only if there was none is it 0, and the waiting coroutine is notified, once. With a
  single file that cannot be opened \<^verbatim>\<open>count_all\<close> waits for ever.
\<close>

theorem lines_are_counted:
  assumes "length files < 2 ^ 64" and "\<forall>f \<in> set files. length (fst f) < 2 ^ 64"
    and "\<forall>r \<in> set schedule. \<exists>n. snd r = Inr n \<and> 0 < n" and "s = count_run local schedule (count_all files)"
    and "\<forall>c \<in> set (lc_files s). ct_done c"
  shows "lc_lines s = of_nat (sum_list (map (\<lambda>f. if snd f then count_list (fst f) newline else 0) files))
    \<and> lc_count_down s = of_nat (length (filter (\<lambda>f. \<not> snd f) files))
    \<and> (lc_count_down s = 0 \<longleftrightarrow> (\<forall>f \<in> set files. snd f))
    \<and> lc_notified s = (if files \<noteq> [] \<and> (\<forall>f \<in> set files. snd f) then 1 else 0)"
proof -
  have inv: "counter_inv local files s"
    using counter_inv_run [OF counter_inv_start [OF assms(2)] assms(1,3)] assms(4) by simp
  then have files: "map (\<lambda>c. (ct_data c, ct_opens c)) (lc_files s) = files" by (simp add: counter_inv_def)
  have "\<forall>c \<in> set (lc_files s). counted_ok local c \<and> ct_done c" using inv assms(5) by (simp add: counter_inv_def)
  note sums = counted_files [OF this, unfolded files]
  let ?m = "length (filter (\<lambda>f. \<not> snd f) files)"
  have down: "lc_count_down s = of_nat ?m" using inv sums by (simp add: counter_inv_def)
  have "?m < 2 ^ 64" using assms(1) length_filter_le [of _ files] by (rule le_less_trans [rotated])
  then have "lc_count_down s = 0 \<longleftrightarrow> ?m = 0" using down of_nat_zero_size_t [of ?m] by simp
  moreover have m: "?m = 0 \<longleftrightarrow> (\<forall>f \<in> set files. snd f)" by (auto simp: filter_empty_conv)
  ultimately show ?thesis using inv sums down unfolding counter_inv_def by (simp only: m) auto
qed

definition two_files :: "(byte list \<times> bool) list" where
  "two_files = [([97, 10, 10, 98], True), ([10], True)]"

definition two_schedule :: "(nat \<times> answer) list" where
  "two_schedule = [(1, Inr 5), (0, Inr 1), (0, Inr 2), (1, Inr 9), (0, Inr 9), (1, Inr 9), (0, Inr 9), (0, Inr 9)]"

theorem lines_are_counted_witness:
  "lc_lines (count_run 1 two_schedule (count_all two_files)) = 3
   \<and> lc_notified (count_run 1 two_schedule (count_all two_files)) = 1"
proof -
  have "\<forall>c \<in> set (lc_files (count_run 1 two_schedule (count_all two_files))). ct_done c" by code_simp
  from lines_are_counted [OF _ _ _ refl this] show ?thesis by (simp add: two_files_def two_schedule_def newline_def)
qed

text \<open>A file that cannot be opened: the counter stays at 1.\<close>

lemma missing_file_blocks_the_count:
  "(let s = count_run 1 [(0, Inr 1), (1, Inr 1), (1, Inr 1), (1, Inr 1)] (count_all [([], False), ([10], True)])
    in (map ct_done (lc_files s), lc_count_down s, lc_notified s)) = ([True, True], 1, 0)"
  by code_simp

end
