(* ===== verification/Ring_Loop.thy ===== *)
theory Ring_Loop
  imports Wakeup_Protocol Io_Interface
begin

section \<open>The event loop over io_uring (core/coro_context.cpp with net/io_uring.cpp)\<close>

text \<open>
  The theory of the wake-up protocol counts the wake-ups and lets a sleep see them. Here the loop runs over
  the ring itself: \<^verbatim>\<open>execute\<close> from another thread writes to the ring's event descriptor, the kernel
  turns that into a completion of the wake-up's read, \<^verbatim>\<open>poll\<close> returns with it, and its callback arms
  the read again while tasks and callbacks of the loop go on submitting operations.
\<close>

subsection \<open>What a wait returns\<close>

definition wait_result :: "int \<Rightarrow> error_code \<Rightarrow> poll_outcome" where
  "wait_result r ec =
     (if r = - etime \<or> r = - eagain then PollReturns 0 ec
      else if r = - eintr then PollReturns 2 ec
      else if r < 0 then PollReturns (-1) (make_system_error_code (- r))
      else PollDelivers)"

text \<open>\<^verbatim>\<open>poll\<close> up to its loop is: return at once, or submit and wait.\<close>

lemma ring_poll_parts:
  "ring_poll nanosec r ec s =
     (if nanosec = 0 \<and> rg_io_num s = 0 then (PollReturns 0 ec, s) else (wait_result r ec, ring_submit s))"
  by (simp add: ring_poll_def wait_result_def Let_def)

subsection \<open>The composed system\<close>

text \<open>
  Where the loop is: about to take the pending tasks, running them and the timers' tasks, before
  \<^verbatim>\<open>poll\<close> with its timeout, in the wait with the timeout it was given, running callbacks.
\<close>

datatype rl_pc = AtTop | InTasks | BeforePoll nanos | InWait nat | InCallbacks

record ('t, 'p) ring_loop =
  rl_ctx :: "'t ctx"
  rl_pc :: rl_pc
  rl_writers :: nat
  rl_ring :: "'p ring"

text \<open>What \<^verbatim>\<open>start\<close> does with the value of \<^verbatim>\<open>poll\<close>: -1 stops the context.\<close>

definition poll_returned :: "int \<Rightarrow> ('t, 'p) ring_loop \<Rightarrow> ('t, 'p) ring_loop" where
  "poll_returned v s =
     (if v = -1 then s\<lparr>rl_ctx := (rl_ctx s)\<lparr>cx_state := CtxStopping\<rparr>, rl_pc := AtTop\<rparr> else s\<lparr>rl_pc := AtTop\<rparr>)"

text \<open>
  The steps that need no luck: the loop's own, the write of a thread that has queued its task, and the
  kernel's completion of the armed read when the descriptor is not zero.
\<close>

inductive rl_step :: "(int \<Rightarrow> byte list) \<Rightarrow> ('t, 'p) ring_loop \<Rightarrow> ('t, 'p) ring_loop \<Rightarrow> bool" for peername where
  signal: "rl_writers s = Suc n \<Longrightarrow>
    rl_step peername s (s\<lparr>rl_ctx := ctx_wake_up (rl_ctx s), rl_writers := n, rl_ring := ring_wake_up (rl_ring s)\<rparr>)"
| swap: "rl_pc s = AtTop \<Longrightarrow> cx_state (rl_ctx s) \<noteq> CtxStopping \<Longrightarrow>
    rl_step peername s (s\<lparr>rl_ctx := swap_pending (rl_ctx s), rl_pc := InTasks\<rparr>)"
| check: "rl_pc s = InTasks \<Longrightarrow> rl_step peername s (s\<lparr>rl_pc := BeforePoll (poll_timeout (rl_ctx s))\<rparr>)"
| skip: "rl_pc s = BeforePoll d \<Longrightarrow> nat d = 0 \<Longrightarrow> rg_io_num (rl_ring s) = 0 \<Longrightarrow> rl_step peername s (poll_returned 0 s)"
| enter: "rl_pc s = BeforePoll d \<Longrightarrow> nat d \<noteq> 0 \<or> rg_io_num (rl_ring s) \<noteq> 0 \<Longrightarrow>
    rl_step peername s (s\<lparr>rl_pc := InWait (nat d), rl_ring := ring_submit (rl_ring s)\<rparr>)"
| no_wait: "rl_pc s = InWait 0 \<Longrightarrow> wait_result (- etime) no_error = PollReturns v ec \<Longrightarrow>
    rl_step peername s (poll_returned v s)"
| wake_up_read: "rg_kernel (rl_ring s) = xs @ e # ys \<Longrightarrow> sq_prep e = PrepWakeUpRead \<Longrightarrow> 0 < rg_event (rl_ring s) \<Longrightarrow>
    rl_step peername s (s\<lparr>rl_ring := (rl_ring s)\<lparr>rg_kernel := xs @ ys,
      rg_cq := rg_cq (rl_ring s) @ [\<lparr>cq_data = sq_data e, cq_res = 8\<rparr>], rg_event := 0\<rparr>\<rparr>)"
| completed: "rl_pc s = InWait n \<Longrightarrow> rg_cq (rl_ring s) \<noteq> [] \<Longrightarrow> rl_step peername s (s\<lparr>rl_pc := InCallbacks\<rparr>)"
| deliver: "rl_pc s = InCallbacks \<Longrightarrow> next_cqe peername (rl_ring s) = Some r \<Longrightarrow> rl_step peername s (s\<lparr>rl_ring := r\<rparr>)"
| delivered: "rl_pc s = InCallbacks \<Longrightarrow> rg_cq (rl_ring s) = [] \<Longrightarrow> rl_step peername s (poll_returned 1 s)"

text \<open>A call made by a task, a timer's task or a callback, on the loop's own thread.\<close>

definition own_call :: "'t ctx_call \<Rightarrow> 't ctx \<Rightarrow> bool" where
  "own_call c s \<longleftrightarrow> (case c of ExecuteCall me t \<Rightarrow> me = cx_thread s | StopCall me \<Rightarrow> me = cx_thread s | _ \<Rightarrow> True)"

text \<open>Everything else that can happen.\<close>

inductive rl_any :: "(int \<Rightarrow> byte list) \<Rightarrow> ('t, 'p) ring_loop \<Rightarrow> ('t, 'p) ring_loop \<Rightarrow> bool" for peername where
  step: "rl_step peername s t \<Longrightarrow> rl_any peername s t"
| push: "rl_any peername s (s\<lparr>rl_ctx := execute_push t (rl_ctx s), rl_writers := Suc (rl_writers s)\<rparr>)"
| own: "rl_pc s = InTasks \<or> rl_pc s = InCallbacks \<Longrightarrow> own_call c (rl_ctx s) \<Longrightarrow> do_call c (rl_ctx s) = Inr x \<Longrightarrow>
    rl_any peername s (s\<lparr>rl_ctx := x\<rparr>)"
| issue: "rl_pc s = InTasks \<or> rl_pc s = InCallbacks \<Longrightarrow> ring_issue req p (rl_ring s) = Some r \<Longrightarrow>
    rl_any peername s (s\<lparr>rl_ring := r\<rparr>)"
| cancel: "rl_pc s = InTasks \<or> rl_pc s = InCallbacks \<Longrightarrow> ring_cancel fd (rl_ring s) = Some r \<Longrightarrow>
    rl_any peername s (s\<lparr>rl_ring := r\<rparr>)"
| kernel: "rg_kernel (rl_ring s) = xs @ e # ys \<Longrightarrow> sq_prep e \<noteq> PrepWakeUpRead \<Longrightarrow>
    rl_any peername s (s\<lparr>rl_ring := (rl_ring s)\<lparr>rg_kernel := xs @ ys,
      rg_cq := rg_cq (rl_ring s) @ [\<lparr>cq_data = sq_data e, cq_res = res\<rparr>],
      ih_msg := set_namelen (sq_prep e) n (ih_msg (rl_ring s))\<rparr>\<rparr>)"
| interrupted: "rl_pc s = InWait n \<Longrightarrow> wait_result r no_error = PollReturns v ec \<Longrightarrow> rl_any peername s (poll_returned v s)"

text \<open>\<^verbatim>\<open>start\<close> is called on a ring in any state that the code reaches.\<close>

definition rl_init :: "(int \<Rightarrow> byte list) \<Rightarrow> ('t, 'p) ring_loop \<Rightarrow> bool" where
  "rl_init peername s \<longleftrightarrow> rl_pc s = AtTop \<and> cx_state (rl_ctx s) = CtxRunning
     \<and> (\<exists>ok n r. ring_new ok n = Inr (Some r) \<and> ring_steps peername r (rl_ring s))"

subsection \<open>The invariant\<close>

text \<open>The entry of the armed read is one that the kernel completes from the event descriptor.\<close>

definition armed_right :: "'p ring \<Rightarrow> bool" where
  "armed_right r \<longleftrightarrow> (\<forall>e \<in> set (rg_sq r) \<union> set (rg_kernel r). sq_data e = 0 \<longrightarrow> sq_prep e = PrepWakeUpRead)"

definition wake_coming :: "'p ring \<Rightarrow> bool" where
  "wake_coming r \<longleftrightarrow> 0 < rg_event r \<or> rg_cq r \<noteq> []"

definition ring_sound :: "'p ring \<Rightarrow> bool" where
  "ring_sound r \<longleftrightarrow> ring_inv r \<and> 0 < rg_entries r \<and> armed_right r"

definition sleepy :: "rl_pc \<Rightarrow> bool" where
  "sleepy pc \<longleftrightarrow> (case pc of BeforePoll d \<Rightarrow> nat d \<noteq> 0 | InWait n \<Rightarrow> n \<noteq> 0 | _ \<Rightarrow> False)"

definition rl_inv :: "('t, 'p) ring_loop \<Rightarrow> bool" where
  "rl_inv s \<longleftrightarrow> ring_sound (rl_ring s)
     \<and> (\<forall>n. rl_pc s = InWait n \<longrightarrow> rg_sq (rl_ring s) = [])
     \<and> (sleepy (rl_pc s) \<and> cx_pending (rl_ctx s) \<noteq> [] \<longrightarrow> 0 < rl_writers s \<or> wake_coming (rl_ring s))"

lemma next_cqe_arms:
  assumes "next_cqe peername r = Some r'"
  shows "rg_kernel r' = rg_kernel r
     \<and> (rg_sq r' = rg_sq r \<or> rg_sq r' = rg_sq r @ [\<lparr>sq_prep = PrepWakeUpRead, sq_data = rg_wake r\<rparr>])"
  using assms
  by (cases "rg_cq r")
    (auto simp: next_cqe_def handle_cqe_def uncount_io_def finish_ctx_def invoke_cb_def prep_wake_up_def put_sqe_def
      Let_def split: io_cb.splits operation.splits if_splits)

lemma armed_right_step: "ring_step peername r r' \<Longrightarrow> ring_inv r \<Longrightarrow> armed_right r \<Longrightarrow> armed_right r'"
proof (induction rule: ring_step.induct)
  case (issue req p s t)
  obtain ioc h prep where f: "fresh_ctx p ioc s h"
    and t: "t = h\<lparr>rg_io_num := rg_io_num s + 1, rg_sq := rg_sq s @ [\<lparr>sq_prep = prep, sq_data = ioc\<rparr>]\<rparr>"
    using issue_spec [OF issue(1)] by blast
  have "h = s\<lparr>ih_ctx := ih_ctx h, ih_msg := ih_msg h, ih_next := ih_next h,
            ih_issued := ih_issued h, ih_user := ih_user h\<rparr>" (is "h = ?h")
    using f unfolding fresh_ctx_def by (elim conjE)
  then have "rg_kernel h = rg_kernel ?h" by simp
  moreover have "ioc \<noteq> 0" using f issue(2) heap_invD(3) [of s] by (auto simp: fresh_ctx_def ring_inv_def)
  ultimately show ?case using issue(3) by (auto simp: t armed_right_def)
next
  case (cancel fd s t)
  then have "rg_empty s \<noteq> 0" using heap_invD(2) [of s] by (simp add: ring_inv_def)
  then show ?case using cancel by (auto simp: armed_right_def ring_cancel_def put_sqe_def split: if_splits)
next
  case (deliver s t)
  from next_cqe_arms [OF this(1)] this(3) show ?case by (auto simp: armed_right_def)
qed (auto simp: armed_right_def ring_wake_up_def ring_poll_parts ring_submit_def)

lemma ring_sound_step:
  assumes "ring_step peername r r'" and "ring_sound r"
  shows "ring_sound r'"
  using assms ring_inv_step [OF assms(1)] armed_right_step [OF assms(1)] ring_step_entries [OF assms(1)]
  by (simp add: ring_sound_def)

lemma ring_sound_reachable:
  assumes "ring_new ok n = Inr (Some r)" and "ring_steps peername r r'"
  shows "ring_sound r'"
  using assms(2)
proof (induction rule: rtranclp_induct)
  case base
  have "armed_right r" using assms(1) by (auto simp: ring_new_def prep_wake_up_def put_sqe_def armed_right_def split: if_splits)
  then show ?case using ring_inv_new [OF assms(1)] ring_new_entries [OF assms(1)] by (simp add: ring_sound_def)
qed (rule ring_sound_step)

lemma ring_submit_step: "ring_step peername r (ring_submit r)"
  using ring_step.poll [of peername r 1 0 no_error] by (simp add: ring_poll_parts)

text \<open>Every step of the system does to the ring what a step of the ring's own theory does, or nothing.\<close>

lemma rl_step_ring: "rl_step peername s t \<Longrightarrow> rl_ring t = rl_ring s \<or> ring_step peername (rl_ring s) (rl_ring t)"
  by (induction rule: rl_step.induct)
    (auto simp: poll_returned_def intro: ring_step.wake_up ring_submit_step ring_step.kernel_wake_up ring_step.deliver)

lemma rl_any_ring: "rl_any peername s t \<Longrightarrow> rl_ring t = rl_ring s \<or> ring_step peername (rl_ring s) (rl_ring t)"
  by (induction rule: rl_any.induct)
    (auto simp: poll_returned_def dest: rl_step_ring intro: ring_step.issue ring_step.cancel ring_step.kernel)

lemma wake_coming_signal: "wake_coming (ring_wake_up r)"
  by (simp add: wake_coming_def ring_wake_up_def)

lemmas rl_sleep_simps = rl_inv_def sleepy_def poll_returned_def poll_timeout_def ctx_wake_up_def wake_coming_def
  ring_submit_def ring_wake_up_def

lemma rl_inv_step:
  assumes step: "rl_step peername s t" and inv: "rl_inv s"
  shows "rl_inv t"
proof -
  have "ring_sound (rl_ring t)"
    using rl_step_ring [OF step] ring_sound_step inv by (auto simp: rl_inv_def)
  moreover have "\<forall>n. rl_pc t = InWait n \<longrightarrow> rg_sq (rl_ring t) = []"
    using step inv by cases (auto simp: rl_inv_def poll_returned_def ring_submit_def ring_wake_up_def)
  moreover have "sleepy (rl_pc t) \<and> cx_pending (rl_ctx t) \<noteq> [] \<longrightarrow> 0 < rl_writers t \<or> wake_coming (rl_ring t)"
    using step inv by cases (auto simp: rl_sleep_simps)
  ultimately show ?thesis by (simp add: rl_inv_def)
qed

lemma rl_inv_any:
  assumes step: "rl_any peername s t" and inv: "rl_inv s"
  shows "rl_inv t"
proof (cases "rl_step peername s t")
  case False
  have "ring_sound (rl_ring t)"
    using rl_any_ring [OF step] ring_sound_step inv by (auto simp: rl_inv_def)
  moreover have "\<forall>n. rl_pc t = InWait n \<longrightarrow> rg_sq (rl_ring t) = []"
    using step False inv by cases (auto simp: rl_inv_def poll_returned_def)
  moreover have "sleepy (rl_pc t) \<and> cx_pending (rl_ctx t) \<noteq> [] \<longrightarrow> 0 < rl_writers t \<or> wake_coming (rl_ring t)"
    using step False inv by cases (auto simp: rl_sleep_simps)
  ultimately show ?thesis by (simp add: rl_inv_def)
qed (rule rl_inv_step [OF _ inv])

interpretation rl: transition_system "rl_init peername" "rl_any peername" rl_inv
proof
  fix s t :: "('a, 'b) ring_loop"
  show "rl_init peername s \<Longrightarrow> rl_inv s"
    by (auto simp: rl_init_def rl_inv_def sleepy_def intro: ring_sound_reachable)
  show "rl_inv s \<Longrightarrow> rl_any peername s t \<Longrightarrow> rl_inv t" by (rule rl_inv_any)
qed

subsection \<open>The loop can always take what is pending\<close>

text \<open>\<open>takes s t\<close>: from \<open>s\<close> the loop's own steps run all of the tasks pending in \<open>t\<close>'s history.\<close>

definition takes_all :: "(int \<Rightarrow> byte list) \<Rightarrow> ('t, 'p) ring_loop \<Rightarrow> bool" where
  "takes_all peername s \<longleftrightarrow> (\<exists>t. (rl_step peername)\<^sup>*\<^sup>* s t
     \<and> cx_ran (rl_ctx t) = cx_ran (rl_ctx s) @ cx_pending (rl_ctx s))"

lemma takes_after:
  assumes "rl_step peername s u" and "takes_all peername u"
    and "cx_ran (rl_ctx u) = cx_ran (rl_ctx s)" and "cx_pending (rl_ctx u) = cx_pending (rl_ctx s)"
  shows "takes_all peername s"
  using assms by (auto simp: takes_all_def intro: converse_rtranclp_into_rtranclp)

lemma top_takes_all: "rl_pc s = AtTop \<Longrightarrow> cx_state (rl_ctx s) = CtxRunning \<Longrightarrow> takes_all peername s"
  using rl_step.swap [of s peername] unfolding takes_all_def
  by (intro exI [of _ "s\<lparr>rl_ctx := swap_pending (rl_ctx s), rl_pc := InTasks\<rparr>"]) (simp add: swap_pending_def r_into_rtranclp)

lemma callbacks_take_all:
  "rl_pc s = InCallbacks \<Longrightarrow> cx_state (rl_ctx s) = CtxRunning \<Longrightarrow> ring_inv (rl_ring s) \<Longrightarrow> wake_up_fits (rl_ring s) \<Longrightarrow>
   takes_all peername s"
proof (induction "rg_cq (rl_ring s)" arbitrary: s)
  case Nil
  show ?case
  proof (rule takes_after)
    show "rl_step peername s (poll_returned 1 s)" using Nil by (intro rl_step.delivered) auto
    show "takes_all peername (poll_returned 1 s)"
      using Nil.prems(2) by (intro top_takes_all) (simp_all add: poll_returned_def)
  qed (simp_all add: poll_returned_def)
next
  case (Cons e es)
  note cq = Cons.hyps(2) [symmetric]
  obtain r where r: "next_cqe peername (rl_ring s) = Some r"
    using wake_up_fits_deliver(1) [OF Cons.prems(3) cq Cons.prems(4)] by blast
  let ?u = "s\<lparr>rl_ring := r\<rparr>"
  have "rl_step peername s ?u" by (rule rl_step.deliver [OF Cons.prems(1) r])
  moreover have "takes_all peername ?u"
  proof (rule Cons.hyps(1))
    show "es = rg_cq (rl_ring ?u)" using next_cqe_queue [OF r] cq by simp
    show "ring_inv (rl_ring ?u)" using ring_inv_step [OF ring_step.deliver [OF r]] Cons.prems(3) by simp
    show "wake_up_fits (rl_ring ?u)" using wake_up_fits_deliver(2) [OF Cons.prems(3) cq Cons.prems(4) r] by simp
  qed (use Cons.prems in simp_all)
  ultimately show ?case by (rule takes_after) simp_all
qed

lemma completed_takes_all:
  assumes pc: "rl_pc s = InWait n" and run: "cx_state (rl_ctx s) = CtxRunning" and inv: "rl_inv s"
    and cq: "rg_cq (rl_ring s) \<noteq> []"
  shows "takes_all peername s"
proof (rule takes_after)
  show "rl_step peername s (s\<lparr>rl_pc := InCallbacks\<rparr>)" by (rule rl_step.completed [OF pc cq])
  show "takes_all peername (s\<lparr>rl_pc := InCallbacks\<rparr>)"
    using pc run inv by (intro callbacks_take_all) (simp_all add: rl_inv_def ring_sound_def wake_up_fits_def)
qed simp_all

text \<open>When nothing has been completed the armed read is with the kernel.\<close>

lemma armed_in_kernel:
  assumes sound: "ring_sound r" and "rg_sq r = []" and "rg_cq r = []"
  obtains xs e ys where "rg_kernel r = xs @ e # ys" and "sq_prep e = PrepWakeUpRead"
proof -
  have "count (pending_data r) 0 = 1" using sound count_invD(1) by (auto simp: ring_sound_def ring_inv_def)
  then have "0 \<in># mset (map sq_data (rg_kernel r))"
    using assms(2,3) by (intro count_greater_zero_iff [THEN iffD1]) (simp add: pending_data_def)
  then obtain e where e: "e \<in> set (rg_kernel r)" "sq_data e = 0" by auto
  then obtain xs ys where "rg_kernel r = xs @ e # ys" by (meson split_list)
  then show ?thesis using that e sound by (auto simp: ring_sound_def armed_right_def)
qed

lemma signalled_takes_all:
  assumes pc: "rl_pc s = InWait n" and run: "cx_state (rl_ctx s) = CtxRunning" and inv: "rl_inv s"
    and coming: "wake_coming (rl_ring s)"
  shows "takes_all peername s"
proof (cases "rg_cq (rl_ring s) = []")
  case True
  have "ring_sound (rl_ring s)" "rg_sq (rl_ring s) = []" using inv pc by (auto simp: rl_inv_def)
  from armed_in_kernel [OF this True]
  obtain xs e ys where k: "rg_kernel (rl_ring s) = xs @ e # ys" and e: "sq_prep e = PrepWakeUpRead" by blast
  have "0 < rg_event (rl_ring s)" using coming True by (simp add: wake_coming_def)
  note step = rl_step.wake_up_read [OF k e this, of peername]
  show ?thesis
    by (rule takes_after [OF step]; (rule completed_takes_all [OF _ _ rl_inv_step [OF step inv]])?) (use pc run in simp_all)
qed (rule completed_takes_all [OF pc run inv])

lemma wait_takes_all:
  assumes pc: "rl_pc s = InWait n" and run: "cx_state (rl_ctx s) = CtxRunning" and inv: "rl_inv s"
    and ne: "cx_pending (rl_ctx s) \<noteq> []"
  shows "takes_all peername s"
proof (cases n)
  case 0
  show ?thesis
  proof (rule takes_after)
    show "rl_step peername s (poll_returned 0 s)"
      using pc 0 by (intro rl_step.no_wait) (simp_all add: wait_result_def)
    show "takes_all peername (poll_returned 0 s)"
      using run by (intro top_takes_all) (simp_all add: poll_returned_def)
  qed (simp_all add: poll_returned_def)
next
  case (Suc k)
  then have "0 < rl_writers s \<or> wake_coming (rl_ring s)" using inv pc ne by (simp add: rl_inv_def sleepy_def)
  then show ?thesis
  proof
    assume "0 < rl_writers s"
    then obtain m where "rl_writers s = Suc m" by (cases "rl_writers s") auto
    note step = rl_step.signal [OF this, of peername]
    show ?thesis
      by (rule takes_after [OF step]; (rule signalled_takes_all [OF _ _ rl_inv_step [OF step inv]])?)
        (use pc run in \<open>simp_all add: ctx_wake_up_def wake_coming_signal\<close>)
  qed (rule signalled_takes_all [OF pc run inv])
qed

lemma poll_takes_all:
  assumes pc: "rl_pc s = BeforePoll d" and run: "cx_state (rl_ctx s) = CtxRunning" and inv: "rl_inv s"
    and ne: "cx_pending (rl_ctx s) \<noteq> []"
  shows "takes_all peername s"
proof (cases "nat d = 0 \<and> rg_io_num (rl_ring s) = 0")
  case True
  then have "rl_step peername s (poll_returned 0 s)" by (intro rl_step.skip [OF pc]) simp_all
  moreover have "takes_all peername (poll_returned 0 s)"
    using run by (intro top_takes_all) (simp_all add: poll_returned_def)
  ultimately show ?thesis by (rule takes_after) (simp_all add: poll_returned_def)
next
  case False
  then have step: "rl_step peername s (s\<lparr>rl_pc := InWait (nat d), rl_ring := ring_submit (rl_ring s)\<rparr>)"
    by (intro rl_step.enter [OF pc]) simp
  show ?thesis
    by (rule takes_after [OF step]; (rule wait_takes_all [OF _ _ rl_inv_step [OF step inv]])?) (use run ne in simp_all)
qed

lemma running_takes_all:
  assumes run: "cx_state (rl_ctx s) = CtxRunning" and inv: "rl_inv s" and ne: "cx_pending (rl_ctx s) \<noteq> []"
    and room: "rl_pc s = InCallbacks \<Longrightarrow> wake_up_fits (rl_ring s)"
  shows "takes_all peername s"
proof (cases "rl_pc s")
  case InTasks
  note step = rl_step.check [OF this, of peername]
  show ?thesis
    by (rule takes_after [OF step]; (rule poll_takes_all [OF _ _ rl_inv_step [OF step inv]])?) (use run ne in simp_all)
next
  case InCallbacks
  then show ?thesis using run inv room by (intro callbacks_take_all) (simp_all add: rl_inv_def ring_sound_def)
qed (use top_takes_all poll_takes_all wait_takes_all run inv ne in \<open>blast+\<close>)

text \<open>
  The condition is needed: a callback of the same batch that has filled the submission queue leaves no entry
  for the wake-up's own callback, which then writes through a null pointer.
\<close>

lemma full_queue_breaks_the_wake_up:
  assumes "ring_inv r" and "rg_cq r = e # es" and "cq_data e = 0" and "rg_entries r \<le> length (rg_sq r)"
  shows "next_cqe peername r = None"
proof -
  have heap: "ring_heap_inv r" using assms(1) by (simp add: ring_inv_def)
  from heap_invD(4) [OF heap] obtain c where "ih_ctx r 0 = Some c" "ic_op c = OpNoop" "ic_cb c = WakeUpCb" by blast
  then show ?thesis
    using assms(2-4) by (auto simp: next_cqe_def handle_cqe_def uncount_io_def finish_ctx_def invoke_cb_def
        prep_wake_up_def put_sqe_def the_ctx_def Let_def)
qed

subsection \<open>Property\<close>

text \<open>
  Property C7: no wake-up of the event loop over io_uring is lost. Whatever the submissions of other threads,
  the tasks and callbacks on the loop's thread, the operations they issue and cancel, the kernel's completions,
  timeouts and interruptions do in whatever order, in every reachable state of a running loop with tasks
  pending, the loop, the writes already under way and the kernel's read of the event descriptor suffice to run
  all of them, in order: no timer, completion of an operation or new call is needed. There is one exception: while
  callbacks run, with the wake-up's completion still to be taken in their batch, they may have issued operations,
  but the submission queue must not be full.
\<close>

theorem tasks_wake_the_ring_loop:
  assumes "rl_init peername s\<^sub>0" and "(rl_any peername)\<^sup>*\<^sup>* s\<^sub>0 s"
    and "cx_state (rl_ctx s) = CtxRunning" and "cx_pending (rl_ctx s) \<noteq> []"
    and "rl_pc s = InCallbacks \<Longrightarrow> 0 \<in> cq_data ` set (rg_cq (rl_ring s)) \<Longrightarrow>
      length (rg_sq (rl_ring s)) < rg_entries (rl_ring s)"
  shows "\<exists>t. (rl_step peername)\<^sup>*\<^sup>* s t \<and> cx_ran (rl_ctx t) = cx_ran (rl_ctx s) @ cx_pending (rl_ctx s)"
proof -
  have inv: "rl_inv s" by (rule rl.reachable_inv [OF assms(1,2)])
  then have "0 < rg_entries (rl_ring s)" by (simp add: rl_inv_def ring_sound_def)
  then have "takes_all peername s"
    using running_takes_all [OF assms(3) inv assms(4)] assms(5) by (auto simp: wake_up_fits_def)
  then show ?thesis by (simp add: takes_all_def)
qed

text \<open>A loop with nothing to do that sleeps when another thread submits a task.\<close>

definition demo_rl :: "(string, string) ring_loop" where
  "demo_rl = \<lparr>rl_ctx = demo_ctx\<lparr>cx_state := CtxRunning, cx_pending := [], cx_submitted := []\<rparr>,
     rl_pc = AtTop, rl_writers = 0, rl_ring = demo_ring\<rparr>"

definition demo_rl_asleep :: "(string, string) ring_loop" where
  "demo_rl_asleep = demo_rl\<lparr>rl_pc := InWait (nat one_day), rl_ring := ring_submit demo_ring\<rparr>"

lemma demo_rl_falls_asleep: "(rl_any (\<lambda>_. []))\<^sup>*\<^sup>* demo_rl demo_rl_asleep"
proof -
  let ?a = "demo_rl\<lparr>rl_pc := InTasks\<rparr>" and ?b = "demo_rl\<lparr>rl_pc := BeforePoll one_day\<rparr>"
  have "rl_any (\<lambda>_. []) demo_rl ?a"
    using rl_any.step [OF rl_step.swap [of demo_rl "\<lambda>_. []"]] by (simp add: demo_rl_def swap_pending_def demo_ctx_def)
  then have "(rl_any (\<lambda>_. []))\<^sup>*\<^sup>* demo_rl ?a" by (rule r_into_rtranclp [where r = "rl_any (\<lambda>_. [])"])
  moreover have "rl_any (\<lambda>_. []) ?a ?b"
    using rl_any.step [OF rl_step.check [of ?a "\<lambda>_. []"]]
    by (simp add: demo_rl_def poll_timeout_def next_duration_def demo_ctx_def tq_empty_def)
  ultimately have "(rl_any (\<lambda>_. []))\<^sup>*\<^sup>* demo_rl ?b" by (rule rtranclp.rtrancl_into_rtrancl)
  moreover have "rl_any (\<lambda>_. []) ?b demo_rl_asleep"
    using rl_any.step [OF rl_step.enter [of ?b one_day "\<lambda>_. []"]]
    by (simp add: demo_rl_asleep_def demo_rl_def one_day_def)
  ultimately show ?thesis by (rule rtranclp.rtrancl_into_rtrancl)
qed

theorem tasks_wake_the_ring_loop_witness:
  "\<exists>s t. (rl_any (\<lambda>_. []))\<^sup>*\<^sup>* demo_rl_asleep s \<and> rl_pc s = InWait (nat one_day) \<and> (rl_step (\<lambda>_. []))\<^sup>*\<^sup>* s t
     \<and> cx_ran (rl_ctx t) = [''late'']"
proof -
  let ?s = "demo_rl_asleep\<lparr>rl_ctx := execute_push ''late'' (rl_ctx demo_rl_asleep), rl_writers := Suc 0\<rparr>"
  have init: "rl_init (\<lambda>_. []) demo_rl"
    using demo_ring_new by (auto simp: rl_init_def demo_rl_def)
  have push: "rl_any (\<lambda>_. []) demo_rl_asleep ?s"
    using rl_any.push [of "\<lambda>_. []" demo_rl_asleep "''late''"] by (simp add: demo_rl_asleep_def demo_rl_def)
  have "(rl_any (\<lambda>_. []))\<^sup>*\<^sup>* demo_rl ?s" using demo_rl_falls_asleep push by (rule rtranclp.rtrancl_into_rtrancl)
  from tasks_wake_the_ring_loop [OF init this]
  have "\<exists>t. (rl_step (\<lambda>_. []))\<^sup>*\<^sup>* ?s t \<and> cx_ran (rl_ctx t) = [''late'']"
    by (simp add: demo_rl_asleep_def demo_rl_def demo_ctx_def execute_push_def)
  moreover have "rl_pc ?s = InWait (nat one_day)" by (simp add: demo_rl_asleep_def)
  ultimately show ?thesis using push by (blast intro: r_into_rtranclp)
qed

end
