(* ===== verification/Echo_Tcp.thy ===== *)
theory Echo_Tcp
  imports Socket_Handles "HOL-Library.Sublist"
begin

section \<open>The examples that echo over TCP (examples/v3: tcp-server.cpp, server-cb.cpp, tcp-client.cpp)\<close>

text \<open>
  A connection of the server as a coroutine and as a class with callbacks, the client, and the two ends of a
  connection together. They use the requests and the completions of the theory of sockets. An operation's
  completion is its error code, its result and, for a receive, the bytes that are now in the buffer.
\<close>

record io_done =
  dn_ec :: error_code
  dn_res :: size_t
  dn_data :: "byte list"

datatype tcp_end = TcpEof | TcpDone | TcpFailed error_code | TcpFatal fatal

subsection \<open>A connection of the server\<close>

text \<open>
  \<^verbatim>\<open>handle_conn\<close> (in \<^verbatim>\<open>tcp-server.cpp\<close> and \<^verbatim>\<open>server-context-pool.cpp\<close>): its parameter and buffer, the context whose
  thread runs it, and where it is suspended. \<open>cn_closed\<close> is the descriptor closed when the frame is destroyed.
\<close>

datatype conn_pc =
  Spawned | Receiving "completion io_request" | Sending "completion io_request" | Ended tcp_end

record conn =
  cn_sock :: socket
  cn_ctx :: nat
  cn_buf :: "byte list"
  cn_pc :: conn_pc
  cn_closed :: "sock_handle option"

definition new_conn :: "nat \<Rightarrow> socket \<Rightarrow> conn" where
  "new_conn ctx s = \<lparr>cn_sock = fst (sock_move_ctor s), cn_ctx = ctx, cn_buf = [], cn_pc = Spawned, cn_closed = None\<rparr>"

definition conn_end :: "tcp_end \<Rightarrow> conn \<Rightarrow> conn" where
  "conn_end e c = (let (closed, s) = sock_dtor (cn_sock c) in c\<lparr>cn_sock := s, cn_closed := closed, cn_pc := Ended e\<rparr>)"

definition conn_receive :: "nat \<Rightarrow> conn \<Rightarrow> conn" where
  "conn_receive h c =
     (case sock_receive (cn_ctx c) 0 1024 h (cn_sock c) of
        Inl e \<Rightarrow> c\<lparr>cn_pc := Ended (TcpFatal e)\<rparr>
      | Inr (s, req, _) \<Rightarrow> c\<lparr>cn_sock := s, cn_pc := Receiving req\<rparr>)"

definition conn_send :: "nat \<Rightarrow> nat \<Rightarrow> conn \<Rightarrow> conn" where
  "conn_send h len c =
     (case sock_send (cn_ctx c) 0 len h (cn_sock c) of
        Inl e \<Rightarrow> c\<lparr>cn_pc := Ended (TcpFatal e)\<rparr>
      | Inr (s, req, _) \<Rightarrow> c\<lparr>cn_sock := s, cn_pc := Sending req\<rparr>)"

text \<open>A resumption of the coroutine \<open>h\<close>, to its next suspension or its end.\<close>

definition handle_conn :: "nat \<Rightarrow> io_done \<Rightarrow> conn \<Rightarrow> conn" where
  "handle_conn h d c =
     (case cn_pc c of
        Spawned \<Rightarrow> conn_receive h c
      | Receiving _ \<Rightarrow>
          (let c = c\<lparr>cn_buf := dn_data d\<rparr>
           in case pipe_throw (result_of (dn_res d) (dn_ec d)) of
                Inl ec \<Rightarrow> conn_end (TcpFailed ec) c
              | Inr rd \<Rightarrow> if rd = 0 then conn_end TcpEof c else conn_send h (unat rd) c)
      | Sending _ \<Rightarrow>
          (case pipe_throw (result_of (dn_res d) (dn_ec d)) of
             Inl ec \<Rightarrow> conn_end (TcpFailed ec) c
           | Inr _ \<Rightarrow> conn_receive h c)
      | Ended _ \<Rightarrow> c)"

text \<open>
  The class \<^verbatim>\<open>TcpConnection\<close> of \<^verbatim>\<open>server-cb.cpp\<close>: each callback holds a shared pointer to the object, so that
  it is destroyed when a callback returns without starting the next operation.
\<close>

definition tc_receive :: "conn \<Rightarrow> conn" where
  "tc_receive c =
     (case sock_receive_cb (cn_ctx c) 0 1024 0 (cn_sock c) of
        Inl e \<Rightarrow> c\<lparr>cn_pc := Ended (TcpFatal e)\<rparr>
      | Inr (s, req, _) \<Rightarrow> c\<lparr>cn_sock := s, cn_pc := Receiving req\<rparr>)"

definition tc_send :: "nat \<Rightarrow> conn \<Rightarrow> conn" where
  "tc_send len c =
     (case sock_send_cb (cn_ctx c) 0 len 1 (cn_sock c) of
        Inl e \<Rightarrow> c\<lparr>cn_pc := Ended (TcpFatal e)\<rparr>
      | Inr (s, req, _) \<Rightarrow> c\<lparr>cn_sock := s, cn_pc := Sending req\<rparr>)"

definition tc_start :: "conn \<Rightarrow> conn" where
  "tc_start c = tc_receive c"

definition tc_receive_callback :: "error_code \<Rightarrow> size_t \<Rightarrow> conn \<Rightarrow> conn" where
  "tc_receive_callback ec len c =
     (if is_error ec \<or> len = 0 then conn_end (if is_error ec then TcpFailed ec else TcpEof) c else tc_send (unat len) c)"

definition tc_send_callback :: "error_code \<Rightarrow> size_t \<Rightarrow> conn \<Rightarrow> conn" where
  "tc_send_callback ec len c = (if is_error ec then conn_end (TcpFailed ec) c else tc_receive c)"

definition tc_complete :: "io_done \<Rightarrow> conn \<Rightarrow> conn" where
  "tc_complete d c =
     (case cn_pc c of
        Receiving _ \<Rightarrow> tc_receive_callback (dn_ec d) (dn_res d) (c\<lparr>cn_buf := dn_data d\<rparr>)
      | Sending _ \<Rightarrow> tc_send_callback (dn_ec d) (dn_res d) c
      | _ \<Rightarrow> c)"

lemma issue_alike:
  "sock_issue local req c s =
     (case sock_attach_context local s of Inl e \<Rightarrow> Inl e | Inr (s, _) \<Rightarrow> Inr (s, req (sk_handle s), c))"
  by (auto simp: sock_issue_def bind_checked_def split: sum.splits)

lemma tc_receive_conn: "tc_receive c = conn_receive h c"
  by (auto simp: tc_receive_def conn_receive_def sock_receive_def sock_receive_cb_def issue_alike split: sum.splits)

lemma tc_send_conn: "tc_send len c = conn_send h len c"
  by (auto simp: tc_send_def conn_send_def sock_send_def sock_send_cb_def issue_alike split: sum.splits)

text \<open>The class does what the coroutine does, completion by completion.\<close>

lemma tcp_connection_is_handle_conn:
  "cn_pc c = Spawned \<Longrightarrow> tc_start c = handle_conn h d c"
  "cn_pc c \<noteq> Spawned \<Longrightarrow> tc_complete d c = handle_conn h d c"
  by (auto simp: tc_start_def tc_complete_def handle_conn_def tc_receive_callback_def tc_send_callback_def pipe_throw_def
      tc_receive_conn [of _ h] tc_send_conn [of _ _ h] Let_def split: conn_pc.splits)

subsection \<open>The client\<close>

text \<open>
  \<^verbatim>\<open>client\<close> of \<^verbatim>\<open>tcp-client.cpp\<close>: the variable of its loop, its socket, what it has received, and where it is
  suspended; \<open>None\<close> is a coroutine that has ended before it had a socket.
\<close>

definition hello_server :: "byte list" where
  "hello_server = map (\<lambda>c. of_char c) ''hello server''"

datatype client_pc =
  Connecting "completion io_request" | Saying nat "completion io_request"
| Hearing nat "completion io_request" | ClientEnded tcp_end

record client =
  cl_sock :: socket
  cl_ctx :: nat
  cl_got :: "byte list"
  cl_pc :: client_pc
  cl_closed :: "sock_handle option"

definition client_end :: "tcp_end \<Rightarrow> client \<Rightarrow> client" where
  "client_end e c = (let (closed, s) = sock_dtor (cl_sock c) in c\<lparr>cl_sock := s, cl_closed := closed, cl_pc := ClientEnded e\<rparr>)"

text \<open>An awaited operation of the client on its socket.\<close>

definition client_await ::
  "sock_request \<Rightarrow> (completion io_request \<Rightarrow> client_pc) \<Rightarrow> client \<Rightarrow> client" where
  "client_await issued pc c =
     (case issued of
        Inl e \<Rightarrow> c\<lparr>cl_pc := ClientEnded (TcpFatal e)\<rparr>
      | Inr (s, req, _) \<Rightarrow> c\<lparr>cl_sock := s, cl_pc := pc req\<rparr>)"

definition client_start ::
  "pton_fun \<Rightarrow> int \<Rightarrow> inet_bytes \<Rightarrow> (int \<Rightarrow> sock_type \<Rightarrow> sock_handle \<times> int) \<Rightarrow> (sock_handle \<Rightarrow> inet_bytes \<Rightarrow> int \<times> int)
   \<Rightarrow> nat \<Rightarrow> nat \<Rightarrow> error_code + client" where
  "client_start pton errno junk sys_socket sys_bind ctx h =
     (case pipe_throw (inet_from pton errno junk ''::1'' 0) of Inl ec \<Rightarrow> Inl ec | Inr local \<Rightarrow>
      case pipe_throw (inet_from pton errno junk ''::1'' 1234) of Inl ec \<Rightarrow> Inl ec | Inr peer \<Rightarrow>
      case pipe_throw (sock_open sys_socket V6 Tcp) of Inl ec \<Rightarrow> Inl ec | Inr socket \<Rightarrow>
        (let c = \<lparr>cl_sock = socket, cl_ctx = ctx, cl_got = [], cl_pc = ClientEnded TcpDone, cl_closed = None\<rparr>
         in Inr (case pipe_throw (sock_bind sys_bind local socket) of
                   Inl ec \<Rightarrow> client_end (TcpFailed ec) c
                 | Inr _ \<Rightarrow> client_await (sock_connect ctx peer h socket) Connecting c)))"

text \<open>The head of the loop: another round or the end of the coroutine.\<close>

definition client_round :: "nat \<Rightarrow> nat \<Rightarrow> client \<Rightarrow> client" where
  "client_round h i c =
     (if i < 5 then client_await (sock_send (cl_ctx c) 0 12 h (cl_sock c)) (Saying i) c else client_end TcpDone c)"

definition client_resume :: "nat \<Rightarrow> io_done \<Rightarrow> client \<Rightarrow> client" where
  "client_resume h d c =
     (let r = pipe_throw (result_of (dn_res d) (dn_ec d))
      in case cl_pc c of
           Connecting _ \<Rightarrow> (case r of Inl ec \<Rightarrow> client_end (TcpFailed ec) c | Inr _ \<Rightarrow> client_round h 0 c)
         | Saying i _ \<Rightarrow>
             (case r of
                Inl ec \<Rightarrow> client_end (TcpFailed ec) c
              | Inr _ \<Rightarrow> client_await (sock_receive (cl_ctx c) 0 1024 h (cl_sock c)) (Hearing i) c)
         | Hearing i _ \<Rightarrow>
             (case r of
                Inl ec \<Rightarrow> client_end (TcpFailed ec) c
              | Inr rd \<Rightarrow> if rd = 0 then client_end TcpEof c
                          else client_round h (Suc i) (c\<lparr>cl_got := cl_got c @ dn_data d\<rparr>))
         | ClientEnded _ \<Rightarrow> c)"

subsection \<open>Both ends of a connection\<close>

text \<open>
  The client, the server's coroutine for its connection, and the bytes on their way in both directions. A
  receive takes some of the bytes that have arrived, at least one and at most as many as fit; when there are
  none and the other side is closed it gives 0. A send takes some of its bytes, at least one; \<open>ss_short\<close> records
  that one has taken fewer than it was given. Any operation of either side may fail at any time; \<open>ss_failed\<close>
  records that one has, other than an operation of the server after the client's socket was closed.
\<close>

record session =
  ss_client :: client
  ss_conn :: conn
  ss_up :: "byte list"
  ss_down :: "byte list"
  ss_short :: bool
  ss_failed :: bool

definition did :: "nat \<Rightarrow> byte list \<Rightarrow> io_done" where
  "did n data = \<lparr>dn_ec = no_error, dn_res = of_nat n, dn_data = data\<rparr>"

definition reset_by_peer :: "int \<Rightarrow> io_done" where
  "reset_by_peer e = \<lparr>dn_ec = make_system_error_code e, dn_res = 0, dn_data = []\<rparr>"

definition client_gone :: "session \<Rightarrow> bool" where
  "client_gone s \<longleftrightarrow> (\<exists>e. cl_pc (ss_client s) = ClientEnded e)"

definition conn_gone :: "session \<Rightarrow> bool" where
  "conn_gone s \<longleftrightarrow> (\<exists>e. cn_pc (ss_conn s) = Ended e)"

inductive session_step :: "nat \<Rightarrow> nat \<Rightarrow> session \<Rightarrow> session \<Rightarrow> bool" for hc hs where
  connected: "cl_pc (ss_client s) = Connecting req \<Longrightarrow>
    session_step hc hs s (s\<lparr>ss_client := client_resume hc (did 0 []) (ss_client s)\<rparr>)"
| said: "cl_pc (ss_client s) = Saying i (SendReq fd b n) \<Longrightarrow> 0 < m \<Longrightarrow> m \<le> n \<Longrightarrow>
    session_step hc hs s (s\<lparr>ss_client := client_resume hc (did m []) (ss_client s), ss_up := ss_up s @ take m hello_server,
      ss_short := ss_short s \<or> m < n\<rparr>)"
| heard: "cl_pc (ss_client s) = Hearing i (ReceiveReq fd b n) \<Longrightarrow> ss_down s = data @ rest \<Longrightarrow> data \<noteq> [] \<Longrightarrow> length data \<le> n \<Longrightarrow>
    session_step hc hs s (s\<lparr>ss_client := client_resume hc (did (length data) data) (ss_client s), ss_down := rest\<rparr>)"
| heard_end: "cl_pc (ss_client s) = Hearing i req \<Longrightarrow> ss_down s = [] \<Longrightarrow> conn_gone s \<Longrightarrow>
    session_step hc hs s (s\<lparr>ss_client := client_resume hc (did 0 []) (ss_client s)\<rparr>)"
| start: "cn_pc (ss_conn s) = Spawned \<Longrightarrow> session_step hc hs s (s\<lparr>ss_conn := handle_conn hs (did 0 []) (ss_conn s)\<rparr>)"
| received: "cn_pc (ss_conn s) = Receiving (ReceiveReq fd b n) \<Longrightarrow> ss_up s = data @ rest \<Longrightarrow> data \<noteq> [] \<Longrightarrow> length data \<le> n \<Longrightarrow>
    session_step hc hs s (s\<lparr>ss_conn := handle_conn hs (did (length data) data) (ss_conn s), ss_up := rest\<rparr>)"
| received_end: "cn_pc (ss_conn s) = Receiving req \<Longrightarrow> ss_up s = [] \<Longrightarrow> client_gone s \<Longrightarrow>
    session_step hc hs s (s\<lparr>ss_conn := handle_conn hs (did 0 []) (ss_conn s)\<rparr>)"
| sent: "cn_pc (ss_conn s) = Sending (SendReq fd b n) \<Longrightarrow> 0 < m \<Longrightarrow> m \<le> n \<Longrightarrow>
    session_step hc hs s (s\<lparr>ss_conn := handle_conn hs (did m []) (ss_conn s), ss_down := ss_down s @ take m (cn_buf (ss_conn s)),
      ss_short := ss_short s \<or> m < n\<rparr>)"

text \<open>A failure: the operation that one side awaits ends with an error of the system.\<close>

inductive session_fails :: "nat \<Rightarrow> nat \<Rightarrow> session \<Rightarrow> session \<Rightarrow> bool" for hc hs where
  client_fails: "\<not> client_gone s \<Longrightarrow> e \<noteq> 0 \<Longrightarrow>
    session_fails hc hs s (s\<lparr>ss_client := client_resume hc (reset_by_peer e) (ss_client s), ss_failed := True\<rparr>)"
| conn_fails: "cn_pc (ss_conn s) = Receiving req \<or> cn_pc (ss_conn s) = Sending req \<Longrightarrow> e \<noteq> 0 \<Longrightarrow>
    session_fails hc hs s (s\<lparr>ss_conn := handle_conn hs (reset_by_peer e) (ss_conn s),
      ss_failed := ss_failed s \<or> \<not> client_gone s\<rparr>)"

definition session_run :: "nat \<Rightarrow> nat \<Rightarrow> session \<Rightarrow> session \<Rightarrow> bool" where
  "session_run hc hs s t \<longleftrightarrow> session_step hc hs s t \<or> session_fails hc hs s t"

text \<open>
  The client awaits its connection, as \<^verbatim>\<open>client\<close> leaves it; the server has accepted the connection and spawned
  its coroutine.
\<close>

definition session_init :: "sock_handle \<Rightarrow> sock_handle \<Rightarrow> session \<Rightarrow> bool" where
  "session_init cfd sfd s \<longleftrightarrow>
     (\<exists>pton errno junk sys_socket sys_bind ctx h req.
        client_start pton errno junk sys_socket sys_bind ctx h = Inr (ss_client s) \<and> cl_pc (ss_client s) = Connecting req)
   \<and> sk_handle (cl_sock (ss_client s)) = cfd \<and> cfd \<noteq> kInvalidHandle
   \<and> (\<exists>ctx ip. ss_conn s = new_conn ctx (sock_make sfd ip Tcp)) \<and> sfd \<noteq> kInvalidHandle
   \<and> ss_up s = [] \<and> ss_down s = [] \<and> \<not> ss_short s \<and> \<not> ss_failed s"

subsection \<open>Nothing is lost, nothing waits for ever\<close>

definition usable_sock :: "nat \<Rightarrow> sock_handle \<Rightarrow> socket \<Rightarrow> bool" where
  "usable_sock ctx fd s \<longleftrightarrow> sk_handle s = fd \<and> fd \<noteq> kInvalidHandle \<and> (sk_attached s = None \<or> sk_attached s = Some ctx)"

lemma usable_issue:
  assumes "usable_sock ctx fd s"
  shows "sock_issue ctx req c s = Inr (s\<lparr>sk_attached := Some ctx\<rparr>, req fd, c)"
    and "usable_sock ctx fd (s\<lparr>sk_attached := Some ctx\<rparr>)"
  using assms by (auto simp: usable_sock_def sock_issue_def sock_attach_context_def)

lemma usable_dtor: "usable_sock ctx fd s \<Longrightarrow> sock_dtor s = (Some fd, sock_reset)"
  by (auto simp: usable_sock_def sock_dtor_def sock_close_def)

definition spoken :: "nat \<Rightarrow> byte list" where
  "spoken n = concat (replicate n hello_server)"

lemma hello_length [simp]: "length hello_server = 12"
  by (simp add: hello_server_def)

lemma spoken_simps [simp]:
  "spoken 0 = []" "spoken n @ hello_server = spoken (Suc n)" "length (spoken n) = 12 * n"
proof -
  have "replicate n hello_server @ [hello_server] = replicate (Suc n) hello_server" by (simp add: replicate_append_same)
  then have "concat (replicate n hello_server @ [hello_server]) = spoken (Suc n)" by (simp add: spoken_def)
  then show "spoken n @ hello_server = spoken (Suc n)" by (simp add: spoken_def)
  show "length (spoken n) = 12 * n" by (induction n) (simp_all add: spoken_def)
qed (simp add: spoken_def)

definition held :: "conn \<Rightarrow> byte list" where
  "held c = (case cn_pc c of Sending _ \<Rightarrow> cn_buf c | _ \<Rightarrow> [])"

fun said_so_far :: "client_pc \<Rightarrow> nat" where
  "said_so_far (Connecting _) = 0"
| "said_so_far (Saying i _) = i"
| "said_so_far (Hearing i _) = Suc i"
| "said_so_far (ClientEnded _) = 5"

definition client_inv :: "sock_handle \<Rightarrow> client \<Rightarrow> bool" where
  "client_inv fd c \<longleftrightarrow>
     (case cl_pc c of
        Connecting _ \<Rightarrow> usable_sock (cl_ctx c) fd (cl_sock c)
      | Saying i req \<Rightarrow> usable_sock (cl_ctx c) fd (cl_sock c) \<and> i < 5 \<and> (\<exists>b. req = SendReq fd b 12)
      | Hearing i req \<Rightarrow> usable_sock (cl_ctx c) fd (cl_sock c) \<and> i < 5 \<and> (\<exists>b. req = ReceiveReq fd b 1024)
      | ClientEnded e \<Rightarrow> cl_closed c = Some fd \<and> (\<forall>m. e \<noteq> TcpFatal m))"

definition conn_inv :: "sock_handle \<Rightarrow> conn \<Rightarrow> bool" where
  "conn_inv fd c \<longleftrightarrow>
     (case cn_pc c of
        Spawned \<Rightarrow> usable_sock (cn_ctx c) fd (cn_sock c)
      | Receiving req \<Rightarrow> usable_sock (cn_ctx c) fd (cn_sock c) \<and> (\<exists>b. req = ReceiveReq fd b 1024)
      | Sending req \<Rightarrow> usable_sock (cn_ctx c) fd (cn_sock c) \<and> cn_buf c \<noteq> [] \<and> (\<exists>b. req = SendReq fd b (length (cn_buf c)))
      | Ended e \<Rightarrow> cn_closed c = Some fd \<and> (\<forall>m. e \<noteq> TcpFatal m))"

definition under_way :: "session \<Rightarrow> byte list" where
  "under_way s = ss_down s @ held (ss_conn s) @ ss_up s"

definition flow :: "session \<Rightarrow> byte list" where
  "flow s = cl_got (ss_client s) @ under_way s"

text \<open>
  What is lost is lost in the middle: the bytes that are heard or under way are always a subsequence of what was
  said. While no send was short they are all of it, up to what a failure of the server takes with it.
\<close>

definition whole :: "session \<Rightarrow> bool" where
  "whole s \<longleftrightarrow> (\<not> conn_gone s \<and> \<not> client_gone s \<longrightarrow> flow s = spoken (said_so_far (cl_pc (ss_client s))))
     \<and> (\<not> conn_gone s \<longrightarrow> prefix (flow s) (spoken 5))
     \<and> prefix (cl_got (ss_client s) @ ss_down s) (spoken 5)"

definition hearing :: "client_pc \<Rightarrow> bool" where
  "hearing pc \<longleftrightarrow> (case pc of Hearing _ _ \<Rightarrow> True | _ \<Rightarrow> False)"

definition session_inv :: "sock_handle \<Rightarrow> sock_handle \<Rightarrow> session \<Rightarrow> bool" where
  "session_inv cfd sfd s \<longleftrightarrow> client_inv cfd (ss_client s) \<and> conn_inv sfd (ss_conn s)
     \<and> (\<not> ss_failed s \<longrightarrow> (conn_gone s \<longrightarrow> client_gone s) \<and> (\<forall>e. cl_pc (ss_client s) = ClientEnded e \<longrightarrow> e = TcpDone))
     \<and> (hearing (cl_pc (ss_client s)) \<and> \<not> conn_gone s \<longrightarrow> under_way s \<noteq> [])
     \<and> subseq (flow s) (spoken (said_so_far (cl_pc (ss_client s))))
     \<and> (\<not> ss_short s \<longrightarrow> whole s)"

text \<open>The remaining work.\<close>

fun client_work :: "client_pc \<Rightarrow> nat" where
  "client_work (Connecting _) = 11"
| "client_work (Saying i _) = 10 - 2 * i"
| "client_work (Hearing i _) = 9 - 2 * i"
| "client_work (ClientEnded _) = 0"

definition conn_work :: "conn_pc \<Rightarrow> nat" where
  "conn_work pc = (case pc of Spawned \<Rightarrow> 2 | Receiving _ \<Rightarrow> 1 | Sending _ \<Rightarrow> 2 | Ended _ \<Rightarrow> 0)"

definition session_work :: "session \<Rightarrow> nat" where
  "session_work s = 25 * client_work (cl_pc (ss_client s)) + 2 * length (ss_up s) + conn_work (cn_pc (ss_conn s))"

text \<open>The server's coroutine.\<close>

lemma did_throw [simp]: "pipe_throw (result_of (dn_res (did n d)) (dn_ec (did n d))) = Inr (of_nat n)"
  by (simp add: did_def pipe_throw_def)

lemma did_data [simp]: "dn_data (did n d) = d"
  by (simp add: did_def)

lemma small_size_t: "n \<le> 1024 \<Longrightarrow> unat (of_nat n :: size_t) = n"
  by (intro unat_of_nat_size_t) simp

lemma small_size_t_0: "n \<le> 1024 \<Longrightarrow> (of_nat n :: size_t) = 0 \<longleftrightarrow> n = 0"
  using small_size_t [of n] by (auto dest: arg_cong [of _ _ unat])

lemma conn_receive_usable:
  assumes "usable_sock (cn_ctx c) fd (cn_sock c)"
  shows "conn_receive h c = c\<lparr>cn_sock := (cn_sock c)\<lparr>sk_attached := Some (cn_ctx c)\<rparr>, cn_pc := Receiving (ReceiveReq fd 0 1024)\<rparr>"
  by (simp add: conn_receive_def sock_receive_def usable_issue(1) [OF assms])

lemma conn_send_usable:
  assumes "usable_sock (cn_ctx c) fd (cn_sock c)"
  shows "conn_send h n c = c\<lparr>cn_sock := (cn_sock c)\<lparr>sk_attached := Some (cn_ctx c)\<rparr>, cn_pc := Sending (SendReq fd 0 n)\<rparr>"
  by (simp add: conn_send_def sock_send_def usable_issue(1) [OF assms])

lemma conn_end_usable:
  assumes "usable_sock (cn_ctx c) fd (cn_sock c)"
  shows "conn_end e c = c\<lparr>cn_sock := sock_reset, cn_closed := Some fd, cn_pc := Ended e\<rparr>"
  by (simp add: conn_end_def usable_dtor [OF assms])

lemmas conn_moves = conn_receive_usable conn_send_usable conn_end_usable

text \<open>The client.\<close>

lemma client_round_usable:
  assumes "usable_sock (cl_ctx c) fd (cl_sock c)"
  shows "client_round h i c =
    (if i < 5 then c\<lparr>cl_sock := (cl_sock c)\<lparr>sk_attached := Some (cl_ctx c)\<rparr>, cl_pc := Saying i (SendReq fd 0 12)\<rparr>
     else c\<lparr>cl_sock := sock_reset, cl_closed := Some fd, cl_pc := ClientEnded TcpDone\<rparr>)"
  by (simp add: client_round_def client_await_def sock_send_def usable_issue(1) [OF assms] client_end_def
      usable_dtor [OF assms])

lemma client_hear_usable:
  assumes "usable_sock (cl_ctx c) fd (cl_sock c)"
  shows "client_await (sock_receive (cl_ctx c) 0 1024 h (cl_sock c)) (Hearing i) c =
    c\<lparr>cl_sock := (cl_sock c)\<lparr>sk_attached := Some (cl_ctx c)\<rparr>, cl_pc := Hearing i (ReceiveReq fd 0 1024)\<rparr>"
  by (simp add: client_await_def sock_receive_def usable_issue(1) [OF assms])

lemmas session_defs = session_inv_def client_inv_def conn_inv_def client_gone_def conn_gone_def flow_def under_way_def
  held_def hearing_def whole_def client_work.simps conn_work_def session_work_def

lemma spoken_mono: "m \<le> n \<Longrightarrow> prefix (spoken m) (spoken n)"
proof -
  assume "m \<le> n"
  then have "replicate n hello_server = replicate m hello_server @ replicate (n - m) hello_server"
    by (simp flip: replicate_add)
  then show ?thesis by (simp add: spoken_def)
qed

lemma spoken_subseq: "subseq xs (spoken m) \<Longrightarrow> m \<le> n \<Longrightarrow> subseq xs (spoken n)"
  by (rule subseq_order.order_trans) (auto intro: prefix_imp_subseq spoken_mono)

lemma subseq_took: "subseq (xs @ take m ys @ zs) (xs @ ys @ zs)"
  by (intro list_emb_append_mono prefix_imp_subseq take_is_prefix) simp_all

text \<open>What each step makes of its party: of the client while it is in its loop, of the coroutine while it lives.\<close>

lemma client_steps:
  assumes "client_inv fd c"
  shows "cl_pc c = Connecting req \<Longrightarrow> client_resume h (did 0 []) c =
           c\<lparr>cl_sock := (cl_sock c)\<lparr>sk_attached := Some (cl_ctx c)\<rparr>, cl_pc := Saying 0 (SendReq fd 0 12)\<rparr>"
    and "cl_pc c = Saying i req \<Longrightarrow> client_resume h (did n []) c =
           c\<lparr>cl_sock := (cl_sock c)\<lparr>sk_attached := Some (cl_ctx c)\<rparr>, cl_pc := Hearing i (ReceiveReq fd 0 1024)\<rparr>"
    and "cl_pc c = Hearing i req \<Longrightarrow> data \<noteq> [] \<Longrightarrow> length data \<le> 1024 \<Longrightarrow> client_resume h (did (length data) data) c =
           (let c = c\<lparr>cl_got := cl_got c @ data\<rparr>
            in if Suc i < 5 then c\<lparr>cl_sock := (cl_sock c)\<lparr>sk_attached := Some (cl_ctx c)\<rparr>, cl_pc := Saying (Suc i) (SendReq fd 0 12)\<rparr>
               else c\<lparr>cl_sock := sock_reset, cl_closed := Some fd, cl_pc := ClientEnded TcpDone\<rparr>)"
    and "cl_pc c = Hearing i req \<Longrightarrow> client_resume h (did 0 []) c =
           c\<lparr>cl_sock := sock_reset, cl_closed := Some fd, cl_pc := ClientEnded TcpEof\<rparr>"
    and "\<forall>x. cl_pc c \<noteq> ClientEnded x \<Longrightarrow> e \<noteq> 0 \<Longrightarrow> client_resume h (reset_by_peer e) c =
           c\<lparr>cl_sock := sock_reset, cl_closed := Some fd, cl_pc := ClientEnded (TcpFailed (make_system_error_code e))\<rparr>"
proof -
  show "cl_pc c = Connecting req \<Longrightarrow> client_resume h (did 0 []) c =
      c\<lparr>cl_sock := (cl_sock c)\<lparr>sk_attached := Some (cl_ctx c)\<rparr>, cl_pc := Saying 0 (SendReq fd 0 12)\<rparr>"
    using assms client_round_usable [of c fd h 0] by (simp add: client_inv_def client_resume_def)
  show "cl_pc c = Saying i req \<Longrightarrow> client_resume h (did n []) c =
      c\<lparr>cl_sock := (cl_sock c)\<lparr>sk_attached := Some (cl_ctx c)\<rparr>, cl_pc := Hearing i (ReceiveReq fd 0 1024)\<rparr>"
    using assms client_hear_usable [of c fd h i] by (simp add: client_inv_def client_resume_def)
  have ends: "client_end e c = c\<lparr>cl_sock := sock_reset, cl_closed := Some fd, cl_pc := ClientEnded e\<rparr>"
    if "\<forall>x. cl_pc c \<noteq> ClientEnded x" for e
    using assms that usable_dtor [of "cl_ctx c" fd "cl_sock c"]
    by (auto simp: client_inv_def client_end_def split: client_pc.splits)
  show "cl_pc c = Hearing i req \<Longrightarrow> client_resume h (did 0 []) c =
      c\<lparr>cl_sock := sock_reset, cl_closed := Some fd, cl_pc := ClientEnded TcpEof\<rparr>"
    using ends by (simp add: client_resume_def)
  show "client_resume h (reset_by_peer e) c =
      c\<lparr>cl_sock := sock_reset, cl_closed := Some fd, cl_pc := ClientEnded (TcpFailed (make_system_error_code e))\<rparr>"
    if "\<forall>x. cl_pc c \<noteq> ClientEnded x" and "e \<noteq> 0"
    using ends [OF that(1)] that
    by (auto simp: client_resume_def reset_by_peer_def pipe_throw_def Let_def split: client_pc.splits)
  assume pc: "cl_pc c = Hearing i req" and d: "data \<noteq> []" "length data \<le> 1024"
  have u: "usable_sock (cl_ctx c) fd (cl_sock c)" using assms pc by (simp add: client_inv_def)
  show "client_resume h (did (length data) data) c =
      (let c = c\<lparr>cl_got := cl_got c @ data\<rparr>
       in if Suc i < 5 then c\<lparr>cl_sock := (cl_sock c)\<lparr>sk_attached := Some (cl_ctx c)\<rparr>, cl_pc := Saying (Suc i) (SendReq fd 0 12)\<rparr>
          else c\<lparr>cl_sock := sock_reset, cl_closed := Some fd, cl_pc := ClientEnded TcpDone\<rparr>)"
    using client_round_usable [of "c\<lparr>cl_got := cl_got c @ data\<rparr>" fd h "Suc i"] u d small_size_t_0 [OF d(2)]
    by (simp add: client_resume_def pc)
qed

lemma conn_steps:
  assumes "conn_inv fd c"
  shows "cn_pc c = Spawned \<Longrightarrow> handle_conn h d c =
           c\<lparr>cn_sock := (cn_sock c)\<lparr>sk_attached := Some (cn_ctx c)\<rparr>, cn_pc := Receiving (ReceiveReq fd 0 1024)\<rparr>"
    and "cn_pc c = Receiving req \<Longrightarrow> data \<noteq> [] \<Longrightarrow> length data \<le> 1024 \<Longrightarrow> handle_conn h (did (length data) data) c =
           c\<lparr>cn_buf := data, cn_sock := (cn_sock c)\<lparr>sk_attached := Some (cn_ctx c)\<rparr>, cn_pc := Sending (SendReq fd 0 (length data))\<rparr>"
    and "cn_pc c = Receiving req \<Longrightarrow> handle_conn h (did 0 []) c =
           c\<lparr>cn_buf := [], cn_sock := sock_reset, cn_closed := Some fd, cn_pc := Ended TcpEof\<rparr>"
    and "cn_pc c = Sending req \<Longrightarrow> handle_conn h (did n []) c =
           c\<lparr>cn_sock := (cn_sock c)\<lparr>sk_attached := Some (cn_ctx c)\<rparr>, cn_pc := Receiving (ReceiveReq fd 0 1024)\<rparr>"
    and "cn_pc c = Receiving req \<or> cn_pc c = Sending req \<Longrightarrow> e \<noteq> 0 \<Longrightarrow> \<exists>b. handle_conn h (reset_by_peer e) c =
           c\<lparr>cn_buf := b, cn_sock := sock_reset, cn_closed := Some fd, cn_pc := Ended (TcpFailed (make_system_error_code e))\<rparr>"
proof -
  show "cn_pc c = Spawned \<Longrightarrow> handle_conn h d c =
      c\<lparr>cn_sock := (cn_sock c)\<lparr>sk_attached := Some (cn_ctx c)\<rparr>, cn_pc := Receiving (ReceiveReq fd 0 1024)\<rparr>"
    using assms conn_receive_usable [of c fd h] by (simp add: conn_inv_def handle_conn_def)
  show "cn_pc c = Sending req \<Longrightarrow> handle_conn h (did n []) c =
      c\<lparr>cn_sock := (cn_sock c)\<lparr>sk_attached := Some (cn_ctx c)\<rparr>, cn_pc := Receiving (ReceiveReq fd 0 1024)\<rparr>"
    using assms conn_receive_usable [of c fd h] by (simp add: conn_inv_def handle_conn_def)
  show "cn_pc c = Receiving req \<Longrightarrow> handle_conn h (did 0 []) c =
      c\<lparr>cn_buf := [], cn_sock := sock_reset, cn_closed := Some fd, cn_pc := Ended TcpEof\<rparr>"
    using assms conn_end_usable [of "c\<lparr>cn_buf := []\<rparr>" fd TcpEof] by (simp add: conn_inv_def handle_conn_def Let_def)
  show "handle_conn h (did (length data) data) c =
      c\<lparr>cn_buf := data, cn_sock := (cn_sock c)\<lparr>sk_attached := Some (cn_ctx c)\<rparr>, cn_pc := Sending (SendReq fd 0 (length data))\<rparr>"
    if pc: "cn_pc c = Receiving req" and d: "data \<noteq> []" "length data \<le> 1024"
    using assms conn_send_usable [of "c\<lparr>cn_buf := data\<rparr>" fd h "length data"] d small_size_t [OF d(2)] small_size_t_0 [OF d(2)]
    by (simp add: conn_inv_def handle_conn_def pc Let_def)
  show "\<exists>b. handle_conn h (reset_by_peer e) c =
      c\<lparr>cn_buf := b, cn_sock := sock_reset, cn_closed := Some fd, cn_pc := Ended (TcpFailed (make_system_error_code e))\<rparr>"
    if "cn_pc c = Receiving req \<or> cn_pc c = Sending req" and "e \<noteq> 0"
    using that(1)
  proof
    assume "cn_pc c = Receiving req"
    then show ?thesis
      using assms that(2) conn_end_usable [of "c\<lparr>cn_buf := []\<rparr>" fd "TcpFailed (make_system_error_code e)"]
      by (intro exI [of _ "[]"]) (simp add: conn_inv_def handle_conn_def reset_by_peer_def pipe_throw_def Let_def)
  next
    assume "cn_pc c = Sending req"
    then show ?thesis
      using assms that(2) conn_end_usable [of c fd "TcpFailed (make_system_error_code e)"]
      by (intro exI [of _ "cn_buf c"]) (simp add: conn_inv_def handle_conn_def reset_by_peer_def pipe_throw_def)
  qed
qed

lemma attached_usable: "usable_sock ctx fd s \<Longrightarrow> usable_sock ctx fd (s\<lparr>sk_attached := Some ctx\<rparr>)"
  by (rule usable_issue(2))

lemma client_step_inv:
  assumes inv: "session_inv cfd sfd s" and alive: "\<not> client_gone s"
  shows "cl_pc (ss_client s) = Connecting req \<Longrightarrow>
      session_inv cfd sfd (s\<lparr>ss_client := client_resume h (did 0 []) (ss_client s)\<rparr>)"
    and "cl_pc (ss_client s) = Saying i (SendReq fd b n) \<Longrightarrow> 0 < m \<Longrightarrow> m \<le> n \<Longrightarrow>
      session_inv cfd sfd (s\<lparr>ss_client := client_resume h (did m []) (ss_client s), ss_up := ss_up s @ take m hello_server,
        ss_short := ss_short s \<or> m < n\<rparr>)"
    and "cl_pc (ss_client s) = Hearing i (ReceiveReq fd b n) \<Longrightarrow> ss_down s = data @ rest \<Longrightarrow> data \<noteq> [] \<Longrightarrow> length data \<le> n \<Longrightarrow>
      session_inv cfd sfd (s\<lparr>ss_client := client_resume h (did (length data) data) (ss_client s), ss_down := rest\<rparr>)"
    and "cl_pc (ss_client s) = Hearing i req \<Longrightarrow> ss_down s = [] \<Longrightarrow> conn_gone s \<Longrightarrow>
      session_inv cfd sfd (s\<lparr>ss_client := client_resume h (did 0 []) (ss_client s)\<rparr>)"
    and "e \<noteq> 0 \<Longrightarrow>
      session_inv cfd sfd (s\<lparr>ss_client := client_resume h (reset_by_peer e) (ss_client s), ss_failed := True\<rparr>)"
proof -
  have c: "client_inv cfd (ss_client s)" and sub: "subseq (flow s) (spoken (said_so_far (cl_pc (ss_client s))))"
    using inv by (auto simp: session_inv_def)
  note client = client_steps [OF c, where h = h]
  show "session_inv cfd sfd (s\<lparr>ss_client := client_resume h (did 0 []) (ss_client s)\<rparr>)"
    if "cl_pc (ss_client s) = Connecting req"
    using inv c that client(1) [OF that] by (auto simp: session_defs attached_usable)
  show "session_inv cfd sfd (s\<lparr>ss_client := client_resume h (did m []) (ss_client s), ss_up := ss_up s @ take m hello_server,
      ss_short := ss_short s \<or> m < n\<rparr>)"
    if pc: "cl_pc (ss_client s) = Saying i (SendReq fd b n)" and m: "0 < m" "m \<le> n"
  proof -
    have n: "n = 12" "i < 5" "usable_sock (cl_ctx (ss_client s)) cfd (cl_sock (ss_client s))"
      using c pc by (auto simp: client_inv_def)
    have "subseq (flow s @ take m hello_server) (spoken i @ hello_server)"
      by (rule list_emb_append_mono) (use sub pc in \<open>auto intro: prefix_imp_subseq take_is_prefix\<close>)
    then have f: "subseq (flow s @ take m hello_server) (spoken (Suc i))" by simp
    have t: "take m hello_server \<noteq> []" using m(1) by (metis hello_length length_0_conv take_eq_Nil zero_neq_numeral less_numeral_extra(3))
    have all: "\<not> m < n \<Longrightarrow> take m hello_server = hello_server" using n by simp
    have w: "prefix (spoken (Suc i)) (spoken 5)" using n(2) by (intro spoken_mono) simp
    have g: "flow s = spoken i \<Longrightarrow> flow s @ hello_server = spoken (Suc i)" by simp
    show ?thesis using inv f t all w n g [unfolded flow_def under_way_def held_def append_assoc] by (auto simp: session_defs attached_usable pc client(2) [OF pc])
  qed
  show "session_inv cfd sfd (s\<lparr>ss_client := client_resume h (did (length data) data) (ss_client s), ss_down := rest\<rparr>)"
    if pc: "cl_pc (ss_client s) = Hearing i (ReceiveReq fd b n)" and d: "ss_down s = data @ rest" "data \<noteq> []" "length data \<le> n"
  proof -
    have n: "length data \<le> 1024" "i < 5" "usable_sock (cl_ctx (ss_client s)) cfd (cl_sock (ss_client s))"
      using c pc d by (auto simp: client_inv_def)
    show ?thesis
    proof (cases "Suc i < 5")
      case False
      then have "spoken (Suc i) = spoken 5" using n(2) by (intro arg_cong [of _ _ spoken]) linarith
      with False show ?thesis
        using inv d n by (auto simp: session_defs attached_usable pc client(3) [OF pc d(2) n(1)] Let_def)
    next
      case True
      then show ?thesis
        using inv d n by (auto simp: session_defs attached_usable pc client(3) [OF pc d(2) n(1)] Let_def)
    qed
  qed
  show "session_inv cfd sfd (s\<lparr>ss_client := client_resume h (did 0 []) (ss_client s)\<rparr>)"
    if pc: "cl_pc (ss_client s) = Hearing i req" and d: "ss_down s = []" "conn_gone s"
  proof -
    have "i < 5" using c pc by (simp add: client_inv_def)
    then have "subseq (flow s) (spoken 5)" using sub pc by (intro spoken_subseq [OF sub]) simp
    moreover obtain x where x: "cn_pc (ss_conn s) = Ended x" using d(2) by (auto simp: conn_gone_def)
    moreover have "ss_failed s" using inv alive d(2) by (auto simp: session_inv_def)
    ultimately show ?thesis using inv d by (simp add: session_defs pc client(4) [OF pc])
  qed
  show "session_inv cfd sfd (s\<lparr>ss_client := client_resume h (reset_by_peer e) (ss_client s), ss_failed := True\<rparr>)"
    if e: "e \<noteq> 0"
  proof -
    have pc: "\<forall>x. cl_pc (ss_client s) \<noteq> ClientEnded x" using alive by (simp add: client_gone_def)
    then have "said_so_far (cl_pc (ss_client s)) \<le> 5"
      using c by (cases "cl_pc (ss_client s)") (auto simp: client_inv_def)
    then have "subseq (flow s) (spoken 5)" using sub by (rule spoken_subseq [rotated])
    then show ?thesis using inv pc by (auto simp: session_defs client(5) [OF pc e])
  qed
qed

lemma conn_step_inv:
  assumes inv: "session_inv cfd sfd s"
  shows "cn_pc (ss_conn s) = Spawned \<Longrightarrow> session_inv cfd sfd (s\<lparr>ss_conn := handle_conn h (did 0 []) (ss_conn s)\<rparr>)"
    and "cn_pc (ss_conn s) = Receiving (ReceiveReq fd b n) \<Longrightarrow> ss_up s = data @ rest \<Longrightarrow> data \<noteq> [] \<Longrightarrow> length data \<le> n \<Longrightarrow>
      session_inv cfd sfd (s\<lparr>ss_conn := handle_conn h (did (length data) data) (ss_conn s), ss_up := rest\<rparr>)"
    and "cn_pc (ss_conn s) = Receiving req \<Longrightarrow> ss_up s = [] \<Longrightarrow> client_gone s \<Longrightarrow>
      session_inv cfd sfd (s\<lparr>ss_conn := handle_conn h (did 0 []) (ss_conn s)\<rparr>)"
    and "cn_pc (ss_conn s) = Sending (SendReq fd b n) \<Longrightarrow> 0 < m \<Longrightarrow> m \<le> n \<Longrightarrow>
      session_inv cfd sfd (s\<lparr>ss_conn := handle_conn h (did m []) (ss_conn s),
        ss_down := ss_down s @ take m (cn_buf (ss_conn s)), ss_short := ss_short s \<or> m < n\<rparr>)"
    and "cn_pc (ss_conn s) = Receiving req \<or> cn_pc (ss_conn s) = Sending req \<Longrightarrow> e \<noteq> 0 \<Longrightarrow>
      session_inv cfd sfd (s\<lparr>ss_conn := handle_conn h (reset_by_peer e) (ss_conn s),
        ss_failed := ss_failed s \<or> \<not> client_gone s\<rparr>)"
proof -
  have c: "conn_inv sfd (ss_conn s)" and sub: "subseq (flow s) (spoken (said_so_far (cl_pc (ss_client s))))"
    using inv by (auto simp: session_inv_def)
  note conn = conn_steps [OF c, where h = h]
  show "session_inv cfd sfd (s\<lparr>ss_conn := handle_conn h (did 0 []) (ss_conn s)\<rparr>)" if "cn_pc (ss_conn s) = Spawned"
    using inv that by (auto simp: session_defs attached_usable conn(1) [OF that])
  show "session_inv cfd sfd (s\<lparr>ss_conn := handle_conn h (did (length data) data) (ss_conn s), ss_up := rest\<rparr>)"
    if pc: "cn_pc (ss_conn s) = Receiving (ReceiveReq fd b n)" and d: "ss_up s = data @ rest" "data \<noteq> []" "length data \<le> n"
  proof -
    have n: "length data \<le> 1024" using c pc d by (auto simp: conn_inv_def)
    show ?thesis using inv pc d by (auto simp: session_defs attached_usable conn(2) [OF pc d(2) n])
  qed
  show "session_inv cfd sfd (s\<lparr>ss_conn := handle_conn h (did 0 []) (ss_conn s)\<rparr>)"
    if pc: "cn_pc (ss_conn s) = Receiving req" and "ss_up s = []" "client_gone s"
    using inv that by (auto simp: session_defs conn(3) [OF pc])
  show "session_inv cfd sfd (s\<lparr>ss_conn := handle_conn h (did m []) (ss_conn s),
      ss_down := ss_down s @ take m (cn_buf (ss_conn s)), ss_short := ss_short s \<or> m < n\<rparr>)"
    if pc: "cn_pc (ss_conn s) = Sending (SendReq fd b n)" and m: "0 < m" "m \<le> n"
  proof -
    let ?xs = "cl_got (ss_client s) @ ss_down s" and ?buf = "cn_buf (ss_conn s)"
    have n: "n = length ?buf" "?buf \<noteq> []" "usable_sock (cn_ctx (ss_conn s)) sfd (cn_sock (ss_conn s))"
      using c pc by (auto simp: conn_inv_def)
    have "subseq (?xs @ take m ?buf @ ss_up s) (flow s)"
      using subseq_took [of ?xs m ?buf "ss_up s"] by (simp add: flow_def under_way_def held_def pc)
    then have f: "subseq (?xs @ take m ?buf @ ss_up s) (spoken (said_so_far (cl_pc (ss_client s))))"
      using sub by (rule subseq_order.order_trans)
    have t: "take m ?buf \<noteq> []" using m n(2) by simp
    have all: "\<not> m < n \<Longrightarrow> take m ?buf = ?buf" using n by simp
    have w: "prefix (cl_got (ss_client s) @ ss_down s @ ?buf) (spoken 5)" if "prefix (cl_got (ss_client s) @ ss_down s @ ?buf @ ss_up s) (spoken 5)"
      using that by (metis append.assoc append_prefixD)
    show ?thesis using inv f t all n w by (auto simp: session_defs attached_usable pc conn(4) [OF pc])
  qed
  show "session_inv cfd sfd (s\<lparr>ss_conn := handle_conn h (reset_by_peer e) (ss_conn s),
      ss_failed := ss_failed s \<or> \<not> client_gone s\<rparr>)"
    if pc: "cn_pc (ss_conn s) = Receiving req \<or> cn_pc (ss_conn s) = Sending req" and e: "e \<noteq> 0"
  proof -
    let ?xs = "cl_got (ss_client s) @ ss_down s"
    have "subseq (?xs @ ss_up s) (flow s)"
      using subseq_took [of ?xs 0 "held (ss_conn s)" "ss_up s"] by (simp add: flow_def under_way_def)
    then have f: "subseq (?xs @ ss_up s) (spoken (said_so_far (cl_pc (ss_client s))))"
      using sub by (rule subseq_order.order_trans)
    show ?thesis using inv f conn(5) [OF pc e] by (auto simp: session_defs)
  qed
qed

lemma session_run_inv:
  assumes run: "session_run hc hs s t" and inv: "session_inv cfd sfd s"
  shows "session_inv cfd sfd t"
proof -
  have alive: "\<forall>e. cl_pc (ss_client s) \<noteq> ClientEnded e \<Longrightarrow> \<not> client_gone s" by (simp add: client_gone_def)
  consider (step) "session_step hc hs s t" | (fails) "session_fails hc hs s t" using run by (auto simp: session_run_def)
  then show ?thesis
  proof cases
    case step
    then show ?thesis
      by cases (use client_step_inv [OF inv alive] conn_step_inv [OF inv] in simp_all)
  next
    case fails
    then show ?thesis by cases (use client_step_inv(5) [OF inv] conn_step_inv(5) [OF inv] in simp_all)
  qed
qed

lemma session_step_works:
  assumes step: "session_step hc hs s t" and inv: "session_inv cfd sfd s"
  shows "session_work t < session_work s"
proof -
  have c: "client_inv cfd (ss_client s)" and k: "conn_inv sfd (ss_conn s)" using inv by (auto simp: session_inv_def)
  note client = client_steps [OF c, where h = hc] and conn = conn_steps [OF k, where h = hs]
  from step show ?thesis
  proof cases
    case (connected req)
    then show ?thesis by (simp add: session_work_def client(1))
  next
    case (said i fd b n m)
    then have "i < 5" "n = 12" using c by (auto simp: client_inv_def)
    then show ?thesis using said by (auto simp: session_work_def client(2) min_def)
  next
    case (heard i fd b n data rest)
    then have "i < 5" "length data \<le> 1024" using c by (auto simp: client_inv_def)
    then show ?thesis using heard by (auto simp: session_work_def client(3) Let_def)
  next
    case (heard_end i req)
    then show ?thesis using c by (simp add: session_work_def client(4) client_inv_def)
  next
    case start
    then show ?thesis by (simp add: session_work_def conn_work_def conn(1))
  next
    case (received fd b n data rest)
    then have "length data \<le> 1024" using k by (auto simp: conn_inv_def)
    moreover have "0 < length data" using received(4) by simp
    then have "Suc 0 < 2 * length data" by linarith
    ultimately show ?thesis using received by (auto simp: session_work_def conn_work_def conn(2))
  next
    case (received_end req)
    then show ?thesis by (simp add: session_work_def conn_work_def conn(3))
  next
    case (sent fd b n m)
    then show ?thesis by (simp add: session_work_def conn_work_def conn(4))
  qed
qed

lemma session_fails_works:
  assumes fails: "session_fails hc hs s t" and inv: "session_inv cfd sfd s"
  shows "session_work t < session_work s"
proof -
  have c: "client_inv cfd (ss_client s)" and k: "conn_inv sfd (ss_conn s)" using inv by (auto simp: session_inv_def)
  note client = client_steps [OF c, where h = hc] and conn = conn_steps [OF k, where h = hs]
  from fails show ?thesis
  proof cases
    case (client_fails e)
    have pc: "\<forall>x. cl_pc (ss_client s) \<noteq> ClientEnded x" using client_fails by (simp add: client_gone_def)
    then have "0 < client_work (cl_pc (ss_client s))"
      using c by (cases "cl_pc (ss_client s)") (auto simp: client_inv_def)
    then show ?thesis by (simp add: client_fails session_work_def client(5) [OF pc])
  next
    case (conn_fails req e)
    then show ?thesis using conn(5) [OF conn_fails(2,3)] by (auto simp: session_work_def conn_work_def)
  qed
qed

lemma session_run_works: "session_run hc hs s t \<Longrightarrow> session_inv cfd sfd s \<Longrightarrow> session_work t < session_work s"
  unfolding session_run_def using session_step_works session_fails_works by blast

lemma client_start_connecting:
  assumes start: "client_start pton errno junk sys_socket sys_bind ctx h = Inr c" and pc: "cl_pc c = Connecting req"
  shows "\<exists>so peer. sk_attached so = None \<and> c = client_await (sock_connect ctx peer h so) Connecting
        \<lparr>cl_sock = so, cl_ctx = ctx, cl_got = [], cl_pc = ClientEnded TcpDone, cl_closed = None\<rparr>"
proof -
  obtain lo where lo: "pipe_throw (inet_from pton errno junk ''::1'' 0) = Inr lo"
    using start by (cases "pipe_throw (inet_from pton errno junk ''::1'' 0)") (simp_all add: client_start_def)
  obtain peer where peer: "pipe_throw (inet_from pton errno junk ''::1'' 1234) = Inr peer"
    using start lo by (cases "pipe_throw (inet_from pton errno junk ''::1'' 1234)") (simp_all add: client_start_def)
  obtain so where so: "pipe_throw (sock_open sys_socket V6 Tcp) = Inr so"
    using start lo peer by (cases "pipe_throw (sock_open sys_socket V6 Tcp)") (simp_all add: client_start_def)
  have "sk_attached so = None"
    using so by (auto simp: sock_open_def pipe_throw_def sock_make_def sock_reset_def Let_def split_def split: if_splits)
  moreover have "c = client_await (sock_connect ctx peer h so) Connecting
      \<lparr>cl_sock = so, cl_ctx = ctx, cl_got = [], cl_pc = ClientEnded TcpDone, cl_closed = None\<rparr>"
    using start pc lo peer so
    by (cases "pipe_throw (sock_bind sys_bind lo so)") (auto simp: client_start_def client_end_def Let_def split_def)
  ultimately show ?thesis by blast
qed

lemma session_init_inv:
  assumes "session_init cfd sfd s"
  shows "session_inv cfd sfd s \<and> session_work s = 277"
proof -
  obtain req where pc: "cl_pc (ss_client s) = Connecting req"
    and cfd: "sk_handle (cl_sock (ss_client s)) = cfd" "cfd \<noteq> kInvalidHandle"
    using assms by (auto simp: session_init_def)
  obtain ctx peer h so where fresh: "sk_attached so = None"
    and client: "ss_client s = client_await (sock_connect ctx peer h so) Connecting
        \<lparr>cl_sock = so, cl_ctx = ctx, cl_got = [], cl_pc = ClientEnded TcpDone, cl_closed = None\<rparr>"
    using assms client_start_connecting unfolding session_init_def by metis
  have conn: "sock_connect ctx peer h so = Inr (if sk_handle so = kInvalidHandle then so else so\<lparr>sk_attached := Some ctx\<rparr>,
      ConnectReq (sk_handle so) (take (sockaddr_len peer) peer), ResumeCoroutine h)"
    using fresh by (simp add: sock_connect_def issue_alike sock_attach_context_def)
  have "client_inv cfd (ss_client s) \<and> cl_got (ss_client s) = []"
    using fresh cfd unfolding client conn by (auto simp: client_await_def client_inv_def usable_sock_def split: if_splits)
  moreover have "conn_inv sfd (ss_conn s) \<and> cn_pc (ss_conn s) = Spawned"
    using assms by (auto simp: session_init_def new_conn_def sock_move_ctor_def sock_make_def conn_inv_def usable_sock_def)
  ultimately show ?thesis
    using assms pc by (simp add: session_init_def session_inv_def client_gone_def conn_gone_def flow_def under_way_def
        held_def hearing_def whole_def session_work_def conn_work_def)
qed

lemma session_steps_inv:
  assumes "session_init cfd sfd s\<^sub>0" and "((session_run hc hs) ^^ n) s\<^sub>0 s"
  shows "session_inv cfd sfd s \<and> n + session_work s \<le> 277"
  using assms(2)
proof (induction n arbitrary: s)
  case 0
  then show ?case using session_init_inv [OF assms(1)] by simp
next
  case (Suc n)
  then obtain u where u: "((session_run hc hs) ^^ n) s\<^sub>0 u" "session_run hc hs u s" by auto
  show ?case using Suc.IH [OF u(1)] session_run_inv [OF u(2)] session_run_works [OF u(2)] by fastforce
qed

text \<open>While a side has not ended, some step other than a failure is possible.\<close>

lemma client_goes_on:
  assumes inv: "session_inv cfd sfd s" and alive: "\<not> client_gone s"
    and idle: "hearing (cl_pc (ss_client s)) \<Longrightarrow> ss_down s = [] \<Longrightarrow> conn_gone s"
  shows "\<exists>t. session_step hc hs s t"
proof (cases "cl_pc (ss_client s)")
  case (Connecting req)
  then show ?thesis using session_step.connected by blast
next
  case (Saying i req)
  then obtain b where "cl_pc (ss_client s) = Saying i (SendReq cfd b 12)"
    using inv by (auto simp: session_inv_def client_inv_def)
  from session_step.said [OF this, of 12] show ?thesis by auto
next
  case (Hearing i req)
  then obtain b where h: "cl_pc (ss_client s) = Hearing i (ReceiveReq cfd b 1024)"
    using inv by (auto simp: session_inv_def client_inv_def)
  show ?thesis
  proof (cases "ss_down s")
    case Nil
    then have "conn_gone s" using idle h by (simp add: hearing_def)
    then show ?thesis using session_step.heard_end [OF h Nil] by blast
  next
    case (Cons x xs)
    show ?thesis by (rule exI, rule session_step.heard [OF h, of "[x]" xs]) (simp_all add: Cons)
  qed
next
  case (ClientEnded e)
  then show ?thesis using alive by (simp add: client_gone_def)
qed

lemma session_goes_on:
  assumes inv: "session_inv cfd sfd s" and alive: "\<not> client_gone s \<or> \<not> conn_gone s"
  shows "\<exists>t. session_step hc hs s t"
proof (cases "cn_pc (ss_conn s)")
  case Spawned
  then show ?thesis using session_step.start by blast
next
  case (Sending req)
  then obtain b where "cn_pc (ss_conn s) = Sending (SendReq sfd b (length (cn_buf (ss_conn s))))" "cn_buf (ss_conn s) \<noteq> []"
    using inv by (auto simp: session_inv_def conn_inv_def)
  then show ?thesis using session_step.sent [of s sfd b _ 1] by (auto simp: Suc_le_eq)
next
  case (Receiving req)
  then obtain b where rc: "cn_pc (ss_conn s) = Receiving (ReceiveReq sfd b 1024)"
    using inv by (auto simp: session_inv_def conn_inv_def)
  show ?thesis
  proof (cases "ss_up s")
    case (Cons x xs)
    show ?thesis by (rule exI, rule session_step.received [OF rc, of "[x]" xs]) (simp_all add: Cons)
  next
    case up: Nil
    then have "under_way s = ss_down s" by (simp add: under_way_def held_def Receiving)
    then have "hearing (cl_pc (ss_client s)) \<Longrightarrow> ss_down s = [] \<Longrightarrow> conn_gone s"
      using inv by (auto simp: session_inv_def)
    then show ?thesis using session_step.received_end [OF rc up] client_goes_on [OF inv] by blast
  qed
next
  case (Ended e)
  then have "conn_gone s" by (simp add: conn_gone_def)
  then show ?thesis using alive client_goes_on [OF inv] by blast
qed

subsection \<open>Property\<close>


text \<open>A client with socket 5 and a server with socket 7.\<close>

definition demo_client :: "error_code + client" where
  "demo_client = client_start (\<lambda>af ip. (1, replicate 16 0)) 0 (replicate 32 0) (\<lambda>af tp. (5, 0)) (\<lambda>fd a. (0, 0)) 1 9"

definition demo_session :: session where
  "demo_session = \<lparr>ss_client = projr demo_client,
     ss_conn = new_conn 2 (sock_make 7 V6 Tcp), ss_up = [], ss_down = [], ss_short = False, ss_failed = False\<rparr>"

lemma demo_session_init: "session_init 5 7 demo_session"
proof -
  have "case demo_client of Inl e \<Rightarrow> False
      | Inr c \<Rightarrow> sk_handle (cl_sock c) = 5 \<and> (case cl_pc c of Connecting _ \<Rightarrow> True | _ \<Rightarrow> False)" by code_simp
  then obtain c req where c: "demo_client = Inr c" "sk_handle (cl_sock c) = 5" "cl_pc c = Connecting req"
    by (auto split: sum.splits client_pc.splits)
  have "\<exists>pton errno junk sys_socket sys_bind ctx h req.
      client_start pton errno junk sys_socket sys_bind ctx h = Inr c \<and> cl_pc c = Connecting req"
    by (intro exI conjI) (rule c(1) [unfolded demo_client_def], rule c(3))
  moreover have "ss_client demo_session = c" by (simp add: demo_session_def c(1))
  ultimately show ?thesis
    using c(2) by (auto simp: session_init_def demo_session_def kInvalidHandle_def)
qed

lemma steps_run:
  assumes "((session_step hc hs) ^^ n) s t"
  shows "((session_run hc hs) ^^ n) s t \<and> ss_failed t = ss_failed s"
  using assms
proof (induction n arbitrary: t)
  case (Suc n)
  then obtain u where u: "((session_step hc hs) ^^ n) s u" "session_step hc hs u t" by auto
  have "ss_failed t = ss_failed u" using u(2) by cases simp_all
  then show ?case using Suc.IH [OF u(1)] u(2) by (auto simp: session_run_def)
qed simp


text \<open>
  A short send loses bytes: the coroutine does not look at the number of bytes that were sent.
\<close>

lemma short_send_is_not_noticed: "cn_pc c = Sending req \<Longrightarrow> handle_conn h (did m []) c = handle_conn h (did n []) c"
  by (simp add: handle_conn_def)

end
