(* ===== verification/Echo_Servers.thy ===== *)
theory Echo_Servers
  imports Echo_Tcp Context_Pool
begin

section \<open>The echo servers (examples/v3: tcp-server.cpp, server-context-pool.cpp, server-cb.cpp)\<close>

text \<open>
  The three servers around the connections: a coroutine that accepts and spawns connections on its own
  context, ten such coroutines that hand the connections to the contexts of a pool in turn, and a class that
  accepts with callbacks. A server runs by events, each of them the completion of an operation that it awaits.
\<close>

subsection \<open>The coroutines\<close>

text \<open>
  \<open>sv_accepts\<close> are the requests on which the accepting coroutines wait, \<open>None\<close> for one that was not resumed
  yet; the connections are in the order in which they were accepted. \<open>sv_fatal\<close> is the end by \<^verbatim>\<open>M_FATAL\<close>.
\<close>

record echo_server =
  sv_acceptor :: acceptor
  sv_accepts :: "completion io_request option list"
  sv_conns :: "conn list"
  sv_fatal :: "fatal option"

datatype server_event =
  AcceptDone nat error_code size_t inet_bytes | ConnDone nat io_done

text \<open>The beginning: the address and the listening socket, each with \<^verbatim>\<open>| panic_on_err\<close>.\<close>

definition server_listen ::
  "pton_fun \<Rightarrow> int \<Rightarrow> inet_bytes \<Rightarrow> (int \<Rightarrow> sock_type \<Rightarrow> sock_handle \<times> int) \<Rightarrow> (sock_handle \<Rightarrow> inet_bytes \<Rightarrow> int \<times> int) \<Rightarrow>
   (sock_handle \<Rightarrow> int \<times> int) \<Rightarrow> (error_code \<Rightarrow> string) \<Rightarrow> nat \<Rightarrow> echo_server checked" where
  "server_listen pton errno junk sys_socket sys_bind sys_listen message accepts =
     bind_checked (pipe_panic message None (inet_from pton errno junk ''::1'' 1234)) (\<lambda>local.
     bind_checked (pipe_panic message None (fst (acc_listen sys_socket sys_bind sys_listen local))) (\<lambda>acceptor.
       Inr \<lparr>sv_acceptor = acceptor, sv_accepts = replicate accepts None, sv_conns = [], sv_fatal = None\<rparr>))"

text \<open>\<^verbatim>\<open>co_await acceptor.accept()\<close> by the accepting coroutine \<open>i\<close>.\<close>

definition server_await :: "nat \<Rightarrow> completion \<Rightarrow> nat \<Rightarrow> echo_server \<Rightarrow> echo_server" where
  "server_await ctx c i s =
     (case acc_accept ctx c (sv_acceptor s) of
        Inl e \<Rightarrow> s\<lparr>sv_fatal := Some e\<rparr>
      | Inr (a, req, _) \<Rightarrow> s\<lparr>sv_acceptor := a, sv_accepts := (sv_accepts s)[i := Some req]\<rparr>)"

text \<open>\<^verbatim>\<open>server\<close> of \<^verbatim>\<open>tcp-server.cpp\<close>, resumed; \<open>d\<close> is the value a failed accept leaves.\<close>

definition tcp_server :: "inet_bytes \<Rightarrow> nat \<Rightarrow> server_event \<Rightarrow> echo_server \<Rightarrow> echo_server option" where
  "tcp_server junk ctx ev s =
     (if sv_fatal s \<noteq> None then None
      else case ev of
             AcceptDone i ec res remote \<Rightarrow>
               if i < length (sv_accepts s)
               then Some (case sv_accepts s ! i of
                            None \<Rightarrow> server_await ctx (ResumeCoroutine i) i s
                          | Some _ \<Rightarrow>
                              (let ((socket, peer), ec) = pipe_redirect (accept_done junk ec res remote (sv_acceptor s)) no_error;
                                   s = (if is_error ec then s else s\<lparr>sv_conns := sv_conns s @ [new_conn ctx socket]\<rparr>)
                               in server_await ctx (ResumeCoroutine i) i s))
               else None
           | ConnDone k d \<Rightarrow>
               if k < length (sv_conns s) then Some (s\<lparr>sv_conns := (sv_conns s)[k := handle_conn k d (sv_conns s ! k)]\<rparr>)
               else None)"

text \<open>
  \<^verbatim>\<open>TcpServer\<close> of \<^verbatim>\<open>server-context-pool.cpp\<close>: its coroutines run on the pool's first context, whose index is 0,
  and spawn each connection on the context that \<^verbatim>\<open>next_context\<close> returns.
\<close>

definition pool_server :: "inet_bytes \<Rightarrow> server_event \<Rightarrow> echo_server \<times> cpool \<Rightarrow> (echo_server \<times> cpool) option" where
  "pool_server junk ev sp =
     (let (s, p) = sp
      in if sv_fatal s \<noteq> None then None
         else case ev of
                AcceptDone i ec res remote \<Rightarrow>
                  if i < length (sv_accepts s)
                  then Some (case sv_accepts s ! i of
                               None \<Rightarrow> (server_await 0 (ResumeCoroutine i) i s, p)
                             | Some _ \<Rightarrow>
                                 (let ((socket, peer), ec) = pipe_redirect (accept_done junk ec res remote (sv_acceptor s)) no_error;
                                      (s, p) = (if is_error ec then (s, p)
                                                else (let (ctx, p) = cpool_next_context p
                                                      in (s\<lparr>sv_conns := sv_conns s @ [new_conn ctx socket]\<rparr>, p)))
                                  in (server_await 0 (ResumeCoroutine i) i s, p)))
                  else None
              | ConnDone k d \<Rightarrow>
                  if k < length (sv_conns s)
                  then Some (s\<lparr>sv_conns := (sv_conns s)[k := handle_conn k d (sv_conns s ! k)]\<rparr>, p) else None)"

subsection \<open>The class with callbacks\<close>

text \<open>
  \<^verbatim>\<open>TcpServer\<close> of \<^verbatim>\<open>server-cb.cpp\<close>: \<^verbatim>\<open>start\<close> accepts; the callback makes a connection, starts it at once and accepts
  again.
\<close>

definition cb_accept :: "nat \<Rightarrow> echo_server \<Rightarrow> echo_server" where
  "cb_accept ctx s = server_await ctx (CallFunctor 0) 0 s"

definition cb_server :: "inet_bytes \<Rightarrow> nat \<Rightarrow> server_event \<Rightarrow> echo_server \<Rightarrow> echo_server option" where
  "cb_server junk ctx ev s =
     (if sv_fatal s \<noteq> None then None
      else case ev of
             AcceptDone i ec res remote \<Rightarrow>
               if i = 0
               then Some (let (ec, socket, address) = accept_cb_done junk ec res remote;
                              s = (if is_error ec then s
                                   else s\<lparr>sv_conns := sv_conns s @ [tc_start (new_conn ctx socket)]\<rparr>)
                          in cb_accept ctx s)
               else None
           | ConnDone k d \<Rightarrow>
               if k < length (sv_conns s) then Some (s\<lparr>sv_conns := (sv_conns s)[k := tc_complete d (sv_conns s ! k)]\<rparr>)
               else None)"

subsection \<open>Connections do not disturb each other\<close>

text \<open>A socket that the thread of the context may use.\<close>

definition attachable :: "nat \<Rightarrow> socket \<Rightarrow> bool" where
  "attachable ctx s \<longleftrightarrow> sk_attached s = None \<or> sk_attached s = Some ctx"

lemma attachable_issue:
  "attachable ctx s \<Longrightarrow> \<exists>s'. attachable ctx s' \<and> sock_issue ctx req c s = Inr (s', req (sk_handle s'), c)"
  by (auto simp: attachable_def issue_alike sock_attach_context_def)

lemma attachable_reset [simp]: "attachable ctx sock_reset"
  by (simp add: attachable_def sock_reset_def)

definition conn_ok :: "nat \<Rightarrow> conn \<Rightarrow> bool" where
  "conn_ok ctx c \<longleftrightarrow> cn_ctx c = ctx \<and> attachable ctx (cn_sock c) \<and> (\<forall>m. cn_pc c \<noteq> Ended (TcpFatal m))"

lemma conn_ok_receive: "conn_ok ctx c \<Longrightarrow> conn_ok ctx (conn_receive h c)"
  using attachable_issue [of ctx "cn_sock c" "\<lambda>fd. ReceiveReq fd 0 1024" "ResumeCoroutine h"]
  by (auto simp: conn_ok_def conn_receive_def sock_receive_def)

lemma conn_ok_send: "conn_ok ctx c \<Longrightarrow> conn_ok ctx (conn_send h n c)"
  using attachable_issue [of ctx "cn_sock c" "\<lambda>fd. SendReq fd 0 n" "ResumeCoroutine h"]
  by (auto simp: conn_ok_def conn_send_def sock_send_def)

lemma conn_ok_end: "conn_ok ctx c \<Longrightarrow> (\<And>m. e \<noteq> TcpFatal m) \<Longrightarrow> conn_ok ctx (conn_end e c)"
  by (auto simp: conn_ok_def conn_end_def sock_dtor_def sock_close_def)

lemma conn_ok_handle:
  assumes "conn_ok ctx c"
  shows "conn_ok ctx (handle_conn h d c)"
proof -
  have "conn_ok ctx (c\<lparr>cn_buf := b\<rparr>)" for b using assms by (simp add: conn_ok_def)
  with assms show ?thesis
    by (auto simp: handle_conn_def Let_def intro: conn_ok_receive conn_ok_send conn_ok_end split: conn_pc.splits sum.splits)
qed

lemma conn_ok_fold: "conn_ok ctx c \<Longrightarrow> conn_ok ctx (fold (handle_conn h) ds c)"
  by (induction ds arbitrary: c) (auto intro: conn_ok_handle)

lemma conn_ok_new: "sk_attached s = None \<Longrightarrow> conn_ok ctx (new_conn ctx s)"
  by (simp add: conn_ok_def new_conn_def sock_move_ctor_def attachable_def)

text \<open>The completions for connection \<open>k\<close>.\<close>

definition dones :: "nat \<Rightarrow> server_event list \<Rightarrow> io_done list" where
  "dones k evs = List.map_filter (\<lambda>ev. case ev of ConnDone j d \<Rightarrow> if j = k then Some d else None | _ \<Rightarrow> None) evs"

lemma dones_append [simp]: "dones k (evs @ evs') = dones k evs @ dones k evs'"
  by (simp add: dones_def map_filter_append)

lemma dones_single:
  "dones k [AcceptDone i ec res remote] = []" "dones k [ConnDone j d] = (if j = k then [d] else [])"
  by (simp_all add: dones_def List.map_filter_simps)

lemma run_schedule_snoc:
  "run_schedule exec (cs @ [c]) s = (case run_schedule exec cs s of None \<Rightarrow> None | Some t \<Rightarrow> exec c t)"
  by (induction cs arbitrary: s) (auto split: option.splits)

text \<open>
  What the accepts of a run come to: the results of those that complete without error, in order. The first
  resumption of a coroutine is its start; \<open>started\<close> are the coroutines that wait for an accept already.
\<close>

fun accepts :: "nat set \<Rightarrow> server_event list \<Rightarrow> size_t list" where
  "accepts started [] = []"
| "accepts started (AcceptDone i ec res remote # evs) =
     (if i \<in> started \<and> \<not> is_error ec then [res] else []) @ accepts (insert i started) evs"
| "accepts started (ConnDone k d # evs) = accepts started evs"

definition resumed :: "server_event list \<Rightarrow> nat set" where
  "resumed evs = {i. \<exists>ec res remote. AcceptDone i ec res remote \<in> set evs}"

lemma resumed_simps [simp]:
  "resumed [] = {}" "resumed (AcceptDone i ec res remote # evs) = insert i (resumed evs)"
  "resumed (ConnDone k d # evs) = resumed evs"
  "resumed (evs @ [AcceptDone i ec res remote]) = insert i (resumed evs)" "resumed (evs @ [ConnDone k d]) = resumed evs"
  by (auto simp: resumed_def)

lemma accepts_snoc [simp]:
  "accepts started (evs @ [AcceptDone i ec res remote]) = accepts started evs
     @ (if i \<in> started \<union> resumed evs \<and> \<not> is_error ec then [res] else [])"
  "accepts started (evs @ [ConnDone k d]) = accepts started evs"
  by (induction started evs rule: accepts.induct) auto

definition awaiting :: "echo_server \<Rightarrow> nat set" where
  "awaiting s = {i. i < length (sv_accepts s) \<and> sv_accepts s ! i \<noteq> None}"

text \<open>
  What the servers have in common: an accept by a waiting coroutine that completes without error adds a
  connection on the socket of its result, for the context \<open>pick k\<close> when it is the one with number \<open>k\<close>; nothing
  else adds any, and each coroutine that was resumed waits for the next accept. A completion for a connection
  touches only that one.
\<close>

locale conn_server =
  fixes step :: "server_event \<Rightarrow> 's \<Rightarrow> 's option"
    and server :: "'s \<Rightarrow> echo_server"
    and pick :: "nat \<Rightarrow> nat"
    and sock :: "size_t \<Rightarrow> socket"
    and inv :: "'s \<Rightarrow> bool"
  assumes inv_step: "inv s \<Longrightarrow> step ev s = Some t \<Longrightarrow> inv t"
    and accept_step: "inv s \<Longrightarrow> step (AcceptDone i ec res remote) s = Some t \<Longrightarrow>
      awaiting (server t) = insert i (awaiting (server s))
    \<and> sv_conns (server t) = sv_conns (server s)
        @ (if i \<in> awaiting (server s) \<and> \<not> is_error ec then [new_conn (pick (length (sv_conns (server s)))) (sock res)] else [])"
    and conn_step: "step (ConnDone k d) s = Some t \<Longrightarrow> k < length (sv_conns (server s))
      \<and> awaiting (server t) = awaiting (server s)
      \<and> sv_conns (server t) = (sv_conns (server s))[k := handle_conn k d (sv_conns (server s) ! k)]"
    and new_sock: "sk_attached (sock res) = None"
begin

definition separate :: "nat set \<Rightarrow> server_event list \<Rightarrow> 's \<Rightarrow> bool" where
  "separate started evs s \<longleftrightarrow> inv s \<and> awaiting (server s) = started \<union> resumed evs
     \<and> length (sv_conns (server s)) = length (accepts started evs)
     \<and> (\<forall>k < length (accepts started evs).
          sv_conns (server s) ! k = fold (handle_conn k) (dones k evs) (new_conn (pick k) (sock (accepts started evs ! k))))
     \<and> (\<forall>k \<ge> length (accepts started evs). dones k evs = [])"

lemma separate_step:
  assumes sep: "separate started evs s" and step: "step ev s = Some t"
  shows "separate started (evs @ [ev]) t"
proof (cases ev)
  case (AcceptDone i ec res remote)
  have "inv s" using sep by (simp add: separate_def)
  note inv = inv_step [OF this step] and acc = accept_step [OF this step [unfolded AcceptDone]]
  show ?thesis
    using sep inv acc by (auto simp: separate_def AcceptDone dones_single nth_append less_Suc_eq)
next
  case (ConnDone k d)
  have "inv s" using sep by (simp add: separate_def)
  note inv = inv_step [OF this step] and rest = conn_step [OF step [unfolded ConnDone]]
  show ?thesis
    using sep inv rest by (auto simp: separate_def ConnDone dones_single nth_list_update fold_append)
qed

lemma runs_separately:
  assumes "inv s\<^sub>0" and "sv_conns (server s\<^sub>0) = []" and "run_schedule step evs s\<^sub>0 = Some s"
  shows "separate (awaiting (server s\<^sub>0)) evs s"
  using assms(3)
proof (induction evs arbitrary: s rule: rev_induct)
  case Nil
  then show ?case using assms(1,2) by (simp add: separate_def dones_def List.map_filter_simps)
next
  case (snoc ev evs)
  then obtain u where "run_schedule step evs s\<^sub>0 = Some u" "step ev u = Some s"
    by (auto simp: run_schedule_snoc split: option.splits)
  then show ?case using snoc.IH separate_step by blast
qed

lemma each_on_its_own:
  assumes "inv s\<^sub>0" and "sv_conns (server s\<^sub>0) = []" and "run_schedule step evs s\<^sub>0 = Some s"
  shows "length (sv_conns (server s)) = length (accepts (awaiting (server s\<^sub>0)) evs)"
    and "k < length (sv_conns (server s)) \<Longrightarrow> sv_conns (server s) ! k
      = fold (handle_conn k) (dones k evs) (new_conn (pick k) (sock (accepts (awaiting (server s\<^sub>0)) evs ! k)))"
    and "k < length (sv_conns (server s)) \<Longrightarrow> conn_ok (pick k) (sv_conns (server s) ! k)"
  using runs_separately [OF assms] by (auto simp: separate_def intro: conn_ok_fold conn_ok_new new_sock)

end

subsection \<open>The two servers with coroutines\<close>

definition listener_ok :: "nat \<Rightarrow> echo_server \<Rightarrow> bool" where
  "listener_ok ctx s \<longleftrightarrow> sv_fatal s = None \<and> attachable ctx (ac_listener (sv_acceptor s))"

text \<open>The socket of a new connection has the address family and the protocol of the listening one.\<close>

definition listens :: "nat \<Rightarrow> socket \<Rightarrow> echo_server \<Rightarrow> bool" where
  "listens ctx so s \<longleftrightarrow> listener_ok ctx s \<and> sk_ip (ac_listener (sv_acceptor s)) = sk_ip so
     \<and> sk_transport (ac_listener (sv_acceptor s)) = sk_transport so"

definition accepted_sock :: "socket \<Rightarrow> size_t \<Rightarrow> socket" where
  "accepted_sock so res = sock_make (to_int res) (sk_ip so) (sk_transport so)"

lemma await_listener_ok:
  assumes "listener_ok ctx s"
  shows "listener_ok ctx (server_await ctx c i s)" and "sv_conns (server_await ctx c i s) = sv_conns s"
    and "i < length (sv_accepts s) \<Longrightarrow> awaiting (server_await ctx c i s) = insert i (awaiting s)"
  using assms
  by (auto simp: listener_ok_def attachable_def server_await_def acc_accept_def acc_attach_context_def
      sock_attach_context_def bind_checked_def awaiting_def nth_list_update split: option.splits if_splits)

lemma await_listens: "listens ctx so s \<Longrightarrow> listens ctx so (server_await ctx c i s)"
  using await_listener_ok(1) [of ctx s c i]
  by (auto simp: listens_def server_await_def acc_accept_def acc_attach_context_def listener_ok_def attachable_def
      sock_attach_context_def bind_checked_def split: option.splits if_splits)

lemma accept_done_sock:
  "listens ctx so s \<Longrightarrow> \<not> is_error ec \<Longrightarrow>
     fst (res_value (accept_done junk ec res remote (sv_acceptor s))) = accepted_sock so res"
  "is_error (res_ec (accept_done junk ec res remote a)) \<longleftrightarrow> is_error ec"
  by (simp_all add: accept_done_def accepted_sock_def listens_def)

lemma accepted_sock_new: "sk_attached (accepted_sock so res) = None"
  by (simp add: accepted_sock_def sock_make_def sock_reset_def)

lemma listener_conns [simp]:
  "listener_ok ctx (s\<lparr>sv_conns := cs\<rparr>) = listener_ok ctx s" "listens ctx so (s\<lparr>sv_conns := cs\<rparr>) = listens ctx so s"
  "awaiting (s\<lparr>sv_conns := cs\<rparr>) = awaiting s"
  by (simp_all add: listener_ok_def listens_def awaiting_def)

lemma listens_ok: "listens ctx so s \<Longrightarrow> listener_ok ctx s"
  by (simp add: listens_def)

lemmas server_step_simps = Let_def split_def accept_done_sock await_listener_ok listens_ok await_listens

interpretation tcp: conn_server "tcp_server junk ctx" "\<lambda>s. s" "\<lambda>k. ctx" "accepted_sock so" "listens ctx so" for junk ctx so
proof
  fix s t ev
  assume ok: "listens ctx so s"
  show "tcp_server junk ctx ev s = Some t \<Longrightarrow> listens ctx so t"
    using ok by (auto simp: tcp_server_def server_step_simps split: server_event.splits if_splits option.splits)
  show "awaiting t = insert i (awaiting s) \<and> sv_conns t = sv_conns s
      @ (if i \<in> awaiting s \<and> \<not> is_error ec then [new_conn ctx (accepted_sock so res)] else [])"
    if "tcp_server junk ctx (AcceptDone i ec res remote) s = Some t" for i ec res remote
    using that ok by (auto simp: tcp_server_def server_step_simps awaiting_def [of s] split: if_splits option.splits)
qed (auto simp: tcp_server_def accepted_sock_new split: if_splits)

definition pool_ok :: "nat \<Rightarrow> socket \<Rightarrow> echo_server \<times> cpool \<Rightarrow> bool" where
  "pool_ok n so sp \<longleftrightarrow> listens 0 so (fst sp) \<and> length (po_contexts (snd sp)) = n \<and> 0 < n \<and> n < 2 ^ 64
     \<and> unat (po_next_idx (snd sp)) = length (sv_conns (fst sp)) mod n"

lemma pool_takes_next:
  assumes "unat (po_next_idx p) = k mod n" and "length (po_contexts p) = n" and "0 < n" and "n < 2 ^ 64"
  shows "fst (cpool_next_context p) = k mod n" and "unat (po_next_idx (snd (cpool_next_context p))) = Suc k mod n"
proof -
  have "Suc (unat (po_next_idx p)) < 2 ^ 64"
    using assms mod_less_divisor [of n k] by linarith
  then have "unat (po_next_idx p + 1) = Suc (k mod n)" using assms(1) by (simp add: unat_add_one)
  then show "unat (po_next_idx (snd (cpool_next_context p))) = Suc k mod n"
    using assms by (simp add: cpool_next_context_def unat_mod unat_of_nat_size_t mod_Suc_eq)
qed (simp add: cpool_next_context_def assms(1))

interpretation pool: conn_server "pool_server junk" fst "\<lambda>k. k mod n" "accepted_sock so" "pool_ok n so" for junk n so
proof
  fix s t :: "echo_server \<times> cpool" and ev
  assume ok: "pool_ok n so s"
  obtain v p where s: "s = (v, p)" by (cases s)
  have v: "listens 0 so v" and n: "0 < n" "length (po_contexts p) = n"
    and next_idx: "fst (cpool_next_context p) = length (sv_conns v) mod n"
      "unat (po_next_idx (snd (cpool_next_context p))) = Suc (length (sv_conns v)) mod n"
      "po_contexts (snd (cpool_next_context p)) = po_contexts p"
    using ok pool_takes_next [of p "length (sv_conns v)" n]
    by (auto simp: pool_ok_def s cpool_next_context_def)
  show "pool_server junk ev s = Some t \<Longrightarrow> pool_ok n so t"
    using ok v next_idx by (auto simp: pool_server_def pool_ok_def s server_step_simps
        split: server_event.splits if_splits option.splits)
  show "awaiting (fst t) = insert i (awaiting (fst s)) \<and> sv_conns (fst t) = sv_conns (fst s)
      @ (if i \<in> awaiting (fst s) \<and> \<not> is_error ec
         then [new_conn (length (sv_conns (fst s)) mod n) (accepted_sock so res)] else [])"
    if "pool_server junk (AcceptDone i ec res remote) s = Some t" for i ec res remote
    using that v next_idx(1)
    by (auto simp: pool_server_def s server_step_simps awaiting_def [of v] split: if_splits option.splits)
qed (auto simp: pool_server_def Let_def split_def accepted_sock_new split: if_splits)

subsection \<open>The class accepts and serves as the coroutine does\<close>

text \<open>What a completion of the class is to the coroutines: after an accept, the new coroutine is resumed.\<close>

definition as_coroutine :: "server_event \<Rightarrow> echo_server \<Rightarrow> server_event list" where
  "as_coroutine ev s =
     (case ev of
        AcceptDone i ec res remote \<Rightarrow>
          if is_error ec then [ev] else [ev, ConnDone (length (sv_conns s)) (did 0 [])]
      | ConnDone k d \<Rightarrow> [ev])"

fun as_coroutines :: "inet_bytes \<Rightarrow> nat \<Rightarrow> server_event list \<Rightarrow> echo_server \<Rightarrow> server_event list" where
  "as_coroutines junk ctx [] s = []"
| "as_coroutines junk ctx (ev # evs) s =
     as_coroutine ev s @ (case cb_server junk ctx ev s of None \<Rightarrow> [] | Some t \<Rightarrow> as_coroutines junk ctx evs t)"

definition all_started :: "echo_server \<Rightarrow> bool" where
  "all_started s \<longleftrightarrow> (\<forall>c \<in> set (sv_conns s). cn_pc c \<noteq> Spawned)"

text \<open>The class is waiting for its first accept, on an IPv6 socket; the addresses of the peers are of that family.\<close>

definition cb_listening :: "nat \<Rightarrow> echo_server \<Rightarrow> bool" where
  "cb_listening ctx s \<longleftrightarrow> listener_ok ctx s \<and> (\<exists>req. sv_accepts s = [Some req])
     \<and> sk_ip (ac_listener (sv_acceptor s)) = V6 \<and> sk_transport (ac_listener (sv_acceptor s)) = Tcp"

fun v6_peer :: "server_event \<Rightarrow> bool" where
  "v6_peer (AcceptDone i ec res remote) \<longleftrightarrow> sa_family remote = af_inet6"
| "v6_peer (ConnDone k d) \<longleftrightarrow> True"

lemma await_alike: "server_await ctx c i s = server_await ctx c' i s"
  by (auto simp: server_await_def acc_accept_def bind_checked_def split: sum.splits)

lemma await_keeps_listening:
  assumes "cb_listening ctx s"
  shows "cb_listening ctx (server_await ctx c 0 s)"
  using assms await_listener_ok(1) [of ctx s c 0]
  by (auto simp: cb_listening_def listener_ok_def attachable_def server_await_def acc_accept_def acc_attach_context_def
      sock_attach_context_def bind_checked_def split: option.splits)

lemma cb_listening_conns [simp]: "cb_listening ctx (s\<lparr>sv_conns := cs\<rparr>) = cb_listening ctx s"
  by (simp add: cb_listening_def)

lemma accepted_alike:
  assumes "cb_listening ctx s" and "sa_family remote = af_inet6" and "\<not> is_error ec"
  shows "accept_cb_done junk ec res remote
    = (ec, fst (res_value (accept_done junk ec res remote (sv_acceptor s))), inet_from_sockaddr junk remote)"
  using assms by (simp add: accept_cb_done_def accept_done_def cb_listening_def af_inet_def af_inet6_def)

lemma conn_receive_started: "cn_pc (conn_receive h c) \<noteq> Spawned"
  by (auto simp: conn_receive_def split: sum.splits)

lemma conn_send_started: "cn_pc (conn_send h n c) \<noteq> Spawned"
  by (auto simp: conn_send_def split: sum.splits)

lemma handle_conn_started: "cn_pc (handle_conn h d c) \<noteq> Spawned"
  by (auto simp: handle_conn_def conn_end_def Let_def split_def conn_receive_started conn_send_started
      split: conn_pc.splits sum.splits)

lemma server_await_conns: "server_await ctx c i (s\<lparr>sv_conns := cs\<rparr>) = (server_await ctx c i s)\<lparr>sv_conns := cs\<rparr>"
  by (auto simp: server_await_def split: sum.splits)

lemma new_conn_spawned: "cn_pc (new_conn ctx s) = Spawned"
  by (simp add: new_conn_def)

lemma cb_server_step:
  assumes s: "cb_listening ctx s" "all_started s" and ev: "v6_peer ev" and step: "cb_server junk ctx ev s = Some t"
  shows "run_schedule (tcp_server junk ctx) (as_coroutine ev s) s = Some t \<and> cb_listening ctx t \<and> all_started t"
proof (cases ev)
  case (ConnDone k d)
  then have k: "k < length (sv_conns s)" and t: "t = s\<lparr>sv_conns := (sv_conns s)[k := tc_complete d (sv_conns s ! k)]\<rparr>"
    using step by (auto simp: cb_server_def split: if_splits)
  have "cn_pc (sv_conns s ! k) \<noteq> Spawned" using s(2) k by (simp add: all_started_def)
  from tcp_connection_is_handle_conn(2) [OF this, of d k]
  have t: "t = s\<lparr>sv_conns := (sv_conns s)[k := handle_conn k d (sv_conns s ! k)]\<rparr>" by (simp add: t)
  have "all_started t"
    using s(2) by (auto simp: t all_started_def handle_conn_started dest: set_update_subset_insert [THEN subsetD])
  then show ?thesis
    using s(1) k by (simp add: ConnDone as_coroutine_def tcp_server_def t cb_listening_def listener_ok_def)
next
  case (AcceptDone i ec res remote)
  have i: "i = 0" and fatal: "sv_fatal s = None" using step by (auto simp: AcceptDone cb_server_def split: if_splits)
  obtain req where acc: "sv_accepts s = [Some req]" using s(1) by (auto simp: cb_listening_def)
  show ?thesis
  proof (cases "is_error ec")
    case True
    then have "t = server_await ctx (ResumeCoroutine 0) 0 s"
      using step await_alike [of ctx "CallFunctor 0" 0 s "ResumeCoroutine 0"]
      by (simp add: AcceptDone i fatal cb_server_def cb_accept_def accept_cb_done_def Let_def)
    moreover have "all_started (server_await ctx (ResumeCoroutine 0) 0 s)"
      using s await_listener_ok(2) [of ctx s "ResumeCoroutine 0" 0] by (simp add: all_started_def cb_listening_def)
    ultimately show ?thesis
      using True await_keeps_listening [OF s(1)]
      by (simp add: AcceptDone i as_coroutine_def tcp_server_def fatal acc accept_done_def Let_def)
  next
    case False
    let ?sock = "fst (res_value (accept_done junk ec res remote (sv_acceptor s)))"
    let ?u = "server_await ctx (ResumeCoroutine 0) 0 s"
    have fatal_u: "sv_fatal ?u = None" and conns_u: "sv_conns ?u = sv_conns s"
      using await_listener_ok(1,2) [of ctx s "ResumeCoroutine 0" 0] s(1) by (auto simp: cb_listening_def listener_ok_def)
    have new: "tc_start (new_conn ctx k) = handle_conn (length (sv_conns s)) (did 0 []) (new_conn ctx k)" for k
      by (rule tcp_connection_is_handle_conn(1)) (rule new_conn_spawned)
    have t: "t = ?u\<lparr>sv_conns := sv_conns s @ [tc_start (new_conn ctx ?sock)]\<rparr>"
      using step ev False accepted_alike [OF s(1), of remote ec junk res]
        await_alike [of ctx "CallFunctor 0" 0 s "ResumeCoroutine 0"]
      by (simp add: AcceptDone i fatal cb_server_def cb_accept_def server_await_conns Let_def)
    have "run_schedule (tcp_server junk ctx) (as_coroutine ev s) s = Some t"
      using False
      by (simp add: AcceptDone i as_coroutine_def tcp_server_def fatal fatal_u acc accept_done_def Let_def split_def
          server_await_conns t new)
    moreover have "all_started t" using s(2) by (auto simp: t all_started_def new handle_conn_started)
    ultimately show ?thesis using await_keeps_listening [OF s(1)] by (simp add: t)
  qed
qed

lemma run_schedule_append:
  "run_schedule exec (cs @ ds) s = (case run_schedule exec cs s of None \<Rightarrow> None | Some t \<Rightarrow> run_schedule exec ds t)"
  by (induction cs arbitrary: s) (auto split: option.splits)

text \<open>A server that listens: its coroutines have not run yet.\<close>

lemma listening_server:
  assumes "server_listen pton errno junk sys_socket sys_bind sys_listen message n = Inr s"
  shows "sv_fatal s = None" and "sk_attached (ac_listener (sv_acceptor s)) = None" and "sv_conns s = []"
    and "sv_accepts s = replicate n None" and "awaiting s = {}"
proof -
  have opened: "sk_attached (res_value (sock_open sys_socket ip tp)) = None" for ip tp
    by (auto simp: sock_open_def Let_def split_def sock_reset_def sock_make_def)
  have moved: "sk_attached t = None \<Longrightarrow> sk_attached (fst (sock_move_assign sock_reset t)) = None" for t
    by (simp add: sock_move_assign_def sock_reset_def)
  have reset: "sk_attached sock_reset = None" by (simp add: sock_reset_def)
  have acc: "sk_attached (ac_listener (res_value (fst (acc_listen sys_socket sys_bind sys_listen a)))) = None" for a
    by (simp only: acc_listen_def Let_def split_def opened moved reset fst_conv result_of_def result_error_def
        result.simps acceptor.simps if_distrib [where f = fst] if_distrib [where f = res_value]
        if_distrib [where f = ac_listener] if_distrib [where f = sk_attached] if_cancel)
  obtain a where s: "s = \<lparr>sv_acceptor = a, sv_accepts = replicate n None, sv_conns = [], sv_fatal = None\<rparr>"
    and "\<exists>lo. a = res_value (fst (acc_listen sys_socket sys_bind sys_listen lo))"
    using assms by (auto simp: server_listen_def bind_checked_def pipe_panic_def split: sum.splits if_splits)
  then show "sv_fatal s = None" "sk_attached (ac_listener (sv_acceptor s)) = None" "sv_conns s = []"
    "sv_accepts s = replicate n None" "awaiting s = {}" using acc by (auto simp: awaiting_def)
qed

subsection \<open>Properties\<close>

text \<open>
  Property C19: the server over a pool of contexts serves exactly the connections that it accepts, in turn. Whatever
  accepts and operations complete in whatever order, with whatever results and errors, there is a connection
  for each accept that completes without error and for no other; the \<open>k\<close>-th of them has the socket of the
  \<open>k\<close>-th such accept, runs on the context with index \<open>k mod n\<close>, has seen exactly the completions of its own
  operations, and never meets the fatal error of a socket that is attached to another context; nor does the
  listening socket.
\<close>

theorem pool_server_spreads_connections:
  assumes "cpool_init num = Some p\<^sub>0"
    and "server_listen pton errno junk' sys_socket sys_bind sys_listen message n = Inr s\<^sub>0"
    and "run_schedule (pool_server junk) evs (s\<^sub>0, p\<^sub>0) = Some (s, p)"
  shows "sv_fatal s = None \<and> length (sv_conns s) = length (accepts {} evs)
    \<and> (\<forall>k < length (sv_conns s). cn_ctx (sv_conns s ! k) = k mod unat num
         \<and> sv_conns s ! k = fold (handle_conn k) (dones k evs)
             (new_conn (k mod unat num) (accepted_sock (ac_listener (sv_acceptor s\<^sub>0)) (accepts {} evs ! k)))
         \<and> (\<forall>m. cn_pc (sv_conns s ! k) \<noteq> Ended (TcpFatal m)))"
proof -
  let ?so = "ac_listener (sv_acceptor s\<^sub>0)"
  note s\<^sub>0 = listening_server [OF assms(2)]
  have num: "0 < unat num" and p: "length (po_contexts p\<^sub>0) = unat num" "po_next_idx p\<^sub>0 = 0"
    using assms(1) by (auto simp: cpool_init_def unat_gt_0 word_less_1 split: if_splits)
  have inv: "pool_ok (unat num) ?so (s\<^sub>0, p\<^sub>0)"
    using s\<^sub>0 num p unsigned_less [of num] by (simp add: pool_ok_def listens_def listener_ok_def attachable_def)
  have empty: "sv_conns (fst (s\<^sub>0, p\<^sub>0)) = []" by (simp add: s\<^sub>0)
  note own = pool.each_on_its_own [OF inv empty assms(3), unfolded fst_conv s\<^sub>0(5)]
  have "pool_ok (unat num) ?so (s, p)"
    using pool.runs_separately [OF inv empty assms(3)] by (simp add: pool.separate_def)
  then have "sv_fatal s = None" by (simp add: pool_ok_def listens_def listener_ok_def)
  then show ?thesis using own by (auto simp: conn_ok_def)
qed

text \<open>
  Property C20: the server with callbacks is the server with coroutines. On every sequence of completions the class
  and the coroutine of \<^verbatim>\<open>tcp-server.cpp\<close> make the same requests on the same sockets and end their connections
  alike, when each new coroutine is resumed as soon as it was spawned.
\<close>

theorem callback_server_is_coroutine_server:
  assumes "cb_listening ctx s" and "all_started s" and "\<forall>ev \<in> set evs. v6_peer ev"
    and "run_schedule (cb_server junk ctx) evs s = Some t"
  shows "run_schedule (tcp_server junk ctx) (as_coroutines junk ctx evs s) s = Some t"
  using assms
proof (induction evs arbitrary: s)
  case (Cons ev evs)
  then obtain u where u: "cb_server junk ctx ev s = Some u" "run_schedule (cb_server junk ctx) evs u = Some t"
    by (auto split: option.splits)
  have "v6_peer ev" using Cons.prems(3) by simp
  note step = cb_server_step [OF Cons.prems(1,2) this u(1)]
  have "\<forall>ev \<in> set evs. v6_peer ev" using Cons.prems(3) by simp
  from Cons.IH [OF conjunct1 [OF conjunct2 [OF step]] conjunct2 [OF conjunct2 [OF step]] this u(2)] step
  show ?case by (simp add: run_schedule_append u(1))
qed simp

text \<open>A server on socket 4 that has accepted two connections, on sockets 7 and 8.\<close>

definition demo_listener :: "nat \<Rightarrow> echo_server" where
  "demo_listener n = projr (server_listen (\<lambda>af ip. (1, replicate 16 0)) 1 (replicate 32 0) (\<lambda>af tp. (4, 0))
     (\<lambda>fd a. (0, 0)) (\<lambda>fd. (0, 0)) (\<lambda>ec. []) n)"

definition demo_peer :: inet_bytes where
  "demo_peer = sockaddr_in6 1111 (replicate 16 0)"

definition demo_events :: "server_event list" where
  "demo_events = [AcceptDone 0 no_error 7 demo_peer, AcceptDone 0 no_error 8 demo_peer, ConnDone 1 (did 0 []),
     ConnDone 0 (did 3 [1, 2, 3]), ConnDone 1 (did 2 [4, 5])]"

lemma demo_listener_inr:
  "server_listen (\<lambda>af ip. (1, replicate 16 0)) 1 (replicate 32 0) (\<lambda>af tp. (4, 0)) (\<lambda>fd a. (0, 0)) (\<lambda>fd. (0, 0)) (\<lambda>ec. []) n
    = Inr \<lparr>sv_acceptor = \<lparr>ac_listener = sock_make 4 V6 Tcp\<rparr>, sv_accepts = replicate n None, sv_conns = [], sv_fatal = None\<rparr>"
proof -
  have l: "fst (acc_listen (\<lambda>af tp. (4, 0)) (\<lambda>fd a. (0, 0)) (\<lambda>fd. (0, 0))
        (res_value (inet_from (\<lambda>af ip. (1, replicate 16 0)) 1 (replicate 32 0) ''::1'' 1234)))
      = result_of \<lparr>ac_listener = sock_make 4 V6 Tcp\<rparr> no_error"
    by code_simp
  have "\<not> is_error (res_ec (inet_from (\<lambda>af ip. (1, replicate 16 0)) 1 (replicate 32 0) ''::1'' 1234))"
    by code_simp
  then show ?thesis by (simp add: server_listen_def pipe_panic_def l)
qed

lemma demo_listener_fields:
  "sv_acceptor (demo_listener n) = \<lparr>ac_listener = sock_make 4 V6 Tcp\<rparr> \<and> sv_accepts (demo_listener n) = replicate n None
   \<and> sv_conns (demo_listener n) = [] \<and> sv_fatal (demo_listener n) = None"
  by (simp add: demo_listener_def demo_listener_inr)

definition demo_pool :: cpool where
  "demo_pool = the (cpool_init 4)"

definition demo_pool_run :: "(echo_server \<times> cpool) option" where
  "demo_pool_run = run_schedule (pool_server (replicate 32 0))
     (map (\<lambda>i. AcceptDone i no_error 0 []) [0..<10] @ demo_events) (demo_listener 10, demo_pool)"

theorem pool_server_spreads_connections_witness:
  "\<exists>s p. demo_pool_run = Some (s, p) \<and> length (sv_conns s) = 2 \<and> cn_ctx (sv_conns s ! 1) = 1 \<and> sv_fatal s = None
     \<and> sv_conns s ! 1 = fold (handle_conn 1) [did 0 [], did 2 [4, 5]]
         (new_conn 1 (accepted_sock (ac_listener (sv_acceptor (demo_listener 10))) 8))"
proof -
  have "demo_pool_run \<noteq> None" by code_simp
  then obtain s p where run: "demo_pool_run = Some (s, p)" by (auto split: option.splits)
  have pool: "cpool_init 4 = Some demo_pool" by (simp add: demo_pool_def cpool_init_def)
  have acc: "accepts {} (map (\<lambda>i. AcceptDone i no_error 0 []) [0..<10] @ demo_events) = [7, 8]" by code_simp
  have dones_1: "dones 1 (map (\<lambda>i. AcceptDone i no_error 0 []) [0..<10] @ demo_events) = [did 0 [], did 2 [4, 5]]" by code_simp
  have listen: "server_listen (\<lambda>af ip. (1, replicate 16 0)) 1 (replicate 32 0) (\<lambda>af tp. (4, 0)) (\<lambda>fd a. (0, 0))
      (\<lambda>fd. (0, 0)) (\<lambda>ec. []) 10 = Inr (demo_listener 10)" by (simp add: demo_listener_def demo_listener_inr)
  note served = pool_server_spreads_connections [OF pool listen run [unfolded demo_pool_run_def], unfolded acc]
  then have len: "length (sv_conns s) = 2" and fatal: "sv_fatal s = None" by simp_all
  have less: "1 < (2::nat)" by simp
  have ctx: "1 mod unat (4::size_t) = 1" and nth: "[7, 8] ! 1 = (8::size_t)" by simp_all
  from served have "cn_ctx (sv_conns s ! 1) = 1 mod unat (4::size_t)
      \<and> sv_conns s ! 1 = fold (handle_conn 1) (dones 1 (map (\<lambda>i. AcceptDone i no_error 0 []) [0..<10] @ demo_events))
          (new_conn (1 mod unat (4::size_t)) (accepted_sock (ac_listener (sv_acceptor (demo_listener 10))) ([7, 8] ! 1)))"
    unfolding len using less by blast
  then show ?thesis unfolding dones_1 ctx nth using run len fatal by blast
qed

lemma demo_listens: "cb_listening 1 (cb_accept 1 (demo_listener 1)) \<and> all_started (cb_accept 1 (demo_listener 1))"
  by (simp add: cb_listening_def listener_ok_def attachable_def cb_accept_def server_await_def acc_accept_def
      acc_attach_context_def sock_attach_context_def demo_listener_fields sock_make_def all_started_def kInvalidHandle_def)

theorem callback_server_is_coroutine_server_witness:
  "\<exists>t. run_schedule (cb_server (replicate 32 0) 1) demo_events (cb_accept 1 (demo_listener 1)) = Some t
     \<and> run_schedule (tcp_server (replicate 32 0) 1)
         (as_coroutines (replicate 32 0) 1 demo_events (cb_accept 1 (demo_listener 1))) (cb_accept 1 (demo_listener 1)) = Some t"
proof -
  have "run_schedule (cb_server (replicate 32 0) 1) demo_events (cb_accept 1 (demo_listener 1)) \<noteq> None"
    unfolding demo_events_def by code_simp
  then obtain t where t: "run_schedule (cb_server (replicate 32 0) 1) demo_events (cb_accept 1 (demo_listener 1)) = Some t"
    by blast
  have "sa_family demo_peer = af_inet6"
    by (simp add: demo_peer_def sockaddr_in6_def sa_family_def family_bytes_def af_inet6_def)
  then have "\<forall>ev \<in> set demo_events. v6_peer ev" by (simp add: demo_events_def)
  from callback_server_is_coroutine_server [OF conjunct1 [OF demo_listens] conjunct2 [OF demo_listens] this t] t
  show ?thesis by blast
qed

end
