(* ===== verification/Echo_Udp.thy ===== *)
theory Echo_Udp
  imports Echo_Tcp
begin

section \<open>The examples that echo over UDP (examples/v3: udp-echo.cpp, udp-cb.cpp)\<close>

text \<open>
  A coroutine and a class with callbacks that send every datagram back to where it came from. The completion
  of \<^verbatim>\<open>receive_from\<close> comes with the address that the system has written into the operation's context.
\<close>

subsection \<open>The coroutine\<close>

datatype udp_pc = UdpReceiving "completion io_request" | UdpSending "completion io_request" | UdpEnded tcp_end

record udp_echo =
  ud_sock :: socket
  ud_ctx :: nat
  ud_buf :: "byte list"
  ud_pc :: udp_pc
  ud_closed :: "sock_handle option"

definition udp_end :: "tcp_end \<Rightarrow> udp_echo \<Rightarrow> udp_echo" where
  "udp_end e u = (let (closed, s) = sock_dtor (ud_sock u) in u\<lparr>ud_sock := s, ud_closed := closed, ud_pc := UdpEnded e\<rparr>)"

definition udp_await :: "sock_request \<Rightarrow> (completion io_request \<Rightarrow> udp_pc) \<Rightarrow> udp_echo \<Rightarrow> udp_echo" where
  "udp_await issued pc u =
     (case issued of
        Inl e \<Rightarrow> u\<lparr>ud_pc := UdpEnded (TcpFatal e)\<rparr>
      | Inr (s, req, _) \<Rightarrow> u\<lparr>ud_sock := s, ud_pc := pc req\<rparr>)"

definition udp_receive :: "nat \<Rightarrow> udp_echo \<Rightarrow> udp_echo" where
  "udp_receive h u = udp_await (sock_receive_from (ud_ctx u) 0 1024 h (ud_sock u)) UdpReceiving u"

text \<open>\<^verbatim>\<open>amain\<close> of \<^verbatim>\<open>udp-echo.cpp\<close> up to its loop: the error with which it ends, or its first suspension.\<close>

definition udp_amain ::
  "pton_fun \<Rightarrow> int \<Rightarrow> inet_bytes \<Rightarrow> (int \<Rightarrow> sock_type \<Rightarrow> sock_handle \<times> int) \<Rightarrow> (sock_handle \<Rightarrow> inet_bytes \<Rightarrow> int \<times> int)
   \<Rightarrow> (error_code \<Rightarrow> string) \<Rightarrow> nat \<Rightarrow> nat \<Rightarrow> (error_code + udp_echo) checked" where
  "udp_amain pton errno junk sys_socket sys_bind message ctx h =
     (case pipe_throw (inet_from pton errno junk ''::1'' 1234) of Inl ec \<Rightarrow> Inr (Inl ec) | Inr local \<Rightarrow>
      case pipe_throw (sock_open sys_socket V6 Udp) of Inl ec \<Rightarrow> Inr (Inl ec) | Inr socket \<Rightarrow>
        bind_checked (pipe_panic message None (sock_bind sys_bind local socket)) (\<lambda>_.
          Inr (Inr (udp_receive h
            \<lparr>ud_sock = socket, ud_ctx = ctx, ud_buf = [], ud_pc = UdpEnded TcpDone, ud_closed = None\<rparr>))))"

text \<open>A resumption: the completion, and the address in the context of a \<^verbatim>\<open>receive_from\<close>.\<close>

definition udp_resume :: "nat \<Rightarrow> inet_bytes \<Rightarrow> io_done \<times> inet_bytes \<Rightarrow> udp_echo \<Rightarrow> udp_echo" where
  "udp_resume h junk dr u =
     (let (d, remote) = dr
      in case ud_pc u of
           UdpReceiving _ \<Rightarrow>
             (let u = u\<lparr>ud_buf := dn_data d\<rparr>
              in case pipe_throw (receive_from_done junk (dn_ec d) (dn_res d) remote) of
                   Inl ec \<Rightarrow> udp_end (TcpFailed ec) u
                 | Inr (rd, peer) \<Rightarrow> udp_await (sock_send_to (ud_ctx u) 0 (unat rd) peer h (ud_sock u)) UdpSending u)
         | UdpSending _ \<Rightarrow>
             (case pipe_throw (result_of (dn_res d) (dn_ec d)) of
                Inl ec \<Rightarrow> udp_end (TcpFailed ec) u
              | Inr _ \<Rightarrow> udp_receive h u)
         | UdpEnded _ \<Rightarrow> u)"

subsection \<open>The class\<close>

text \<open>
  \<^verbatim>\<open>UdpEcho\<close> of \<^verbatim>\<open>udp-cb.cpp\<close>: \<^verbatim>\<open>stop\<close> ends the loop of the context and leaves the socket to the object's
  destructor.
\<close>

definition ue_stop :: "error_code \<Rightarrow> udp_echo \<Rightarrow> udp_echo" where
  "ue_stop ec u = u\<lparr>ud_pc := UdpEnded (TcpFailed ec)\<rparr>"

definition ue_receive_from :: "udp_echo \<Rightarrow> udp_echo" where
  "ue_receive_from u = udp_await (sock_receive_from_cb (ud_ctx u) 0 1024 0 (ud_sock u)) UdpReceiving u"

definition ue_send_to :: "nat \<Rightarrow> inet_bytes \<Rightarrow> udp_echo \<Rightarrow> udp_echo" where
  "ue_send_to len address u = udp_await (sock_send_to_cb (ud_ctx u) 0 len address 1 (ud_sock u)) UdpSending u"

definition ue_start ::
  "pton_fun \<Rightarrow> int \<Rightarrow> inet_bytes \<Rightarrow> (int \<Rightarrow> sock_type \<Rightarrow> sock_handle \<times> int) \<Rightarrow> (sock_handle \<Rightarrow> inet_bytes \<Rightarrow> int \<times> int)
   \<Rightarrow> (error_code \<Rightarrow> string) \<Rightarrow> nat \<Rightarrow> string \<Rightarrow> port_t \<Rightarrow> udp_echo checked" where
  "ue_start pton errno junk sys_socket sys_bind message ctx ip port =
     bind_checked (pipe_panic message None (inet_from pton errno junk ip port)) (\<lambda>local.
     bind_checked (pipe_panic message None (sock_open sys_socket V6 Udp)) (\<lambda>opened.
       let (socket, _) = sock_move_assign sock_reset opened
       in bind_checked (pipe_panic message None (sock_bind sys_bind local socket)) (\<lambda>_.
            Inr (ue_receive_from
              \<lparr>ud_sock = socket, ud_ctx = ctx, ud_buf = [], ud_pc = UdpEnded TcpDone, ud_closed = None\<rparr>))))"

definition ue_received :: "error_code \<Rightarrow> size_t \<Rightarrow> inet_bytes \<Rightarrow> udp_echo \<Rightarrow> udp_echo" where
  "ue_received ec len address u = (if is_error ec then ue_stop ec u else ue_send_to (unat len) address u)"

definition ue_sent :: "error_code \<Rightarrow> size_t \<Rightarrow> udp_echo \<Rightarrow> udp_echo" where
  "ue_sent ec len u = (if is_error ec then ue_stop ec u else ue_receive_from u)"

definition ue_complete :: "inet_bytes \<Rightarrow> io_done \<times> inet_bytes \<Rightarrow> udp_echo \<Rightarrow> udp_echo" where
  "ue_complete junk dr u =
     (let (d, remote) = dr
      in case ud_pc u of
           UdpReceiving _ \<Rightarrow>
             (let (ec, len, address) = receive_from_cb_done junk (dn_ec d) (dn_res d) remote
              in ue_received ec len address (u\<lparr>ud_buf := dn_data d\<rparr>))
         | UdpSending _ \<Rightarrow> ue_sent (dn_ec d) (dn_res d) u
         | UdpEnded _ \<Rightarrow> u)"

subsection \<open>What they send\<close>

text \<open>A pending \<^verbatim>\<open>send_to\<close> as the system sees it: the address and the bytes.\<close>

definition udp_answer :: "udp_echo \<Rightarrow> (inet_bytes \<times> byte list) list" where
  "udp_answer u = (case ud_pc u of UdpSending (SendToReq fd address b n) \<Rightarrow> [(address, take n (ud_buf u))] | _ \<Rightarrow> [])"

text \<open>What is sent in a run, \<open>step\<close> being one of the two programs.\<close>

fun udp_answers :: "('d \<Rightarrow> udp_echo \<Rightarrow> udp_echo) \<Rightarrow> 'd list \<Rightarrow> udp_echo \<Rightarrow> (inet_bytes \<times> byte list) list" where
  "udp_answers step [] u = udp_answer u"
| "udp_answers step (d # ds) u = udp_answer u @ udp_answers step ds (step d u)"

text \<open>
  What a program meets, in rounds: a datagram arrives, and the operation that answers it ends with some error
  code and some count; or the operation that waits for the datagram fails. The buffer has 1024 bytes, and the
  system cuts what is longer (where it reports that as an error instead, the round is \<open>Broken\<close>).
\<close>

datatype udp_round =
  Arrives "byte list" inet_bytes error_code size_t
| Broken error_code size_t "byte list" inet_bytes

definition cut :: "byte list \<Rightarrow> byte list" where
  "cut data = take 1024 data"

text \<open>The completions of a round, as the system reports them.\<close>

fun udp_traffic :: "udp_round list \<Rightarrow> (io_done \<times> inet_bytes) list" where
  "udp_traffic [] = []"
| "udp_traffic (Arrives data remote ec sent # rs) =
     (did (length (cut data)) (cut data), remote) # (\<lparr>dn_ec = ec, dn_res = sent, dn_data = []\<rparr>, []) # udp_traffic rs"
| "udp_traffic (Broken ec res data remote # rs) = (\<lparr>dn_ec = ec, dn_res = res, dn_data = data\<rparr>, remote) # udp_traffic rs"

text \<open>An address as the system writes it; and a broken round is one with an error.\<close>

fun round_ok :: "udp_round \<Rightarrow> bool" where
  "round_ok (Arrives data remote ec sent) \<longleftrightarrow> sockaddr_len remote \<le> length remote"
| "round_ok (Broken ec res data remote) \<longleftrightarrow> is_error ec"

text \<open>The answers that the rounds call for: up to the first operation that fails, itself tried.\<close>

fun due_answers :: "udp_round list \<Rightarrow> (inet_bytes \<times> byte list) list" where
  "due_answers [] = []"
| "due_answers (Arrives data remote ec sent # rs) =
     (take (sockaddr_len remote) remote, cut data) # (if is_error ec then [] else due_answers rs)"
| "due_answers (Broken ec res data remote # rs) = []"

definition udp_ready :: "sock_handle \<Rightarrow> udp_echo \<Rightarrow> bool" where
  "udp_ready fd u \<longleftrightarrow> usable_sock (ud_ctx u) fd (ud_sock u) \<and> ud_pc u = UdpReceiving (ReceiveFromReq fd 0 1024)"

lemma issue_usable_cb:
  assumes "usable_sock ctx fd s"
  shows "sock_receive_from ctx b n h s = Inr (s\<lparr>sk_attached := Some ctx\<rparr>, ReceiveFromReq fd b n, ResumeCoroutine h)"
    and "sock_receive_from_cb ctx b n h s = Inr (s\<lparr>sk_attached := Some ctx\<rparr>, ReceiveFromReq fd b n, CallFunctor h)"
    and "sock_send_to ctx b n a h s = Inr (s\<lparr>sk_attached := Some ctx\<rparr>, SendToReq fd (take (sockaddr_len a) a) b n, ResumeCoroutine h)"
    and "sock_send_to_cb ctx b n a h s = Inr (s\<lparr>sk_attached := Some ctx\<rparr>, SendToReq fd (take (sockaddr_len a) a) b n, CallFunctor h)"
  by (simp_all add: sock_receive_from_def sock_receive_from_cb_def sock_send_to_def sock_send_to_cb_def
      usable_issue(1) [OF assms])

text \<open>The address that comes out of the context is the one the system wrote into it.\<close>

lemma sockaddr_len_2: "2 \<le> sockaddr_len a"
  by (simp add: sockaddr_len_def)

lemma remote_round_trip:
  assumes "sockaddr_len remote \<le> length remote"
  shows "take (sockaddr_len (inet_from_sockaddr junk remote)) (inet_from_sockaddr junk remote) = take (sockaddr_len remote) remote"
proof -
  let ?n = "sockaddr_len remote"
  have a: "inet_from_sockaddr junk remote = take ?n remote @ drop ?n junk"
    using assms by (simp add: inet_from_sockaddr_def sockaddr_len_def copy_to_def Let_def)
  have "sa_family (take ?n remote @ drop ?n junk) = sa_family remote"
    using sockaddr_len_2 [of remote] assms by (simp add: sa_family_def nth_append)
  then show ?thesis using assms by (simp add: a sockaddr_len_def)
qed

text \<open>
  What both programs keep to: a datagram is answered; then the operation that answers it decides whether the
  program waits for the next one or has ended; and nothing happens after the end.
\<close>

definition echo_round :: "sock_handle \<Rightarrow> (io_done \<times> inet_bytes \<Rightarrow> udp_echo \<Rightarrow> udp_echo) \<Rightarrow> udp_echo \<Rightarrow> bool" where
  "echo_round fd step u \<longleftrightarrow>
     (\<forall>data remote. sockaddr_len remote \<le> length remote \<longrightarrow>
        (let v = step (did (length (cut data)) (cut data), remote) u
         in udp_answer v = [(take (sockaddr_len remote) remote, cut data)]
          \<and> (\<forall>ec n. let w = step (\<lparr>dn_ec = ec, dn_res = n, dn_data = []\<rparr>, []) v
                    in if is_error ec then ud_pc w = UdpEnded (TcpFailed ec) else udp_ready fd w)))
     \<and> (\<forall>ec n data remote. is_error ec \<longrightarrow>
          ud_pc (step (\<lparr>dn_ec = ec, dn_res = n, dn_data = data\<rparr>, remote) u) = UdpEnded (TcpFailed ec))"

lemma cut_length: "unat (of_nat (length (cut data)) :: size_t) = length (cut data)"
  by (intro small_size_t) (simp add: cut_def)

lemma udp_rounds:
  assumes "udp_ready fd u"
  shows "echo_round fd (udp_resume h junk) u" and "echo_round fd (ue_complete junk) u"
proof -
  have us: "usable_sock (ud_ctx u) fd (ud_sock u)" and pc: "ud_pc u = UdpReceiving (ReceiveFromReq fd 0 1024)"
    using assms by (simp_all add: udp_ready_def)
  note rw = issue_usable_cb [OF us] issue_usable_cb [OF attached_usable [OF us]] attached_usable [OF us] cut_length
    remote_round_trip pc
  show "echo_round fd (udp_resume h junk) u"
    by (simp add: echo_round_def udp_resume_def receive_from_done_def did_def udp_await_def udp_answer_def udp_receive_def
        udp_ready_def pipe_throw_def udp_end_def Let_def split_def rw)
  show "echo_round fd (ue_complete junk) u"
    by (simp add: echo_round_def ue_complete_def receive_from_cb_done_def did_def udp_await_def udp_answer_def ue_received_def
        ue_stop_def ue_send_to_def ue_sent_def ue_receive_from_def udp_ready_def Let_def rw)
qed

lemma ready_waits: "udp_ready fd u \<Longrightarrow> udp_answer u = []"
  by (simp add: udp_ready_def udp_answer_def)

lemma ended_answers_nothing:
  assumes "\<And>d u e. ud_pc u = UdpEnded e \<Longrightarrow> step d u = u" and "ud_pc u = UdpEnded e"
  shows "udp_answers step ds u = []"
  using assms by (induction ds) (simp_all add: udp_answer_def)

lemma answers_of_traffic:
  assumes round: "\<And>u. udp_ready fd u \<Longrightarrow> echo_round fd step u"
    and ended: "\<And>d u e. ud_pc u = UdpEnded e \<Longrightarrow> step d u = u"
    and "udp_ready fd u" and "\<forall>r \<in> set rounds. round_ok r"
  shows "udp_answers step (udp_traffic rounds) u = due_answers rounds"
  using assms(3,4)
proof (induction rounds arbitrary: u rule: due_answers.induct)
  case (2 data remote ec sent rs)
  note now = round [OF 2(2), unfolded echo_round_def Let_def, THEN conjunct1, rule_format, of remote data]
  show ?case
    using now 2 by (cases "is_error ec") (auto simp: ready_waits intro: ended_answers_nothing [OF ended])
next
  case (3 ec res data remote rs)
  note now = round [OF 3(1), unfolded echo_round_def Let_def, THEN conjunct2, rule_format, of ec res data remote]
  show ?case using now 3 by (auto simp: ready_waits intro: ended_answers_nothing [OF ended])
qed (simp add: ready_waits)

lemma ended_stays:
  "ud_pc u = UdpEnded e \<Longrightarrow> udp_resume h junk d u = u" "ud_pc u = UdpEnded e \<Longrightarrow> ue_complete junk d u = u"
  by (simp_all add: udp_resume_def ue_complete_def split_def)

text \<open>Both programs start by waiting for a datagram.\<close>

lemma receive_ready:
  assumes "sk_attached s = None" and "sk_handle s = fd" and "fd \<noteq> kInvalidHandle"
  shows "udp_ready fd (udp_receive h \<lparr>ud_sock = s, ud_ctx = ctx, ud_buf = b, ud_pc = pc, ud_closed = c\<rparr>)"
    and "udp_ready fd (ue_receive_from \<lparr>ud_sock = s, ud_ctx = ctx, ud_buf = b, ud_pc = pc, ud_closed = c\<rparr>)"
proof -
  have us: "usable_sock ctx fd s" using assms by (simp add: usable_sock_def)
  show "udp_ready fd (udp_receive h \<lparr>ud_sock = s, ud_ctx = ctx, ud_buf = b, ud_pc = pc, ud_closed = c\<rparr>)"
    and "udp_ready fd (ue_receive_from \<lparr>ud_sock = s, ud_ctx = ctx, ud_buf = b, ud_pc = pc, ud_closed = c\<rparr>)"
    by (simp_all add: udp_ready_def udp_receive_def ue_receive_from_def udp_await_def issue_usable_cb [OF us]
        attached_usable [OF us])
qed

lemma opened_unattached: "sk_attached (res_value (sock_open sys_socket ip tp)) = None"
  by (simp add: sock_open_def sock_make_def sock_reset_def Let_def split_def)

lemma receive_handle:
  "sk_handle (ud_sock (udp_receive h u)) = sk_handle (ud_sock u)"
  "sk_handle (ud_sock (ue_receive_from u)) = sk_handle (ud_sock u)"
  by (auto simp: udp_receive_def ue_receive_from_def udp_await_def sock_receive_from_def sock_receive_from_cb_def issue_alike
      sock_attach_context_def split: option.splits if_splits)

lemma amain_ready:
  assumes "udp_amain pton errno junk sys_socket sys_bind message ctx h = Inr (Inr u)"
    and "sk_handle (ud_sock u) = fd" and "fd \<noteq> kInvalidHandle"
  shows "udp_ready fd u"
proof -
  obtain lo where lo: "pipe_throw (inet_from pton errno junk ''::1'' 1234) = Inr lo"
    using assms(1) by (cases "pipe_throw (inet_from pton errno junk ''::1'' 1234)") (simp_all add: udp_amain_def)
  obtain so where so: "pipe_throw (sock_open sys_socket V6 Udp) = Inr so"
    using assms(1) lo by (cases "pipe_throw (sock_open sys_socket V6 Udp)") (simp_all add: udp_amain_def)
  have u: "u = udp_receive h \<lparr>ud_sock = so, ud_ctx = ctx, ud_buf = [], ud_pc = UdpEnded TcpDone, ud_closed = None\<rparr>"
    using assms(1) lo so by (auto simp: udp_amain_def bind_checked_def split: sum.splits)
  have "sk_attached so = None" using so opened_unattached by (auto simp: pipe_throw_iff)
  then show ?thesis using assms(2,3) unfolding u by (intro receive_ready) (simp_all add: receive_handle)
qed

lemma start_ready:
  assumes "ue_start pton errno junk sys_socket sys_bind message ctx ip port = Inr u"
    and "sk_handle (ud_sock u) = fd" and "fd \<noteq> kInvalidHandle"
  shows "udp_ready fd u"
proof -
  obtain so where so: "pipe_panic message None (sock_open sys_socket V6 Udp) = Inr so"
    and u: "u = ue_receive_from \<lparr>ud_sock = fst (sock_move_assign sock_reset so), ud_ctx = ctx, ud_buf = [],
        ud_pc = UdpEnded TcpDone, ud_closed = None\<rparr>"
    using assms(1) by (auto simp: ue_start_def bind_checked_def Let_def split_def split: sum.splits)
  have "sk_attached so = None"
    using so opened_unattached by (auto simp: pipe_panic_def split: if_splits)
  then have "sk_attached (fst (sock_move_assign sock_reset so)) = None"
    by (simp add: sock_move_assign_def sock_reset_def)
  then show ?thesis using assms(2,3) unfolding u by (intro receive_ready) (simp_all add: receive_handle)
qed

subsection \<open>Property\<close>


text \<open>
  A run with datagrams of 2, 1100 and no bytes, a send that reports fewer bytes, and one that fails; what
  arrives after it is not answered.
\<close>

definition demo_rounds :: "udp_round list" where
  "demo_rounds = [Arrives [1, 2] (sockaddr_in6 9 (replicate 16 0)) no_error 1,
     Arrives (replicate 1100 7) (sockaddr_in 8 [1, 2, 3, 4]) no_error 1024,
     Arrives [] (sockaddr_in 8 [1, 2, 3, 4]) (make_system_error_code 1) 0, Arrives [3] (sockaddr_in 8 [1, 2, 3, 4]) no_error 1]"


end
