(* ===== verification/Timed_Examples.thy ===== *)
theory Timed_Examples
  imports Coro_Context Io_Uring
begin

section \<open>The examples that only use the loop (examples/v3: ticker.cpp, yield.cpp)\<close>

text \<open>
  A timer that sets itself again a number of times, and a coroutine that yields a number of times. Both stop
  the context when they are done, so that \<^verbatim>\<open>start\<close> returns; they are tasks of the loop's theory. The ticker runs
  over the modelled ring, whose waits end as the kernel has them end.
\<close>

subsection \<open>The ticker\<close>

text \<open>
  \<^verbatim>\<open>ticker\<close>: the captures of the lambda that is given to the timer are the duration and the ticks to come.
  \<open>cx_fired\<close> records the calls of the lambda, each of which calls \<^verbatim>\<open>func\<close> once.
\<close>

datatype tick = Tick nanos size_t

definition ticker :: "nanos \<Rightarrow> size_t \<Rightarrow> tick ctx \<Rightarrow> tick ctx" where
  "ticker duration ticks s = snd (expires_after duration (Tick duration ticks) s)"

definition ticker_lambda :: "tick task_prog" where
  "ticker_lambda task flag s =
     (case task of Tick duration ticks \<Rightarrow>
        if \<not> flag then []
        else (let ticks = ticks - 1
              in if ticks \<noteq> 0 then [AfterCall duration (Tick duration ticks)] else [StopCall (cx_thread s)]))"

text \<open>The loop with one timer, or with none.\<close>

definition one_timer :: "nanos \<Rightarrow> 't \<Rightarrow> 't timer_queue \<Rightarrow> bool" where
  "one_timer tp task q \<longleftrightarrow> tq_inv q \<and> (\<exists>i. tq_timers q = [i] \<and> tq_store q i = Some \<lparr>td_flag = True, td_deadline = tp, td_task = task\<rparr>)"

definition no_timer :: "'t timer_queue \<Rightarrow> bool" where
  "no_timer q \<longleftrightarrow> tq_inv q \<and> tq_timers q = []"

lemma one_timer_push: "no_timer q \<Longrightarrow> one_timer tp task (snd (timer_push tp task q))"
  using tq_inv_push [of q tp task "fst (timer_push tp task q)" "snd (timer_push tp task q)"]
  by (auto simp: one_timer_def no_timer_def timer_push_def pq_emplace_def Let_def)

lemma one_timer_waits:
  assumes "one_timer tp task q" and "now < tp" and "get_expired now [] q = (ts, q')"
  shows "ts = [] \<and> one_timer tp task q'"
proof -
  obtain i where inv: "tq_inv q" and i: "tq_timers q = [i]" "tq_store q i = Some \<lparr>td_flag = True, td_deadline = tp, td_task = task\<rparr>"
    using assms(1) by (auto simp: one_timer_def)
  note spec = get_expired_spec [OF inv assms(3)]
  have tp: "deadline_of q i = tp" using i by (simp add: deadline_of_def timer_at_def)
  have "set (firing now q) = {}" using assms(2) by (auto simp: set_firing [OF inv] i(1) tp)
  then have "ts = []" using spec(1) by simp
  have "{p \<in> set (tq_timers q). now < deadline_of q p} = {i}" using assms(2) by (auto simp: i(1) tp)
  then have "set (tq_timers q') = {i}" unfolding spec(4) .
  moreover have "distinct (tq_timers q')" using spec(2) by (simp add: tq_inv_def)
  ultimately have "tq_timers q' = [i]" by (intro distinct_singleton_list)
  then show ?thesis using \<open>ts = []\<close> spec(2) spec(5) [of i] i(2) by (simp add: one_timer_def)
qed

lemma one_timer_fires:
  assumes "one_timer tp task q" and "tp \<le> now" and "get_expired now [] q = (ts, q')"
  shows "ts = [task] \<and> no_timer q'"
proof -
  obtain i where inv: "tq_inv q" and i: "tq_timers q = [i]" "tq_store q i = Some \<lparr>td_flag = True, td_deadline = tp, td_task = task\<rparr>"
    using assms(1) by (auto simp: one_timer_def)
  note spec = get_expired_spec [OF inv assms(3)]
  have at: "deadline_of q i = tp" "td_flag (timer_at q i)" "td_task (timer_at q i) = task"
    using i by (simp_all add: deadline_of_def timer_at_def)
  have "set (firing now q) = {i}" using assms(2) at by (auto simp: set_firing [OF inv] i(1))
  moreover have "distinct (firing now q)" using inv by (simp add: firing_def due_timers_def tq_inv_def)
  ultimately have "firing now q = [i]" by (intro distinct_singleton_list)
  then have "ts = [task]" using spec(1) at(3) by simp
  moreover have "{p \<in> set (tq_timers q). now < deadline_of q p} = {}" using assms(2) by (auto simp: i(1) at(1))
  then have "set (tq_timers q') = {}" unfolding spec(4) .
  ultimately show ?thesis using spec(2) by (simp add: no_timer_def)
qed


subsection \<open>The loop over a ring\<close>

text \<open>What the kernel does while the loop's thread is in \<^verbatim>\<open>poll\<close>: it completes entries that it was handed.\<close>

inductive ring_kernel :: "'p ring \<Rightarrow> 'p ring \<Rightarrow> bool" where
  completes: "rg_kernel r = xs @ e # ys \<Longrightarrow> sq_prep e \<noteq> PrepWakeUpRead \<Longrightarrow>
    ring_kernel r (r\<lparr>rg_kernel := xs @ ys, rg_cq := rg_cq r @ [\<lparr>cq_data = sq_data e, cq_res = res\<rparr>],
      ih_msg := set_namelen (sq_prep e) n (ih_msg r)\<rparr>)"
| wakes: "rg_kernel r = xs @ e # ys \<Longrightarrow> sq_prep e = PrepWakeUpRead \<Longrightarrow> 0 < rg_event r \<Longrightarrow>
    ring_kernel r (r\<lparr>rg_kernel := xs @ ys, rg_cq := rg_cq r @ [\<lparr>cq_data = sq_data e, cq_res = 8\<rparr>], rg_event := 0\<rparr>)"

lemma ring_kernel_step: "ring_kernel r r' \<Longrightarrow> ring_step peername r r'"
  by (induction rule: ring_kernel.induct) (blast intro: ring_step.kernel ring_step.kernel_wake_up)+

text \<open>The loop over the completions, \<open>n\<close> of them.\<close>

fun deliver_cqes :: "(int \<Rightarrow> byte list) \<Rightarrow> nat \<Rightarrow> 'p ring \<Rightarrow> 'p ring option" where
  "deliver_cqes peername 0 r = Some r"
| "deliver_cqes peername (Suc n) r = Option.bind (next_cqe peername r) (deliver_cqes peername n)"

text \<open>
  \<^verbatim>\<open>poll(d)\<close> on a ring: what the wait in the kernel returned, \<open>None\<close> when there was none, the value of \<^verbatim>\<open>poll\<close> and
  the time that went by. Of the kernel it is known that a wait that ends with \<^verbatim>\<open>ETIME\<close> has taken the time that was
  asked for; it may be interrupted, return with a completion, or fail, at any time.
\<close>

inductive ring_polls ::
  "(int \<Rightarrow> byte list) \<Rightarrow> nanos \<Rightarrow> 'p ring \<Rightarrow> int option \<Rightarrow> int \<Rightarrow> nat \<Rightarrow> 'p ring \<Rightarrow> bool" for peername d r where
  at_once: "nat d = 0 \<Longrightarrow> rg_io_num r = 0 \<Longrightarrow> ring_poll (nat d) 0 no_error r = (PollReturns v ec, r') \<Longrightarrow>
    ring_polls peername d r None v 0 r'"
| returns: "nat d \<noteq> 0 \<or> rg_io_num r \<noteq> 0 \<Longrightarrow> ring_poll (nat d) res no_error r = (PollReturns v ec, u) \<Longrightarrow>
    ring_kernel\<^sup>*\<^sup>* u r' \<Longrightarrow> (res = - etime \<Longrightarrow> nat d \<le> e) \<Longrightarrow> ring_polls peername d r (Some res) v e r'"
| delivers: "nat d \<noteq> 0 \<or> rg_io_num r \<noteq> 0 \<Longrightarrow> ring_poll (nat d) res no_error r = (PollDelivers, u) \<Longrightarrow>
    ring_kernel\<^sup>*\<^sup>* u w \<Longrightarrow> rg_cq w \<noteq> [] \<Longrightarrow> deliver_cqes peername (length (rg_cq w)) w = Some r' \<Longrightarrow>
    ring_polls peername d r (Some res) 1 e r'"

text \<open>One iteration of the loop of \<^verbatim>\<open>start\<close>: the tasks and the timers' tasks, and \<^verbatim>\<open>poll\<close> on the ring.\<close>

definition ctx_tasks :: "'t task_prog \<Rightarrow> 't ctx \<Rightarrow> 't ctx checked" where
  "ctx_tasks prog s =
     bind_checked (run_handles prog (cx_pending s) (s\<lparr>cx_pending := []\<rparr>)) (\<lambda>s.
       let (timer_tasks, q) = get_expired (cx_now s) [] (cx_timers s)
       in run_timer_tasks prog timer_tasks (s\<lparr>cx_timers := q\<rparr>))"

lemma bind_checked_assoc: "bind_checked (bind_checked m f) g = bind_checked m (\<lambda>x. bind_checked (f x) g)"
  by (cases m) simp_all

lemma ctx_iteration_parts: "ctx_iteration me prog poll s = bind_checked (ctx_tasks prog s) (ctx_poll me poll)"
  by (simp add: ctx_iteration_def ctx_tasks_def bind_checked_assoc split_def Let_def)

definition ring_iterates ::
  "(int \<Rightarrow> byte list) \<Rightarrow> thread_id \<Rightarrow> 't task_prog \<Rightarrow> 't ctx \<times> 'p ring \<Rightarrow> int option \<Rightarrow> 't ctx \<times> 'p ring \<Rightarrow> bool" where
  "ring_iterates peername me prog x w y \<longleftrightarrow>
     (\<exists>u v e. ctx_going (Inr (fst x)) \<and> ctx_tasks prog (fst x) = Inr u
        \<and> ring_polls peername (poll_timeout u) (snd x) w v e (snd y)
        \<and> ctx_iteration me prog (\<lambda>d s. (v, [ElapseCall e])) (fst x) = Inr (fst y))"

text \<open>The loop, with what its waits returned in order.\<close>

inductive ring_loop_run ::
  "(int \<Rightarrow> byte list) \<Rightarrow> thread_id \<Rightarrow> 't task_prog \<Rightarrow> 't ctx \<times> 'p ring \<Rightarrow> int option list \<Rightarrow> 't ctx \<times> 'p ring \<Rightarrow> bool"
  for peername me prog x where
  starts: "ring_loop_run peername me prog x [] x"
| goes_on: "ring_loop_run peername me prog x ws y \<Longrightarrow> ring_iterates peername me prog y w z \<Longrightarrow>
    ring_loop_run peername me prog x (ws @ [w]) z"

text \<open>Waits that end before their time without a completion, and those that fail.\<close>

definition wait_cut :: "int option \<Rightarrow> bool" where
  "wait_cut w \<longleftrightarrow> w = Some (- eagain) \<or> w = Some (- eintr)"

definition wait_failed :: "int option \<Rightarrow> bool" where
  "wait_failed w \<longleftrightarrow> (\<exists>res < 0. w = Some res \<and> res \<notin> {- etime, - eagain, - eintr})"

text \<open>A ring with no operations: only the wake-up is armed, in the ring, with the kernel or completed.\<close>

definition idle_ring :: "'p ring \<Rightarrow> bool" where
  "idle_ring r \<longleftrightarrow> rg_io_num r = 0 \<and> rg_wake r = 0 \<and> 0 < rg_entries r
     \<and> (\<exists>c. ih_ctx r 0 = Some c \<and> ic_op c = OpNoop \<and> ic_cb c = WakeUpCb)
     \<and> (let w = \<lparr>sq_prep = PrepWakeUpRead, sq_data = 0\<rparr>
        in rg_sq r = [w] \<and> rg_kernel r = [] \<and> rg_cq r = [] \<or> rg_sq r = [] \<and> rg_kernel r = [w] \<and> rg_cq r = []
         \<or> rg_sq r = [] \<and> rg_kernel r = [] \<and> rg_cq r = [\<lparr>cq_data = 0, cq_res = 8\<rparr>] \<and> rg_event r = 0)"

text \<open>The read can complete, or has completed.\<close>

definition ring_awake :: "'p ring \<Rightarrow> bool" where
  "ring_awake r \<longleftrightarrow> 0 < rg_event r \<or> rg_cq r \<noteq> []"

lemma idle_ring_new: "ring_new ok n = Inr (Some r) \<Longrightarrow> idle_ring r"
  by (auto simp: ring_new_def prep_wake_up_def put_sqe_def idle_ring_def blank_ctx_def split: if_splits)

lemma idle_ring_submit:
  "idle_ring r \<Longrightarrow> idle_ring (ring_submit r) \<and> ring_awake (ring_submit r) = ring_awake r \<and> rg_sq (ring_submit r) = []"
  by (auto simp: idle_ring_def ring_submit_def ring_awake_def Let_def)

lemma idle_ring_kernel:
  assumes "ring_kernel\<^sup>*\<^sup>* r r'" and "idle_ring r" and "rg_sq r = []"
  shows "idle_ring r' \<and> (ring_awake r' \<longrightarrow> ring_awake r) \<and> rg_sq r' = []"
  using assms
proof (induction rule: rtranclp_induct)
  case (step u v)
  then have u: "idle_ring u" "ring_awake u \<longrightarrow> ring_awake r" "rg_sq u = []" by simp_all
  from step(2) u show ?case
    by cases (auto simp: idle_ring_def ring_awake_def Let_def Cons_eq_append_conv append_eq_Cons_conv)
qed simp

lemma idle_ring_delivers:
  assumes "idle_ring r" and "rg_cq r \<noteq> []" and "deliver_cqes peername (length (rg_cq r)) r = Some r'"
  shows "idle_ring r' \<and> \<not> ring_awake r'"
  using assms
  by (auto simp: idle_ring_def ring_awake_def Let_def next_cqe_def handle_cqe_def uncount_io_def finish_ctx_def the_ctx_def
      invoke_cb_def prep_wake_up_def put_sqe_def)

text \<open>Polling an idle ring keeps it idle; only once does it return with the wake-up.\<close>

lemma idle_ring_polls:
  assumes "ring_polls peername d r w v e r'" and "idle_ring r"
  shows "idle_ring r' \<and> (ring_awake r' \<longrightarrow> ring_awake r) \<and> (v = -1 \<longleftrightarrow> wait_failed w)
    \<and> (w = None \<longleftrightarrow> nat d = 0)
    \<and> (w = Some (- etime) \<and> nat d \<le> e \<or> wait_cut w \<or> wait_failed w \<or> w = None \<or> ring_awake r \<and> \<not> ring_awake r')"
  using assms(1)
proof cases
  case (at_once ec)
  then show ?thesis using assms(2) by (auto simp: ring_poll_def wait_failed_def)
next
  case (returns res ec u)
  have d: "nat d \<noteq> 0" using returns(2) assms(2) by (simp add: idle_ring_def)
  have u: "u = ring_submit r" and v: "v = (if res = - etime \<or> res = - eagain then 0 else if res = - eintr then 2 else -1)"
    and r: "res < 0"
    using returns(3) d by (auto simp: ring_poll_def Let_def etime_def eagain_def eintr_def split: if_splits)
  from idle_ring_submit [OF assms(2)] idle_ring_kernel [OF returns(4)] show ?thesis
    using returns(1,5) r d unfolding u v by (auto simp: wait_failed_def wait_cut_def etime_def eagain_def eintr_def)
next
  case (delivers res u x)
  have d: "nat d \<noteq> 0" using delivers(3) assms(2) by (simp add: idle_ring_def)
  have u: "u = ring_submit r" and r: "0 \<le> res"
    using delivers(4) d by (auto simp: ring_poll_def Let_def split: if_splits)
  have x: "idle_ring x" "ring_awake x \<longrightarrow> ring_awake r"
    using idle_ring_submit [OF assms(2)] idle_ring_kernel [OF delivers(5)] unfolding u by auto
  moreover have "ring_awake x" using delivers(6) by (simp add: ring_awake_def)
  ultimately show ?thesis
    using idle_ring_delivers [OF x(1) delivers(6,7)] delivers(1,2) r d by (auto simp: wait_failed_def)
qed

text \<open>A wait can always end with \<^verbatim>\<open>ETIME\<close>, after the time it was told.\<close>

lemma ring_polls_some:
  assumes "idle_ring r"
  shows "\<exists>w v e r'. (w = None \<or> w = Some (- etime)) \<and> v = 0 \<and> ring_polls peername d r w v e r'"
proof (cases "nat d = 0")
  case True
  then have "ring_polls peername d r None 0 0 r"
    using assms by (intro ring_polls.at_once [where ec = no_error]) (simp_all add: idle_ring_def ring_poll_def)
  then show ?thesis by blast
next
  case False
  then have "ring_polls peername d r (Some (- etime)) 0 (nat d) (ring_submit r)"
    by (intro ring_polls.returns [where ec = no_error and u = "ring_submit r"]) (simp_all add: ring_poll_def)
  then show ?thesis by blast
qed

subsection \<open>Ticking\<close>

text \<open>
  The loop of a context that has nothing but the ticker: \<open>k\<close> ticks are to come, and it has been stopped when there
  are none. \<open>start\<close> is the time at which the ticker was set.
\<close>

definition ticks_down :: "nanos \<Rightarrow> nat \<Rightarrow> nat \<Rightarrow> tick list" where
  "ticks_down duration n k = map (\<lambda>i. Tick duration (of_nat (n - i))) [0..<n - k]"

definition ticked :: "nanos \<Rightarrow> nat \<Rightarrow> nanos \<Rightarrow> nat \<Rightarrow> tick ctx \<Rightarrow> bool" where
  "ticked duration n start k s \<longleftrightarrow> k \<le> n \<and> cx_fired s = ticks_down duration n k \<and> start + int (n - k) * duration \<le> cx_now s"

definition ticking :: "nanos \<Rightarrow> nat \<Rightarrow> nanos \<Rightarrow> nat \<Rightarrow> tick ctx \<Rightarrow> bool" where
  "ticking duration n start k s \<longleftrightarrow> ticked duration n start k s \<and> cx_pending s = []
     \<and> (if k = 0 then cx_state s = CtxStopping
        else cx_state s = CtxRunning \<and> (\<exists>tp. one_timer tp (Tick duration (of_nat k)) (cx_timers s)
               \<and> start + int (Suc (n - k)) * duration \<le> tp))"

lemma ticks_down_Suc: "k < n \<Longrightarrow> ticks_down duration n k = ticks_down duration n (Suc k) @ [Tick duration (of_nat (Suc k))]"
proof -
  assume k: "k < n"
  then have "n - k = Suc (n - Suc k)" "n - (n - Suc k) = Suc k" by simp_all
  then show "ticks_down duration n k = ticks_down duration n (Suc k) @ [Tick duration (of_nat (Suc k))]"
    by (simp add: ticks_down_def del: of_nat_Suc)
qed

lemma ticker_lambda_tick:
  assumes "Suc j < 2 ^ 64"
  shows "ticker_lambda (Tick duration (of_nat (Suc j))) True s
    = (if j = 0 then [StopCall (cx_thread s)] else [AfterCall duration (Tick duration (of_nat j))])"
proof -
  have "(of_nat j :: size_t) = 0 \<longleftrightarrow> j = 0"
    using unat_of_nat_size_t [of j] assms by (auto dest: arg_cong [of _ _ unat])
  then show ?thesis by (simp add: ticker_lambda_def)
qed

definition deadline_in :: "'t timer_queue \<Rightarrow> nanos" where
  "deadline_in q = td_deadline (the (tq_store q (hd (tq_timers q))))"

lemma one_timer_deadline: "one_timer tp task q \<Longrightarrow> deadline_in q = tp"
  by (auto simp: one_timer_def deadline_in_def)

text \<open>The tasks of an iteration: none, or a tick.\<close>

lemma tick_tasks:
  assumes t: "ticking duration n start k s" and k: "0 < k" and n: "n < 2 ^ 64" and me: "cx_thread s = me"
  defines "tp \<equiv> deadline_in (cx_timers s)"
  shows "\<exists>u. ctx_tasks ticker_lambda s = Inr u \<and> cx_thread u = me \<and> cx_now u = cx_now s
    \<and> (if cx_now s < tp then ticking duration n start k u \<and> deadline_in (cx_timers u) = tp \<and> poll_timeout u = tp - cx_now s
       else ticking duration n start (k - 1) u)"
proof -
  have one: "one_timer tp (Tick duration (of_nat k)) (cx_timers s)" "start + int (Suc (n - k)) * duration \<le> tp"
    and s: "k \<le> n" "cx_pending s = []" "cx_fired s = ticks_down duration n k" "cx_state s = CtxRunning"
      "start + int (n - k) * duration \<le> cx_now s"
    using t k one_timer_deadline by (fastforce simp: ticking_def ticked_def tp_def)+
  obtain ts q where get: "get_expired (cx_now s) [] (cx_timers s) = (ts, q)" by fastforce
  have same: "s\<lparr>cx_pending := []\<rparr> = s" using s(2) by simp
  show ?thesis
  proof (cases "cx_now s < tp")
    case True
    from one_timer_waits [OF one(1) this get] have q: "ts = []" "one_timer tp (Tick duration (of_nat k)) q" by simp_all
    have "next_duration (cx_now s) q = tp - cx_now s"
      using q(2) True by (auto simp: one_timer_def next_duration_def timer_top_def timer_at_def pq_top_def)
    then have "poll_timeout (s\<lparr>cx_timers := q\<rparr>) = tp - cx_now s" using s(2,4) by (simp add: poll_timeout_def)
    moreover have "ticking duration n start k (s\<lparr>cx_timers := q\<rparr>)"
      using k s q(2) one(2) by (auto simp: ticking_def ticked_def)
    ultimately show ?thesis
      using True me one_timer_deadline [OF q(2)] by (simp add: ctx_tasks_def s(2) same get q(1))
  next
    case False
    then have "tp \<le> cx_now s" by simp
    define tk where "tk = Tick duration (of_nat k)"
    from one_timer_fires [OF one(1) \<open>tp \<le> cx_now s\<close> get] have q: "ts = [tk]" "no_timer q" by (simp_all add: tk_def)
    obtain j where j: "k = Suc j" using k by (cases k) auto
    let ?t = "s\<lparr>cx_timers := q, cx_fired := cx_fired s @ [tk]\<rparr>"
    have calls: "ticker_lambda tk True x = (if j = 0 then [StopCall (cx_thread x)] else [AfterCall duration (Tick duration (of_nat j))])"
      for x using n s(1) j unfolding tk_def j by (intro ticker_lambda_tick) simp
    have fired: "cx_fired s @ [tk] = ticks_down duration n j"
      using ticks_down_Suc [of j n duration] s(1,3) j by (simp add: tk_def del: of_nat_Suc)
    have gone: "start + int (n - j) * duration \<le> cx_now s" using one(2) \<open>tp \<le> cx_now s\<close> s(1) j by (simp add: Suc_diff_Suc)
    show ?thesis
    proof (cases "j = 0")
      case True
      have "ticking duration n start 0 (?t\<lparr>cx_state := CtxStopping\<rparr>)"
        using s fired gone True by (simp add: ticking_def ticked_def)
      then show ?thesis
        using me False True j
        by (simp add: ctx_tasks_def s(2) same get q(1) calls ctx_stop_def assert_in_context_thread_def)
    next
      case more: False
      let ?q = "snd (timer_push (cx_now s + duration) (Tick duration (of_nat j)) q)"
      have "one_timer (cx_now s + duration) (Tick duration (of_nat j)) ?q" by (rule one_timer_push [OF q(2)])
      then have "ticking duration n start j (?t\<lparr>cx_timers := ?q\<rparr>)"
        using s fired gone more j by (auto simp: ticking_def ticked_def distrib_right intro!: exI [of _ "cx_now s + duration"])
      then show ?thesis
        using me False more j
        by (simp add: ctx_tasks_def s(2) same get q(1) calls expires_after_def split_def Let_def)
    qed
  qed
qed

text \<open>The poll of an iteration.\<close>

lemma tick_poll:
  assumes "ticking duration n start k u" and "cx_thread u = me"
  shows "\<exists>t. ctx_poll me (\<lambda>d s. (v, [ElapseCall e])) u = Inr t \<and> cx_thread t = me \<and> cx_now t = cx_now u + int e
    \<and> cx_timers t = cx_timers u
    \<and> (if v = -1 then ticked duration n start k t \<and> cx_state t = CtxStopping else ticking duration n start k t)"
  using assms by (auto simp: ctx_poll_def ctx_stop_def assert_in_context_thread_def ticking_def ticked_def)

subsection \<open>The coroutine that yields\<close>

text \<open>
  \<^verbatim>\<open>test\<close> of \<^verbatim>\<open>yield.cpp\<close>: the resumption after \<open>i\<close> iterations of its loop. \<^verbatim>\<open>yield\<close> queues the coroutine in the
  context again; \<open>bound\<close> is the constant \<^verbatim>\<open>T\<close>, ten millions in the source.
\<close>

datatype yield_test = YieldTest nat

definition yield_test :: "nat \<Rightarrow> yield_test task_prog" where
  "yield_test bound task flag s =
     (case task of YieldTest i \<Rightarrow>
        if i < bound then [ExecuteCall (cx_thread s) (YieldTest (Suc i))] else [StopCall (cx_thread s)])"

definition yielding :: "nat \<Rightarrow> nat \<Rightarrow> yield_test ctx \<Rightarrow> bool" where
  "yielding bound i s \<longleftrightarrow> i \<le> Suc bound \<and> cx_ran s = map YieldTest [0..<i] \<and> no_timer (cx_timers s)
     \<and> (if i \<le> bound then cx_state s = CtxRunning \<and> cx_pending s = [YieldTest i]
        else cx_state s = CtxStopping \<and> cx_pending s = [])"

text \<open>A service that, told not to wait, returns without error and without any calls; otherwise it may do anything.\<close>

definition quiet_at_once :: "'t poll_fun \<Rightarrow> bool" where
  "quiet_at_once poll \<longleftrightarrow> (\<forall>s. snd (poll 0 s) = [] \<and> fst (poll 0 s) \<noteq> -1)"

lemma ctx_poll_quiet:
  assumes "quiet_at_once poll" and "cx_pending s \<noteq> [] \<or> cx_state s = CtxStopping"
  shows "ctx_poll me poll s = Inr s"
proof -
  have "poll_timeout s = 0" using assms(2) by (simp add: poll_timeout_def)
  moreover obtain v where "poll 0 s = (v, [])" "v \<noteq> -1"
    using assms(1) by (metis prod.collapse quiet_at_once_def)
  ultimately show ?thesis by (simp add: ctx_poll_def)
qed

lemma no_timer_expiry:
  assumes "no_timer q"
  shows "get_expired now [] q = ([], q)"
  using assms by (simp add: no_timer_def get_expired_def get_expired_loop.simps)

lemma yield_iteration:
  assumes y: "yielding bound i s" and i: "i \<le> bound" and me: "cx_thread s = me" and poll: "quiet_at_once poll"
  shows "\<exists>u. ctx_iteration me (yield_test bound) poll s = Inr u \<and> yielding bound (Suc i) u \<and> cx_thread u = me"
proof -
  have s: "cx_ran s = map YieldTest [0..<i]" "no_timer (cx_timers s)" "cx_state s = CtxRunning" "cx_pending s = [YieldTest i]"
    using y i by (auto simp: yielding_def)
  note rw = ctx_iteration_def s(4) yield_test_def no_timer_expiry [OF s(2)] ctx_poll_quiet [OF poll]
  show ?thesis
  proof (cases "i < bound")
    case True
    then show ?thesis
      using s me by (simp add: rw yielding_def ctx_execute_def execute_push_def assert_in_context_thread_def)
  next
    case False
    then show ?thesis
      using s me i by (simp add: rw yielding_def ctx_stop_def assert_in_context_thread_def)
  qed
qed


subsection \<open>Properties\<close>

lemma while_option_reaches:
  assumes step: "\<And>s. P s \<Longrightarrow> b s \<Longrightarrow> P (c s) \<and> f (c s) < (f s :: nat)" and init: "P s"
  shows "\<exists>t. while_option b c s = Some t \<and> P t \<and> \<not> b t"
proof -
  obtain t where t: "while_option b c s = Some t"
    using measure_while_option_Some [where P = P and b = b and c = c and f = f and s = s, OF step init] by blast
  have "P (c s)" if "P s" "b s" for s using step [OF that] by simp
  from while_option_rule [OF this t init] show ?thesis using t while_option_stop [OF t] by blast
qed

text \<open>
  What an iteration uses up: a tick is worth two iterations, the one in which the timer fires and the wait for it;
  one more wait may end with the wake-up.
\<close>

definition tick_budget :: "nat \<Rightarrow> tick ctx \<Rightarrow> 'p ring \<Rightarrow> nat" where
  "tick_budget k s r =
     (if cx_state s = CtxStopping then 0
      else 2 * k + (if cx_now s < deadline_in (cx_timers s) then 1 else 0) + (if ring_awake r then 1 else 0))"

definition ticker_at :: "nanos \<Rightarrow> nat \<Rightarrow> nanos \<Rightarrow> thread_id \<Rightarrow> nat \<Rightarrow> bool \<Rightarrow> tick ctx \<times> 'p ring \<Rightarrow> bool" where
  "ticker_at duration n start me k failed x \<longleftrightarrow> idle_ring (snd x) \<and> cx_thread (fst x) = me
     \<and> (if failed then ticked duration n start k (fst x) \<and> cx_state (fst x) = CtxStopping else ticking duration n start k (fst x))"

lemma ticker_going: "ticker_at duration n start me k failed x \<Longrightarrow> ctx_going (Inr (fst x)) \<Longrightarrow> \<not> failed \<and> 0 < k"
  by (auto simp: ticker_at_def ctx_going_def ticking_def split: if_splits)

lemma tick_iterates:
  assumes iterates: "ring_iterates peername me ticker_lambda x w y" and x: "ticker_at duration n start me k failed x"
    and n: "n < 2 ^ 64"
  shows "\<not> failed \<and> (\<exists>j. ticker_at duration n start me j (wait_failed w) y
    \<and> tick_budget j (fst y) (snd y) + (if wait_cut w then 0 else 1) \<le> tick_budget k (fst x) (snd x))"
proof -
  let ?s = "fst x" and ?r = "snd x" and ?tp = "deadline_in (cx_timers (fst x))"
  from iterates obtain v e u where going: "ctx_going (Inr ?s)" and u: "ctx_tasks ticker_lambda ?s = Inr u"
    and polls: "ring_polls peername (poll_timeout u) ?r w v e (snd y)"
    and it: "ctx_iteration me ticker_lambda (\<lambda>d s. (v, [ElapseCall e])) ?s = Inr (fst y)"
    by (auto simp: ring_iterates_def)
  have k: "\<not> failed" "0 < k" using ticker_going [OF x going] by simp_all
  then have ring: "idle_ring ?r" and s: "ticking duration n start k ?s" "cx_thread ?s = me" and running: "cx_state ?s \<noteq> CtxStopping"
    using x going by (auto simp: ticker_at_def ctx_going_def)
  from tick_tasks [OF s(1) k(2) n s(2)] u have u_at: "cx_thread u = me" "cx_now u = cx_now ?s"
    and tick: "if cx_now ?s < ?tp then ticking duration n start k u \<and> deadline_in (cx_timers u) = ?tp \<and> poll_timeout u = ?tp - cx_now ?s
       else ticking duration n start (k - 1) u" by auto
  define j where "j = (if cx_now ?s < ?tp then k else k - 1)"
  have "ticking duration n start j u" using tick by (auto simp: j_def)
  from tick_poll [OF this u_at(1), of v e] it u have y: "cx_thread (fst y) = me" "cx_now (fst y) = cx_now u + int e"
    "cx_timers (fst y) = cx_timers u"
    "if v = -1 then ticked duration n start j (fst y) \<and> cx_state (fst y) = CtxStopping else ticking duration n start j (fst y)"
    by (auto simp: ctx_iteration_parts)
  note end_of = idle_ring_polls [OF polls ring]
  have at: "ticker_at duration n start me j (wait_failed w) y" using end_of y by (auto simp: ticker_at_def)
  have "tick_budget j (fst y) (snd y) + (if wait_cut w then 0 else 1) \<le> tick_budget k ?s ?r"
  proof (cases "cx_now ?s < ?tp")
    case True
    then have "deadline_in (cx_timers (fst y)) = ?tp" "j = k" "nat (poll_timeout u) = nat (?tp - cx_now ?s)" "nat (poll_timeout u) \<noteq> 0"
      using tick y(3) by (simp_all add: j_def)
    moreover have "wait_failed w \<Longrightarrow> cx_state (fst y) = CtxStopping" using at by (simp add: ticker_at_def)
    ultimately show ?thesis
      using end_of True running k(2) y(2) u_at(2) by (auto simp: tick_budget_def)
  next
    case False
    then show ?thesis using end_of k(2) running by (auto simp: tick_budget_def j_def)
  qed
  with at k(1) show ?thesis by blast
qed

lemma ticker_run:
  assumes "ring_loop_run peername me ticker_lambda x ws y" and "ticker_at duration n start me n False x" and "n < 2 ^ 64"
  shows "\<exists>k. ticker_at duration n start me k (\<exists>w \<in> set ws. wait_failed w) y
    \<and> length ws + tick_budget k (fst y) (snd y) \<le> tick_budget n (fst x) (snd x) + length (filter wait_cut ws)"
  using assms
proof (induction rule: ring_loop_run.induct)
  case (goes_on ws y w z)
  then obtain k where k: "ticker_at duration n start me k (\<exists>w \<in> set ws. wait_failed w) y"
    "length ws + tick_budget k (fst y) (snd y) \<le> tick_budget n (fst x) (snd x) + length (filter wait_cut ws)" by blast
  from tick_iterates [OF goes_on(2) k(1) assms(3)] obtain j where "\<not> (\<exists>w \<in> set ws. wait_failed w)"
    "ticker_at duration n start me j (wait_failed w) z"
    "tick_budget j (fst z) (snd z) + (if wait_cut w then 0 else 1) \<le> tick_budget k (fst y) (snd y)" by blast
  then show ?case using k(2) by (intro exI [of _ j]) auto
qed auto

lemma ticker_goes_on:
  assumes x: "ticker_at duration n start me k failed x" and going: "ctx_going (Inr (fst x))" and n: "n < 2 ^ 64"
  shows "\<exists>w y. (w = None \<or> w = Some (- etime)) \<and> ring_iterates peername me ticker_lambda x w y"
proof -
  have k: "\<not> failed" "0 < k" using ticker_going [OF x going] by simp_all
  then have ring: "idle_ring (snd x)" and s: "ticking duration n start k (fst x)" "cx_thread (fst x) = me"
    using x by (auto simp: ticker_at_def)
  from tick_tasks [OF s(1) k(2) n s(2)] obtain u j where u: "ctx_tasks ticker_lambda (fst x) = Inr u" "cx_thread u = me"
    "ticking duration n start j u" by (metis (full_types))
  from ring_polls_some [OF ring] obtain w e r' where w: "w = None \<or> w = Some (- etime)"
    and polls: "ring_polls peername (poll_timeout u) (snd x) w 0 e r'" by blast
  from tick_poll [OF u(3,2), of 0 e] obtain t where "ctx_poll me (\<lambda>d s. (0, [ElapseCall e])) u = Inr t" by auto
  then have "ring_iterates peername me ticker_lambda x w (t, r')"
    unfolding ring_iterates_def
    by (intro exI [of _ u] exI [of _ 0] exI [of _ e]) (simp add: going u(1) polls ctx_iteration_parts)
  then show ?thesis using w by blast
qed

text \<open>\<^verbatim>\<open>start\<close> has checked the thread and the state; the ring is the one of the context's constructor.\<close>

lemma ticker_starts:
  assumes "ctx_new False me now entries = Inr s" and "ring_new True (unat entries) = Inr (Some r)" and "0 < n"
    and "0 \<le> duration"
  shows "ticker_at duration n now me n False ((ticker duration (of_nat n) s)\<lparr>cx_state := CtxRunning\<rparr>, r)"
    and "assert_in_context_thread me (ticker duration (of_nat n) s) \<and> cx_state (ticker duration (of_nat n) s) = CtxStopping"
proof -
  have s: "cx_state s = CtxStopping" "cx_thread s = me" "cx_pending s = []" "cx_fired s = []" "cx_now s = now" "no_timer (cx_timers s)"
    using assms(1) tq_inv_empty by (auto simp: ctx_new_def no_timer_def tq_empty_def split: if_splits)
  then show "assert_in_context_thread me (ticker duration (of_nat n) s) \<and> cx_state (ticker duration (of_nat n) s) = CtxStopping"
    by (simp add: ticker_def expires_after_def split_def Let_def assert_in_context_thread_def)
  have "one_timer (now + duration) (Tick duration (of_nat n)) (cx_timers (ticker duration (of_nat n) s))"
    using one_timer_push [OF s(6)] by (simp add: ticker_def expires_after_def split_def Let_def s(5))
  then show "ticker_at duration n now me n False ((ticker duration (of_nat n) s)\<lparr>cx_state := CtxRunning\<rparr>, r)"
    using s assms(3) idle_ring_new [OF assms(2)]
    by (auto simp: ticker_at_def ticking_def ticked_def ticks_down_def ticker_def expires_after_def split_def Let_def)
qed

text \<open>
  Property C34: the ticker, told to tick \<open>n\<close> times, at least once, on a context that has nothing else to do, over
  a ring. However the waits of the ring end, each call of the function is for the next tick, \<open>n\<close>, \<open>n - 1\<close> and so on,
  and the \<open>k\<close>-th is not before \<open>k\<close> durations have passed; the loop ends after the last tick, and before it only if a
  wait failed. It gets there: it takes at most \<open>2 * n + 2\<close> iterations and one for every wait that a signal cuts short,
  and as long as it has not ended it can go on.
\<close>

theorem ticker_ticks:
  assumes "ctx_new False me now entries = Inr s" and "ring_new True (unat entries) = Inr (Some r)"
    and "0 < n" and "n < 2 ^ 64" and "0 \<le> duration"
    and "ring_loop_run peername me ticker_lambda ((ticker duration (of_nat n) s)\<lparr>cx_state := CtxRunning\<rparr>, r) ws (t, r')"
  shows "(\<exists>k \<le> n. cx_fired t = map (\<lambda>i. Tick duration (of_nat (n - i))) [0..<k] \<and> now + int k * duration \<le> cx_now t
        \<and> (cx_state t = CtxStopping \<longrightarrow> k = n \<or> (\<exists>w \<in> set ws. wait_failed w))
        \<and> (cx_state t \<noteq> CtxStopping \<longrightarrow> k < n))
    \<and> length ws \<le> 2 * n + 2 + length (filter wait_cut ws)
    \<and> (cx_state t \<noteq> CtxStopping \<longrightarrow>
          (\<exists>w y. (w = None \<or> w = Some (- etime)) \<and> ring_iterates peername me ticker_lambda (t, r') w y))"
proof -
  note start = ticker_starts(1) [OF assms(1,2,3,5)]
  from ticker_run [OF assms(6) start assms(4)] obtain j where j: "ticker_at duration n now me j (\<exists>w \<in> set ws. wait_failed w) (t, r')"
    and len: "length ws + tick_budget j t r' \<le> tick_budget n ((ticker duration (of_nat n) s)\<lparr>cx_state := CtxRunning\<rparr>) r + length (filter wait_cut ws)"
    by auto
  then have "ticked duration n now j t" by (auto simp: ticker_at_def ticking_def split: if_splits)
  then have k: "n - j \<le> n" "cx_fired t = map (\<lambda>i. Tick duration (of_nat (n - i))) [0..<n - j]" "now + int (n - j) * duration \<le> cx_now t"
    "j \<le> n" unfolding ticked_def ticks_down_def by (blast intro: diff_le_self)+
  have "cx_state t = CtxStopping \<longrightarrow> n - j = n \<or> (\<exists>w \<in> set ws. wait_failed w)" "cx_state t \<noteq> CtxStopping \<longrightarrow> n - j < n"
    using j k(4) assms(3) by (auto simp: ticker_at_def ticking_def split: if_splits)
  moreover have "length ws \<le> 2 * n + 2 + length (filter wait_cut ws)" using len by (auto simp: tick_budget_def split: if_splits)
  moreover have "cx_state t \<noteq> CtxStopping \<longrightarrow>
      (\<exists>w y. (w = None \<or> w = Some (- etime)) \<and> ring_iterates peername me ticker_lambda (t, r') w y)"
    using ticker_goes_on [OF j _ assms(4)] by (simp add: ctx_going_def)
  ultimately show ?thesis using k by blast
qed

lemma longest_run:
  assumes "P 0" and "\<And>n. P n \<Longrightarrow> n \<le> (b :: nat)"
  shows "\<exists>n. P n \<and> \<not> P (Suc n)"
proof (rule ccontr)
  assume "\<not> ?thesis"
  then have "P n" for n using assms(1) by (induction n) auto
  then have "P (Suc b)" .
  then show False using assms(2) by force
qed

theorem ticker_ticks_witness:
  "\<exists>s r ws t r'. ctx_new False 0 7 128 = Inr s \<and> ring_new True 128 = Inr (Some r)
     \<and> ring_loop_run (\<lambda>_. []) 0 ticker_lambda ((ticker 1000000000 5 s)\<lparr>cx_state := CtxRunning\<rparr>, r :: unit ring) ws (t, r')
     \<and> cx_state t = CtxStopping \<and> cx_fired t = map (Tick 1000000000) [5, 4, 3, 2, 1]"
proof -
  obtain s :: "tick ctx" where s: "ctx_new False 0 7 128 = Inr s" by (simp add: ctx_new_def)
  obtain r :: "unit ring" where r: "ring_new True (unat (128 :: size_t)) = Inr (Some r)"
    by (simp add: ring_new_def prep_wake_up_def put_sqe_def)
  let ?x = "((ticker 1000000000 5 s)\<lparr>cx_state := CtxRunning\<rparr>, r)"
  let ?run = "ring_loop_run (\<lambda>_. []) 0 ticker_lambda ?x"
  let ?quiet = "\<lambda>ws. \<forall>w \<in> set ws. w = None \<or> w = Some (- etime)"
  note ticks = ticker_ticks [OF s r, of 5 1000000000 "\<lambda>_. []", simplified]
  have quiet: "filter wait_cut ws = []" "\<not> (\<exists>w \<in> set ws. wait_failed w)" if "?quiet ws" for ws
    using that by (auto simp: wait_cut_def wait_failed_def filter_empty_conv etime_def eagain_def eintr_def)
  have "\<exists>n. (\<exists>ws y. length ws = n \<and> ?quiet ws \<and> ?run ws y) \<and> \<not> (\<exists>ws y. length ws = Suc n \<and> ?quiet ws \<and> ?run ws y)"
  proof (rule longest_run)
    show "\<exists>ws y. length ws = 0 \<and> ?quiet ws \<and> ?run ws y"
      by (rule exI [of _ "[]"], rule exI [of _ ?x]) (simp add: ring_loop_run.starts)
    show "n \<le> 12" if "\<exists>ws y. length ws = n \<and> ?quiet ws \<and> ?run ws y" for n using that ticks quiet(1) by fastforce
  qed
  then obtain ws t r' where run: "?quiet ws" "?run ws (t, r')"
    and last_one: "\<not> (\<exists>vs y. length vs = Suc (length ws) \<and> ?quiet vs \<and> ?run vs y)" by auto
  have "cx_state t = CtxStopping"
  proof (rule ccontr)
    assume "cx_state t \<noteq> CtxStopping"
    with ticks [OF run(2)] obtain w y where w: "w = None \<or> w = Some (- etime)" "ring_iterates (\<lambda>_. []) 0 ticker_lambda (t, r') w y" by blast
    then have "?run (ws @ [w]) y" "?quiet (ws @ [w])" using ring_loop_run.goes_on [OF run(2)] run(1) by auto
    moreover have "length (ws @ [w]) = Suc (length ws)" by simp
    ultimately show False using last_one by blast
  qed
  with ticks [OF run(2)] quiet(2) [OF run(1)] have "cx_fired t = map (\<lambda>i. Tick 1000000000 (of_nat (5 - i))) [0..<5]" by auto
  also have "\<dots> = map (Tick 1000000000) [5, 4, 3, 2, 1]" by (simp add: upt_rec)
  finally show ?thesis using s r run(2) \<open>cx_state t = CtxStopping\<close> by auto
qed

text \<open>
  A ticker that is told to tick no times at all goes on: the counter wraps, and it sets itself for
  \<open>2 ^ 64 - 1\<close> ticks.
\<close>

lemma ticker_of_no_ticks_wraps: "ticker_lambda (Tick d 0) True s = [AfterCall d (Tick d (- 1))]"
  by (simp add: ticker_lambda_def)

text \<open>
  The coroutine is resumed once for every \<^verbatim>\<open>yield\<close> and once at first, in as many iterations of the loop, none of
  which waits in the service; then \<^verbatim>\<open>start\<close> returns.
\<close>

theorem yield_resumes_each_time:
  assumes "ctx_new False me now entries = Inr s" and "quiet_at_once poll"
  shows "\<exists>t. ctx_start me (yield_test bound) poll (queue_in_context me (YieldTest 0) s) = Some (Inr t)
     \<and> cx_ran t = map YieldTest [0..<Suc bound] \<and> cx_pending t = [] \<and> cx_state t = CtxStopping"
proof -
  let ?q = "queue_in_context me (YieldTest 0) s"
  let ?P = "\<lambda>r. case r of Inl e \<Rightarrow> False | Inr s \<Rightarrow> (\<exists>i. yielding bound i s) \<and> cx_thread s = me"
  let ?c = "\<lambda>r. bind_checked r (ctx_iteration me (yield_test bound) poll)"
  let ?f = "\<lambda>r. case r of Inl e \<Rightarrow> 0 | Inr s \<Rightarrow> Suc bound - length (cx_ran s)"
  have q: "cx_state ?q = CtxStopping" "cx_thread ?q = me" "yielding bound 0 (?q\<lparr>cx_state := CtxRunning\<rparr>)"
    using assms(1) tq_inv_empty
    by (auto simp: ctx_new_def yielding_def no_timer_def tq_empty_def queue_in_context_def ctx_execute_def execute_push_def
        assert_in_context_thread_def Let_def split: if_splits)
  then have init: "?P (Inr (?q\<lparr>cx_state := CtxRunning\<rparr>))" by auto
  have step: "?P (?c r) \<and> ?f (?c r) < ?f r" if r: "?P r" "ctx_going r" for r
  proof -
    obtain u i where u: "r = Inr u" "yielding bound i u" "cx_thread u = me" using r(1) by (auto split: sum.splits)
    then have i: "i \<le> bound" using r(2) by (auto simp: ctx_going_def yielding_def split: if_splits)
    obtain v where v: "ctx_iteration me (yield_test bound) poll u = Inr v" "yielding bound (Suc i) v" "cx_thread v = me"
      using yield_iteration [OF u(2) i u(3) assms(2)] by blast
    have "length (cx_ran u) = i" "length (cx_ran v) = Suc i" using u(2) v(2) by (simp_all add: yielding_def)
    then show ?thesis using v i by (auto simp: u(1))
  qed
  obtain r where w: "while_option ctx_going ?c (Inr (?q\<lparr>cx_state := CtxRunning\<rparr>)) = Some r" "?P r" "\<not> ctx_going r"
    using while_option_reaches [of ?P ctx_going ?c ?f, OF step init] by blast
  then obtain t i where t: "r = Inr t" "yielding bound i t" by (auto split: sum.splits)
  then have "i = Suc bound" using w(3) by (auto simp: ctx_going_def yielding_def split: if_splits)
  then show ?thesis using w(1) t q by (auto simp: ctx_start_def assert_in_context_thread_def yielding_def)
qed

end
