(* ===== verification/Log_Output.thy ===== *)
theory Log_Output
  imports Line_Logger Async_Logger
begin

section \<open>A program that logs to the files (utils/logger.h with utils/async_logger.h)\<close>

text \<open>
  \<^verbatim>\<open>Logger::set_output(AsyncLogger::write)\<close> joins the two loggers: a macro builds the line in the thread's
  \<^verbatim>\<open>FormatBuffer\<close>, the output function formats it with the arguments in the thread's \<^verbatim>\<open>SmallBuffer\<close> and
  appends it to the buffers that the background thread writes. \<^verbatim>\<open>fmt\<close> is outside, once for the local time
  and once for the arguments: \<open>full\<close> is the text that \<^verbatim>\<open>fmt::vprint\<close> prints. The two buffers belong to
  the thread and the append is one critical section, so that a call of a macro is one step.
\<close>

subsection \<open>The output function\<close>

text \<open>The console, the \<^verbatim>\<open>thread_local\<close> buffers of every thread, and the asynchronous logger.\<close>

record log_world =
  lw_console :: string
  lw_format :: "size_t \<Rightarrow> static_buffer"
  lw_small :: "size_t \<Rightarrow> static_buffer"
  lw_alog :: alog

text \<open>An output function is called on the thread that logs.\<close>

type_synonym 'args output_fn = "size_t \<Rightarrow> string \<Rightarrow> 'args \<Rightarrow> log_world \<Rightarrow> log_world option"

record 'args out_logger =
  ol_logger :: logger
  ol_output :: "'args output_fn"

definition default_output :: "(string \<Rightarrow> 'args \<Rightarrow> string) \<Rightarrow> 'args output_fn" where
  "default_output full me fmt args w = Some (w\<lparr>lw_console := lw_console w @ full fmt args\<rparr>)"

definition async_output :: "'args formatter \<Rightarrow> 'args output_fn" where
  "async_output vformat_to_n me fmt args w =
     map_option (\<lambda>(b, s). w\<lparr>lw_small := (lw_small w)(me := b), lw_alog := s\<rparr>)
       (async_write vformat_to_n fmt args (lw_small w me) (lw_alog w))"

definition out_logger_new :: "(string \<Rightarrow> 'args \<Rightarrow> string) \<Rightarrow> 'args out_logger" where
  "out_logger_new full = \<lparr>ol_logger = logger_new, ol_output = default_output full\<rparr>"

definition logger_set_output :: "'args output_fn \<Rightarrow> 'args out_logger \<Rightarrow> 'args out_logger" where
  "logger_set_output fn ol = ol\<lparr>ol_output := fn\<rparr>"

subsection \<open>The macros\<close>

datatype log_macro = M_TRACE | M_DEBUG | M_INFO | M_WARN | M_ERROR | M_SYS_ERROR

fun macro_level :: "log_macro \<Rightarrow> log_level" where
  "macro_level M_TRACE = LvTrace" | "macro_level M_DEBUG = LvDebug" | "macro_level M_INFO = LvInfo"
| "macro_level M_WARN = LvWarn" | "macro_level M_ERROR = LvError" | "macro_level M_SYS_ERROR = LvError"

text \<open>What a macro is expanded with: \<^verbatim>\<open>__FILE__\<close>, \<^verbatim>\<open>__LINE__\<close>, the format and the arguments, on a thread at a time.\<close>

record ('t, 'args) log_call =
  lc_thread :: size_t
  lc_now :: 't
  lc_macro :: log_macro
  lc_file :: string
  lc_line :: int
  lc_fmt :: string
  lc_args :: 'args

text \<open>\<^verbatim>\<open>write\<close> and \<^verbatim>\<open>console_write\<close> differ in the function that is given the line.\<close>

definition log_through ::
  "'t formatter \<Rightarrow> logger \<Rightarrow> 'args output_fn \<Rightarrow> ('t, 'args) log_call \<Rightarrow> log_world \<Rightarrow> log_world option" where
  "log_through vtime lg out c w =
     (case logger_write vtime (lc_now c) (lc_thread c) lg (lc_file c) (lc_line c) (macro_level (lc_macro c))
             (lc_fmt c) (lc_args c) (lw_format w (lc_thread c)) of
        None \<Rightarrow> None
      | Some (line, b) \<Rightarrow>
          (let w = w\<lparr>lw_format := (lw_format w)(lc_thread c := b)\<rparr>
           in case line of None \<Rightarrow> Some w | Some (fmt, args) \<Rightarrow> out (lc_thread c) fmt args w))"

definition log_call ::
  "'t formatter \<Rightarrow> (string \<Rightarrow> 'args \<Rightarrow> string) \<Rightarrow> 'args out_logger \<Rightarrow> ('t, 'args) log_call \<Rightarrow> log_world \<Rightarrow> log_world option" where
  "log_call vtime full ol c =
     log_through vtime (ol_logger ol) (if lc_macro c = M_SYS_ERROR then default_output full else ol_output ol) c"

subsection \<open>Runs\<close>

text \<open>
  Calls of all threads, steps of the logger's background thread with what the system takes of its writes, and the
  logger's destructor.
\<close>

datatype ('t, 'args) log_event = Logs "('t, 'args) log_call" | Flushes bool "nat list" | Stops

definition log_event ::
  "'t formatter \<Rightarrow> (string \<Rightarrow> 'args \<Rightarrow> string) \<Rightarrow> 'args out_logger \<Rightarrow> ('t, 'args) log_event \<Rightarrow> log_world \<Rightarrow> log_world option" where
  "log_event vtime full ol ev w =
     (case ev of
        Logs c \<Rightarrow> log_call vtime full ol c w
      | Flushes one_day ns \<Rightarrow> map_option (\<lambda>s. w\<lparr>lw_alog := s\<rparr>) (bg_step one_day ns (lw_alog w))
      | Stops \<Rightarrow> Some (w\<lparr>lw_alog := alog_stop (lw_alog w)\<rparr>))"

text \<open>The program's state when it starts; what is in the buffers does not matter.\<close>

definition log_start :: "log_world \<Rightarrow> bool" where
  "log_start w \<longleftrightarrow> lw_alog w = alog_new \<and> lw_console w = []
     \<and> (\<forall>me. sb_wf kFormatBufferSize (lw_format w me) \<and> sb_wf kSmallBufferSize (lw_small w me))"

subsection \<open>What is logged\<close>

text \<open>The text of a call: nothing below the level, and else the line with the arguments in it.\<close>

definition call_text :: "(string \<Rightarrow> 't \<Rightarrow> string) \<Rightarrow> (string \<Rightarrow> 'args \<Rightarrow> string) \<Rightarrow> logger \<Rightarrow> ('t, 'args) log_call \<Rightarrow> string" where
  "call_text time full lg c =
     (if level_num (macro_level (lc_macro c)) < level_num (lg_level lg) then []
      else full (take kFormatBufferSize (log_line time (lc_now c) (lc_thread c) (lg_pattern lg) (lc_file c) (lc_line c)
                   (macro_level (lc_macro c)) (lc_fmt c))) (lc_args c))"

text \<open>
  The texts of a run that go to the output function, and those of \<^verbatim>\<open>M_SYS_ERROR\<close>, which always go to the
  console.
\<close>

fun logged :: "(('t, 'args) log_call \<Rightarrow> string) \<Rightarrow> bool \<Rightarrow> ('t, 'args) log_event list \<Rightarrow> string" where
  "logged txt console [] = []"
| "logged txt console (Logs c # evs) = (if (lc_macro c = M_SYS_ERROR) = console then txt c else []) @ logged txt console evs"
| "logged txt console (_ # evs) = logged txt console evs"

text \<open>
  Sizes that the types of the program allow: texts in memory, and a line number that is an \<^verbatim>\<open>int\<close>. A call is
  overlong when its text goes to the output function and does not fit the small buffer.
\<close>

definition call_ok :: "(string \<Rightarrow> 't \<Rightarrow> string) \<Rightarrow> (string \<Rightarrow> 'args \<Rightarrow> string) \<Rightarrow> logger \<Rightarrow> ('t, 'args) log_call \<Rightarrow> bool" where
  "call_ok time full lg c \<longleftrightarrow>
     length (lc_file c) < 2 ^ 64 \<and> - (2 ^ 31) \<le> lc_line c \<and> lc_line c < 2 ^ 31 \<and> length (lc_fmt c) < 2 ^ 64
   \<and> length (call_text time full lg c) < 2 ^ 64"

fun event_ok :: "(string \<Rightarrow> 't \<Rightarrow> string) \<Rightarrow> (string \<Rightarrow> 'args \<Rightarrow> string) \<Rightarrow> logger \<Rightarrow> ('t, 'args) log_event \<Rightarrow> bool" where
  "event_ok time full lg (Logs c) \<longleftrightarrow> call_ok time full lg c"
| "event_ok time full lg _ \<longleftrightarrow> True"

fun overlong :: "(string \<Rightarrow> 't \<Rightarrow> string) \<Rightarrow> (string \<Rightarrow> 'args \<Rightarrow> string) \<Rightarrow> logger \<Rightarrow> ('t, 'args) log_event \<Rightarrow> bool" where
  "overlong time full lg (Logs c) \<longleftrightarrow> lc_macro c \<noteq> M_SYS_ERROR \<and> kSmallBufferSize < length (call_text time full lg c)"
| "overlong time full lg _ \<longleftrightarrow> False"

text \<open>The step's writes are complete.\<close>

fun event_complete :: "('t, 'args) log_event \<Rightarrow> bool" where
  "event_complete (Flushes one_day ns) \<longleftrightarrow> complete_counts ns"
| "event_complete _ \<longleftrightarrow> True"

definition log_ok :: "log_world \<Rightarrow> bool" where
  "log_ok w \<longleftrightarrow> alog_inv (lw_alog w)
     \<and> (\<forall>me. sb_wf kFormatBufferSize (lw_format w me) \<and> sb_wf kSmallBufferSize (lw_small w me))"

lemma log_start_ok: "log_start w \<Longrightarrow> log_ok w \<and> stored (lw_alog w) = [] \<and> lw_console w = []"
  using alog_inv_new by (auto simp: log_start_def log_ok_def)

text \<open>A call, up to the output function.\<close>

lemma log_through_line:
  assumes "log_ok w" and "format_to_n_spec vtime time" and "dates_fit time" and "call_ok time full lg c"
  shows "\<exists>w'. log_ok w' \<and> lw_alog w' = lw_alog w \<and> lw_console w' = lw_console w \<and>
    log_through vtime lg out c w =
      (if level_num (macro_level (lc_macro c)) < level_num (lg_level lg) then Some w'
       else out (lc_thread c) (take kFormatBufferSize (log_line time (lc_now c) (lc_thread c) (lg_pattern lg) (lc_file c)
              (lc_line c) (macro_level (lc_macro c)) (lc_fmt c))) (lc_args c) w')"
proof -
  let ?b = "lw_format w (lc_thread c)" and ?lv = "macro_level (lc_macro c)"
  have wf: "sb_wf kFormatBufferSize ?b" using assms(1) by (simp add: log_ok_def)
  have "holds (log_line time (lc_now c) (lc_thread c) (lg_pattern lg) (lc_file c) (lc_line c) ?lv (lc_fmt c))
      (build_fmt_str vtime (lc_now c) (lc_thread c) (lg_pattern lg) (lc_file c) (lc_line c) ?lv (lc_fmt c) ?b)"
    by (rule build_fmt_str_holds [OF wf assms(2) head_fits [OF assms(3)]])
      (use assms(4) in \<open>simp_all add: call_ok_def int_digits_int [simplified]\<close>)
  then obtain b where b: "sb_wf kFormatBufferSize b"
    "build_fmt_str vtime (lc_now c) (lc_thread c) (lg_pattern lg) (lc_file c) (lc_line c) ?lv (lc_fmt c) ?b = Some b"
    "sb_slice b = take kFormatBufferSize
       (log_line time (lc_now c) (lc_thread c) (lg_pattern lg) (lc_file c) (lc_line c) ?lv (lc_fmt c))"
    by (auto simp: holds_def)
  show ?thesis
  proof (cases "level_num ?lv < level_num (lg_level lg)")
    case True
    with assms(1) show ?thesis by (intro exI [of _ w]) (simp add: log_through_def logger_write_def)
  next
    case False
    with b assms(1) show ?thesis
      by (intro exI [of _ "w\<lparr>lw_format := (lw_format w)(lc_thread c := b)\<rparr>"])
        (simp add: log_through_def logger_write_def log_ok_def)
  qed
qed

lemma async_output_writes:
  assumes "log_ok w" and "format_to_n_spec vformat full" and "length (full fmt args) \<le> kSmallBufferSize"
  shows "\<exists>w'. async_output vformat me fmt args w = Some w' \<and> log_ok w' \<and> lw_console w' = lw_console w
    \<and> stored (lw_alog w') = stored (lw_alog w) @ full fmt args"
proof -
  from assms(1) have inv: "alog_inv (lw_alog w)" and wf: "sb_wf kSmallBufferSize (lw_small w me)"
    by (simp_all add: log_ok_def)
  obtain b s where "sb_wf kSmallBufferSize b" "alog_inv s" "stored s = stored (lw_alog w) @ full fmt args"
    "async_write vformat fmt args (lw_small w me) (lw_alog w) = Some (b, s)"
    using async_write_eq [OF wf assms(2,3), of "lw_alog w"] write_inv [OF inv assms(3)] by auto
  then show ?thesis using assms(1) by (auto simp: async_output_def log_ok_def)
qed

lemma log_call_writes:
  assumes "log_ok w" and "format_to_n_spec vtime time" and "dates_fit time" and "format_to_n_spec vformat full"
    and "call_ok time full lg c"
  shows "if overlong time full lg (Logs c) then log_call vtime full \<lparr>ol_logger = lg, ol_output = async_output vformat\<rparr> c w = None
    else \<exists>w'. log_call vtime full \<lparr>ol_logger = lg, ol_output = async_output vformat\<rparr> c w = Some w' \<and> log_ok w'
      \<and> stored (lw_alog w') = stored (lw_alog w) @ logged (call_text time full lg) False [Logs c]
      \<and> lw_console w' = lw_console w @ logged (call_text time full lg) True [Logs c]"
proof -
  let ?out = "if lc_macro c = M_SYS_ERROR then default_output full else async_output vformat"
  obtain u where u: "log_ok u" "lw_alog u = lw_alog w" "lw_console u = lw_console w"
    and through: "log_through vtime lg ?out c w =
      (if level_num (macro_level (lc_macro c)) < level_num (lg_level lg) then Some u
       else ?out (lc_thread c) (take kFormatBufferSize (log_line time (lc_now c) (lc_thread c) (lg_pattern lg) (lc_file c)
              (lc_line c) (macro_level (lc_macro c)) (lc_fmt c))) (lc_args c) u)"
    using log_through_line [OF assms(1,2,3,5), of ?out] by blast
  have len: "length (call_text time full lg c) < 2 ^ 64" using assms(5) by (simp add: call_ok_def)
  show ?thesis
  proof (cases "level_num (macro_level (lc_macro c)) < level_num (lg_level lg)")
    case True
    with u through show ?thesis by (auto simp: log_call_def call_text_def)
  next
    case False
    then have the_text: "call_text time full lg c
        = full (take kFormatBufferSize (log_line time (lc_now c) (lc_thread c) (lg_pattern lg) (lc_file c) (lc_line c)
            (macro_level (lc_macro c)) (lc_fmt c))) (lc_args c)" by (simp add: call_text_def)
    show ?thesis
    proof (cases "lc_macro c = M_SYS_ERROR")
      case True
      with u through False show ?thesis by (auto simp: log_call_def the_text default_output_def log_ok_def)
    next
      case other: False
      show ?thesis
      proof (cases "kSmallBufferSize < length (call_text time full lg c)")
        case True
        have wf: "sb_wf kSmallBufferSize (lw_small u (lc_thread c))" using u(1) by (simp add: log_ok_def)
        from async_write_overrun [OF wf assms(4) True [unfolded the_text] len [unfolded the_text]] through False other True
        show ?thesis by (simp add: log_call_def async_output_def)
      next
        case short: False
        then have "length (call_text time full lg c) \<le> kSmallBufferSize" by simp
        from async_output_writes [OF u(1) assms(4) this [unfolded the_text], of "lc_thread c"] u through False other short
        show ?thesis by (auto simp: log_call_def the_text)
      qed
    qed
  qed
qed

lemma log_event_writes:
  assumes "log_ok w" and "format_to_n_spec vtime time" and "dates_fit time" and "format_to_n_spec vformat full"
    and "event_ok time full lg ev"
  shows "if overlong time full lg ev then log_event vtime full \<lparr>ol_logger = lg, ol_output = async_output vformat\<rparr> ev w = None
    else \<exists>w'. log_event vtime full \<lparr>ol_logger = lg, ol_output = async_output vformat\<rparr> ev w = Some w' \<and> log_ok w'
      \<and> subseq (stored (lw_alog w')) (stored (lw_alog w) @ logged (call_text time full lg) False [ev])
      \<and> (event_complete ev \<longrightarrow> stored (lw_alog w') = stored (lw_alog w) @ logged (call_text time full lg) False [ev])
      \<and> lw_console w' = lw_console w @ logged (call_text time full lg) True [ev]"
proof (cases ev)
  case (Logs c)
  have "call_ok time full lg c" using assms(5) by (simp add: Logs)
  from log_call_writes [OF assms(1-4) this] show ?thesis
    by (auto simp add: Logs log_event_def simp del: logged.simps overlong.simps split: if_splits)
next
  case (Flushes one_day ns)
  with bg_inv [of "lw_alog w" one_day ns] assms(1) show ?thesis by (auto simp: log_event_def log_ok_def)
next
  case Stops
  with al.inv_step [OF _ alog_step.stop, of "lw_alog w"] assms(1) show ?thesis
    by (auto simp: log_event_def log_ok_def)
qed

lemma logged_Cons: "logged txt console (ev # evs) = logged txt console [ev] @ logged txt console evs"
  by (cases ev) simp_all

lemma log_run_writes:
  assumes "log_ok w" and "format_to_n_spec vtime time" and "dates_fit time" and "format_to_n_spec vformat full"
    and "\<forall>ev \<in> set evs. event_ok time full lg ev"
  defines "run \<equiv> run_schedule (log_event vtime full \<lparr>ol_logger = lg, ol_output = async_output vformat\<rparr>)"
  shows "if \<exists>ev \<in> set evs. overlong time full lg ev then run evs w = None
    else \<exists>w'. run evs w = Some w' \<and> log_ok w'
      \<and> subseq (stored (lw_alog w')) (stored (lw_alog w) @ logged (call_text time full lg) False evs)
      \<and> (list_all event_complete evs \<longrightarrow>
          stored (lw_alog w') = stored (lw_alog w) @ logged (call_text time full lg) False evs)
      \<and> lw_console w' = lw_console w @ logged (call_text time full lg) True evs"
  using assms(1,5)
proof (induction evs arbitrary: w)
  case Nil
  then show ?case by (simp add: run_def)
next
  case (Cons ev evs)
  have oks: "\<forall>ev \<in> set evs. event_ok time full lg ev" and ok: "event_ok time full lg ev" using Cons.prems(2) by simp_all
  note now = log_event_writes [OF Cons.prems(1) assms(2-4) ok]
  show ?case
  proof (cases "overlong time full lg ev")
    case True
    with now show ?thesis by (simp add: run_def)
  next
    case False
    let ?lines = "logged (call_text time full lg)"
    from False now obtain u where u: "log_event vtime full \<lparr>ol_logger = lg, ol_output = async_output vformat\<rparr> ev w = Some u"
      "log_ok u" "subseq (stored (lw_alog u)) (stored (lw_alog w) @ ?lines False [ev])"
      "event_complete ev \<longrightarrow> stored (lw_alog u) = stored (lw_alog w) @ ?lines False [ev]"
      "lw_console u = lw_console w @ ?lines True [ev]" by auto
    have run: "run (ev # evs) w = run evs u" by (simp add: run_def u(1))
    have all: "?lines b (ev # evs) = ?lines b [ev] @ ?lines b evs" for b by (rule logged_Cons)
    note rest = Cons.IH [OF u(2) oks]
    show ?thesis
    proof (cases "\<exists>ev \<in> set evs. overlong time full lg ev")
      case True
      with rest run show ?thesis by simp
    next
      case short: False
      with rest obtain t where t: "run evs u = Some t" "log_ok t"
        "subseq (stored (lw_alog t)) (stored (lw_alog u) @ ?lines False evs)"
        "list_all event_complete evs \<longrightarrow> stored (lw_alog t) = stored (lw_alog u) @ ?lines False evs"
        "lw_console t = lw_console u @ ?lines True evs" by auto
      have "subseq (stored (lw_alog u) @ ?lines False evs) (stored (lw_alog w) @ ?lines False (ev # evs))"
        using list_emb_append_mono [OF u(3), of "?lines False evs" "?lines False evs"] by (simp add: all)
      then have "subseq (stored (lw_alog t)) (stored (lw_alog w) @ ?lines False (ev # evs))"
        using t(3) subseq_order.order_trans by blast
      moreover have "list_all event_complete (ev # evs) \<longrightarrow>
          stored (lw_alog t) = stored (lw_alog w) @ ?lines False (ev # evs)"
        using t(4) u(4) by (simp add: all)
      moreover have "lw_console t = lw_console w @ ?lines True (ev # evs)" using t(5) u(5) by (simp add: all)
      ultimately show ?thesis using short False t(1,2) run by auto
    qed
  qed
qed

text \<open>The background thread's own steps, in the composed run.\<close>

abbreviation flushes :: "bool list \<Rightarrow> ('t, 'args) log_event list" where
  "flushes ds \<equiv> map (\<lambda>one_day. Flushes one_day []) ds"

lemma flushes_run:
  "alog_run (background ds) (lw_alog w) = Some t \<Longrightarrow>
    run_schedule (log_event vtime full ol) (flushes ds) w = Some (w\<lparr>lw_alog := t\<rparr>)"
proof (induction ds arbitrary: w)
  case (Cons d ds)
  then obtain u where u: "bg_step d [] (lw_alog w) = Some u" "alog_run (background ds) u = Some t"
    by (auto split: bind_splits)
  with Cons.IH [of "w\<lparr>lw_alog := u\<rparr>"] show ?case by (simp add: log_event_def)
qed simp

subsection \<open>Property\<close>


text \<open>Two threads log while the background thread runs; the debug line is below the level.\<close>

definition demo_log :: "nat out_logger" where
  "demo_log = (out_logger_new (\<lambda>fmt args. fmt))\<lparr>ol_logger := \<lparr>lg_level = LvInfo, lg_pattern = PatLevel\<rparr>\<rparr>"

definition demo_call :: "size_t \<Rightarrow> log_macro \<Rightarrow> string \<Rightarrow> (unit, nat) log_call" where
  "demo_call me m fmt = \<lparr>lc_thread = me, lc_now = (), lc_macro = m, lc_file = ''main.cpp'', lc_line = 7, lc_fmt = fmt, lc_args = 0\<rparr>"

definition demo_log_events :: "(unit, nat) log_event list" where
  "demo_log_events = [Logs (demo_call 1 M_INFO ''one''), Flushes False [], Logs (demo_call 2 M_DEBUG ''no''),
     Logs (demo_call 2 M_SYS_ERROR ''bad''), Flushes False [], Logs (demo_call 2 M_WARN ''two'')]"

definition demo_log_world :: log_world where
  "demo_log_world = \<lparr>lw_console = [], lw_format = (\<lambda>_. \<lparr>sb_buf = replicate kFormatBufferSize (CHR ''x''), sb_size = 0\<rparr>),
     lw_small = (\<lambda>_. \<lparr>sb_buf = replicate kSmallBufferSize (CHR ''x''), sb_size = 0\<rparr>), lw_alog = alog_new\<rparr>"


text \<open>Without \<^verbatim>\<open>set_output\<close> all macros print on the console.\<close>

lemma default_output_prints:
  assumes "log_ok w" and "format_to_n_spec vtime time" and "dates_fit time" and "call_ok time full logger_new c"
  shows "\<exists>w'. log_call vtime full (out_logger_new full) c w = Some w' \<and> lw_alog w' = lw_alog w
    \<and> lw_console w' = lw_console w @ call_text time full logger_new c"
  using log_through_line [OF assms, of "default_output full"]
  by (auto simp: log_call_def out_logger_new_def default_output_def call_text_def)

end
