(* ===== verification/Spec2Isabelle.thy ===== *)
theory Spec2Isabelle
  imports Result_Error Static_Buffer Type_Traits Functor_Ownership Timer_Queue Co_Mutex Coro_Context
    Thread_Pool Wakeup_Protocol Io_Service Io_Uring Handle_Owner File_Handles Inet_Address Socket_Handles
    Generator Async_Logger Line_Logger Iocp Service_Backends Coro_Lifetime Coro_Join Context_Pool Pool_Offload
    Await_Handles Io_Await Await_Port Cond_Wait Coro_Sleep Io_Interface Thread_Contexts Coro_Objects Fork_Join_Sort Copy_Examples
    Ring_Loop Echo_Tcp Echo_Servers Echo_Udp Timed_Examples Log_Output
begin

text \<open>
  A verification library for magio-v3, a C++ library of coroutines, timers and asynchronous I/O
  (\<^verbatim>\<open>src/magio-v3\<close>). This theory imports all others and says what they hold.

  \<^bold>\<open>The program.\<close> A thread runs a context, an event loop that executes posted tasks, fires timers and
  waits in an I/O service. Coroutines run on a context: awaiting one queues it there, and its end resumes
  the awaiter. Other threads reach a context only through its queue, with a wake-up of its I/O service:
  a pool of threads for blocking work, a pool of contexts, a mutex and a condition whose waiters are
  coroutines. Files, pipes, sockets and acceptors own descriptors and hand requests to the service, which
  has one implementation over io_uring and one over Windows' completion ports. Around these stand a result
  type, a move-only function wrapper, a fixed-size buffer, a generator, and two loggers.

  \<^bold>\<open>The theories and the code.\<close>
  \<^item> \<^verbatim>\<open>Magio_Prelude\<close>: machine types, list lemmas, processes that end (\<^verbatim>\<open>M_FATAL\<close>), the locales
    \<open>transition_system\<close> (a step relation with an invariant) and \<open>executor\<close> (\<^verbatim>\<open>core/execution.h\<close>), loops in
    lockstep.
  \<^item> \<^verbatim>\<open>Result_Error\<close> (\<^verbatim>\<open>core/error.h\<close>, \<^verbatim>\<open>core/error.cpp\<close>): error codes, \<^verbatim>\<open>Result\<close> and its four handlers.
  \<^item> \<^verbatim>\<open>Static_Buffer\<close> (\<^verbatim>\<open>utils/buffer.h\<close>): appends with their bounds, in \<^verbatim>\<open>size_t\<close> arithmetic.
  \<^item> \<^verbatim>\<open>Type_Traits\<close> (\<^verbatim>\<open>utils/traits.h\<close>): the template computations that place the results of \<^verbatim>\<open>join\<close>.
  \<^item> \<^verbatim>\<open>Functor_Ownership\<close> (\<^verbatim>\<open>utils/functor.h\<close>): \<^verbatim>\<open>Functor\<close> over a heap of callable objects.
  \<^item> \<^verbatim>\<open>Timer_Queue\<close> (\<^verbatim>\<open>core/timer_queue.h\<close>): timers as shared objects, cancellation, expiry; the priority
    queue is a locale, interpreted on a sorted list.
  \<^item> \<^verbatim>\<open>Co_Mutex\<close> (\<^verbatim>\<open>core/mutex.h\<close>, \<^verbatim>\<open>core/mutex.cpp\<close>): \<^verbatim>\<open>Mutex\<close>, \<^verbatim>\<open>LockGuard\<close> and \<^verbatim>\<open>Condition\<close>, as critical
    sections and as the system of all coroutines that use them.
  \<^item> \<^verbatim>\<open>Coro_Context\<close> (\<^verbatim>\<open>core/coro_context.h\<close>, \<^verbatim>\<open>core/coro_context.cpp\<close>): the loop of the context's own thread.
    \<^verbatim>\<open>Wakeup_Protocol\<close>: the same loop against the \<^verbatim>\<open>execute\<close> of other threads, step by step, with wake-ups
    that are counted; \<^verbatim>\<open>Ring_Loop\<close>: with the ring of \<^verbatim>\<open>net/io_uring.cpp\<close> in their place.
  \<^item> \<^verbatim>\<open>Coro_Frames\<close>, \<^verbatim>\<open>Coro_Lifetime\<close> (\<^verbatim>\<open>core/coro.h\<close>, \<^verbatim>\<open>CoroContext::spawn\<close>): coroutine frames on a heap, with
    the call stack that nested resumptions build; their invariant. \<^verbatim>\<open>Coro_Join\<close> (\<^verbatim>\<open>core/impl/coro.hpp\<close>):
    the completion handlers of \<^verbatim>\<open>join\<close>, and \<^verbatim>\<open>series\<close>. \<^verbatim>\<open>Coro_Objects\<close> (\<^verbatim>\<open>core/coro.h\<close>): the class
    \<^verbatim>\<open>Coro\<close> and its specialisation for \<^verbatim>\<open>void\<close>, member by member, as instances of one locale.
  \<^item> \<^verbatim>\<open>Coro_Sleep\<close> (\<^verbatim>\<open>core/impl/coro.hpp\<close>): \<^verbatim>\<open>sleep_for\<close> and \<^verbatim>\<open>sleep_until\<close> over the loop and the timers.
    \<^verbatim>\<open>Cond_Wait\<close> (\<^verbatim>\<open>core/mutex.h\<close>): \<^verbatim>\<open>Condition::wait\<close> with a predicate over the system of the mutex.
    \<^verbatim>\<open>Thread_Contexts\<close> (\<^verbatim>\<open>core/this_context.h\<close>, \<^verbatim>\<open>core/impl/this_context.hpp\<close>,
    \<^verbatim>\<open>utils/current_thread.h\<close>): the context of each thread and the functions that forward to it.
  \<^item> \<^verbatim>\<open>Thread_Pool\<close> (\<^verbatim>\<open>core/thread_pool.cpp\<close>): workers, clients and notifications; \<^verbatim>\<open>Pool_Offload\<close>
    (\<^verbatim>\<open>core/thread_pool.h\<close>): \<^verbatim>\<open>async\<close> and \<^verbatim>\<open>spawn_blocking\<close>, with the context that gets the results.
  \<^item> \<^verbatim>\<open>Context_Pool\<close> (\<^verbatim>\<open>core/coro_context_pool.cpp\<close>, \<^verbatim>\<open>utils/wait_group.h\<close>): construction, start and
    destruction of a pool of contexts.
  \<^item> \<^verbatim>\<open>Io_Service\<close> (\<^verbatim>\<open>net/io_service.cpp\<close>, \<^verbatim>\<open>core/io_context.h\<close>): the contexts and messages that requests
    allocate. \<^verbatim>\<open>Io_Uring\<close> (\<^verbatim>\<open>net/io_uring.cpp\<close>) and \<^verbatim>\<open>Iocp\<close> (\<^verbatim>\<open>net/iocp.cpp\<close>): the two services;
    \<^verbatim>\<open>Service_Backends\<close> compares what their callbacks are told. \<^verbatim>\<open>Io_Interface\<close> (\<^verbatim>\<open>core/io_service.h\<close>):
    the interface as a record of operations, both services as its tables, the abstract service they
    implement. \<^verbatim>\<open>Await_Handles\<close> (\<^verbatim>\<open>core/io_context.h\<close>, \<^verbatim>\<open>net/socket.cpp\<close>): a coroutine's side of an
    operation, from its suspension to its resumption; \<^verbatim>\<open>Io_Await\<close> and \<^verbatim>\<open>Await_Port\<close> compose it with the
    front end and the ring, and with the completion port.
  \<^item> \<^verbatim>\<open>Handle_Owner\<close>: the contract of a class that owns a descriptor, as a locale; \<^verbatim>\<open>File_Handles\<close>
    (\<^verbatim>\<open>core/file.cpp\<close>) and \<^verbatim>\<open>Socket_Handles\<close> (\<^verbatim>\<open>core/pipe.cpp\<close>, \<^verbatim>\<open>net/socket.cpp\<close>, \<^verbatim>\<open>net/acceptor.cpp\<close>) interpret
    it and model the operations; \<^verbatim>\<open>Inet_Address\<close> (\<^verbatim>\<open>net/address.cpp\<close>) is the address as bytes.
  \<^item> \<^verbatim>\<open>Generator\<close> (\<^verbatim>\<open>core/generator.h\<close>): promises with their shared root and leaf pointer, delegation by
    symmetric transfer, the iterator.
  \<^item> \<^verbatim>\<open>Line_Logger\<close> (\<^verbatim>\<open>utils/logger.h\<close>) and \<^verbatim>\<open>Async_Logger\<close> (\<^verbatim>\<open>utils/async_logger.h\<close>): the line that is built,
    and the exchange of buffers between writers and the background thread; \<^verbatim>\<open>Log_Output\<close>: the macros with the
    second as the output of the first.
  \<^item> \<^verbatim>\<open>Fork_Join_Sort\<close>, \<^verbatim>\<open>Copy_Examples\<close>, \<^verbatim>\<open>Echo_Tcp\<close>, \<^verbatim>\<open>Echo_Servers\<close>, \<^verbatim>\<open>Echo_Udp\<close> and \<^verbatim>\<open>Timed_Examples\<close>
    (\<^verbatim>\<open>examples/v3\<close>): the programs that compose the parts: a parallel sort, two copies of a file, a count of the
    lines of many files, the client and the connections that echo over TCP with both ends together, the three
    servers around them, the two that echo over UDP, a ticker and a coroutine that yields.

  \<^bold>\<open>How the code is modelled.\<close> A class is a record of its members; a member function is a definition of the
  same name, with a prefix for the class, that returns the new object, and the branches are the code's. An
  integer whose wrap-around matters is a machine word (\<^verbatim>\<open>size_t\<close> has 64 bits). A null pointer, an access
  outside an array or to a freed object is a value (\<open>None\<close>, or a fault), so that its absence is a theorem.
  \<^verbatim>\<open>M_FATAL\<close> and \<^verbatim>\<open>std::terminate\<close> are the left side of a sum. Threads are step relations: one step per
  critical section, and notifications and wake-ups are steps of their own. The bodies of coroutines and
  generators, tasks and callbacks are arguments: functions from a local state to the next action. What
  the code calls but does not contain is an argument, too: system calls with their results, liburing with
  its documented behaviour as a queue, fmt's formatting with its documented bounds as a hypothesis.

  \<^bold>\<open>What is shown.\<close>
  \<^item> Lifetime: coroutine frames, functors, generators' frames and descriptors are not used after they are
    destroyed and not destroyed twice, under any sequence of operations, and what is leaked is named.
  \<^item> Order and conservation: tasks, pool jobs, log messages, I/O operations and resumptions are in exactly
    one place, reach their end at most once, and in the order they were handed over.
  \<^item> Progress: no wake-up is lost between threads; waiting coroutines, workers, loggers and destructors can
    go on from every reachable state, or the state from which they cannot is shown.
  \<^item> Refinement: a generator behaves as a plain stack machine, and delegation as flattening; the files of
    the asynchronous logger are a prefix of the lines that the macros log; the two I/O services tell callbacks
    the same, and both are the abstract service.
  \<^item> Composition: a coroutine that awaits I/O, sleeps, or waits for a predicate is resumed once, with the
    right result and in the right state.
  \<^item> Programs: client and server hear what they said for every way the stream is cut; servers with callbacks
    and with coroutines make the same requests; connections run on the contexts of the pool in turn.
  \<^item> Function: expiry, \<^verbatim>\<open>join\<close>, file positions, addresses, open modes and the log line compute what they
    should, on every branch.
  Some theorems state what goes wrong: an exception that reaches an awaiting coroutine ends the process,
  \<^verbatim>\<open>series\<close> reads freed frames, a pool destroyed with tasks or never started does not return, and further
  lemmas of this kind in the theories.

  \<^bold>\<open>Bounds and fuel.\<close> Loops that end are recursive functions with a termination proof. The context's loop
  and a generator's resumption may not end: they are \<open>while_option\<close> or a fuelled function, and the theorems
  about them either give the fuel that is enough (the batch that stops the loop; the size of the nested
  values) or compare with a reference that fails to end in the same cases. \<^verbatim>\<open>IoCompletionPort::poll\<close> has
  1024 rounds, as in the code. A run of the echo client and its server has at most 277 steps, by a measure.
  Buffers have the code's sizes (4000, 400000 and 4000000 bytes).

  \<^bold>\<open>Not modelled.\<close> \<^verbatim>\<open>SystemError\<close>'s category object, beyond its messages; the arguments of \<^verbatim>\<open>select\<close>,
  which copies a move-only object so that no call of it compiles (its handlers are in \<^verbatim>\<open>Coro_Join\<close>); memory
  ordering below the level of mutexes; iterator category types; what the example programs print, and their
  \<^verbatim>\<open>main\<close> functions beyond the arguments they pass.
\<close>

end
